(* ===== verification/Prelude.thy ===== *)
theory Prelude
  imports Main "HOL-Library.Word"
begin

text \<open>
  Shared vocabulary of the development: the machine types of the C++ sources, byte-addressed
  memory, the interface of a mutable set of keys that the bitmap components provide, and the
  generic list facts several components use.
\<close>

unbundle bit_operations_syntax

section \<open>Machine types\<close>

type_synonym byte = "8 word"
type_synonym u16 = "16 word"
type_synonym u32 = "32 word"
type_synonym u64 = "64 word"

text \<open>A region of memory seen from a base pointer: the byte at each offset.\<close>

type_synonym memory = "nat \<Rightarrow> byte"

definition memset :: "nat \<Rightarrow> byte \<Rightarrow> nat \<Rightarrow> memory \<Rightarrow> memory" where
  "memset a c n m = (\<lambda>p. if a \<le> p \<and> p < a + n then c else m p)"

text \<open>Facts that open the representation of a component, and facts about bits of words.\<close>

named_theorems model_defs
named_theorems bit_facts

section \<open>Words\<close>

lemma unat_mod_8_less [simp, bit_facts]: "unat ((w :: u32) mod 8) < 8"
  by (simp add: unat_mod)

lemma unat_div_8 [bit_facts]: "unat ((w :: u32) div 8) = unat w div 8"
  by (simp add: unat_div)

lemma unat_mod_8 [bit_facts]: "unat ((w :: u32) mod 8) = unat w mod 8"
  by (simp add: unat_mod)

lemma byte_bit_push_one [bit_facts]:
  "bit (push_bit s (1 :: byte)) n \<longleftrightarrow> s < 8 \<and> n = s"
  by (auto simp: bit_push_bit_iff bit_1_iff simp del: push_bit_of_1)

lemma sint_small: "unat (w :: u32) < 2 ^ 31 \<Longrightarrow> sint w = int (unat w)"
proof -
  assume "unat w < 2 ^ 31"
  then have "int (unat w) < int (2 ^ 31)" by (simp only: of_nat_less_iff)
  then have "uint w < 2 ^ 31" by simp
  then have "signed_take_bit 31 (uint w) = uint w" by (intro signed_take_bit_int_eq_self) (simp_all add: order.trans [of _ 0])
  then show ?thesis by (simp add: sint_uint)
qed

lemma nat_eq_div_mod_8: "(a :: nat) = b \<longleftrightarrow> a div 8 = b div 8 \<and> a mod 8 = b mod 8"
  by (metis div_mult_mod_eq)

section \<open>A mutable set of keys\<close>

text \<open>
  The operations a bitmap offers, as a log of insertions and removals. The reference
  semantics of a log is the set that results from performing it in order.
\<close>

datatype 'k set_op = Ins 'k | Del 'k

fun key_of :: "'k set_op \<Rightarrow> 'k" where
  "key_of (Ins k) = k"
| "key_of (Del k) = k"

fun apply_set_op :: "'k set_op \<Rightarrow> 'k set \<Rightarrow> 'k set" where
  "apply_set_op (Ins k) S = insert k S"
| "apply_set_op (Del k) S = S - {k}"

text \<open>
  What a client of a bitmap relies on: after an insertion or a removal of a valid key, the
  membership test of every valid key answers as for the mathematical set, and the
  representation invariant is kept.
\<close>

locale key_set =
  fixes ins :: "'k \<Rightarrow> 's \<Rightarrow> 's"
    and del :: "'k \<Rightarrow> 's \<Rightarrow> 's"
    and mem :: "'k \<Rightarrow> 's \<Rightarrow> bool"
    and inv :: "'s \<Rightarrow> bool"
    and ok :: "'k \<Rightarrow> bool"
  assumes mem_ins: "inv s \<Longrightarrow> ok k \<Longrightarrow> ok j \<Longrightarrow> mem j (ins k s) \<longleftrightarrow> j = k \<or> mem j s"
    and mem_del: "inv s \<Longrightarrow> ok k \<Longrightarrow> ok j \<Longrightarrow> mem j (del k s) \<longleftrightarrow> j \<noteq> k \<and> mem j s"
    and inv_ins: "inv s \<Longrightarrow> ok k \<Longrightarrow> inv (ins k s)"
    and inv_del: "inv s \<Longrightarrow> ok k \<Longrightarrow> inv (del k s)"
begin

fun perform :: "'k set_op \<Rightarrow> 's \<Rightarrow> 's" where
  "perform (Ins k) s = ins k s"
| "perform (Del k) s = del k s"

definition members :: "'s \<Rightarrow> 'k set" where
  "members s = {k. ok k \<and> mem k s}"

lemma perform_inv: "inv s \<Longrightarrow> ok (key_of x) \<Longrightarrow> inv (perform x s)"
  by (cases x) (auto intro: inv_ins inv_del)

lemma perform_members:
  "inv s \<Longrightarrow> ok (key_of x) \<Longrightarrow> members (perform x s) = apply_set_op x (members s)"
  by (cases x) (auto simp: members_def mem_ins mem_del)

text \<open>A whole log of operations refines the same log on mathematical sets.\<close>

lemma fold_perform_refines:
  "inv s \<Longrightarrow> (\<And>x. x \<in> set xs \<Longrightarrow> ok (key_of x)) \<Longrightarrow>
   inv (fold perform xs s) \<and> members (fold perform xs s) = fold apply_set_op xs (members s)"
proof (induction xs arbitrary: s)
  case Nil
  then show ?case by simp
next
  case (Cons x xs)
  then have "inv (perform x s)" and "members (perform x s) = apply_set_op x (members s)"
    by (simp_all add: perform_inv perform_members)
  with Cons.IH [of "perform x s"] Cons.prems show ?case by simp
qed

lemma fold_ins_members:
  assumes "inv s" and "\<And>k. k \<in> set ks \<Longrightarrow> ok k"
  shows "members (fold ins ks s) = set ks \<union> members s"
proof -
  have "fold ins ks s = fold perform (map Ins ks) s" for s
    by (induction ks arbitrary: s) simp_all
  moreover have "fold apply_set_op (map Ins ks) S = set ks \<union> S" for S
    by (induction ks arbitrary: S) auto
  moreover have "\<And>x. x \<in> set (map Ins ks) \<Longrightarrow> ok (key_of x)"
    using assms(2) by auto
  ultimately show ?thesis
    using fold_perform_refines [OF assms(1), of "map Ins ks"] by simp
qed

end

section \<open>A pool of identifiers\<close>

text \<open>
  The contract of an allocator: what it hands out is not in use, and what is handed back
  becomes free again.
\<close>

locale id_pool =
  fixes acquire :: "'s \<Rightarrow> 'k option \<times> 's"
    and release :: "'k \<Rightarrow> 's \<Rightarrow> 's"
    and used :: "'s \<Rightarrow> 'k set"
    and inv :: "'s \<Rightarrow> bool"
  assumes acquire_some: "inv s \<Longrightarrow> acquire s = (Some k, s') \<Longrightarrow> k \<notin> used s \<and> used s' = insert k (used s) \<and> inv s'"
    and acquire_none: "inv s \<Longrightarrow> acquire s = (None, s') \<Longrightarrow> used s' = used s \<and> inv s'"
    and release: "inv s \<Longrightarrow> k \<in> used s \<Longrightarrow> used (release k s) = used s - {k} \<and> inv (release k s)"
begin

text \<open>A number of acquisitions in a row, with what they returned.\<close>

fun acquire_many :: "nat \<Rightarrow> 's \<Rightarrow> 'k list \<times> 's" where
  "acquire_many 0 s = ([], s)"
| "acquire_many (Suc n) s =
     (case acquire s of
        (None, s') \<Rightarrow> ([], s')
      | (Some k, s') \<Rightarrow> (case acquire_many n s' of (ks, s'') \<Rightarrow> (k # ks, s'')))"

lemma acquire_many_distinct:
  "inv s \<Longrightarrow> acquire_many n s = (ks, s') \<Longrightarrow>
   distinct ks \<and> set ks \<inter> used s = {} \<and> used s' = set ks \<union> used s \<and> inv s'"
proof (induction n arbitrary: s ks s')
  case 0
  then show ?case by simp
next
  case (Suc n)
  show ?case
  proof (cases "fst (acquire s)")
    case None
    then obtain t where "acquire s = (None, t)" by (metis prod.collapse)
    with Suc.prems show ?thesis using acquire_none by simp
  next
    case (Some k)
    then obtain t where t: "acquire s = (Some k, t)" by (metis prod.collapse)
    obtain ls u where u: "acquire_many n t = (ls, u)" by fastforce
    have "k \<notin> used s \<and> used t = insert k (used s) \<and> inv t"
      using acquire_some [OF Suc.prems(1) t] .
    then show ?thesis using Suc.IH [of t ls u] u t Suc.prems by auto
  qed
qed

text \<open>Releasing in any order what was acquired restores the pool.\<close>

lemma release_all:
  "inv s \<Longrightarrow> distinct ks \<Longrightarrow> set ks \<subseteq> used s \<Longrightarrow> used (fold release ks s) = used s - set ks \<and> inv (fold release ks s)"
proof (induction ks arbitrary: s)
  case (Cons k ks)
  then have "used (release k s) = used s - {k} \<and> inv (release k s)" using release by simp
  with Cons show ?case by (auto simp: subset_eq)
qed simp

end

end
