(* ===== verification/Bitsop.thy ===== *)
theory Bitsop
  imports Prelude
begin

text \<open>
  The bit operations of \<^verbatim>\<open>index_storage/common/bitsop.h\<close> and \<^verbatim>\<open>bitsop.c\<close>: bits of a byte
  array addressed from a base pointer, the bitwise copy, and the table-driven population
  count. The interpretations show that the bits at one base address are a mutable set of
  bit numbers.
\<close>

section \<open>Operations\<close>

definition set_b :: "u32 \<Rightarrow> nat \<Rightarrow> memory \<Rightarrow> memory" where
  "set_b b addr m =
     (let begin_p = addr + unat (b div 8); shift = unat (b mod 8)
      in m(begin_p := m begin_p OR push_bit shift 1))"

definition isset_b :: "u32 \<Rightarrow> nat \<Rightarrow> memory \<Rightarrow> bool" where
  "isset_b b addr m =
     (let begin_p = addr + unat (b div 8); shift = unat (b mod 8)
      in 0 < m begin_p AND push_bit shift 1)"

definition clr_b :: "u32 \<Rightarrow> nat \<Rightarrow> memory \<Rightarrow> memory" where
  "clr_b b addr m =
     (let begin_p = addr + unat (b div 8); shift = unat (b mod 8)
      in m(begin_p := m begin_p AND NOT (push_bit shift 1)))"

definition readbyte :: "nat \<Rightarrow> memory \<Rightarrow> byte" where
  "readbyte addr m = m addr"

definition writebyte :: "byte \<Rightarrow> nat \<Rightarrow> memory \<Rightarrow> memory" where
  "writebyte val addr m = m(addr := val)"

text \<open>\<^verbatim>\<open>__bit_copy\<close>: the loop runs \<open>count\<close> times and advances both bit numbers, which wrap
  at 32 bits. Source and destination live in the same memory and may overlap.\<close>

fun bit_copy_loop :: "nat \<Rightarrow> u32 \<Rightarrow> nat \<Rightarrow> u32 \<Rightarrow> nat \<Rightarrow> memory \<Rightarrow> memory" where
  "bit_copy_loop 0 dest_bit dest src_bit src m = m"
| "bit_copy_loop (Suc n) dest_bit dest src_bit src m =
     bit_copy_loop n (dest_bit + 1) dest (src_bit + 1) src
       (if isset_b src_bit src m then set_b dest_bit dest m else clr_b dest_bit dest m)"

definition bit_copy :: "u32 \<Rightarrow> nat \<Rightarrow> u32 \<Rightarrow> nat \<Rightarrow> u32 \<Rightarrow> memory \<Rightarrow> memory" where
  "bit_copy dest_bit dest src_bit src count m =
     bit_copy_loop (unat count) dest_bit dest src_bit src m"

definition bitcount_table :: "nat list" where
  "bitcount_table =
     [0, 1, 1, 2, 1, 2, 2, 3, 1, 2, 2, 3, 2, 3, 3, 4,
      1, 2, 2, 3, 2, 3, 3, 4, 2, 3, 3, 4, 3, 4, 4, 5,
      1, 2, 2, 3, 2, 3, 3, 4, 2, 3, 3, 4, 3, 4, 4, 5,
      2, 3, 3, 4, 3, 4, 4, 5, 3, 4, 4, 5, 4, 5, 5, 6,
      1, 2, 2, 3, 2, 3, 3, 4, 2, 3, 3, 4, 3, 4, 4, 5,
      2, 3, 3, 4, 3, 4, 4, 5, 3, 4, 4, 5, 4, 5, 5, 6,
      2, 3, 3, 4, 3, 4, 4, 5, 3, 4, 4, 5, 4, 5, 5, 6,
      3, 4, 4, 5, 4, 5, 5, 6, 4, 5, 5, 6, 5, 6, 6, 7,
      1, 2, 2, 3, 2, 3, 3, 4, 2, 3, 3, 4, 3, 4, 4, 5,
      2, 3, 3, 4, 3, 4, 4, 5, 3, 4, 4, 5, 4, 5, 5, 6,
      2, 3, 3, 4, 3, 4, 4, 5, 3, 4, 4, 5, 4, 5, 5, 6,
      3, 4, 4, 5, 4, 5, 5, 6, 4, 5, 5, 6, 5, 6, 6, 7,
      2, 3, 3, 4, 3, 4, 4, 5, 3, 4, 4, 5, 4, 5, 5, 6,
      3, 4, 4, 5, 4, 5, 5, 6, 4, 5, 5, 6, 5, 6, 6, 7,
      3, 4, 4, 5, 4, 5, 5, 6, 4, 5, 5, 6, 5, 6, 6, 7,
      4, 5, 5, 6, 5, 6, 6, 7, 5, 6, 6, 7, 6, 7, 7, 8]"

fun CountBits :: "nat \<Rightarrow> nat \<Rightarrow> memory \<Rightarrow> nat" where
  "CountBits buf 0 m = 0"
| "CountBits buf (Suc sz) m = bitcount_table ! unat (m buf) + CountBits (Suc buf) sz m"

section \<open>Bits seen through the operations\<close>

lemma isset_b_iff [bit_facts]:
  "isset_b b a m \<longleftrightarrow> bit (m (a + unat b div 8)) (unat b mod 8)"
  by (simp add: isset_b_def Let_def word_gt_0 bit_facts bit_iff_and_push_bit_not_eq_0
      del: push_bit_of_1)

lemma set_b_bit [bit_facts]:
  "bit (set_b b a m p) n \<longleftrightarrow> bit (m p) n \<or> p = a + unat b div 8 \<and> n = unat b mod 8"
  by (auto simp: set_b_def Let_def bit_or_iff bit_facts simp del: push_bit_of_1)

lemma clr_b_bit [bit_facts]:
  "bit (clr_b b a m p) n \<longleftrightarrow> bit (m p) n \<and> \<not> (p = a + unat b div 8 \<and> n = unat b mod 8)"
  by (auto simp: clr_b_def Let_def bit_and_iff bit_not_iff bit_facts
      simp del: push_bit_of_1 dest: bit_imp_le_length)

lemma set_b_other: "p \<noteq> a + unat b div 8 \<Longrightarrow> set_b b a m p = m p"
  by (simp add: set_b_def Let_def bit_facts)

lemma clr_b_other: "p \<noteq> a + unat b div 8 \<Longrightarrow> clr_b b a m p = m p"
  by (simp add: clr_b_def Let_def bit_facts)

lemma isset_set_b: "isset_b j a (set_b b a m) \<longleftrightarrow> j = b \<or> isset_b j a m"
  unfolding isset_b_iff set_b_bit by (metis add_left_imp_eq nat_eq_div_mod_8 unsigned_word_eqI)

lemma isset_clr_b: "isset_b j a (clr_b b a m) \<longleftrightarrow> j \<noteq> b \<and> isset_b j a m"
  unfolding isset_b_iff clr_b_bit by (metis add_left_imp_eq nat_eq_div_mod_8 unsigned_word_eqI)

interpretation raw_bits: key_set "\<lambda>b. set_b b a" "\<lambda>b. clr_b b a" "\<lambda>b. isset_b b a" "\<lambda>_. True" "\<lambda>_. True"
  for a
  by unfold_locales (simp_all add: isset_set_b isset_clr_b)

section \<open>Bitwise copy\<close>

lemma isset_b_set_other: "s + unat j div 8 \<noteq> d + unat b div 8 \<Longrightarrow> isset_b j s (set_b b d m) = isset_b j s m"
  by (simp add: isset_b_iff set_b_other)

lemma isset_b_clr_other: "s + unat j div 8 \<noteq> d + unat b div 8 \<Longrightarrow> isset_b j s (clr_b b d m) = isset_b j s m"
  by (simp add: isset_b_iff clr_b_other)

lemma bit_copy_loop_frame:
  "(\<And>i. i < n \<Longrightarrow> j \<noteq> db + of_nat i) \<Longrightarrow> isset_b j d (bit_copy_loop n db d sb s m) = isset_b j d m"
proof (induction n arbitrary: db sb m)
  case 0
  then show ?case by simp
next
  case (Suc n)
  have "j \<noteq> db + 1 + of_nat i" if "i < n" for i
    using Suc.prems [of "Suc i"] that by (simp add: ac_simps)
  moreover have "j \<noteq> db"
    using Suc.prems [of 0] by simp
  ultimately show ?case
    using Suc.IH [of "db + 1"] by (simp add: isset_set_b isset_clr_b)
qed

lemma bit_copy_loop_copies:
  assumes "n \<le> 2 ^ 32"
    and "\<And>i j. i < n \<Longrightarrow> j < n \<Longrightarrow> s + unat (sb + of_nat i) div 8 \<noteq> d + unat (db + of_nat j) div 8"
    and "i < n"
  shows "isset_b (db + of_nat i) d (bit_copy_loop n db d sb s m) = isset_b (sb + of_nat i) s m"
  using assms
proof (induction n arbitrary: db sb m i)
  case 0
  then show ?case by simp
next
  case (Suc n)
  let ?m = "if isset_b sb s m then set_b db d m else clr_b db d m"
  have disj: "s + unat (sb + 1 + of_nat i) div 8 \<noteq> d + unat (db + 1 + of_nat j) div 8"
    if "i < n" "j < n" for i j
    using Suc.prems(2) [of "Suc i" "Suc j"] that by (simp add: ac_simps)
  show ?case
  proof (cases i)
    case 0
    have "db \<noteq> db + 1 + of_nat k" if "k < n" for k
    proof -
      have "unat (of_nat (Suc k) :: u32) = Suc k"
        using that Suc.prems(1) by (simp add: unat_of_nat del: of_nat_Suc)
      then have "of_nat (Suc k) \<noteq> (0 :: u32)" by (metis Zero_not_Suc unat_0)
      then show ?thesis by (simp add: add.assoc)
    qed
    with 0 show ?thesis by (simp add: bit_copy_loop_frame isset_set_b isset_clr_b)
  next
    case (Suc k)
    with Suc.prems(3) have k: "k < n" by simp
    have "isset_b (db + 1 + of_nat k) d (bit_copy_loop n (db + 1) d (sb + 1) s ?m) =
          isset_b (sb + 1 + of_nat k) s ?m"
      using Suc.IH [of "sb + 1" "db + 1" k ?m] Suc.prems(1) disj k by simp
    also have "\<dots> = isset_b (sb + 1 + of_nat k) s m"
      using Suc.prems(2) [of "Suc k" 0] k
      by (simp add: isset_b_set_other isset_b_clr_other ac_simps)
    finally show ?thesis
      by (simp add: Suc ac_simps)
  qed
qed

section \<open>Population count\<close>

text \<open>The table is built by doubling: the upper half repeats the lower half plus one.\<close>

definition doubled :: "nat list \<Rightarrow> nat list" where
  "doubled t = t @ map Suc t"

lemma bitcount_table_doubled:
  "bitcount_table = doubled (doubled (doubled (doubled (doubled (doubled (doubled (doubled [0])))))))"
  by (simp add: bitcount_table_def doubled_def)

definition counts_bits :: "nat \<Rightarrow> nat list \<Rightarrow> bool" where
  "counts_bits k t \<longleftrightarrow> length t = 2 ^ k \<and> (\<forall>n < 2 ^ k. t ! n = card {i. i < k \<and> bit n i})"

lemma bits_below_Suc:
  "{i. i < Suc k \<and> bit (n :: nat) i} = {i. i < k \<and> bit n i} \<union> (if bit n k then {k} else {})"
  by (auto simp: less_Suc_eq)

lemma counts_bits_doubled: "counts_bits k t \<Longrightarrow> counts_bits (Suc k) (doubled t)"
proof (unfold counts_bits_def, intro conjI allI impI)
  assume t: "length t = 2 ^ k \<and> (\<forall>n < 2 ^ k. t ! n = card {i. i < k \<and> bit n i})"
  then show "length (doubled t) = 2 ^ Suc k"
    by (simp add: doubled_def)
  fix n :: nat
  assume n: "n < 2 ^ Suc k"
  show "doubled t ! n = card {i. i < Suc k \<and> bit n i}"
  proof (cases "n < 2 ^ k")
    case True
    then have "\<not> bit n k"
      by (simp add: bit_iff_odd)
    with True t show ?thesis
      by (simp add: doubled_def nth_append bits_below_Suc)
  next
    case False
    define m where "m = n - 2 ^ k"
    with False n have m: "n = m + 2 ^ k" "m < 2 ^ k" by auto
    have "bit n i = bit m i" if "i < k" for i
      using that m by (metis bit_take_bit_iff take_bit_eq_mod mod_add_self2)
    then have "{i. i < k \<and> bit n i} = {i. i < k \<and> bit m i}" by auto
    moreover have "bit n k"
      using m by (simp add: bit_iff_odd div_add_self2)
    ultimately show ?thesis
      using t m by (simp add: doubled_def nth_append bits_below_Suc)
  qed
qed

lemma counts_bits_table: "counts_bits 8 bitcount_table"
proof -
  have "counts_bits 0 [0]"
    by (simp add: counts_bits_def)
  then show ?thesis
    unfolding bitcount_table_doubled
    using counts_bits_doubled by (simp add: numeral_eq_Suc)
qed

lemma bitcount_table_card: "bitcount_table ! unat (w :: byte) = card {n. n < 8 \<and> bit w n}"
proof -
  have "unat w < 2 ^ 8"
    using unsigned_less [of w, where 'a = nat] by simp
  moreover have "{n. n < 8 \<and> bit (unat w) n} = {n. n < 8 \<and> bit w n}"
    by (auto simp: bit_unsigned_iff)
  ultimately show ?thesis
    using counts_bits_table unfolding counts_bits_def by metis
qed

text \<open>The set bits of \<open>sz\<close> bytes from \<open>a\<close>, numbered from the base address.\<close>

definition bits_in :: "nat \<Rightarrow> nat \<Rightarrow> memory \<Rightarrow> nat set" where
  "bits_in a sz m = {k. k < 8 * sz \<and> bit (m (a + k div 8)) (k mod 8)}"

lemma bits_in_Suc: "bits_in a (Suc sz) m = {n. n < 8 \<and> bit (m a) n} \<union> (\<lambda>k. k + 8) ` bits_in (Suc a) sz m"
proof (rule set_eqI)
  fix k
  show "k \<in> bits_in a (Suc sz) m \<longleftrightarrow> k \<in> {n. n < 8 \<and> bit (m a) n} \<union> (\<lambda>k. k + 8) ` bits_in (Suc a) sz m"
  proof (cases "k < 8")
    case True
    then show ?thesis by (auto simp: bits_in_def)
  next
    case False
    then obtain j where j: "k = j + 8"
      by (metis add.commute le_Suc_ex not_less)
    have "(\<lambda>k. k + 8) j \<in> (\<lambda>k. k + 8) ` bits_in (Suc a) sz m \<longleftrightarrow> j \<in> bits_in (Suc a) sz m"
      by (auto simp: image_iff)
    moreover have "(j + 8) div 8 = Suc (j div 8)" by simp
    ultimately show ?thesis by (simp add: j) (simp add: bits_in_def)
  qed
qed

lemma finite_bits_in [simp]: "finite (bits_in a sz m)"
  by (rule finite_subset [of _ "{..<8 * sz}"]) (auto simp: bits_in_def)

lemma CountBits_card: "CountBits a sz m = card (bits_in a sz m)"
proof (induction sz arbitrary: a)
  case 0
  then show ?case by (simp add: bits_in_def)
next
  case (Suc sz)
  have "{n. n < 8 \<and> bit (m a) n} \<inter> (\<lambda>k. k + 8) ` bits_in (Suc a) sz m = {}"
    by auto
  then have "card (bits_in a (Suc sz) m) =
      card {n. n < 8 \<and> bit (m a) n} + card ((\<lambda>k. k + 8) ` bits_in (Suc a) sz m)"
    unfolding bits_in_Suc by (subst card_Un_disjoint) auto
  also have "card ((\<lambda>k. k + 8) ` bits_in (Suc a) sz m) = card (bits_in (Suc a) sz m)"
    by (rule card_image) simp
  finally show ?case
    by (simp add: Suc.IH bitcount_table_card)
qed

end
