(* ===== verification/Bytes.thy ===== *)
theory Bytes
  imports Prelude
begin

text \<open>
  Byte strings: the order \<^verbatim>\<open>memcmp\<close> and \<^verbatim>\<open>std::string::compare\<close> use, loads and stores of
  64-bit integers on a little-endian host, the decimal conversions of the C and C++
  library, and the interface of an order-preserving, self-delimiting encoding.
\<close>

section \<open>Loads and stores\<close>

text \<open>A little-endian load of eight bytes, the access \<^verbatim>\<open>p[i]\<close> through a \<^verbatim>\<open>uint64_t *\<close>.\<close>

definition load_u64 :: "nat \<Rightarrow> memory \<Rightarrow> u64" where
  "load_u64 a m = foldr (\<lambda>t acc. push_bit (8 * t) (ucast (m (a + t))) OR acc) [0..<8] 0"

text \<open>\<^verbatim>\<open>memcpy\<close> of a 64-bit integer into a byte array.\<close>

definition store_u64 :: "u64 \<Rightarrow> byte list" where
  "store_u64 w = map (\<lambda>i. ucast (drop_bit (8 * i) w)) [0..<8]"

text \<open>\<^verbatim>\<open>htonl\<close> on a little-endian host reverses the four bytes; \<^verbatim>\<open>ntohl\<close> is the same function.\<close>

definition htonl :: "u32 \<Rightarrow> u32" where
  "htonl w =
     push_bit 24 (ucast (ucast w :: byte)) OR push_bit 16 (ucast (ucast (drop_bit 8 w) :: byte)) OR
     push_bit 8 (ucast (ucast (drop_bit 16 w) :: byte)) OR ucast (ucast (drop_bit 24 w) :: byte)"

lemma load_u64_bit: "bit (load_u64 a m) n \<longleftrightarrow> n < 64 \<and> bit (m (a + n div 8)) (n mod 8)"
proof -
  have split: "n < 64 \<longleftrightarrow> n div 8 \<in> set [0..<8]" by auto
  have "bit (foldr (\<lambda>t acc. push_bit (8 * t) (ucast (m (a + t))) OR acc) ts (0 :: u64)) n \<longleftrightarrow>
        (\<exists>t \<in> set ts. n < 64 \<and> 8 * t \<le> n \<and> bit (m (a + t)) (n - 8 * t))" for ts
    by (induction ts) (auto simp: bit_or_iff bit_push_bit_iff bit_unsigned_iff dest: bit_imp_le_length)
  moreover have "(\<exists>t \<in> set [0..<8]. n < 64 \<and> 8 * t \<le> n \<and> bit (m (a + t)) (n - 8 * t)) \<longleftrightarrow>
        n < 64 \<and> bit (m (a + n div 8)) (n mod 8)" (is "?L \<longleftrightarrow> ?R")
  proof
    assume ?L
    then obtain t where t: "t < 8" "n < 64" "8 * t \<le> n" "bit (m (a + t)) (n - 8 * t)" by auto
    then have "n - 8 * t < 8"
      using bit_imp_le_length [of "m (a + t)" "n - 8 * t"] by simp
    with t have "t = n div 8" by linarith
    with t show ?R by (simp add: minus_mult_div_eq_mod)
  next
    assume ?R
    then show ?L using split
      by (auto intro!: bexI [of _ "n div 8"] simp: minus_mult_div_eq_mod)
  qed
  ultimately show ?thesis unfolding load_u64_def by simp
qed

lemma length_store_u64 [simp]: "length (store_u64 w) = 8"
  by (simp add: store_u64_def)

lemma load_store_u64: "load_u64 0 (\<lambda>i. (store_u64 w @ s) ! i) = w"
proof (rule bit_word_eqI)
  fix n
  assume n: "n < LENGTH(64)"
  then have "n div 8 < 8" by simp
  then have "(store_u64 w @ s) ! (n div 8) = ucast (drop_bit (8 * (n div 8)) w)"
    by (simp add: nth_append store_u64_def)
  moreover have "8 * (n div 8) + n mod 8 = n" by simp
  ultimately show "bit (load_u64 0 (\<lambda>i. (store_u64 w @ s) ! i)) n \<longleftrightarrow> bit w n"
    using n by (simp add: load_u64_bit bit_unsigned_iff bit_drop_bit_eq)
qed

section \<open>Order of byte strings\<close>

text \<open>Three-way lexicographic comparison on unsigned bytes.\<close>

fun bcmp :: "byte list \<Rightarrow> byte list \<Rightarrow> int" where
  "bcmp [] [] = 0"
| "bcmp [] (b # bs) = -1"
| "bcmp (a # as) [] = 1"
| "bcmp (a # as) (b # bs) = (if a < b then -1 else if b < a then 1 else bcmp as bs)"

text \<open>\<^verbatim>\<open>memcmp\<close> over the first \<open>n\<close> bytes.\<close>

definition memcmp :: "byte list \<Rightarrow> byte list \<Rightarrow> nat \<Rightarrow> int" where
  "memcmp a b n = bcmp (take n a) (take n b)"

definition cmp3 :: "'a :: linorder \<Rightarrow> 'a \<Rightarrow> int" where
  "cmp3 x y = (if x < y then -1 else if y < x then 1 else 0)"

lemma bcmp_self [simp]: "bcmp a a = 0"
  by (induction a) auto

lemma bcmp_eq_0 [simp]: "bcmp a b = 0 \<longleftrightarrow> a = b"
  by (induction a b rule: bcmp.induct) (auto simp: not_less_iff_gr_or_eq)

lemma bcmp_antisym: "bcmp b a = - bcmp a b"
  by (induction a b rule: bcmp.induct) auto

lemma bcmp_range: "bcmp a b \<in> {-1, 0, 1}"
  by (induction a b rule: bcmp.induct) auto

lemma bcmp_trans: "bcmp a b \<le> 0 \<Longrightarrow> bcmp b c \<le> 0 \<Longrightarrow> bcmp a c \<le> 0"
proof (induction a b arbitrary: c rule: bcmp.induct)
  case (2 b bs)
  then show ?case by (cases c) auto
next
  case (4 a as b bs)
  then show ?case by (cases c) (auto split: if_splits)
qed auto

lemma bcmp_append:
  "length a = length b \<Longrightarrow> bcmp (a @ s) (b @ t) = (if a = b then bcmp s t else bcmp a b)"
  by (induction a b rule: list_induct2) auto

lemma bcmp_take: "length x < n \<Longrightarrow> bcmp x (take n y) = bcmp x y"
proof (induction x y arbitrary: n rule: bcmp.induct)
  case (2 b bs)
  then show ?case by (cases n) auto
next
  case (4 a as b bs)
  then show ?case by (cases n) auto
qed auto

lemma cmp3_eq_0 [simp]: "cmp3 x y = 0 \<longleftrightarrow> x = y"
  by (auto simp: cmp3_def)

section \<open>Order-preserving encodings\<close>

text \<open>
  The contract of a key encoding: comparing two encodings, whatever follows them, decides by
  the values first and by what follows only for equal values. So encodings sort like the
  values, none is a proper prefix of another, and they can be concatenated. \<open>same\<close> tells
  which values may be compared with each other.
\<close>

locale ordered_codec =
  fixes enc :: "'v \<Rightarrow> byte list"
    and vcmp :: "'v \<Rightarrow> 'v \<Rightarrow> int"
    and same :: "'v \<Rightarrow> 'v \<Rightarrow> bool"
  assumes enc_cmp:
    "same x y \<Longrightarrow> bcmp (enc x @ s) (enc y @ t) = (if vcmp x y = 0 then bcmp s t else vcmp x y)"
begin

lemma enc_order: "same x y \<Longrightarrow> bcmp (enc x) (enc y) = vcmp x y"
  using enc_cmp [of x y "[]" "[]"] by simp

lemma enc_self_delimiting: "same x y \<Longrightarrow> enc x @ s = enc y @ t \<Longrightarrow> enc x = enc y \<and> s = t"
  using enc_cmp [of x y s t] enc_order [of x y] by (metis append_same_eq bcmp_eq_0 same_append_eq)

text \<open>Different values already differ within the length of the shorter encoding.\<close>

lemma enc_cmp_min:
  assumes "same x y" and "vcmp x y \<noteq> 0"
  defines "n \<equiv> min (length (enc x)) (length (enc y))"
  shows "bcmp (take n (enc x)) (take n (enc y)) = vcmp x y"
proof -
  have "take n (enc x) \<noteq> take n (enc y)"
  proof
    assume eq: "take n (enc x) = take n (enc y)"
    have "enc x @ drop n (enc y) = enc y @ drop n (enc x)"
    proof (cases "length (enc x) \<le> length (enc y)")
      case True
      then show ?thesis using eq by (metis append_Nil2 append_take_drop_id drop_all min.absorb1 n_def order_refl take_all)
    next
      case False
      then show ?thesis
        using eq by (metis append_Nil2 append_take_drop_id drop_all linorder_le_cases min.absorb2 n_def order_refl take_all)
    qed
    then show False using enc_cmp [OF assms(1)] assms(2) by (metis bcmp_self)
  qed
  then have "bcmp (take n (enc x) @ drop n (enc x)) (take n (enc y) @ drop n (enc y)) =
      bcmp (take n (enc x)) (take n (enc y))"
    by (subst bcmp_append) (simp_all add: n_def)
  then show ?thesis using enc_order [OF assms(1)] by simp
qed

fun row_cmp :: "'v list \<Rightarrow> 'v list \<Rightarrow> int" where
  "row_cmp (x # xs) (y # ys) = (if vcmp x y = 0 then row_cmp xs ys else vcmp x y)"
| "row_cmp _ _ = 0"

text \<open>Concatenated encodings sort like the tuples of values, field by field.\<close>

lemma enc_row_cmp:
  "list_all2 same xs ys \<Longrightarrow>
   bcmp (concat (map enc xs) @ s) (concat (map enc ys) @ t) =
     (if row_cmp xs ys = 0 then bcmp s t else row_cmp xs ys)"
  by (induction xs ys rule: list_all2_induct) (auto simp: enc_cmp)

end

section \<open>Big-endian integers\<close>

text \<open>The most significant byte first: the order of the bytes is the order of the numbers.\<close>

fun be_bytes :: "nat \<Rightarrow> nat \<Rightarrow> byte list" where
  "be_bytes 0 v = []"
| "be_bytes (Suc n) v = word_of_nat (v div 256 ^ n) # be_bytes n (v mod 256 ^ n)"

lemma length_be_bytes [simp]: "length (be_bytes n v) = n"
  by (induction n arbitrary: v) simp_all

lemma bcmp_be_bytes: "v < 256 ^ n \<Longrightarrow> w < 256 ^ n \<Longrightarrow> bcmp (be_bytes n v) (be_bytes n w) = cmp3 v w"
proof (induction n arbitrary: v w)
  case 0
  then show ?case by (simp add: cmp3_def)
next
  case (Suc n)
  let ?b = "256 ^ n :: nat"
  have "v div ?b < 256" "w div ?b < 256"
    using Suc.prems by (simp_all add: less_mult_imp_div_less)
  then have less: "(word_of_nat (v div ?b) :: byte) < word_of_nat (w div ?b) \<longleftrightarrow> v div ?b < w div ?b"
    "(word_of_nat (w div ?b) :: byte) < word_of_nat (v div ?b) \<longleftrightarrow> w div ?b < v div ?b"
    by (simp_all add: word_less_nat_alt unat_of_nat)
  have "bcmp (be_bytes n (v mod ?b)) (be_bytes n (w mod ?b)) = cmp3 (v mod ?b) (w mod ?b)"
    by (rule Suc.IH) simp_all
  moreover have "v div ?b < w div ?b \<Longrightarrow> v < w" "w div ?b < v div ?b \<Longrightarrow> w < v"
    by (meson div_le_mono linorder_not_less)+
  moreover have "x mod ?b < y mod ?b \<longleftrightarrow> x < y" if "x div ?b = y div ?b" for x y
    using div_mult_mod_eq [of x ?b] div_mult_mod_eq [of y ?b] that by (metis add_less_cancel_left)
  ultimately show ?case
    by (auto simp: less cmp3_def)
qed

lemma bit_be_bytes:
  "v < 256 ^ n \<Longrightarrow> i < n \<Longrightarrow> b < 8 \<Longrightarrow> bit (be_bytes n v ! i) b \<longleftrightarrow> bit v (8 * (n - 1 - i) + b)"
proof (induction n arbitrary: v i)
  case 0
  then show ?case by simp
next
  case (Suc n)
  have pow: "(256 :: nat) ^ n = 2 ^ (8 * n)"
    by (simp add: power_mult)
  show ?case
  proof (cases i)
    case 0
    then show ?thesis
      using Suc.prems(3) by (simp add: pow bit_of_nat_iff bit_drop_bit_eq flip: drop_bit_eq_div)
  next
    case (Suc k)
    then have "bit (be_bytes (Suc n) v ! i) b \<longleftrightarrow> bit (v mod 256 ^ n) (8 * (n - 1 - k) + b)"
      using Suc.IH [of "v mod 256 ^ n" k] Suc.prems by simp
    moreover have "8 * (n - 1 - k) + b < 8 * n"
      using Suc Suc.prems by linarith
    ultimately show ?thesis
      by (simp add: Suc pow bit_take_bit_iff flip: take_bit_eq_mod)
  qed
qed

section \<open>Decimal numbers\<close>

definition c_str :: "byte list \<Rightarrow> byte list" where
  "c_str s = takeWhile (\<lambda>b. b \<noteq> 0) s"

definition is_space :: "byte \<Rightarrow> bool" where
  "is_space b \<longleftrightarrow> 9 \<le> b \<and> b \<le> 13 \<or> b = 32"

definition is_digit :: "byte \<Rightarrow> bool" where
  "is_digit b \<longleftrightarrow> 48 \<le> b \<and> b \<le> 57"

definition strto_sign :: "byte list \<Rightarrow> bool \<times> byte list" where
  "strto_sign s =
     (case dropWhile is_space s of
        [] \<Rightarrow> (False, [])
      | c # cs \<Rightarrow> if c = 45 then (True, cs) else if c = 43 then (False, cs) else (False, c # cs))"

definition digits_value :: "byte list \<Rightarrow> nat" where
  "digits_value s = foldl (\<lambda>a d. 10 * a + (unat d - 48)) 0 (takeWhile is_digit s)"

definition strtoll :: "byte list \<Rightarrow> u64" where
  "strtoll s =
     (case strto_sign s of (neg, ds) \<Rightarrow>
        let v = int (digits_value ds); x = (if neg then - v else v)
        in word_of_int (max (- (2 ^ 63)) (min (2 ^ 63 - 1) x)))"

definition strtoull :: "byte list \<Rightarrow> u64" where
  "strtoull s =
     (case strto_sign s of (neg, ds) \<Rightarrow>
        let v = digits_value ds
        in if v > 2 ^ 64 - 1 then word_of_nat (2 ^ 64 - 1)
           else if neg then - word_of_nat v else word_of_nat v)"

fun dec :: "nat \<Rightarrow> byte list" where
  "dec n = (if n < 10 then [word_of_nat (48 + n)] else dec (n div 10) @ [word_of_nat (48 + n mod 10)])"

declare dec.simps [simp del]

definition to_string_s64 :: "u64 \<Rightarrow> byte list" where
  "to_string_s64 w = (if sint w < 0 then 45 # dec (nat (- sint w)) else dec (nat (sint w)))"

definition to_string_u64 :: "u64 \<Rightarrow> byte list" where
  "to_string_u64 w = dec (unat w)"

text \<open>\<^verbatim>\<open>atoi\<close> converts through \<^verbatim>\<open>strtol\<close>, whose \<^verbatim>\<open>long\<close> has 64 bits, and keeps the low half.\<close>

definition atoi :: "byte list \<Rightarrow> u32" where
  "atoi s = ucast (strtoll (c_str s))"

end
