(* ===== verification/Lru_Bit.thy ===== *)
theory Lru_Bit
  imports Bitsop Bytes
begin

text \<open>
  The LRU change bitmap of \<^verbatim>\<open>index_storage/cache/lru_bit.h\<close> and \<^verbatim>\<open>lru_bit.cc\<close>: one
  \<^verbatim>\<open>lru_bit\<close> holds a bit per node id of a block of \<open>2^21\<close> ids and an index bit per
  64 ids; \<^verbatim>\<open>LruBitObj\<close> holds the blocks, and its \<^verbatim>\<open>Scan\<close> reports the changed ids to the
  hot-backup log and clears them. The clock (\<^verbatim>\<open>GET_MSEC\<close>) and the node lookup that
  \<^verbatim>\<open>LruWriter::Write\<close> performs are arguments.
\<close>

section \<open>Positions of a node id\<close>

definition BBLK_OFF :: "u32 \<Rightarrow> u32" where
  "BBLK_OFF v = drop_bit 21 v"

definition IDX_BYTE_OFF :: "u32 \<Rightarrow> u32" where
  "IDX_BYTE_OFF v = drop_bit 9 v AND 0xFFF"

definition IDX_BYTE_SHIFT :: "u32 \<Rightarrow> u32" where
  "IDX_BYTE_SHIFT v = drop_bit 6 v AND 0x7"

definition BLK_BYTE_OFF :: "u32 \<Rightarrow> u32" where
  "BLK_BYTE_OFF v = drop_bit 3 v AND 0x3FFFF"

definition BLK_BYTE_SHIFT :: "u32 \<Rightarrow> u32" where
  "BLK_BYTE_SHIFT v = v AND 0x7"

section \<open>One block: \<^verbatim>\<open>lru_bit\<close>\<close>

record lru_bit =
  lb_idx :: memory
  lb_blk :: memory

definition lru_bit_new :: lru_bit where
  "lru_bit_new = \<lparr>lb_idx = (\<lambda>_. 0), lb_blk = (\<lambda>_. 0)\<rparr>"

definition lru_bit_set :: "u32 \<Rightarrow> int \<Rightarrow> lru_bit \<Rightarrow> int \<times> lru_bit" where
  "lru_bit_set v b p =
     (let byte_shift = BLK_BYTE_SHIFT v; byte_offset = unat (BLK_BYTE_OFF v)
      in if b \<noteq> 0
         then if isset_b byte_shift byte_offset (lb_blk p)
              then (1, p)
              else (0, p\<lparr>lb_blk := set_b byte_shift byte_offset (lb_blk p),
                         lb_idx := set_b (IDX_BYTE_SHIFT v) (unat (IDX_BYTE_OFF v)) (lb_idx p)\<rparr>)
         else (0, p\<lparr>lb_blk := clr_b byte_shift byte_offset (lb_blk p)\<rparr>))"

definition lru_bit_clear :: "nat \<Rightarrow> lru_bit \<Rightarrow> nat \<times> lru_bit" where
  "lru_bit_clear idx_off p =
     (let clear_bits = CountBits (push_bit 6 idx_off) (push_bit 6 1) (lb_blk p)
      in (clear_bits,
          p\<lparr>lb_idx := memset idx_off 0 1 (lb_idx p),
            lb_blk := memset (push_bit 6 idx_off) 0 (push_bit 6 1) (lb_blk p)\<rparr>))"

definition lru_bit_read :: "nat \<Rightarrow> nat \<Rightarrow> lru_bit \<Rightarrow> u64" where
  "lru_bit_read idx_off idx_shift p =
     (if isset_b (word_of_nat idx_shift) idx_off (lb_idx p)
      then load_u64 (8 * (push_bit 3 idx_off + idx_shift)) (lb_blk p)
      else 0)"

section \<open>The log writer: \<^verbatim>\<open>LruWriter\<close>\<close>

record 'k lru_writer =
  lw_raw_data :: "'k list"
  lw_binlog :: "'k list list"

text \<open>\<open>search v\<close> is the packed key of node \<open>v\<close>, or \<open>None\<close> when the node is gone.\<close>

definition LruWriter_Write :: "(u32 \<Rightarrow> 'k option) \<Rightarrow> u32 \<Rightarrow> 'k lru_writer \<Rightarrow> 'k lru_writer" where
  "LruWriter_Write search v w =
     (case search v of None \<Rightarrow> w | Some k \<Rightarrow> w\<lparr>lw_raw_data := lw_raw_data w @ [k]\<rparr>)"

definition LruWriter_Commit :: "'k lru_writer \<Rightarrow> 'k lru_writer" where
  "LruWriter_Commit w = w\<lparr>lw_binlog := lw_binlog w @ [lw_raw_data w], lw_raw_data := []\<rparr>"

section \<open>All blocks: \<^verbatim>\<open>LruBitObj\<close>\<close>

record 'k lru_bit_obj =
  lru_bits :: "nat \<Rightarrow> lru_bit option"
  max_lru_bit :: u16
  scan_lru_bit :: u16
  scan_idx_off :: u16
  scan_stop_until :: u16
  lru_writer :: "'k lru_writer"
  scan_tm :: u32
  lru_scan_tm :: u32
  total_bits :: u32
  total_1_bits :: u32
  lru_set_count :: u32
  lru_set_hit_count :: u32
  lru_clr_count :: u32

definition LruBitObj_Init :: "u16 \<Rightarrow> 'k lru_bit_obj" where
  "LruBitObj_Init stop_until =
     \<lparr>lru_bits = (\<lambda>_. None), max_lru_bit = 0, scan_lru_bit = 0, scan_idx_off = 0,
      scan_stop_until = stop_until, lru_writer = \<lparr>lw_raw_data = [], lw_binlog = []\<rparr>,
      scan_tm = 0, lru_scan_tm = 0, total_bits = 0, total_1_bits = 0, lru_set_count = 0,
      lru_set_hit_count = 0, lru_clr_count = 0\<rparr>"

text \<open>\<open>alloc_ok\<close> tells whether \<^verbatim>\<open>NEW\<close> yields a block when one is needed.\<close>

definition SetNodeID :: "bool \<Rightarrow> u32 \<Rightarrow> int \<Rightarrow> 'k lru_bit_obj \<Rightarrow> int \<times> 'k lru_bit_obj" where
  "SetNodeID alloc_ok v b ob =
     (let off = unat (BBLK_OFF v) in
      case (case lru_bits ob off of
              Some p \<Rightarrow> Some p
            | None \<Rightarrow> if alloc_ok then Some lru_bit_new else None) of
        None \<Rightarrow> (-1, ob)
      | Some p \<Rightarrow>
          let ob = (if b \<noteq> 0 then ob\<lparr>lru_set_count := lru_set_count ob + 1\<rparr>
                    else ob\<lparr>lru_clr_count := lru_clr_count ob + 1\<rparr>);
              (hit, p') = lru_bit_set v b p;
              ob = ob\<lparr>lru_bits := (lru_bits ob)(off \<mapsto> p')\<rparr>;
              ob = (if hit \<noteq> 0 then ob\<lparr>lru_set_hit_count := lru_set_hit_count ob + 1\<rparr>
                    else if b \<noteq> 0 then ob\<lparr>total_1_bits := total_1_bits ob + 1\<rparr>
                    else ob);
              ob = (if unat (max_lru_bit ob) < off then ob\<lparr>max_lru_bit := word_of_nat off\<rparr> else ob);
              ob = (if total_bits ob < v then ob\<lparr>total_bits := v\<rparr> else ob)
          in (0, ob))"

text \<open>The 64-bit scan of one word, the eight words of one index byte, and the effect of
  one iteration of the scan loop.\<close>

fun scan_word :: "nat \<Rightarrow> nat \<Rightarrow> u64 \<Rightarrow> u32 \<Rightarrow> u32 list" where
  "scan_word 0 i v base = []"
| "scan_word (Suc n) i v base =
     (if v AND 1 \<noteq> 0 then [base + word_of_nat i] else []) @ scan_word n (Suc i) (drop_bit 1 v) base"

definition scan_ids :: "u16 \<Rightarrow> nat \<Rightarrow> lru_bit \<Rightarrow> u32 list" where
  "scan_ids blk idx_off p =
     concat (map (\<lambda>j. let v = lru_bit_read idx_off j p in
                      if v = 0 then []
                      else scan_word 64 0 v
                        (push_bit 21 (ucast blk) + push_bit 9 (word_of_nat idx_off) + push_bit 6 (word_of_nat j)))
                 [0..<8])"

definition scan_step ::
  "(u32 \<Rightarrow> 'k option) \<Rightarrow> lru_bit \<Rightarrow> 'k lru_bit_obj \<Rightarrow> u32 \<times> lru_bit \<times> 'k lru_bit_obj" where
  "scan_step search p ob =
     (let off = unat (scan_idx_off ob);
          ids = scan_ids (scan_lru_bit ob) off p;
          found = word_of_nat (length ids);
          ob = ob\<lparr>lru_writer := fold (LruWriter_Write search) ids (lru_writer ob)\<rparr>;
          (p', ob) =
            (if found > 0
             then let (n, p') = lru_bit_clear off p
                  in (p', ob\<lparr>lru_writer := LruWriter_Commit (lru_writer ob),
                             lru_bits := (lru_bits ob)(unat (scan_lru_bit ob) \<mapsto> p'),
                             total_1_bits := total_1_bits ob - word_of_nat n\<rparr>)
             else (p, ob))
      in (found, p', ob\<lparr>scan_idx_off := scan_idx_off ob + 1\<rparr>))"

lemma scan_step_idx_off [simp]: "scan_step search p ob = (f, p', ob') \<Longrightarrow> scan_idx_off ob' = scan_idx_off ob + 1"
  by (auto simp: scan_step_def Let_def split: prod.splits if_splits)

lemma scan_step_advances:
  assumes "(f, p', ob') = scan_step search p ob" and "scan_idx_off ob < 4096"
  shows "4096 - unat (scan_idx_off ob') < 4096 - unat (scan_idx_off ob)"
proof -
  from assms have "scan_idx_off ob' = scan_idx_off ob + 1" and "unat (scan_idx_off ob) < 4096"
    by (simp_all add: word_less_nat_alt scan_step_idx_off [OF sym])
  then have "unat (scan_idx_off ob') = unat (scan_idx_off ob) + 1"
    by (simp add: unat_word_ariths)
  with \<open>unat (scan_idx_off ob) < 4096\<close> show ?thesis by simp
qed

text \<open>The loop of \<^verbatim>\<open>Scan\<close>; the flag tells whether it returned at the watermark.\<close>

function scan_loop ::
  "(u32 \<Rightarrow> 'k option) \<Rightarrow> u32 \<Rightarrow> lru_bit \<Rightarrow> 'k lru_bit_obj \<Rightarrow> bool \<times> 'k lru_bit_obj" where
  "scan_loop search found_id p ob =
     (if scan_idx_off ob < 4096
      then case scan_step search p ob of
             (found, p', ob') \<Rightarrow>
               if found_id + found \<ge> ucast (scan_stop_until ob') then (True, ob')
               else scan_loop search (found_id + found) p' ob'
      else (False, ob))"
  by pat_completeness auto
termination
  by (relation "measure (\<lambda>(search, found_id, p, ob). 4096 - unat (scan_idx_off ob))")
    (auto intro: scan_step_advances)

declare scan_loop.simps [simp del]

definition Scan :: "(u32 \<Rightarrow> 'k option) \<Rightarrow> u32 \<Rightarrow> u32 \<Rightarrow> 'k lru_bit_obj \<Rightarrow> 'k lru_bit_obj" where
  "Scan search now0 now1 ob =
     (let ob = (if scan_tm ob = 0 then ob\<lparr>scan_tm := now0\<rparr> else ob) in
      case lru_bits ob (unat (scan_lru_bit ob)) of
        None \<Rightarrow> ob
      | Some p \<Rightarrow>
          (case scan_loop search 0 p ob of
             (True, ob) \<Rightarrow> ob
           | (False, ob) \<Rightarrow>
               let ob = ob\<lparr>scan_idx_off := 0, scan_lru_bit := scan_lru_bit ob + 1\<rparr>
               in if scan_lru_bit ob > max_lru_bit ob
                  then ob\<lparr>scan_lru_bit := 0, lru_scan_tm := now1 - scan_tm ob, scan_tm := 0\<rparr>
                  else ob))"

text \<open>\<^verbatim>\<open>LruBitUnit\<close> forwards to the object only while the log is enabled.\<close>

record 'k lru_bit_unit =
  is_start :: bool
  lru_obj :: "'k lru_bit_obj"
  scan_timer :: bool

definition enable_log :: "'k lru_bit_unit \<Rightarrow> 'k lru_bit_unit" where
  "enable_log u = u\<lparr>is_start := True, scan_timer := True\<rparr>"

definition disable_log :: "'k lru_bit_unit \<Rightarrow> 'k lru_bit_unit" where
  "disable_log u = u\<lparr>is_start := False, scan_timer := False\<rparr>"

definition LruBitUnit_Set :: "bool \<Rightarrow> u32 \<Rightarrow> 'k lru_bit_unit \<Rightarrow> int \<times> 'k lru_bit_unit" where
  "LruBitUnit_Set alloc_ok v u =
     (if is_start u
      then case SetNodeID alloc_ok v 1 (lru_obj u) of (r, ob) \<Rightarrow> (r, u\<lparr>lru_obj := ob\<rparr>)
      else (0, u))"

definition LruBitUnit_Unset :: "bool \<Rightarrow> u32 \<Rightarrow> 'k lru_bit_unit \<Rightarrow> int \<times> 'k lru_bit_unit" where
  "LruBitUnit_Unset alloc_ok v u =
     (if is_start u
      then case SetNodeID alloc_ok v 0 (lru_obj u) of (r, ob) \<Rightarrow> (r, u\<lparr>lru_obj := ob\<rparr>)
      else (0, u))"

section \<open>One block as a set of local ids\<close>

text \<open>The local id of \<open>v\<close> in its block is its low 21 bits.\<close>

definition local_id :: "u32 \<Rightarrow> nat" where
  "local_id v = unat v mod 2 ^ 21"

lemma masks [bit_facts]:
  "(0xFFF :: u32) = mask 12" "(0x7 :: u32) = mask 3" "(0x3FFFF :: u32) = mask 18"
  by (simp_all add: mask_eq_exp_minus_1)

lemma unat_and_mask [bit_facts]: "unat ((w :: u32) AND mask k) = unat w mod 2 ^ k"
  by (metis take_bit_eq_mask take_bit_eq_mod unsigned_take_bit_eq)

lemma unat_drop_bit [bit_facts]: "unat (drop_bit k (w :: u32)) = unat w div 2 ^ k"
  using unat_drop_bit_eq [of k w] by (simp only: drop_bit_eq_div)

lemma div_mod_power: "(n :: nat) div 2 ^ a mod 2 ^ b = n mod 2 ^ (a + b) div 2 ^ a"
  by (simp add: mod_mult2_eq power_add)

lemma position_unat:
  "unat (BLK_BYTE_OFF v) = local_id v div 8"
  "unat (BLK_BYTE_SHIFT v) = local_id v mod 8"
  "unat (IDX_BYTE_OFF v) = local_id v div 512"
  "unat (IDX_BYTE_SHIFT v) = local_id v div 64 mod 8"
  unfolding BLK_BYTE_OFF_def BLK_BYTE_SHIFT_def IDX_BYTE_OFF_def IDX_BYTE_SHIFT_def
    masks unat_and_mask unat_drop_bit local_id_def
  using div_mod_power [of "unat v" 3 18] div_mod_power [of "unat v" 9 12]
    div_mod_power [of "unat v" 6 15] mod_mod_cancel [of 8 "2 ^ 15" "unat v div 64"]
  by (simp_all add: mod_mod_cancel)

text \<open>Where id \<open>i\<close> of word \<open>j\<close> of index byte \<open>off\<close> lies.\<close>

lemma slot_positions:
  fixes off i j :: nat
  assumes "j < 8" and "i < 64"
  shows "(off * 512 + j * 64 + i) div 512 = off"
    and "(off * 512 + j * 64 + i) div 64 mod 8 = j"
    and "(off * 512 + j * 64 + i) div 8 = 8 * (8 * off + j) + i div 8"
    and "(off * 512 + j * 64 + i) mod 8 = i mod 8"
proof -
  show "(off * 512 + j * 64 + i) div 512 = off" using assms by linarith
  have "(off * 512 + j * 64 + i) div 64 = off * 8 + j" using assms by linarith
  then show "(off * 512 + j * 64 + i) div 64 mod 8 = j" using assms by simp
  have eq: "off * 512 + j * 64 + i = i + 8 * (off * 64 + j * 8)" by simp
  show "(off * 512 + j * 64 + i) div 8 = 8 * (8 * off + j) + i div 8"
    by (simp only: eq div_mult_self2) simp
  show "(off * 512 + j * 64 + i) mod 8 = i mod 8"
    by (simp only: eq mod_mult_self2)
qed

lemma block_byte_positions:
  fixes off k :: nat
  shows "(off * 512 + k) div 8 = off * 64 + k div 8" and "(off * 512 + k) mod 8 = k mod 8"
proof -
  have eq: "off * 512 + k = k + 8 * (off * 64)" by simp
  show "(off * 512 + k) div 8 = off * 64 + k div 8"
    by (simp only: eq div_mult_self2)
  show "(off * 512 + k) mod 8 = k mod 8"
    by (simp only: eq mod_mult_self2)
qed

lemma local_id_less: "local_id v < 2 ^ 21"
  by (simp add: local_id_def)

text \<open>\<open>lb_mem l p\<close>: local id \<open>l\<close> is marked. The invariant: an unmarked index bit means that
  none of its 64 ids is marked, so the scan may skip them.\<close>

definition lb_mem :: "nat \<Rightarrow> lru_bit \<Rightarrow> bool" where
  "lb_mem l p \<longleftrightarrow> bit (lb_blk p (l div 8)) (l mod 8)"

definition lb_inv :: "lru_bit \<Rightarrow> bool" where
  "lb_inv p \<longleftrightarrow> (\<forall>l. lb_mem l p \<longrightarrow> bit (lb_idx p (l div 512)) (l div 64 mod 8))"

lemma lb_inv_new: "lb_inv lru_bit_new" and lb_mem_new: "\<not> lb_mem l lru_bit_new"
  by (simp_all add: lb_inv_def lb_mem_def lru_bit_new_def)

lemma isset_pos: "isset_b (BLK_BYTE_SHIFT v) (unat (BLK_BYTE_OFF v)) (lb_blk p) = lb_mem (local_id v) p"
  by (simp add: isset_b_iff position_unat lb_mem_def)

lemma lru_bit_set_mem:
  "lb_mem l (snd (lru_bit_set v b p)) \<longleftrightarrow>
     (if b \<noteq> 0 then l = local_id v \<or> lb_mem l p else l \<noteq> local_id v \<and> lb_mem l p)"
proof -
  have pos: "l div 8 = local_id v div 8 \<and> l mod 8 = local_id v mod 8 \<longleftrightarrow> l = local_id v"
    by (metis nat_eq_div_mod_8)
  show ?thesis
    using pos by (auto simp: lru_bit_set_def Let_def isset_pos) (auto simp: lb_mem_def set_b_bit clr_b_bit position_unat)
qed

lemma lru_bit_set_inv: "lb_inv p \<Longrightarrow> lb_inv (snd (lru_bit_set v b p))"
  unfolding lb_inv_def lru_bit_set_mem
  by (auto simp: lru_bit_set_def Let_def isset_pos set_b_bit) (simp_all add: position_unat)

lemma lru_bit_set_hit: "fst (lru_bit_set v b p) = (if b \<noteq> 0 \<and> lb_mem (local_id v) p then 1 else 0)"
  by (simp add: lru_bit_set_def Let_def isset_pos)

section \<open>Reading and clearing a block\<close>

lemma lru_bit_read_bit:
  assumes "lb_inv p" and "j < 8" and "i < 64"
  shows "bit (lru_bit_read off j p) i \<longleftrightarrow> lb_mem (off * 512 + j * 64 + i) p"
proof -
  let ?l = "off * 512 + j * 64 + i"
  note slots = slot_positions [OF assms(2,3), of off]
  have "isset_b (word_of_nat j) off (lb_idx p) \<longleftrightarrow> bit (lb_idx p off) j"
    using assms(2) by (simp add: isset_b_iff unat_of_nat)
  moreover have "bit (load_u64 (8 * (push_bit 3 off + j)) (lb_blk p)) i = lb_mem ?l p"
    using assms(3) by (simp add: load_u64_bit lb_mem_def push_bit_eq_mult slots(3,4) mult.commute)
  moreover have "lb_mem ?l p \<Longrightarrow> bit (lb_idx p off) j"
    using assms(1) slots(1,2) unfolding lb_inv_def by metis
  ultimately show ?thesis by (auto simp: lru_bit_read_def)
qed

lemma lru_bit_clear_mem: "lb_mem l (snd (lru_bit_clear off p)) \<longleftrightarrow> lb_mem l p \<and> l div 512 \<noteq> off"
proof -
  have "(64 * off \<le> l div 8 \<and> l div 8 < 64 * off + 64) \<longleftrightarrow> l div 512 = off"
    by auto
  then show ?thesis
    by (auto simp: lru_bit_clear_def Let_def lb_mem_def memset_def push_bit_eq_mult mult.commute)
qed

lemma lru_bit_clear_inv: "lb_inv p \<Longrightarrow> lb_inv (snd (lru_bit_clear off p))"
  unfolding lb_inv_def lru_bit_clear_mem
  by (auto simp: lru_bit_clear_def Let_def memset_def)

lemma lru_bit_clear_count: "fst (lru_bit_clear off p) = card {l. l div 512 = off \<and> lb_mem l p}"
proof -
  have "(\<lambda>k. off * 512 + k) ` bits_in (off * 64) 64 (lb_blk p) = {l. l div 512 = off \<and> lb_mem l p}"
    (is "?f ` _ = ?R")
  proof (rule set_eqI)
    fix l
    show "l \<in> ?f ` bits_in (off * 64) 64 (lb_blk p) \<longleftrightarrow> l \<in> ?R"
    proof
      assume "l \<in> ?f ` bits_in (off * 64) 64 (lb_blk p)"
      then obtain k where k: "l = off * 512 + k" "k < 512" "bit (lb_blk p (off * 64 + k div 8)) (k mod 8)"
        by (auto simp: bits_in_def)
      then show "l \<in> ?R" by (simp add: lb_mem_def block_byte_positions)
    next
      assume l: "l \<in> ?R"
      define k where "k = l mod 512"
      have "l = off * 512 + k" using l k_def by auto
      moreover from this have "l div 8 = off * 64 + k div 8" "l mod 8 = k mod 8" "k < 512"
        by (metis block_byte_positions(1)) (metis \<open>l = off * 512 + k\<close> block_byte_positions(2), simp add: k_def)
      ultimately show "l \<in> ?f ` bits_in (off * 64) 64 (lb_blk p)"
        using l by (auto simp: bits_in_def lb_mem_def intro!: image_eqI [of _ _ k])
    qed
  qed
  moreover have "card (?f ` bits_in (off * 64) 64 (lb_blk p)) = card (bits_in (off * 64) 64 (lb_blk p))"
    by (rule card_image) simp
  ultimately show ?thesis
    by (simp add: lru_bit_clear_def Let_def CountBits_card push_bit_eq_mult)
qed

section \<open>The ids one index byte reports\<close>

lemma scan_word_eq:
  "scan_word n i v base = map (\<lambda>k. base + word_of_nat k) (filter (\<lambda>k. bit v (k - i)) [i..<i + n])"
proof (induction n arbitrary: i v)
  case 0
  then show ?case by simp
next
  case (Suc n)
  have "filter (\<lambda>k. bit (drop_bit 1 v) (k - Suc i)) [Suc i..<Suc i + n] =
        filter (\<lambda>k. bit v (k - i)) [Suc i..<Suc i + n]"
    by (rule filter_cong) (auto simp: bit_drop_bit_eq Suc_diff_Suc simp flip: Suc_diff_Suc)
  moreover have "v AND 1 \<noteq> 0 \<longleftrightarrow> bit v 0"
    by (simp add: and_one_eq odd_iff_mod_2_eq_one bit_0)
  moreover have "[i..<i + Suc n] = i # [Suc i..<Suc i + n]"
    by (simp add: upt_conv_Cons)
  ultimately show ?case
    using Suc.IH [of "Suc i" "drop_bit 1 v"] by simp
qed

lemma concat_upt_blocks: "concat (map (\<lambda>j. [j * 64..<j * 64 + 64]) [0..<n]) = [0..<n * 64]"
proof (induction n)
  case 0
  then show ?case by simp
next
  case (Suc n)
  then show ?case
    using upt_add_eq_append [of 0 "n * 64" 64] by (simp add: add.commute)
qed

definition id_of :: "nat \<Rightarrow> nat \<Rightarrow> u32" where
  "id_of k l = word_of_nat (k * 2 ^ 21 + l)"

lemma scan_ids_word:
  assumes "lb_inv p" and "j < 8" and "v = lru_bit_read off j p"
  shows "(if v = 0 then [] else scan_word 64 0 v (base + push_bit 6 (word_of_nat j))) =
    map (\<lambda>r. base + word_of_nat r) (filter (\<lambda>r. lb_mem (off * 512 + r) p) [j * 64..<j * 64 + 64])"
proof -
  have shift: "[j * 64..<j * 64 + 64] = map (\<lambda>i. i + j * 64) [0..<64]"
    by (simp add: map_add_upt add.commute)
  have bits: "filter ((\<lambda>r. lb_mem (off * 512 + r) p) \<circ> (\<lambda>i. i + j * 64)) [0..<64] = filter (bit v) [0..<64]"
    by (rule filter_cong) (simp_all add: assms lru_bit_read_bit ac_simps)
  have "v = 0 \<Longrightarrow> filter (bit v) [0..<64] = []"
    by simp
  then show ?thesis
    unfolding shift scan_word_eq filter_map bits
    by (simp add: push_bit_eq_mult ac_simps)
qed

lemma scan_ids_eq:
  assumes "lb_inv p"
  shows "scan_ids blk off p =
    map (\<lambda>r. id_of (unat blk) (off * 512 + r)) (filter (\<lambda>r. lb_mem (off * 512 + r) p) [0..<512])"
proof -
  define base :: u32 where "base = push_bit 21 (ucast blk) + push_bit 9 (word_of_nat off)"
  let ?P = "\<lambda>r. lb_mem (off * 512 + r) p" and ?f = "\<lambda>r. base + word_of_nat r"
  have "scan_ids blk off p =
      concat (map (\<lambda>j. map ?f (filter ?P [j * 64..<j * 64 + 64])) [0..<8])"
    unfolding scan_ids_def Let_def base_def [symmetric]
    by (rule arg_cong [where f = concat], rule map_cong [OF refl])
      (rule scan_ids_word [OF assms _ refl], simp)
  also have "\<dots> = map ?f (filter ?P (concat (map (\<lambda>j. [j * 64..<j * 64 + 64]) [0..<8])))"
    by (simp add: map_concat filter_concat comp_def)
  also have "\<dots> = map ?f (filter ?P [0..<512])"
    by (simp add: concat_upt_blocks)
  also have "?f = (\<lambda>r. id_of (unat blk) (off * 512 + r))"
    by (rule ext) (simp add: base_def id_of_def push_bit_eq_mult ac_simps)
  finally show ?thesis .
qed

lemma id_of_unat: "k < 2048 \<Longrightarrow> l < 2 ^ 21 \<Longrightarrow> unat (id_of k l) = k * 2 ^ 21 + l"
  by (simp only: id_of_def unat_of_nat) simp

lemma id_of_parts:
  assumes "k < 2048" and "l < 2 ^ 21"
  shows "unat (id_of k l) div 2 ^ 21 = k" and "local_id (id_of k l) = l"
  using assms by (simp_all add: id_of_unat local_id_def)

lemma id_of_local_id: "id_of (unat v div 2 ^ 21) (local_id v) = v"
  by (simp add: id_of_def local_id_def)

lemma unat_BBLK_OFF: "unat (BBLK_OFF v) = unat v div 2 ^ 21"
  unfolding BBLK_OFF_def by (rule unat_drop_bit)

lemma BBLK_OFF_less: "unat v div 2 ^ 21 < 2048" for v :: u32
  using unsigned_less [of v, where 'a = nat] by simp

section \<open>The object: marked ids, invariant, reports\<close>

definition obj_members :: "'k lru_bit_obj \<Rightarrow> u32 set" where
  "obj_members ob = {v. \<exists>p. lru_bits ob (unat v div 2 ^ 21) = Some p \<and> lb_mem (local_id v) p}"

definition obj_inv :: "'k lru_bit_obj \<Rightarrow> bool" where
  "obj_inv ob \<longleftrightarrow>
     (\<forall>k p. lru_bits ob k = Some p \<longrightarrow> lb_inv p \<and> k \<le> unat (max_lru_bit ob)) \<and>
     unat (max_lru_bit ob) < 2048 \<and> scan_lru_bit ob \<le> max_lru_bit ob \<and>
     scan_idx_off ob \<le> 4096 \<and> lw_raw_data (lru_writer ob) = []"

text \<open>\<open>reports search R ob ob'\<close>: between \<open>ob\<close> and \<open>ob'\<close> exactly the ids \<open>R\<close> lost their mark,
  they were logged once each, in increasing order, skipping nodes that are gone.\<close>

definition reports :: "(u32 \<Rightarrow> 'k option) \<Rightarrow> u32 list \<Rightarrow> 'k lru_bit_obj \<Rightarrow> 'k lru_bit_obj \<Rightarrow> bool" where
  "reports search R ob ob' \<longleftrightarrow>
     set R \<subseteq> obj_members ob \<and> obj_members ob' = obj_members ob - set R \<and>
     sorted_wrt (<) R \<and>
     concat (lw_binlog (lru_writer ob')) = concat (lw_binlog (lru_writer ob)) @ List.map_filter search R"

lemma fold_LruWriter_Write:
  "fold (LruWriter_Write search) ids w = w\<lparr>lw_raw_data := lw_raw_data w @ List.map_filter search ids\<rparr>"
  by (induction ids arbitrary: w) (auto simp: LruWriter_Write_def List.map_filter_def split: option.splits)

lemma length_scan_ids: "lb_inv p \<Longrightarrow> length (scan_ids blk off p) \<le> 512"
  using length_filter_le [of "\<lambda>r. lb_mem (off * 512 + r) p" "[0..<512]"] by (simp add: scan_ids_eq)

lemma set_scan_ids:
  assumes "lb_inv p" and "unat blk < 2048" and "off < 4096"
  shows "set (scan_ids blk off p) =
    {v. unat v div 2 ^ 21 = unat blk \<and> local_id v div 512 = off \<and> lb_mem (local_id v) p}" (is "_ = ?R")
proof (intro set_eqI iffI)
  fix v
  assume "v \<in> set (scan_ids blk off p)"
  then obtain r where r: "r < 512" "v = id_of (unat blk) (off * 512 + r)" "lb_mem (off * 512 + r) p"
    by (auto simp: scan_ids_eq [OF assms(1)])
  moreover have "off * 512 + r < 2 ^ 21"
    using r(1) assms(3) by simp
  ultimately show "v \<in> ?R"
    using id_of_parts [OF assms(2), of "off * 512 + r"] by simp
next
  fix v
  assume v: "v \<in> ?R"
  define r where "r = local_id v mod 512"
  have "local_id v = off * 512 + r" "r < 512"
    using v by (auto simp: r_def)
  moreover from this have "v = id_of (unat blk) (off * 512 + r)"
    using v id_of_local_id [of v] by auto
  ultimately show "v \<in> set (scan_ids blk off p)"
    using v by (auto simp: scan_ids_eq [OF assms(1)] intro!: image_eqI [of _ _ r])
qed

lemma sorted_scan_ids:
  assumes "lb_inv p" and "unat blk < 2048" and "off < 4096"
  shows "sorted_wrt (<) (scan_ids blk off p)"
proof -
  have less: "id_of (unat blk) (off * 512 + r) < id_of (unat blk) (off * 512 + s)" if "r < s" "s < 512" for r s
    using that assms(2,3) by (simp add: word_less_nat_alt id_of_unat)
  have "sorted_wrt (<) (filter (\<lambda>r. lb_mem (off * 512 + r) p) [0..<512])"
    by (intro sorted_wrt_filter) simp
  then show ?thesis
    unfolding scan_ids_eq [OF assms(1)] sorted_wrt_map
    by (rule sorted_wrt_mono_rel [rotated]) (use less in auto)
qed

text \<open>What one iteration of the scan loop does to the block it works on.\<close>

lemma scan_step_effect:
  assumes "scan_step search p ob = (found, p', ob')" and "lb_inv p"
    and "lru_bits ob (unat (scan_lru_bit ob)) = Some p" and "lw_raw_data (lru_writer ob) = []"
  defines "R \<equiv> scan_ids (scan_lru_bit ob) (unat (scan_idx_off ob)) p"
  shows "lru_bits ob' = (lru_bits ob)(unat (scan_lru_bit ob) \<mapsto> p')"
    and "lb_inv p'"
    and "lb_mem l p' \<longleftrightarrow> lb_mem l p \<and> (l div 512 = unat (scan_idx_off ob) \<longrightarrow> R = [])"
    and "lw_raw_data (lru_writer ob') = []"
    and "concat (lw_binlog (lru_writer ob')) = concat (lw_binlog (lru_writer ob)) @ List.map_filter search R"
    and "scan_lru_bit ob' = scan_lru_bit ob" and "max_lru_bit ob' = max_lru_bit ob"
proof -
  have "unat (word_of_nat (length R) :: u32) = length R"
    using length_scan_ids [OF assms(2), of "scan_lru_bit ob" "unat (scan_idx_off ob)"]
    by (simp add: R_def unat_of_nat)
  then have "word_of_nat (length R) > (0 :: u32) \<longleftrightarrow> R \<noteq> []"
    by (metis length_0_conv unat_eq_zero word_gt_0)
  then consider "R = []" "p' = p" "ob' = ob\<lparr>scan_idx_off := scan_idx_off ob + 1\<rparr>"
    | "R \<noteq> []" "p' = snd (lru_bit_clear (unat (scan_idx_off ob)) p)"
      "ob' = ob\<lparr>lru_writer := LruWriter_Commit (fold (LruWriter_Write search) R (lru_writer ob)),
        lru_bits := (lru_bits ob)(unat (scan_lru_bit ob) \<mapsto> p'),
        total_1_bits := total_1_bits ob - word_of_nat (fst (lru_bit_clear (unat (scan_idx_off ob)) p)),
        scan_idx_off := scan_idx_off ob + 1\<rparr>"
    using assms(1) unfolding scan_step_def Let_def R_def [symmetric]
    by (cases "R = []") (auto split: prod.splits)
  then have "lru_bits ob' = (lru_bits ob)(unat (scan_lru_bit ob) \<mapsto> p') \<and> lb_inv p' \<and>
      (lb_mem l p' \<longleftrightarrow> lb_mem l p \<and> (l div 512 = unat (scan_idx_off ob) \<longrightarrow> R = [])) \<and>
      lw_raw_data (lru_writer ob') = [] \<and>
      concat (lw_binlog (lru_writer ob')) = concat (lw_binlog (lru_writer ob)) @ List.map_filter search R \<and>
      scan_lru_bit ob' = scan_lru_bit ob \<and> max_lru_bit ob' = max_lru_bit ob" for l
  proof cases
    case 1
    then show ?thesis using assms(2-4) by (auto simp: List.map_filter_def)
  next
    case 2
    then show ?thesis using assms(2-4)
      by (auto simp: fold_LruWriter_Write LruWriter_Commit_def lru_bit_clear_inv lru_bit_clear_mem)
  qed
  then show "lru_bits ob' = (lru_bits ob)(unat (scan_lru_bit ob) \<mapsto> p')" "lb_inv p'"
    "lb_mem l p' \<longleftrightarrow> lb_mem l p \<and> (l div 512 = unat (scan_idx_off ob) \<longrightarrow> R = [])"
    "lw_raw_data (lru_writer ob') = []"
    "concat (lw_binlog (lru_writer ob')) = concat (lw_binlog (lru_writer ob)) @ List.map_filter search R"
    "scan_lru_bit ob' = scan_lru_bit ob" "max_lru_bit ob' = max_lru_bit ob"
    by blast+
qed

text \<open>The whole loop: \<open>scans k search R ob ob'\<close> collects what the iterations keep.\<close>

definition scans :: "(u32 \<Rightarrow> 'k option) \<Rightarrow> u32 list \<Rightarrow> 'k lru_bit_obj \<Rightarrow> 'k lru_bit_obj \<Rightarrow> bool" where
  "scans search R ob ob' \<longleftrightarrow>
     (\<exists>p'. lru_bits ob' = (lru_bits ob)(unat (scan_lru_bit ob) \<mapsto> p') \<and> lb_inv p') \<and>
     lw_raw_data (lru_writer ob') = [] \<and> scan_lru_bit ob' = scan_lru_bit ob \<and>
     max_lru_bit ob' = max_lru_bit ob \<and> reports search R ob ob' \<and>
     (\<forall>v \<in> set R. unat v div 2 ^ 21 = unat (scan_lru_bit ob) \<and>
        unat (scan_idx_off ob) \<le> local_id v div 512)"

lemma obj_members_upd:
  assumes "lru_bits ob k = Some p" and "lru_bits ob' = (lru_bits ob)(k \<mapsto> p')"
    and "\<And>l. lb_mem l p' \<longleftrightarrow> lb_mem l p \<and> Q l"
  shows "obj_members ob' = {v \<in> obj_members ob. unat v div 2 ^ 21 = k \<longrightarrow> Q (local_id v)}"
  using assms(1) by (auto simp: obj_members_def assms(2,3) split: if_splits)

lemma scan_step_scans:
  assumes step: "scan_step search p ob = (found, p', ob')" and inv: "lb_inv p"
    and p: "lru_bits ob (unat (scan_lru_bit ob)) = Some p" and raw: "lw_raw_data (lru_writer ob) = []"
    and bounds: "unat (scan_lru_bit ob) < 2048" "unat (scan_idx_off ob) < 4096"
  shows "scans search (scan_ids (scan_lru_bit ob) (unat (scan_idx_off ob)) p) ob ob'"
proof -
  let ?k = "unat (scan_lru_bit ob)" and ?off = "unat (scan_idx_off ob)"
  let ?R = "scan_ids (scan_lru_bit ob) ?off p"
  note eff = scan_step_effect [OF step inv p raw]
  note R = set_scan_ids [OF inv bounds]
  have "obj_members ob' = {v \<in> obj_members ob. unat v div 2 ^ 21 = ?k \<longrightarrow>
      (local_id v div 512 = ?off \<longrightarrow> ?R = [])}"
    by (rule obj_members_upd [OF p eff(1,3)])
  also have "\<dots> = obj_members ob - set ?R"
  proof (cases "?R = []")
    case True
    then show ?thesis by simp
  next
    case False
    then show ?thesis unfolding R using p by (auto simp: obj_members_def)
  qed
  finally have "obj_members ob' = obj_members ob - set ?R" .
  moreover have "set ?R \<subseteq> obj_members ob"
    unfolding R using p by (auto simp: obj_members_def)
  ultimately have "reports search ?R ob ob'"
    using eff(5) sorted_scan_ids [OF inv bounds] by (simp add: reports_def)
  then show ?thesis
    using eff(1,2,4,6,7) R by (auto simp: scans_def)
qed

lemma scans_less:
  assumes "unat v div 2 ^ 21 = unat w div 2 ^ 21" and "local_id v div 512 < local_id w div 512"
  shows "(v :: u32) < w"
proof -
  have "local_id v < local_id w"
    using assms(2) by (meson div_le_mono linorder_not_less)
  moreover have "unat x = unat x div 2 ^ 21 * 2 ^ 21 + local_id x" for x :: u32
    by (simp add: local_id_def)
  ultimately have "unat v < unat w"
    using assms(1) by (metis add_less_cancel_left)
  then show ?thesis by (simp add: word_less_nat_alt)
qed

lemma scans_trans:
  assumes st: "scans search R1 ob ob1" "scans search R2 ob1 ob2"
    and R1: "\<And>v. v \<in> set R1 \<Longrightarrow> local_id v div 512 = unat (scan_idx_off ob)"
    and off: "unat (scan_idx_off ob1) = Suc (unat (scan_idx_off ob))"
  shows "scans search (R1 @ R2) ob ob2"
proof -
  have "sorted_wrt (<) (R1 @ R2)"
    using st R1 off unfolding sorted_wrt_append scans_def reports_def
    by (auto intro!: scans_less simp: Suc_le_eq)
  then have "reports search (R1 @ R2) ob ob2"
    using st by (auto simp: scans_def reports_def List.map_filter_def)
  then show ?thesis
    using st off by (auto simp: scans_def)
qed

lemma scan_loop_scans:
  "lb_inv p \<Longrightarrow> lru_bits ob (unat (scan_lru_bit ob)) = Some p \<Longrightarrow> lw_raw_data (lru_writer ob) = [] \<Longrightarrow>
   unat (scan_lru_bit ob) < 2048 \<Longrightarrow> scan_idx_off ob \<le> 4096 \<Longrightarrow>
   \<exists>R. scans search R ob (snd (scan_loop search f p ob)) \<and>
       scan_idx_off (snd (scan_loop search f p ob)) \<le> 4096"
proof (induction search f p ob rule: scan_loop.induct)
  case (1 search f p ob)
  show ?case
  proof (cases "scan_idx_off ob < 4096")
    case False
    with "1.prems" have "scans search [] ob (snd (scan_loop search f p ob))"
      by (auto simp: scan_loop.simps scans_def reports_def List.map_filter_def intro!: exI [of _ p])
    with False "1.prems" show ?thesis by (auto simp: scan_loop.simps)
  next
    case True
    obtain found p' ob' where step: "scan_step search p ob = (found, p', ob')"
      by (cases "scan_step search p ob")
    let ?R = "scan_ids (scan_lru_bit ob) (unat (scan_idx_off ob)) p"
    have lt: "unat (scan_idx_off ob) < 4096"
      using True by (simp add: word_less_nat_alt)
    then have sc: "scans search ?R ob ob'"
      using scan_step_scans [OF step] "1.prems" by blast
    note eff = scan_step_effect [OF step "1.prems"(1-3)]
    have off: "unat (scan_idx_off ob') = Suc (unat (scan_idx_off ob))"
      using lt scan_step_idx_off [OF step] by (simp add: unat_word_ariths)
    then have le: "scan_idx_off ob' \<le> 4096"
      using lt by (simp add: word_le_nat_alt)
    show ?thesis
    proof (cases "f + found \<ge> ucast (scan_stop_until ob')")
      case stop: True
      then show ?thesis using True step sc le by (auto simp: scan_loop.simps)
    next
      case False
      then obtain R2 where R2: "scans search R2 ob' (snd (scan_loop search (f + found) p' ob'))"
        "scan_idx_off (snd (scan_loop search (f + found) p' ob')) \<le> 4096"
        using "1.IH" [OF True step [symmetric] refl _ eff(2)] eff(1,4,6) le "1.prems"(4) by auto
      have "scans search (?R @ R2) ob (snd (scan_loop search (f + found) p' ob'))"
        using set_scan_ids [OF "1.prems"(1,4) lt] by (intro scans_trans [OF sc R2(1) _ off]) auto
      then show ?thesis using False True step R2(2) by (auto simp: scan_loop.simps [of search f])
    qed
  qed
qed

section \<open>\<^verbatim>\<open>SetNodeID\<close> and \<^verbatim>\<open>Scan\<close> against the set of marked ids\<close>

lemma obj_inv_Init: "obj_inv (LruBitObj_Init stop_until)"
  and obj_members_Init: "obj_members (LruBitObj_Init stop_until) = {}"
  by (simp_all add: obj_inv_def obj_members_def LruBitObj_Init_def)

text \<open>The block a mark goes to, before and after, and the fields the marks depend on.\<close>

lemma SetNodeID_effect:
  assumes "SetNodeID True v b ob = (r, ob')"
  defines "k \<equiv> unat v div 2 ^ 21"
  defines "p \<equiv> (case lru_bits ob k of Some p \<Rightarrow> p | None \<Rightarrow> lru_bit_new)"
  shows "r = 0" and "lru_bits ob' = (lru_bits ob)(k \<mapsto> snd (lru_bit_set v b p))"
    and "lru_writer ob' = lru_writer ob" and "scan_lru_bit ob' = scan_lru_bit ob"
    and "scan_idx_off ob' = scan_idx_off ob"
    and "max_lru_bit ob' = (if unat (max_lru_bit ob) < k then word_of_nat k else max_lru_bit ob)"
  using assms(1) unfolding SetNodeID_def Let_def unat_BBLK_OFF k_def [symmetric] p_def
  by (auto split: prod.splits option.splits if_splits)

lemma local_id_eq_iff:
  "unat v div 2 ^ 21 = unat w div 2 ^ 21 \<and> local_id v = local_id w \<longleftrightarrow> v = w"
  using id_of_local_id by metis

lemma SetNodeID_members:
  "obj_members (snd (SetNodeID True v b ob)) =
     (if b \<noteq> 0 then insert v (obj_members ob) else obj_members ob - {v})"
proof -
  obtain r ob' where *: "SetNodeID True v b ob = (r, ob')"
    by (cases "SetNodeID True v b ob")
  note eff = SetNodeID_effect [OF *]
  have "w \<in> obj_members ob' \<longleftrightarrow> (if b \<noteq> 0 then w = v \<or> w \<in> obj_members ob else w \<in> obj_members ob \<and> w \<noteq> v)" for w
  proof (cases "unat w div 2 ^ 21 = unat v div 2 ^ 21")
    case True
    then have "local_id w = local_id v \<longleftrightarrow> w = v"
      using local_id_eq_iff by metis
    moreover from True have "w \<in> obj_members ob' \<longleftrightarrow> (if b \<noteq> 0 then local_id w = local_id v \<or> w \<in> obj_members ob
        else local_id w \<noteq> local_id v \<and> w \<in> obj_members ob)"
      by (cases "lru_bits ob (unat v div 2 ^ 21)")
        (simp_all add: obj_members_def eff(2) lru_bit_set_mem lb_mem_new)
    ultimately show ?thesis by auto
  next
    case False
    then have "w \<noteq> v" by auto
    with False show ?thesis by (auto simp: obj_members_def eff(2))
  qed
  then show ?thesis using * by (cases "b = 0") (simp_all add: set_eq_iff)
qed

lemma SetNodeID_inv:
  assumes inv: "obj_inv ob"
  shows "obj_inv (snd (SetNodeID True v b ob))"
proof -
  obtain r ob' where *: "SetNodeID True v b ob = (r, ob')"
    by (cases "SetNodeID True v b ob")
  note eff = SetNodeID_effect [OF *]
  have k: "unat v div 2 ^ 21 < 2048" by (rule BBLK_OFF_less)
  then have "unat (word_of_nat (unat v div 2 ^ 21) :: u16) = unat v div 2 ^ 21"
    by (simp add: unat_of_nat)
  then have max: "unat (max_lru_bit ob') = max (unat (max_lru_bit ob)) (unat v div 2 ^ 21)"
    by (simp add: eff(6) max_def)
  have blocks: "lb_inv p \<and> j \<le> unat (max_lru_bit ob')" if "lru_bits ob' j = Some p" for j p
    using that inv unfolding eff(2) max
    by (auto simp: obj_inv_def lru_bit_set_inv lb_inv_new split: if_splits option.splits)
      (meson le_max_iff_disj)
  have "scan_lru_bit ob \<le> max_lru_bit ob'"
    using inv max by (auto simp: obj_inv_def word_le_nat_alt)
  with blocks inv max k show ?thesis
    by (auto simp: * obj_inv_def eff(3-5))
qed

interpretation lru_obj: key_set "\<lambda>v ob. snd (SetNodeID True v 1 ob)" "\<lambda>v ob. snd (SetNodeID True v 0 ob)"
  "\<lambda>v ob. v \<in> obj_members ob" obj_inv "\<lambda>_. True"
  by unfold_locales (auto simp: SetNodeID_members intro: SetNodeID_inv)

lemma SetNodeID_no_memory:
  "lru_bits ob (unat (BBLK_OFF v)) = None \<Longrightarrow> SetNodeID False v b ob = (-1, ob)"
  by (simp add: SetNodeID_def Let_def)

lemma reports_frame [simp]:
  "reports search R (ob\<lparr>scan_tm := t\<rparr>) ob' = reports search R ob ob'"
  "reports search R ob (ob'\<lparr>scan_tm := t\<rparr>) = reports search R ob ob'"
  "reports search R ob (ob'\<lparr>lru_scan_tm := t\<rparr>) = reports search R ob ob'"
  "reports search R ob (ob'\<lparr>scan_idx_off := i\<rparr>) = reports search R ob ob'"
  "reports search R ob (ob'\<lparr>scan_lru_bit := i\<rparr>) = reports search R ob ob'"
  by (simp_all add: reports_def obj_members_def)

section \<open>Progress of the scan\<close>

text \<open>What the loop leaves behind: the index bytes it went over hold no mark, and it stops
  early only after at least one of them.\<close>

lemma scans_no_new: "scans search R ob ob' \<Longrightarrow> obj_members ob' \<subseteq> obj_members ob"
  by (auto simp: scans_def reports_def)

definition swept :: "nat \<Rightarrow> nat \<Rightarrow> nat \<Rightarrow> 'k lru_bit_obj \<Rightarrow> bool" where
  "swept k lo hi ob \<longleftrightarrow>
     (\<forall>v \<in> obj_members ob. unat v div 2 ^ 21 = k \<longrightarrow> \<not> (lo \<le> local_id v div 512 \<and> local_id v div 512 < hi))"

lemma swept_join:
  assumes "swept k a (Suc a) ob1" and "swept k (Suc a) b ob'" and "obj_members ob' \<subseteq> obj_members ob1"
  shows "swept k a b ob'"
  unfolding swept_def
proof (intro ballI impI)
  fix v
  assume "v \<in> obj_members ob'" and "unat v div 2 ^ 21 = k"
  with assms have "\<not> (a \<le> local_id v div 512 \<and> local_id v div 512 < Suc a)"
    and "\<not> (Suc a \<le> local_id v div 512 \<and> local_id v div 512 < b)"
    unfolding swept_def by blast+
  then show "\<not> (a \<le> local_id v div 512 \<and> local_id v div 512 < b)" by linarith
qed

lemma scan_step_sweeps:
  assumes step: "scan_step search p ob = (found, p', ob')" and inv: "lb_inv p"
    and p: "lru_bits ob (unat (scan_lru_bit ob)) = Some p" and raw: "lw_raw_data (lru_writer ob) = []"
    and bounds: "unat (scan_lru_bit ob) < 2048" "unat (scan_idx_off ob) < 4096"
  shows "swept (unat (scan_lru_bit ob)) (unat (scan_idx_off ob)) (Suc (unat (scan_idx_off ob))) ob'"
proof -
  have "obj_members ob' = obj_members ob - set (scan_ids (scan_lru_bit ob) (unat (scan_idx_off ob)) p)"
    using scan_step_scans [OF step inv p raw bounds] by (simp add: scans_def reports_def)
  then show ?thesis
    unfolding set_scan_ids [OF inv bounds] swept_def
    using p by (auto simp: obj_members_def less_Suc_eq_le)
qed

lemma scan_loop_sweeps:
  "lb_inv p \<Longrightarrow> lru_bits ob (unat (scan_lru_bit ob)) = Some p \<Longrightarrow> lw_raw_data (lru_writer ob) = [] \<Longrightarrow>
   unat (scan_lru_bit ob) < 2048 \<Longrightarrow> scan_idx_off ob \<le> 4096 \<Longrightarrow> scan_loop search f p ob = (e, ob') \<Longrightarrow>
   swept (unat (scan_lru_bit ob)) (unat (scan_idx_off ob)) (unat (scan_idx_off ob')) ob' \<and>
   (if e then scan_idx_off ob < scan_idx_off ob' else scan_idx_off ob' = 4096)"
proof (induction search f p ob arbitrary: e ob' rule: scan_loop.induct)
  case (1 search f p ob)
  show ?case
  proof (cases "scan_idx_off ob < 4096")
    case False
    with "1.prems"(5,6) show ?thesis by (auto simp: scan_loop.simps [of search f p ob] swept_def)
  next
    case True
    obtain found p1 ob1 where step: "scan_step search p ob = (found, p1, ob1)"
      by (cases "scan_step search p ob")
    note eff = scan_step_effect [OF step "1.prems"(1-3)]
    have lt: "unat (scan_idx_off ob) < 4096"
      using True by (simp add: word_less_nat_alt)
    have off: "unat (scan_idx_off ob1) = Suc (unat (scan_idx_off ob))"
      using lt scan_step_idx_off [OF step] by (simp add: unat_word_ariths)
    note sw = scan_step_sweeps [OF step "1.prems"(1-4) lt]
    show ?thesis
    proof (cases "f + found \<ge> ucast (scan_stop_until ob1)")
      case stop: True
      then show ?thesis
        using True step "1.prems"(6) sw off by (auto simp: scan_loop.simps [of search f p ob] word_less_nat_alt)
    next
      case False
      then have loop: "scan_loop search (f + found) p1 ob1 = (e, ob')"
        using True step "1.prems"(6) by (simp add: scan_loop.simps [of search f p ob])
      have pre: "lru_bits ob1 (unat (scan_lru_bit ob1)) = Some p1" "unat (scan_lru_bit ob1) < 2048"
        "scan_idx_off ob1 \<le> 4096"
        using eff(1,6) "1.prems"(4) off lt by (auto simp: word_le_nat_alt)
      have IH: "swept (unat (scan_lru_bit ob)) (unat (scan_idx_off ob1)) (unat (scan_idx_off ob')) ob'"
        "if e then scan_idx_off ob1 < scan_idx_off ob' else scan_idx_off ob' = 4096"
        using "1.IH" [OF True step [symmetric] refl False eff(2) pre(1) eff(4) pre(2,3) loop] eff(6) by simp_all
      obtain R where "scans search R ob1 ob'"
        using scan_loop_scans [OF eff(2) pre(1) eff(4) pre(2,3), of search "f + found"] loop by auto
      then have "obj_members ob' \<subseteq> obj_members ob1"
        by (rule scans_no_new)
      with sw IH(1) have "swept (unat (scan_lru_bit ob)) (unat (scan_idx_off ob)) (unat (scan_idx_off ob')) ob'"
        unfolding off by (rule swept_join)
      with IH(2) off show ?thesis by (auto simp: word_less_nat_alt split: if_splits)
    qed
  qed
qed

text \<open>Every block up to the largest one in use is present.\<close>

definition no_holes :: "'k lru_bit_obj \<Rightarrow> bool" where
  "no_holes ob \<longleftrightarrow> (\<forall>k \<le> unat (max_lru_bit ob). lru_bits ob k \<noteq> None)"

text \<open>No marked id lies before the position the scan will continue from.\<close>

definition behind_clean :: "'k lru_bit_obj \<Rightarrow> bool" where
  "behind_clean ob \<longleftrightarrow>
     (\<forall>v \<in> obj_members ob. unat (scan_lru_bit ob) \<le> unat v div 2 ^ 21 \<and>
        (unat v div 2 ^ 21 = unat (scan_lru_bit ob) \<longrightarrow> unat (scan_idx_off ob) \<le> local_id v div 512))"

definition at_origin :: "'k lru_bit_obj \<Rightarrow> bool" where
  "at_origin ob \<longleftrightarrow> scan_lru_bit ob = 0 \<and> scan_idx_off ob = 0"

definition scan_rank :: "'k lru_bit_obj \<Rightarrow> nat" where
  "scan_rank ob = (unat (max_lru_bit ob) - unat (scan_lru_bit ob)) * 5000 + (4097 - unat (scan_idx_off ob))"

lemma local_id_idx_less: "local_id v div 512 < 4096"
  using local_id_less [of v] by simp

text \<open>One call of \<^verbatim>\<open>Scan\<close> on a present block: the loop's effect and the three exits
  (watermark, next block, wrap to the first block).\<close>

definition next_block :: "u32 \<Rightarrow> 'k lru_bit_obj \<Rightarrow> 'k lru_bit_obj" where
  "next_block now1 ob =
     (let ob = ob\<lparr>scan_idx_off := 0, scan_lru_bit := scan_lru_bit ob + 1\<rparr>
      in if scan_lru_bit ob > max_lru_bit ob
         then ob\<lparr>scan_lru_bit := 0, lru_scan_tm := now1 - scan_tm ob, scan_tm := 0\<rparr> else ob)"

lemma scans_frame [simp]:
  "scans search R (ob\<lparr>scan_tm := t\<rparr>) ob' = scans search R ob ob'"
  by (simp add: scans_def)

lemma next_block_frame [simp]:
  "lru_bits (next_block t ob) = lru_bits ob" "lru_writer (next_block t ob) = lru_writer ob"
  "max_lru_bit (next_block t ob) = max_lru_bit ob" "scan_idx_off (next_block t ob) = 0"
  "obj_members (next_block t ob) = obj_members ob" "no_holes (next_block t ob) = no_holes ob"
  "reports search R ob' (next_block t ob) = reports search R ob' ob"
  by (simp_all add: next_block_def Let_def obj_members_def no_holes_def)

lemma Scan_cases:
  assumes inv: "obj_inv ob" and p: "lru_bits ob (unat (scan_lru_bit ob)) = Some p"
  obtains e ob1 R where "Scan search now0 now1 ob = (if e then ob1 else next_block now1 ob1)"
    and "scans search R ob ob1" and "scan_idx_off ob1 \<le> 4096"
    and "swept (unat (scan_lru_bit ob)) (unat (scan_idx_off ob)) (unat (scan_idx_off ob1)) ob1"
    and "if e then scan_idx_off ob < scan_idx_off ob1 else scan_idx_off ob1 = 4096"
proof -
  define ob0 where "ob0 = (if scan_tm ob = 0 then ob\<lparr>scan_tm := now0\<rparr> else ob)"
  have p0: "lru_bits ob0 (unat (scan_lru_bit ob0)) = Some p"
    using p by (simp add: ob0_def)
  have pre: "lb_inv p" "lw_raw_data (lru_writer ob0) = []" "unat (scan_lru_bit ob0) < 2048" "scan_idx_off ob0 \<le> 4096"
    using inv p by (auto simp: obj_inv_def ob0_def word_le_nat_alt)
  obtain e ob1 where loop: "scan_loop search 0 p ob0 = (e, ob1)"
    by (cases "scan_loop search 0 p ob0")
  obtain R where R: "scans search R ob0 ob1" "scan_idx_off ob1 \<le> 4096"
    using scan_loop_scans [OF pre(1) p0 pre(2-4), of search 0] loop by auto
  have same: "scan_lru_bit ob0 = scan_lru_bit ob" "scan_idx_off ob0 = scan_idx_off ob"
    by (simp_all add: ob0_def)
  have eq: "Scan search now0 now1 ob = (if e then ob1 else next_block now1 ob1)"
    using p0 loop by (auto simp: Scan_def Let_def ob0_def next_block_def)
  have sc: "scans search R ob ob1"
    using R(1) by (simp add: ob0_def split: if_splits)
  note sweep = scan_loop_sweeps [OF pre(1) p0 pre(2-4) loop, unfolded same]
  show ?thesis
    using that [OF eq sc R(2) conjunct1 [OF sweep] conjunct2 [OF sweep]] .
qed

lemma scans_inv:
  assumes "obj_inv ob" and "scans search R ob ob1" and "scan_idx_off ob1 \<le> 4096"
    and "lru_bits ob (unat (scan_lru_bit ob)) \<noteq> None"
  shows "obj_inv ob1"
  using assms by (auto simp: scans_def obj_inv_def split: if_splits)

lemma next_block_inv: "obj_inv ob \<Longrightarrow> obj_inv (next_block t ob)"
  by (auto simp: next_block_def Let_def obj_inv_def)

lemma Scan_report:
  assumes inv: "obj_inv ob"
  shows "obj_inv (Scan search now0 now1 ob) \<and> (\<exists>R. reports search R ob (Scan search now0 now1 ob))"
proof (cases "lru_bits ob (unat (scan_lru_bit ob))")
  case None
  then have "Scan search now0 now1 ob = (if scan_tm ob = 0 then ob\<lparr>scan_tm := now0\<rparr> else ob)"
    by (simp add: Scan_def Let_def)
  moreover have "reports search [] ob ob"
    by (simp add: reports_def List.map_filter_def)
  ultimately show ?thesis using inv by (auto simp: obj_inv_def)
next
  case (Some p)
  show ?thesis
  proof (rule Scan_cases [OF inv Some, of search now0 now1])
    fix e ob1 R
    assume "Scan search now0 now1 ob = (if e then ob1 else next_block now1 ob1)"
      and sc: "scans search R ob ob1" "scan_idx_off ob1 \<le> 4096"
    moreover from sc have "obj_inv ob1"
      using scans_inv [OF inv sc] Some by simp
    ultimately show ?thesis
      using next_block_inv [of ob1] by (auto simp: scans_def)
  qed
qed

text \<open>From a clean start of the block, what remains lies at or after the new position.\<close>

lemma scans_clean:
  assumes "behind_clean ob" and "scans search R ob ob1"
    and "swept (unat (scan_lru_bit ob)) (unat (scan_idx_off ob)) hi ob1" and "v \<in> obj_members ob1"
  shows "unat (scan_lru_bit ob) \<le> unat v div 2 ^ 21 \<and>
    (unat v div 2 ^ 21 = unat (scan_lru_bit ob) \<longrightarrow> hi \<le> local_id v div 512)"
  using assms scans_no_new [OF assms(2)] unfolding behind_clean_def swept_def by (meson in_mono not_less)

lemma next_block_advances:
  assumes inv: "obj_inv ob" and sc: "scans search R ob ob1" and full: "no_holes ob1"
    and hi: "\<And>v. v \<in> obj_members ob1 \<Longrightarrow> behind_clean ob \<Longrightarrow> Suc (unat (scan_lru_bit ob)) \<le> unat v div 2 ^ 21"
  shows "if at_origin (next_block t ob1) then behind_clean ob \<longrightarrow> obj_members ob1 = {}
     else scan_rank (next_block t ob1) < scan_rank ob \<and> (behind_clean ob \<longrightarrow> behind_clean (next_block t ob1))"
proof -
  let ?k = "unat (scan_lru_bit ob)" and ?max = "unat (max_lru_bit ob)"
  have b: "?k \<le> ?max" "?max < 2048" and ob1: "scan_lru_bit ob1 = scan_lru_bit ob" "max_lru_bit ob1 = max_lru_bit ob"
    using inv sc by (auto simp: obj_inv_def scans_def word_le_nat_alt)
  then have suc: "unat (scan_lru_bit ob1 + 1) = Suc ?k"
    by (simp add: unat_word_ariths)
  have le_max: "unat v div 2 ^ 21 \<le> ?max" if "v \<in> obj_members ob1" for v
    using that inv scans_no_new [OF sc] by (auto simp: obj_members_def obj_inv_def)
  show ?thesis
  proof (cases "scan_lru_bit ob1 + 1 > max_lru_bit ob1")
    case True
    then have "?max \<le> ?k" using suc by (simp add: word_less_nat_alt ob1)
    then have "behind_clean ob \<longrightarrow> obj_members ob1 = {}"
      using le_max hi by fastforce
    moreover have "at_origin (next_block t ob1)"
      using True by (simp add: next_block_def at_origin_def)
    ultimately show ?thesis by simp
  next
    case False
    then have nb: "scan_lru_bit (next_block t ob1) = scan_lru_bit ob1 + 1"
      by (simp add: next_block_def)
    have "Suc ?k \<le> ?max" using False suc by (simp add: word_less_nat_alt ob1)
    then have "scan_rank (next_block t ob1) < scan_rank ob"
      unfolding scan_rank_def nb suc by (simp add: ob1)
    moreover have "\<not> at_origin (next_block t ob1)" using nb suc by (auto simp: at_origin_def)
    ultimately show ?thesis
      using hi unfolding behind_clean_def nb suc by simp
  qed
qed

lemma Scan_advances:
  assumes inv: "obj_inv ob" and full: "no_holes ob" and ob': "ob' = Scan search now0 now1 ob"
  shows "obj_inv ob' \<and> no_holes ob' \<and>
    (if at_origin ob' then behind_clean ob \<longrightarrow> obj_members ob' = {}
     else scan_rank ob' < scan_rank ob \<and> (behind_clean ob \<longrightarrow> behind_clean ob'))"
proof -
  obtain p where p: "lru_bits ob (unat (scan_lru_bit ob)) = Some p"
    using inv full by (auto simp: no_holes_def obj_inv_def word_le_nat_alt)
  have inv': "obj_inv ob'"
    using Scan_report [OF inv] ob' by blast
  show ?thesis
  proof (rule Scan_cases [OF inv p, of search now0 now1])
    fix e ob1 R
    assume eq: "Scan search now0 now1 ob = (if e then ob1 else next_block now1 ob1)"
      and sc: "scans search R ob ob1" and le: "scan_idx_off ob1 \<le> 4096"
      and sw: "swept (unat (scan_lru_bit ob)) (unat (scan_idx_off ob)) (unat (scan_idx_off ob1)) ob1"
      and e: "if e then scan_idx_off ob < scan_idx_off ob1 else scan_idx_off ob1 = 4096"
    have full1: "no_holes ob1"
      using sc full by (auto simp: scans_def no_holes_def)
    note clean = scans_clean [OF _ sc sw]
    show ?thesis
    proof (cases e)
      case True
      then have lt: "unat (scan_idx_off ob) < unat (scan_idx_off ob1)" "ob' = ob1"
        using e eq ob' by (auto simp: word_less_nat_alt)
      then show ?thesis
        using inv' full1 clean le sc
        by (auto simp: at_origin_def scan_rank_def behind_clean_def scans_def word_le_nat_alt)
    next
      case False
      then have "unat (scan_idx_off ob1) = 4096" and eq': "ob' = next_block now1 ob1"
        using e eq ob' by simp_all
      then have "Suc (unat (scan_lru_bit ob)) \<le> unat v div 2 ^ 21" if "v \<in> obj_members ob1" "behind_clean ob" for v
        using clean [OF that(2,1)] local_id_idx_less [of v] by linarith
      then show ?thesis
        using next_block_advances [OF inv sc full1, of now1] inv' full1 eq' by auto
    qed
  qed
qed

lemma Scan_reaches_origin:
  "obj_inv ob \<Longrightarrow> no_holes ob \<Longrightarrow>
   \<exists>n. obj_inv ((Scan search now0 now1 ^^ n) ob) \<and> no_holes ((Scan search now0 now1 ^^ n) ob) \<and>
       at_origin ((Scan search now0 now1 ^^ n) ob) \<and>
       (behind_clean ob \<longrightarrow> obj_members ((Scan search now0 now1 ^^ n) ob) = {})"
proof (induction "scan_rank ob" arbitrary: ob rule: less_induct)
  case less
  let ?S = "Scan search now0 now1"
  note adv = Scan_advances [OF less.prems refl, of search now0 now1]
  show ?case
  proof (cases "at_origin (?S ob)")
    case True
    with adv show ?thesis by (intro exI [of _ 1]) auto
  next
    case False
    with adv obtain n where "obj_inv ((?S ^^ n) (?S ob)) \<and> no_holes ((?S ^^ n) (?S ob)) \<and>
        at_origin ((?S ^^ n) (?S ob)) \<and> (behind_clean (?S ob) \<longrightarrow> obj_members ((?S ^^ n) (?S ob)) = {})"
      using less.hyps [of "?S ob"] by auto
    with adv False show ?thesis
      by (intro exI [of _ "Suc n"]) (auto simp: funpow_swap1)
  qed
qed

section \<open>What the bitmap promises\<close>

text \<open>The specification: a set of changed ids and the sequence of keys sent to the backup.\<close>

inductive abs_lru_step :: "(u32 \<Rightarrow> 'k option) \<Rightarrow> u32 set \<times> 'k list \<Rightarrow> u32 set \<times> 'k list \<Rightarrow> bool"
  for search where
  mark: "abs_lru_step search (S, L) (insert v S, L)"
| unmark: "abs_lru_step search (S, L) (S - {v}, L)"
| report: "set R \<subseteq> S \<Longrightarrow> sorted_wrt (<) R \<Longrightarrow>
    abs_lru_step search (S, L) (S - set R, L @ List.map_filter search R)"

inductive lru_step :: "(u32 \<Rightarrow> 'k option) \<Rightarrow> 'k lru_bit_obj \<Rightarrow> 'k lru_bit_obj \<Rightarrow> bool"
  for search where
  set: "lru_step search ob (snd (SetNodeID alloc_ok v b ob))"
| scan: "lru_step search ob (Scan search now0 now1 ob)"

definition abs_lru :: "'k lru_bit_obj \<Rightarrow> u32 set \<times> 'k list" where
  "abs_lru ob = (obj_members ob, concat (lw_binlog (lru_writer ob)))"

lemma SetNodeID_writer: "lru_writer (snd (SetNodeID alloc_ok v b ob)) = lru_writer ob"
  by (auto simp: SetNodeID_def Let_def split: prod.splits option.splits if_splits)

lemma SetNodeID_alloc: "SetNodeID False v b ob = SetNodeID True v b ob \<or> SetNodeID False v b ob = (-1, ob)"
  by (cases "lru_bits ob (unat (BBLK_OFF v))") (simp_all add: SetNodeID_def Let_def)

lemma abs_lru_step_idle: "abs_lru_step search (S, L) (S, L)"
  using abs_lru_step.report [of "[]" S search L] by (simp add: List.map_filter_def)

lemma abs_lru_SetNodeID:
  "abs_lru_step search (abs_lru ob) (abs_lru (snd (SetNodeID alloc_ok v b ob)))"
proof -
  have "abs_lru_step search (abs_lru ob) (abs_lru (snd (SetNodeID True v b ob)))"
    unfolding abs_lru_def SetNodeID_writer SetNodeID_members
    by (auto intro: abs_lru_step.mark abs_lru_step.unmark)
  moreover have "abs_lru_step search (abs_lru ob) (abs_lru ob)"
    unfolding abs_lru_def by (rule abs_lru_step_idle)
  ultimately show ?thesis
    using SetNodeID_alloc [of v b ob] by (cases alloc_ok) auto
qed

lemma lru_step_refines:
  assumes "lru_step search ob ob'" and "obj_inv ob"
  shows "obj_inv ob' \<and> abs_lru_step search (abs_lru ob) (abs_lru ob')"
  using assms(1)
proof cases
  case (set alloc_ok v b)
  moreover have "obj_inv (snd (SetNodeID alloc_ok v b ob))"
    using SetNodeID_inv [OF assms(2), of v b] SetNodeID_alloc [of v b ob] assms(2) by (cases alloc_ok) auto
  ultimately show ?thesis
    using abs_lru_SetNodeID [of search ob alloc_ok v b] by simp
next
  case (scan now0 now1)
  then obtain R where "obj_inv ob'" and R: "reports search R ob ob'"
    using Scan_report [OF assms(2)] by blast
  then show ?thesis
    unfolding abs_lru_def using abs_lru_step.report [of R "obj_members ob" search] by (simp add: reports_def)
qed



text \<open>Repeated scans, with no call in between: what has been logged so far.\<close>

lemma Scan_iterated:
  "obj_inv ob \<Longrightarrow>
   \<exists>R. distinct R \<and> set R \<subseteq> obj_members ob \<and> obj_members ((Scan search now0 now1 ^^ n) ob) = obj_members ob - set R \<and>
     concat (lw_binlog (lru_writer ((Scan search now0 now1 ^^ n) ob))) =
       concat (lw_binlog (lru_writer ob)) @ List.map_filter search R"
proof (induction n arbitrary: ob)
  case 0
  then show ?case by (intro exI [of _ "[]"]) (simp add: List.map_filter_def)
next
  case (Suc n)
  let ?S = "Scan search now0 now1"
  obtain R1 where inv: "obj_inv (?S ob)" and R1: "reports search R1 ob (?S ob)"
    using Scan_report [OF Suc.prems] by blast
  obtain R2 where R2: "distinct R2" "set R2 \<subseteq> obj_members (?S ob)"
    "obj_members ((?S ^^ n) (?S ob)) = obj_members (?S ob) - set R2"
    "concat (lw_binlog (lru_writer ((?S ^^ n) (?S ob)))) =
       concat (lw_binlog (lru_writer (?S ob))) @ List.map_filter search R2"
    using Suc.IH [OF inv] by blast
  have "distinct R1"
    using R1 by (auto simp: reports_def strict_sorted_iff)
  with R1 R2 show ?case
    unfolding reports_def funpow_Suc_right comp_def
    by (intro exI [of _ "R1 @ R2"]) (auto simp: List.map_filter_def)
qed

text \<open>(C2) The background scan drains the bitmap: when every block up to the largest one is
  present, finitely many calls of \<^verbatim>\<open>Scan\<close> unmark every id, and by then each id that was
  marked has been logged exactly once (in some order, skipping nodes that are gone),
  whatever the position the scan resumed from and whatever the watermark.\<close>

theorem lru_scan_drains:
  assumes "obj_inv ob" and "no_holes ob"
  shows "\<exists>n R. distinct R \<and> set R = obj_members ob \<and> obj_members ((Scan search now0 now1 ^^ n) ob) = {} \<and>
    concat (lw_binlog (lru_writer ((Scan search now0 now1 ^^ n) ob))) =
      concat (lw_binlog (lru_writer ob)) @ List.map_filter search R"
proof -
  let ?S = "Scan search now0 now1"
  obtain n1 where n1: "obj_inv ((?S ^^ n1) ob)" "no_holes ((?S ^^ n1) ob)" "at_origin ((?S ^^ n1) ob)"
    using Scan_reaches_origin [OF assms] by blast
  then have "behind_clean ((?S ^^ n1) ob)"
    by (simp add: at_origin_def behind_clean_def)
  then obtain n2 where "obj_members ((?S ^^ n2) ((?S ^^ n1) ob)) = {}"
    using Scan_reaches_origin [OF n1(1,2)] by blast
  then have "obj_members ((?S ^^ (n2 + n1)) ob) = {}"
    by (simp add: funpow_add)
  with Scan_iterated [OF assms(1), of "n2 + n1" search now0 now1] show ?thesis by blast
qed

theorem lru_scan_drains_witness:
  "let ob = snd (SetNodeID True 700 1 (LruBitObj_Init 20 :: u32 lru_bit_obj)) in
   obj_inv ob \<and> no_holes ob \<and> obj_members ob = {700} \<and>
   (\<exists>n R. distinct R \<and> set R = {700} \<and> obj_members ((Scan Some 1 2 ^^ n) ob) = {} \<and>
      concat (lw_binlog (lru_writer ((Scan Some 1 2 ^^ n) ob))) = concat (lw_binlog (lru_writer ob)) @ List.map_filter Some R)"
proof -
  let ?ob = "snd (SetNodeID True 700 1 (LruBitObj_Init 20 :: u32 lru_bit_obj))"
  have inv: "obj_inv ?ob" by (rule SetNodeID_inv [OF obj_inv_Init])
  have full: "no_holes ?ob"
    by (simp add: no_holes_def SetNodeID_def LruBitObj_Init_def BBLK_OFF_def Let_def split: prod.splits)
  have "obj_members ?ob = {700}"
    by (simp add: SetNodeID_members obj_members_Init)
  with lru_scan_drains [OF inv full, of Some 1 2] inv full show ?thesis
    by (simp add: Let_def)
qed

text \<open>A gap in the blocks stops the scan for good: it returns before it advances.\<close>

lemma Scan_stuck_on_hole:
  assumes "lru_bits ob (unat (scan_lru_bit ob)) = None"
  shows "obj_members ((Scan search now0 now1 ^^ n) ob) = obj_members ob \<and>
    scan_lru_bit ((Scan search now0 now1 ^^ n) ob) = scan_lru_bit ob"
proof -
  have "lru_bits ((Scan search now0 now1 ^^ n) ob) = lru_bits ob \<and>
      scan_lru_bit ((Scan search now0 now1 ^^ n) ob) = scan_lru_bit ob"
    using assms by (induction n) (auto simp: Scan_def Let_def)
  then show ?thesis by (simp add: obj_members_def)
qed

lemma Scan_stuck_reachable:
  "let ob = snd (SetNodeID True 0x200000 1 (LruBitObj_Init 20 :: u32 lru_bit_obj)) in
   obj_members ob = {0x200000} \<and> obj_members ((Scan Some 1 2 ^^ n) ob) = {0x200000}"
proof -
  let ?ob = "snd (SetNodeID True 0x200000 1 (LruBitObj_Init 20 :: u32 lru_bit_obj))"
  have "lru_bits ?ob (unat (scan_lru_bit ?ob)) = None"
    by (simp add: SetNodeID_def LruBitObj_Init_def BBLK_OFF_def Let_def split: prod.splits)
  then show ?thesis
    using Scan_stuck_on_hole [of ?ob n Some 1 2] by (simp add: SetNodeID_members obj_members_Init)
qed

lemma SetNodeID_total_1_bits:
  "total_1_bits (snd (SetNodeID True v b ob)) =
     (if b \<noteq> 0 \<and> v \<notin> obj_members ob then total_1_bits ob + 1 else total_1_bits ob)"
  by (cases "lru_bits ob (unat v div 2 ^ 21)")
    (simp_all add: SetNodeID_def Let_def unat_BBLK_OFF obj_members_def lb_mem_new case_prod_beta lru_bit_set_hit)

text \<open>\<^verbatim>\<open>total_1_bits\<close> is not decremented when a mark is removed through \<^verbatim>\<open>SetNodeID(v, 0)\<close>.\<close>

lemma total_1_bits_drifts:
  "let ob = snd (SetNodeID True 7 0 (snd (SetNodeID True 7 1 (LruBitObj_Init 20 :: u32 lru_bit_obj)))) in
   obj_members ob = {} \<and> total_1_bits ob = 1"
  by (simp add: SetNodeID_members obj_members_Init SetNodeID_total_1_bits) (simp add: LruBitObj_Init_def)

end
