(* ===== verification/Key_Format.thy ===== *)
theory Key_Format
  imports Bytes
begin

text \<open>
  The RocksDB key codec of \<^verbatim>\<open>index_storage/rocksdb_helper/key_format.cc\<close> and the key
  comparator of \<^verbatim>\<open>rocksdb_key_comparator.h\<close>. A \<^verbatim>\<open>std::string\<close> is a list of bytes, an
  \<^verbatim>\<open>int64_t\<close> or \<^verbatim>\<open>double\<close> is the 64-bit word that represents it. Reading a string past its
  terminating zero, which the code does not check, and the exception of \<^verbatim>\<open>substr\<close> are error
  values. The decimal conversions of doubles (\<^verbatim>\<open>strtod\<close>, \<^verbatim>\<open>std::to_string(double)\<close>) are
  arguments of the definitions that use them.
\<close>

section \<open>Types\<close>

text \<open>The field types of \<^verbatim>\<open>DField\<close> (\<^verbatim>\<open>common/protocol.h\<close>); any other number is \<open>FOther\<close>.\<close>

datatype dfield = FNone | FSigned | FUnsigned | FFloat | FString | FBinary | FOther int

datatype kf_error = Read_past_end | Substr_out_of_range | Vector_out_of_range | Uninitialised | Assert_failed

type_synonym 'a res = "kf_error + 'a"

text \<open>What the key codec uses of \<^verbatim>\<open>DTCTableDefinition\<close>.\<close>

record table_def =
  uniq_fields_list :: "byte list"
  field_type :: "byte \<Rightarrow> dfield"

text \<open>\<^verbatim>\<open>DTCValue\<close> is a union; the field type tells which member is read.\<close>

record dtc_value =
  s64 :: u64
  u64 :: u64
  flt :: u64
  str :: "byte list"

section \<open>Reading strings\<close>

text \<open>\<^verbatim>\<open>src[i]\<close> of a \<^verbatim>\<open>std::string\<close>: index \<open>size()\<close> is the terminating zero.\<close>

definition str_at :: "byte list \<Rightarrow> nat \<Rightarrow> byte res" where
  "str_at s i =
     (if i < length s then Inr (s ! i) else if i = length s then Inr 0 else Inl Read_past_end)"

definition substr :: "byte list \<Rightarrow> nat \<Rightarrow> nat \<Rightarrow> byte list res" where
  "substr s pos n = (if pos \<le> length s then Inr (take n (drop pos s)) else Inl Substr_out_of_range)"

text \<open>\<^verbatim>\<open>memcpy\<close> of eight bytes from \<^verbatim>\<open>c_str()\<close>, whose last readable byte is the zero.\<close>

definition read_u64 :: "byte list \<Rightarrow> u64 res" where
  "read_u64 s = (if 8 \<le> length s + 1 then Inr (load_u64 0 (\<lambda>i. (s @ [0]) ! i)) else Inl Read_past_end)"

section \<open>Encoding and decoding one value\<close>

abbreviation SEGMENT_SIZE :: nat where "SEGMENT_SIZE \<equiv> 8"

abbreviation ENCODER_MARKER :: byte where "ENCODER_MARKER \<equiv> 127"

definition signMask :: u64 where
  "signMask = 0x8000000000000000"

definition encode_into_cmp_uint :: "u64 \<Rightarrow> u64" where
  "encode_into_cmp_uint src = src XOR signMask"

definition htonll :: "u64 \<Rightarrow> u64" where
  "htonll val = push_bit 32 (ucast (htonl (ucast val))) + ucast (htonl (ucast (drop_bit 32 val)))"

definition ntohll :: "u64 \<Rightarrow> u64" where
  "ntohll val = push_bit 32 (ucast (htonl (ucast val))) + ucast (htonl (ucast (drop_bit 32 val)))"

function encode_str_loop :: "byte list \<Rightarrow> nat \<Rightarrow> nat \<Rightarrow> byte list" where
  "encode_str_loop src pos left_length =
     (let copy_len = (if SEGMENT_SIZE - 1 < left_length then SEGMENT_SIZE - 1 else left_length);
          padding_bytes = SEGMENT_SIZE - 1 - copy_len;
          seg = take copy_len (drop pos src)
      in if padding_bytes \<noteq> 0
         then seg @ replicate padding_bytes 0 @ [ENCODER_MARKER - word_of_nat padding_bytes]
         else seg @ [ENCODER_MARKER] @ encode_str_loop src (pos + copy_len) (left_length - copy_len))"
  by pat_completeness auto
termination
  by (relation "measure (\<lambda>(src, pos, left_length). left_length)") (auto split: if_splits)

declare encode_str_loop.simps [simp del]

definition encode_bytes_str :: "byte list \<Rightarrow> byte list" where
  "encode_bytes_str src = encode_str_loop src 0 (length src)"

definition encode_bytes_u64 :: "u64 \<Rightarrow> byte list" where
  "encode_bytes_u64 src = store_u64 (htonll src)"

definition encode_bytes_s64 :: "u64 \<Rightarrow> byte list" where
  "encode_bytes_s64 src = store_u64 (htonll (encode_into_cmp_uint src))"

text \<open>\<^verbatim>\<open>src >= 0\<close> on a double: false for NaN, true for both zeros.\<close>

definition dbl_nan :: "u64 \<Rightarrow> bool" where
  "dbl_nan u \<longleftrightarrow> unat u mod 2 ^ 63 > 0x7FF0000000000000"

definition dbl_ge_0 :: "u64 \<Rightarrow> bool" where
  "dbl_ge_0 u \<longleftrightarrow> \<not> dbl_nan u \<and> (\<not> bit u 63 \<or> unat u mod 2 ^ 63 = 0)"

definition encode_bytes_dbl :: "u64 \<Rightarrow> byte list" where
  "encode_bytes_dbl src = encode_bytes_u64 (if dbl_ge_0 src then src OR signMask else NOT src)"

definition DecodeBytes_s64 :: "byte list \<Rightarrow> u64 res" where
  "DecodeBytes_s64 src =
     (case read_u64 src of Inl e \<Rightarrow> Inl e | Inr net_bytes \<Rightarrow> Inr (ntohll net_bytes XOR signMask))"

definition DecodeBytes_u64 :: "byte list \<Rightarrow> u64 res" where
  "DecodeBytes_u64 src = (case read_u64 src of Inl e \<Rightarrow> Inl e | Inr net_bytes \<Rightarrow> Inr (ntohll net_bytes))"

definition DecodeBytes_dbl :: "byte list \<Rightarrow> u64 res" where
  "DecodeBytes_dbl src =
     (case DecodeBytes_u64 src of
        Inl e \<Rightarrow> Inl e
      | Inr u \<Rightarrow> Inr (if (u AND signMask) > 0 then u AND NOT signMask else NOT u))"

text \<open>The loop of the string decoder. \<^verbatim>\<open>padding_bytes\<close> is a signed char; a negative count,
  converted to \<^verbatim>\<open>size_t\<close>, makes \<^verbatim>\<open>substr\<close> take everything to the end.\<close>

function decode_str_loop :: "byte list \<Rightarrow> nat \<Rightarrow> byte list \<Rightarrow> byte list res" where
  "decode_str_loop src i dst =
     (if i < length src
      then case str_at src (i + 7) of
             Inl e \<Rightarrow> Inl e
           | Inr c \<Rightarrow>
               let n = int (SEGMENT_SIZE - 1) - sint (ENCODER_MARKER - c);
                   piece = (if n < 0 then drop i src else take (nat n) (drop i src))
               in decode_str_loop src (i + SEGMENT_SIZE) (dst @ piece)
      else Inr dst)"
  by pat_completeness auto
termination
  by (relation "measure (\<lambda>(src, i, dst). length src - i)") auto

declare decode_str_loop.simps [simp del]

definition DecodeBytes_str :: "byte list \<Rightarrow> byte list \<Rightarrow> byte list res" where
  "DecodeBytes_str src dst = decode_str_loop src 0 (if length src = 0 then [] else dst)"

section \<open>Encoding rows\<close>

text \<open>From a map of values, over the table's unique fields; fields without a value are
  skipped. The second result is \<^verbatim>\<open>caseSensitiveFreeLen\<close>.\<close>

definition encode_value :: "dfield \<Rightarrow> dtc_value \<Rightarrow> byte list \<times> u64" where
  "encode_value t v =
     (case t of
        FSigned \<Rightarrow> (encode_bytes_s64 (s64 v), 0)
      | FUnsigned \<Rightarrow> (encode_bytes_u64 (u64 v), 0)
      | FFloat \<Rightarrow> (encode_bytes_dbl (flt v), 0)
      | FBinary \<Rightarrow> (encode_bytes_str (str v), 0)
      | FString \<Rightarrow> (let temp_field = encode_bytes_str (str v) in (temp_field, word_of_nat (length temp_field)))
      | _ \<Rightarrow> ([], 0))"

fun encode_map_loop :: "table_def \<Rightarrow> (byte \<rightharpoonup> dtc_value) \<Rightarrow> byte list \<Rightarrow> byte list \<times> u64" where
  "encode_map_loop td vals [] = ([], 0)"
| "encode_map_loop td vals (f # fs) =
     (case vals f of
        None \<Rightarrow> encode_map_loop td vals fs
      | Some v \<Rightarrow>
          (let (k, n) = encode_value (field_type td f) v; (ks, m) = encode_map_loop td vals fs
           in (k @ ks, n + m)))"

definition Encode_map :: "(byte \<rightharpoonup> dtc_value) \<Rightarrow> table_def \<Rightarrow> byte list \<times> u64" where
  "Encode_map fieldValues td = encode_map_loop td fieldValues (uniq_fields_list td)"

text \<open>From a vector of strings, by the table definition. The \<^verbatim>\<open>Binary\<close> case has no
  \<^verbatim>\<open>break\<close> and falls through into the \<^verbatim>\<open>String\<close> case.\<close>

definition encode_text_tbl :: "(byte list \<Rightarrow> u64) \<Rightarrow> dfield \<Rightarrow> byte list \<Rightarrow> byte list \<times> u64" where
  "encode_text_tbl strtod t v =
     (case t of
        FSigned \<Rightarrow> (encode_bytes_s64 (strtoll (c_str v)), 0)
      | FUnsigned \<Rightarrow> (encode_bytes_u64 (strtoull (c_str v)), 0)
      | FFloat \<Rightarrow> (encode_bytes_dbl (strtod (c_str v)), 0)
      | FBinary \<Rightarrow>
          (let temp_field = encode_bytes_str v
           in (encode_bytes_str v @ temp_field, word_of_nat (length temp_field)))
      | FString \<Rightarrow> (let temp_field = encode_bytes_str v in (temp_field, word_of_nat (length temp_field)))
      | _ \<Rightarrow> ([], 0))"

fun encode_tbl_loop ::
  "(byte list \<Rightarrow> u64) \<Rightarrow> dfield list \<Rightarrow> byte list list \<Rightarrow> (byte list \<times> u64) res" where
  "encode_tbl_loop strtod [] vs = Inr ([], 0)"
| "encode_tbl_loop strtod (t # ts) [] =
     (if t \<in> {FSigned, FUnsigned, FFloat, FBinary, FString} then Inl Vector_out_of_range
      else encode_tbl_loop strtod ts [])"
| "encode_tbl_loop strtod (t # ts) (v # vs) =
     (case encode_tbl_loop strtod ts vs of
        Inl e \<Rightarrow> Inl e
      | Inr (ks, m) \<Rightarrow> (let (k, n) = encode_text_tbl strtod t v in Inr (k @ ks, n + m)))"

definition Encode_tbl ::
  "(byte list \<Rightarrow> u64) \<Rightarrow> byte list list \<Rightarrow> table_def \<Rightarrow> (byte list \<times> u64) res" where
  "Encode_tbl strtod fieldValues td =
     encode_tbl_loop strtod (map (field_type td) (uniq_fields_list td)) fieldValues"

text \<open>From a vector of strings, by a vector of types.\<close>

definition encode_text :: "(byte list \<Rightarrow> u64) \<Rightarrow> dfield \<Rightarrow> byte list \<Rightarrow> byte list" where
  "encode_text strtod t v =
     (case t of
        FSigned \<Rightarrow> encode_bytes_s64 (strtoll (c_str v))
      | FUnsigned \<Rightarrow> encode_bytes_u64 (strtoull (c_str v))
      | FFloat \<Rightarrow> encode_bytes_dbl (strtod (c_str v))
      | FBinary \<Rightarrow> encode_bytes_str v
      | FString \<Rightarrow> encode_bytes_str v
      | _ \<Rightarrow> [])"

fun Encode_vec :: "(byte list \<Rightarrow> u64) \<Rightarrow> byte list list \<Rightarrow> dfield list \<Rightarrow> byte list res" where
  "Encode_vec strtod vs [] = Inr []"
| "Encode_vec strtod [] (t # ts) =
     (if t \<in> {FSigned, FUnsigned, FFloat, FBinary, FString} then Inl Vector_out_of_range
      else Encode_vec strtod [] ts)"
| "Encode_vec strtod (v # vs) (t # ts) =
     (case Encode_vec strtod vs ts of Inl e \<Rightarrow> Inl e | Inr ks \<Rightarrow> Inr (encode_text strtod t v @ ks))"

section \<open>Decoding rows\<close>

text \<open>The end of a string field that starts at \<open>pos - 8\<close>: past the first segment whose last
  byte is not the marker. The code does not check the length.\<close>

function seg_end :: "byte list \<Rightarrow> nat \<Rightarrow> nat res" where
  "seg_end src pos =
     (case str_at src (pos - 1) of
        Inl e \<Rightarrow> Inl e
      | Inr c \<Rightarrow> if c = ENCODER_MARKER then seg_end src (pos + SEGMENT_SIZE) else Inr pos)"
  by pat_completeness auto
termination
  by (relation "measure (\<lambda>(src, pos). length src + 8 - pos)") (auto simp: str_at_def split: if_splits)

declare seg_end.simps [simp del]

definition decode_text ::
  "(u64 \<Rightarrow> byte list) \<Rightarrow> byte list \<Rightarrow> nat \<Rightarrow> dfield \<Rightarrow> (byte list \<times> nat) res" where
  "decode_text dtoa src pos t =
     (case t of
        FSigned \<Rightarrow>
          (case substr src pos 8 of Inl e \<Rightarrow> Inl e | Inr b \<Rightarrow>
            (case DecodeBytes_s64 b of Inl e \<Rightarrow> Inl e | Inr w \<Rightarrow> Inr (to_string_s64 w, pos + 8)))
      | FUnsigned \<Rightarrow>
          (case substr src pos 8 of Inl e \<Rightarrow> Inl e | Inr b \<Rightarrow>
            (case DecodeBytes_u64 b of Inl e \<Rightarrow> Inl e | Inr w \<Rightarrow> Inr (to_string_u64 w, pos + 8)))
      | FFloat \<Rightarrow>
          (case substr src pos 8 of Inl e \<Rightarrow> Inl e | Inr b \<Rightarrow>
            (case DecodeBytes_dbl b of Inl e \<Rightarrow> Inl e | Inr w \<Rightarrow> Inr (dtoa w, pos + 8)))
      | FNone \<Rightarrow> Inr ([], pos)
      | FOther n \<Rightarrow> Inr ([], pos)
      | _ \<Rightarrow>
          (case seg_end src (pos + SEGMENT_SIZE) of Inl e \<Rightarrow> Inl e | Inr q \<Rightarrow>
            (case substr src pos (q - pos) of Inl e \<Rightarrow> Inl e | Inr b \<Rightarrow>
              (case DecodeBytes_str b [] of Inl e \<Rightarrow> Inl e | Inr v \<Rightarrow> Inr (v, q)))))"

fun decode_vec_loop ::
  "(u64 \<Rightarrow> byte list) \<Rightarrow> byte list \<Rightarrow> nat \<Rightarrow> dfield list \<Rightarrow> byte list list res" where
  "decode_vec_loop dtoa src pos [] = Inr []"
| "decode_vec_loop dtoa src pos (t # ts) =
     (case decode_text dtoa src pos t of
        Inl e \<Rightarrow> Inl e
      | Inr (v, q) \<Rightarrow> (case decode_vec_loop dtoa src q ts of Inl e \<Rightarrow> Inl e | Inr vs \<Rightarrow> Inr (v # vs)))"

definition Decode_vec :: "(u64 \<Rightarrow> byte list) \<Rightarrow> byte list \<Rightarrow> dfield list \<Rightarrow> byte list list res" where
  "Decode_vec dtoa src fieldTypes = decode_vec_loop dtoa src 0 fieldTypes"

definition Decode_tbl :: "(u64 \<Rightarrow> byte list) \<Rightarrow> byte list \<Rightarrow> table_def \<Rightarrow> byte list list res" where
  "Decode_tbl dtoa src td = decode_vec_loop dtoa src 0 (map (field_type td) (uniq_fields_list td))"

definition decode_primary_key ::
  "(u64 \<Rightarrow> byte list) \<Rightarrow> byte list \<Rightarrow> dfield \<Rightarrow> byte list \<Rightarrow> byte list res" where
  "decode_primary_key dtoa src keyType pKey =
     (case keyType of
        FSigned \<Rightarrow> (case DecodeBytes_s64 (take 8 src) of Inl e \<Rightarrow> Inl e | Inr w \<Rightarrow> Inr (to_string_s64 w))
      | FUnsigned \<Rightarrow> (case DecodeBytes_u64 (take 8 src) of Inl e \<Rightarrow> Inl e | Inr w \<Rightarrow> Inr (to_string_u64 w))
      | FFloat \<Rightarrow> (case DecodeBytes_dbl (take 8 src) of Inl e \<Rightarrow> Inl e | Inr w \<Rightarrow> Inr (dtoa w))
      | FNone \<Rightarrow> Inr pKey
      | FOther n \<Rightarrow> Inr pKey
      | _ \<Rightarrow> (case seg_end src SEGMENT_SIZE of Inl e \<Rightarrow> Inl e | Inr pos \<Rightarrow> DecodeBytes_str (take pos src) pKey))"

definition get_field_len :: "byte list \<Rightarrow> dfield \<Rightarrow> int res" where
  "get_field_len src fieldType =
     (case fieldType of
        FSigned \<Rightarrow> Inr 8 | FUnsigned \<Rightarrow> Inr 8 | FFloat \<Rightarrow> Inr 8
      | FNone \<Rightarrow> Inr (-1) | FOther n \<Rightarrow> Inr (-1)
      | _ \<Rightarrow> (case seg_end src SEGMENT_SIZE of Inl e \<Rightarrow> Inl e | Inr pos \<Rightarrow> Inr (int pos)))"

text \<open>The result is the return code and the key; \<open>key\<close> is left alone on failure.\<close>

definition get_format_key :: "byte list \<Rightarrow> dfield \<Rightarrow> byte list \<Rightarrow> (int \<times> byte list) res" where
  "get_format_key src fieldType key =
     (case fieldType of
        FSigned \<Rightarrow> Inr (0, take 8 src) | FUnsigned \<Rightarrow> Inr (0, take 8 src) | FFloat \<Rightarrow> Inr (0, take 8 src)
      | FNone \<Rightarrow> Inr (-1, key) | FOther n \<Rightarrow> Inr (-1, key)
      | _ \<Rightarrow> (case seg_end src SEGMENT_SIZE of Inl e \<Rightarrow> Inl e | Inr pos \<Rightarrow> Inr (0, take pos src)))"

section \<open>Comparing keys\<close>

definition toupper :: "byte \<Rightarrow> byte" where
  "toupper b = (if 97 \<le> b \<and> b \<le> 122 then b - 32 else b)"

text \<open>\<^verbatim>\<open>my_strn_case_cmp\<close> compares \<^verbatim>\<open>char\<close> values, which are signed.\<close>

fun strn_case_cmp :: "byte list \<Rightarrow> byte list \<Rightarrow> nat \<Rightarrow> int" where
  "strn_case_cmp (a # as) (b # bs) (Suc n) =
     (let c1 = toupper a; c2 = toupper b in
      if c1 = c2 then strn_case_cmp as bs n else if sint c1 < sint c2 then -1 else 1)"
| "strn_case_cmp _ _ _ = 0"

text \<open>Both comparisons read \<open>n\<close> bytes from each side; the terminating zero is readable.\<close>

definition raw_cmp :: "bool \<Rightarrow> byte list \<Rightarrow> byte list \<Rightarrow> nat \<Rightarrow> int res" where
  "raw_cmp ignore_case l r n =
     (if n \<le> length l + 1 \<and> n \<le> length r + 1
      then Inr (if ignore_case then strn_case_cmp (l @ [0]) (r @ [0]) n else memcmp (l @ [0]) (r @ [0]) n)
      else Inl Read_past_end)"

text \<open>\<^verbatim>\<open>Compare\<close>: for an unsupported type the lengths keep their last values, which are
  indeterminate for the first field.\<close>

fun Compare_loop :: "byte list \<Rightarrow> byte list \<Rightarrow> (int \<times> int) option \<Rightarrow> dfield list \<Rightarrow> int res" where
  "Compare_loop lHead rHead lens [] = Inr 0"
| "Compare_loop lHead rHead lens (t # ts) =
     (case (if t \<in> {FSigned, FUnsigned, FFloat} then Inr (8, 8)
            else if t \<in> {FBinary, FString}
            then case get_field_len lHead t of Inl e \<Rightarrow> Inl e | Inr l \<Rightarrow>
                 (case get_field_len rHead t of Inl e \<Rightarrow> Inl e | Inr r \<Rightarrow> Inr (l, r))
            else case lens of None \<Rightarrow> Inl Uninitialised | Some lr \<Rightarrow> Inr lr) of
        Inl e \<Rightarrow> Inl e
      | Inr (lFieldLen, rFieldLen) \<Rightarrow>
          let compLen = (if lFieldLen > rFieldLen then rFieldLen else lFieldLen) in
          (case raw_cmp (t = FString) lHead rHead (nat compLen) of
             Inl e \<Rightarrow> Inl e
           | Inr ret \<Rightarrow>
               if ret \<noteq> 0 then Inr ret
               else if lFieldLen \<noteq> rFieldLen then Inr (if lFieldLen < rFieldLen then -1 else 1)
               else Compare_loop (drop (nat compLen) lHead) (drop (nat compLen) rHead)
                      (Some (lFieldLen, rFieldLen)) ts))"

definition Compare :: "byte list \<Rightarrow> byte list \<Rightarrow> dfield list \<Rightarrow> int res" where
  "Compare ls rs fieldTypes = Compare_loop ls rs None fieldTypes"

record key_comparator =
  mCaseSensitiveKey :: bool
  mHasVirtualField :: bool

text \<open>The comparison of the two leading zones, shared by both branches of
  \<^verbatim>\<open>internal_compare\<close>: \<^verbatim>\<open>lk.compare(0, minLen, rk)\<close> compares with the whole of \<open>rk\<close>.\<close>

definition head_compare :: "bool \<Rightarrow> byte list \<Rightarrow> byte list \<Rightarrow> nat \<Rightarrow> int res" where
  "head_compare case_sensitive lk rk minLen =
     (if case_sensitive then Inr (bcmp (take minLen lk) rk) else raw_cmp True lk rk minLen)"

definition len_compare :: "int \<Rightarrow> nat \<Rightarrow> nat \<Rightarrow> int" where
  "len_compare r l1 l2 = (if r = 0 then if l1 < l2 then -1 else if l1 > l2 then 1 else 0 else r)"

definition virtual_compare :: "bool \<Rightarrow> byte list \<Rightarrow> byte list \<Rightarrow> int res" where
  "virtual_compare cs lk rk =
     (if length lk < 8 \<or> length rk < 8 then Inl Substr_out_of_range
      else case (DecodeBytes_u64 (drop (length lk - 8) lk), DecodeBytes_u64 (drop (length rk - 8) rk)) of
        (Inr lkNextLen, Inr rkNextLen) \<Rightarrow>
          let lkPrevLen = unat (word_of_nat (length lk) - lkNextLen - 8 :: u64);
              rkPrevLen = unat (word_of_nat (length rk) - rkNextLen - 8 :: u64);
              minLen = (if lkPrevLen < rkPrevLen then lkPrevLen else rkPrevLen)
          in if minLen = 0 then Inl Assert_failed
             else (case head_compare cs lk rk minLen of
                     Inl e \<Rightarrow> Inl e
                   | Inr r \<Rightarrow>
                       let r = len_compare r lkPrevLen rkPrevLen in
                       if r = 0
                       then if lkPrevLen \<le> length lk \<and> rkPrevLen \<le> length rk
                            then raw_cmp cs (drop lkPrevLen lk) (drop rkPrevLen rk)
                                   (unat (if lkNextLen < rkNextLen then lkNextLen else rkNextLen))
                            else Inl Read_past_end
                       else Inr r)
      | _ \<Rightarrow> Inl Read_past_end)"

definition internal_compare :: "key_comparator \<Rightarrow> byte list \<Rightarrow> byte list \<Rightarrow> int res" where
  "internal_compare kc lk rk =
     (let cmp =
        (if mHasVirtualField kc then virtual_compare (mCaseSensitiveKey kc) lk rk
         else let minLen = (if length lk < length rk then length lk else length rk)
              in if minLen = 0 then Inl Assert_failed
                 else head_compare (mCaseSensitiveKey kc) lk rk minLen)
      in case cmp of Inl e \<Rightarrow> Inl e | Inr r \<Rightarrow> Inr (len_compare r (length lk) (length rk)))"

section \<open>Network byte order is big-endian\<close>

lemma bit_byte_of_u32: "bit (ucast (ucast (w :: u32) :: byte) :: u32) n \<longleftrightarrow> n < 8 \<and> bit w n"
  by (auto simp add: bit_unsigned_iff)

lemma bit_htonl: "bit (htonl w) n \<longleftrightarrow> n < 32 \<and> bit w (8 * (3 - n div 8) + n mod 8)"
proof (cases "n < 32")
  case False
  then show ?thesis using bit_imp_le_length [of "htonl w" n] by auto
next
  case True
  define q r where "q = n div 8" and "r = n mod 8"
  have n: "n = 8 * q + r" "r < 8" by (simp_all add: q_def r_def)
  have bits: "bit (htonl w) n \<longleftrightarrow> 24 \<le> n \<and> n - 24 < 8 \<and> bit w (n - 24) \<or> 16 \<le> n \<and> n - 16 < 8 \<and> bit w (n - 16 + 8) \<or>
     8 \<le> n \<and> n - 8 < 8 \<and> bit w (n - 8 + 16) \<or> n < 8 \<and> bit w (n + 24)"
    unfolding htonl_def bit_or_iff bit_push_bit_iff bit_byte_of_u32 bit_drop_bit_eq comp_def possible_bit_word
    using True by (auto simp: add.commute)
  have "q = 0 \<or> q = 1 \<or> q = 2 \<or> q = 3" using n True by linarith
  then show ?thesis unfolding bits q_def [symmetric] r_def [symmetric]
    using n(2) by (elim disjE) (simp_all add: n(1) ac_simps)
qed
lemma bit_htonll: "bit (htonll w) n \<longleftrightarrow> n < 64 \<and> bit w (8 * (7 - n div 8) + n mod 8)"
proof (cases "n < 64")
  case False
  then show ?thesis using bit_imp_le_length [of "htonll w" n] by auto
next
  case True
  let ?hi = "push_bit 32 (ucast (htonl (ucast w))) :: u64" and ?lo = "ucast (htonl (ucast (drop_bit 32 w))) :: u64"
  have "?hi AND ?lo = 0"
    by (rule bit_word_eqI) (auto simp: bit_and_iff bit_push_bit_iff bit_unsigned_iff bit_htonl)
  then have "htonll w = ?hi OR ?lo"
    unfolding htonll_def by (rule disjunctive_add_eq_or)
  then have eq: "bit (htonll w) n \<longleftrightarrow>
      32 \<le> n \<and> bit (htonl (ucast w)) (n - 32) \<or> bit (htonl (ucast (drop_bit 32 w))) n"
    using True by (auto simp: bit_or_iff bit_push_bit_iff bit_unsigned_iff bit_htonl)
  define q r where "q = n div 8" and "r = n mod 8"
  have n: "n = 8 * q + r" "r < 8" by (simp_all add: q_def r_def)
  show ?thesis
  proof (cases "n < 32")
    case lo: True
    then have "q < 4" using n by linarith
    then have "8 * (7 - q) + r = 32 + (8 * (3 - q) + r)" "8 * (3 - q) + r < 32" using n(2) by linarith+
    then show ?thesis
      using lo True unfolding eq bit_htonl q_def [symmetric] r_def [symmetric]
      by (simp add: bit_unsigned_iff bit_drop_bit_eq add.assoc)
  next
    case False
    then have "4 \<le> q" "q < 8" using n True by linarith+
    then obtain p where p: "q = 4 + p" "p < 4" by (metis add_less_cancel_left le_Suc_ex numeral_Bit0)
    have "n - 32 = 8 * p + r" using n p by simp
    then have "(n - 32) div 8 = p" "(n - 32) mod 8 = r" using n(2) by simp_all
    moreover have "8 * (3 - p) + r < 32" "n - 32 < 32" using p n by linarith+
    ultimately show ?thesis
      using False True p n(2) unfolding eq bit_htonl q_def [symmetric] r_def [symmetric]
      by (auto simp: bit_unsigned_iff)
  qed
qed
lemma unat_u64_less: "unat (w :: u64) < 256 ^ 8"
  using unsigned_less [of w, where 'a = nat] by simp

lemma store_htonll: "store_u64 (htonll w) = be_bytes 8 (unat w)"
proof (rule nth_equalityI)
  fix i
  assume "i < length (store_u64 (htonll w))"
  then have i: "i < 8" by simp
  have "bit (store_u64 (htonll w) ! i) b = bit (be_bytes 8 (unat w) ! i) b" if "b < 8" for b
    using i that bit_be_bytes [OF unat_u64_less i that, of w]
    by (simp add: store_u64_def bit_unsigned_iff bit_drop_bit_eq bit_htonll)
  then show "store_u64 (htonll w) ! i = be_bytes 8 (unat w) ! i"
    by (intro bit_word_eqI) simp
qed simp

lemma ntohll_htonll [simp]: "ntohll (htonll w) = w"
proof (rule bit_word_eqI)
  fix n
  assume "n < LENGTH(64)"
  then have n: "n < 64" "n div 8 < 8" by simp_all
  then have "8 * (7 - n div 8) + n mod 8 < 64" by linarith
  moreover have "(8 * (7 - n div 8) + n mod 8) div 8 = 7 - n div 8" "(8 * (7 - n div 8) + n mod 8) mod 8 = n mod 8"
    by simp_all
  moreover have "8 * (7 - (7 - n div 8)) + n mod 8 = n" using n by simp
  ultimately show "bit (ntohll (htonll w)) n \<longleftrightarrow> bit w n"
    using n unfolding ntohll_def htonll_def [symmetric] by (simp add: bit_htonll)
qed

lemma read_u64_store: "read_u64 (take 8 (store_u64 w @ s)) = Inr w"
  using load_store_u64 [of w "[0]"] by (simp add: read_u64_def)

section \<open>Sign and magnitude of a 64-bit word\<close>

abbreviation neg_bit :: "u64 \<Rightarrow> bool" where "neg_bit w \<equiv> bit w 63"

definition mag :: "u64 \<Rightarrow> nat" where
  "mag w = unat w mod 2 ^ 63"

lemma mag_less: "mag w < 2 ^ 63"
  by (simp add: mag_def)

lemma bit_mag: "bit (mag w) n \<longleftrightarrow> n < 63 \<and> bit w n"
  unfolding mag_def take_bit_eq_mod [symmetric] by (auto simp: bit_take_bit_iff bit_unsigned_iff)

lemma unat_split: "unat w = mag w + 2 ^ 63 * of_bool (neg_bit w)"
proof -
  have "unat w = take_bit (Suc 63) (unat w)"
    using unsigned_less [of w, where 'a = nat] by (simp add: take_bit_nat_eq_self)
  also have "\<dots> = 2 ^ 63 * of_bool (neg_bit w) + take_bit 63 (unat w)"
    by (subst take_bit_Suc_from_most) (simp add: bit_unsigned_iff)
  finally show ?thesis by (simp add: mag_def take_bit_eq_mod)
qed

lemma uint_split: "uint w = int (mag w) + 2 ^ 63 * of_bool (neg_bit w)"
  using arg_cong [OF unat_split [of w], of int] by simp

lemma unat_less_uint: "unat v < unat w \<longleftrightarrow> uint v < uint w" for v w :: u64
  by (simp add: word_less_def flip: word_less_nat_alt)

lemma u64_eq_iff: "v = w \<longleftrightarrow> mag v = mag w \<and> neg_bit v = neg_bit w"
proof
  assume "mag v = mag w \<and> neg_bit v = neg_bit w"
  then have "unat v = unat w"
    using unat_split [of v] unat_split [of w] by simp
  then show "v = w" by (rule unsigned_word_eqI)
qed simp

lemma sint_split: "sint w = int (mag w) - 2 ^ 63 * of_bool (neg_bit w)"
proof -
  have "sint w = signed_take_bit 63 (uint w)"
    by (simp add: sint_uint)
  also have "\<dots> = take_bit 63 (uint w) - 2 ^ 63 * of_bool (bit (uint w) 63)"
    unfolding signed_take_bit_eq_take_bit_minus take_bit_Suc_from_most by simp
  also have "take_bit 63 (uint w) = int (mag w)"
    by (simp add: mag_def take_bit_eq_mod of_nat_mod)
  finally show ?thesis by (simp add: bit_unsigned_iff)
qed

lemma bit_signMask: "bit signMask n \<longleftrightarrow> n = 63"
proof -
  have "signMask = push_bit 63 1" by (simp add: signMask_def push_bit_eq_mult)
  then have "bit signMask n \<longleftrightarrow> bit (push_bit 63 (1 :: u64)) n" by (rule arg_cong)
  then show ?thesis unfolding bit_push_bit_iff by (auto simp: bit_1_iff)
qed

lemma mag_sign_ops:
  "mag (w XOR signMask) = mag w" "neg_bit (w XOR signMask) \<longleftrightarrow> \<not> neg_bit w"
  "mag (w OR signMask) = mag w" "neg_bit (w OR signMask)"
  "mag (w AND NOT signMask) = mag w" "\<not> neg_bit (w AND NOT signMask)"
  "neg_bit (NOT w) \<longleftrightarrow> \<not> neg_bit w"
  by (rule bit_eqI, auto simp: bit_mag bit_xor_iff bit_or_iff bit_and_iff bit_not_iff bit_signMask)+

lemma mag_not: "mag (NOT w) = 2 ^ 63 - 1 - mag w"
proof -
  have "NOT w + w = - 1"
    by (simp add: not_eq_complement)
  moreover have "NOT w AND w = 0"
    by (rule bit_word_eqI) (auto simp: bit_and_iff bit_not_iff)
  ultimately have "unat (NOT w) + unat w = unat (- 1 :: u64)"
    by (metis disjunctive_add_eq_or of_nat_add unsigned_or_eq disjunctive_add_eq_or unsigned_and_eq unsigned_0)
  then have "unat (NOT w) + unat w = 2 ^ 64 - 1"
    by (simp add: unsigned_minus_1_eq_mask mask_eq_exp_minus_1)
  then have "mag (NOT w) + mag w = 2 ^ 63 - 1"
    using unat_split [of w] unat_split [of "NOT w"] by (cases "neg_bit w") (simp_all add: mag_sign_ops)
  then show ?thesis by simp
qed

section \<open>The integer and double encodings sort like the numbers\<close>

lemma encode_bytes_u64_be: "encode_bytes_u64 w = be_bytes 8 (unat w)"
  by (simp add: encode_bytes_u64_def store_htonll)

lemma encode_bytes_s64_be: "encode_bytes_s64 w = be_bytes 8 (unat (w XOR signMask))"
  by (simp add: encode_bytes_s64_def encode_into_cmp_uint_def store_htonll)

lemma bcmp_be_append:
  fixes v w :: u64
  shows "bcmp (be_bytes 8 (unat v) @ s) (be_bytes 8 (unat w) @ t) =
    (if cmp3 (unat v) (unat w) = 0 then bcmp s t else cmp3 (unat v) (unat w))"
proof -
  have "bcmp (be_bytes 8 (unat v)) (be_bytes 8 (unat w)) = cmp3 (unat v) (unat w)"
    by (rule bcmp_be_bytes [OF unat_u64_less unat_u64_less])
  moreover from this have "be_bytes 8 (unat v) = be_bytes 8 (unat w) \<longleftrightarrow> cmp3 (unat v) (unat w) = 0"
    by (metis bcmp_eq_0)
  ultimately show ?thesis by (simp only: bcmp_append length_be_bytes)
qed

text \<open>The order of a pair of numbers carries over to any pair related to it monotonically.\<close>

lemma cmp3_mono_iff: "(x < y \<longleftrightarrow> u < v) \<Longrightarrow> (y < x \<longleftrightarrow> v < u) \<Longrightarrow> cmp3 x y = cmp3 u v"
  by (simp add: cmp3_def)

interpretation u64_codec: ordered_codec encode_bytes_u64 cmp3 "\<lambda>_ _. True"
proof
  fix x y :: Prelude.u64 and s t
  have "cmp3 (unat x) (unat y) = cmp3 x y"
    by (rule cmp3_mono_iff) (simp_all add: word_less_nat_alt)
  then show "bcmp (encode_bytes_u64 x @ s) (encode_bytes_u64 y @ t) = (if cmp3 x y = 0 then bcmp s t else cmp3 x y)"
    by (simp only: encode_bytes_u64_be bcmp_be_append)
qed

lemma uint_flip_sign: "uint (w XOR signMask) = sint w + 2 ^ 63"
  by (cases "neg_bit w") (simp_all add: uint_split [of "w XOR signMask"] sint_split mag_sign_ops)

interpretation s64_codec: ordered_codec encode_bytes_s64 "\<lambda>x y. cmp3 (sint x) (sint y)" "\<lambda>_ _. True"
proof
  fix x y s t
  have "cmp3 (unat (x XOR signMask)) (unat (y XOR signMask)) = cmp3 (sint x) (sint y)"
    by (rule cmp3_mono_iff) (simp_all add: unat_less_uint uint_flip_sign)
  then show "bcmp (encode_bytes_s64 x @ s) (encode_bytes_s64 y @ t) =
      (if cmp3 (sint x) (sint y) = 0 then bcmp s t else cmp3 (sint x) (sint y))"
    by (simp only: encode_bytes_s64_be bcmp_be_append)
qed

text \<open>The order of the doubles that are numbers: by sign and magnitude, with one zero.\<close>

definition dbl_key :: "u64 \<Rightarrow> int" where
  "dbl_key u = (if neg_bit u then - int (mag u) else int (mag u))"

lemma encode_bytes_dbl_be:
  "\<not> dbl_nan u \<Longrightarrow> \<exists>w :: Prelude.u64. encode_bytes_dbl u = be_bytes 8 (unat w) \<and>
     uint w = (if dbl_key u < 0 then 2 ^ 63 - 1 + dbl_key u else 2 ^ 63 + dbl_key u)"
proof -
  assume nan: "\<not> dbl_nan u"
  let ?w = "if dbl_ge_0 u then u OR signMask else NOT u"
  have ge: "dbl_ge_0 u \<longleftrightarrow> \<not> neg_bit u \<or> mag u = 0"
    using nan by (simp add: dbl_ge_0_def mag_def)
  have "uint ?w = (if dbl_key u < 0 then 2 ^ 63 - 1 + dbl_key u else 2 ^ 63 + dbl_key u)"
    using mag_less [of u]
    by (auto simp: ge dbl_key_def uint_split [of "u OR signMask"] uint_split [of "NOT u"] mag_sign_ops mag_not
        of_nat_diff)
  then show ?thesis
    unfolding encode_bytes_dbl_def encode_bytes_u64_be by blast
qed

interpretation dbl_codec: ordered_codec encode_bytes_dbl "\<lambda>x y. cmp3 (dbl_key x) (dbl_key y)"
  "\<lambda>x y. \<not> dbl_nan x \<and> \<not> dbl_nan y"
proof
  fix x y s t
  assume "\<not> dbl_nan x \<and> \<not> dbl_nan y"
  then obtain v w :: Prelude.u64 where
    v: "encode_bytes_dbl x = be_bytes 8 (unat v)"
      "uint v = (if dbl_key x < 0 then 2 ^ 63 - 1 + dbl_key x else 2 ^ 63 + dbl_key x)" and
    w: "encode_bytes_dbl y = be_bytes 8 (unat w)"
      "uint w = (if dbl_key y < 0 then 2 ^ 63 - 1 + dbl_key y else 2 ^ 63 + dbl_key y)"
    using encode_bytes_dbl_be by metis
  have "cmp3 (unat v) (unat w) = cmp3 (dbl_key x) (dbl_key y)"
    by (rule cmp3_mono_iff) (unfold unat_less_uint v(2) w(2), auto)
  then show "bcmp (encode_bytes_dbl x @ s) (encode_bytes_dbl y @ t) =
      (if cmp3 (dbl_key x) (dbl_key y) = 0 then bcmp s t else cmp3 (dbl_key x) (dbl_key y))"
    by (simp only: v(1) w(1) bcmp_be_append)
qed

section \<open>The string encoding sorts like the strings\<close>

fun str_enc :: "byte list \<Rightarrow> byte list" where
  "str_enc s =
     (if length s < 7 then s @ replicate (7 - length s) 0 @ [ENCODER_MARKER - word_of_nat (7 - length s)]
      else take 7 s @ [ENCODER_MARKER] @ str_enc (drop 7 s))"

declare str_enc.simps [simp del]

lemma encode_str_loop_eq: "pos \<le> length src \<Longrightarrow> encode_str_loop src pos (length src - pos) = str_enc (drop pos src)"
proof (induction "length src - pos" arbitrary: pos rule: less_induct)
  case less
  show ?case
  proof (cases "length src - pos < 7")
    case True
    then show ?thesis
      by (simp add: encode_str_loop.simps [of src pos] str_enc.simps [of "drop pos src"] Let_def)
  next
    case False
    then have "encode_str_loop src (pos + 7) (length src - (pos + 7)) = str_enc (drop (pos + 7) src)"
      using less.hyps [of "pos + 7"] by simp
    then show ?thesis
      using False
      by (cases "length src - pos = 7")
        (auto simp: encode_str_loop.simps [of src pos] str_enc.simps [of "drop pos src"] Let_def add.commute)
  qed
qed

lemma encode_bytes_str_eq: "encode_bytes_str s = str_enc s"
  using encode_str_loop_eq [of 0 s] by (simp add: encode_bytes_str_def)

text \<open>Padding with zeros and a marker that grows with the content: the shorter content sorts
  first when it is a prefix, whatever the padding compares to.\<close>

lemma pad_prefix_less:
  "y \<noteq> [] \<Longrightarrow> m1 < m2 \<Longrightarrow>
   bcmp (replicate (length y + q) 0 @ m1 # s) (y @ replicate q 0 @ m2 # t) = -1"
proof (induction y)
  case Nil
  then show ?case by simp
next
  case (Cons b y)
  show ?case
  proof (cases "y = []")
    case True
    with Cons.prems show ?thesis
      by (cases "b = 0") (simp_all add: bcmp_append word_gt_0)
  next
    case False
    with Cons show ?thesis by (cases "b = 0") (simp_all add: word_gt_0)
  qed
qed

lemma pad_cmp:
  assumes "length x + p = length y + q"
    and "p > q \<Longrightarrow> m1 < m2" and "q > p \<Longrightarrow> m2 < m1" and "p = q \<Longrightarrow> m1 = m2"
  shows "bcmp (x @ replicate p 0 @ m1 # s) (y @ replicate q 0 @ m2 # t) =
    (if x = y then bcmp s t else bcmp x y)"
  using assms(1)
proof (induction x y rule: bcmp.induct)
  case 1
  then show ?case using assms(4) by (simp add: bcmp_append)
next
  case (2 b bs)
  then have "p > q" "p = length (b # bs) + q" by simp_all
  then show ?case using pad_prefix_less [of "b # bs" m1 m2 q s t] assms(2) by simp
next
  case (3 a as)
  then have "q > p" "q = length (a # as) + p" by simp_all
  then have "bcmp (replicate q 0 @ m2 # t) ((a # as) @ replicate p 0 @ m1 # s) = -1"
    using pad_prefix_less [of "a # as" m2 m1 p t s] assms(3) by simp
  then show ?case using bcmp_antisym [of "replicate q 0 @ m2 # t"] by simp
next
  case (4 a as b bs)
  then show ?case by (cases "a = b") (auto simp: not_less_iff_gr_or_eq)
qed

lemma str_enc_short:
  "length x < 7 \<Longrightarrow>
   str_enc x @ s = x @ replicate (7 - length x) 0 @ (ENCODER_MARKER - word_of_nat (7 - length x)) # s"
  by (subst str_enc.simps) simp

lemma str_enc_long:
  "7 \<le> length x \<Longrightarrow> str_enc x @ s = take 7 x @ replicate 0 0 @ ENCODER_MARKER # str_enc (drop 7 x) @ s"
  by (subst str_enc.simps) simp

lemma str_enc_cmp:
  "bcmp (str_enc x @ s) (str_enc y @ t) = (if bcmp x y = 0 then bcmp s t else bcmp x y)"
proof (induction x arbitrary: y rule: str_enc.induct)
  case (1 x)
  have marker: "ENCODER_MARKER - word_of_nat p < ENCODER_MARKER - word_of_nat q" if "q < p" "p \<le> 7" for p q
  proof -
    have "p \<in> {1, 2, 3, 4, 5, 6, 7}" "q \<in> {0, 1, 2, 3, 4, 5, 6}" using that by auto
    then show ?thesis using \<open>q < p\<close> by auto
  qed
  consider (short) "length x < 7" "length y < 7" | (left) "length x < 7" "7 \<le> length y"
    | (right) "7 \<le> length x" "length y < 7" | (long) "7 \<le> length x" "7 \<le> length y"
    by linarith
  then show ?case
  proof cases
    case short
    then show ?thesis
      unfolding str_enc_short [OF short(1)] str_enc_short [OF short(2)] bcmp_eq_0
      by (intro pad_cmp marker) auto
  next
    case left
    then have "bcmp x (take 7 y) = bcmp x y" "x \<noteq> take 7 y" "x \<noteq> y"
      by (auto simp: bcmp_take)
    with left show ?thesis
      unfolding str_enc_short [OF left(1)] str_enc_long [OF left(2)]
      using pad_cmp [of x "7 - length x" "take 7 y" 0] marker [of 0 "7 - length x"] by simp
  next
    case right
    then have "bcmp y (take 7 x) = bcmp y x" "y \<noteq> take 7 x" "x \<noteq> y"
      by (auto simp: bcmp_take)
    then have "bcmp (take 7 x) y = bcmp x y" "take 7 x \<noteq> y" "x \<noteq> y"
      by (metis bcmp_antisym)+
    with right show ?thesis
      unfolding str_enc_long [OF right(1)] str_enc_short [OF right(2)]
      using pad_cmp [of "take 7 x" 0 y "7 - length y"] marker [of 0 "7 - length y"] by simp
  next
    case long
    then have "bcmp (take 7 x @ drop 7 x) (take 7 y @ drop 7 y) =
        (if take 7 x = take 7 y then bcmp (drop 7 x) (drop 7 y) else bcmp (take 7 x) (take 7 y))"
      by (intro bcmp_append) simp
    moreover have "x = y \<longleftrightarrow> take 7 x = take 7 y \<and> drop 7 x = drop 7 y"
      by (metis append_take_drop_id)
    ultimately show ?thesis
      unfolding str_enc_long [OF long(1)] str_enc_long [OF long(2)]
      using long 1 [of "drop 7 y"] by (simp add: bcmp_append)
  qed
qed

interpretation str_codec: ordered_codec encode_bytes_str bcmp "\<lambda>_ _. True"
  by unfold_locales (simp only: encode_bytes_str_eq str_enc_cmp)

section \<open>Decoding is a left inverse\<close>

lemma length_str_enc_pos: "str_enc x \<noteq> []"
  by (subst str_enc.simps) simp

lemma marker_byte:
  assumes "0 < k" "k \<le> 7"
  shows "(ENCODER_MARKER - word_of_nat k :: byte) \<noteq> ENCODER_MARKER"
    and "sint (ENCODER_MARKER - (ENCODER_MARKER - word_of_nat k :: byte)) = int k"
proof -
  have "k \<in> {1, 2, 3, 4, 5, 6, 7}" using assms by auto
  then show "(ENCODER_MARKER - word_of_nat k :: byte) \<noteq> ENCODER_MARKER"
    and "sint (ENCODER_MARKER - (ENCODER_MARKER - word_of_nat k :: byte)) = int k"
    by auto
qed

lemma str_at_append: "i = length p \<Longrightarrow> str_at (p @ c # s) i = Inr c"
  by (simp add: str_at_def)

lemma decode_str_loop_enc: "decode_str_loop (p @ str_enc x) (length p) dst = Inr (dst @ x)"
proof (induction x arbitrary: p dst rule: str_enc.induct)
  case (1 x)
  show ?case
  proof (cases "length x < 7")
    case True
    let ?k = "7 - length x"
    let ?src = "p @ str_enc x" and ?m = "ENCODER_MARKER - word_of_nat ?k"
    have src: "?src = (p @ x @ replicate ?k 0) @ ?m # []" "length ?src = length p + 8"
      using str_enc_short [OF True, of "[]"] True by simp_all
    have "str_at ?src (length p + 7) = Inr ?m"
      unfolding src(1) using True by (intro str_at_append) simp
    moreover have "int 7 - sint (ENCODER_MARKER - ?m) = int (length x)"
      using marker_byte(2) [of ?k] True by simp
    moreover have "take (length x) (drop (length p) ?src) = x"
      unfolding src(1) by simp
    moreover have "decode_str_loop ?src (length p + 8) d = Inr d" for d
      using src(2) by (subst decode_str_loop.simps) simp
    ultimately show ?thesis
      using src(2) by (subst decode_str_loop.simps) (simp add: Let_def)
  next
    case False
    let ?src = "p @ str_enc x"
    have src: "?src = (p @ take 7 x) @ ENCODER_MARKER # str_enc (drop 7 x)"
      using str_enc_long [of x "[]"] False by simp
    have "str_at ?src (length p + 7) = Inr ENCODER_MARKER"
      unfolding src using False by (intro str_at_append) simp
    moreover have "take 7 (drop (length p) ?src) = take 7 x"
      unfolding src using False by simp
    moreover have "decode_str_loop ?src (length p + 8) (dst @ take 7 x) = Inr (dst @ x)"
      using 1 [of "p @ take 7 x @ [ENCODER_MARKER]" "dst @ take 7 x"] False unfolding src by simp
    moreover have "length p < length ?src" using length_str_enc_pos [of x] by simp
    ultimately show ?thesis
      by (subst decode_str_loop.simps) (simp add: Let_def)
  qed
qed

lemma seg_end_enc:
  "seg_end (p @ str_enc x @ t) (length p + 8) = Inr (length p + length (str_enc x))"
proof (induction x arbitrary: p rule: str_enc.induct)
  case (1 x)
  show ?case
  proof (cases "length x < 7")
    case True
    let ?k = "7 - length x"
    let ?m = "ENCODER_MARKER - word_of_nat ?k"
    have src: "p @ str_enc x @ t = (p @ x @ replicate ?k 0) @ ?m # t" "length (str_enc x) = 8"
      using str_enc_short [OF True, of t] str_enc_short [OF True, of "[]"] True by simp_all
    have "str_at (p @ str_enc x @ t) (length p + 8 - 1) = Inr ?m"
      unfolding src(1) using True by (intro str_at_append) simp
    then show ?thesis
      using marker_byte(1) [of ?k] True src(2) by (subst seg_end.simps) simp
  next
    case False
    have src: "p @ str_enc x @ t = (p @ take 7 x) @ ENCODER_MARKER # str_enc (drop 7 x) @ t"
      "length (str_enc x) = 8 + length (str_enc (drop 7 x))"
      using str_enc_long [of x t] str_enc_long [of x "[]"] False by simp_all
    have "str_at (p @ str_enc x @ t) (length p + 8 - 1) = Inr ENCODER_MARKER"
      unfolding src(1) using False by (intro str_at_append) simp
    moreover have "seg_end (p @ str_enc x @ t) (length p + 8 + 8) = Inr (length p + length (str_enc x))"
      using 1 [of "p @ take 7 x @ [ENCODER_MARKER]"] False unfolding src by simp
    ultimately show ?thesis
      by (subst seg_end.simps) simp
  qed
qed

lemmas seg_end_first = seg_end_enc [of "[]", simplified]

lemma DecodeBytes_str_enc: "DecodeBytes_str (encode_bytes_str x) [] = Inr x"
  using decode_str_loop_enc [of "[]" x "[]"] length_str_enc_pos [of x]
  by (simp add: DecodeBytes_str_def encode_bytes_str_eq)

lemma DecodeBytes_u64_enc: "DecodeBytes_u64 (encode_bytes_u64 w) = Inr w"
  using read_u64_store [of "htonll w" "[]"] by (simp add: DecodeBytes_u64_def encode_bytes_u64_def)

lemma DecodeBytes_s64_enc: "DecodeBytes_s64 (encode_bytes_s64 w) = Inr w"
  using read_u64_store [of "htonll (encode_into_cmp_uint w)" "[]"]
  by (simp add: DecodeBytes_s64_def encode_bytes_s64_def) (simp add: encode_into_cmp_uint_def xor.assoc)

text \<open>A double comes back as it was, except that the negative zero becomes the positive one.\<close>

definition dbl_canon :: "u64 \<Rightarrow> u64" where
  "dbl_canon u = (if dbl_ge_0 u then u AND NOT signMask else u)"

lemma and_signMask_pos: "(u AND signMask) > 0 \<longleftrightarrow> neg_bit u"
proof -
  have "bit (u AND signMask) n \<longleftrightarrow> n = 63 \<and> neg_bit u" for n
    by (auto simp: bit_and_iff bit_signMask)
  then have "u AND signMask = 0 \<longleftrightarrow> \<not> neg_bit u"
    by (metis bit_0_eq bit_word_eqI bot_apply bot_bool_def)
  then show ?thesis by (simp add: word_gt_0)
qed

lemma DecodeBytes_dbl_enc: "\<not> dbl_nan u \<Longrightarrow> DecodeBytes_dbl (encode_bytes_dbl u) = Inr (dbl_canon u)"
proof -
  assume "\<not> dbl_nan u"
  moreover have "(u OR signMask) AND NOT signMask = u AND NOT signMask"
    by (rule bit_word_eqI) (auto simp: bit_simps)
  ultimately show ?thesis
    by (auto simp: DecodeBytes_dbl_def encode_bytes_dbl_def DecodeBytes_u64_enc and_signMask_pos
        mag_sign_ops dbl_canon_def dbl_ge_0_def bit_or_iff bit_signMask)
qed

section \<open>Rows\<close>

text \<open>The order of two values of one field type, and the order of two rows field by field.\<close>

definition value_cmp :: "dfield \<Rightarrow> dtc_value \<Rightarrow> dtc_value \<Rightarrow> int" where
  "value_cmp t v w =
     (case t of
        FSigned \<Rightarrow> cmp3 (sint (s64 v)) (sint (s64 w))
      | FUnsigned \<Rightarrow> cmp3 (u64 v) (u64 w)
      | FFloat \<Rightarrow> cmp3 (dbl_key (flt v)) (dbl_key (flt w))
      | FBinary \<Rightarrow> bcmp (str v) (str w)
      | FString \<Rightarrow> bcmp (str v) (str w)
      | _ \<Rightarrow> 0)"

definition encodable :: "dfield \<Rightarrow> dtc_value \<Rightarrow> bool" where
  "encodable t v \<longleftrightarrow> (t = FFloat \<longrightarrow> \<not> dbl_nan (flt v))"

fun row_order :: "(byte \<Rightarrow> dfield) \<Rightarrow> (byte \<rightharpoonup> dtc_value) \<Rightarrow> (byte \<rightharpoonup> dtc_value) \<Rightarrow> byte list \<Rightarrow> int" where
  "row_order ty a b [] = 0"
| "row_order ty a b (f # fs) =
     (case (a f, b f) of
        (Some v, Some w) \<Rightarrow> if value_cmp (ty f) v w = 0 then row_order ty a b fs else value_cmp (ty f) v w
      | _ \<Rightarrow> row_order ty a b fs)"

interpretation val_codec: ordered_codec "\<lambda>x. fst (encode_value (fst x) (snd x))"
  "\<lambda>x y. value_cmp (fst x) (snd x) (snd y)"
  "\<lambda>x y. fst x = fst y \<and> encodable (fst x) (snd x) \<and> encodable (fst y) (snd y)"
proof
  fix x y :: "dfield \<times> dtc_value" and s t
  assume "fst x = fst y \<and> encodable (fst x) (snd x) \<and> encodable (fst y) (snd y)"
  then show "bcmp (fst (encode_value (fst x) (snd x)) @ s) (fst (encode_value (fst y) (snd y)) @ t) =
      (if value_cmp (fst x) (snd x) (snd y) = 0 then bcmp s t else value_cmp (fst x) (snd x) (snd y))"
    by (cases "fst y")
      (simp_all only: encode_value_def value_cmp_def encodable_def dfield.case fst_conv Let_def if_True simp_thms
        s64_codec.enc_cmp u64_codec.enc_cmp dbl_codec.enc_cmp str_codec.enc_cmp append_Nil)
qed

text \<open>The fields of a row that have a value, in key order; the map encoder concatenates them.\<close>

definition present :: "table_def \<Rightarrow> (byte \<rightharpoonup> dtc_value) \<Rightarrow> byte list \<Rightarrow> (dfield \<times> dtc_value) list" where
  "present td vals fs = map (\<lambda>f. (field_type td f, the (vals f))) (filter (\<lambda>f. vals f \<noteq> None) fs)"

lemma encode_map_loop_concat:
  "fst (encode_map_loop td vals fs) = concat (map (\<lambda>x. fst (encode_value (fst x) (snd x))) (present td vals fs))"
  by (induction fs) (auto simp: present_def split: option.splits prod.splits)

lemma row_order_present:
  "(\<forall>f \<in> set fs. a f = None \<longleftrightarrow> b f = None) \<Longrightarrow>
   row_order (field_type td) a b fs = val_codec.row_cmp (present td a fs) (present td b fs)"
  by (induction fs) (auto simp: present_def split: option.splits)

lemma Encode_map_cmp:
  assumes "\<forall>f \<in> set (uniq_fields_list td). a f = None \<longleftrightarrow> b f = None"
    and "\<And>f v. a f = Some v \<Longrightarrow> encodable (field_type td f) v"
    and "\<And>f v. b f = Some v \<Longrightarrow> encodable (field_type td f) v"
  shows "bcmp (fst (Encode_map a td)) (fst (Encode_map b td)) =
    row_order (field_type td) a b (uniq_fields_list td)"
proof -
  let ?fs = "uniq_fields_list td"
  have "filter (\<lambda>f. a f \<noteq> None) ?fs = filter (\<lambda>f. b f \<noteq> None) ?fs"
    using assms(1) by (metis (mono_tags, lifting) filter_cong)
  then have "list_all2 (\<lambda>x y. fst x = fst y \<and> encodable (fst x) (snd x) \<and> encodable (fst y) (snd y))
      (present td a ?fs) (present td b ?fs)"
    using assms unfolding present_def
    by (auto simp: list_all2_map1 list_all2_map2 intro!: list_all2_refl list.rel_refl_strong)
  then show ?thesis
    using val_codec.enc_row_cmp [of "present td a ?fs" "present td b ?fs" "[]" "[]"] row_order_present [OF assms(1)]
    by (simp add: Encode_map_def encode_map_loop_concat)
qed

text \<open>The text a field decodes to.\<close>

definition value_text :: "(u64 \<Rightarrow> byte list) \<Rightarrow> dfield \<Rightarrow> dtc_value \<Rightarrow> byte list" where
  "value_text dtoa t v =
     (case t of
        FSigned \<Rightarrow> to_string_s64 (s64 v)
      | FUnsigned \<Rightarrow> to_string_u64 (u64 v)
      | FFloat \<Rightarrow> dtoa (dbl_canon (flt v))
      | FBinary \<Rightarrow> str v
      | FString \<Rightarrow> str v
      | _ \<Rightarrow> [])"

lemma length_enc_num [simp]:
  "length (encode_bytes_u64 w) = 8" "length (encode_bytes_s64 w) = 8" "length (encode_bytes_dbl w) = 8"
  by (simp_all add: encode_bytes_u64_def encode_bytes_s64_def encode_bytes_dbl_def)

lemma substr_append: "n = length b \<Longrightarrow> substr (p @ b @ t) (length p) n = Inr b"
  by (simp add: substr_def)

lemma decode_text_enc:
  assumes "encodable ty v"
  shows "decode_text dtoa (p @ fst (encode_value ty v) @ t) (length p) ty =
    Inr (value_text dtoa ty v, length p + length (fst (encode_value ty v)))"
  using assms seg_end_enc [of p "str v" t]
  by (cases ty)
    (simp_all add: decode_text_def encode_value_def value_text_def encodable_def substr_append DecodeBytes_s64_enc
      DecodeBytes_u64_enc DecodeBytes_dbl_enc DecodeBytes_str_enc Let_def flip: encode_bytes_str_eq)

lemma decode_vec_loop_enc:
  assumes "\<forall>x \<in> set row. encodable (fst x) (snd x)"
  shows "decode_vec_loop dtoa (p @ concat (map (\<lambda>x. fst (encode_value (fst x) (snd x))) row) @ t) (length p)
      (map fst row) = Inr (map (\<lambda>x. value_text dtoa (fst x) (snd x)) row)"
  using assms
proof (induction row arbitrary: p)
  case (Cons x row)
  let ?e = "fst (encode_value (fst x) (snd x))"
  have "decode_vec_loop dtoa ((p @ ?e) @ concat (map (\<lambda>x. fst (encode_value (fst x) (snd x))) row) @ t)
      (length (p @ ?e)) (map fst row) = Inr (map (\<lambda>x. value_text dtoa (fst x) (snd x)) row)"
    using Cons by (intro Cons.IH) simp
  with Cons.prems show ?case
    using decode_text_enc [of "fst x" "snd x" dtoa p "concat (map (\<lambda>x. fst (encode_value (fst x) (snd x))) row) @ t"]
    by simp
qed simp

text \<open>A complete row has a value in every key field.\<close>

lemma present_all:
  "\<forall>f \<in> set fs. vals f \<noteq> None \<Longrightarrow> present td vals fs = map (\<lambda>f. (field_type td f, the (vals f))) fs"
  by (simp add: present_def)

lemma Decode_tbl_Encode_map:
  assumes "\<forall>f \<in> set (uniq_fields_list td). \<exists>v. vals f = Some v \<and> encodable (field_type td f) v"
  shows "Decode_tbl dtoa (fst (Encode_map vals td)) td =
    Inr (map (\<lambda>f. value_text dtoa (field_type td f) (the (vals f))) (uniq_fields_list td))"
proof -
  let ?row = "map (\<lambda>f. (field_type td f, the (vals f))) (uniq_fields_list td)"
  have "present td vals (uniq_fields_list td) = ?row"
    using assms by (intro present_all) auto
  moreover have "\<forall>x \<in> set ?row. encodable (fst x) (snd x)"
    using assms by force
  ultimately show ?thesis
    using decode_vec_loop_enc [of ?row dtoa "[]" "[]"]
    by (simp add: Decode_tbl_def Encode_map_def encode_map_loop_concat comp_def)
qed

section \<open>Decimal texts\<close>

lemma is_digit_word: "n < 10 \<Longrightarrow> is_digit (word_of_nat (48 + n)) \<and> unat (word_of_nat (48 + n) :: byte) = 48 + n"
  by (auto simp: is_digit_def word_le_nat_alt unat_of_nat simp del: of_nat_add)

lemma dec_digits: "\<forall>d \<in> set (dec n). is_digit d"
proof (induction n rule: dec.induct)
  case (1 n)
  then show ?case using is_digit_word [of n] is_digit_word [of "n mod 10"] by (subst dec.simps) (auto simp del: of_nat_add)
qed

lemma dec_nonempty: "dec n \<noteq> []"
  by (subst dec.simps) simp

lemma digits_value_dec: "digits_value (dec n) = n"
proof -
  have "takeWhile is_digit (dec m) = dec m" for m
    using dec_digits by (simp add: takeWhile_eq_all_conv)
  moreover have "foldl (\<lambda>a d. 10 * a + (unat d - 48)) 0 (dec n) = n"
  proof (induction n rule: dec.induct)
    case (1 n)
    then show ?case
      using is_digit_word [of n] is_digit_word [of "n mod 10"] by (subst dec.simps) (simp del: of_nat_add)
  qed
  ultimately show ?thesis by (simp only: digits_value_def)
qed

lemma strto_sign_dec: "strto_sign (dec n) = (False, dec n)"
proof (cases "dec n")
  case (Cons d ds)
  then have "is_digit d" using dec_digits [of n] by simp
  then have "\<not> is_space d" "d \<noteq> 45" "d \<noteq> 43"
    by (auto simp: is_digit_def is_space_def word_le_nat_alt)
  with Cons show ?thesis by (simp add: strto_sign_def)
qed (simp add: dec_nonempty)

lemma strto_sign_minus: "strto_sign (45 # ds) = (True, ds)"
  by (simp add: strto_sign_def is_space_def)

lemma c_str_dec: "c_str (dec n) = dec n" "c_str (45 # dec n) = 45 # dec n"
proof -
  have "\<forall>d \<in> set (dec n). d \<noteq> 0"
    using dec_digits [of n] by (auto simp: is_digit_def word_le_nat_alt)
  then show "c_str (dec n) = dec n" "c_str (45 # dec n) = 45 # dec n"
    by (auto simp: c_str_def takeWhile_eq_all_conv)
qed

lemma sint_u64_range: "- (2 ^ 63) \<le> sint (w :: Prelude.u64)" "sint (w :: Prelude.u64) \<le> 2 ^ 63 - 1"
  using sint_split [of w] mag_less [of w] by auto

lemma strtoll_to_string: "strtoll (c_str (to_string_s64 w)) = w"
proof -
  have "max (- 9223372036854775808) (sint w) = sint w" "min 9223372036854775807 (sint w) = sint w"
    using sint_u64_range [of w] by simp_all
  then show ?thesis
    by (simp add: to_string_s64_def strtoll_def c_str_dec strto_sign_dec strto_sign_minus digits_value_dec)
qed

lemma strtoull_to_string: "strtoull (c_str (to_string_u64 w)) = w"
  using unsigned_less [of w, where 'a = nat]
  by (simp add: to_string_u64_def strtoull_def c_str_dec strto_sign_dec digits_value_dec)

section \<open>Comparing encoded rows\<close>

lemma get_field_len_enc:
  "ty \<in> {FBinary, FString} \<Longrightarrow> get_field_len (encode_bytes_str x @ s) ty = Inr (int (length (encode_bytes_str x)))"
  using seg_end_first [of x s] by (auto simp: get_field_len_def encode_bytes_str_eq)

lemma memcmp_append: "n \<le> length a \<Longrightarrow> n \<le> length b \<Longrightarrow> memcmp (a @ s) (b @ t) n = bcmp (take n a) (take n b)"
  by (simp add: memcmp_def)

lemma Compare_field:
  assumes ty: "ty \<in> {FSigned, FUnsigned, FFloat, FBinary}" and ok: "encodable ty v" "encodable ty w"
  defines "a \<equiv> fst (encode_value ty v)" and "b \<equiv> fst (encode_value ty w)"
  shows "Compare_loop (a @ s) (b @ t) lens (ty # ts) =
    (if value_cmp ty v w = 0 then Compare_loop s t (Some (int (length a), int (length b))) ts
     else Inr (value_cmp ty v w))"
proof -
  have len: "(if ty \<in> {FSigned, FUnsigned, FFloat} then Inr (8, 8)
      else if ty \<in> {FBinary, FString}
      then case get_field_len (a @ s) ty of Inl e \<Rightarrow> Inl e | Inr l \<Rightarrow>
           (case get_field_len (b @ t) ty of Inl e \<Rightarrow> Inl e | Inr r \<Rightarrow> Inr (l, r))
      else case lens of None \<Rightarrow> Inl Uninitialised | Some lr \<Rightarrow> Inr lr) = Inr (int (length a), int (length b))"
    using ty get_field_len_enc [of ty] by (auto simp: a_def b_def encode_value_def)
  let ?n = "min (length a) (length b)"
  have n: "nat (if int (length a) > int (length b) then int (length b) else int (length a)) = ?n"
    by simp
  have same: "fst (ty, v) = fst (ty, w) \<and> encodable (fst (ty, v)) (snd (ty, v)) \<and> encodable (fst (ty, w)) (snd (ty, w))"
    using ok by simp
  have "raw_cmp (ty = FString) (a @ s) (b @ t) ?n = Inr (bcmp (take ?n a) (take ?n b))"
    using ty memcmp_append [of ?n a b "s @ [0]" "t @ [0]"] by (auto simp: raw_cmp_def)
  moreover have "value_cmp ty v w \<noteq> 0 \<Longrightarrow> bcmp (take ?n a) (take ?n b) = value_cmp ty v w"
    using val_codec.enc_cmp_min [OF same] by (simp add: a_def b_def)
  moreover have "value_cmp ty v w = 0 \<Longrightarrow> a = b"
    using val_codec.enc_order [OF same] by (simp add: a_def b_def)
  ultimately show ?thesis
    unfolding Compare_loop.simps len sum.case prod.case Let_def n by (cases "value_cmp ty v w = 0") simp_all
qed

lemma Compare_loop_rows:
  assumes "\<forall>f \<in> set fs. \<exists>v. a f = Some v \<and> encodable (field_type td f) v"
    and "\<forall>f \<in> set fs. \<exists>v. b f = Some v \<and> encodable (field_type td f) v"
    and "\<forall>f \<in> set fs. field_type td f \<in> {FSigned, FUnsigned, FFloat, FBinary}"
  shows "Compare_loop (fst (encode_map_loop td a fs)) (fst (encode_map_loop td b fs)) lens (map (field_type td) fs) =
    Inr (row_order (field_type td) a b fs)"
  using assms
proof (induction fs arbitrary: lens)
  case Nil
  then show ?case by simp
next
  case (Cons f fs)
  then obtain v w where "a f = Some v" "b f = Some w" "encodable (field_type td f) v" "encodable (field_type td f) w"
    by auto
  with Cons show ?case
    using Compare_field [of "field_type td f" v w] by (simp add: case_prod_beta del: Compare_loop.simps(2))
qed

text \<open>The byte a comparator orders by: the byte itself, or its upper case read as a signed
  character.\<close>

definition key_byte :: "key_comparator \<Rightarrow> byte \<Rightarrow> byte" where
  "key_byte kc b = (if mCaseSensitiveKey kc then b else toupper b + 0x80)"

lemma sint_byte_less: "sint (a :: byte) < sint b \<longleftrightarrow> a + 0x80 < b + 0x80"
proof -
  have "uint (w + 0x80) = sint w + 128" for w :: byte
  proof -
    have "uint (w + 0x80) = (uint w + 128) mod 256"
      by (simp add: uint_word_ariths)
    moreover have "sint w = signed_take_bit 7 (uint w)"
      by (simp add: sint_uint)
    then have "sint w = (uint w + 128) mod 256 - 128"
      unfolding signed_take_bit_eq_take_bit_shift by (simp add: take_bit_eq_mod)
    ultimately show ?thesis by simp
  qed
  then show ?thesis by (simp add: word_less_def)
qed

lemma strn_case_cmp_bcmp:
  "n \<le> length l \<Longrightarrow> n \<le> length r \<Longrightarrow>
   strn_case_cmp l r n = bcmp (map (\<lambda>b. toupper b + 0x80) (take n l)) (map (\<lambda>b. toupper b + 0x80) (take n r))"
  by (induction l r n rule: strn_case_cmp.induct)
    (auto simp: Let_def sint_byte_less not_less_iff_gr_or_eq)

lemma bcmp_take_len_compare:
  assumes "n = min (length l) (length r)"
  shows "len_compare (bcmp (take n l) (take n r)) (length l) (length r) = bcmp l r"
proof -
  have "len_compare (bcmp a b) m k = bcmp a b" if "a \<noteq> b" for a b m k
    using that by (simp add: len_compare_def)
  moreover have "bcmp (take n l @ drop n l) (take n r @ drop n r) =
      (if take n l = take n r then bcmp (drop n l) (drop n r) else bcmp (take n l) (take n r))"
    using assms by (intro bcmp_append) simp
  moreover have "bcmp (drop n l) (drop n r) = len_compare 0 (length l) (length r)"
    using assms bcmp.simps(2) [of "hd (drop n r)" "tl (drop n r)"] bcmp.simps(3) [of "hd (drop n l)" "tl (drop n l)"]
    by (cases "length l" "length r" rule: linorder_cases) (simp_all add: len_compare_def)
  ultimately show ?thesis by (metis append_take_drop_id bcmp_self)
qed

lemma head_compare_bytewise:
  "len_compare (bcmp (take (min (length l) (length r)) l) r) (length l) (length r) = bcmp l r"
  using bcmp_take_len_compare [OF refl, of l r]
  by (cases "length l \<le> length r") (auto simp: len_compare_def min_def split: if_splits)

lemma internal_compare_key_byte:
  assumes "\<not> mHasVirtualField kc" "lk \<noteq> []" "rk \<noteq> []"
  shows "internal_compare kc lk rk = Inr (bcmp (map (key_byte kc) lk) (map (key_byte kc) rk))"
proof -
  let ?n = "min (length lk) (length rk)"
  have n: "(if length lk < length rk then length lk else length rk) = ?n" "?n \<noteq> 0" using assms(2,3) by auto
  show ?thesis
  proof (cases "mCaseSensitiveKey kc")
    case True
    moreover from True have "map (key_byte kc) xs = xs" for xs by (simp add: key_byte_def map_idI)
    ultimately show ?thesis
      using n head_compare_bytewise [of lk rk] assms(1)
      unfolding internal_compare_def n head_compare_def by (simp add: Let_def)
  next
    case False
    then have kb: "key_byte kc = (\<lambda>b. toupper b + 0x80)" by (auto simp: key_byte_def)
    have "raw_cmp True lk rk ?n = Inr (bcmp (take ?n (map (key_byte kc) lk)) (take ?n (map (key_byte kc) rk)))"
      using strn_case_cmp_bcmp [of ?n "lk @ [0]" "rk @ [0]"] by (simp add: raw_cmp_def kb take_map min_le_iff_disj)
    then show ?thesis
      using False n assms(1) bcmp_take_len_compare [of ?n "map (key_byte kc) lk" "map (key_byte kc) rk"]
      unfolding internal_compare_def n head_compare_def by (simp add: Let_def)
  qed
qed

section \<open>Properties\<close>

text \<open>A row of one signed, one string and one double field, for the witnesses.\<close>

definition sample_table :: table_def where
  "sample_table = \<lparr>uniq_fields_list = [3, 1, 2], field_type = (\<lambda>f. if f = 1 then FString else if f = 2 then FFloat else FSigned)\<rparr>"

definition sample_row :: "u64 \<Rightarrow> byte list \<Rightarrow> byte \<rightharpoonup> dtc_value" where
  "sample_row n s = (\<lambda>f. Some \<lparr>s64 = n, u64 = n, flt = 0xC000000000000000, str = s\<rparr>)"

lemma sample_encodable: "encodable ty (the (sample_row n s f))"
  by (simp add: encodable_def sample_row_def dbl_nan_def)

text \<open>(C3) The RocksDB key of a row sorts like the row: for two rows that give values to the
  same key fields, with no NaN among them, the byte order of the keys \<^verbatim>\<open>key_format::Encode\<close>
  builds is the order of the rows field by field, signed integers by value, doubles by
  value, strings by bytes with a prefix before its extensions.\<close>

theorem key_order:
  assumes "\<forall>f \<in> set (uniq_fields_list td). a f = None \<longleftrightarrow> b f = None"
    and "\<And>f v. a f = Some v \<Longrightarrow> encodable (field_type td f) v"
    and "\<And>f v. b f = Some v \<Longrightarrow> encodable (field_type td f) v"
  shows "bcmp (fst (Encode_map a td)) (fst (Encode_map b td)) =
    row_order (field_type td) a b (uniq_fields_list td)"
  by (rule Encode_map_cmp [OF assms])

theorem key_order_witness:
  "bcmp (fst (Encode_map (sample_row (- 5) [97]) sample_table)) (fst (Encode_map (sample_row 7 [97, 98]) sample_table)) = -1"
proof -
  have "bcmp (fst (Encode_map (sample_row (- 5) [97]) sample_table)) (fst (Encode_map (sample_row 7 [97, 98]) sample_table)) =
    row_order (field_type sample_table) (sample_row (- 5) [97]) (sample_row 7 [97, 98]) (uniq_fields_list sample_table)"
    by (rule key_order) (auto simp: sample_row_def encodable_def dbl_nan_def)
  then show ?thesis
    by (simp add: sample_table_def sample_row_def value_cmp_def cmp3_def)
qed

text \<open>(C4) Decoding the key of a complete row gives back every field: the decimal text of an
  integer, the text of a double with the negative zero normalised, and a string byte for
  byte, whatever bytes it holds; none of the unchecked reads goes past the key.\<close>

theorem key_round_trip:
  assumes "\<forall>f \<in> set (uniq_fields_list td). \<exists>v. vals f = Some v \<and> encodable (field_type td f) v"
  shows "Decode_tbl dtoa (fst (Encode_map vals td)) td =
    Inr (map (\<lambda>f. value_text dtoa (field_type td f) (the (vals f))) (uniq_fields_list td))"
  by (rule Decode_tbl_Encode_map [OF assms])

theorem key_round_trip_witness:
  "Decode_tbl (\<lambda>_. [120]) (fst (Encode_map (sample_row (- 5) [0, 127, 0]) sample_table)) sample_table =
     Inr [[45, 53], [0, 127, 0], [120]]"
proof -
  have "Decode_tbl (\<lambda>_. [120]) (fst (Encode_map (sample_row (- 5) [0, 127, 0]) sample_table)) sample_table =
    Inr (map (\<lambda>f. value_text (\<lambda>_. [120]) (field_type sample_table f) (the (sample_row (- 5) [0, 127, 0] f)))
      (uniq_fields_list sample_table))"
    by (rule key_round_trip) (auto simp: sample_row_def encodable_def dbl_nan_def)
  then show ?thesis
    by (simp add: sample_table_def sample_row_def value_text_def to_string_s64_def dec.simps)
qed

lemma encode_text_value:
  "ty \<in> {FSigned, FUnsigned, FBinary, FString} \<Longrightarrow>
   encode_text strtod ty (value_text dtoa ty v) = fst (encode_value ty v)"
  by (auto simp: encode_text_def value_text_def encode_value_def strtoll_to_string strtoull_to_string Let_def)

lemma Encode_vec_texts:
  "\<forall>x \<in> set row. fst x \<in> {FSigned, FUnsigned, FBinary, FString} \<Longrightarrow>
   Encode_vec strtod (map (\<lambda>x. value_text dtoa (fst x) (snd x)) row) (map fst row) =
     Inr (concat (map (\<lambda>x. fst (encode_value (fst x) (snd x))) row))"
  by (induction row) (auto simp: encode_text_value)

text \<open>(C5) The texts of a row of integers and strings survive the trip through the key format:
  \<^verbatim>\<open>Encode\<close> of the texts by a vector of types succeeds, gives the key the typed encoder
  gives, and \<^verbatim>\<open>Decode\<close> of that key returns the same texts.\<close>

theorem key_text_round_trip:
  fixes dtoa :: "Prelude.u64 \<Rightarrow> byte list"
  assumes "\<forall>x \<in> set row. fst x \<in> {FSigned, FUnsigned, FBinary, FString}"
  defines "texts \<equiv> map (\<lambda>x. value_text dtoa (fst x) (snd x)) row"
  shows "\<exists>key. Encode_vec strtod texts (map fst row) = Inr key \<and>
    key = concat (map (\<lambda>x. fst (encode_value (fst x) (snd x))) row) \<and>
    Decode_vec dtoa key (map fst row) = Inr texts"
proof -
  have "\<forall>x \<in> set row. encodable (fst x) (snd x)"
    using assms(1) by (auto simp: encodable_def)
  then show ?thesis
    using decode_vec_loop_enc [of row dtoa "[]" "[]"] Encode_vec_texts [OF assms(1)]
    by (simp add: Decode_vec_def texts_def)
qed

theorem key_text_round_trip_witness:
  "\<exists>key. Encode_vec (\<lambda>_. 0) [[45, 53], [97, 0]] [FSigned, FString] = Inr key \<and>
     Decode_vec (\<lambda>_. []) key [FSigned, FString] = Inr [[45, 53], [97, 0]]"
  using key_text_round_trip [of "[(FSigned, the (sample_row (- 5) [97, 0] 0)), (FString, the (sample_row (- 5) [97, 0] 0))]"
      "\<lambda>_. 0" "\<lambda>_. []"]
  by (auto simp: value_text_def sample_row_def to_string_s64_def dec.simps)


definition sample_binary :: table_def where
  "sample_binary = \<lparr>uniq_fields_list = [3, 1], field_type = (\<lambda>f. if f = 1 then FBinary else FSigned)\<rparr>"


text \<open>Without a virtual field the key comparator is total on non-empty keys and is the
  lexicographic order of the bytes it looks at, the bytes themselves when the key is case
  sensitive and their upper case as signed characters when it is not; so it is
  antisymmetric and transitive, as RocksDB requires of a comparator.\<close>

theorem comparator_lexicographic:
  assumes "\<not> mHasVirtualField kc" "lk \<noteq> []" "rk \<noteq> []"
  shows "internal_compare kc lk rk = Inr (bcmp (map (key_byte kc) lk) (map (key_byte kc) rk))"
  by (rule internal_compare_key_byte [OF assms])

theorem comparator_lexicographic_witness:
  "internal_compare \<lparr>mCaseSensitiveKey = False, mHasVirtualField = False\<rparr> [97, 66] [65, 98, 99] = Inr (- 1)"
proof -
  have "internal_compare \<lparr>mCaseSensitiveKey = False, mHasVirtualField = False\<rparr> [97, 66] [65, 98, 99] =
    Inr (bcmp (map (key_byte \<lparr>mCaseSensitiveKey = False, mHasVirtualField = False\<rparr>) [97, 66])
      (map (key_byte \<lparr>mCaseSensitiveKey = False, mHasVirtualField = False\<rparr>) [65, 98, 99]))"
    by (rule comparator_lexicographic) simp_all
  then show ?thesis by (simp add: key_byte_def toupper_def)
qed

text \<open>The first field of a key is found without the table definition: for every complete
  row, \<^verbatim>\<open>get_format_key\<close> returns exactly the encoded first field, \<^verbatim>\<open>get_field_len\<close> its
  length, and \<^verbatim>\<open>decode_primary_key\<close> its text.\<close>

theorem first_field_of_key:
  assumes "ty \<in> {FSigned, FUnsigned, FFloat, FBinary, FString}" "encodable ty v"
  defines "k \<equiv> fst (encode_value ty v)"
  shows "get_format_key (k @ rest) ty key0 = Inr (0, k) \<and> get_field_len (k @ rest) ty = Inr (int (length k)) \<and>
    decode_primary_key dtoa (k @ rest) ty [] = Inr (value_text dtoa ty v)"
  using assms(1,2) seg_end_first [of "str v" rest]
  by (auto simp: k_def get_format_key_def get_field_len_def decode_primary_key_def encode_value_def value_text_def
      encodable_def DecodeBytes_s64_enc DecodeBytes_u64_enc DecodeBytes_dbl_enc DecodeBytes_str_enc Let_def
      simp flip: encode_bytes_str_eq)

theorem first_field_of_key_witness:
  "get_format_key (encode_bytes_str [97] @ [1, 2, 3]) FString [] = Inr (0, encode_bytes_str [97]) \<and>
   decode_primary_key (\<lambda>_. []) (encode_bytes_str [97] @ [1, 2, 3]) FString [] = Inr [97]"
  using first_field_of_key [of FString "the (sample_row 0 [97] 0)" "[1, 2, 3]" "[]" "\<lambda>_. []"]
  by (simp add: encodable_def encode_value_def value_text_def sample_row_def Let_def)

section \<open>What the code does differently\<close>

text \<open>The vector encoder by table definition writes a binary field twice, so a key it builds is
  not the key the map encoder builds for the same row.\<close>

lemma Encode_tbl_binary_twice:
  "field_type td f = FBinary \<Longrightarrow> uniq_fields_list td = [f] \<Longrightarrow>
   Encode_tbl strtod [v] td = Inr (encode_bytes_str v @ encode_bytes_str v, word_of_nat (length (encode_bytes_str v)))"
  by (simp add: Encode_tbl_def encode_text_tbl_def Let_def)

text \<open>With a virtual field and a case sensitive key the comparator puts every key before
  itself, since \<^verbatim>\<open>compare(0, minLen, rk)\<close> compares a proper prefix with the whole key.\<close>

lemma bcmp_proper_prefix: "n < length k \<Longrightarrow> bcmp (take n k) k = -1"
proof (induction k arbitrary: n)
  case (Cons b k)
  then show ?case by (cases n) auto
qed simp

lemma virtual_comparator_not_irreflexive:
  assumes "DecodeBytes_u64 (drop (length k - 8) k) = Inr n" "8 + unat n < length k" "length k < 2 ^ 64"
  shows "internal_compare \<lparr>mCaseSensitiveKey = True, mHasVirtualField = True\<rparr> k k = Inr (- 1)"
proof -
  have "word_of_nat (length k) - n - 8 = (word_of_nat (length k - unat n - 8) :: Prelude.u64)"
    using assms(2) by (simp add: of_nat_diff)
  then have "unat (word_of_nat (length k) - n - 8 :: Prelude.u64) = length k - unat n - 8"
    using assms(3) by (simp add: unat_of_nat)
  then show ?thesis
    using assms bcmp_proper_prefix [of "length k - unat n - 8" k]
    by (simp add: internal_compare_def virtual_compare_def Let_def head_compare_def len_compare_def)
qed

end
