(* ===== verification/Linked_List.thy ===== *)
theory Linked_List
  imports Prelude "HOL-Library.Monad_Syntax"
begin

text \<open>
  Circular doubly linked lists with a head element, as \<^verbatim>\<open>cache/ng_list.h\<close> keeps node groups
  and \<^verbatim>\<open>cache/node_list.h\<close> keeps nodes. The interface is a store of two links per element that
  can be read and written one at a time; \<open>None\<close> is an access through an invalid pointer. The
  list operations are proved once, for every store that has the laws.
\<close>

locale link_store =
  fixes nx pv :: "'s \<Rightarrow> 'k \<Rightarrow> 'k option"
    and set_nx set_pv :: "'k \<Rightarrow> 'k \<Rightarrow> 's \<Rightarrow> 's option"
    and ok :: "'s \<Rightarrow> 'k \<Rightarrow> bool"
    and same :: "'s \<Rightarrow> 's \<Rightarrow> bool"
  assumes set_nx: "ok s k \<Longrightarrow> \<exists>s'. set_nx k v s = Some s' \<and> same s s' \<and> (\<forall>j. ok s' j = ok s j) \<and>
      (\<forall>j. ok s j \<longrightarrow> nx s' j = (if j = k then Some v else nx s j) \<and> pv s' j = pv s j)"
    and set_pv: "ok s k \<Longrightarrow> \<exists>s'. set_pv k v s = Some s' \<and> same s s' \<and> (\<forall>j. ok s' j = ok s j) \<and>
      (\<forall>j. ok s j \<longrightarrow> pv s' j = (if j = k then Some v else pv s j) \<and> nx s' j = nx s j)"
    and same_refl: "same s s"
    and same_trans: "same s s' \<Longrightarrow> same s' s'' \<Longrightarrow> same s s''"
begin

definition link :: "'k \<Rightarrow> 'k \<Rightarrow> 'k \<Rightarrow> 's \<Rightarrow> 's option" where
  "link p prv nxt s = do { s \<leftarrow> set_pv nxt p s; s \<leftarrow> set_nx p nxt s; s \<leftarrow> set_pv p prv s; set_nx prv p s }"

definition unlink :: "'k \<Rightarrow> 'k \<Rightarrow> 's \<Rightarrow> 's option" where
  "unlink prv nxt s = do { s \<leftarrow> set_pv nxt prv s; set_nx prv nxt s }"

definition add :: "'k \<Rightarrow> 'k \<Rightarrow> 's \<Rightarrow> 's option" where
  "add p head s = do { n \<leftarrow> nx s head; link p head n s }"

definition add_tail :: "'k \<Rightarrow> 'k \<Rightarrow> 's \<Rightarrow> 's option" where
  "add_tail p head s = do { q \<leftarrow> pv s head; link p q head s }"

definition del :: "'k \<Rightarrow> 's \<Rightarrow> 's option" where
  "del p s = do { a \<leftarrow> pv s p; b \<leftarrow> nx s p; unlink a b s }"

text \<open>A doubly linked segment from \<open>a\<close> over \<open>xs\<close> to \<open>b\<close>, and the ring of a list head.\<close>

fun chain :: "'s \<Rightarrow> 'k \<Rightarrow> 'k list \<Rightarrow> 'k \<Rightarrow> bool" where
  "chain s a [] b \<longleftrightarrow> nx s a = Some b \<and> pv s b = Some a"
| "chain s a (x # xs) b \<longleftrightarrow> nx s a = Some x \<and> pv s x = Some a \<and> chain s x xs b"

definition ring :: "'s \<Rightarrow> 'k \<Rightarrow> 'k list \<Rightarrow> bool" where
  "ring s h xs \<longleftrightarrow> chain s h xs h \<and> distinct (h # xs) \<and> (\<forall>x \<in> set (h # xs). ok s x)"

text \<open>Nothing but the links of \<open>K\<close> has changed.\<close>

definition changed :: "'k set \<Rightarrow> 's \<Rightarrow> 's \<Rightarrow> bool" where
  "changed K s s' \<longleftrightarrow> same s s' \<and> (\<forall>j. ok s' j = ok s j) \<and> (\<forall>j. ok s j \<longrightarrow> j \<notin> K \<longrightarrow> nx s' j = nx s j \<and> pv s' j = pv s j)"

lemma changed_same: "changed K s s' \<Longrightarrow> same s s'"
  by (simp add: changed_def)

lemma changed_ok: "changed K s s' \<Longrightarrow> ok s' j = ok s j"
  by (simp add: changed_def)

lemma changed_mono: "changed K s s' \<Longrightarrow> K \<subseteq> L \<Longrightarrow> changed L s s'"
  by (auto simp: changed_def)

lemma changed_trans: "changed K s s' \<Longrightarrow> changed K s' s'' \<Longrightarrow> changed K s s''"
  by (auto simp: changed_def intro: same_trans)

lemma chain_append: "chain s a (xs @ y # ys) b \<longleftrightarrow> chain s a xs y \<and> chain s y ys b"
  by (induction xs arbitrary: a) auto

lemma chain_cong:
  assumes "\<And>j. j \<in> set (a # xs) \<Longrightarrow> nx s' j = nx s j" and "\<And>j. j \<in> set (b # xs) \<Longrightarrow> pv s' j = pv s j"
  shows "chain s' a xs b = chain s a xs b"
  using assms by (induction xs arbitrary: a) auto

lemma ring_frame:
  assumes "ring s g ys" "changed K s s'" "set (g # ys) \<inter> K = {}"
  shows "ring s' g ys"
proof -
  have "\<And>j. j \<in> set (g # ys) \<Longrightarrow> nx s' j = nx s j \<and> pv s' j = pv s j"
    using assms unfolding ring_def changed_def by blast
  then have "chain s' g ys g = chain s g ys g" by (intro chain_cong) auto
  then show ?thesis using assms by (simp add: ring_def changed_def)
qed

lemma link_effect:
  assumes "ok s p" "ok s a" "ok s b" "p \<noteq> a" "p \<noteq> b"
  shows "\<exists>s'. link p a b s = Some s' \<and> changed {p, a, b} s s' \<and>
    (\<forall>j. ok s j \<longrightarrow> nx s' j = (if j = a then Some p else if j = p then Some b else nx s j)) \<and>
    (\<forall>j. ok s j \<longrightarrow> pv s' j = (if j = p then Some a else if j = b then Some p else pv s j))"
proof -
  obtain s1 where s1: "set_pv b p s = Some s1" "same s s1" "\<And>j. ok s1 j = ok s j"
      "\<And>j. ok s j \<Longrightarrow> pv s1 j = (if j = b then Some p else pv s j) \<and> nx s1 j = nx s j"
    using set_pv [OF assms(3)] by blast
  obtain s2 where s2: "set_nx p b s1 = Some s2" "same s1 s2" "\<And>j. ok s2 j = ok s1 j"
      "\<And>j. ok s1 j \<Longrightarrow> nx s2 j = (if j = p then Some b else nx s1 j) \<and> pv s2 j = pv s1 j"
    using set_nx [of s1 p b] assms s1(3) by blast
  obtain s3 where s3: "set_pv p a s2 = Some s3" "same s2 s3" "\<And>j. ok s3 j = ok s2 j"
      "\<And>j. ok s2 j \<Longrightarrow> pv s3 j = (if j = p then Some a else pv s2 j) \<and> nx s3 j = nx s2 j"
    using set_pv [of s2 p a] assms s1(3) s2(3) by blast
  obtain s4 where s4: "set_nx a p s3 = Some s4" "same s3 s4" "\<And>j. ok s4 j = ok s3 j"
      "\<And>j. ok s3 j \<Longrightarrow> nx s4 j = (if j = a then Some p else nx s3 j) \<and> pv s4 j = pv s3 j"
    using set_nx [of s3 a p] assms s1(3) s2(3) s3(3) by blast
  have "same s s4" using s1(2) s2(2) s3(2) s4(2) same_trans by blast
  then show ?thesis
    using assms s1 s2 s3 s4 by (auto simp: link_def changed_def)
qed

lemma unlink_effect:
  assumes "ok s a" "ok s b"
  shows "\<exists>s'. unlink a b s = Some s' \<and> changed {a, b} s s' \<and>
    (\<forall>j. ok s j \<longrightarrow> nx s' j = (if j = a then Some b else nx s j)) \<and>
    (\<forall>j. ok s j \<longrightarrow> pv s' j = (if j = b then Some a else pv s j))"
proof -
  obtain s1 where s1: "set_pv b a s = Some s1" "same s s1" "\<And>j. ok s1 j = ok s j"
      "\<And>j. ok s j \<Longrightarrow> pv s1 j = (if j = b then Some a else pv s j) \<and> nx s1 j = nx s j"
    using set_pv [OF assms(2)] by blast
  obtain s2 where s2: "set_nx a b s1 = Some s2" "same s1 s2" "\<And>j. ok s2 j = ok s1 j"
      "\<And>j. ok s1 j \<Longrightarrow> nx s2 j = (if j = a then Some b else nx s1 j) \<and> pv s2 j = pv s1 j"
    using set_nx [of s1 a b] assms s1(3) by blast
  have "same s s2" using s1(2) s2(2) same_trans by blast
  then show ?thesis
    using assms s1 s2 by (auto simp: unlink_def changed_def)
qed

text \<open>A segment whose last forward link is redirected.\<close>

lemma chain_retarget:
  assumes "chain s a xs b" "distinct (a # xs)"
    and "\<And>j. j \<in> set (a # xs) \<Longrightarrow> j \<noteq> last (a # xs) \<Longrightarrow> nx s' j = nx s j" "\<And>j. j \<in> set xs \<Longrightarrow> pv s' j = pv s j"
    and "nx s' (last (a # xs)) = Some c" "pv s' c = Some (last (a # xs))"
  shows "chain s' a xs c"
  using assms
proof (induction xs arbitrary: a)
  case Nil
  then show ?case by simp
next
  case (Cons x xs)
  then have "a \<noteq> last (x # xs)" by (metis distinct.simps(2) last_in_set list.distinct(1))
  moreover have "chain s' x xs c"
    using Cons.prems by (intro Cons.IH) (auto split: if_splits)
  ultimately show ?case using Cons.prems(1,3,4) by auto
qed

text \<open>Inserting between two neighbours of a ring, and taking an element out of it.\<close>

lemma link_ring:
  assumes "ring s h (xs @ ys)" "ok s p" "p \<notin> set (h # xs @ ys)"
    and a: "a = last (h # xs)" and b: "b = hd (ys @ [h])"
  shows "\<exists>s'. link p a b s = Some s' \<and> ring s' h (xs @ p # ys) \<and> changed (set (p # h # xs @ ys)) s s'"
proof -
  have ok: "\<And>x. x \<in> set (p # h # xs @ ys) \<Longrightarrow> ok s x" and dist: "distinct (h # xs @ ys)"
    using assms(1,2) by (auto simp: ring_def)
  have mem: "a \<in> set (h # xs)" "b \<in> set (h # ys)"
    unfolding a b by (rule last_in_set, simp) (cases ys; simp)
  then obtain s' where s': "link p a b s = Some s'" "changed {p, a, b} s s'"
      "\<And>j. ok s j \<Longrightarrow> nx s' j = (if j = a then Some p else if j = p then Some b else nx s j)"
      "\<And>j. ok s j \<Longrightarrow> pv s' j = (if j = p then Some a else if j = b then Some p else pv s j)"
    using link_effect [of s p a b] assms(2,3) ok by auto
  have okab: "ok s a" "ok s b" using mem ok by auto
  have left: "chain s h xs b"
    using assms(1) b by (cases ys) (auto simp: ring_def chain_append)
  have "b \<notin> set xs" using dist b by (cases ys) auto
  then have "chain s' h xs p"
    using s'(3,4) ok okab dist assms(2,3) a by (intro chain_retarget [OF left]) (auto split: if_splits)
  moreover have "chain s' p ys h"
  proof (cases ys)
    case Nil
    then show ?thesis using s'(3,4) ok okab assms(2,3) b mem by (auto split: if_splits)
  next
    case (Cons y t)
    have "chain s y t h" using assms(1) Cons by (auto simp: ring_def chain_append)
    moreover have "y \<notin> set (h # t)" "a \<notin> set (y # t)" using dist mem Cons by auto
    moreover have "nx s' j = nx s j" if "j \<in> set (y # t)" for j
      using that s'(3) [of j] ok [of j] assms(3) Cons \<open>a \<notin> set (y # t)\<close> by auto
    moreover have "pv s' j = pv s j" if "j \<in> set (h # t)" for j
      using that s'(4) [of j] ok [of j] assms(3) b Cons \<open>y \<notin> set (h # t)\<close> by auto
    ultimately have "chain s' y t h" by (subst chain_cong [where s = s])
    then show ?thesis using s'(3,4) ok okab assms(2,3) b mem Cons by (auto split: if_splits)
  qed
  ultimately have "chain s' h (xs @ p # ys) h" by (simp add: chain_append)
  moreover have "changed (set (p # h # xs @ ys)) s s'"
    using mem by (intro changed_mono [OF s'(2)]) auto
  ultimately show ?thesis
    using s'(1) dist assms(3) ok by (auto simp: ring_def changed_ok)
qed

lemma del_ring:
  assumes "ring s h xs" "p \<in> set xs"
  shows "\<exists>s'. del p s = Some s' \<and> ring s' h (remove1 p xs) \<and> changed (set (h # xs) - {p}) s s'"
proof -
  obtain us vs where xs: "xs = us @ p # vs" and notin: "p \<notin> set us"
    using assms(2) by (metis split_list_first)
  have ok: "\<And>x. x \<in> set (h # xs) \<Longrightarrow> ok s x" and dist: "distinct (h # us @ p # vs)"
    and left: "chain s h us p" and right: "chain s p vs h"
    using assms(1) xs by (auto simp: ring_def chain_append)
  define a b where "a = last (h # us)" and "b = hd (vs @ [h])"
  have mem: "a \<in> set (h # us)" "b \<in> set (h # vs)"
    unfolding a_def b_def by (rule last_in_set, simp) (cases vs; simp)
  have ends: "pv s p = Some a" "nx s p = Some b"
    using left right
    by (cases us rule: rev_cases, auto simp: a_def chain_append) (cases vs; auto simp: b_def)+
  obtain s' where s': "unlink a b s = Some s'" "changed {a, b} s s'"
      "\<And>j. ok s j \<Longrightarrow> nx s' j = (if j = a then Some b else nx s j)"
      "\<And>j. ok s j \<Longrightarrow> pv s' j = (if j = b then Some a else pv s j)"
    using unlink_effect [of s a b] mem ok xs by auto
  have okab: "ok s a" "ok s b" using mem ok xs by auto
  have "b \<notin> set us" using dist b_def by (cases vs) auto
  then have l: "chain s' h us b"
    using s'(3,4) ok okab dist xs by (intro chain_retarget [OF left]) (auto simp: a_def split: if_splits)
  have "chain s' h (us @ vs) h"
  proof (cases vs)
    case Nil
    then show ?thesis using l b_def by simp
  next
    case (Cons y t)
    have "chain s y t h" using right Cons by simp
    moreover have "y \<notin> set (h # t)" "a \<notin> set (y # t)" using dist mem Cons by auto
    moreover have "nx s' j = nx s j" if "j \<in> set (y # t)" for j
      using that s'(3) [of j] ok [of j] xs Cons \<open>a \<notin> set (y # t)\<close> by auto
    moreover have "pv s' j = pv s j" if "j \<in> set (h # t)" for j
      using that s'(4) [of j] ok [of j] xs b_def Cons \<open>y \<notin> set (h # t)\<close> by auto
    ultimately have "chain s' y t h" by (subst chain_cong [where s = s])
    then show ?thesis using l b_def Cons by (simp add: chain_append)
  qed
  moreover have "remove1 p xs = us @ vs" using xs notin by (simp add: remove1_append)
  moreover have "changed (set (h # xs) - {p}) s s'"
    using mem dist xs by (intro changed_mono [OF s'(2)]) auto
  ultimately show ?thesis
    using s'(1) dist xs ok ends by (auto simp: ring_def changed_ok del_def)
qed

lemma add_ring:
  assumes "ring s h xs" "ok s p" "p \<notin> set (h # xs)"
  shows "\<exists>s'. add p h s = Some s' \<and> ring s' h (p # xs) \<and> changed (set (p # h # xs)) s s'"
proof -
  have "nx s h = Some (hd (xs @ [h]))" using assms(1) by (cases xs) (auto simp: ring_def)
  then show ?thesis
    using link_ring [of s h "[]" xs p h "hd (xs @ [h])"] assms by (simp add: add_def)
qed

lemma add_tail_ring:
  assumes "ring s h xs" "ok s p" "p \<notin> set (h # xs)"
  shows "\<exists>s'. add_tail p h s = Some s' \<and> ring s' h (xs @ [p]) \<and> changed (set (p # h # xs)) s s'"
proof -
  have "pv s h = Some (last (h # xs))" using assms(1)
    by (cases xs rule: rev_cases) (auto simp: ring_def chain_append)
  then show ?thesis
    using link_ring [of s h xs "[]" p "last (h # xs)" h] assms by (simp add: add_tail_def)
qed

lemma ring_empty_iff: "ring s h xs \<Longrightarrow> nx s h = Some h \<longleftrightarrow> xs = []"
  by (cases xs) (auto simp: ring_def)

lemma ring_nx: "ring s h xs \<Longrightarrow> nx s h = Some (hd (xs @ [h]))"
  by (cases xs) (auto simp: ring_def)

lemma ring_pv: "ring s h xs \<Longrightarrow> pv s h = Some (last (h # xs))"
  by (cases xs rule: rev_cases) (auto simp: ring_def chain_append)

text \<open>The list an element is on is determined by the links: a ring has one content.\<close>

lemma chain_unique:
  assumes "chain s a xs h" "chain s a ys h" "h \<notin> set xs" "h \<notin> set ys"
  shows "xs = ys"
  using assms
proof (induction xs arbitrary: a ys)
  case Nil
  then show ?case by (cases ys) auto
next
  case (Cons x xs)
  then show ?case by (cases ys) auto
qed

lemma ring_unique: "ring s h xs \<Longrightarrow> ring s h ys \<Longrightarrow> xs = ys"
  by (auto simp: ring_def intro: chain_unique)

end

end
