(* ===== verification/Node_Store.thy ===== *)
theory Node_Store
  imports Linked_List
begin

text \<open>
  The node store of the cache: node groups (\<^verbatim>\<open>cache/node_set.cc\<close>), the two-level index from
  node ids to groups (\<^verbatim>\<open>cache/node_index.cc\<close>), and the lists of groups and of nodes
  (\<^verbatim>\<open>cache/ng_list.h\<close>, \<^verbatim>\<open>cache/node_list.h\<close>, \<^verbatim>\<open>cache/node.h\<close>). Shared memory is a record of
  maps from handles to the structures that live there; \<open>None\<close> is an access through a handle
  that is not mapped. The result of \<^verbatim>\<open>M_CALLOC\<close> is a function argument, zero on failure.
\<close>

section \<open>Node groups\<close>

abbreviation INVALID_HANDLE :: u64 where "INVALID_HANDLE \<equiv> 0"

abbreviation INVALID_NODE_ID :: u32 where "INVALID_NODE_ID \<equiv> - 1"

abbreviation NODE_GROUP_INCLUDE_NODES :: nat where "NODE_GROUP_INCLUDE_NODES \<equiv> 256"

text \<open>The layout of the attribute blocks behind the group header: four-byte ids, two four-byte
  links, eight-byte handles and one dirty bit per node.\<close>

definition NG_ATTR_SIZE :: "nat list" where
  "NG_ATTR_SIZE = [256 * 4, 256 * 4 * 2, 256 * 8, 256 div 8]"

definition attr_count :: nat where
  "attr_count = length NG_ATTR_SIZE"

definition base_header_size :: nat where
  "base_header_size = 28 + 4 + 4 * attr_count"

fun attr_offset :: "nat \<Rightarrow> nat" where
  "attr_offset 0 = base_header_size"
| "attr_offset (Suc i) = attr_offset i + NG_ATTR_SIZE ! i"

definition attr_size :: nat where
  "attr_size = sum_list NG_ATTR_SIZE"

definition node_set_size :: nat where
  "node_set_size = base_header_size + attr_size"

text \<open>A group, its attribute blocks as functions of the node's index in it.\<close>

record node_set =
  ng_dele_top :: u16
  ng_dele_count :: u16
  ng_free :: u16
  ng_nid :: u32
  next_node_id :: "nat \<Rightarrow> u32"
  lru_prev :: "nat \<Rightarrow> u32"
  lru_next :: "nat \<Rightarrow> u32"
  vd_handle :: "nat \<Rightarrow> u64"
  dirty :: "nat \<Rightarrow> bool"

definition ns_node_id :: "node_set \<Rightarrow> nat \<Rightarrow> u32" where
  "ns_node_id s idx = ng_nid s + word_of_nat idx"

definition ns_init :: "u32 \<Rightarrow> node_set" where
  "ns_init nid =
     \<lparr>ng_dele_top = 0, ng_dele_count = 0, ng_free = 0, ng_nid = nid,
      next_node_id = (\<lambda>_. INVALID_NODE_ID), lru_prev = (\<lambda>i. nid + word_of_nat i), lru_next = (\<lambda>i. nid + word_of_nat i),
      vd_handle = (\<lambda>_. INVALID_HANDLE), dirty = (\<lambda>_. False)\<rparr>"

definition is_dirty :: "nat \<Rightarrow> node_set \<Rightarrow> bool" where
  "is_dirty idx s = dirty s idx"

definition set_dirty :: "nat \<Rightarrow> node_set \<Rightarrow> node_set" where
  "set_dirty idx s = s\<lparr>dirty := (dirty s)(idx := True)\<rparr>"

definition clr_dirty :: "nat \<Rightarrow> node_set \<Rightarrow> node_set" where
  "clr_dirty idx s = s\<lparr>dirty := (dirty s)(idx := False)\<rparr>"

text \<open>\<^verbatim>\<open>Node::Reset\<close> on the node with an index of the group.\<close>

definition node_Reset :: "nat \<Rightarrow> node_set \<Rightarrow> node_set" where
  "node_Reset i s =
     clr_dirty i
       (s\<lparr>next_node_id := (next_node_id s)(i := INVALID_NODE_ID),
          lru_prev := (lru_prev s)(i := ns_node_id s i), lru_next := (lru_next s)(i := ns_node_id s i)\<rparr>)"

definition ns_is_full :: "node_set \<Rightarrow> bool" where
  "ns_is_full s \<longleftrightarrow> ng_dele_count s = 0 \<and> NODE_GROUP_INCLUDE_NODES \<le> unat (ng_free s)"

text \<open>The index of the allocated node, or none. The link to the next released node is stored in
  the node's handle and read back as a byte.\<close>

definition ns_allocate_node :: "node_set \<Rightarrow> nat option \<times> node_set" where
  "ns_allocate_node s =
     (if ns_is_full s then (None, s)
      else if ng_dele_count s > 0
      then let i = unat (ng_dele_top s); s = node_Reset i s
           in (Some i, s\<lparr>ng_dele_count := ng_dele_count s - 1, ng_dele_top := ucast (ucast (vd_handle s i) :: byte)\<rparr>)
      else let i = unat (ng_free s); s = node_Reset i s in (Some i, s\<lparr>ng_free := ng_free s + 1\<rparr>))"

definition ns_release_node :: "nat \<Rightarrow> node_set \<Rightarrow> node_set" where
  "ns_release_node i s =
     s\<lparr>vd_handle := (vd_handle s)(i := ucast (ng_dele_top s)), ng_dele_top := word_of_nat i,
       ng_dele_count := ng_dele_count s + 1\<rparr>"

section \<open>Memory\<close>

datatype node = NoNode | Nd u64 nat

record second_index =
  si_used :: u32
  si_h :: "nat \<Rightarrow> u64"

datatype startup_mode = CREATED | ATTACHED | UPGRADED

record world =
  sets :: "u64 \<rightharpoonup> node_set"
  ngl :: "u64 \<rightharpoonup> u64 \<times> u64"
  seconds :: "u64 \<rightharpoonup> second_index"
  fi_h :: "nat \<Rightarrow> u64"
  ng_info :: u64
  ni_min_id :: u32
  ni_sys_zone :: u64
  ni_used_ng :: u32
  ni_used_node :: u32
  ni_dirty_node :: u32
  ni_used_row :: u64
  ni_dirty_row :: u64
  emptyCnt :: int
  emptyStartupMode :: startup_mode
  step :: nat
  fail :: bool

text \<open>The handles of the two list heads, at the start of \<^verbatim>\<open>NG_INFO_T\<close>.\<close>

definition ni_free_head :: "world \<Rightarrow> u64" where
  "ni_free_head w = ng_info w"

definition ni_full_head :: "world \<Rightarrow> u64" where
  "ni_full_head w = ng_info w + 16"

definition upd_set :: "u64 \<Rightarrow> (node_set \<Rightarrow> node_set) \<Rightarrow> world \<Rightarrow> world option" where
  "upd_set h f w = do { s \<leftarrow> sets w h; Some (w\<lparr>sets := (sets w)(h \<mapsto> f s)\<rparr>) }"

type_synonym calloc = "world \<Rightarrow> nat \<Rightarrow> u64"

section \<open>The node index\<close>

definition INDEX_1_SIZE :: nat where "INDEX_1_SIZE = 2 ^ 8 * 8 + 8"

definition INDEX_2_SIZE :: nat where "INDEX_2_SIZE = 2 ^ 16 * 8 + 8"

definition OFFSET1 :: "u32 \<Rightarrow> nat" where "OFFSET1 nid = unat (drop_bit 24 nid)"

definition OFFSET2 :: "u32 \<Rightarrow> nat" where "OFFSET2 nid = unat (drop_bit 8 (nid AND 0xFFFF00))"

definition empty_second :: second_index where
  "empty_second = \<lparr>si_used = 0, si_h = (\<lambda>_. INVALID_HANDLE)\<rparr>"

fun pre_allocate_loop :: "calloc \<Rightarrow> nat \<Rightarrow> nat \<Rightarrow> world \<Rightarrow> int \<times> world" where
  "pre_allocate_loop calloc i 0 w = (0, w)"
| "pre_allocate_loop calloc i (Suc n) w =
     (let v = calloc w INDEX_2_SIZE; w1 = w\<lparr>fi_h := (fi_h w)(i := v)\<rparr>
      in if v = INVALID_HANDLE then (-1, w1)
         else pre_allocate_loop calloc (Suc i) n (w1\<lparr>seconds := (seconds w1)(v \<mapsto> empty_second)\<rparr>))"

definition pre_allocate_index :: "calloc \<Rightarrow> u64 \<Rightarrow> world \<Rightarrow> int \<times> world" where
  "pre_allocate_index calloc mem_size w =
     (let n = unat (ucast (mem_size div (65536 * 256 * 44) + 1) :: u32)
      in pre_allocate_loop calloc 0 (if n > 256 then 256 else n) w)"

text \<open>\<^verbatim>\<open>NodeIndex::Init\<close>: the first level is a zeroed block of its own.\<close>

definition NodeIndex_Init :: "calloc \<Rightarrow> u64 \<Rightarrow> world \<Rightarrow> int \<times> world" where
  "NodeIndex_Init calloc mem_size w =
     (if calloc w INDEX_1_SIZE = INVALID_HANDLE then (-1, w)
      else pre_allocate_index calloc mem_size (w\<lparr>fi_h := (\<lambda>_. INVALID_HANDLE)\<rparr>))"

definition node_id :: "world \<Rightarrow> node \<Rightarrow> u32 option" where
  "node_id w n = (case n of NoNode \<Rightarrow> None | Nd h i \<Rightarrow> do { s \<leftarrow> sets w h; Some (ns_node_id s i) })"

definition Insert :: "calloc \<Rightarrow> node \<Rightarrow> world \<Rightarrow> (int \<times> world) option" where
  "Insert calloc n w =
     (case n of NoNode \<Rightarrow> None | Nd h i \<Rightarrow> do {
        nid \<leftarrow> node_id w n;
        let w = (if fi_h w (OFFSET1 nid) = INVALID_HANDLE
                 then let v = calloc w INDEX_2_SIZE; w1 = w\<lparr>fi_h := (fi_h w)(OFFSET1 nid := v)\<rparr>
                      in if v = INVALID_HANDLE then w1 else w1\<lparr>seconds := (seconds w1)(v \<mapsto> empty_second)\<rparr>
                 else w);
        if fi_h w (OFFSET1 nid) = INVALID_HANDLE then Some (-1, w)
        else do {
          p \<leftarrow> seconds w (fi_h w (OFFSET1 nid));
          Some (0, w\<lparr>seconds := (seconds w)(fi_h w (OFFSET1 nid) \<mapsto>
                    p\<lparr>si_used := si_used p + 1, si_h := (si_h p)(OFFSET2 nid := h)\<rparr>)\<rparr>)
        }
      })"

definition Search :: "world \<Rightarrow> u32 \<Rightarrow> node option" where
  "Search w nid =
     (if nid = INVALID_NODE_ID then Some NoNode
      else if fi_h w (OFFSET1 nid) = INVALID_HANDLE then Some NoNode
      else do {
        p \<leftarrow> seconds w (fi_h w (OFFSET1 nid));
        if si_h p (OFFSET2 nid) = INVALID_HANDLE then Some NoNode
        else do {
          s \<leftarrow> sets w (si_h p (OFFSET2 nid));
          let index = sint (nid - ng_nid s);
          Some (if index < 0 \<or> index > 255 then NoNode else Nd (si_h p (OFFSET2 nid)) (nat index))
        }
      })"

section \<open>Lists of groups\<close>

definition ng_next :: "world \<Rightarrow> u64 \<Rightarrow> u64 option" where
  "ng_next w p = map_option snd (ngl w p)"

definition ng_prev :: "world \<Rightarrow> u64 \<Rightarrow> u64 option" where
  "ng_prev w p = map_option fst (ngl w p)"

definition set_ng_next :: "u64 \<Rightarrow> u64 \<Rightarrow> world \<Rightarrow> world option" where
  "set_ng_next p v w = do { l \<leftarrow> ngl w p; Some (w\<lparr>ngl := (ngl w)(p \<mapsto> (fst l, v))\<rparr>) }"

definition set_ng_prev :: "u64 \<Rightarrow> u64 \<Rightarrow> world \<Rightarrow> world option" where
  "set_ng_prev p v w = do { l \<leftarrow> ngl w p; Some (w\<lparr>ngl := (ngl w)(p \<mapsto> (v, snd l))\<rparr>) }"

definition INIT_NG_LIST_HEAD :: "u64 \<Rightarrow> world \<Rightarrow> world option" where
  "INIT_NG_LIST_HEAD p w = do { w \<leftarrow> set_ng_prev p p w; set_ng_next p p w }"

definition NG_LIST_ADD_between :: "u64 \<Rightarrow> u64 \<Rightarrow> u64 \<Rightarrow> world \<Rightarrow> world option" where
  "NG_LIST_ADD_between p prev nxt w =
     do { w \<leftarrow> set_ng_prev nxt p w; w \<leftarrow> set_ng_next p nxt w; w \<leftarrow> set_ng_prev p prev w; set_ng_next prev p w }"

definition NG_LIST_ADD :: "u64 \<Rightarrow> u64 \<Rightarrow> world \<Rightarrow> world option" where
  "NG_LIST_ADD p head w = do { n \<leftarrow> ng_next w head; NG_LIST_ADD_between p head n w }"

definition NG_LIST_ADD_TAIL :: "u64 \<Rightarrow> u64 \<Rightarrow> world \<Rightarrow> world option" where
  "NG_LIST_ADD_TAIL p head w = do { q \<leftarrow> ng_prev w head; NG_LIST_ADD_between p q head w }"

definition NG_LIST_DEL_between :: "u64 \<Rightarrow> u64 \<Rightarrow> world \<Rightarrow> world option" where
  "NG_LIST_DEL_between prev nxt w = do { w \<leftarrow> set_ng_prev nxt prev w; set_ng_next prev nxt w }"

definition NG_LIST_DEL :: "u64 \<Rightarrow> world \<Rightarrow> world option" where
  "NG_LIST_DEL p w = do { a \<leftarrow> ng_prev w p; b \<leftarrow> ng_next w p; w \<leftarrow> NG_LIST_DEL_between a b w;
     w \<leftarrow> set_ng_next p INVALID_HANDLE w; set_ng_prev p INVALID_HANDLE w }"

definition NG_LIST_DEL_INIT :: "u64 \<Rightarrow> world \<Rightarrow> world option" where
  "NG_LIST_DEL_INIT p w = do { a \<leftarrow> ng_prev w p; b \<leftarrow> ng_next w p; w \<leftarrow> NG_LIST_DEL_between a b w;
     INIT_NG_LIST_HEAD p w }"

definition NG_LIST_MOVE :: "u64 \<Rightarrow> u64 \<Rightarrow> world \<Rightarrow> world option" where
  "NG_LIST_MOVE p head w = do { a \<leftarrow> ng_prev w p; b \<leftarrow> ng_next w p; w \<leftarrow> NG_LIST_DEL_between a b w;
     NG_LIST_ADD p head w }"

definition NG_LIST_MOVE_TAIL :: "u64 \<Rightarrow> u64 \<Rightarrow> world \<Rightarrow> world option" where
  "NG_LIST_MOVE_TAIL p head w = do { a \<leftarrow> ng_prev w p; b \<leftarrow> ng_next w p; w \<leftarrow> NG_LIST_DEL_between a b w;
     NG_LIST_ADD_TAIL p head w }"

definition NG_LIST_EMPTY :: "u64 \<Rightarrow> world \<Rightarrow> bool option" where
  "NG_LIST_EMPTY head w = do { n \<leftarrow> ng_next w head; Some (n = head) }"

section \<open>Lists of nodes\<close>

definition nd_lru_next :: "world \<Rightarrow> node \<Rightarrow> u32 option" where
  "nd_lru_next w n = (case n of NoNode \<Rightarrow> None | Nd h i \<Rightarrow> do { s \<leftarrow> sets w h; Some (lru_next s i) })"

definition nd_lru_prev :: "world \<Rightarrow> node \<Rightarrow> u32 option" where
  "nd_lru_prev w n = (case n of NoNode \<Rightarrow> None | Nd h i \<Rightarrow> do { s \<leftarrow> sets w h; Some (lru_prev s i) })"

definition set_lru_next :: "node \<Rightarrow> u32 \<Rightarrow> world \<Rightarrow> world option" where
  "set_lru_next n v w = (case n of NoNode \<Rightarrow> None | Nd h i \<Rightarrow> upd_set h (\<lambda>s. s\<lparr>lru_next := (lru_next s)(i := v)\<rparr>) w)"

definition set_lru_prev :: "node \<Rightarrow> u32 \<Rightarrow> world \<Rightarrow> world option" where
  "set_lru_prev n v w = (case n of NoNode \<Rightarrow> None | Nd h i \<Rightarrow> upd_set h (\<lambda>s. s\<lparr>lru_prev := (lru_prev s)(i := v)\<rparr>) w)"

definition node_Next :: "world \<Rightarrow> node \<Rightarrow> node option" where
  "node_Next w n = do { nid \<leftarrow> nd_lru_next w n; Search w nid }"

definition node_Prev :: "world \<Rightarrow> node \<Rightarrow> node option" where
  "node_Prev w n = do { nid \<leftarrow> nd_lru_prev w n; Search w nid }"

definition not_in_lru_list :: "world \<Rightarrow> node \<Rightarrow> bool option" where
  "not_in_lru_list w n = do { a \<leftarrow> nd_lru_prev w n; b \<leftarrow> nd_lru_next w n; nid \<leftarrow> node_id w n; Some (a = nid \<or> b = nid) }"

definition INIT_NODE_LIST_HEAD :: "node \<Rightarrow> u32 \<Rightarrow> world \<Rightarrow> world option" where
  "INIT_NODE_LIST_HEAD n nid w = do { w \<leftarrow> set_lru_prev n nid w; set_lru_next n nid w }"

definition NODE_LIST_ADD_between :: "node \<Rightarrow> node \<Rightarrow> node \<Rightarrow> world \<Rightarrow> world option" where
  "NODE_LIST_ADD_between p prev nxt w = do {
     pid \<leftarrow> node_id w p; w \<leftarrow> set_lru_prev nxt pid w;
     nid \<leftarrow> node_id w nxt; w \<leftarrow> set_lru_next p nid w;
     qid \<leftarrow> node_id w prev; w \<leftarrow> set_lru_prev p qid w;
     pid \<leftarrow> node_id w p; set_lru_next prev pid w }"

definition NODE_LIST_ADD :: "node \<Rightarrow> node \<Rightarrow> world \<Rightarrow> world option" where
  "NODE_LIST_ADD p head w = do { n \<leftarrow> node_Next w head; NODE_LIST_ADD_between p head n w }"

definition NODE_LIST_ADD_TAIL :: "node \<Rightarrow> node \<Rightarrow> world \<Rightarrow> world option" where
  "NODE_LIST_ADD_TAIL p head w = do { q \<leftarrow> node_Prev w head; NODE_LIST_ADD_between p q head w }"

definition NODE_LIST_DEL_between :: "node \<Rightarrow> node \<Rightarrow> world \<Rightarrow> world option" where
  "NODE_LIST_DEL_between prev nxt w = do {
     qid \<leftarrow> node_id w prev; w \<leftarrow> set_lru_prev nxt qid w; nid \<leftarrow> node_id w nxt; set_lru_next prev nid w }"

definition NODE_LIST_DEL :: "node \<Rightarrow> world \<Rightarrow> world option" where
  "NODE_LIST_DEL p w = do { a \<leftarrow> node_Prev w p; b \<leftarrow> node_Next w p; w \<leftarrow> NODE_LIST_DEL_between a b w;
     pid \<leftarrow> node_id w p; w \<leftarrow> set_lru_prev p pid w; set_lru_next p pid w }"

definition NODE_LIST_MOVE :: "node \<Rightarrow> node \<Rightarrow> world \<Rightarrow> world option" where
  "NODE_LIST_MOVE p head w = do { a \<leftarrow> node_Prev w p; b \<leftarrow> node_Next w p; w \<leftarrow> NODE_LIST_DEL_between a b w;
     NODE_LIST_ADD p head w }"

definition NODE_LIST_MOVE_TAIL :: "node \<Rightarrow> node \<Rightarrow> world \<Rightarrow> world option" where
  "NODE_LIST_MOVE_TAIL p head w = do { a \<leftarrow> node_Prev w p; b \<leftarrow> node_Next w p; w \<leftarrow> NODE_LIST_DEL_between a b w;
     NODE_LIST_ADD_TAIL p head w }"

definition NODE_LIST_EMPTY :: "node \<Rightarrow> world \<Rightarrow> bool option" where
  "NODE_LIST_EMPTY head w = do { n \<leftarrow> nd_lru_next w head; nid \<leftarrow> node_id w head; Some (n = nid) }"

section \<open>A group is a pool of 256 nodes\<close>

text \<open>The released nodes of a group: a list threaded through the handles.\<close>

fun dele_chain :: "(nat \<Rightarrow> u64) \<Rightarrow> nat \<Rightarrow> nat \<Rightarrow> nat list" where
  "dele_chain vd 0 t = []"
| "dele_chain vd (Suc n) t = t # dele_chain vd n (unat (ucast (vd t) :: byte))"

abbreviation released :: "node_set \<Rightarrow> nat list" where
  "released s \<equiv> dele_chain (vd_handle s) (unat (ng_dele_count s)) (unat (ng_dele_top s))"

definition ns_used :: "node_set \<Rightarrow> nat set" where
  "ns_used s = {..<unat (ng_free s)} - set (released s)"

definition ns_inv :: "node_set \<Rightarrow> bool" where
  "ns_inv s \<longleftrightarrow> unat (ng_free s) \<le> 256 \<and> unat (ng_dele_top s) < 256 \<and>
     distinct (released s) \<and> set (released s) \<subseteq> {..<unat (ng_free s)}"

lemma length_dele_chain [simp]: "length (dele_chain vd n t) = n"
  by (induction n arbitrary: t) auto

lemma dele_chain_cong:
  "(\<And>i. i \<in> set (dele_chain vd n t) \<Longrightarrow> vd' i = vd i) \<Longrightarrow> dele_chain vd' n t = dele_chain vd n t"
  by (induction n arbitrary: t) auto

lemma node_Reset_simps [simp]:
  "ng_dele_top (node_Reset i s) = ng_dele_top s" "ng_dele_count (node_Reset i s) = ng_dele_count s"
  "ng_free (node_Reset i s) = ng_free s" "ng_nid (node_Reset i s) = ng_nid s" "vd_handle (node_Reset i s) = vd_handle s"
  by (simp_all add: node_Reset_def clr_dirty_def)

lemma ns_inv_count: "ns_inv s \<Longrightarrow> unat (ng_dele_count s) \<le> unat (ng_free s)"
proof -
  assume inv: "ns_inv s"
  then have "card (set (released s)) = unat (ng_dele_count s)"
    by (simp add: ns_inv_def distinct_card)
  then show ?thesis
    using inv card_mono [of "{..<unat (ng_free s)}" "set (released s)"] by (simp add: ns_inv_def)
qed

lemma ns_init_inv [simp]: "ns_inv (ns_init i)" "ns_used (ns_init i) = {}" "\<not> ns_is_full (ns_init i)"
    "ng_nid (ns_init i) = i"
  by (simp_all add: ns_inv_def ns_used_def ns_init_def ns_is_full_def)

lemma unat_dec: "(c :: u16) > 0 \<Longrightarrow> unat c = Suc (unat (c - 1))"
  by (simp add: unat_minus_one word_gt_0 unat_gt_0)

lemma ns_allocate_cases:
  assumes "ns_inv s" "ns_allocate_node s = (r, s')"
  shows "case r of None \<Rightarrow> ns_is_full s \<and> s' = s
    | Some i \<Rightarrow> i < 256 \<and> i \<notin> ns_used s \<and> ns_used s' = insert i (ns_used s) \<and> ns_inv s' \<and> ng_nid s' = ng_nid s"
proof -
  consider (full) "ns_is_full s" | (reuse) "\<not> ns_is_full s" "ng_dele_count s > 0" | (fresh) "\<not> ns_is_full s" "ng_dele_count s = 0"
    by (auto simp: word_gt_0)
  then show ?thesis
  proof cases
    case full
    then show ?thesis using assms by (auto simp: ns_allocate_node_def)
  next
    case reuse
    define t where "t = unat (ng_dele_top s)"
    define b where "b = (ucast (vd_handle s t) :: byte)"
    define ds where "ds = dele_chain (vd_handle s) (unat (ng_dele_count s - 1)) (unat b)"
    have b: "unat (ucast b :: u16) = unat b" "unat b < 256"
      using unsigned_less [of b, where 'a = nat] by (simp_all add: unsigned_ucast_eq take_bit_nat_eq_self)
    have eq: "r = Some t" "ng_dele_count s' = ng_dele_count s - 1" "ng_dele_top s' = ucast b" "vd_handle s' = vd_handle s"
        "ng_free s' = ng_free s" "ng_nid s' = ng_nid s"
      using reuse assms(2) by (auto simp: ns_allocate_node_def Let_def t_def b_def)
    have old: "released s = t # ds"
      using unat_dec [OF reuse(2)] by (simp add: ds_def t_def b_def)
    show ?thesis
      using assms(1) eq b by (auto simp: ns_inv_def ns_used_def old simp flip: ds_def)
  next
    case fresh
    then have "unat (ng_free s) < 256" "released s = []" by (auto simp: ns_is_full_def)
    moreover from this have "unat (ng_free s + 1) = Suc (unat (ng_free s))"
      using unat_add_lem [of "ng_free s" 1] by (simp add: unat_word_ariths)
    moreover have "r = Some (unat (ng_free s))" "ng_free s' = ng_free s + 1" "ng_dele_count s' = 0" "ng_nid s' = ng_nid s"
        "ng_dele_top s' = ng_dele_top s"
      using fresh assms(2) by (auto simp: ns_allocate_node_def Let_def)
    ultimately show ?thesis
      using assms(1) by (auto simp: ns_inv_def ns_used_def lessThan_Suc)
  qed
qed

lemma ns_full_used: "ns_inv s \<Longrightarrow> ns_is_full s \<longleftrightarrow> ns_used s = {..<256}"
proof
  assume inv: "ns_inv s" and full: "ns_is_full s"
  then have "unat (ng_free s) = 256" by (simp add: ns_inv_def ns_is_full_def)
  with full show "ns_used s = {..<256}" by (simp add: ns_used_def ns_is_full_def)
next
  assume inv: "ns_inv s" and used: "ns_used s = {..<256}"
  have diff: "A - B = C \<Longrightarrow> B \<subseteq> C \<Longrightarrow> C \<subseteq> A \<and> B = {}" for A B C :: "nat set" by blast
  have "set (released s) \<subseteq> {..<256}" using inv unfolding ns_inv_def by (meson lessThan_subset_iff order_trans)
  then have "{..<256} \<subseteq> {..<unat (ng_free s)} \<and> set (released s) = {}"
    by (rule diff [OF used [unfolded ns_used_def]])
  then have "released s = []" "256 \<le> unat (ng_free s)" by simp_all
  moreover from this have "unat (ng_dele_count s) = 0" by (metis length_dele_chain list.size(3))
  ultimately show "ns_is_full s" by (simp add: ns_is_full_def unat_eq_0)
qed

lemma ns_release_effect:
  assumes "ns_inv s" "i \<in> ns_used s"
  shows "ns_used (node_Reset i (ns_release_node i s)) = ns_used s - {i} \<and> ns_inv (node_Reset i (ns_release_node i s))"
proof -
  let ?s = "node_Reset i (ns_release_node i s)"
  have i: "i < unat (ng_free s)" "i \<notin> set (released s)" "i < 256"
    using assms by (auto simp: ns_used_def ns_inv_def)
  have "insert i (set (released s)) \<subseteq> {..<256}" "card (set (released s)) = unat (ng_dele_count s)"
    using assms(1) i by (auto simp: ns_inv_def distinct_card)
  then have "unat (ng_dele_count s) < 256"
    using i(2) card_mono [of "{..<256}" "insert i (set (released s))"] by simp
  then have cnt: "unat (ng_dele_count s + 1) = Suc (unat (ng_dele_count s))"
    by (simp add: unat_word_ariths)
  have top: "unat (word_of_nat i :: u16) = i"
    using i(3) by (simp add: unat_of_nat)
  have link: "unat (ucast (ucast (ng_dele_top s) :: u64) :: byte) = unat (ng_dele_top s)"
    using assms(1) by (simp add: ns_inv_def unsigned_ucast_eq unsigned_take_bit_eq take_bit_nat_eq_self)
  have "dele_chain ((vd_handle s)(i := ucast (ng_dele_top s))) (unat (ng_dele_count s)) (unat (ng_dele_top s)) = released s"
    using i(2) by (intro dele_chain_cong) auto
  then have "released ?s = i # released s"
    using link by (simp add: ns_release_node_def cnt top)
  then show ?thesis
    using assms i top by (auto simp: ns_inv_def ns_used_def ns_release_node_def)
qed

interpretation ns_pool: id_pool ns_allocate_node "\<lambda>i s. node_Reset i (ns_release_node i s)" ns_used ns_inv
proof
  fix s s' k
  assume "ns_inv s" "ns_allocate_node s = (Some k, s')"
  then show "k \<notin> ns_used s \<and> ns_used s' = insert k (ns_used s) \<and> ns_inv s'"
    using ns_allocate_cases by fastforce
next
  fix s s'
  assume "ns_inv s" "ns_allocate_node s = (None, s')"
  then show "ns_used s' = ns_used s \<and> ns_inv s'" using ns_allocate_cases by fastforce
qed (rule ns_release_effect)

section \<open>Both kinds of list are rings\<close>

interpretation ngr: link_store ng_next ng_prev set_ng_next set_ng_prev "\<lambda>w p. p \<in> dom (ngl w)"
  "\<lambda>w w'. w'\<lparr>ngl := ngl w\<rparr> = w"
proof
  fix w :: world and k v
  assume k: "k \<in> dom (ngl w)"
  show "\<exists>s'. set_ng_next k v w = Some s' \<and> s'\<lparr>ngl := ngl w\<rparr> = w \<and> (\<forall>j. (j \<in> dom (ngl s')) = (j \<in> dom (ngl w))) \<and>
      (\<forall>j. j \<in> dom (ngl w) \<longrightarrow> ng_next s' j = (if j = k then Some v else ng_next w j) \<and> ng_prev s' j = ng_prev w j)"
    using k by (auto simp: set_ng_next_def ng_next_def ng_prev_def)
  show "\<exists>s'. set_ng_prev k v w = Some s' \<and> s'\<lparr>ngl := ngl w\<rparr> = w \<and> (\<forall>j. (j \<in> dom (ngl s')) = (j \<in> dom (ngl w))) \<and>
      (\<forall>j. j \<in> dom (ngl w) \<longrightarrow> ng_prev s' j = (if j = k then Some v else ng_prev w j) \<and> ng_next s' j = ng_next w j)"
    using k by (auto simp: set_ng_prev_def ng_next_def ng_prev_def)
next
  fix w :: world
  show "w\<lparr>ngl := ngl w\<rparr> = w" by simp
next
  fix w w' w'' :: world
  assume "w'\<lparr>ngl := ngl w\<rparr> = w" "w''\<lparr>ngl := ngl w'\<rparr> = w'"
  then show "w''\<lparr>ngl := ngl w\<rparr> = w" by (metis world.surjective world.update_convs(2))
qed

lemma NG_LIST_ADD_link: "NG_LIST_ADD p head w = ngr.add p head w"
  by (simp add: NG_LIST_ADD_def ngr.add_def NG_LIST_ADD_between_def ngr.link_def)

lemma NG_LIST_ADD_TAIL_link: "NG_LIST_ADD_TAIL p head w = ngr.add_tail p head w"
  by (simp add: NG_LIST_ADD_TAIL_def ngr.add_tail_def NG_LIST_ADD_between_def ngr.link_def)

lemma NG_LIST_DEL_link:
  "NG_LIST_DEL p w = do { w \<leftarrow> ngr.del p w; w \<leftarrow> set_ng_next p INVALID_HANDLE w; set_ng_prev p INVALID_HANDLE w }"
  by (simp add: NG_LIST_DEL_def ngr.del_def NG_LIST_DEL_between_def ngr.unlink_def)

text \<open>Everything but the links of the nodes.\<close>

definition no_links :: "node_set \<Rightarrow> node_set" where
  "no_links s = s\<lparr>lru_prev := (\<lambda>_. 0), lru_next := (\<lambda>_. 0)\<rparr>"

definition strip :: "world \<Rightarrow> world" where
  "strip w = w\<lparr>sets := (\<lambda>h. map_option no_links (sets w h))\<rparr>"

lemma strip_sets: "sets (strip w) h = map_option no_links (sets w h)"
  by (simp add: strip_def)

lemma bind_no_links: "(\<And>s. f (no_links s) = f s) \<Longrightarrow> map_option no_links x \<bind> f = x \<bind> f"
  by (cases x) auto

lemma no_links_simps [simp]:
  "ng_dele_top (no_links s) = ng_dele_top s" "ng_dele_count (no_links s) = ng_dele_count s"
  "ng_free (no_links s) = ng_free s" "ng_nid (no_links s) = ng_nid s" "vd_handle (no_links s) = vd_handle s"
  "ns_node_id (no_links s) i = ns_node_id s i"
  by (simp_all add: no_links_def ns_node_id_def)

lemma Search_strip: "Search (strip w) i = Search w i"
proof -
  have "fi_h (strip w) = fi_h w" "seconds (strip w) = seconds w" by (simp_all add: strip_def)
  then show ?thesis by (simp add: Search_def strip_sets bind_no_links cong: if_cong)
qed

lemma node_id_strip: "node_id (strip w) n = node_id w n"
  by (cases n) (simp_all add: node_id_def strip_sets bind_no_links)

lemma strip_eq_facts:
  assumes "strip w' = strip w"
  shows "Search w' i = Search w i" "node_id w' n = node_id w n" "map_option no_links (sets w' h) = map_option no_links (sets w h)"
proof -
  show "Search w' i = Search w i"
    using Search_strip [of w i] Search_strip [of w' i] assms by simp
  show "node_id w' n = node_id w n"
    using node_id_strip [of w n] node_id_strip [of w' n] assms by simp
  show "map_option no_links (sets w' h) = map_option no_links (sets w h)"
    using strip_sets [of w h] strip_sets [of w' h] assms by simp
qed

text \<open>The links of a node found through the index. A valid id is one whose search leads to a
  node of that id.\<close>

definition lru_nx :: "world \<Rightarrow> u32 \<Rightarrow> u32 option" where
  "lru_nx w i = do { n \<leftarrow> Search w i; nd_lru_next w n }"

definition lru_pv :: "world \<Rightarrow> u32 \<Rightarrow> u32 option" where
  "lru_pv w i = do { n \<leftarrow> Search w i; nd_lru_prev w n }"

definition lru_set_nx :: "u32 \<Rightarrow> u32 \<Rightarrow> world \<Rightarrow> world option" where
  "lru_set_nx i v w = do { n \<leftarrow> Search w i; set_lru_next n v w }"

definition lru_set_pv :: "u32 \<Rightarrow> u32 \<Rightarrow> world \<Rightarrow> world option" where
  "lru_set_pv i v w = do { n \<leftarrow> Search w i; set_lru_prev n v w }"

definition valid_id :: "world \<Rightarrow> u32 \<Rightarrow> bool" where
  "valid_id w i \<longleftrightarrow> (\<exists>n. Search w i = Some n \<and> node_id w n = Some i)"

lemma valid_idE:
  assumes "valid_id w i"
  obtains h k s where "Search w i = Some (Nd h k)" "sets w h = Some s" "ns_node_id s k = i"
proof -
  obtain n where "Search w i = Some n" "node_id w n = Some i" using assms by (auto simp: valid_id_def)
  then show ?thesis using that by (cases n) (auto simp: node_id_def bind_eq_Some_conv)
qed

lemma valid_id_strip:
  assumes "strip w' = strip w"
  shows "valid_id w' i = valid_id w i"
  by (simp only: valid_id_def strip_eq_facts [OF assms])

lemma upd_links:
  assumes "sets w h = Some s" "no_links (f s) = no_links s"
  shows "\<exists>w'. upd_set h f w = Some w' \<and> strip w' = strip w \<and> sets w' = (sets w)(h \<mapsto> f s)"
proof -
  have "(\<lambda>j. map_option no_links (((sets w)(h \<mapsto> f s)) j)) = (\<lambda>j. map_option no_links (sets w j))"
    using assms by (intro ext) simp
  then show ?thesis using assms(1) by (simp add: upd_set_def strip_def del: fun_upd_apply)
qed

lemma set_lru_effect:
  assumes "Search w k = Some (Nd h i)" "sets w h = Some s"
  shows "\<exists>w'. lru_set_nx k v w = Some w' \<and> strip w' = strip w \<and> sets w' = (sets w)(h \<mapsto> s\<lparr>lru_next := (lru_next s)(i := v)\<rparr>)"
    and "\<exists>w'. lru_set_pv k v w = Some w' \<and> strip w' = strip w \<and> sets w' = (sets w)(h \<mapsto> s\<lparr>lru_prev := (lru_prev s)(i := v)\<rparr>)"
  using assms upd_links [OF assms(2), of "\<lambda>s. s\<lparr>lru_next := (lru_next s)(i := v)\<rparr>"]
    upd_links [OF assms(2), of "\<lambda>s. s\<lparr>lru_prev := (lru_prev s)(i := v)\<rparr>"]
  by (simp_all add: lru_set_nx_def lru_set_pv_def set_lru_next_def set_lru_prev_def no_links_def)

text \<open>Different valid ids are different nodes.\<close>

lemma valid_id_other:
  assumes "Search w k = Some (Nd h i)" "sets w h = Some s" "ns_node_id s i = k" "valid_id w j" "j \<noteq> k"
    and "Search w j = Some (Nd h' i')"
  shows "h' \<noteq> h \<or> i' \<noteq> i"
  using valid_idE [OF assms(4)] assms by (metis node.inject option.inject)

interpretation lru: link_store lru_nx lru_pv lru_set_nx lru_set_pv valid_id "\<lambda>w w'. strip w' = strip w"
proof
  fix w k v
  assume "valid_id w k"
  then obtain h i s where k: "Search w k = Some (Nd h i)" "sets w h = Some s" "ns_node_id s i = k"
    by (rule valid_idE)
  obtain w' where w': "lru_set_nx k v w = Some w'" "strip w' = strip w" "sets w' = (sets w)(h \<mapsto> s\<lparr>lru_next := (lru_next s)(i := v)\<rparr>)"
    using set_lru_effect(1) [OF k(1,2)] by blast
  have "lru_nx w' j = (if j = k then Some v else lru_nx w j) \<and> lru_pv w' j = lru_pv w j" if vj: "valid_id w j" for j
  proof -
    obtain h' i' s' where j: "Search w j = Some (Nd h' i')" "sets w h' = Some s'" using valid_idE [OF vj] by metis
    then show ?thesis
      using valid_id_other [OF k vj _ j(1)] k(1,2) w'(3) strip_eq_facts(1) [OF w'(2)]
      by (cases "j = k"; cases "h' = h")
        (simp_all add: lru_nx_def lru_pv_def nd_lru_next_def nd_lru_prev_def)
  qed
  then show "\<exists>s'. lru_set_nx k v w = Some s' \<and> strip s' = strip w \<and> (\<forall>j. valid_id s' j = valid_id w j) \<and>
      (\<forall>j. valid_id w j \<longrightarrow> lru_nx s' j = (if j = k then Some v else lru_nx w j) \<and> lru_pv s' j = lru_pv w j)"
    using w'(1,2) valid_id_strip by blast
next
  fix w k v
  assume "valid_id w k"
  then obtain h i s where k: "Search w k = Some (Nd h i)" "sets w h = Some s" "ns_node_id s i = k"
    by (rule valid_idE)
  obtain w' where w': "lru_set_pv k v w = Some w'" "strip w' = strip w" "sets w' = (sets w)(h \<mapsto> s\<lparr>lru_prev := (lru_prev s)(i := v)\<rparr>)"
    using set_lru_effect(2) [OF k(1,2)] by blast
  have "lru_pv w' j = (if j = k then Some v else lru_pv w j) \<and> lru_nx w' j = lru_nx w j" if vj: "valid_id w j" for j
  proof -
    obtain h' i' s' where j: "Search w j = Some (Nd h' i')" "sets w h' = Some s'" using valid_idE [OF vj] by metis
    then show ?thesis
      using valid_id_other [OF k vj _ j(1)] k(1,2) w'(3) strip_eq_facts(1) [OF w'(2)]
      by (cases "j = k"; cases "h' = h")
        (simp_all add: lru_nx_def lru_pv_def nd_lru_next_def nd_lru_prev_def)
  qed
  then show "\<exists>s'. lru_set_pv k v w = Some s' \<and> strip s' = strip w \<and> (\<forall>j. valid_id s' j = valid_id w j) \<and>
      (\<forall>j. valid_id w j \<longrightarrow> lru_pv s' j = (if j = k then Some v else lru_pv w j) \<and> lru_nx s' j = lru_nx w j)"
    using w'(1,2) valid_id_strip by blast
qed simp_all

text \<open>The list operations of the code, on nodes, are the ring operations on their ids.\<close>

definition indexed :: "world \<Rightarrow> node \<Rightarrow> u32 \<Rightarrow> bool" where
  "indexed w n i \<longleftrightarrow> Search w i = Some n \<and> node_id w n = Some i"

lemma indexed_valid: "indexed w n i \<Longrightarrow> valid_id w i"
  by (auto simp: indexed_def valid_id_def)

lemma valid_indexed: "valid_id w i \<Longrightarrow> \<exists>n. indexed w n i"
  by (auto simp: indexed_def valid_id_def)

lemma indexed_strip: "strip w' = strip w \<Longrightarrow> indexed w' n i = indexed w n i"
  using strip_eq_facts [of w' w] by (simp add: indexed_def)

lemma set_lru_strip:
  "set_lru_next n v w = Some w' \<Longrightarrow> strip w' = strip w"
  "set_lru_prev n v w = Some w' \<Longrightarrow> strip w' = strip w"
proof -
  have "strip w' = strip w" if upd: "upd_set h f w = Some w'" "\<And>s. no_links (f s) = no_links s" for h f
  proof -
    obtain s where s: "sets w h = Some s" using upd(1) by (auto simp: upd_set_def bind_eq_Some_conv)
    show ?thesis using upd_links [of w h s f] s upd by auto
  qed
  then show "set_lru_next n v w = Some w' \<Longrightarrow> strip w' = strip w" "set_lru_prev n v w = Some w' \<Longrightarrow> strip w' = strip w"
    by (cases n; auto simp: set_lru_next_def set_lru_prev_def no_links_def)+
qed

lemma lru_set_indexed:
  "indexed w n i \<Longrightarrow> lru_set_nx i v w = set_lru_next n v w" "indexed w n i \<Longrightarrow> lru_set_pv i v w = set_lru_prev n v w"
  "indexed w n i \<Longrightarrow> lru_nx w i = nd_lru_next w n" "indexed w n i \<Longrightarrow> lru_pv w i = nd_lru_prev w n"
  by (simp_all add: indexed_def lru_set_nx_def lru_set_pv_def lru_nx_def lru_pv_def)

lemma indexed_id: "indexed w n i \<Longrightarrow> node_id w n = Some i"
  by (simp add: indexed_def)

lemma indexed_neighbours:
  "indexed w n i \<Longrightarrow> lru_nx w i = Some j \<Longrightarrow> indexed w m j \<Longrightarrow> node_Next w n = Some m"
  "indexed w n i \<Longrightarrow> lru_pv w i = Some j \<Longrightarrow> indexed w m j \<Longrightarrow> node_Prev w n = Some m"
  by (simp_all add: node_Next_def node_Prev_def indexed_def lru_nx_def lru_pv_def)

lemma NODE_LIST_ADD_between_link:
  assumes "indexed w p i" "indexed w a ia" "indexed w b ib"
  shows "NODE_LIST_ADD_between p a b w = lru.link i ia ib w"
proof (cases "set_lru_prev b i w")
  case None
  then show ?thesis using assms by (simp add: NODE_LIST_ADD_between_def lru.link_def lru_set_indexed indexed_id)
next
  case w1: (Some w1)
  have i1: "indexed w1 n j = indexed w n j" for n j by (rule indexed_strip [OF set_lru_strip(2) [OF w1]])
  show ?thesis
  proof (cases "set_lru_next p ib w1")
    case None
    then show ?thesis
      using assms i1 w1 by (simp add: NODE_LIST_ADD_between_def lru.link_def lru_set_indexed indexed_id)
  next
    case w2: (Some w2)
    have i2: "indexed w2 n j = indexed w n j" for n j using indexed_strip [OF set_lru_strip(1) [OF w2]] i1 by simp
    show ?thesis
    proof (cases "set_lru_prev p ia w2")
      case None
      then show ?thesis
        using assms i1 i2 w1 w2 by (simp add: NODE_LIST_ADD_between_def lru.link_def lru_set_indexed indexed_id)
    next
      case w3: (Some w3)
      have i3: "indexed w3 n j = indexed w n j" for n j using indexed_strip [OF set_lru_strip(2) [OF w3]] i2 by simp
      show ?thesis
        using assms i1 i2 i3 w1 w2 w3
        by (simp add: NODE_LIST_ADD_between_def lru.link_def lru_set_indexed indexed_id)
    qed
  qed
qed

lemma NODE_LIST_DEL_between_link:
  assumes "indexed w a ia" "indexed w b ib"
  shows "NODE_LIST_DEL_between a b w = lru.unlink ia ib w"
proof (cases "set_lru_prev b ia w")
  case None
  then show ?thesis using assms by (simp add: NODE_LIST_DEL_between_def lru.unlink_def lru_set_indexed indexed_id)
next
  case w1: (Some w1)
  have i1: "indexed w1 n j = indexed w n j" for n j by (rule indexed_strip [OF set_lru_strip(2) [OF w1]])
  show ?thesis
    using assms i1 w1 by (simp add: NODE_LIST_DEL_between_def lru.unlink_def lru_set_indexed indexed_id)
qed

lemma NODE_LIST_ADD_ring:
  assumes "lru.ring w h xs" "indexed w p i" "indexed w head h" "i \<notin> set (h # xs)"
  shows "\<exists>w'. NODE_LIST_ADD p head w = Some w' \<and> lru.ring w' h (i # xs) \<and> lru.changed (set (i # h # xs)) w w'"
proof -
  have nx: "lru_nx w h = Some (hd (xs @ [h]))" by (rule lru.ring_nx [OF assms(1)])
  have "valid_id w (hd (xs @ [h]))" using assms(1) by (cases xs) (auto simp: lru.ring_def)
  then obtain n where n: "indexed w n (hd (xs @ [h]))" using valid_indexed by blast
  have "NODE_LIST_ADD p head w = lru.add i h w"
    using nx NODE_LIST_ADD_between_link [OF assms(2,3) n] indexed_neighbours(1) [OF assms(3) nx n]
    by (simp add: NODE_LIST_ADD_def lru.add_def)
  then show ?thesis
    using lru.add_ring [OF assms(1) indexed_valid [OF assms(2)] assms(4)] by simp
qed

lemma NODE_LIST_DEL_ring:
  assumes "lru.ring w h xs" "indexed w p i" "i \<in> set xs"
  shows "\<exists>w'. NODE_LIST_DEL p w = Some w' \<and> lru.ring w' h (remove1 i xs) \<and> lru.changed (set (h # xs)) w w' \<and>
    lru.ring w' i []"
proof -
  obtain w1 where w1: "lru.del i w = Some w1" "lru.ring w1 h (remove1 i xs)" "lru.changed (set (h # xs) - {i}) w w1"
    using lru.del_ring [OF assms(1,3)] by blast
  obtain a b where ab: "lru_pv w i = Some a" "lru_nx w i = Some b" "lru.unlink a b w = Some w1"
    using w1(1) by (auto simp: lru.del_def bind_eq_Some_conv)
  have "valid_id w a" "valid_id w b"
  proof -
    obtain us vs where xs: "xs = us @ i # vs" using assms(3) by (meson split_list)
    have "lru.chain w h us i" "lru.chain w i vs h" using assms(1) xs by (auto simp: lru.ring_def lru.chain_append)
    then have "lru_pv w i = Some (last (h # us))" "lru_nx w i = Some (hd (vs @ [h]))"
      by (cases us rule: rev_cases, auto simp: lru.chain_append) (cases vs; auto)+
    moreover have "last (h # us) \<in> set (h # xs)" "hd (vs @ [h]) \<in> set (h # xs)"
      unfolding xs by (metis Un_iff last_in_set list.distinct(1) list.set_intros(2) set_append set_ConsD list.set_intros(1))
        (cases vs; auto)
    ultimately show "valid_id w a" "valid_id w b" using ab assms(1) unfolding lru.ring_def by auto
  qed
  then obtain na nb where n: "indexed w na a" "indexed w nb b" using valid_indexed by metis
  have del: "NODE_LIST_DEL p w = do { pid \<leftarrow> node_id w1 p; w2 \<leftarrow> set_lru_prev p pid w1; set_lru_next p pid w2 }"
    using ab(3) NODE_LIST_DEL_between_link [OF n] indexed_neighbours(1) [OF assms(2) ab(2) n(2)]
      indexed_neighbours(2) [OF assms(2) ab(1) n(1)]
    by (simp add: NODE_LIST_DEL_def)
  have p1: "indexed w1 p i" using assms(2) indexed_strip [OF lru.changed_same [OF w1(3)]] by simp
  obtain w2 where w2: "lru_set_pv i i w1 = Some w2" "strip w2 = strip w1" "\<And>j. valid_id w2 j = valid_id w1 j"
      "\<And>j. valid_id w1 j \<Longrightarrow> lru_pv w2 j = (if j = i then Some i else lru_pv w1 j) \<and> lru_nx w2 j = lru_nx w1 j"
    using lru.set_pv [OF indexed_valid [OF p1]] by blast
  have p2: "indexed w2 p i" using p1 indexed_strip [OF w2(2)] by simp
  obtain w3 where w3: "lru_set_nx i i w2 = Some w3" "strip w3 = strip w2" "\<And>j. valid_id w3 j = valid_id w2 j"
      "\<And>j. valid_id w2 j \<Longrightarrow> lru_nx w3 j = (if j = i then Some i else lru_nx w2 j) \<and> lru_pv w3 j = lru_pv w2 j"
    using lru.set_nx [OF indexed_valid [OF p2]] by blast
  have "NODE_LIST_DEL p w = Some w3"
    using del p1 p2 w2(1) w3(1) by (simp add: indexed_id lru_set_indexed)
  moreover have ch: "lru.changed {i} w1 w3"
    using w2 w3 unfolding lru.changed_def by auto
  then have "lru.ring w3 h (remove1 i xs)"
    using assms(1,3) by (intro lru.ring_frame [OF w1(2)]) (auto simp: lru.ring_def)
  moreover have "lru.changed (set (h # xs)) w w3"
    using lru.changed_trans [OF lru.changed_mono [OF w1(3)] lru.changed_mono [OF ch]] assms(3) by auto
  moreover have "lru.ring w3 i []"
    using w2 w3 indexed_valid [OF p1] by (simp add: lru.ring_def)
  ultimately show ?thesis by blast
qed

end
