(* ===== verification/Ng_Info.thy ===== *)
theory Ng_Info
  imports Node_Store
begin

text \<open>
  The node manager of \<^verbatim>\<open>cache/ng_info.cc\<close>: it takes node groups from shared memory, hands out
  nodes, keeps groups with free nodes and full groups on two lists, and keeps the dirty, clean
  and empty nodes on three lists whose heads are the first nodes of the system group.
\<close>

section \<open>Definitions\<close>

definition NG_INFO_SIZE :: nat where "NG_INFO_SIZE = 80"

definition allocate_ng :: "calloc \<Rightarrow> world \<Rightarrow> u64 \<times> world" where
  "allocate_ng calloc w =
     (let v = calloc w node_set_size in
      if v = INVALID_HANDLE then (0, w)
      else (v, w\<lparr>sets := (sets w)(v \<mapsto> ns_init (ni_min_id w)), ngl := (ngl w)(v \<mapsto> (INVALID_HANDLE, INVALID_HANDLE)),
                 ni_min_id := ni_min_id w + 256, ni_used_ng := ni_used_ng w + 1\<rparr>))"

definition find_free_ng :: "world \<Rightarrow> u64 option" where
  "find_free_ng w = do { e \<leftarrow> NG_LIST_EMPTY (ni_free_head w) w; if e then Some 0 else ng_next w (ni_free_head w) }"

definition list_del :: "u64 \<Rightarrow> world \<Rightarrow> world option" where
  "list_del NS w = NG_LIST_DEL NS w"

definition free_list_add :: "u64 \<Rightarrow> world \<Rightarrow> world option" where
  "free_list_add NS w = NG_LIST_ADD NS (ni_free_head w) w"

definition full_list_add :: "u64 \<Rightarrow> world \<Rightarrow> world option" where
  "full_list_add NS w = NG_LIST_ADD NS (ni_full_head w) w"

definition free_list_add_tail :: "u64 \<Rightarrow> world \<Rightarrow> world option" where
  "free_list_add_tail NS w = NG_LIST_ADD_TAIL NS (ni_free_head w) w"

definition full_list_add_tail :: "u64 \<Rightarrow> world \<Rightarrow> world option" where
  "full_list_add_tail NS w = NG_LIST_ADD_TAIL NS (ni_full_head w) w"

text \<open>The loop that adds groups in advance; false when not even the first one is available.\<close>

fun prealloc :: "calloc \<Rightarrow> nat \<Rightarrow> nat \<Rightarrow> world \<Rightarrow> (bool \<times> world) option" where
  "prealloc calloc i 0 w = Some (True, w)"
| "prealloc calloc i (Suc n) w =
     (case allocate_ng calloc w of (NS, w) \<Rightarrow>
        if NS = 0 then Some (if i = 0 then (False, w) else (True, w\<lparr>fail := True, step := 1\<rparr>))
        else do { w \<leftarrow> free_list_add NS w; prealloc calloc (Suc i) n w })"

definition find_or_grow :: "calloc \<Rightarrow> world \<Rightarrow> (u64 option \<times> world) option" where
  "find_or_grow calloc w = do {
     NS \<leftarrow> find_free_ng w;
     if NS \<noteq> 0 then Some (Some NS, w)
     else do {
       r \<leftarrow> prealloc calloc 0 (step w) w;
       case r of
         (False, w) \<Rightarrow> Some (None, w)
       | (True, w) \<Rightarrow> do {
           NS \<leftarrow> find_free_ng w;
           Some (Some NS, if step w < 256 \<and> \<not> fail w then w\<lparr>step := step w * 2\<rparr> else w) } } }"

definition allocate_node :: "calloc \<Rightarrow> world \<Rightarrow> (node \<times> world) option" where
  "allocate_node calloc w = do {
     r \<leftarrow> find_or_grow calloc w;
     case r of
       (None, w) \<Rightarrow> Some (NoNode, w)
     | (Some NS, w) \<Rightarrow> do {
         s \<leftarrow> sets w NS;
         let (r, s) = ns_allocate_node s;
         let w = w\<lparr>sets := (sets w)(NS \<mapsto> s)\<rparr>;
         w \<leftarrow> (if ns_is_full s then do { w \<leftarrow> list_del NS w; full_list_add NS w } else Some w);
         case r of
           None \<Rightarrow> Some (NoNode, w)
         | Some i \<Rightarrow> do {
             (rc, w) \<leftarrow> Insert calloc (Nd NS i) (w\<lparr>ni_used_node := ni_used_node w + 1\<rparr>);
             Some (Nd NS i, w) } } }"

definition release_node :: "node \<Rightarrow> world \<Rightarrow> world option" where
  "release_node n w =
     (case n of NoNode \<Rightarrow> None | Nd NS i \<Rightarrow> do {
        s \<leftarrow> sets w NS;
        w \<leftarrow> (if ns_is_full s then do { w \<leftarrow> list_del NS w; free_list_add NS w } else Some w);
        upd_set NS (\<lambda>s. node_Reset i (ns_release_node i s)) (w\<lparr>ni_used_node := ni_used_node w - 1\<rparr>) })"

text \<open>Statistics.\<close>

definition inc_dirty_node :: "int \<Rightarrow> world \<Rightarrow> world" where
  "inc_dirty_node v w = w\<lparr>ni_dirty_node := ni_dirty_node w + word_of_int v\<rparr>"

definition inc_dirty_row :: "int \<Rightarrow> world \<Rightarrow> world" where
  "inc_dirty_row v w = w\<lparr>ni_dirty_row := ni_dirty_row w + word_of_int v\<rparr>"

definition inc_total_row :: "int \<Rightarrow> world \<Rightarrow> world" where
  "inc_total_row v w = w\<lparr>ni_used_row := ni_used_row w + word_of_int v\<rparr>"

definition inc_empty_node :: "int \<Rightarrow> world \<Rightarrow> world" where
  "inc_empty_node v w = w\<lparr>emptyCnt := emptyCnt w + v\<rparr>"

definition max_node_id :: "world \<Rightarrow> u32" where
  "max_node_id w = ni_used_ng w * 256 - 1"

text \<open>The heads of the node lists and the operations on them.\<close>

definition dirty_node_head :: "world \<Rightarrow> node" where
  "dirty_node_head w = (if ni_sys_zone w = 0 then NoNode else Nd (ni_sys_zone w) 0)"

definition clean_node_head :: "world \<Rightarrow> node" where
  "clean_node_head w = (if ni_sys_zone w = 0 then NoNode else Nd (ni_sys_zone w) 1)"

definition empty_node_head :: "world \<Rightarrow> node" where
  "empty_node_head w = (if ni_sys_zone w = 0 then NoNode else Nd (ni_sys_zone w) 2)"

definition insert2_dirty_lru :: "node \<Rightarrow> world \<Rightarrow> world option" where
  "insert2_dirty_lru n w = NODE_LIST_ADD n (Nd (ni_sys_zone w) 0) w"

definition insert2_clean_lru :: "node \<Rightarrow> world \<Rightarrow> world option" where
  "insert2_clean_lru n w = NODE_LIST_ADD n (Nd (ni_sys_zone w) 1) w"

definition insert2_empty_lru :: "node \<Rightarrow> world \<Rightarrow> world option" where
  "insert2_empty_lru n w = NODE_LIST_ADD n (Nd (ni_sys_zone w) 2) w"

definition remove_from_lru :: "node \<Rightarrow> world \<Rightarrow> world option" where
  "remove_from_lru n w = NODE_LIST_DEL n w"

text \<open>The system group.\<close>

definition init_head :: "u64 \<Rightarrow> nat \<Rightarrow> world \<Rightarrow> world option" where
  "init_head h i w = do { nid \<leftarrow> node_id w (Nd h i); INIT_NODE_LIST_HEAD (Nd h i) nid w }"

definition system_reserved_init :: "calloc \<Rightarrow> u64 \<Rightarrow> world \<Rightarrow> (int \<times> world) option" where
  "system_reserved_init calloc h w = do {
     s \<leftarrow> sets w h;
     case ns_allocate_node s of
       (None, s) \<Rightarrow> Some (-2, w\<lparr>sets := (sets w)(h \<mapsto> s)\<rparr>)
     | (Some d, s) \<Rightarrow> (case ns_allocate_node s of
         (None, s) \<Rightarrow> Some (-3, w\<lparr>sets := (sets w)(h \<mapsto> s)\<rparr>)
       | (Some c, s) \<Rightarrow> (case ns_allocate_node s of
           (None, s) \<Rightarrow> Some (-3, w\<lparr>sets := (sets w)(h \<mapsto> s)\<rparr>)
         | (Some e, s) \<Rightarrow> do {
             let w = w\<lparr>sets := (sets w)(h \<mapsto> s)\<rparr>;
             w \<leftarrow> init_head h d w; w \<leftarrow> init_head h c w; w \<leftarrow> init_head h e w;
             (r1, w) \<leftarrow> Insert calloc (Nd h d) w; (r2, w) \<leftarrow> Insert calloc (Nd h c) w; (r3, w) \<leftarrow> Insert calloc (Nd h e) w;
             Some (0, w) })) }"

definition system_reserved_check :: "calloc \<Rightarrow> u64 \<Rightarrow> world \<Rightarrow> (int \<times> world) option" where
  "system_reserved_check calloc h w = do {
     s \<leftarrow> sets w h;
     if unat (ng_free s) < 2 then Some (-10, w)
     else if unat (ng_free s) \<ge> 3 then Some (0, w)
     else (case ns_allocate_node s of
         (None, s) \<Rightarrow> Some (-3, w\<lparr>sets := (sets w)(h \<mapsto> s)\<rparr>)
       | (Some e, s) \<Rightarrow> do {
           w \<leftarrow> init_head h e (w\<lparr>sets := (sets w)(h \<mapsto> s)\<rparr>);
           (r, w) \<leftarrow> Insert calloc (Nd h e) w;
           Some (1, w) }) }"

definition InitHeader :: "calloc \<Rightarrow> world \<Rightarrow> (int \<times> world) option" where
  "InitHeader calloc w = do {
     w \<leftarrow> INIT_NG_LIST_HEAD (ni_free_head w) w;
     w \<leftarrow> INIT_NG_LIST_HEAD (ni_full_head w) w;
     let w = w\<lparr>ni_min_id := 0\<rparr>;
     case allocate_ng calloc w of (sysNG, w) \<Rightarrow>
       if sysNG = 0 then Some (-1, w)
       else do {
         (rc, w) \<leftarrow> system_reserved_init calloc sysNG w;
         Some (0, w\<lparr>ni_sys_zone := sysNG, ni_used_ng := 1, ni_used_node := 0, ni_dirty_node := 0,
                    ni_used_row := 0, ni_dirty_row := 0\<rparr>) } }"

definition NGInfo_Init :: "calloc \<Rightarrow> world \<Rightarrow> (int \<times> world) option" where
  "NGInfo_Init calloc w =
     (let v = calloc w NG_INFO_SIZE in
      if v = INVALID_HANDLE then Some (-1, w)
      else InitHeader calloc (w\<lparr>ng_info := v, ngl := (ngl w)(v \<mapsto> (0, 0), v + 16 \<mapsto> (0, 0))\<rparr>))"

definition NGInfo_Attach :: "calloc \<Rightarrow> u64 \<Rightarrow> world \<Rightarrow> (int \<times> world) option" where
  "NGInfo_Attach calloc v w =
     (if v = INVALID_HANDLE then Some (-1, w)
      else let w = w\<lparr>ng_info := v\<rparr> in
      if ni_sys_zone w = 0 then Some (-1, w)
      else do {
        (ret, w) \<leftarrow> system_reserved_check calloc (ni_sys_zone w) w;
        Some (if ret < 0 then (ret, w)
              else (0, w\<lparr>emptyStartupMode := (if ret > 0 then UPGRADED else ATTACHED)\<rparr>)) })"

section \<open>The state of the node manager\<close>

definition live :: "world \<Rightarrow> (u64 \<times> nat) set" where
  "live w = {(h, i). \<exists>s. sets w h = Some s \<and> i \<in> ns_used s}"

definition sets_ok :: "world \<Rightarrow> bool" where
  "sets_ok w \<longleftrightarrow> sets w 0 = None \<and> unat (ni_min_id w) mod 256 = 0 \<and>
     (\<forall>h s. sets w h = Some s \<longrightarrow> ns_inv s \<and> unat (ng_nid s) mod 256 = 0 \<and> unat (ng_nid s) + 256 \<le> unat (ni_min_id w)) \<and>
     (\<forall>h h' s s'. sets w h = Some s \<longrightarrow> sets w h' = Some s' \<longrightarrow> ng_nid s = ng_nid s' \<longrightarrow> h = h')"

definition lists_ok :: "world \<Rightarrow> u64 list \<Rightarrow> u64 list \<Rightarrow> bool" where
  "lists_ok w fs gs \<longleftrightarrow>
     ngr.ring w (ni_free_head w) fs \<and> ngr.ring w (ni_full_head w) gs \<and>
     set (ni_free_head w # fs) \<inter> set (ni_full_head w # gs) = {} \<and>
     ni_free_head w \<notin> dom (sets w) \<and> ni_full_head w \<notin> dom (sets w) \<and>
     set fs \<union> set gs = dom (sets w) - {ni_sys_zone w} \<and> dom (sets w) \<subseteq> dom (ngl w) \<and>
     (\<forall>h \<in> set fs. \<not> ns_is_full (the (sets w h))) \<and> (\<forall>h \<in> set gs. ns_is_full (the (sets w h)))"

definition index_ok :: "world \<Rightarrow> bool" where
  "index_ok w \<longleftrightarrow>
     (\<forall>a. fi_h w a \<noteq> 0 \<longrightarrow> fi_h w a \<in> dom (seconds w)) \<and>
     (\<forall>a b. fi_h w a \<noteq> 0 \<longrightarrow> fi_h w a = fi_h w b \<longrightarrow> a = b) \<and>
     (\<forall>h p k. h \<in> range (fi_h w) \<longrightarrow> seconds w h = Some p \<longrightarrow> si_h p k \<noteq> 0 \<longrightarrow> si_h p k \<in> dom (sets w)) \<and>
     (\<forall>h s. sets w h = Some s \<longrightarrow> ns_used s \<noteq> {} \<longrightarrow>
        (\<exists>p. fi_h w (OFFSET1 (ng_nid s)) \<noteq> 0 \<and> seconds w (fi_h w (OFFSET1 (ng_nid s))) = Some p \<and>
             si_h p (OFFSET2 (ng_nid s)) = h))"

definition ni_inv :: "world \<Rightarrow> bool" where
  "ni_inv w \<longleftrightarrow> sets_ok w \<and> index_ok w \<and> ni_sys_zone w \<in> dom (sets w) \<and> (\<exists>fs gs. lists_ok w fs gs)"

text \<open>What the code relies on of \<^verbatim>\<open>M_CALLOC\<close>: a block it returns does not overlap a live one.\<close>

definition calloc_fresh :: "calloc \<Rightarrow> bool" where
  "calloc_fresh calloc \<longleftrightarrow>
     (\<forall>w n. calloc w n \<noteq> 0 \<longrightarrow> calloc w n \<notin> dom (sets w) \<union> dom (ngl w) \<union> dom (seconds w))"

lemma calloc_freshD:
  "calloc_fresh calloc \<Longrightarrow> calloc w n \<noteq> 0 \<Longrightarrow>
   calloc w n \<notin> dom (sets w) \<and> calloc w n \<notin> dom (ngl w) \<and> calloc w n \<notin> dom (seconds w)"
  unfolding calloc_fresh_def by blast

text \<open>The second level of the index is in place for all ids below a bound, which is what
  \<^verbatim>\<open>pre_allocate_index\<close> is for.\<close>

definition index_covers :: "world \<Rightarrow> nat \<Rightarrow> bool" where
  "index_covers w m \<longleftrightarrow> (\<forall>a. a * 2 ^ 24 < m \<longrightarrow> fi_h w a \<noteq> 0)"

section \<open>Ids and the index\<close>

lemma OFFSET1_div: "OFFSET1 i = unat i div 256 div 65536"
  unfolding OFFSET1_def unat_drop_bit_eq by (simp add: drop_bit_eq_div div_mult2_eq [symmetric])

lemma OFFSET2_div: "OFFSET2 i = unat i div 256 mod 65536"
proof -
  define m :: u32 where "m = 0xFFFF00"
  have m: "m = push_bit 8 (mask 16)" by (simp add: m_def mask_eq_exp_minus_1 push_bit_eq_mult)
  have "bit m n \<longleftrightarrow> 8 \<le> n \<and> n < 24" for n
    unfolding m bit_push_bit_iff bit_mask_iff by auto
  then have "drop_bit 8 (i AND m) = take_bit 16 (drop_bit 8 i)"
    by (intro bit_word_eqI) (auto simp: bit_take_bit_iff bit_drop_bit_eq bit_and_iff)
  then have "OFFSET2 i = unat (take_bit 16 (drop_bit 8 i))"
    unfolding OFFSET2_def m_def by (rule arg_cong)
  then show ?thesis
    unfolding unsigned_take_bit_eq unat_drop_bit_eq by (simp add: take_bit_eq_mod drop_bit_eq_div)
qed

lemma offsets_eq_iff: "OFFSET1 i = OFFSET1 j \<and> OFFSET2 i = OFFSET2 j \<longleftrightarrow> unat i div 256 = unat j div 256"
  by (metis OFFSET1_div OFFSET2_div div_mult_mod_eq)

lemma ns_node_id_unat:
  assumes "unat (ng_nid s) mod 256 = 0" "unat (ng_nid s) + 256 \<le> unat (m :: u32)" "i < 256"
  shows "unat (ns_node_id s i) = unat (ng_nid s) + i" "unat (ns_node_id s i) div 256 = unat (ng_nid s) div 256"
    "ns_node_id s i \<noteq> INVALID_NODE_ID"
proof -
  have m: "unat m < 2 ^ 32" using unsigned_less [of m, where 'a = nat] by simp
  then have "unat (ng_nid s) + i < 2 ^ 32 - 1" using assms by linarith
  then show u: "unat (ns_node_id s i) = unat (ng_nid s) + i"
    using assms(3) by (simp add: ns_node_id_def unat_word_ariths unat_of_nat)
  then show "unat (ns_node_id s i) div 256 = unat (ng_nid s) div 256"
    using assms(1,3) by (simp add: div_add1_eq)
  have "unat (INVALID_NODE_ID) = 2 ^ 32 - 1" by (simp add: unsigned_minus_1_eq_mask mask_eq_exp_minus_1)
  then show "ns_node_id s i \<noteq> INVALID_NODE_ID"
    using u \<open>unat (ng_nid s) + i < 2 ^ 32 - 1\<close> by (metis less_irrefl)
qed

lemma sets_okD:
  assumes "sets_ok w" "sets w h = Some s"
  shows "ns_inv s" "unat (ng_nid s) mod 256 = 0" "unat (ng_nid s) + 256 \<le> unat (ni_min_id w)" "h \<noteq> 0"
  using assms unfolding sets_ok_def by auto

lemma sets_ok_unique:
  "sets_ok w \<Longrightarrow> sets w h = Some s \<Longrightarrow> sets w h' = Some s' \<Longrightarrow> ng_nid s = ng_nid s' \<Longrightarrow> h = h'"
  unfolding sets_ok_def by blast

lemma ns_used_256: "ns_inv s \<Longrightarrow> i \<in> ns_used s \<Longrightarrow> i < 256"
  by (auto simp: ns_inv_def ns_used_def)

text \<open>Every allocated node is found through the index, under its own id.\<close>

lemma live_indexed:
  assumes "sets_ok w" "index_ok w" "sets w h = Some s" "i \<in> ns_used s"
  shows "indexed w (Nd h i) (ns_node_id s i)"
proof -
  have i: "i < 256" using ns_used_256 sets_okD(1) assms by blast
  note u = ns_node_id_unat [OF sets_okD(2,3) [OF assms(1,3)] i]
  obtain p where p: "fi_h w (OFFSET1 (ng_nid s)) \<noteq> 0" "seconds w (fi_h w (OFFSET1 (ng_nid s))) = Some p"
      "si_h p (OFFSET2 (ng_nid s)) = h"
    using assms(2-4) unfolding index_ok_def by blast
  have off: "OFFSET1 (ns_node_id s i) = OFFSET1 (ng_nid s)" "OFFSET2 (ns_node_id s i) = OFFSET2 (ng_nid s)"
    using u(2) offsets_eq_iff by metis+
  have "ns_node_id s i - ng_nid s = word_of_nat i" by (simp add: ns_node_id_def)
  moreover have "sint (word_of_nat i :: u32) = int i"
    using i by (simp add: signed_of_nat signed_take_bit_int_eq_self)
  ultimately have "sint (ns_node_id s i - ng_nid s) = int i" by simp
  then have "Search w (ns_node_id s i) = Some (Nd h i)"
    using u(3) p off assms(3) i sets_okD(4) [OF assms(1,3)] by (simp add: Search_def Let_def)
  then show ?thesis using assms(3) by (simp add: indexed_def node_id_def)
qed

section \<open>Groups move between the two lists\<close>

lemma ng_same: "w'\<lparr>ngl := ngl w\<rparr> = w \<Longrightarrow> w' = w\<lparr>ngl := ngl w'\<rparr>"
  by (cases w; cases w') simp

lemma NG_LIST_DEL_ring:
  assumes "ngr.ring w h xs" "p \<in> set xs"
  shows "\<exists>w'. NG_LIST_DEL p w = Some w' \<and> ngr.ring w' h (remove1 p xs) \<and> ngr.changed (set (h # xs)) w w'"
proof -
  obtain w1 where w1: "ngr.del p w = Some w1" "ngr.ring w1 h (remove1 p xs)" "ngr.changed (set (h # xs) - {p}) w w1"
    using ngr.del_ring [OF assms] by blast
  have p1: "p \<in> dom (ngl w1)" using assms ngr.changed_ok [OF w1(3)] by (simp add: ngr.ring_def)
  obtain w2 where w2: "set_ng_next p INVALID_HANDLE w1 = Some w2" "w2\<lparr>ngl := ngl w1\<rparr> = w1"
      "\<And>j. (j \<in> dom (ngl w2)) = (j \<in> dom (ngl w1))"
      "\<And>j. j \<in> dom (ngl w1) \<Longrightarrow> ng_next w2 j = (if j = p then Some INVALID_HANDLE else ng_next w1 j) \<and> ng_prev w2 j = ng_prev w1 j"
    using ngr.set_nx [OF p1, of INVALID_HANDLE] by blast
  obtain w3 where w3: "set_ng_prev p INVALID_HANDLE w2 = Some w3" "w3\<lparr>ngl := ngl w2\<rparr> = w2"
      "\<And>j. (j \<in> dom (ngl w3)) = (j \<in> dom (ngl w2))"
      "\<And>j. j \<in> dom (ngl w2) \<Longrightarrow> ng_prev w3 j = (if j = p then Some INVALID_HANDLE else ng_prev w2 j) \<and> ng_next w3 j = ng_next w2 j"
    using ngr.set_pv [of p w2 INVALID_HANDLE] p1 w2(3) by blast
  have "w3\<lparr>ngl := ngl w1\<rparr> = w1" by (rule ngr.same_trans [OF w2(2) w3(2)])
  then have ch: "ngr.changed {p} w1 w3"
    using w2(3,4) w3(3,4) unfolding ngr.changed_def by auto
  have "ngr.ring w3 h (remove1 p xs)"
    using assms by (intro ngr.ring_frame [OF w1(2) ch]) (auto simp: ngr.ring_def)
  moreover have "ngr.changed (set (h # xs)) w w3"
    using ngr.changed_trans [OF ngr.changed_mono [OF w1(3)] ngr.changed_mono [OF ch]] assms(2) by auto
  ultimately show ?thesis using w1(1) w2(1) w3(1) by (auto simp: NG_LIST_DEL_link)
qed

text \<open>The invariant without the lists depends on nothing the list operations change.\<close>

lemma ngl_only:
  "sets_ok (w\<lparr>ngl := l\<rparr>) = sets_ok w" "index_ok (w\<lparr>ngl := l\<rparr>) = index_ok w" "live (w\<lparr>ngl := l\<rparr>) = live w"
  "ni_free_head (w\<lparr>ngl := l\<rparr>) = ni_free_head w" "ni_full_head (w\<lparr>ngl := l\<rparr>) = ni_full_head w"
  by (simp_all add: sets_ok_def index_ok_def live_def ni_free_head_def ni_full_head_def)

lemma ng_same_fields:
  assumes "w'\<lparr>ngl := ngl w\<rparr> = w"
  shows "sets w' = sets w" "seconds w' = seconds w" "fi_h w' = fi_h w" "ni_sys_zone w' = ni_sys_zone w" "ni_min_id w' = ni_min_id w"
    "step w' = step w" "fail w' = fail w" "ni_used_node w' = ni_used_node w"
    "sets_ok w' = sets_ok w" "index_ok w' = index_ok w" "live w' = live w"
    "ni_free_head w' = ni_free_head w" "ni_full_head w' = ni_full_head w"
  using ngl_only [where w = w and l = "ngl w'"] by (subst ng_same [OF assms], simp)+

lemma list_move:
  assumes from_ring: "ngr.ring w a xs" and to_ring: "ngr.ring w b ys" and disj: "set (a # xs) \<inter> set (b # ys) = {}"
    and p: "p \<in> set xs"
  shows "\<exists>l. do { w \<leftarrow> NG_LIST_DEL p w; NG_LIST_ADD p b w } = Some (w\<lparr>ngl := l\<rparr>) \<and> dom l = dom (ngl w) \<and>
    ngr.ring (w\<lparr>ngl := l\<rparr>) a (remove1 p xs) \<and> ngr.ring (w\<lparr>ngl := l\<rparr>) b (p # ys)"
proof -
  obtain w1 where w1: "NG_LIST_DEL p w = Some w1" "ngr.ring w1 a (remove1 p xs)" "ngr.changed (set (a # xs)) w w1"
    using NG_LIST_DEL_ring [OF from_ring p] by blast
  have to1: "ngr.ring w1 b ys"
    using disj by (intro ngr.ring_frame [OF to_ring w1(3)]) auto
  have "p \<in> dom (ngl w1)" "p \<notin> set (b # ys)"
    using p from_ring disj ngr.changed_ok [OF w1(3)] by (auto simp: ngr.ring_def)
  then obtain w2 where w2: "NG_LIST_ADD p b w1 = Some w2" "ngr.ring w2 b (p # ys)" "ngr.changed (set (p # b # ys)) w1 w2"
    using ngr.add_ring [OF to1] by (auto simp: NG_LIST_ADD_link)
  have "set (a # remove1 p xs) \<inter> set (p # b # ys) = {}"
    using disj p from_ring set_remove1_subset [of p xs] by (auto simp: ngr.ring_def)
  then have from2: "ngr.ring w2 a (remove1 p xs)"
    by (rule ngr.ring_frame [OF w1(2) w2(3)])
  have "w2\<lparr>ngl := ngl w\<rparr> = w"
    by (rule ngr.same_trans [OF ngr.changed_same [OF w1(3)] ngr.changed_same [OF w2(3)]])
  then have w2': "w2 = w\<lparr>ngl := ngl w2\<rparr>" by (rule ng_same)
  moreover have "dom (ngl w2) = dom (ngl w)"
    using ngr.changed_ok [OF w1(3)] ngr.changed_ok [OF w2(3)] by blast
  ultimately show ?thesis using w1(1) w2(1,2) from2 by (metis bind.bind_lunit)
qed

section \<open>A new group\<close>

lemma ring_ngl_cong:
  assumes "\<And>j. j \<in> set (h # xs) \<Longrightarrow> ngl w' j = ngl w j"
  shows "ngr.ring w' h xs = ngr.ring w h xs"
proof -
  have "ngr.chain w' h xs h = ngr.chain w h xs h"
    using assms by (intro ngr.chain_cong) (simp_all add: ng_next_def ng_prev_def)
  then show ?thesis using assms by (auto simp: ngr.ring_def)
qed

lemma find_free_ng_hd:
  assumes "lists_ok w fs gs"
  shows "find_free_ng w = Some (if fs = [] then 0 else hd fs)"
proof -
  have r: "ngr.ring w (ni_free_head w) fs" using assms by (simp add: lists_ok_def)
  show ?thesis
    using ngr.ring_nx [OF r] r by (cases fs) (auto simp: find_free_ng_def NG_LIST_EMPTY_def ngr.ring_def)
qed

lemma free_group_set:
  assumes "lists_ok w fs gs" "h \<in> set fs"
  shows "\<exists>s. sets w h = Some s \<and> \<not> ns_is_full s"
proof -
  have "h \<in> dom (sets w)" "\<not> ns_is_full (the (sets w h))" using assms by (auto simp: lists_ok_def)
  then show ?thesis by auto
qed

lemma new_group:
  assumes inv: "sets_ok w" "index_ok w" "lists_ok w fs gs" and sys: "ni_sys_zone w \<in> dom (sets w)"
    and fresh: "calloc_fresh calloc" and room: "unat (ni_min_id w) + 256 < 2 ^ 32"
    and alloc: "allocate_ng calloc w = (v, w1)" "v \<noteq> 0"
  shows "\<exists>w2. free_list_add v w1 = Some w2 \<and> sets_ok w2 \<and> index_ok w2 \<and> lists_ok w2 (v # fs) gs \<and> live w2 = live w \<and>
    unat (ni_min_id w2) = unat (ni_min_id w) + 256 \<and> ni_sys_zone w2 \<in> dom (sets w2) \<and> fi_h w2 = fi_h w"
proof -
  have "v = calloc w node_set_size" using alloc by (simp add: allocate_ng_def Let_def split: if_splits)
  then have v: "v \<notin> dom (sets w)" "v \<notin> dom (ngl w)" "v \<notin> dom (seconds w)"
    using calloc_freshD [OF fresh, of w node_set_size] alloc(2) by simp_all
  have w1: "w1 = w\<lparr>sets := (sets w)(v \<mapsto> ns_init (ni_min_id w)), ngl := (ngl w)(v \<mapsto> (0, 0)),
      ni_min_id := ni_min_id w + 256, ni_used_ng := ni_used_ng w + 1\<rparr>"
    using alloc by (auto simp: allocate_ng_def Let_def split: if_splits)
  have heads: "ni_free_head w1 = ni_free_head w" "ni_full_head w1 = ni_full_head w"
    by (simp_all add: w1 ni_free_head_def ni_full_head_def)
  have rings: "ngr.ring w (ni_free_head w) fs" "ngr.ring w (ni_full_head w) gs"
    and disj: "set (ni_free_head w # fs) \<inter> set (ni_full_head w # gs) = {}"
    using inv(3) by (simp_all add: lists_ok_def)
  have notin: "v \<notin> set (ni_free_head w # fs)" "v \<notin> set (ni_full_head w # gs)"
    using rings v(2) by (auto simp: ngr.ring_def)
  have "ngl w1 j = ngl w j" if "j \<noteq> v" for j using that by (simp add: w1)
  then have "ngr.ring w1 h xs = ngr.ring w h xs" if "v \<notin> set (h # xs)" for h xs
    using that by (intro ring_ngl_cong) metis
  then have rings1: "ngr.ring w1 (ni_free_head w) fs" "ngr.ring w1 (ni_full_head w) gs"
    using rings notin by blast+
  have v1: "v \<in> dom (ngl w1)" by (simp add: w1)
  obtain w2 where w2: "free_list_add v w1 = Some w2" "ngr.ring w2 (ni_free_head w) (v # fs)"
      "ngr.changed (set (v # ni_free_head w # fs)) w1 w2"
    using ngr.add_ring [OF rings1(1) v1 notin(1)] unfolding free_list_add_def NG_LIST_ADD_link heads by blast
  have full2: "ngr.ring w2 (ni_full_head w) gs"
    using disj notin by (intro ngr.ring_frame [OF rings1(2) w2(3)]) auto
  note f2 = ng_same_fields [OF ngr.changed_same [OF w2(3)]]
  have dom2: "dom (ngl w2) = dom (ngl w1)" using ngr.changed_ok [OF w2(3)] by blast
  have u: "unat (ni_min_id w + 256) = unat (ni_min_id w) + 256"
    using room by (simp add: unat_word_ariths)
  have case1: "h = v \<and> s = ns_init (ni_min_id w) \<or> h \<noteq> v \<and> sets w h = Some s" if "sets w1 h = Some s" for h s
    using that by (auto simp: w1 split: if_splits)
  have min: "unat (ni_min_id w) mod 256 = 0" using inv(1) by (simp add: sets_ok_def)
  have "sets_ok w1"
    unfolding sets_ok_def
  proof (intro conjI allI impI)
    fix h s
    assume "sets w1 h = Some s"
    moreover have "unat (ni_min_id w1) = unat (ni_min_id w) + 256" using u by (simp add: w1)
    ultimately show "ns_inv s" "unat (ng_nid s) mod 256 = 0" "unat (ng_nid s) + 256 \<le> unat (ni_min_id w1)"
      using case1 [of h s] sets_okD [OF inv(1), of h s] min by auto
  next
    fix h h' s s'
    assume "sets w1 h = Some s" "sets w1 h' = Some s'" "ng_nid s = ng_nid s'"
    then show "h = h'"
      using case1 [of h s] case1 [of h' s'] sets_okD(3) [OF inv(1), of h s] sets_okD(3) [OF inv(1), of h' s']
        sets_ok_unique [OF inv(1)] by auto
  qed (use inv(1) alloc(2) min u in \<open>auto simp: w1 sets_ok_def\<close>)
  moreover have "index_ok w1"
    using inv(2) v unfolding index_ok_def w1 by (auto simp: domIff)
  moreover have "live w1 = live w"
    using v(1) by (auto simp: live_def w1 split: if_splits)
  moreover have "lists_ok w2 (v # fs) gs"
    using w2(2) full2 disj notin inv(3) dom2 sys v unfolding lists_ok_def f2 heads by (auto simp: w1)
  moreover have "ni_min_id w1 = ni_min_id w + 256" "ni_sys_zone w1 \<in> dom (sets w1)" "fi_h w1 = fi_h w"
    using sys by (simp_all add: w1)
  ultimately show ?thesis
    using w2(1) u f2 by auto
qed

section \<open>Growing\<close>

lemma prealloc_effect:
  assumes "calloc_fresh calloc" "sets_ok w" "index_ok w" "lists_ok w fs gs" "ni_sys_zone w \<in> dom (sets w)"
    and "unat (ni_min_id w) + 256 * n < 2 ^ 32" and "i > 0 \<Longrightarrow> fs \<noteq> []"
  shows "\<exists>b w' fs'. prealloc calloc i n w = Some (b, w') \<and> sets_ok w' \<and> index_ok w' \<and> lists_ok w' fs' gs \<and>
    ni_sys_zone w' \<in> dom (sets w') \<and> live w' = live w \<and> (b \<longrightarrow> n > 0 \<or> i > 0 \<longrightarrow> fs' \<noteq> []) \<and>
    fi_h w' = fi_h w \<and> unat (ni_min_id w') \<le> unat (ni_min_id w) + 256 * n"
  using assms
proof (induction n arbitrary: i w fs)
  case 0
  then show ?case by auto
next
  case (Suc n)
  obtain v w1 where a: "allocate_ng calloc w = (v, w1)" by fastforce
  show ?case
  proof (cases "v = 0")
    case True
    then have "w1 = w" using a by (auto simp: allocate_ng_def Let_def split: if_splits)
    moreover have "lists_ok (w\<lparr>fail := True, step := 1\<rparr>) fs gs" "sets_ok (w\<lparr>fail := True, step := 1\<rparr>)"
        "index_ok (w\<lparr>fail := True, step := 1\<rparr>)" "live (w\<lparr>fail := True, step := 1\<rparr>) = live w"
      using Suc.prems ring_ngl_cong [of _ _ "w\<lparr>fail := True, step := 1\<rparr>" w]
      by (simp_all add: lists_ok_def sets_ok_def index_ok_def live_def ni_free_head_def ni_full_head_def)
    ultimately show ?thesis
      using Suc.prems True a by (cases "i = 0") auto
  next
    case False
    obtain w2 where w2: "free_list_add v w1 = Some w2" "sets_ok w2" "index_ok w2" "lists_ok w2 (v # fs) gs"
        "live w2 = live w" "unat (ni_min_id w2) = unat (ni_min_id w) + 256" "ni_sys_zone w2 \<in> dom (sets w2)"
        "fi_h w2 = fi_h w"
      using new_group [OF Suc.prems(2-5,1) _ a False] Suc.prems(6) by auto
    have "unat (ni_min_id w2) + 256 * n < 2 ^ 32" using Suc.prems(6) w2(6) by simp
    then obtain b w' fs' where "prealloc calloc (Suc i) n w2 = Some (b, w')" "sets_ok w'" "index_ok w'" "lists_ok w' fs' gs"
        "ni_sys_zone w' \<in> dom (sets w')" "live w' = live w2" "b \<longrightarrow> fs' \<noteq> []" "fi_h w' = fi_h w2"
        "unat (ni_min_id w') \<le> unat (ni_min_id w2) + 256 * n"
      using Suc.IH [OF Suc.prems(1) w2(2-4,7), of "Suc i"] by auto
    then show ?thesis using a False w2(1,5,6,8) by auto
  qed
qed

lemma find_or_grow_effect:
  assumes "calloc_fresh calloc" "sets_ok w" "index_ok w" "lists_ok w fs gs" "ni_sys_zone w \<in> dom (sets w)"
    and "unat (ni_min_id w) + 256 * step w < 2 ^ 32" "step w > 0"
  shows "\<exists>r w' fs'. find_or_grow calloc w = Some (r, w') \<and> sets_ok w' \<and> index_ok w' \<and> lists_ok w' fs' gs \<and>
    ni_sys_zone w' \<in> dom (sets w') \<and> live w' = live w \<and> (\<forall>NS. r = Some NS \<longrightarrow> fs' \<noteq> [] \<and> NS = hd fs') \<and>
    fi_h w' = fi_h w \<and> unat (ni_min_id w') \<le> unat (ni_min_id w) + 256 * step w"
proof (cases "fs = []")
  case False
  then have "hd fs \<in> set fs" by simp
  then have "hd fs \<noteq> 0" using free_group_set [OF assms(4)] assms(2) by (metis option.distinct(1) sets_ok_def)
  then have "find_or_grow calloc w = Some (Some (hd fs), w)"
    using find_free_ng_hd [OF assms(4)] False by (simp add: find_or_grow_def)
  then show ?thesis using assms False by auto
next
  case True
  then have ff: "find_free_ng w = Some 0" using find_free_ng_hd [OF assms(4)] by simp
  obtain b w1 fs1 where g: "prealloc calloc 0 (step w) w = Some (b, w1)" "sets_ok w1" "index_ok w1" "lists_ok w1 fs1 gs"
      "ni_sys_zone w1 \<in> dom (sets w1)" "live w1 = live w" "b \<longrightarrow> fs1 \<noteq> []"
      "fi_h w1 = fi_h w" "unat (ni_min_id w1) \<le> unat (ni_min_id w) + 256 * step w"
    using prealloc_effect [OF assms(1-6), of 0] assms(7) by auto
  show ?thesis
  proof (cases b)
    case False
    then have "find_or_grow calloc w = Some (None, w1)" using g(1) ff by (simp add: find_or_grow_def)
    then show ?thesis using g by blast
  next
    case True
    define w2 where "w2 = (if step w1 < 256 \<and> \<not> fail w1 then w1\<lparr>step := step w1 * 2\<rparr> else w1)"
    have "find_or_grow calloc w = Some (Some (hd fs1), w2)"
      using g True ff find_free_ng_hd [OF g(4)] by (simp add: find_or_grow_def w2_def)
    moreover have "sets_ok w2" "index_ok w2" "lists_ok w2 fs1 gs" "ni_sys_zone w2 \<in> dom (sets w2)" "live w2 = live w"
        "fi_h w2 = fi_h w" "ni_min_id w2 = ni_min_id w1"
      using g(2-6,8) ring_ngl_cong [of _ _ "w1\<lparr>step := step w1 * 2\<rparr>" w1]
      by (simp_all add: w2_def lists_ok_def sets_ok_def index_ok_def live_def ni_free_head_def ni_full_head_def)
    ultimately show ?thesis using g(7,9) True by auto
  qed
qed

section \<open>Taking a node out of a group\<close>

definition index_except :: "world \<Rightarrow> u64 \<Rightarrow> bool" where
  "index_except w NS \<longleftrightarrow>
     (\<forall>a. fi_h w a \<noteq> 0 \<longrightarrow> fi_h w a \<in> dom (seconds w)) \<and>
     (\<forall>a b. fi_h w a \<noteq> 0 \<longrightarrow> fi_h w a = fi_h w b \<longrightarrow> a = b) \<and>
     (\<forall>h p k. h \<in> range (fi_h w) \<longrightarrow> seconds w h = Some p \<longrightarrow> si_h p k \<noteq> 0 \<longrightarrow> si_h p k \<in> dom (sets w)) \<and>
     (\<forall>h s. h \<noteq> NS \<longrightarrow> sets w h = Some s \<longrightarrow> ns_used s \<noteq> {} \<longrightarrow>
        (\<exists>p. fi_h w (OFFSET1 (ng_nid s)) \<noteq> 0 \<and> seconds w (fi_h w (OFFSET1 (ng_nid s))) = Some p \<and>
             si_h p (OFFSET2 (ng_nid s)) = h))"

lemma update_group:
  assumes "sets_ok w" "sets w h = Some s" "ns_inv s'" "ng_nid s' = ng_nid s"
  shows "sets_ok (w\<lparr>sets := (sets w)(h \<mapsto> s')\<rparr>)"
proof -
  have old: "\<exists>t0. sets w g = Some t0 \<and> ng_nid t = ng_nid t0 \<and> ns_inv t" if "((sets w)(h \<mapsto> s')) g = Some t" for g t
    using that assms sets_okD(1) [OF assms(1)] by (auto split: if_splits)
  show ?thesis
    unfolding sets_ok_def
  proof (intro conjI allI impI)
    fix g t
    assume "sets (w\<lparr>sets := (sets w)(h \<mapsto> s')\<rparr>) g = Some t"
    then obtain t0 where t0: "sets w g = Some t0" "ng_nid t = ng_nid t0" "ns_inv t" using old [of g t] by auto
    show "ns_inv t" "unat (ng_nid t) mod 256 = 0" "unat (ng_nid t) + 256 \<le> unat (ni_min_id (w\<lparr>sets := (sets w)(h \<mapsto> s')\<rparr>))"
      using sets_okD [OF assms(1) t0(1)] t0 by simp_all
  next
    fix g g' t t'
    assume "sets (w\<lparr>sets := (sets w)(h \<mapsto> s')\<rparr>) g = Some t" "sets (w\<lparr>sets := (sets w)(h \<mapsto> s')\<rparr>) g' = Some t'"
      "ng_nid t = ng_nid t'"
    then show "g = g'" using old [of g t] old [of g' t'] sets_ok_unique [OF assms(1)] by auto
  qed (use assms sets_okD(4) [OF assms(1,2)] in \<open>auto simp: sets_ok_def\<close>)
qed

lemma lists_update_group:
  assumes "lists_ok w fs gs" "sets w h = Some s" "ns_is_full s' = ns_is_full s"
  shows "lists_ok (w\<lparr>sets := (sets w)(h \<mapsto> s')\<rparr>) fs gs"
  using assms ring_ngl_cong [of _ _ "w\<lparr>sets := (sets w)(h \<mapsto> s')\<rparr>" w]
  by (auto simp: lists_ok_def ni_free_head_def ni_full_head_def insert_absorb domI)

text \<open>A group that becomes full moves to the other list.\<close>

lemma lists_fill_group:
  assumes "lists_ok w fs gs" "NS \<in> set fs" "sets w NS = Some s" "ns_is_full s'"
  defines "w1 \<equiv> w\<lparr>sets := (sets w)(NS \<mapsto> s')\<rparr>"
  shows "\<exists>l. do { w \<leftarrow> list_del NS w1; full_list_add NS w } = Some (w1\<lparr>ngl := l\<rparr>) \<and>
    lists_ok (w1\<lparr>ngl := l\<rparr>) (remove1 NS fs) (NS # gs)"
proof -
  have rings: "ngr.ring w1 (ni_free_head w1) fs" "ngr.ring w1 (ni_full_head w1) gs"
    and disj: "set (ni_free_head w1 # fs) \<inter> set (ni_full_head w1 # gs) = {}"
    using assms(1) ring_ngl_cong [of _ _ w1 w] by (simp_all add: lists_ok_def w1_def ni_free_head_def ni_full_head_def)
  obtain l where l: "do { w \<leftarrow> NG_LIST_DEL NS w1; NG_LIST_ADD NS (ni_full_head w1) w } = Some (w1\<lparr>ngl := l\<rparr>)"
      "dom l = dom (ngl w1)" "ngr.ring (w1\<lparr>ngl := l\<rparr>) (ni_free_head w1) (remove1 NS fs)"
      "ngr.ring (w1\<lparr>ngl := l\<rparr>) (ni_full_head w1) (NS # gs)"
    using list_move [OF rings disj assms(2)] by blast
  obtain w2 where w2: "NG_LIST_DEL NS w1 = Some w2" "ngr.changed (set (ni_free_head w1 # fs)) w1 w2"
    using NG_LIST_DEL_ring [OF rings(1) assms(2)] by blast
  have "ni_full_head w2 = ni_full_head w1" by (rule ng_same_fields(13) [OF ngr.changed_same [OF w2(2)]])
  then have "do { w \<leftarrow> list_del NS w1; full_list_add NS w } = Some (w1\<lparr>ngl := l\<rparr>)"
    using l(1) w2(1) by (simp add: list_del_def full_list_add_def)
  moreover have "distinct fs" "NS \<notin> set (ni_free_head w1 # gs)" "NS \<noteq> ni_full_head w1"
    using rings disj assms(2) by (auto simp: ngr.ring_def)
  then have "lists_ok (w1\<lparr>ngl := l\<rparr>) (remove1 NS fs) (NS # gs)"
    using assms(1,2,4) l(2-4) disj assms(3) unfolding lists_ok_def ngl_only
    by (auto simp: w1_def ni_free_head_def ni_full_head_def)
  ultimately show ?thesis by blast
qed

text \<open>A full group that gets a node back moves to the list of groups with free nodes.\<close>

lemma lists_free_group:
  assumes "lists_ok w fs gs" "NS \<in> set gs" "sets w NS = Some s" "\<not> ns_is_full s'"
  shows "\<exists>l. do { w \<leftarrow> list_del NS w; free_list_add NS w } = Some (w\<lparr>ngl := l\<rparr>) \<and>
    lists_ok (w\<lparr>sets := (sets w)(NS \<mapsto> s'), ngl := l\<rparr>) (NS # fs) (remove1 NS gs)"
proof -
  have rings: "ngr.ring w (ni_full_head w) gs" "ngr.ring w (ni_free_head w) fs"
    and disj: "set (ni_full_head w # gs) \<inter> set (ni_free_head w # fs) = {}"
    using assms(1) by (auto simp: lists_ok_def)
  obtain l where l: "do { w \<leftarrow> NG_LIST_DEL NS w; NG_LIST_ADD NS (ni_free_head w) w } = Some (w\<lparr>ngl := l\<rparr>)"
      "dom l = dom (ngl w)" "ngr.ring (w\<lparr>ngl := l\<rparr>) (ni_full_head w) (remove1 NS gs)"
      "ngr.ring (w\<lparr>ngl := l\<rparr>) (ni_free_head w) (NS # fs)"
    using list_move [OF rings disj assms(2)] NG_LIST_DEL_ring [OF rings(1) assms(2)]
      ng_same_fields(12) [OF ngr.changed_same] by (metis (no_types, lifting) bind.bind_lunit)
  have r: "ngr.ring (w\<lparr>sets := (sets w)(NS \<mapsto> s'), ngl := l\<rparr>) (ni_full_head w) (remove1 NS gs)"
      "ngr.ring (w\<lparr>sets := (sets w)(NS \<mapsto> s'), ngl := l\<rparr>) (ni_free_head w) (NS # fs)"
    using l(3,4) ring_ngl_cong [of _ _ "w\<lparr>sets := (sets w)(NS \<mapsto> s'), ngl := l\<rparr>" "w\<lparr>ngl := l\<rparr>"] by simp_all
  have "do { w \<leftarrow> list_del NS w; free_list_add NS w } = Some (w\<lparr>ngl := l\<rparr>)"
    using l(1) by (simp add: list_del_def free_list_add_def)
  moreover have "distinct gs" "NS \<notin> set (ni_full_head w # fs)" "NS \<noteq> ni_free_head w"
    using rings disj assms(2) by (auto simp: ngr.ring_def)
  then have "lists_ok (w\<lparr>sets := (sets w)(NS \<mapsto> s'), ngl := l\<rparr>) (NS # fs) (remove1 NS gs)"
    using assms l(2) r disj unfolding lists_ok_def by (auto simp: ni_free_head_def ni_full_head_def)
  ultimately show ?thesis by blast
qed

section \<open>Inserting into the index\<close>

lemma index_exceptD:
  assumes "index_except w NS"
  shows "\<And>a. fi_h w a \<noteq> 0 \<Longrightarrow> \<exists>p. seconds w (fi_h w a) = Some p"
    and "\<And>a b. fi_h w a \<noteq> 0 \<Longrightarrow> fi_h w a = fi_h w b \<Longrightarrow> a = b"
    and "\<And>a p k. seconds w (fi_h w a) = Some p \<Longrightarrow> si_h p k \<noteq> 0 \<Longrightarrow> si_h p k \<in> dom (sets w)"
    and "\<And>h s. h \<noteq> NS \<Longrightarrow> sets w h = Some s \<Longrightarrow> ns_used s \<noteq> {} \<Longrightarrow>
        \<exists>p. fi_h w (OFFSET1 (ng_nid s)) \<noteq> 0 \<and> seconds w (fi_h w (OFFSET1 (ng_nid s))) = Some p \<and>
             si_h p (OFFSET2 (ng_nid s)) = h"
  using assms unfolding index_except_def by (blast, blast, blast, blast)

lemma new_second:
  assumes "index_except w NS" "calloc_fresh calloc" "fi_h w a = 0" "calloc w n \<noteq> 0"
  defines "v \<equiv> calloc w n"
  shows "index_except (w\<lparr>fi_h := (fi_h w)(a := v), seconds := (seconds w)(v \<mapsto> empty_second)\<rparr>) NS"
proof -
  note D = index_exceptD [OF assms(1)]
  have v: "v \<notin> dom (seconds w)" "v \<noteq> 0"
    using calloc_freshD [OF assms(2,4)] assms(4) by (simp_all add: v_def)
  then have v2: "v \<notin> range (fi_h w)" using D(1) by (metis domI imageE)
  let ?w = "w\<lparr>fi_h := (fi_h w)(a := v), seconds := (seconds w)(v \<mapsto> empty_second)\<rparr>"
  show ?thesis
    unfolding index_except_def
  proof (intro conjI allI impI)
    fix b
    assume "fi_h ?w b \<noteq> 0"
    then show "fi_h ?w b \<in> dom (seconds ?w)" using D(1) [of b] by auto
  next
    fix b c
    assume "fi_h ?w b \<noteq> 0" "fi_h ?w b = fi_h ?w c"
    then show "b = c" using D(2) [of b c] v2 by (auto split: if_splits)
  next
    fix h p k
    assume "h \<in> range (fi_h ?w)" "seconds ?w h = Some p" "si_h p k \<noteq> 0"
    then show "si_h p k \<in> dom (sets ?w)" using D(3) [of _ p k] by (auto simp: empty_second_def split: if_splits)
  next
    fix h s
    assume "h \<noteq> NS" "sets ?w h = Some s" "ns_used s \<noteq> {}"
    then obtain p where p: "fi_h w (OFFSET1 (ng_nid s)) \<noteq> 0" "seconds w (fi_h w (OFFSET1 (ng_nid s))) = Some p"
        "si_h p (OFFSET2 (ng_nid s)) = h" using D(4) by auto
    then have "OFFSET1 (ng_nid s) \<noteq> a" "fi_h w (OFFSET1 (ng_nid s)) \<noteq> v" using assms(3) v by auto
    then show "\<exists>p. fi_h ?w (OFFSET1 (ng_nid s)) \<noteq> 0 \<and> seconds ?w (fi_h ?w (OFFSET1 (ng_nid s))) = Some p \<and>
        si_h p (OFFSET2 (ng_nid s)) = h" using p by simp
  qed
qed

lemma set_slot:
  fixes n :: u32
  assumes ex: "index_except w NS" and ok: "sets_ok w" and NS: "sets w NS = Some s"
    and p: "fi_h w (OFFSET1 (ng_nid s)) \<noteq> 0" "seconds w (fi_h w (OFFSET1 (ng_nid s))) = Some p"
  defines "p' \<equiv> p\<lparr>si_used := n, si_h := (si_h p)(OFFSET2 (ng_nid s) := NS)\<rparr>"
  shows "index_ok (w\<lparr>seconds := (seconds w)(fi_h w (OFFSET1 (ng_nid s)) \<mapsto> p')\<rparr>)"
proof -
  note D = index_exceptD [OF ex]
  let ?h1 = "fi_h w (OFFSET1 (ng_nid s))"
  let ?w = "w\<lparr>seconds := (seconds w)(?h1 \<mapsto> p')\<rparr>"
  show ?thesis
    unfolding index_ok_def
  proof (intro conjI allI impI)
    fix b
    assume "fi_h ?w b \<noteq> 0"
    then show "fi_h ?w b \<in> dom (seconds ?w)" using D(1) [of b] by auto
  next
    fix b c
    assume "fi_h ?w b \<noteq> 0" "fi_h ?w b = fi_h ?w c"
    then show "b = c" using D(2) [of b c] by simp
  next
    fix h q k
    assume h: "h \<in> range (fi_h ?w)" "seconds ?w h = Some q" "si_h q k \<noteq> 0"
    show "si_h q k \<in> dom (sets ?w)"
    proof (cases "h = ?h1")
      case True
      then show ?thesis using h D(3) [OF p(2), of k] NS by (auto simp: p'_def split: if_splits)
    next
      case False
      then show ?thesis using h D(3) [of _ q k] by auto
    qed
  next
    fix h t
    assume h: "sets ?w h = Some t" "ns_used t \<noteq> {}"
    show "\<exists>q. fi_h ?w (OFFSET1 (ng_nid t)) \<noteq> 0 \<and> seconds ?w (fi_h ?w (OFFSET1 (ng_nid t))) = Some q \<and>
        si_h q (OFFSET2 (ng_nid t)) = h"
    proof (cases "h = NS")
      case True
      then show ?thesis using h NS p by (simp add: p'_def)
    next
      case False
      have ht: "sets w h = Some t" using h(1) by simp
      obtain q where q: "fi_h w (OFFSET1 (ng_nid t)) \<noteq> 0" "seconds w (fi_h w (OFFSET1 (ng_nid t))) = Some q"
          "si_h q (OFFSET2 (ng_nid t)) = h"
        using D(4) [OF False ht h(2)] by blast
      have "OFFSET1 (ng_nid t) \<noteq> OFFSET1 (ng_nid s) \<or> OFFSET2 (ng_nid t) \<noteq> OFFSET2 (ng_nid s)"
      proof (rule ccontr)
        assume "\<not> ?thesis"
        then have "unat (ng_nid t) div 256 = unat (ng_nid s) div 256" using offsets_eq_iff by blast
        then have "unat (ng_nid t) = unat (ng_nid s)"
          using sets_okD(2) [OF ok ht] sets_okD(2) [OF ok NS] by (metis div_mult_mod_eq)
        then have "ng_nid t = ng_nid s" by (rule unsigned_word_eqI)
        then show False using sets_ok_unique [OF ok ht NS] False by blast
      qed
      then show ?thesis using q p D(2) [OF q(1), of "OFFSET1 (ng_nid s)"] by (auto simp: p'_def)
    qed
  qed
qed

lemma Insert_effect:
  assumes "sets_ok w" "index_except w NS" "sets w NS = Some s" "i < 256" "calloc_fresh calloc"
    and "fi_h w (OFFSET1 (ng_nid s)) \<noteq> 0 \<or> calloc w INDEX_2_SIZE \<noteq> 0"
  shows "\<exists>f g. Insert calloc (Nd NS i) w = Some (0, w\<lparr>fi_h := f, seconds := g\<rparr>) \<and> index_ok (w\<lparr>fi_h := f, seconds := g\<rparr>)"
proof -
  have off: "OFFSET1 (ns_node_id s i) = OFFSET1 (ng_nid s)" "OFFSET2 (ns_node_id s i) = OFFSET2 (ng_nid s)"
    using ns_node_id_unat(2) [OF sets_okD(2,3) [OF assms(1,3)] assms(4)] offsets_eq_iff by metis+
  define a where "a = OFFSET1 (ng_nid s)"
  define w1 where "w1 = (if fi_h w a = 0
      then w\<lparr>fi_h := (fi_h w)(a := calloc w INDEX_2_SIZE), seconds := (seconds w)(calloc w INDEX_2_SIZE \<mapsto> empty_second)\<rparr> else w)"
  have ci: "fi_h w a \<noteq> 0 \<or> calloc w INDEX_2_SIZE \<noteq> 0" using assms(6) by (simp add: a_def)
  have ex1: "index_except w1 NS" and nz: "fi_h w1 a \<noteq> 0"
    using new_second [OF assms(2,5)] assms(2) ci by (auto simp: w1_def)
  have s1: "sets w1 = sets w" and ok1: "sets_ok w1" using assms(1) by (simp_all add: w1_def sets_ok_def)
  obtain p where p: "seconds w1 (fi_h w1 a) = Some p" using index_exceptD(1) [OF ex1 nz] by blast
  let ?w2 = "w1\<lparr>seconds := (seconds w1)(fi_h w1 a \<mapsto> p\<lparr>si_used := si_used p + 1, si_h := (si_h p)(OFFSET2 (ng_nid s) := NS)\<rparr>)\<rparr>"
  have "index_ok ?w2"
    using set_slot [OF ex1 ok1, of s p] assms(3) s1 nz p by (simp add: a_def)
  moreover have "Insert calloc (Nd NS i) w = Some (0, ?w2)"
    using assms(3) nz p ci by (simp add: Insert_def node_id_def off w1_def a_def Let_def split: if_splits)
  moreover have "?w2 = w\<lparr>fi_h := fi_h ?w2, seconds := seconds ?w2\<rparr>" by (simp add: w1_def)
  ultimately show ?thesis by metis
qed

section \<open>Allocating and releasing nodes\<close>

lemma used_node_only:
  "sets_ok (w\<lparr>ni_used_node := n\<rparr>) = sets_ok w" "index_ok (w\<lparr>ni_used_node := n\<rparr>) = index_ok w"
  "index_except (w\<lparr>ni_used_node := n\<rparr>) NS = index_except w NS" "lists_ok (w\<lparr>ni_used_node := n\<rparr>) fs gs = lists_ok w fs gs"
  "live (w\<lparr>ni_used_node := n\<rparr>) = live w"
  using ring_ngl_cong [of _ _ "w\<lparr>ni_used_node := n\<rparr>" w]
  by (simp_all add: sets_ok_def index_ok_def index_except_def lists_ok_def live_def ni_free_head_def ni_full_head_def)

lemma index_only:
  "sets_ok (w\<lparr>fi_h := f, seconds := g\<rparr>) = sets_ok w" "lists_ok (w\<lparr>fi_h := f, seconds := g\<rparr>) fs gs = lists_ok w fs gs"
  "live (w\<lparr>fi_h := f, seconds := g\<rparr>) = live w"
  using ring_ngl_cong [of _ _ "w\<lparr>fi_h := f, seconds := g\<rparr>" w]
  by (simp_all add: sets_ok_def lists_ok_def live_def ni_free_head_def ni_full_head_def)

lemma index_except_update:
  assumes "index_ok w" "sets w NS = Some s"
  shows "index_except (w\<lparr>sets := (sets w)(NS \<mapsto> s')\<rparr>) NS"
  using assms unfolding index_ok_def index_except_def by (auto simp: insert_absorb domI)

lemma index_except_ngl: "index_except (w\<lparr>ngl := l\<rparr>) NS = index_except w NS"
  by (simp add: index_except_def)

lemma live_update:
  "sets w h = Some s \<Longrightarrow> live (w\<lparr>sets := (sets w)(h \<mapsto> s')\<rparr>) = (live w - {h} \<times> UNIV) \<union> {h} \<times> ns_used s'"
  by (auto simp: live_def split: if_splits)

lemma live_group: "sets w h = Some s \<Longrightarrow> (h, i) \<in> live w \<longleftrightarrow> i \<in> ns_used s"
  by (simp add: live_def)

lemma allocate_node_effect:
  assumes "calloc_fresh calloc" "ni_inv w"
    and room: "unat (ni_min_id w) + 256 * step w < 2 ^ 32" "step w > 0" "index_covers w (unat (ni_min_id w) + 256 * step w)"
  shows "\<exists>n w'. allocate_node calloc w = Some (n, w') \<and> ni_inv w' \<and>
    (case n of NoNode \<Rightarrow> live w' = live w
     | Nd h i \<Rightarrow> (h, i) \<notin> live w \<and> live w' = insert (h, i) (live w))"
proof -
  obtain fs gs where inv: "sets_ok w" "index_ok w" "lists_ok w fs gs" "ni_sys_zone w \<in> dom (sets w)"
    using assms(2) by (auto simp: ni_inv_def)
  obtain r w1 fs1 where g: "find_or_grow calloc w = Some (r, w1)" "sets_ok w1" "index_ok w1" "lists_ok w1 fs1 gs"
      "ni_sys_zone w1 \<in> dom (sets w1)" "live w1 = live w" "\<And>NS. r = Some NS \<Longrightarrow> fs1 \<noteq> [] \<and> NS = hd fs1"
      "fi_h w1 = fi_h w" "unat (ni_min_id w1) \<le> unat (ni_min_id w) + 256 * step w"
    using find_or_grow_effect [OF assms(1) inv room(1,2)] by blast
  show ?thesis
  proof (cases r)
    case None
    then show ?thesis using g by (auto simp: allocate_node_def ni_inv_def)
  next
    case (Some NS)
    then have NS: "NS \<in> set fs1" using g(7) by (metis list.set_sel(1))
    then obtain s where s: "sets w1 NS = Some s" "\<not> ns_is_full s" using free_group_set [OF g(4)] by blast
    obtain q s' where q: "ns_allocate_node s = (q, s')" by fastforce
    then obtain i where i: "q = Some i" "i < 256" "i \<notin> ns_used s" "ns_used s' = insert i (ns_used s)" "ns_inv s'" "ng_nid s' = ng_nid s"
      using ns_allocate_cases [OF sets_okD(1) [OF g(2) s(1)] q] s(2) by (cases q) auto
    define w2 where "w2 = w1\<lparr>sets := (sets w1)(NS \<mapsto> s')\<rparr>"
    have ok2: "sets_ok w2" "index_except w2 NS" "sets w2 NS = Some s'" "ni_sys_zone w2 \<in> dom (sets w2)"
      using update_group [OF g(2) s(1) i(5,6)] index_except_update [OF g(3) s(1)] g(5) by (simp_all add: w2_def)
    have live2: "live w2 = insert (NS, i) (live w)" "(NS, i) \<notin> live w"
      using live_update [OF s(1), of s'] i(3,4) live_group [OF s(1)] by (auto simp: w2_def simp flip: g(6))
    obtain l fs2 gs2 where l: "(if ns_is_full s' then do { w \<leftarrow> list_del NS w2; full_list_add NS w } else Some w2) =
        Some (w2\<lparr>ngl := l\<rparr>)" "lists_ok (w2\<lparr>ngl := l\<rparr>) fs2 gs2"
    proof (cases "ns_is_full s'")
      case True
      then show ?thesis using lists_fill_group [OF g(4) NS s(1)] that by (auto simp: w2_def)
    next
      case False
      have "w2 = w2\<lparr>ngl := ngl w2\<rparr>" by simp
      then show ?thesis using lists_update_group [OF g(4) s(1)] s(2) False that [of "ngl w2"] by (auto simp: w2_def)
    qed
    have moved: "ns_is_full s' \<Longrightarrow> \<exists>wa. list_del NS w2 = Some wa \<and> full_list_add NS wa = Some (w2\<lparr>ngl := l\<rparr>)"
      and stayed: "\<not> ns_is_full s' \<Longrightarrow> w2\<lparr>ngl := l\<rparr> = w2"
      using l(1) by (simp_all add: bind_eq_Some_conv)
    define w4 where "w4 = w2\<lparr>ngl := l, ni_used_node := ni_used_node w2 + 1\<rparr>"
    have w4: "w4 = (w2\<lparr>ngl := l\<rparr>)\<lparr>ni_used_node := ni_used_node w2 + 1\<rparr>" by (simp add: w4_def)
    have ok4: "sets_ok w4" "index_except w4 NS" "sets w4 NS = Some s'" "lists_ok w4 fs2 gs2" "live w4 = live w2"
        "ni_sys_zone w4 \<in> dom (sets w4)"
      using ok2 l(2) unfolding w4 by (simp_all add: used_node_only ngl_only index_except_ngl)
    have "OFFSET1 (ng_nid s') * 2 ^ 24 \<le> unat (ng_nid s')"
      by (simp add: OFFSET1_div div_mult2_eq [symmetric])
    then have covered: "fi_h w4 (OFFSET1 (ng_nid s')) \<noteq> 0"
      using room(3) sets_okD(3) [OF g(2) s(1)] g(8,9) i(6) unfolding index_covers_def by (simp add: w4_def w2_def)
    obtain f g' where ins: "Insert calloc (Nd NS i) w4 = Some (0, w4\<lparr>fi_h := f, seconds := g'\<rparr>)"
        "index_ok (w4\<lparr>fi_h := f, seconds := g'\<rparr>)"
      using Insert_effect [OF ok4(1,2,3) i(2) assms(1)] covered by blast
    have "allocate_node calloc w = Some (Nd NS i, w4\<lparr>fi_h := f, seconds := g'\<rparr>)"
      using g(1) Some s(1) q i(1) ins(1) moved stayed
      by (cases "ns_is_full s'") (auto simp: allocate_node_def Let_def w4 simp flip: w2_def)
    moreover have "ni_inv (w4\<lparr>fi_h := f, seconds := g'\<rparr>)"
      using ok4 ins(2) by (auto simp: ni_inv_def index_only)
    ultimately show ?thesis using live2 ok4(5) by (simp add: index_only)
  qed
qed

lemma release_node_effect:
  assumes "ni_inv w" "(h, i) \<in> live w" "h \<noteq> ni_sys_zone w \<or> \<not> ns_is_full (the (sets w h))"
  shows "\<exists>w'. release_node (Nd h i) w = Some w' \<and> ni_inv w' \<and> live w' = live w - {(h, i)}"
proof -
  obtain fs gs where inv: "sets_ok w" "index_ok w" "lists_ok w fs gs" "ni_sys_zone w \<in> dom (sets w)"
    using assms(1) by (auto simp: ni_inv_def)
  obtain s where s: "sets w h = Some s" "i \<in> ns_used s" using assms(2) by (auto simp: live_def)
  define s' where "s' = node_Reset i (ns_release_node i s)"
  have s': "ns_used s' = ns_used s - {i}" "ns_inv s'" "ng_nid s' = ng_nid s"
    using ns_release_effect [OF sets_okD(1) [OF inv(1) s(1)] s(2)] by (simp_all add: s'_def ns_release_node_def)
  have nfull: "\<not> ns_is_full s'"
    using ns_full_used [OF s'(2)] s'(1) s(2) ns_used_256 [OF sets_okD(1) [OF inv(1) s(1)] s(2)] by auto
  obtain l fs2 gs2 where l: "(if ns_is_full s then do { w \<leftarrow> list_del h w; free_list_add h w } else Some w) = Some (w\<lparr>ngl := l\<rparr>)"
      "lists_ok (w\<lparr>sets := (sets w)(h \<mapsto> s'), ngl := l\<rparr>) fs2 gs2"
  proof (cases "ns_is_full s")
    case True
    then have "h \<in> set fs \<union> set gs" using inv(3) s(1) assms(3) by (auto simp: lists_ok_def)
    then have "h \<in> set gs" using True inv(3) s(1) by (auto simp: lists_ok_def)
    then show ?thesis using lists_free_group [OF inv(3) _ s(1) nfull] that True by auto
  next
    case False
    have "lists_ok (w\<lparr>sets := (sets w)(h \<mapsto> s'), ngl := ngl w\<rparr>) fs gs"
      using lists_update_group [OF inv(3) s(1), of s'] False nfull by simp
    then show ?thesis using False that [of "ngl w"] by simp
  qed
  define w' where "w' = w\<lparr>sets := (sets w)(h \<mapsto> s'), ngl := l, ni_used_node := ni_used_node w - 1\<rparr>"
  have w': "w' = (w\<lparr>sets := (sets w)(h \<mapsto> s')\<rparr>)\<lparr>ngl := l\<rparr>\<lparr>ni_used_node := ni_used_node w - 1\<rparr>" by (simp add: w'_def)
  have rel: "release_node (Nd h i) w = Some w'"
    using s(1) l(1) by (simp add: release_node_def upd_set_def w'_def s'_def)
  have slot: "\<exists>p. fi_h w (OFFSET1 (ng_nid s)) \<noteq> 0 \<and> seconds w (fi_h w (OFFSET1 (ng_nid s))) = Some p \<and>
      si_h p (OFFSET2 (ng_nid s)) = h"
    using inv(2) s unfolding index_ok_def by blast
  then have "index_ok (w\<lparr>sets := (sets w)(h \<mapsto> s')\<rparr>)"
    using inv(2) s s'(1,3) slot unfolding index_ok_def by (auto simp: insert_absorb domI)
  then have "sets_ok w'" "index_ok w'" "ni_sys_zone w' \<in> dom (sets w')"
    using update_group [OF inv(1) s(1) s'(2,3)] inv(4) unfolding w' by (simp_all add: used_node_only ngl_only)
  moreover have "lists_ok w' fs2 gs2"
    using l(2) unfolding w' used_node_only by simp
  ultimately have "ni_inv w'" unfolding ni_inv_def by blast
  moreover have "live w' = live w - {(h, i)}"
    unfolding w' used_node_only ngl_only live_update [OF s(1)] s'(1) using live_group [OF s(1)] by auto
  ultimately show ?thesis using rel by blast
qed

section \<open>Initialisation\<close>

text \<open>A fresh process: no memory handed out yet.\<close>

definition blank :: "nat \<Rightarrow> world" where
  "blank k = \<lparr>sets = Map.empty, ngl = Map.empty, seconds = Map.empty, fi_h = (\<lambda>_. 0), ng_info = 0, ni_min_id = 0,
     ni_sys_zone = 0, ni_used_ng = 0, ni_used_node = 0, ni_dirty_node = 0, ni_used_row = 0, ni_dirty_row = 0,
     emptyCnt = 0, emptyStartupMode = CREATED, step = k, fail = False\<rparr>"

lemma pre_allocate_loop_effect:
  assumes "calloc_fresh calloc" "index_except w NS" "\<forall>a \<ge> i. fi_h w a = 0" "pre_allocate_loop calloc i n w = (0, w')"
  shows "\<exists>f g. w' = w\<lparr>fi_h := f, seconds := g\<rparr> \<and> index_except w' NS \<and> (\<forall>a. i \<le> a \<longrightarrow> a < i + n \<longrightarrow> f a \<noteq> 0) \<and>
    (\<forall>a < i. f a = fi_h w a)"
  using assms
proof (induction n arbitrary: i w)
  case 0
  then show ?case by (intro exI [of _ "fi_h w"] exI [of _ "seconds w"]) auto
next
  case (Suc n)
  define v where "v = calloc w INDEX_2_SIZE"
  define w1 where "w1 = w\<lparr>fi_h := (fi_h w)(i := v), seconds := (seconds w)(v \<mapsto> empty_second)\<rparr>"
  have v: "v \<noteq> 0" and rest: "pre_allocate_loop calloc (Suc i) n w1 = (0, w')"
    using Suc.prems(4) by (auto simp: v_def w1_def Let_def split: if_splits)
  have "index_except w1 NS"
    using new_second [OF Suc.prems(2,1)] Suc.prems(3) v by (simp add: v_def w1_def)
  moreover have "\<forall>a \<ge> Suc i. fi_h w1 a = 0" using Suc.prems(3) by (simp add: w1_def)
  ultimately obtain f g where fg: "w' = w1\<lparr>fi_h := f, seconds := g\<rparr>" "index_except w' NS"
      "\<forall>a. Suc i \<le> a \<longrightarrow> a < Suc i + n \<longrightarrow> f a \<noteq> 0" "\<forall>a < Suc i. f a = fi_h w1 a"
    using Suc.IH [OF Suc.prems(1) _ _ rest] by blast
  have "f a \<noteq> 0" if "i \<le> a" "a < i + Suc n" for a
    using fg(3,4) v that by (cases "a = i") (auto simp: w1_def)
  moreover have "w' = w\<lparr>fi_h := f, seconds := g\<rparr>" using fg(1) by (simp add: w1_def)
  moreover have "\<forall>a < i. f a = fi_h w a" using fg(4) by (simp add: w1_def)
  ultimately show ?case using fg(2) by blast
qed

lemma init_head_effect:
  "sets w h = Some s \<Longrightarrow> \<exists>s'. init_head h i w = Some (w\<lparr>sets := (sets w)(h \<mapsto> s')\<rparr>) \<and> no_links s' = no_links s \<and>
     lru_next s' = (lru_next s)(i := ng_nid s + word_of_nat i) \<and> lru_prev s' = (lru_prev s)(i := ng_nid s + word_of_nat i)"
  by (rule exI [of _ "s\<lparr>lru_prev := (lru_prev s)(i := ns_node_id s i), lru_next := (lru_next s)(i := ns_node_id s i)\<rparr>"])
    (simp add: init_head_def node_id_def INIT_NODE_LIST_HEAD_def set_lru_prev_def set_lru_next_def upd_set_def no_links_def
      ns_node_id_def)

lemma ns_allocate_fresh:
  assumes "ns_inv s" "ng_dele_count s = 0" "unat (ng_free s) < 256"
  shows "\<exists>s'. ns_allocate_node s = (Some (unat (ng_free s)), s') \<and> ns_inv s' \<and> ng_dele_count s' = 0 \<and>
    unat (ng_free s') = Suc (unat (ng_free s)) \<and> ng_nid s' = ng_nid s \<and> ns_used s' = insert (unat (ng_free s)) (ns_used s)"
proof -
  obtain r s' where rs: "ns_allocate_node s = (r, s')" by fastforce
  have "r = Some (unat (ng_free s))" "ng_dele_count s' = 0" "ng_free s' = ng_free s + 1"
    using rs assms by (auto simp: ns_allocate_node_def ns_is_full_def Let_def)
  moreover have "unat (ng_free s + 1) = Suc (unat (ng_free s))" using assms(3) by (simp add: unat_word_ariths)
  ultimately show ?thesis using ns_allocate_cases [OF assms(1) rs] rs by simp
qed

lemma three_nodes:
  "\<exists>s1 s2 s3. ns_allocate_node (ns_init j) = (Some 0, s1) \<and> ns_allocate_node s1 = (Some 1, s2) \<and>
     ns_allocate_node s2 = (Some 2, s3) \<and> ns_inv s3 \<and> ng_nid s3 = j \<and> ns_used s3 = {0, 1, 2} \<and> \<not> ns_is_full s3"
proof -
  have s0: "ng_dele_count (ns_init j) = 0" "unat (ng_free (ns_init j)) = 0" by (simp_all add: ns_init_def)
  obtain s1 where s1: "ns_allocate_node (ns_init j) = (Some 0, s1)" "ns_inv s1" "ng_dele_count s1 = 0" "unat (ng_free s1) = 1"
      "ng_nid s1 = j" "ns_used s1 = {0}"
    using ns_allocate_fresh [of "ns_init j"] s0 by auto
  obtain s2 where s2: "ns_allocate_node s1 = (Some 1, s2)" "ns_inv s2" "ng_dele_count s2 = 0" "unat (ng_free s2) = 2"
      "ng_nid s2 = j" "ns_used s2 = {1, 0}"
    using ns_allocate_fresh [OF s1(2,3)] s1 by auto
  obtain s3 where s3: "ns_allocate_node s2 = (Some 2, s3)" "ns_inv s3" "unat (ng_free s3) = 3" "ng_nid s3 = j" "ns_used s3 = {2, 1, 0}"
    using ns_allocate_fresh [OF s2(2,3)] s2 by auto
  have "\<not> ns_is_full s3" using s3(3) by (simp add: ns_is_full_def)
  then show ?thesis using s1(1) s2(1) s3 by auto
qed

lemma no_links_eqD:
  assumes "no_links s' = no_links s"
  shows "ns_inv s' = ns_inv s" "ns_used s' = ns_used s" "ng_nid s' = ng_nid s" "ns_is_full s' = ns_is_full s"
proof -
  have "ng_dele_top s' = ng_dele_top s" "ng_dele_count s' = ng_dele_count s" "ng_free s' = ng_free s" "vd_handle s' = vd_handle s"
    using assms by (metis no_links_simps)+
  then show "ns_inv s' = ns_inv s" "ns_used s' = ns_used s" "ns_is_full s' = ns_is_full s"
    by (simp_all add: ns_inv_def ns_used_def ns_is_full_def)
  show "ng_nid s' = ng_nid s" using assms by (metis no_links_simps(4))
qed

text \<open>The system group is set up: its first three nodes exist and are in the index.\<close>

lemma system_reserved_init_effect:
  assumes fresh: "calloc_fresh calloc" and ex: "index_except w h" and one: "sets w = [h \<mapsto> ns_init 0]" "h \<noteq> 0"
    and min: "ni_min_id w = 256" and fi: "fi_h w 0 \<noteq> 0"
  shows "\<exists>w' s f g. system_reserved_init calloc h w = Some (0, w') \<and>
    w' = w\<lparr>sets := [h \<mapsto> s], fi_h := f, seconds := g\<rparr> \<and> ns_inv s \<and> ng_nid s = 0 \<and> ns_used s = {0, 1, 2} \<and> \<not> ns_is_full s \<and>
    sets_ok w' \<and> index_ok w' \<and> (\<forall>a. fi_h w a \<noteq> 0 \<longrightarrow> f a = fi_h w a) \<and>
    (\<forall>i \<in> {0, 1, 2}. lru_next s i = word_of_nat i \<and> lru_prev s i = word_of_nat i)"
proof -
  obtain s1 s2 s3 where s: "ns_allocate_node (ns_init 0) = (Some 0, s1)" "ns_allocate_node s1 = (Some 1, s2)"
      "ns_allocate_node s2 = (Some 2, s3)" "ns_inv s3" "ng_nid s3 = 0" "ns_used s3 = {0, 1, 2}" "\<not> ns_is_full s3"
    using three_nodes by blast
  define w0 where "w0 = w\<lparr>sets := [h \<mapsto> s3]\<rparr>"
  obtain t1 where t1: "init_head h 0 w0 = Some (w0\<lparr>sets := [h \<mapsto> t1]\<rparr>)" "no_links t1 = no_links s3"
      "lru_next t1 = (lru_next s3)(0 := 0)" "lru_prev t1 = (lru_prev s3)(0 := 0)"
    using init_head_effect [of w0 h s3 0] s(5) by (auto simp: w0_def)
  obtain t2 where t2: "init_head h 1 (w0\<lparr>sets := [h \<mapsto> t1]\<rparr>) = Some (w0\<lparr>sets := [h \<mapsto> t2]\<rparr>)" "no_links t2 = no_links s3"
      "lru_next t2 = (lru_next t1)(1 := 1)" "lru_prev t2 = (lru_prev t1)(1 := 1)"
    using init_head_effect [of "w0\<lparr>sets := [h \<mapsto> t1]\<rparr>" h t1 1] t1(2) no_links_eqD(3) [OF t1(2)] s(5) by auto
  obtain t3 where t3: "init_head h 2 (w0\<lparr>sets := [h \<mapsto> t2]\<rparr>) = Some (w0\<lparr>sets := [h \<mapsto> t3]\<rparr>)" "no_links t3 = no_links s3"
      "lru_next t3 = (lru_next t2)(2 := 2)" "lru_prev t3 = (lru_prev t2)(2 := 2)"
    using init_head_effect [of "w0\<lparr>sets := [h \<mapsto> t2]\<rparr>" h t2 2] t2(2) no_links_eqD(3) [OF t2(2)] s(5) by auto
  have own: "\<forall>i \<in> {0, 1, 2}. lru_next t3 i = word_of_nat i \<and> lru_prev t3 i = word_of_nat i"
    by (simp add: t3(3,4) t2(3,4) t1(3,4))
  note t = no_links_eqD [OF t3(2)]
  define w3 where "w3 = w\<lparr>sets := [h \<mapsto> t3]\<rparr>"
  have ok: "sets_ok w3" using t s one(2) min by (simp add: sets_ok_def w3_def)
  have ex3: "index_except w3 h"
    using index_exceptD [OF ex] one by (auto simp: index_except_def w3_def)
  have o: "OFFSET1 (ng_nid t3) = 0" using t(3) s(5) by (simp add: OFFSET1_def)
  have slot: "sets w3 h = Some t3" by (simp add: w3_def)
  obtain w4 f g where w4: "Insert calloc (Nd h 0) w3 = Some (0, w4)" "w4 = w3\<lparr>fi_h := f, seconds := g\<rparr>" "index_ok w4"
    using Insert_effect [OF ok ex3 slot _ fresh, of 0] o fi by (auto simp: w3_def)
  have next_ins: "\<exists>v f g. Insert calloc (Nd h i) u = Some (0, v) \<and> v = w3\<lparr>fi_h := f, seconds := g\<rparr> \<and> index_ok v"
    if u: "u = w3\<lparr>fi_h := f, seconds := g\<rparr>" "index_ok u" "i < 256" for u f g i
  proof -
    have "\<exists>p. fi_h u 0 \<noteq> 0" using u(1,2) t(2) s(6) o slot unfolding index_ok_def by force
    moreover have "index_except u h" using u(2) unfolding index_ok_def index_except_def by blast
    moreover have "sets_ok u" "sets u h = Some t3" using ok slot u(1) by (simp_all add: index_only)
    ultimately show ?thesis using Insert_effect [of u h t3 i calloc] fresh u(1,3) o by fastforce
  qed
  obtain w5 f5 g5 where w5: "Insert calloc (Nd h 1) w4 = Some (0, w5)" "w5 = w3\<lparr>fi_h := f5, seconds := g5\<rparr>" "index_ok w5"
    using next_ins [OF w4(2,3), of 1] by auto
  obtain w6 f6 g6 where w6: "Insert calloc (Nd h 2) w5 = Some (0, w6)" "w6 = w3\<lparr>fi_h := f6, seconds := g6\<rparr>" "index_ok w6"
    using next_ins [OF w5(2,3), of 2] by auto
  have "system_reserved_init calloc h w = Some (0, w6)"
    using s(1-3) t1(1) t2(1) t3(1) w4(1) w5(1) w6(1) one(1) by (simp add: system_reserved_init_def w0_def w3_def)
  moreover have keep: "fi_h v a = fi_h u a" if "Insert calloc n u = Some (0, v)" "fi_h u a \<noteq> 0" for n u v a
    using that by (auto simp: Insert_def Let_def bind_eq_Some_conv split: node.splits if_splits)
  have "\<forall>a. fi_h w a \<noteq> 0 \<longrightarrow> f6 a = fi_h w a"
    using keep [OF w4(1)] keep [OF w5(1)] keep [OF w6(1)] w6(2) by (simp add: w3_def)
  moreover have "sets_ok w6" using ok w6(2) by (simp add: index_only)
  ultimately show ?thesis using w6(2,3) t s(4-7) own by (intro exI [of _ w6] exI [of _ t3] exI [of _ f6] exI [of _ g6]) (simp add: w3_def)
qed

lemma live_single: "sets w = [h \<mapsto> s] \<Longrightarrow> live w = {h} \<times> ns_used s"
  by (auto simp: live_def split: if_splits)

lemma InitHeader_step:
  assumes "ngl w = [v \<mapsto> (0, 0), v + 16 \<mapsto> (0, 0)]" "ng_info w = v"
  shows "InitHeader calloc w =
    (case allocate_ng calloc (w\<lparr>ngl := [v \<mapsto> (v, v), v + 16 \<mapsto> (v + 16, v + 16)], ni_min_id := 0\<rparr>) of (h, w2) \<Rightarrow>
      if h = 0 then Some (-1, w2)
      else do { (rc, w) \<leftarrow> system_reserved_init calloc h w2;
         Some (0, w\<lparr>ni_sys_zone := h, ni_used_ng := 1, ni_used_node := 0, ni_dirty_node := 0, ni_used_row := 0, ni_dirty_row := 0\<rparr>) })"
  using assms
  by (simp add: InitHeader_def INIT_NG_LIST_HEAD_def set_ng_prev_def set_ng_next_def ni_free_head_def ni_full_head_def
      fun_upd_twist)

lemma InitHeader_effect:
  assumes fresh: "calloc_fresh calloc" and ex: "index_except w 0" and empty: "sets w = Map.empty"
    and heads: "ngl w = [v \<mapsto> (0, 0), v + 16 \<mapsto> (0, 0)]" "ng_info w = v" and fi: "fi_h w 0 \<noteq> 0"
  shows "\<exists>w'. InitHeader calloc w = Some (-1, w') \<or> InitHeader calloc w = Some (0, w') \<and>
    ni_inv w' \<and> live w' = {ni_sys_zone w'} \<times> {0, 1, 2} \<and> ni_min_id w' = 256 \<and> step w' = step w \<and>
    (\<forall>a. fi_h w a \<noteq> 0 \<longrightarrow> fi_h w' a \<noteq> 0) \<and>
    (\<forall>i \<in> {0, 1, 2}. indexed w' (Nd (ni_sys_zone w') i) (word_of_nat i) \<and> lru.ring w' (word_of_nat i) [])"
proof -
  have vv: "v \<noteq> v + 16" by simp
  define l where "l = [v \<mapsto> (v, v), v + 16 \<mapsto> (v + 16, v + 16)]"
  define w1 where "w1 = w\<lparr>ngl := l, ni_min_id := 0\<rparr>"
  obtain h w2 where h: "allocate_ng calloc w1 = (h, w2)" by fastforce
  have step: "InitHeader calloc w = (if h = 0 then Some (-1, w2)
      else do { (rc, w) \<leftarrow> system_reserved_init calloc h w2;
         Some (0, w\<lparr>ni_sys_zone := h, ni_used_ng := 1, ni_used_node := 0, ni_dirty_node := 0, ni_used_row := 0, ni_dirty_row := 0\<rparr>) })"
    using InitHeader_step [OF heads, of calloc] h by (simp add: w1_def l_def)
  show ?thesis
  proof (cases "h = 0")
    case True
    then show ?thesis using step by auto
  next
    case h0: False
    then have heq: "h = calloc w1 node_set_size" using h by (auto simp: allocate_ng_def Let_def split: if_splits)
    have hn: "h \<notin> dom l" "h \<notin> dom (seconds w)"
      using calloc_freshD [OF fresh, of w1 node_set_size] h0 heq by (simp_all add: w1_def)
    have w2: "w2 = w1\<lparr>sets := [h \<mapsto> ns_init 0], ngl := l(h \<mapsto> (0, 0)), ni_min_id := 256, ni_used_ng := ni_used_ng w1 + 1\<rparr>"
      using h h0 empty by (auto simp: allocate_ng_def Let_def w1_def split: if_splits)
    have "si_h p k = 0" if "seconds w (fi_h w a) = Some p" for a p k
      using index_exceptD(3) [OF ex that] empty by auto
    then have ex2: "index_except w2 h"
      using index_exceptD(1,2) [OF ex] unfolding index_except_def w2 w1_def by auto
    obtain w3 s f g where w3: "system_reserved_init calloc h w2 = Some (0, w3)"
        "w3 = w2\<lparr>sets := [h \<mapsto> s], fi_h := f, seconds := g\<rparr>" "ns_used s = {0, 1, 2}" "sets_ok w3" "index_ok w3"
        "\<forall>a. fi_h w2 a \<noteq> 0 \<longrightarrow> f a = fi_h w2 a"
        "\<forall>i \<in> {0, 1, 2}. lru_next s i = word_of_nat i \<and> lru_prev s i = word_of_nat i" "ng_nid s = 0"
      using system_reserved_init_effect [OF fresh ex2] h0 fi by (auto simp: w2 w1_def)
    define w' where w': "w' = w3\<lparr>ni_sys_zone := h, ni_used_ng := 1, ni_used_node := 0, ni_dirty_node := 0, ni_used_row := 0, ni_dirty_row := 0\<rparr>"
    have init: "InitHeader calloc w = Some (0, w')"
      using step w3(1) h0 by (simp add: w')
    have ngl': "ngl w' = l(h \<mapsto> (0, 0))" "sets w' = [h \<mapsto> s]" "ni_free_head w' = v" "ni_full_head w' = v + 16" "ni_sys_zone w' = h"
      using heads by (simp_all add: w' w3(2) w2 w1_def ni_free_head_def ni_full_head_def)
    have "h \<noteq> v" "h \<noteq> v + 16" using hn(1) by (auto simp: l_def)
    then have "lists_ok w' [] []"
      using vv by (simp add: lists_ok_def ngl' ngr.ring_def ng_next_def ng_prev_def l_def)
    moreover have inv2: "sets_ok w'" "index_ok w'" using w3(4,5) by (simp_all add: w' sets_ok_def index_ok_def)
    moreover have "ni_sys_zone w' \<in> dom (sets w')" by (simp add: ngl')
    ultimately have "ni_inv w'" unfolding ni_inv_def by blast
    moreover have "live w' = {ni_sys_zone w'} \<times> {0, 1, 2}" using live_single [OF ngl'(2)] w3(3) ngl'(5) by simp
    moreover have "indexed w' (Nd (ni_sys_zone w') i) (word_of_nat i) \<and> lru.ring w' (word_of_nat i) []"
      if i: "i \<in> {0, 1, 2}" for i
    proof -
      have ind: "indexed w' (Nd h i) (word_of_nat i)"
        using live_indexed [OF inv2(1,2) ngl'(2) [THEN fun_cong, of h, simplified]] i w3(3,8)
        by (simp add: ngl' ns_node_id_def)
      then have "lru_nx w' (word_of_nat i) = Some (word_of_nat i)" "lru_pv w' (word_of_nat i) = Some (word_of_nat i)"
        using w3(7) i by (simp_all only: lru_set_indexed nd_lru_next_def nd_lru_prev_def node.case ngl') auto
      then show ?thesis using ind indexed_valid [OF ind] by (simp add: lru.ring_def ngl'(5))
    qed
    moreover have "ni_min_id w' = 256" "step w' = step w" "fi_h w' = f" "fi_h w2 = fi_h w"
      by (simp_all add: w' w3(2) w2 w1_def)
    ultimately show ?thesis using w3(6) init by metis
  qed
qed

lemma index_empty: "index_except (blank k) NS"
  by (simp add: index_except_def blank_def)

text \<open>Starting from no memory at all, a successful start leaves a valid state in which the
  three list heads are the only nodes.\<close>

lemma Init_effect:
  assumes fresh: "calloc_fresh calloc" and idx: "NodeIndex_Init calloc ms (blank k) = (0, w1)" and cov: "fi_h w1 0 \<noteq> 0"
  shows "\<exists>w'. NGInfo_Init calloc w1 = Some (-1, w') \<or> NGInfo_Init calloc w1 = Some (0, w') \<and>
    ni_inv w' \<and> live w' = {ni_sys_zone w'} \<times> {0, 1, 2} \<and> ni_min_id w' = 256 \<and> step w' = k \<and>
    (\<forall>a. fi_h w1 a \<noteq> 0 \<longrightarrow> fi_h w' a \<noteq> 0) \<and>
    (\<forall>i \<in> {0, 1, 2}. indexed w' (Nd (ni_sys_zone w') i) (word_of_nat i) \<and> lru.ring w' (word_of_nat i) [])"
proof -
  obtain n where n: "pre_allocate_loop calloc 0 n (blank k) = (0, w1)"
  proof -
    have eq: "(blank k)\<lparr>fi_h := (\<lambda>_. 0)\<rparr> = blank k" by (simp add: blank_def)
    have "(if calloc (blank k) INDEX_1_SIZE = 0 then (-1, blank k) else pre_allocate_index calloc ms (blank k)) = (0, w1)"
      using idx unfolding NodeIndex_Init_def eq .
    then have "pre_allocate_index calloc ms (blank k) = (0, w1)"
      by (cases "calloc (blank k) INDEX_1_SIZE = 0") (simp_all only: if_True if_False prod.inject, simp)
    then show ?thesis unfolding pre_allocate_index_def Let_def by (rule that)
  qed
  have "\<forall>a \<ge> 0. fi_h (blank k) a = 0" by (simp add: blank_def)
  from pre_allocate_loop_effect [OF fresh index_empty this n, of 0]
  obtain f g where w1: "w1 = (blank k)\<lparr>fi_h := f, seconds := g\<rparr>" "index_except w1 0"
    by (elim exE conjE)
  define v where "v = calloc w1 NG_INFO_SIZE"
  define w2 where "w2 = w1\<lparr>ng_info := v, ngl := (ngl w1)(v \<mapsto> (0, 0), v + 16 \<mapsto> (0, 0))\<rparr>"
  have "NGInfo_Init calloc w1 = (if v = 0 then Some (-1, w1) else InitHeader calloc w2)"
    by (simp add: NGInfo_Init_def v_def w2_def Let_def)
  moreover have "index_except w2 0" using w1(2) by (simp add: w2_def index_except_def)
  moreover have "sets w2 = Map.empty" "ngl w2 = [v \<mapsto> (0, 0), v + 16 \<mapsto> (0, 0)]" "ng_info w2 = v" "fi_h w2 = fi_h w1" "step w2 = k"
    by (simp_all add: w2_def w1(1) blank_def)
  ultimately show ?thesis using InitHeader_effect [OF fresh, of w2 v] cov by auto
qed

section \<open>Node lists keep the state valid\<close>

lemma strip_fields:
  assumes "strip w' = strip w"
  shows "ngl w' = ngl w" "seconds w' = seconds w" "fi_h w' = fi_h w" "ni_min_id w' = ni_min_id w" "ni_sys_zone w' = ni_sys_zone w"
    "ni_free_head w' = ni_free_head w" "ni_full_head w' = ni_full_head w" "dom (sets w') = dom (sets w)"
proof -
  show "ngl w' = ngl w" using arg_cong [OF assms, of ngl] by (simp add: strip_def)
  show "seconds w' = seconds w" using arg_cong [OF assms, of seconds] by (simp add: strip_def)
  show "fi_h w' = fi_h w" using arg_cong [OF assms, of fi_h] by (simp add: strip_def)
  show "ni_min_id w' = ni_min_id w" using arg_cong [OF assms, of ni_min_id] by (simp add: strip_def)
  show "ni_sys_zone w' = ni_sys_zone w" using arg_cong [OF assms, of ni_sys_zone] by (simp add: strip_def)
  show "ni_free_head w' = ni_free_head w" "ni_full_head w' = ni_full_head w"
    using arg_cong [OF assms, of ng_info] by (simp_all add: strip_def ni_free_head_def ni_full_head_def)
  show "dom (sets w') = dom (sets w)"
    using strip_eq_facts(3) [OF assms] by (metis (no_types, lifting) domIff map_option_is_None subsetI subset_antisym)
qed

lemma strip_set:
  assumes "strip w' = strip w" "sets w' h = Some s'"
  obtains s where "sets w h = Some s" "no_links s' = no_links s"
  using strip_eq_facts(3) [OF assms(1), of h] assms(2) that by (cases "sets w h") auto

lemma sets_ok_strip: "strip w' = strip w \<Longrightarrow> sets_ok w \<Longrightarrow> sets_ok w'"
proof -
  assume eq: "strip w' = strip w" and ok: "sets_ok w"
  show "sets_ok w'"
    unfolding sets_ok_def
  proof (intro conjI allI impI)
    fix h s'
    assume "sets w' h = Some s'"
    then obtain s where s: "sets w h = Some s" "no_links s' = no_links s" by (rule strip_set [OF eq])
    show "ns_inv s'" "unat (ng_nid s') mod 256 = 0" "unat (ng_nid s') + 256 \<le> unat (ni_min_id w')"
      using sets_okD [OF ok s(1)] no_links_eqD [OF s(2)] strip_fields(4) [OF eq] by simp_all
  next
    fix h h' s s'
    assume a: "sets w' h = Some s" "sets w' h' = Some s'" "ng_nid s = ng_nid s'"
    obtain t where t: "sets w h = Some t" "no_links s = no_links t" by (rule strip_set [OF eq a(1)])
    obtain t' where t': "sets w h' = Some t'" "no_links s' = no_links t'" by (rule strip_set [OF eq a(2)])
    show "h = h'"
      using sets_ok_unique [OF ok t(1) t'(1)] no_links_eqD(3) [OF t(2)] no_links_eqD(3) [OF t'(2)] a(3) by simp
  qed (use ok strip_fields [OF eq] in \<open>auto simp: sets_ok_def domIff\<close>)
qed

lemma index_slot:
  "index_ok w \<Longrightarrow> sets w h = Some s \<Longrightarrow> ns_used s \<noteq> {} \<Longrightarrow>
   \<exists>p. fi_h w (OFFSET1 (ng_nid s)) \<noteq> 0 \<and> seconds w (fi_h w (OFFSET1 (ng_nid s))) = Some p \<and> si_h p (OFFSET2 (ng_nid s)) = h"
  by (simp add: index_ok_def)

lemma index_ok_strip:
  assumes eq: "strip w' = strip w" and ok: "index_ok w"
  shows "index_ok w'"
proof -
  have "\<exists>p. fi_h w' (OFFSET1 (ng_nid s')) \<noteq> 0 \<and> seconds w' (fi_h w' (OFFSET1 (ng_nid s'))) = Some p \<and>
      si_h p (OFFSET2 (ng_nid s')) = h" if a: "sets w' h = Some s'" "ns_used s' \<noteq> {}" for h s'
  proof -
    obtain s where s: "sets w h = Some s" "no_links s' = no_links s" using strip_set [OF eq a(1)] .
    have "\<exists>p. fi_h w (OFFSET1 (ng_nid s)) \<noteq> 0 \<and> seconds w (fi_h w (OFFSET1 (ng_nid s))) = Some p \<and> si_h p (OFFSET2 (ng_nid s)) = h"
      using a(2) no_links_eqD(2) [OF s(2)] by (intro index_slot [OF ok s(1)]) simp
    then show ?thesis
      by (simp only: no_links_eqD(3) [OF s(2)] strip_fields [OF eq])
  qed
  then show ?thesis using ok unfolding index_ok_def strip_fields [OF eq] by blast
qed

lemma lists_ok_strip:
  assumes eq: "strip w' = strip w" and ok: "lists_ok w fs gs"
  shows "lists_ok w' fs gs"
proof -
  have full: "ns_is_full (the (sets w' h)) = ns_is_full (the (sets w h))" if h: "h \<in> dom (sets w)" for h
  proof -
    obtain s' where s': "sets w' h = Some s'" using h strip_fields(8) [OF eq] by blast
    obtain s where s: "sets w h = Some s" "no_links s' = no_links s" by (rule strip_set [OF eq s'])
    show ?thesis using s' s(1) no_links_eqD(4) [OF s(2)] by simp
  qed
  have "set fs \<subseteq> dom (sets w)" "set gs \<subseteq> dom (sets w)" using ok by (auto simp: lists_ok_def)
  moreover have "ngr.ring w' h xs = ngr.ring w h xs" for h xs
    using strip_fields(1) [OF eq] by (intro ring_ngl_cong) simp
  ultimately show ?thesis
    using ok full unfolding lists_ok_def strip_fields [OF eq] by (simp add: subset_iff)
qed

lemma ni_inv_strip: "strip w' = strip w \<Longrightarrow> ni_inv w \<Longrightarrow> ni_inv w'"
  using sets_ok_strip index_ok_strip lists_ok_strip strip_fields(5,8) unfolding ni_inv_def by metis

lemma live_strip:
  assumes "strip w' = strip w"
  shows "live w' = live w"
proof -
  have "live a \<subseteq> live b" if ab: "strip a = strip b" for a b
  proof (intro subrelI)
    fix h i
    assume "(h, i) \<in> live a"
    then obtain s' where s': "sets a h = Some s'" "i \<in> ns_used s'" by (auto simp: live_def)
    obtain s where s: "sets b h = Some s" "no_links s' = no_links s" by (rule strip_set [OF ab s'(1)])
    show "(h, i) \<in> live b" using s'(2) s(1) no_links_eqD(2) [OF s(2)] by (simp add: live_def)
  qed
  then show ?thesis using assms by (metis subset_antisym)
qed

lemma live_id:
  assumes "ni_inv w" "(h, i) \<in> live w"
  shows "\<exists>nid. indexed w (Nd h i) nid"
  using assms live_indexed unfolding ni_inv_def live_def by blast

section \<open>Properties\<close>

text \<open>A memory of four page-aligned blocks, for the witnesses.\<close>

definition unmapped :: "world \<Rightarrow> u64 \<Rightarrow> bool" where
  "unmapped w v \<longleftrightarrow> sets w v = None \<and> ngl w v = None \<and> seconds w v = None"

definition pages :: calloc where
  "pages w n = (if unmapped w 4096 then 4096 else if unmapped w 8192 then 8192 else if unmapped w 12288 then 12288
     else if unmapped w 16384 then 16384 else 0)"

lemma pages_fresh: "calloc_fresh pages"
  by (simp add: calloc_fresh_def pages_def unmapped_def domIff)

definition indexed_blank :: world where
  "indexed_blank = (blank 1)\<lparr>fi_h := (\<lambda>_. 0)(0 := 4096), seconds := [4096 \<mapsto> empty_second]\<rparr>"

lemma indexed_blank_init: "NodeIndex_Init pages 0 (blank 1) = (0, indexed_blank)"
proof -
  have "pre_allocate_index calloc 0 w = pre_allocate_loop calloc 0 (Suc 0) w" for calloc w
    by (simp add: pre_allocate_index_def)
  then show ?thesis
    by (simp add: NodeIndex_Init_def pages_def unmapped_def indexed_blank_def blank_def Let_def)
qed

definition started :: world where
  "started = snd (the (NGInfo_Init pages indexed_blank))"

lemma started_init:
  "NGInfo_Init pages indexed_blank = Some (0, started) \<and> ni_inv started \<and> live started = {ni_sys_zone started} \<times> {0, 1, 2} \<and>
   ni_min_id started = 256 \<and> step started = 1 \<and> fi_h started 0 \<noteq> 0 \<and>
   (\<forall>i \<in> {0, 1, 2}. indexed started (Nd (ni_sys_zone started) i) (word_of_nat i) \<and> lru.ring started (word_of_nat i) [])"
proof -
  have cov: "fi_h indexed_blank 0 \<noteq> 0" by (simp add: indexed_blank_def)
  have "NGInfo_Init pages indexed_blank \<noteq> Some (-1, w')" for w'
  proof -
    define w2 where "w2 = indexed_blank\<lparr>ng_info := 8192, ngl := [8192 \<mapsto> (0, 0), 8192 + 16 \<mapsto> (0, 0)]\<rparr>"
    have "NGInfo_Init pages indexed_blank = InitHeader pages w2"
      by (simp add: NGInfo_Init_def w2_def pages_def unmapped_def indexed_blank_def blank_def Let_def)
    moreover have "InitHeader pages w2 \<noteq> Some (-1, w')"
      by (subst InitHeader_step [of _ 8192])
        (auto simp: w2_def allocate_ng_def pages_def unmapped_def indexed_blank_def blank_def Let_def bind_eq_Some_conv)
    ultimately show ?thesis by simp
  qed
  then show ?thesis
    using Init_effect [OF pages_fresh indexed_blank_init cov] cov by (auto simp: started_def)
qed

text \<open>(C11) A node group is an allocator of 256 nodes: it refuses exactly when all are in use,
  otherwise it returns one that is not; releasing a node in use makes it available again.
  The list of released nodes threaded through their handle fields stays consistent.\<close>

theorem node_group_allocator:
  assumes "ns_inv s"
  shows "(case ns_allocate_node s of
       (None, s') \<Rightarrow> ns_used s = {..<256} \<and> s' = s
     | (Some i, s') \<Rightarrow> i < 256 \<and> i \<notin> ns_used s \<and> ns_used s' = insert i (ns_used s) \<and> ns_inv s') \<and>
     (\<forall>i \<in> ns_used s. ns_inv (node_Reset i (ns_release_node i s)) \<and>
        ns_used (node_Reset i (ns_release_node i s)) = ns_used s - {i})"
proof -
  obtain r s' where rs: "ns_allocate_node s = (r, s')" by fastforce
  then show ?thesis
    using ns_allocate_cases [OF assms rs] ns_full_used [OF assms] ns_release_effect [OF assms] by (cases r) auto
qed

theorem node_group_allocator_witness:
  "case ns_allocate_node (ns_init 512) of (None, s') \<Rightarrow> False
   | (Some i, s') \<Rightarrow> i = 0 \<and> ns_inv s' \<and> ns_used s' = {0}"
  using node_group_allocator [of "ns_init 512"] three_nodes [of 512] by auto

text \<open>(C9) Starting the node manager on fresh memory never goes through an invalid handle: either
  it reports that memory is short, or the state is valid, the three list heads are the only
  nodes in use, each is found through the index under its own id, and the dirty, clean and
  empty lists are empty rings.\<close>

theorem node_manager_init:
  assumes "calloc_fresh calloc" "NodeIndex_Init calloc ms (blank k) = (0, w1)" "fi_h w1 0 \<noteq> 0"
  shows "\<exists>w'. NGInfo_Init calloc w1 = Some (-1, w') \<or> NGInfo_Init calloc w1 = Some (0, w') \<and>
    ni_inv w' \<and> live w' = {ni_sys_zone w'} \<times> {0, 1, 2} \<and>
    (\<forall>i \<in> {0, 1, 2}. indexed w' (Nd (ni_sys_zone w') i) (word_of_nat i) \<and> lru.ring w' (word_of_nat i) [])"
  using Init_effect [OF assms] by blast

theorem node_manager_init_witness:
  "\<exists>w'. NGInfo_Init pages indexed_blank = Some (0, w') \<and> ni_inv w' \<and> live w' = {ni_sys_zone w'} \<times> {0, 1, 2}"
proof -
  have "fi_h indexed_blank 0 \<noteq> 0" by (simp add: indexed_blank_def)
  then show ?thesis
    using node_manager_init [OF pages_fresh indexed_blank_init] started_init by auto
qed



text \<open>(C8) Releasing a node in use is safe (for the system group, which is on neither list, as long as
  it is not full), keeps the state valid, moves a full group back to the list of groups with room, and takes exactly that
  node out of use; every other node in use is still found through the index.\<close>

theorem node_release:
  assumes "ni_inv w" "(h, i) \<in> live w" "h \<noteq> ni_sys_zone w \<or> \<not> ns_is_full (the (sets w h))"
  shows "\<exists>w'. release_node (Nd h i) w = Some w' \<and> ni_inv w' \<and> live w' = live w - {(h, i)} \<and>
    (\<forall>h' i'. (h', i') \<in> live w' \<longrightarrow> (\<exists>nid. indexed w' (Nd h' i') nid))"
  using release_node_effect [OF assms] live_id by metis

lemma started_sys: "\<not> ns_is_full (the (sets started (ni_sys_zone started)))"
proof -
  have live: "live started = {ni_sys_zone started} \<times> {0, 1, 2}" and inv: "ni_inv started" using started_init by auto
  then obtain s where s: "sets started (ni_sys_zone started) = Some s" by (auto simp: ni_inv_def)
  then have used: "i \<in> ns_used s \<longleftrightarrow> i \<in> {0, 1, 2}" for i using live_group [OF s, of i] live by simp
  have "ns_inv s" using inv s sets_okD(1) by (auto simp: ni_inv_def)
  moreover have "ns_used s \<noteq> {..<256}"
  proof
    assume eq: "ns_used s = {..<256}"
    have "(3 :: nat) \<in> {..<256}" by simp
    then have "3 \<in> ns_used s" unfolding eq .
    then show False using used [of 3] by simp
  qed
  ultimately show ?thesis using ns_full_used s by simp
qed

theorem node_release_witness:
  "\<exists>w'. release_node (Nd (ni_sys_zone started) 2) started = Some w' \<and> ni_inv w' \<and> live w' = {ni_sys_zone started} \<times> {0, 1}"
proof -
  have "ni_inv started" "(ni_sys_zone started, 2) \<in> live started" using started_init by auto
  then obtain w' where "release_node (Nd (ni_sys_zone started) 2) started = Some w'" "ni_inv w'"
      "live w' = live started - {(ni_sys_zone started, 2)}"
    using node_release [of started "ni_sys_zone started" 2] started_sys by blast
  moreover have "live started - {(ni_sys_zone started, 2)} = {ni_sys_zone started} \<times> {0, 1}" using started_init by auto
  ultimately show ?thesis by metis
qed



text \<open>What the code does not check: a node whose insertion into the index fails for lack of memory
  is handed out all the same, and no search finds it.\<close>

lemma insert_failure_ignored:
  assumes "sets w h = Some s" "fi_h w (OFFSET1 (ns_node_id s i)) = 0" "calloc w INDEX_2_SIZE = 0"
  shows "Insert calloc (Nd h i) w = Some (-1, w) \<and> Search w (ns_node_id s i) = Some NoNode"
proof -
  have "w\<lparr>fi_h := (fi_h w)(OFFSET1 (ns_node_id s i) := 0)\<rparr> = w"
    using assms(2) by (simp add: fun_upd_idem)
  then show ?thesis using assms by (simp add: Insert_def node_id_def Search_def Let_def)
qed

end
