(* ===== verification/Heap_Array.thy ===== *)
theory Heap_Array
  imports Prelude "HOL-Library.Multiset"
begin

text \<open>
  What the two binary heaps of the read service share: the heap property of an array by index
  arithmetic, one step of sifting an element down or up, and the contract of a selection of
  bounded size that keeps the best elements it has seen.
\<close>

section \<open>Heap order on arrays\<close>

definition parent :: "nat \<Rightarrow> nat" where
  "parent i = (i - 1) div 2"

definition swap :: "nat \<Rightarrow> nat \<Rightarrow> 'a list \<Rightarrow> 'a list" where
  "swap i j v = v[i := v ! j, j := v ! i]"

lemma length_swap [simp]: "length (swap i j v) = length v"
  by (simp add: swap_def)

lemma mset_swap_nth [simp]: "i < length v \<Longrightarrow> j < length v \<Longrightarrow> mset (swap i j v) = mset v"
  by (simp add: swap_def mset_swap)

lemma nth_swap:
  "i < length v \<Longrightarrow> j < length v \<Longrightarrow> k < length v \<Longrightarrow> swap i j v ! k = (if k = i then v ! j else if k = j then v ! i else v ! k)"
  by (auto simp: swap_def nth_list_update)

lemma take_swap: "i < n \<Longrightarrow> j < n \<Longrightarrow> take n (swap i j v) = swap i j (take n v)"
  by (simp add: swap_def take_update_swap)

lemma drop_swap: "i < n \<Longrightarrow> j < n \<Longrightarrow> drop n (swap i j v) = drop n v"
  by (simp add: swap_def)

lemma parent_less: "0 < i \<Longrightarrow> parent i < i"
  by (auto simp: parent_def)

lemma parent_iff: "0 < i \<Longrightarrow> parent i = p \<longleftrightarrow> i = 2 * p + 1 \<or> i = 2 * p + 2"
  by (auto simp: parent_def)

locale total_preorder_rel =
  fixes le :: "'a \<Rightarrow> 'a \<Rightarrow> bool"
  assumes trans: "le x y \<Longrightarrow> le y z \<Longrightarrow> le x z"
    and total: "le x y \<or> le y x"
begin

lemma refl: "le x x"
  using total by blast

text \<open>Every element at or below position \<open>k\<close> is in order with its parent.\<close>

definition heap_from :: "'a list \<Rightarrow> nat \<Rightarrow> nat \<Rightarrow> bool" where
  "heap_from v n k \<longleftrightarrow> (\<forall>i. 0 < i \<longrightarrow> i < n \<longrightarrow> k \<le> parent i \<longrightarrow> le (v ! parent i) (v ! i))"

text \<open>The same, except between position \<open>p\<close> and its children, whose order with the parent of
  \<open>p\<close> is kept instead.\<close>

definition down_inv :: "'a list \<Rightarrow> nat \<Rightarrow> nat \<Rightarrow> nat \<Rightarrow> bool" where
  "down_inv v n k p \<longleftrightarrow> p < n \<and> n \<le> length v \<and> k \<le> p \<and>
     (\<forall>i. 0 < i \<longrightarrow> i < n \<longrightarrow> k \<le> parent i \<longrightarrow> parent i \<noteq> p \<longrightarrow> le (v ! parent i) (v ! i)) \<and>
     (\<forall>i. 0 < i \<longrightarrow> i < n \<longrightarrow> parent i = p \<longrightarrow> 0 < p \<longrightarrow> k \<le> parent p \<longrightarrow> le (v ! parent p) (v ! i))"

lemma down_inv_start: "p < n \<Longrightarrow> n \<le> length v \<Longrightarrow> heap_from v n (Suc p) \<Longrightarrow> down_inv v n p p"
proof -
  assume p: "p < n" "n \<le> length v" and h: "heap_from v n (Suc p)"
  have "le (v ! parent i) (v ! i)" if "0 < i" "i < n" "p \<le> parent i" "parent i \<noteq> p" for i
    using h that unfolding heap_from_def by simp
  moreover have "\<not> p \<le> parent p" if "0 < p" using parent_less [OF that] by simp
  ultimately show ?thesis using p unfolding down_inv_def by simp
qed

lemma down_inv_stop:
  assumes "down_inv v n k p" "\<And>i. 0 < i \<Longrightarrow> i < n \<Longrightarrow> parent i = p \<Longrightarrow> le (v ! p) (v ! i)"
  shows "heap_from v n k"
  unfolding heap_from_def
proof (intro allI impI)
  fix i assume "0 < i" "i < n" "k \<le> parent i"
  then show "le (v ! parent i) (v ! i)"
    using assms(1) assms(2) [of i] unfolding down_inv_def by (cases "parent i = p") simp_all
qed

lemma down_inv_swap:
  assumes inv: "down_inv v n k p" and c: "0 < c" "c < n" "parent c = p"
    and least: "\<And>i. 0 < i \<Longrightarrow> i < n \<Longrightarrow> parent i = p \<Longrightarrow> le (v ! c) (v ! i)" and le: "le (v ! c) (v ! p)"
  shows "down_inv (swap p c v) n k c"
proof -
  have p: "p < n" "n \<le> length v" "k \<le> p" using inv by (simp_all add: down_inv_def)
  have pc: "p < c" using parent_less c by fastforce
  have sw: "swap p c v ! j = (if j = p then v ! c else if j = c then v ! p else v ! j)" if "j < n" for j
    using p c(2) that by (simp add: nth_swap)
  have par: "parent i < n" if "0 < i" "i < n" for i using parent_less [OF that(1)] that(2) by simp
  have "le (swap p c v ! parent i) (swap p c v ! i)" if i: "0 < i" "i < n" "k \<le> parent i" "parent i \<noteq> c" for i
  proof (cases "parent i = p")
    case True
    then show ?thesis using i least [OF i(1,2)] le p(1) parent_less [OF i(1)] by (auto simp: sw)
  next
    case False
    then have old: "le (v ! parent i) (v ! i)" using inv i unfolding down_inv_def by blast
    show ?thesis
    proof (cases "i = p")
      case True
      then have "le (v ! parent p) (v ! c)" using inv i c unfolding down_inv_def by blast
      then show ?thesis using True i False par [OF i(1,2)] by (simp add: sw)
    next
      case neq: False
      then have "i \<noteq> c" using False c(3) by blast
      then show ?thesis using old neq i False par [OF i(1,2)] by (simp add: sw)
    qed
  qed
  moreover have "le (swap p c v ! parent c) (swap p c v ! i)" if i: "0 < i" "i < n" "parent i = c" for i
  proof -
    have "le (v ! c) (v ! i)" using inv i c p(3) pc unfolding down_inv_def by (metis le_trans less_imp_le nat_neq_iff)
    moreover have "i \<noteq> p" "i \<noteq> c" using parent_less [OF i(1)] i(3) pc by auto
    ultimately show ?thesis using c(3) i(2) p(1) by (simp add: sw)
  qed
  ultimately show ?thesis using p pc c unfolding down_inv_def by auto
qed

text \<open>The root of a heap precedes everything.\<close>

lemma heap_root:
  assumes "heap_from v n 0" "i < n"
  shows "le (v ! 0) (v ! i)"
  using assms(2)
proof (induction i rule: less_induct)
  case (less i)
  show ?case
  proof (cases "i = 0")
    case True
    then show ?thesis by (simp add: refl)
  next
    case False
    then have "parent i < i" "parent i < n" using parent_less [of i] less.prems by simp_all
    then have "le (v ! 0) (v ! parent i)" using less.IH by simp
    moreover have "le (v ! parent i) (v ! i)" using assms(1) False less.prems unfolding heap_from_def by simp
    ultimately show ?thesis using trans by blast
  qed
qed

text \<open>Sifting up: in order everywhere but between \<open>p\<close> and its parent.\<close>

definition up_inv :: "'a list \<Rightarrow> nat \<Rightarrow> nat \<Rightarrow> bool" where
  "up_inv v n p \<longleftrightarrow> p < n \<and> n \<le> length v \<and>
     (\<forall>i. 0 < i \<longrightarrow> i < n \<longrightarrow> i \<noteq> p \<longrightarrow> le (v ! parent i) (v ! i)) \<and>
     (\<forall>i. 0 < i \<longrightarrow> i < n \<longrightarrow> parent i = p \<longrightarrow> 0 < p \<longrightarrow> le (v ! parent p) (v ! i))"

lemma up_inv_stop: "up_inv v n p \<Longrightarrow> p = 0 \<or> le (v ! parent p) (v ! p) \<Longrightarrow> heap_from v n 0"
  unfolding up_inv_def heap_from_def by (metis less_not_refl)

lemma up_inv_swap:
  assumes inv: "up_inv v n p" and p0: "0 < p" and le: "le (v ! p) (v ! parent p)"
  shows "up_inv (swap p (parent p) v) n (parent p)"
proof -
  let ?q = "parent p"
  have p: "p < n" "n \<le> length v" "?q < p" using inv p0 parent_less by (simp_all add: up_inv_def)
  have sw: "swap p ?q v ! j = (if j = p then v ! ?q else if j = ?q then v ! p else v ! j)" if "j < n" for j
    using p that by (simp add: nth_swap)
  have ord: "le (v ! parent i) (v ! i)" if "0 < i" "i < n" "i \<noteq> p" for i using inv that unfolding up_inv_def by blast
  have par: "parent i < n" if "0 < i" "i < n" for i using parent_less [OF that(1)] that(2) by simp
  have "le (swap p ?q v ! parent i) (swap p ?q v ! i)" if i: "0 < i" "i < n" "i \<noteq> ?q" for i
  proof (cases "i = p")
    case True
    then show ?thesis using le p by (simp add: sw)
  next
    case False
    then have o: "le (v ! parent i) (v ! i)" using ord i by blast
    have "le (v ! p) (v ! i)" if "parent i = ?q" using o that le trans by auto
    moreover have "le (v ! ?q) (v ! i)" if "parent i = p" using inv i that p0 unfolding up_inv_def by blast
    ultimately show ?thesis using o i False par [OF i(1,2)] by (auto simp: sw)
  qed
  moreover have "le (swap p ?q v ! parent ?q) (swap p ?q v ! i)" if i: "0 < i" "i < n" "parent i = ?q" "0 < ?q" for i
  proof -
    have q: "parent ?q < ?q" "?q \<noteq> p" using parent_less [OF i(4)] p by auto
    have "le (v ! parent ?q) (v ! ?q)" using ord [OF i(4)] p by simp
    moreover have "le (v ! ?q) (v ! i)" if "i \<noteq> p" using ord [OF i(1,2) that] i(3) by simp
    ultimately have "le (v ! parent ?q) (if i = p then v ! ?q else v ! i)" using trans by auto
    moreover have "i \<noteq> ?q" using parent_less [OF i(1)] i(3) by auto
    ultimately show ?thesis using q i p by (cases "i = p") (simp_all add: sw)
  qed
  ultimately show ?thesis using p unfolding up_inv_def by simp
qed

end

section \<open>Bounded selection\<close>

text \<open>
  The contract of a container of at most \<open>cap\<close> elements that is offered elements one by one:
  while there is room it keeps them; afterwards it drops one element per offer, and what it
  drops is no better than anything it keeps. \<open>worse y z\<close> says that \<open>y\<close> is no better than \<open>z\<close>.
\<close>

locale bounded_selection = total_preorder_rel worse for worse :: "'x \<Rightarrow> 'x \<Rightarrow> bool" +
  fixes offer :: "'x \<Rightarrow> 's \<Rightarrow> 's"
    and contents :: "'s \<Rightarrow> 'x multiset"
    and cap :: "'s \<Rightarrow> nat"
    and inv :: "'s \<Rightarrow> bool"
    and ok :: "'x \<Rightarrow> bool"
  assumes offer_inv: "inv s \<Longrightarrow> ok x \<Longrightarrow> inv (offer x s) \<and> cap (offer x s) = cap s"
    and offer_size: "inv s \<Longrightarrow> ok x \<Longrightarrow> size (contents (offer x s)) = min (cap s) (Suc (size (contents s)))"
    and offer_drop: "inv s \<Longrightarrow> ok x \<Longrightarrow> \<exists>d. add_mset x (contents s) = contents (offer x s) + d \<and>
        (\<forall>y \<in># d. \<forall>z \<in># contents (offer x s). worse y z)"
begin

lemma offers_inv: "inv s \<Longrightarrow> list_all ok xs \<Longrightarrow> inv (fold offer xs s) \<and> cap (fold offer xs s) = cap s"
  by (induction xs arbitrary: s) (auto simp: offer_inv)

lemma offers_size:
  "inv s \<Longrightarrow> list_all ok xs \<Longrightarrow> size (contents s) \<le> cap s \<Longrightarrow> size (contents (fold offer xs s)) = min (cap s) (size (contents s) + length xs)"
proof (induction xs arbitrary: s)
  case (Cons x xs)
  then show ?case using offer_inv [of s x] offer_size [of s x] Cons.IH [of "offer x s"] by auto
qed simp

text \<open>Whatever the order of the offers, the container ends up with a best selection.\<close>

lemma offers_best:
  "inv s \<Longrightarrow> list_all ok xs \<Longrightarrow> size (contents s) \<le> cap s \<Longrightarrow> \<exists>d. contents s + mset xs = contents (fold offer xs s) + d \<and>
     (\<forall>y \<in># d. \<forall>z \<in># contents (fold offer xs s). worse y z)"
proof (induction xs arbitrary: s)
  case Nil
  then show ?case by (intro exI [of _ "{#}"]) simp
next
  case (Cons x xs)
  let ?s = "offer x s"
  have x: "ok x" "list_all ok xs" using Cons.prems by simp_all
  have inv: "inv ?s" "cap ?s = cap s" using offer_inv [OF _ x(1)] Cons.prems by auto
  have sz: "size (contents ?s) = min (cap s) (Suc (size (contents s)))" using offer_size [OF _ x(1)] Cons.prems by blast
  obtain d1 where d1: "add_mset x (contents s) = contents ?s + d1" "\<forall>y \<in># d1. \<forall>z \<in># contents ?s. worse y z"
    using offer_drop [OF _ x(1)] Cons.prems by blast
  define c where "c = contents (fold offer xs ?s)"
  obtain d2 where d2: "contents ?s + mset xs = c + d2" "\<forall>y \<in># d2. \<forall>z \<in># c. worse y z"
    using Cons.IH [of ?s] x inv sz unfolding c_def by auto
  have "worse y z" if y: "y \<in># d1" and z: "z \<in># c" for y z
  proof (cases "z \<in># contents ?s")
    case True
    then show ?thesis using d1(2) y by blast
  next
    case False
    have "size (contents ?s) = cap s"
    proof -
      have "Suc (size (contents s)) = size (contents ?s) + size d1" using arg_cong [OF d1(1), of size] by simp
      moreover have "size d1 > 0" using y by (auto simp: nonempty_has_size [symmetric])
      ultimately show ?thesis using sz Cons.prems(3) by linarith
    qed
    then have "size c = size (contents ?s)"
      using offers_size [of ?s xs] x inv sz unfolding c_def by simp
    then have "\<not> contents ?s \<subseteq># c"
      using False z by (metis mset_subset_size nat_neq_iff subset_mset.less_le)
    then obtain u where "Multiset.count c u < Multiset.count (contents ?s) u" by (auto simp: subseteq_mset_def not_le)
    moreover have "Multiset.count (contents ?s) u + Multiset.count (mset xs) u = Multiset.count c u + Multiset.count d2 u"
      using arg_cong [OF d2(1), of "\<lambda>m. Multiset.count m u"] by simp
    ultimately have "u \<in># d2" "u \<in># contents ?s" by (simp_all only: Multiset.count_greater_zero_iff [symmetric])
    then show ?thesis using d1(2) d2(2) y z trans by blast
  qed
  moreover have "contents s + mset (x # xs) = c + (d1 + d2)"
  proof -
    have "contents s + mset (x # xs) = add_mset x (contents s) + mset xs" by simp
    also have "\<dots> = (contents ?s + mset xs) + d1" using d1(1) by (simp add: ac_simps)
    also have "\<dots> = c + (d1 + d2)" using d2(1) by (simp add: ac_simps)
    finally show ?thesis .
  qed
  ultimately show ?case using d2(2) unfolding c_def by (intro exI [of _ "d1 + d2"]) auto
qed

end

end
