(* ===== verification/Priority_Queue.thy ===== *)
theory Priority_Queue
  imports Heap_Array Bytes
begin

text \<open>
  The bounded priority queue of the suggestion service (\<open>index_read/priority_queue.h\<close>): an
  array of \<open>count\<close> pairs of which the first \<open>size\<close> are a binary heap with the least frequency
  at the root. Once the queue is full a new pair displaces the root when it is more frequent.
  Positions are natural numbers: the code's \<open>int\<close> positions stay below twice the capacity.
  The queue is shown to be a heap after every operation, and a best selection of everything it
  has been offered.
\<close>

section \<open>The queue\<close>

type_synonym PAIR = "u32 \<times> byte list"

definition CmpByValue :: "PAIR \<Rightarrow> PAIR \<Rightarrow> bool" where
  "CmpByValue lhs rhs \<longleftrightarrow> fst lhs > fst rhs"

record PriorityQueue =
  pairs :: "PAIR list"
  pq_size :: nat
  pq_count :: nat

definition Parent :: "nat \<Rightarrow> nat" where
  "Parent pos = (pos - 1) div 2"

definition Left :: "nat \<Rightarrow> nat" where
  "Left pos = pos * 2 + 1"

definition Right :: "nat \<Rightarrow> nat" where
  "Right pos = pos * 2 + 2"

text \<open>A negative length makes the vector's constructor throw.\<close>

definition new_PriorityQueue :: "int \<Rightarrow> PriorityQueue option" where
  "new_PriorityQueue len =
     (if len < 0 then None
      else Some \<lparr>pairs = replicate (nat len) (0, []), pq_size = 0, pq_count = nat len\<rparr>)"

text \<open>The child that is less frequent than \<open>pos\<close> and its sibling, or \<open>pos\<close>.\<close>

definition min_pos :: "PAIR list \<Rightarrow> nat \<Rightarrow> nat \<Rightarrow> nat" where
  "min_pos v n pos =
     (let m = (if Left pos < n \<and> fst (v ! pos) > fst (v ! Left pos) then Left pos else pos)
      in if Right pos < n \<and> fst (v ! m) > fst (v ! Right pos) then Right pos else m)"

lemma min_pos_bounds: "min_pos v n pos \<noteq> pos \<Longrightarrow> pos < min_pos v n pos \<and> min_pos v n pos < n"
  by (auto simp: min_pos_def Let_def Left_def Right_def split: if_splits)

function MinHeapIfy :: "nat \<Rightarrow> PriorityQueue \<Rightarrow> PriorityQueue" where
  "MinHeapIfy pos q =
     (let minPos = min_pos (pairs q) (pq_size q) pos in
      if minPos \<noteq> pos then MinHeapIfy minPos (q\<lparr>pairs := swap pos minPos (pairs q)\<rparr>) else q)"
  by pat_completeness auto

termination
  by (relation "measure (\<lambda>(pos, q). pq_size q - pos)") (auto dest: min_pos_bounds intro: diff_less_mono2)

definition DeQueue :: "PriorityQueue \<Rightarrow> bool \<times> PriorityQueue" where
  "DeQueue q =
     (if pq_size q < 1 then (False, q)
      else let n = pq_size q - 1;
               q1 = q\<lparr>pairs := (pairs q)[0 := pairs q ! n], pq_size := n\<rparr>
           in if n = 0 then (True, q1) else (True, MinHeapIfy 0 q1))"

text \<open>The loop that lifts position \<open>i\<close> while it is less frequent than its parent.\<close>

function lift_up :: "nat \<Rightarrow> PAIR list \<Rightarrow> PAIR list" where
  "lift_up i v =
     (if i > 0 \<and> fst (v ! i) < fst (v ! Parent i) then lift_up (Parent i) (swap i (Parent i) v) else v)"
  by pat_completeness auto

termination
  by (relation "measure fst") (auto simp: Parent_def)

text \<open>A queue of capacity zero is full from the start, and reads \<open>pairs[0]\<close> outside its vector.\<close>

definition EnQueue :: "PAIR \<Rightarrow> PriorityQueue \<Rightarrow> (bool \<times> PriorityQueue) option" where
  "EnQueue val q =
     (if pq_size q \<ge> pq_count q \<and> pairs q = [] then None
      else if pq_size q \<ge> pq_count q \<and> fst (pairs q ! 0) \<ge> fst val then Some (True, q)
      else let q1 = (if pq_size q \<ge> pq_count q then snd (DeQueue q) else q);
               i = pq_size q1
           in Some (True, q1\<lparr>pairs := lift_up i ((pairs q1)[i := val]), pq_size := Suc i\<rparr>))"

text \<open>\<open>std::sort\<close> is the argument \<open>std_sort\<close>: it gets the comparator and the vector.\<close>

definition GetElements :: "((PAIR \<Rightarrow> PAIR \<Rightarrow> bool) \<Rightarrow> PAIR list \<Rightarrow> PAIR list) \<Rightarrow> PriorityQueue \<Rightarrow> byte list list" where
  "GetElements std_sort q =
     (if pq_size q = 0 then []
      else if pq_size q = 1 then [snd (pairs q ! 0)]
      else map snd (std_sort CmpByValue (take (pq_size q) (pairs q))))"

definition GetSize :: "PriorityQueue \<Rightarrow> nat" where
  "GetSize q = pq_size q"

definition Top :: "PriorityQueue \<Rightarrow> PAIR option" where
  "Top q = (if pq_size q < 1 then None else Some (pairs q ! 0))"

declare MinHeapIfy.simps [simp del] lift_up.simps [simp del]

section \<open>The heap invariant\<close>

definition no_more_frequent :: "PAIR \<Rightarrow> PAIR \<Rightarrow> bool" where
  "no_more_frequent p q \<longleftrightarrow> fst p \<le> fst q"

interpretation freq: total_preorder_rel no_more_frequent
  by unfold_locales (auto simp: no_more_frequent_def)

definition pq_wf :: "PriorityQueue \<Rightarrow> bool" where
  "pq_wf q \<longleftrightarrow> length (pairs q) = pq_count q \<and> pq_size q \<le> pq_count q"

definition pq_inv :: "PriorityQueue \<Rightarrow> bool" where
  "pq_inv q \<longleftrightarrow> pq_wf q \<and> freq.heap_from (pairs q) (pq_size q) 0"

definition pq_contents :: "PriorityQueue \<Rightarrow> PAIR multiset" where
  "pq_contents q = mset (take (pq_size q) (pairs q))"

lemma Parent_parent: "Parent = parent"
  by (rule ext) (simp add: Parent_def parent_def)

lemma size_pq_contents: "pq_wf q \<Longrightarrow> size (pq_contents q) = pq_size q"
  by (simp add: pq_contents_def pq_wf_def)

lemma new_PriorityQueue_inv: "new_PriorityQueue len = Some q \<Longrightarrow> pq_inv q \<and> pq_count q = nat len \<and> pq_contents q = {#}"
  by (auto simp: new_PriorityQueue_def pq_inv_def pq_wf_def freq.heap_from_def pq_contents_def split: if_splits)

text \<open>The position found is a child whenever it is not \<open>pos\<close>, and precedes both children.\<close>

lemma min_pos_child: "min_pos v n p \<noteq> p \<Longrightarrow> parent (min_pos v n p) = p"
  by (auto simp: min_pos_def Let_def Left_def Right_def parent_def)

lemma min_pos_least:
  assumes "0 < i" "i < n" "parent i = p"
  shows "no_more_frequent (v ! min_pos v n p) (v ! i)"
proof -
  have "i = Left p \<or> i = Right p" using parent_iff [OF assms(1), of p] assms(3) by (simp add: Left_def Right_def mult.commute)
  then show ?thesis using assms(2)
    by (auto simp: min_pos_def Let_def no_more_frequent_def Left_def Right_def not_less)
qed

lemma min_pos_le: "no_more_frequent (v ! min_pos v n p) (v ! p)"
  by (auto simp: min_pos_def Let_def no_more_frequent_def not_less)

lemma MinHeapIfy_heap:
  "freq.down_inv (pairs q) (pq_size q) 0 pos \<Longrightarrow> pq_wf q \<Longrightarrow>
   pq_inv (MinHeapIfy pos q) \<and> pq_contents (MinHeapIfy pos q) = pq_contents q \<and>
   pq_size (MinHeapIfy pos q) = pq_size q \<and> pq_count (MinHeapIfy pos q) = pq_count q"
proof (induction pos q rule: MinHeapIfy.induct)
  case (1 pos q)
  define c where "c = min_pos (pairs q) (pq_size q) pos"
  define q' where "q' = q\<lparr>pairs := swap pos c (pairs q)\<rparr>"
  have pos: "pos < pq_size q" "pq_size q \<le> length (pairs q)" using 1(2) by (simp_all add: freq.down_inv_def)
  show ?case
  proof (cases "c = pos")
    case True
    have "freq.heap_from (pairs q) (pq_size q) 0"
      using freq.down_inv_stop [OF 1(2)] min_pos_least True unfolding c_def by metis
    moreover have "MinHeapIfy pos q = q" using True unfolding MinHeapIfy.simps [of pos q] Let_def c_def [symmetric] by simp
    ultimately show ?thesis using 1(3) by (simp add: pq_inv_def)
  next
    case False
    have c: "pos < c" "c < pq_size q" "parent c = pos"
      using False min_pos_bounds [of "pairs q"] min_pos_child [of "pairs q"] unfolding c_def by blast+
    have least: "no_more_frequent (pairs q ! c) (pairs q ! i)" if "0 < i" "i < pq_size q" "parent i = pos" for i
      using min_pos_least [OF that] unfolding c_def by simp
    have le: "no_more_frequent (pairs q ! c) (pairs q ! pos)" unfolding c_def by (rule min_pos_le)
    have c0: "0 < c" using c(1) by simp
    have eqs: "pairs q' = swap pos c (pairs q)" "pq_size q' = pq_size q" by (simp_all add: q'_def)
    have "freq.down_inv (pairs q') (pq_size q') 0 c"
      unfolding eqs by (rule freq.down_inv_swap [OF 1(2) c0 c(2,3) _ le]) (rule least)
    moreover have "pq_wf q'" using 1(3) by (simp add: q'_def pq_wf_def)
    moreover have "pq_contents q' = pq_contents q"
      using c pos by (simp add: pq_contents_def q'_def take_swap)
    moreover have "MinHeapIfy pos q = MinHeapIfy c q'"
      using False unfolding MinHeapIfy.simps [of pos q] Let_def c_def [symmetric] q'_def by simp
    moreover have "pq_size q' = pq_size q" "pq_count q' = pq_count q" by (simp_all add: q'_def)
    ultimately show ?thesis using 1(1) [OF c_def False] unfolding q'_def [symmetric] by simp
  qed
qed

lemma mset_take_replace_root:
  assumes "n < length v" shows "add_mset (v ! 0) (mset (take n (v[0 := v ! n]))) = mset (take (Suc n) v)"
proof (cases n)
  case 0
  then show ?thesis using assms by (cases v) simp_all
next
  case (Suc m)
  then obtain x u where v: "v = x # u" using assms by (cases v) simp_all
  show ?thesis using assms unfolding v Suc by (simp add: take_Suc_conv_app_nth)
qed

text \<open>Removing the root: what remains is a heap without one least frequent pair.\<close>

lemma DeQueue_inv:
  assumes inv: "pq_inv q" and n: "0 < pq_size q"
  shows "\<exists>q'. DeQueue q = (True, q') \<and> pq_inv q' \<and> pq_count q' = pq_count q \<and> Suc (pq_size q') = pq_size q \<and>
    pq_contents q = add_mset (pairs q ! 0) (pq_contents q')"
proof -
  define q1 where "q1 = q\<lparr>pairs := (pairs q)[0 := pairs q ! (pq_size q - 1)], pq_size := pq_size q - 1\<rparr>"
  have wf: "pq_wf q1" using inv by (auto simp: pq_inv_def pq_wf_def q1_def)
  have cont: "pq_contents q = add_mset (pairs q ! 0) (pq_contents q1)"
    using mset_take_replace_root [of "pq_size q - 1" "pairs q"] inv n by (cases "pq_size q") (simp_all add: pq_contents_def q1_def pq_inv_def pq_wf_def)
  show ?thesis
  proof (cases "pq_size q = 1")
    case True
    then have "DeQueue q = (True, q1)" by (simp add: DeQueue_def q1_def Let_def)
    moreover have "pq_inv q1" using wf True by (simp add: pq_inv_def freq.heap_from_def q1_def)
    ultimately show ?thesis using cont n by (simp add: q1_def)
  next
    case False
    then have D: "DeQueue q = (True, MinHeapIfy 0 q1)" using n by (simp add: DeQueue_def q1_def Let_def)
    have "freq.heap_from (pairs q1) (pq_size q1) (Suc 0)"
      using inv unfolding freq.heap_from_def pq_inv_def q1_def by auto
    then have "freq.down_inv (pairs q1) (pq_size q1) 0 0"
      using freq.down_inv_start [of 0] wf False n by (simp add: q1_def pq_wf_def)
    from MinHeapIfy_heap [OF this wf] show ?thesis using D cont n by (simp add: q1_def)
  qed
qed

lemma lift_up_heap:
  "freq.up_inv v n i \<Longrightarrow> freq.heap_from (lift_up i v) n 0 \<and> length (lift_up i v) = length v \<and>
   mset (take n (lift_up i v)) = mset (take n v)"
proof (induction i v rule: lift_up.induct)
  case (1 i v)
  have i: "i < n" "n \<le> length v" using 1(2) by (simp_all add: freq.up_inv_def)
  show ?case
  proof (cases "i > 0 \<and> fst (v ! i) < fst (v ! Parent i)")
    case False
    then have "i = 0 \<or> no_more_frequent (v ! parent i) (v ! i)" by (auto simp: no_more_frequent_def Parent_parent)
    moreover have "lift_up i v = v" using False by (subst lift_up.simps) auto
    ultimately show ?thesis using freq.up_inv_stop [OF 1(2)] by simp
  next
    case True
    then have "0 < i" "no_more_frequent (v ! i) (v ! parent i)" by (auto simp: no_more_frequent_def Parent_parent)
    then have "freq.up_inv (swap i (parent i) v) n (parent i)" by (rule freq.up_inv_swap [OF 1(2)])
    moreover have "parent i < n" using parent_less [of i] True i by simp
    ultimately show ?thesis using 1(1) [OF True] True i by (simp add: lift_up.simps [of i v] Parent_parent take_swap)
  qed
qed

text \<open>Appending a pair to a queue with room.\<close>

lemma append_inv:
  fixes val :: PAIR
  assumes inv: "pq_inv q" and n: "pq_size q < pq_count q"
  defines "q' \<equiv> q\<lparr>pairs := lift_up (pq_size q) ((pairs q)[pq_size q := val]), pq_size := Suc (pq_size q)\<rparr>"
  shows "pq_inv q'" "pq_contents q' = add_mset val (pq_contents q)"
proof -
  let ?n = "pq_size q" and ?v = "(pairs q)[pq_size q := val]"
  have len: "?n < length (pairs q)" using inv n by (simp add: pq_inv_def pq_wf_def)
  have old: "no_more_frequent (pairs q ! parent i) (pairs q ! i)" if "0 < i" "i < ?n" for i
    using inv that by (simp add: pq_inv_def freq.heap_from_def)
  have "no_more_frequent (?v ! parent i) (?v ! i)" if "0 < i" "i < Suc ?n" "i \<noteq> ?n" for i
    using old [of i] that parent_less [of i] by simp
  moreover have "\<not> (0 < i \<and> i < Suc ?n \<and> parent i = ?n)" for i using parent_less [of i] by auto
  ultimately have up: "freq.up_inv ?v (Suc ?n) ?n" using len unfolding freq.up_inv_def by auto
  have "take (Suc ?n) ?v = take ?n (pairs q) @ [val]" using len by (simp add: take_Suc_conv_app_nth)
  then show "pq_contents q' = add_mset val (pq_contents q)"
    using lift_up_heap [OF up] by (simp add: q'_def pq_contents_def)
  show "pq_inv q'" using lift_up_heap [OF up] len inv by (simp add: q'_def pq_inv_def pq_wf_def)
qed

text \<open>The contract of one offer: it never fails, and what it drops is a least frequent pair.\<close>

lemma EnQueue_contract:
  assumes inv: "pq_inv q" and cap: "0 < pq_count q"
  shows "\<exists>q' d. EnQueue val q = Some (True, q') \<and> pq_inv q' \<and> pq_count q' = pq_count q \<and>
    pq_size q' = min (pq_count q) (Suc (pq_size q)) \<and> add_mset val (pq_contents q) = pq_contents q' + d \<and>
    (\<forall>y \<in># d. \<forall>z \<in># pq_contents q'. no_more_frequent y z)"
proof -
  have wf: "length (pairs q) = pq_count q" "pq_size q \<le> pq_count q" using inv by (simp_all add: pq_inv_def pq_wf_def)
  have root: "no_more_frequent (pairs q ! 0) y" if "y \<in># pq_contents q" for y
  proof -
    from that obtain i where "i < pq_size q" "y = pairs q ! i" by (auto simp: pq_contents_def in_set_conv_nth)
    then show ?thesis using freq.heap_root [of "pairs q" "pq_size q" i] inv by (simp add: pq_inv_def)
  qed
  consider (room) "pq_size q < pq_count q" | (skip) "pq_size q = pq_count q" "fst val \<le> fst (pairs q ! 0)"
    | (displace) "pq_size q = pq_count q" "fst (pairs q ! 0) < fst val" using wf(2) by fastforce
  then show ?thesis
  proof cases
    case room
    let ?q = "q\<lparr>pairs := lift_up (pq_size q) ((pairs q)[pq_size q := val]), pq_size := Suc (pq_size q)\<rparr>"
    have "EnQueue val q = Some (True, ?q)" using room by (simp add: EnQueue_def Let_def)
    then show ?thesis using append_inv [OF inv room, of val] room by (intro exI [of _ ?q] exI [of _ "{#}"]) simp
  next
    case skip
    then have "no_more_frequent val z" if "z \<in># pq_contents q" for z
      using root [OF that] by (auto simp: no_more_frequent_def)
    then show ?thesis using skip wf cap inv
      by (intro exI [of _ q] exI [of _ "{#val#}"]) (auto simp: EnQueue_def)
  next
    case displace
    obtain q1 where q1: "DeQueue q = (True, q1)" "pq_inv q1" "pq_count q1 = pq_count q" "Suc (pq_size q1) = pq_size q"
      "pq_contents q = add_mset (pairs q ! 0) (pq_contents q1)" using DeQueue_inv [OF inv] displace cap by auto
    let ?q = "q1\<lparr>pairs := lift_up (pq_size q1) ((pairs q1)[pq_size q1 := val]), pq_size := Suc (pq_size q1)\<rparr>"
    have "EnQueue val q = Some (True, ?q)" using displace q1 wf cap by (auto simp: EnQueue_def Let_def)
    moreover have new: "pq_inv ?q" "pq_contents ?q = add_mset val (pq_contents q1)"
      using append_inv [OF q1(2)] q1 displace by simp_all
    moreover have "no_more_frequent (pairs q ! 0) z" if "z \<in># pq_contents ?q" for z
      using that new(2) root [of z] q1(5) displace by (auto simp: no_more_frequent_def)
    ultimately show ?thesis using q1 displace
      by (intro exI [of _ ?q] exI [of _ "{#pairs q ! 0#}"]) auto
  qed
qed

definition enqueued :: "PAIR \<Rightarrow> PriorityQueue \<Rightarrow> PriorityQueue" where
  "enqueued val q = snd (the (EnQueue val q))"

definition pq_ready :: "PriorityQueue \<Rightarrow> bool" where
  "pq_ready q \<longleftrightarrow> pq_inv q \<and> 0 < pq_count q"

lemma EnQueue_enqueued: "pq_ready q \<Longrightarrow> EnQueue val q = Some (True, enqueued val q)"
  using EnQueue_contract [of q val] by (auto simp: pq_ready_def enqueued_def)

lemma pq_ready_size: "pq_ready q \<Longrightarrow> size (pq_contents q) = pq_size q \<and> pq_size q \<le> pq_count q"
  by (auto simp: pq_ready_def pq_inv_def pq_wf_def size_pq_contents)

interpretation best: bounded_selection no_more_frequent enqueued pq_contents pq_count pq_ready "\<lambda>_. True"
proof
  fix q val assume ready: "pq_ready q"
  then obtain d where *: "pq_inv (enqueued val q)" "pq_count (enqueued val q) = pq_count q"
    "pq_size (enqueued val q) = min (pq_count q) (Suc (pq_size q))" "add_mset val (pq_contents q) = pq_contents (enqueued val q) + d"
    "\<forall>y \<in># d. \<forall>z \<in># pq_contents (enqueued val q). no_more_frequent y z"
    using EnQueue_contract [of q val] EnQueue_enqueued [of q val] unfolding pq_ready_def by auto
  have r: "pq_ready (enqueued val q)" using * ready by (simp add: pq_ready_def)
  then show "pq_ready (enqueued val q) \<and> pq_count (enqueued val q) = pq_count q" using * by simp
  show "size (pq_contents (enqueued val q)) = min (pq_count q) (Suc (size (pq_contents q)))"
    using * pq_ready_size [OF r] pq_ready_size [OF ready] by simp
  show "\<exists>d. add_mset val (pq_contents q) = pq_contents (enqueued val q) + d \<and>
      (\<forall>y \<in># d. \<forall>z \<in># pq_contents (enqueued val q). no_more_frequent y z)" using * by blast
qed

section \<open>Properties\<close>

text \<open>A sequence of calls of \<open>EnQueue\<close>.\<close>

fun EnQueue_all :: "PAIR list \<Rightarrow> PriorityQueue \<Rightarrow> PriorityQueue option" where
  "EnQueue_all [] q = Some q"
| "EnQueue_all (v # vs) q = (case EnQueue v q of None \<Rightarrow> None | Some (_, q') \<Rightarrow> EnQueue_all vs q')"

lemma EnQueue_all_fold: "pq_ready q \<Longrightarrow> EnQueue_all vs q = Some (fold enqueued vs q)"
  by (induction vs arbitrary: q) (simp_all add: EnQueue_enqueued best.offer_inv)

text \<open>
  (C12) A queue of positive capacity accepts every sequence of pairs. It is a heap afterwards and
  holds as many of the pairs as fit, and every pair it has dropped is no more frequent than
  every pair it kept.
\<close>

theorem queue_keeps_most_frequent:
  assumes "0 < len"
  shows "\<exists>q0 q dropped. new_PriorityQueue len = Some q0 \<and> EnQueue_all vals q0 = Some q \<and> pq_inv q \<and>
    GetSize q = min (nat len) (length vals) \<and> mset vals = pq_contents q + dropped \<and>
    (\<forall>y \<in># dropped. \<forall>z \<in># pq_contents q. fst y \<le> fst z)"
proof -
  obtain q0 where q0: "new_PriorityQueue len = Some q0" using assms by (simp add: new_PriorityQueue_def)
  note new = new_PriorityQueue_inv [OF q0]
  have ready: "pq_ready q0" using new assms by (simp add: pq_ready_def)
  have r: "pq_ready (fold enqueued vals q0)" using best.offers_inv [OF ready, of vals] by (simp add: list_all_iff)
  show ?thesis
    using q0 EnQueue_all_fold [OF ready] r best.offers_size [OF ready, of vals] best.offers_best [OF ready, of vals]
      pq_ready_size [OF r] new
    unfolding GetSize_def by (auto simp: no_more_frequent_def pq_ready_def list_all_iff)
qed

theorem queue_keeps_most_frequent_witness:
  "\<exists>q0 q dropped. new_PriorityQueue 2 = Some q0 \<and> EnQueue_all [(5, [97]), (9, [98]), (7, [99])] q0 = Some q \<and> pq_inv q \<and>
    GetSize q = min (nat 2) (length [(5 :: u32, [97 :: byte]), (9, [98]), (7, [99])]) \<and>
    mset [(5, [97]), (9, [98]), (7, [99])] = pq_contents q + dropped \<and> (\<forall>y \<in># dropped. \<forall>z \<in># pq_contents q. fst y \<le> fst z)"
  by (rule queue_keeps_most_frequent) simp

text \<open>
  (C13) \<open>Top\<close> shows a least frequent pair of a non-empty queue, and \<open>DeQueue\<close> removes exactly that
  pair and leaves a heap; on an empty queue both answer that there is none.
\<close>

theorem dequeue_removes_least:
  assumes "pq_inv q"
  shows "(GetSize q = 0 \<longrightarrow> Top q = None \<and> DeQueue q = (False, q)) \<and>
    (GetSize q > 0 \<longrightarrow> (\<exists>t q'. Top q = Some t \<and> DeQueue q = (True, q') \<and> pq_inv q' \<and>
       pq_contents q = add_mset t (pq_contents q') \<and> (\<forall>z \<in># pq_contents q. fst t \<le> fst z)))"
proof -
  have "fst (pairs q ! 0) \<le> fst z" if "z \<in># pq_contents q" for z
    using that assms freq.heap_root by (auto simp: pq_contents_def in_set_conv_nth pq_inv_def no_more_frequent_def)
  then show ?thesis
    using DeQueue_inv [OF assms] by (auto simp: GetSize_def Top_def DeQueue_def)
qed

definition sample_queue :: PriorityQueue where
  "sample_queue = \<lparr>pairs = [(5, [97]), (9, [98]), (7, [99]), (0, [])], pq_size = 3, pq_count = 4\<rparr>"

lemma sample_queue_inv: "pq_inv sample_queue"
proof -
  have "0 < i \<and> i < 3 \<longleftrightarrow> i = 1 \<or> i = 2" for i :: nat by arith
  then have "(\<forall>i. 0 < i \<longrightarrow> i < 3 \<longrightarrow> P i) \<longleftrightarrow> P 1 \<and> P (2 :: nat)" for P by metis
  then show ?thesis
    by (simp add: pq_inv_def pq_wf_def sample_queue_def freq.heap_from_def no_more_frequent_def parent_def)
qed

theorem dequeue_removes_least_witness:
  "\<exists>t q'. Top sample_queue = Some t \<and> DeQueue sample_queue = (True, q') \<and> pq_inv q' \<and>
     pq_contents sample_queue = add_mset t (pq_contents q') \<and> (\<forall>z \<in># pq_contents sample_queue. fst t \<le> fst z)"
  using dequeue_removes_least [OF sample_queue_inv] by (simp add: GetSize_def sample_queue_def)

text \<open>
  (C14) \<open>GetElements\<close> returns the words of the queue, most frequent first, given that \<open>std::sort\<close>
  permutes its range into one in which no element is before a smaller one.
\<close>

theorem get_elements_order:
  assumes "pq_inv q" and "\<And>v. mset (std_sort CmpByValue v) = mset v"
    and "\<And>v. sorted_wrt (\<lambda>x y. \<not> CmpByValue y x) (std_sort CmpByValue v)"
  shows "\<exists>ps. GetElements std_sort q = map snd ps \<and> mset ps = pq_contents q \<and> sorted_wrt (\<lambda>x y. fst x \<ge> fst y) ps"
proof (cases "pq_size q \<le> 1")
  case True
  then consider "pq_size q = 0" | "pq_size q = 1" by linarith
  then show ?thesis
  proof cases
    case 2
    then have "take 1 (pairs q) = [pairs q ! 0]"
      using assms(1) by (cases "pairs q") (auto simp: pq_inv_def pq_wf_def)
    then show ?thesis using 2 by (intro exI [of _ "[pairs q ! 0]"]) (simp add: GetElements_def pq_contents_def)
  qed (simp add: GetElements_def pq_contents_def)
next
  case False
  let ?ps = "std_sort CmpByValue (take (pq_size q) (pairs q))"
  have "sorted_wrt (\<lambda>x y. fst x \<ge> fst y) ?ps" using assms(3) by (simp add: CmpByValue_def not_less)
  then show ?thesis using False assms(2) by (intro exI [of _ ?ps]) (simp add: GetElements_def pq_contents_def)
qed

text \<open>Sorting by frequency and reversing is a sort of the kind the code relies on.\<close>

definition sort_by_freq :: "(PAIR \<Rightarrow> PAIR \<Rightarrow> bool) \<Rightarrow> PAIR list \<Rightarrow> PAIR list" where
  "sort_by_freq cmp v = rev (sort_key fst v)"

theorem get_elements_order_witness:
  "\<exists>ps. GetElements sort_by_freq sample_queue = map snd ps \<and> mset ps = pq_contents sample_queue \<and>
     sorted_wrt (\<lambda>x y. fst x \<ge> fst y) ps"
proof (rule get_elements_order [OF sample_queue_inv])
  fix v :: "PAIR list"
  show "mset (sort_by_freq CmpByValue v) = mset v" by (simp add: sort_by_freq_def)
  have "sorted_wrt (\<lambda>x y. fst x \<le> fst y) (sort_key fst v)" using sorted_sort_key [of fst v] by (simp add: sorted_wrt_map)
  then show "sorted_wrt (\<lambda>x y. \<not> CmpByValue y x) (sort_by_freq CmpByValue v)"
    by (simp add: sort_by_freq_def sorted_wrt_rev CmpByValue_def not_less)
qed

text \<open>A queue of capacity zero cannot take anything: the code reads the root of an empty vector.\<close>

lemma zero_capacity_reads_outside: "new_PriorityQueue 0 = Some q \<Longrightarrow> EnQueue val q = None"
  by (auto simp: new_PriorityQueue_def EnQueue_def)

end
