(* ===== verification/Utf8_Str.thy ===== *)
theory Utf8_Str
  imports Bytes "HOL-Library.Sublist"
begin

text \<open>
  UTF-8 strings by character (\<open>comm/utf8_str.cc\<close>): the table of the offsets at which characters
  start, access by character index, and \<open>splitEx\<close>, the separator split the services use.
  Reading the table outside its bounds is \<open>None\<close>, as is an overflow of an \<open>int\<close>; a string is
  shorter than \<open>2^31\<close> bytes.
\<close>

section \<open>Character offsets\<close>

record iutf8string =
  u8_data :: "byte list"
  offerset :: "nat list"
  u8_length :: nat

text \<open>A byte starts a character when it is positive as a \<open>signed char\<close> or has bit 6 set.\<close>

definition char_start :: "byte \<Rightarrow> bool" where
  "char_start b \<longleftrightarrow> 0 < sint b \<or> bit b 6"

text \<open>The loop of \<open>refresh\<close> from index \<open>i\<close>, over the bytes that are left, and the table it fills.\<close>

fun refresh_loop :: "byte list \<Rightarrow> nat \<Rightarrow> nat list \<Rightarrow> nat list" where
  "refresh_loop [] i tmp = tmp"
| "refresh_loop (b # bs) i tmp = refresh_loop bs (Suc i) (if char_start b then tmp @ [i] else tmp)"

definition refresh :: "byte list \<Rightarrow> iutf8string" where
  "refresh d =
     (let tmp = refresh_loop d 0 [] in \<lparr>u8_data = d, offerset = tmp @ [length d], u8_length = length tmp\<rparr>)"

definition iutf8string_of :: "byte list \<Rightarrow> iutf8string" where
  "iutf8string_of str = refresh str"

text \<open>The constructor from a \<open>const char *\<close> stops at the first NUL.\<close>

definition iutf8string_of_cstr :: "byte list \<Rightarrow> iutf8string" where
  "iutf8string_of_cstr str = refresh (takeWhile (\<lambda>b. b \<noteq> 0) str)"

definition stlstring :: "iutf8string \<Rightarrow> byte list" where
  "stlstring u = u8_data u"

definition u8_plus :: "iutf8string \<Rightarrow> iutf8string \<Rightarrow> iutf8string" where
  "u8_plus u ustr = iutf8string_of (u8_data u @ stlstring ustr)"

definition u8_len :: "iutf8string \<Rightarrow> nat" where
  "u8_len u = u8_length u"

text \<open>\<open>std::string::substr\<close>: a negative count is a huge \<open>size_t\<close>, so it takes the rest.\<close>

definition std_substr :: "byte list \<Rightarrow> nat \<Rightarrow> int \<Rightarrow> byte list option" where
  "std_substr s pos n =
     (if pos > length s then None
      else Some (if n < 0 then drop pos s else take (nat n) (drop pos s)))"

definition u8_get :: "iutf8string \<Rightarrow> int \<Rightarrow> byte list option" where
  "u8_get u index =
     (if index \<ge> int (u8_length u) then Some []
      else if index < 0 then None
      else std_substr (u8_data u) (offerset u ! nat index)
             (int (offerset u ! (nat index + 1)) - int (offerset u ! nat index)))"

definition u8_substr :: "iutf8string \<Rightarrow> int \<Rightarrow> int \<Rightarrow> byte list option" where
  "u8_substr u start len =
     (if start + len \<ge> 2 ^ 31 \<or> start + len < - (2 ^ 31) then None
      else if start + len > int (u8_length u) then Some []
      else if start < 0 \<or> start > int (u8_length u) \<or> start + len < 0 then None
      else std_substr (u8_data u) (offerset u ! nat start)
             (int (offerset u ! nat (start + len)) - int (offerset u ! nat start)))"

definition utf8substr :: "iutf8string \<Rightarrow> int \<Rightarrow> int \<Rightarrow> iutf8string option" where
  "utf8substr u start len = map_option iutf8string_of (u8_substr u start len)"

section \<open>The offset table\<close>

definition starts :: "byte list \<Rightarrow> nat \<Rightarrow> nat list" where
  "starts d i = map (\<lambda>k. k + i) (filter (\<lambda>k. char_start (d ! k)) [0..<length d])"

lemma starts_Nil [simp]: "starts [] i = []"
  by (simp add: starts_def)

lemma starts_Cons: "starts (b # d) i = (if char_start b then [i] else []) @ starts d (Suc i)"
proof -
  have "[0..<Suc (length d)] = 0 # map Suc [0..<length d]" by (simp add: upt_conv_Cons map_Suc_upt del: upt_Suc)
  then show ?thesis by (simp add: starts_def filter_map comp_def)
qed

lemma refresh_loop_starts: "refresh_loop d i tmp = tmp @ starts d i"
  by (induction d i tmp rule: refresh_loop.induct) (simp_all add: starts_Cons)

lemma starts_append: "starts (a @ b) i = starts a i @ starts b (i + length a)"
  by (induction a arbitrary: i) (simp_all add: starts_Cons)

lemma sorted_starts: "sorted_wrt (<) (starts d i)"
  by (simp add: starts_def sorted_wrt_map sorted_wrt_filter)

lemma set_starts: "set (starts d i) = {k + i |k. k < length d \<and> char_start (d ! k)}"
  by (auto simp: starts_def)

text \<open>A table that \<open>refresh\<close> has built: strictly increasing start offsets closed by the length.\<close>

definition u8_wf :: "iutf8string \<Rightarrow> bool" where
  "u8_wf u \<longleftrightarrow> offerset u = starts (u8_data u) 0 @ [length (u8_data u)] \<and> u8_length u = length (starts (u8_data u) 0)"

lemma refresh_wf: "u8_wf (refresh d)" "u8_data (refresh d) = d"
  by (simp_all add: u8_wf_def refresh_def refresh_loop_starts Let_def)

lemma offsets_sorted: "u8_wf u \<Longrightarrow> sorted (offerset u)"
proof -
  assume "u8_wf u"
  moreover have "sorted (starts d 0)" for d using sorted_starts [of d 0] by (simp add: strict_sorted_iff)
  ultimately show ?thesis by (auto simp: u8_wf_def sorted_append set_starts)
qed

lemma offset_bounds:
  assumes "u8_wf u" "i \<le> u8_length u"
  shows "offerset u ! i \<le> length (u8_data u)" "offerset u ! u8_length u = length (u8_data u)"
    "i \<le> j \<Longrightarrow> j \<le> u8_length u \<Longrightarrow> offerset u ! i \<le> offerset u ! j"
proof -
  have len: "length (offerset u) = Suc (u8_length u)" using assms by (simp add: u8_wf_def)
  show last: "offerset u ! u8_length u = length (u8_data u)" using assms by (simp add: u8_wf_def nth_append)
  show "offerset u ! i \<le> length (u8_data u)"
    using sorted_nth_mono [OF offsets_sorted [OF assms(1)] assms(2)] last len by simp
  show "i \<le> j \<Longrightarrow> j \<le> u8_length u \<Longrightarrow> offerset u ! i \<le> offerset u ! j"
    using sorted_nth_mono [OF offsets_sorted [OF assms(1)]] len by simp
qed

text \<open>The bytes from character \<open>i\<close> up to character \<open>j\<close>.\<close>

definition between :: "iutf8string \<Rightarrow> nat \<Rightarrow> nat \<Rightarrow> byte list" where
  "between u i j = take (offerset u ! j - offerset u ! i) (drop (offerset u ! i) (u8_data u))"

lemma u8_get_between: "u8_wf u \<Longrightarrow> i < u8_length u \<Longrightarrow> u8_get u (int i) = Some (between u i (Suc i))"
  using offset_bounds(1) [of u i] offset_bounds(3) [of u i "Suc i"]
  by (simp add: u8_get_def std_substr_def between_def nat_diff_distrib)

lemma u8_substr_between:
  assumes "u8_wf u" "i + n \<le> u8_length u" "u8_length u < 2 ^ 31"
  shows "u8_substr u (int i) (int n) = Some (between u i (i + n))"
proof -
  have "int i + int n < 2 ^ 31" using assms(2,3) by simp
  moreover have "nat (int i + int n) = i + n" by simp
  ultimately show ?thesis using assms offset_bounds(1) [of u i] offset_bounds(3) [of u i "i + n"]
    by (simp add: u8_substr_def std_substr_def between_def nat_diff_distrib)
qed

lemma between_join:
  assumes "u8_wf u" "i \<le> j" "j \<le> k" "k \<le> u8_length u"
  shows "between u i j @ between u j k = between u i k"
proof -
  have "offerset u ! i \<le> offerset u ! j" "offerset u ! j \<le> offerset u ! k"
    using offset_bounds(3) [of u] assms by simp_all
  then obtain a b where ab: "offerset u ! j = offerset u ! i + a" "offerset u ! k = offerset u ! j + b"
    using le_Suc_ex by blast
  show ?thesis unfolding between_def ab by (simp add: take_add add.commute)
qed

lemma concat_between:
  "u8_wf u \<Longrightarrow> i + n \<le> u8_length u \<Longrightarrow> concat (map (\<lambda>k. between u k (Suc k)) [i..<i + n]) = between u i (i + n)"
proof (induction n)
  case 0
  then show ?case by (simp add: between_def)
next
  case (Suc n)
  then show ?case using between_join [of u i "i + n" "Suc (i + n)"] by simp
qed

section \<open>Splitting\<close>

text \<open>\<open>std::string::find\<close>: the first occurrence at or after a position.\<close>

fun find_in :: "byte list \<Rightarrow> byte list \<Rightarrow> nat option" where
  "find_in sep [] = (if sep = [] then Some 0 else None)"
| "find_in sep (b # s) = (if prefix sep (b # s) then Some 0 else map_option Suc (find_in sep s))"

definition str_find :: "byte list \<Rightarrow> byte list \<Rightarrow> nat \<Rightarrow> nat option" where
  "str_find src sep pos = (if pos > length src then None else map_option ((+) pos) (find_in sep (drop pos src)))"

text \<open>The loop of \<open>splitEx\<close>; with an empty separator it does not end.\<close>

partial_function (option) split_loop :: "byte list \<Rightarrow> byte list \<Rightarrow> nat \<Rightarrow> byte list list \<Rightarrow> byte list list option" where
  "split_loop src sep lastPosition strs =
     (case str_find src sep lastPosition of
        Some index \<Rightarrow>
          let piece = take (index - lastPosition) (drop lastPosition src)
          in split_loop src sep (index + length sep) (if piece \<noteq> [32] then strs @ [piece] else strs)
      | None \<Rightarrow>
          let lastString = drop lastPosition src
          in Some (if lastString \<noteq> [] \<and> lastString \<noteq> [32] then strs @ [lastString] else strs))"

definition splitEx :: "byte list \<Rightarrow> byte list \<Rightarrow> byte list list option" where
  "splitEx src sep = split_loop src sep 0 []"

lemma find_in_Some:
  "find_in sep s = Some k \<Longrightarrow> k + length sep \<le> length s \<and> s = take k s @ sep @ drop (k + length sep) s"
proof (induction sep s arbitrary: k rule: find_in.induct)
  case (2 sep b s)
  show ?case
  proof (cases "prefix sep (b # s)")
    case True
    then have "k = 0" "length sep \<le> Suc (length s)" using 2(2) prefix_length_le by fastforce+
    then show ?thesis using True by (auto simp: prefix_def)
  next
    case False
    then show ?thesis using 2 by auto
  qed
qed (auto split: if_splits)

lemma find_in_first: "find_in sep s = Some k \<Longrightarrow> j < k \<Longrightarrow> \<not> prefix sep (drop j s)"
proof (induction sep s arbitrary: k j rule: find_in.induct)
  case (2 sep b s)
  then show ?case by (cases j) (auto split: if_splits)
qed (auto split: if_splits)

lemma find_in_None: "find_in sep s = None \<Longrightarrow> \<not> prefix sep (drop j s)"
proof (induction sep s arbitrary: j rule: find_in.induct)
  case (2 sep b s)
  then show ?case by (cases j) (auto split: if_splits)
qed (auto split: if_splits)

text \<open>The reference: the pieces between the occurrences of the separator, from left to right.\<close>

function pieces :: "byte list \<Rightarrow> byte list \<Rightarrow> byte list list" where
  "pieces sep s =
     (case find_in sep s of
        Some k \<Rightarrow> if sep = [] then [s] else take k s # pieces sep (drop (k + length sep) s)
      | None \<Rightarrow> [s])"
  by pat_completeness auto
termination
proof (relation "measure (length o snd)")
  fix sep s k assume "find_in sep s = Some k" "sep \<noteq> []"
  then have "0 < length sep" "length sep \<le> length s" using find_in_Some [of sep s k] by simp_all
  then have "length s - (k + length sep) < length s" by linarith
  then show "((sep, drop (k + length sep) s), sep, s) \<in> measure (length o snd)" by simp
qed simp

declare pieces.simps [simp del]

lemma pieces_nonempty [simp]: "pieces sep s \<noteq> []"
  by (subst pieces.simps) (auto split: option.splits)

definition kept :: "byte list list \<Rightarrow> byte list list" where
  "kept ps = filter (\<lambda>p. p \<noteq> [32]) (butlast ps) @ (if last ps = [] \<or> last ps = [32] then [] else [last ps])"

lemma split_loop_pieces:
  "sep \<noteq> [] \<Longrightarrow> pos \<le> length src \<Longrightarrow> split_loop src sep pos strs = Some (strs @ kept (pieces sep (drop pos src)))"
proof (induction "length src - pos" arbitrary: pos strs rule: less_induct)
  case less
  show ?case
  proof (cases "find_in sep (drop pos src)")
    case None
    then show ?thesis using less.prems
      by (subst split_loop.simps, subst pieces.simps) (simp add: str_find_def kept_def)
  next
    case (Some k)
    let ?next = "pos + k + length sep"
    have k: "k + length sep \<le> length src - pos" using find_in_Some [OF Some] by simp
    moreover have "0 < length sep" using less.prems by simp
    ultimately have "length src - ?next < length src - pos" "?next \<le> length src" using less.prems by linarith+
    then have IH: "split_loop src sep ?next str = Some (str @ kept (pieces sep (drop ?next src)))" for str
      using less.hyps less.prems(1) by blast
    have "pieces sep (drop pos src) = take k (drop pos src) # pieces sep (drop ?next src)"
      using Some less.prems by (subst pieces.simps) (simp add: ac_simps)
    then have "kept (pieces sep (drop pos src)) =
        (if take k (drop pos src) \<noteq> [32] then [take k (drop pos src)] else []) @ kept (pieces sep (drop ?next src))"
      by (simp add: kept_def)
    then show ?thesis using Some less.prems IH by (subst split_loop.simps) (simp add: str_find_def Let_def)
  qed
qed

fun join :: "byte list \<Rightarrow> byte list list \<Rightarrow> byte list" where
  "join sep [] = []"
| "join sep [p] = p"
| "join sep (p # ps) = p @ sep @ join sep ps"

lemma join_Cons: "ps \<noteq> [] \<Longrightarrow> join sep (p # ps) = p @ sep @ join sep ps"
  by (cases ps) simp_all

lemma pieces_join: "join sep (pieces sep s) = s"
proof (induction sep s rule: pieces.induct)
  case (1 sep s)
  show ?case
  proof (cases "find_in sep s")
    case None
    then show ?thesis by (subst pieces.simps) simp
  next
    case (Some k)
    show ?thesis
    proof (cases "sep = []")
      case True
      then show ?thesis using Some by (subst pieces.simps) simp
    next
      case False
      have "pieces sep s = take k s # pieces sep (drop (k + length sep) s)" using Some False by (subst pieces.simps) simp
      then show ?thesis using 1 [OF Some False] find_in_Some [OF Some] by (simp add: join_Cons)
    qed
  qed
qed

lemma pieces_free: "sep \<noteq> [] \<Longrightarrow> p \<in> set (pieces sep s) \<Longrightarrow> \<not> sublist sep p"
proof (induction sep s rule: pieces.induct)
  case (1 sep s)
  have last: "\<not> sublist sep s" if "find_in sep s = None"
  proof
    assume "sublist sep s"
    then obtain a b where "s = a @ sep @ b" by (auto simp: sublist_def)
    then show False using find_in_None [OF that, of "length a"] by simp
  qed
  have first: "\<not> sublist sep (take k s)" if "find_in sep s = Some k" for k
  proof
    assume "sublist sep (take k s)"
    then obtain a b where ab: "take k s = a @ sep @ b" by (auto simp: sublist_def)
    then have "length a + length sep \<le> k" by (metis length_append length_take min.bounded_iff add.assoc le_add1)
    then have "length a < k" using 1(2) by (cases sep) simp_all
    moreover have "s = a @ sep @ b @ drop k s" using ab by (metis append.assoc append_take_drop_id)
    then have "prefix sep (drop (length a) s)" by (metis append_eq_conv_conj prefixI)
    ultimately show False using find_in_first [OF that] by blast
  qed
  show ?case
  proof (cases "find_in sep s")
    case None
    then show ?thesis using last 1(3) pieces.simps [of sep s] by auto
  next
    case (Some k)
    then have "pieces sep s = take k s # pieces sep (drop (k + length sep) s)" using 1(2) by (subst pieces.simps) simp
    then show ?thesis using 1 Some first by auto
  qed
qed

section \<open>Properties\<close>



text \<open>The number of characters of a concatenation is the sum of the numbers of characters.
\<close>

theorem character_count_plus:
  "u8_len (u8_plus (iutf8string_of a) (iutf8string_of b)) = u8_len (iutf8string_of a) + u8_len (iutf8string_of b)"
proof -
  have "length (starts b i) = length (starts b 0)" for i by (simp add: starts_def)
  then show ?thesis
    by (simp add: u8_len_def u8_plus_def iutf8string_of_def refresh_def refresh_loop_starts Let_def starts_append stlstring_def)
qed

text \<open>
  (C16) With a separator that is not empty \<open>splitEx\<close> returns. The source is the pieces joined by
  the separator, no piece contains the separator, and the result is the pieces in order less
  those that are one space and less the last one when it is empty.
\<close>

theorem splitEx_pieces:
  assumes "sep \<noteq> []"
  shows "\<exists>ps. ps \<noteq> [] \<and> join sep ps = src \<and> (\<forall>p \<in> set ps. \<not> sublist sep p) \<and>
    splitEx src sep = Some (filter (\<lambda>p. p \<noteq> [32]) (butlast ps) @ (if last ps = [] \<or> last ps = [32] then [] else [last ps]))"
  using split_loop_pieces [OF assms, of 0 src "[]"] pieces_join [of sep src] pieces_free [OF assms]
  by (intro exI [of _ "pieces sep src"]) (auto simp: splitEx_def kept_def)

theorem splitEx_pieces_witness:
  "\<exists>ps. ps \<noteq> [] \<and> join [9] ps = [97, 98, 9, 49] \<and> (\<forall>p \<in> set ps. \<not> sublist [9] p) \<and>
    splitEx [97, 98, 9, 49] [9] =
      Some (filter (\<lambda>p. p \<noteq> [32]) (butlast ps) @ (if last ps = [] \<or> last ps = [32] then [] else [last ps]))"
  by (rule splitEx_pieces) simp

text \<open>With an empty separator the loop never leaves the position it is at.\<close>

lemma split_loop_empty_separator: "pos \<le> length src \<Longrightarrow> split_loop src [] pos strs = None"
proof -
  assume pos: "pos \<le> length src"
  have empty: "find_in [] s = Some 0" for s by (cases s) simp_all
  have "sep = [] \<longrightarrow> \<not> pos \<le> length src" if "split_loop src sep pos strs = Some r" for src sep pos strs r
    using that
  proof (rule split_loop.raw_induct [where P = "\<lambda>src sep pos strs r. sep = [] \<longrightarrow> \<not> pos \<le> length src", rotated 1])
    fix f :: "byte list \<Rightarrow> byte list \<Rightarrow> nat \<Rightarrow> byte list list \<Rightarrow> byte list list option"
    fix src sep :: "byte list" and pos :: nat and strs r :: "byte list list"
    assume IH: "\<And>src sep pos strs r. f src sep pos strs = Some r \<Longrightarrow> sep = [] \<longrightarrow> \<not> pos \<le> length src"
    assume "(case str_find src sep pos of
        None \<Rightarrow> let lastString = drop pos src in Some (if lastString \<noteq> [] \<and> lastString \<noteq> [32] then strs @ [lastString] else strs)
      | Some index \<Rightarrow> let piece = take (index - pos) (drop pos src)
          in f src sep (index + length sep) (if piece \<noteq> [32] then strs @ [piece] else strs)) = Some r"
    then show "sep = [] \<longrightarrow> \<not> pos \<le> length src"
      using IH [of src sep pos] empty [of "drop pos src"] by (auto simp: str_find_def Let_def)
  qed
  then show ?thesis using pos by (cases "split_loop src [] pos strs") auto
qed

end
