(* ===== verification/Ternary.thy ===== *)
theory Ternary
  imports Priority_Queue Utf8_Str
begin

text \<open>
  The ternary search tree of suggestion words (\<open>index_read/ternary.h\<close>, \<open>ternary.cc\<close>), from the
  dictionary file to the answer of a prefix query through the bounded priority queue. The tree
  owned through \<open>m_root\<close> is a value: no node is shared. A string under a position is given as
  the byte at the position and the bytes after it. \<open>char\<close> is signed, as on the code's platform.
\<close>

section \<open>The tree\<close>

datatype NodeType = COMPLETED | UNCOMPLETED

datatype NodeTree = Null | Node (word: byte) (type: NodeType) (freq: u32) (left: NodeTree) (mid: NodeTree) (right: NodeTree)

definition new_NodeTree :: "byte \<Rightarrow> NodeType \<Rightarrow> NodeTree" where
  "new_NodeTree ch t = Node ch t 0 Null Null Null"

text \<open>\<open>Insert(word, index, freq, node)\<close> for \<open>c = word[index]\<close> and \<open>cs\<close> the rest. \<open>new\<close> throws when
  it fails, so the test for a null pointer after it never holds.\<close>

function Insert_at :: "byte \<Rightarrow> byte list \<Rightarrow> u32 \<Rightarrow> NodeTree \<Rightarrow> bool \<times> NodeTree" where
  "Insert_at c cs f node =
     (case (case node of Null \<Rightarrow> new_NodeTree c UNCOMPLETED | _ \<Rightarrow> node) of
        Null \<Rightarrow> (False, Null)
      | Node ch t fq l m r \<Rightarrow>
          if sint c < sint ch then (let (ok, l') = Insert_at c cs f l in (ok, Node ch t fq l' m r))
          else if sint c > sint ch then (let (ok, r') = Insert_at c cs f r in (ok, Node ch t fq l m r'))
          else (case cs of
                  [] \<Rightarrow> (True, Node ch COMPLETED f l m r)
                | c' # cs' \<Rightarrow> let (ok, m') = Insert_at c' cs' f m in (ok, Node ch t fq l m' r)))"
  by pat_completeness auto

termination
  by (relation "measures [\<lambda>(c, cs, f, node). length cs, \<lambda>(c, cs, f, node). size node]")
    (auto simp: new_NodeTree_def split: NodeTree.splits)

definition Insert :: "byte list \<Rightarrow> u32 \<Rightarrow> NodeTree \<Rightarrow> bool \<times> NodeTree" where
  "Insert w f root = (case w of [] \<Rightarrow> (True, root) | c # cs \<Rightarrow> Insert_at c cs f root)"

text \<open>The file is the list of its lines, or \<open>None\<close> when it cannot be opened.\<close>

fun Init_loop :: "byte list list \<Rightarrow> NodeTree \<Rightarrow> bool \<times> NodeTree" where
  "Init_loop [] root = (True, root)"
| "Init_loop (line # lines) root =
     (case splitEx line [9] of
        Some [w, fr] \<Rightarrow>
          let f = atoi w; (ok, root') = Insert w f root
          in if \<not> ok then (False, root') else Init_loop lines root'
      | _ \<Rightarrow> Init_loop lines root)"

definition Init :: "byte list list option \<Rightarrow> NodeTree \<Rightarrow> bool \<times> NodeTree" where
  "Init suggest_infile root = (case suggest_infile of None \<Rightarrow> (False, root) | Some lines \<Rightarrow> Init_loop lines root)"

text \<open>The loop of \<open>Find\<close> at \<open>node\<close>, with the whole word for the pair it queues.\<close>

function Find_loop :: "byte list \<Rightarrow> byte \<Rightarrow> byte list \<Rightarrow> NodeTree \<Rightarrow> PriorityQueue \<Rightarrow> (NodeTree \<times> PriorityQueue) option" where
  "Find_loop w c cs node q =
     (case node of
        Null \<Rightarrow> Some (Null, q)
      | Node ch t fq l m r \<Rightarrow>
          if sint c < sint ch then Find_loop w c cs l q
          else if sint c > sint ch then Find_loop w c cs r q
          else (case cs of
                  [] \<Rightarrow> if t = COMPLETED then map_option (\<lambda>(_, q'). (m, q')) (EnQueue (fq, w) q) else Some (m, q)
                | c' # cs' \<Rightarrow> Find_loop w c' cs' m q))"
  by pat_completeness auto

termination
  by (relation "measure (\<lambda>(w, c, cs, node, q). size node)") auto

definition Find :: "byte list \<Rightarrow> NodeTree \<Rightarrow> PriorityQueue \<Rightarrow> (NodeTree \<times> PriorityQueue) option" where
  "Find w root q = (case w of [] \<Rightarrow> Some (Null, q) | c # cs \<Rightarrow> Find_loop w c cs root q)"

fun DFS :: "byte list \<Rightarrow> NodeTree \<Rightarrow> PriorityQueue \<Rightarrow> PriorityQueue option" where
  "DFS perfix Null q = Some q"
| "DFS perfix (Node ch t fq l m r) q =
     (case (if t = COMPLETED then map_option snd (EnQueue (fq, perfix @ [ch]) q) else Some q) of
        None \<Rightarrow> None
      | Some q1 \<Rightarrow> (case DFS perfix l q1 of
          None \<Rightarrow> None
        | Some q2 \<Rightarrow> (case DFS (perfix @ [ch]) m q2 of
            None \<Rightarrow> None
          | Some q3 \<Rightarrow> DFS perfix r q3)))"

definition FindSimliar :: "byte list \<Rightarrow> NodeTree \<Rightarrow> PriorityQueue \<Rightarrow> (bool \<times> PriorityQueue) option" where
  "FindSimliar w root q =
     (case Find w root q of
        None \<Rightarrow> None
      | Some (node, q1) \<Rightarrow> if node = Null then Some (False, q1) else map_option (Pair True) (DFS w node q1))"

text \<open>\<open>DestroyNode\<close>: the nodes in the order they are deleted, each named by its path from the root.\<close>

datatype dir = L | M | R

fun DestroyNode :: "dir list \<Rightarrow> NodeTree \<Rightarrow> dir list list" where
  "DestroyNode p Null = []"
| "DestroyNode p (Node ch t fq l m r) =
     DestroyNode (p @ [L]) l @ DestroyNode (p @ [M]) m @ DestroyNode (p @ [R]) r @ [p]"

definition DestroyTree :: "NodeTree \<Rightarrow> dir list list \<times> NodeTree" where
  "DestroyTree root = (DestroyNode [] root, Null)"

declare Insert_at.simps [simp del] Find_loop.simps [simp del]

section \<open>The dictionary a tree stands for\<close>

fun lookup_at :: "byte \<Rightarrow> byte list \<Rightarrow> NodeTree \<Rightarrow> u32 option" where
  "lookup_at c cs Null = None"
| "lookup_at c cs (Node ch t fq l m r) =
     (if sint c < sint ch then lookup_at c cs l
      else if sint c > sint ch then lookup_at c cs r
      else (case cs of [] \<Rightarrow> if t = COMPLETED then Some fq else None | c' # cs' \<Rightarrow> lookup_at c' cs' m))"

definition dictionary :: "NodeTree \<Rightarrow> byte list \<Rightarrow> u32 option" where
  "dictionary root w = (case w of [] \<Rightarrow> None | c # cs \<Rightarrow> lookup_at c cs root)"

lemma sint_eq_iff: "sint a = sint (b :: byte) \<longleftrightarrow> a = b"
  by (auto intro: signed_word_eqI)

lemma sint_eq: "\<not> sint a < sint b \<Longrightarrow> \<not> sint b < sint a \<Longrightarrow> a = (b :: byte)"
  by (simp add: sint_eq_iff [symmetric])

lemma Insert_at_Null:
  "Insert_at c cs f Null =
     (case cs of [] \<Rightarrow> (True, Node c COMPLETED f Null Null Null)
      | c' # cs' \<Rightarrow> let (ok, m') = Insert_at c' cs' f Null in (ok, Node c UNCOMPLETED 0 Null m' Null))"
  by (subst Insert_at.simps) (simp add: new_NodeTree_def split: list.split)

lemma Insert_at_Node:
  "Insert_at c cs f (Node ch t fq l m r) =
     (if sint c < sint ch then (let (ok, l') = Insert_at c cs f l in (ok, Node ch t fq l' m r))
      else if sint c > sint ch then (let (ok, r') = Insert_at c cs f r in (ok, Node ch t fq l m r'))
      else (case cs of [] \<Rightarrow> (True, Node ch COMPLETED f l m r)
            | c' # cs' \<Rightarrow> let (ok, m') = Insert_at c' cs' f m in (ok, Node ch t fq l m' r)))"
  by (subst Insert_at.simps) simp

text \<open>Insertion always succeeds, and is the update of the dictionary.\<close>

lemma Insert_at_fresh:
  "fst (Insert_at c cs f Null) \<and> lookup_at d ds (snd (Insert_at c cs f Null)) = (if d = c \<and> ds = cs then Some f else None)"
proof (induction cs arbitrary: c d ds)
  case Nil
  consider "sint d < sint c" | "sint c < sint d" | "d = c" using sint_eq by blast
  then show ?case by cases (auto simp: Insert_at_Null split: list.split)
next
  case (Cons c' cs')
  consider "sint d < sint c" | "sint c < sint d" | "d = c" using sint_eq by blast
  then show ?case using Cons [of c'] by cases (auto simp: Insert_at_Null Let_def case_prod_unfold split: list.split)
qed

lemma Insert_at_dictionary:
  "fst (Insert_at c cs f node) \<and>
   lookup_at d ds (snd (Insert_at c cs f node)) = (if d = c \<and> ds = cs then Some f else lookup_at d ds node)"
proof (induction node arbitrary: c cs d ds)
  case Null
  then show ?case using Insert_at_fresh by simp
next
  case (Node ch t fq l m r)
  consider "sint c < sint ch" | "sint ch < sint c" | "c = ch" using sint_eq by blast
  then show ?case
  proof cases
    case 1
    then show ?thesis using Node(1) by (auto simp: Insert_at_Node Let_def case_prod_unfold split: list.split)
  next
    case 2
    then show ?thesis using Node(3) by (auto simp: Insert_at_Node Let_def case_prod_unfold split: list.split)
  next
    case 3
    then show ?thesis using Node(2) sint_eq [of d ch]
      by (cases cs) (auto simp: Insert_at_Node Let_def case_prod_unfold split: list.split)
  qed
qed

section \<open>Well-formed trees\<close>

text \<open>The bytes a tree decides on at its own position, and the search order on them.\<close>

fun level :: "NodeTree \<Rightarrow> byte set" where
  "level Null = {}"
| "level (Node ch t fq l m r) = insert ch (level l \<union> level r)"

fun ordered :: "NodeTree \<Rightarrow> bool" where
  "ordered Null \<longleftrightarrow> True"
| "ordered (Node ch t fq l m r) \<longleftrightarrow>
     (\<forall>x \<in> level l. sint x < sint ch) \<and> (\<forall>x \<in> level r. sint ch < sint x) \<and> ordered l \<and> ordered m \<and> ordered r"

text \<open>Every node ends a word or continues one.\<close>

fun live :: "NodeTree \<Rightarrow> bool" where
  "live Null \<longleftrightarrow> True"
| "live (Node ch t fq l m r) \<longleftrightarrow> (t = COMPLETED \<or> m \<noteq> Null) \<and> live l \<and> live m \<and> live r"

definition tree_inv :: "NodeTree \<Rightarrow> bool" where
  "tree_inv node \<longleftrightarrow> ordered node \<and> live node"

lemma Insert_at_nonempty: "snd (Insert_at c cs f node) \<noteq> Null"
  by (cases node; cases cs) (simp_all add: Insert_at_Null Insert_at_Node Let_def case_prod_unfold)

lemma Insert_at_fresh_inv: "level (snd (Insert_at c cs f Null)) = {c} \<and> tree_inv (snd (Insert_at c cs f Null))"
proof (induction cs arbitrary: c)
  case (Cons c' cs')
  then show ?case using Cons [of c'] Insert_at_nonempty [of c' cs' f Null]
    by (simp add: Insert_at_Null [of c "c' # cs'"] Let_def case_prod_unfold tree_inv_def)
qed (simp add: Insert_at_Null tree_inv_def)

lemma Insert_at_inv:
  "tree_inv node \<Longrightarrow> level (snd (Insert_at c cs f node)) = insert c (level node) \<and> tree_inv (snd (Insert_at c cs f node))"
proof (induction node arbitrary: c cs)
  case Null
  then show ?case using Insert_at_fresh_inv by simp
next
  case (Node ch t fq l m r)
  consider "sint c < sint ch" | "sint ch < sint c" | "c = ch" using sint_eq by blast
  then show ?case
  proof cases
    case 1
    then show ?thesis using Node(1) [of c cs] Node(4) by (auto simp: Insert_at_Node Let_def case_prod_unfold tree_inv_def)
  next
    case 2
    then show ?thesis using Node(3) [of c cs] Node(4) by (auto simp: Insert_at_Node Let_def case_prod_unfold tree_inv_def)
  next
    case 3
    then show ?thesis using Node(2) Node(4)
      by (cases cs) (auto simp: Insert_at_Node Let_def case_prod_unfold tree_inv_def Insert_at_nonempty)
  qed
qed

section \<open>Enumeration\<close>

fun entries :: "byte list \<Rightarrow> NodeTree \<Rightarrow> PAIR list" where
  "entries p Null = []"
| "entries p (Node ch t fq l m r) =
     (if t = COMPLETED then [(fq, p @ [ch])] else []) @ entries p l @ entries (p @ [ch]) m @ entries p r"

lemma EnQueue_all_append:
  "EnQueue_all (a @ b) q = (case EnQueue_all a q of None \<Rightarrow> None | Some q' \<Rightarrow> EnQueue_all b q')"
  by (induction a arbitrary: q) (auto split: option.split)

lemma EnQueue_all_single: "EnQueue_all [v] q = map_option snd (EnQueue v q)"
  by (auto split: option.split)

lemma DFS_entries: "DFS p node q = EnQueue_all (entries p node) q"
proof (induction p node q rule: DFS.induct)
  case (2 p ch t fq l m r q)
  have "(if t = COMPLETED then map_option snd (EnQueue (fq, p @ [ch]) q) else Some q) =
      EnQueue_all (if t = COMPLETED then [(fq, p @ [ch])] else []) q"
    by (simp add: EnQueue_all_single del: EnQueue_all.simps(2))
  then show ?case using 2
    by (simp add: EnQueue_all_append del: EnQueue_all.simps(2) split: option.split)
qed simp

lemma lookup_level: "lookup_at c cs node = Some f \<Longrightarrow> c \<in> level node"
proof (induction node)
  case (Node ch t fq l m r)
  then show ?case using sint_eq [of c ch] by (auto split: if_splits)
qed simp

lemma entries_lookup:
  "ordered node \<Longrightarrow> (f, w) \<in> set (entries p node) \<longleftrightarrow> (\<exists>c cs. w = p @ c # cs \<and> lookup_at c cs node = Some f)"
proof (induction node arbitrary: p)
  case (Node ch t fq l m r)
  have l: "lookup_at c cs (Node ch t fq l m r) = lookup_at c cs l" if "lookup_at c cs l = Some f" for c cs
    using lookup_level [OF that] Node.prems by simp
  have r: "lookup_at c cs (Node ch t fq l m r) = lookup_at c cs r" if "lookup_at c cs r = Some f" for c cs
    using lookup_level [OF that] Node.prems by (auto simp: not_less less_imp_le)
  have "(\<exists>c cs. w = p @ c # cs \<and> lookup_at c cs (Node ch t fq l m r) = Some f) \<longleftrightarrow>
      (t = COMPLETED \<and> f = fq \<and> w = p @ [ch]) \<or> (\<exists>c cs. w = p @ c # cs \<and> lookup_at c cs l = Some f) \<or>
      (\<exists>c cs. w = p @ ch # c # cs \<and> lookup_at c cs m = Some f) \<or> (\<exists>c cs. w = p @ c # cs \<and> lookup_at c cs r = Some f)"
    (is "?A \<longleftrightarrow> ?B")
  proof
    assume ?A
    then obtain c cs where c: "w = p @ c # cs" "lookup_at c cs (Node ch t fq l m r) = Some f" by blast
    consider "sint c < sint ch" | "sint ch < sint c" | "c = ch" using sint_eq by blast
    then show ?B using c by cases (auto split: list.splits if_splits)
  next
    assume ?B
    then show ?A
    proof (elim disjE)
      assume "\<exists>c cs. w = p @ ch # c # cs \<and> lookup_at c cs m = Some f"
      then show ?A by fastforce
    qed (use l r in fastforce)+
  qed
  then show ?case using Node by auto
qed simp

lemma entries_distinct: "ordered node \<Longrightarrow> distinct (map snd (entries p node))"
proof (induction node arbitrary: p)
  case (Node ch t fq l m r)
  have l: "\<exists>c cs. w = p @ c # cs \<and> sint c < sint ch" if "w \<in> snd ` set (entries p l)" for w
    using that Node.prems entries_lookup [of l] lookup_level by fastforce
  have r: "\<exists>c cs. w = p @ c # cs \<and> sint ch < sint c" if "w \<in> snd ` set (entries p r)" for w
    using that Node.prems entries_lookup [of r] lookup_level by fastforce
  have m: "\<exists>c cs. w = p @ ch # c # cs" if "w \<in> snd ` set (entries (p @ [ch]) m)" for w
    using that Node.prems entries_lookup [of m] by fastforce
  have lr: "snd ` set (entries p l) \<inter> snd ` set (entries p r) = {}" using l r by fastforce
  have lm: "snd ` set (entries p l) \<inter> snd ` set (entries (p @ [ch]) m) = {}" using l m by fastforce
  have mr: "snd ` set (entries (p @ [ch]) m) \<inter> snd ` set (entries p r) = {}" using m r by fastforce
  have own: "p @ [ch] \<notin> snd ` set (entries p l)" "p @ [ch] \<notin> snd ` set (entries (p @ [ch]) m)" "p @ [ch] \<notin> snd ` set (entries p r)"
    using l m r by fastforce+
  have d: "distinct (map snd (entries p l))" "distinct (map snd (entries (p @ [ch]) m))" "distinct (map snd (entries p r))"
    using Node by simp_all
  show ?case using d lr lm mr own by (simp add: Int_Un_distrib)
qed simp

lemma live_entries: "live node \<Longrightarrow> node \<noteq> Null \<Longrightarrow> entries p node \<noteq> []"
  by (induction node arbitrary: p) auto

section \<open>Prefix queries\<close>

text \<open>The subtree of the words that continue \<open>c # cs\<close>.\<close>

function descend :: "byte \<Rightarrow> byte list \<Rightarrow> NodeTree \<Rightarrow> NodeTree" where
  "descend c cs node =
     (case node of
        Null \<Rightarrow> Null
      | Node ch t fq l m r \<Rightarrow>
          if sint c < sint ch then descend c cs l
          else if sint c > sint ch then descend c cs r
          else (case cs of [] \<Rightarrow> m | c' # cs' \<Rightarrow> descend c' cs' m))"
  by pat_completeness auto

termination
  by (relation "measure (\<lambda>(c, cs, node). size node)") auto

declare descend.simps [simp del]

lemma descend_Null [simp]: "descend c cs Null = Null"
  by (subst descend.simps) simp

lemma descend_Node:
  "descend c cs (Node ch t fq l m r) =
     (if sint c < sint ch then descend c cs l else if sint c > sint ch then descend c cs r
      else (case cs of [] \<Rightarrow> m | c' # cs' \<Rightarrow> descend c' cs' m))"
  by (subst descend.simps) simp

lemma descend_lookup: "lookup_at d ds (descend c cs node) = lookup_at c (cs @ d # ds) node"
  by (induction node arbitrary: c cs) (auto simp: descend_Node split: list.split)

lemma descend_inv: "tree_inv node \<Longrightarrow> tree_inv (descend c cs node)"
  by (induction node arbitrary: c cs) (auto simp: descend_Node tree_inv_def split: list.split)

definition own_entry :: "byte list \<Rightarrow> byte \<Rightarrow> byte list \<Rightarrow> NodeTree \<Rightarrow> PAIR list" where
  "own_entry w c cs node = (case lookup_at c cs node of None \<Rightarrow> [] | Some f \<Rightarrow> [(f, w)])"

lemma Find_loop_descend:
  "Find_loop w c cs node q = map_option (Pair (descend c cs node)) (EnQueue_all (own_entry w c cs node) q)"
proof (induction node arbitrary: c cs)
  case Null
  then show ?case by (subst Find_loop.simps) (simp add: own_entry_def)
next
  case (Node ch t fq l m r)
  show ?case
  proof (cases cs)
    case Nil
    then show ?thesis using Node by (subst Find_loop.simps) (auto simp: own_entry_def descend_Node split: option.split)
  next
    case (Cons c' cs')
    then show ?thesis using Node by (subst Find_loop.simps) (auto simp: own_entry_def descend_Node)
  qed
qed

text \<open>What a prefix query offers to the queue.\<close>

definition completions :: "byte list \<Rightarrow> NodeTree \<Rightarrow> PAIR list" where
  "completions w root = (case w of [] \<Rightarrow> [] | c # cs \<Rightarrow> own_entry w c cs root @ entries w (descend c cs root))"

lemma strict_prefix_conv: "strict_prefix w x \<longleftrightarrow> (\<exists>d ds. x = w @ d # ds)"
  by (auto elim: strict_prefixE' intro: strict_prefixI')

lemma completions_set:
  assumes "tree_inv root" "w \<noteq> []"
  shows "set (completions w root) = {(f, x). dictionary root x = Some f \<and> prefix w x}"
proof -
  obtain c cs where w: "w = c # cs" using assms(2) by (cases w) simp_all
  have ord: "ordered (descend c cs root)" using descend_inv [OF assms(1)] by (simp add: tree_inv_def)
  have own: "(f, x) \<in> set (own_entry w c cs root) \<longleftrightarrow> x = w \<and> dictionary root x = Some f" for f x
    by (auto simp: own_entry_def dictionary_def w split: option.splits)
  have rest: "(f, x) \<in> set (entries w (descend c cs root)) \<longleftrightarrow> dictionary root x = Some f \<and> strict_prefix w x" for f x
    unfolding entries_lookup [OF ord] descend_lookup strict_prefix_conv by (auto simp: dictionary_def w)
  show ?thesis using own rest by (auto simp: completions_def w strict_prefix_def)
qed

lemma completions_distinct:
  assumes "tree_inv root" shows "distinct (map snd (completions w root))"
proof (cases w)
  case (Cons c cs)
  have ord: "ordered (descend c cs root)" using descend_inv [OF assms] by (simp add: tree_inv_def)
  then have "w \<notin> snd ` set (entries w (descend c cs root))" using entries_lookup [of _ _ w w] by fastforce
  then show ?thesis using entries_distinct [OF ord, of w] by (auto simp: completions_def Cons own_entry_def split: option.split)
qed (simp add: completions_def)

lemma FindSimliar_completions:
  assumes inv: "tree_inv root" and w: "w \<noteq> []" and q: "pq_ready q"
  shows "\<exists>b. FindSimliar w root q = Some (b, fold enqueued (completions w root) q) \<and>
    (b \<longleftrightarrow> (\<exists>x. dictionary root x \<noteq> None \<and> strict_prefix w x))"
proof -
  obtain c cs where w': "w = c # cs" using w by (cases w) simp_all
  let ?n = "descend c cs root" and ?own = "own_entry w c cs root"
  have ready: "pq_ready (fold enqueued ?own q)" using best.offers_inv [OF q, of ?own] by (simp add: list_all_iff)
  have Find: "Find w root q = Some (?n, fold enqueued ?own q)"
    by (simp add: Find_def w' Find_loop_descend EnQueue_all_fold [OF q, unfolded w'])
  have res: "FindSimliar w root q = Some (?n \<noteq> Null, fold enqueued (completions w root) q)"
    using EnQueue_all_fold [OF ready]
    unfolding FindSimliar_def Find by (auto simp: DFS_entries completions_def w')
  have "(?n \<noteq> Null) \<longleftrightarrow> (\<exists>d ds f. lookup_at d ds ?n = Some f)"
  proof
    assume "?n \<noteq> Null"
    then have "entries w ?n \<noteq> []" using descend_inv [OF inv] live_entries by (simp add: tree_inv_def)
    then obtain f x where "(f, x) \<in> set (entries w ?n)" by (cases "entries w ?n") auto
    then show "\<exists>d ds f. lookup_at d ds ?n = Some f"
      using entries_lookup descend_inv [OF inv] unfolding tree_inv_def by blast
  qed auto
  also have "\<dots> \<longleftrightarrow> (\<exists>x. dictionary root x \<noteq> None \<and> strict_prefix w x)"
  proof -
    have "lookup_at d ds ?n = dictionary root (w @ d # ds)" for d ds by (simp add: descend_lookup dictionary_def w')
    then show ?thesis unfolding strict_prefix_conv by auto
  qed
  finally show ?thesis using res by blast
qed

section \<open>Properties\<close>

text \<open>
  (C18) Insertion always succeeds and keeps the search tree well formed; it sets the frequency of
  the word it is given and of no other word, and ignores the empty word.
\<close>

theorem insert_dictionary:
  assumes "tree_inv root"
  shows "fst (Insert w f root) \<and> tree_inv (snd (Insert w f root)) \<and>
    dictionary (snd (Insert w f root)) = (if w = [] then dictionary root else (dictionary root)(w \<mapsto> f))"
proof (cases w)
  case Nil
  then show ?thesis using assms by (simp add: Insert_def)
next
  case (Cons c cs)
  have "dictionary (snd (Insert w f root)) x = ((dictionary root)(w \<mapsto> f)) x" for x
    using Insert_at_dictionary by (auto simp: Cons Insert_def dictionary_def split: list.split)
  then have "dictionary (snd (Insert w f root)) = (dictionary root)(w \<mapsto> f)" by (rule ext)
  then show ?thesis using Insert_at_inv [OF assms] Insert_at_dictionary [of c cs f root] by (simp add: Cons Insert_def)
qed

definition sample_tree :: NodeTree where
  "sample_tree = Node 98 UNCOMPLETED 0 (Node 97 COMPLETED 4 Null Null Null) (Node 101 COMPLETED 7 Null (Node 101 COMPLETED 2 Null Null Null) Null) Null"

lemma sample_tree_inv: "tree_inv sample_tree"
  by (simp add: sample_tree_def tree_inv_def)

theorem insert_dictionary_witness:
  "fst (Insert [98, 101] 9 sample_tree) \<and> tree_inv (snd (Insert [98, 101] 9 sample_tree)) \<and>
    dictionary (snd (Insert [98, 101] 9 sample_tree)) = (dictionary sample_tree)([98, 101] \<mapsto> 9)"
  using insert_dictionary [OF sample_tree_inv, of "[98, 101]" 9] by simp

text \<open>
  (C17) A prefix query with a fresh queue of positive capacity answers a best selection of exactly
  the words of the dictionary that start with the prefix: as many of them as fit, and none it
  left out is more frequent than one it kept. It reports success when some word properly
  extends the prefix.
\<close>

theorem suggestions_are_most_frequent:
  assumes "tree_inv root" "w \<noteq> []" "0 < len"
  shows "\<exists>q0 b q ms dropped. new_PriorityQueue len = Some q0 \<and> FindSimliar w root q0 = Some (b, q) \<and>
    (b \<longleftrightarrow> (\<exists>x. dictionary root x \<noteq> None \<and> strict_prefix w x)) \<and>
    distinct (map snd ms) \<and> set ms = {(f, x). dictionary root x = Some f \<and> prefix w x} \<and>
    pq_inv q \<and> GetSize q = min (nat len) (length ms) \<and> mset ms = pq_contents q + dropped \<and>
    (\<forall>y \<in># dropped. \<forall>z \<in># pq_contents q. fst y \<le> fst z)"
proof -
  obtain q0 where q0: "new_PriorityQueue len = Some q0" using assms(3) by (simp add: new_PriorityQueue_def)
  note new = new_PriorityQueue_inv [OF q0]
  let ?ms = "completions w root" and ?q = "fold enqueued (completions w root) q0"
  have ready: "pq_ready q0" using new assms(3) by (simp add: pq_ready_def)
  have r: "pq_ready ?q" using best.offers_inv [OF ready, of ?ms] by (simp add: list_all_iff)
  obtain b where b: "FindSimliar w root q0 = Some (b, ?q)" "b \<longleftrightarrow> (\<exists>x. dictionary root x \<noteq> None \<and> strict_prefix w x)"
    using FindSimliar_completions [OF assms(1,2) ready] by blast
  obtain dropped where d: "mset ?ms = pq_contents ?q + dropped" "\<forall>y \<in># dropped. \<forall>z \<in># pq_contents ?q. no_more_frequent y z"
    using best.offers_best [OF ready, of ?ms] new by (auto simp: list_all_iff)
  have "GetSize ?q = min (nat len) (length ?ms)"
    using best.offers_size [OF ready, of ?ms] new pq_ready_size [OF r] by (simp add: GetSize_def list_all_iff)
  moreover have "pq_inv ?q" using r by (simp add: pq_ready_def)
  ultimately show ?thesis
    using q0 b d completions_set [OF assms(1,2)] completions_distinct [OF assms(1), of w]
    unfolding no_more_frequent_def
    by (intro exI [of _ q0] exI [of _ b] exI [of _ ?q] exI [of _ ?ms] exI [of _ dropped] conjI) assumption+
qed

theorem suggestions_are_most_frequent_witness:
  "\<exists>q0 b q ms dropped. new_PriorityQueue 1 = Some q0 \<and> FindSimliar [98] sample_tree q0 = Some (b, q) \<and>
    (b \<longleftrightarrow> (\<exists>x. dictionary sample_tree x \<noteq> None \<and> strict_prefix [98] x)) \<and>
    distinct (map snd ms) \<and> set ms = {(f, x). dictionary sample_tree x = Some f \<and> prefix [98] x} \<and>
    pq_inv q \<and> GetSize q = min (nat 1) (length ms) \<and> mset ms = pq_contents q + dropped \<and>
    (\<forall>y \<in># dropped. \<forall>z \<in># pq_contents q. fst y \<le> fst z)"
  by (rule suggestions_are_most_frequent [OF sample_tree_inv]) simp_all

text \<open>Loading a file keeps the tree well formed and never fails once the file is open.\<close>

lemma Insert_inv: "tree_inv root \<Longrightarrow> fst (Insert w f root) \<and> tree_inv (snd (Insert w f root))"
  using Insert_at_inv [of root] Insert_at_dictionary by (cases w) (simp_all add: Insert_def)

lemma Init_loop_step:
  "tree_inv root \<Longrightarrow> \<exists>root'. Init_loop (line # lines) root = Init_loop lines root' \<and> tree_inv root'"
  using Insert_inv by (auto simp: Let_def case_prod_unfold split: option.split list.split)

lemma Init_loop_inv: "tree_inv root \<Longrightarrow> fst (Init_loop lines root) \<and> tree_inv (snd (Init_loop lines root))"
proof (induction lines arbitrary: root)
  case (Cons line lines)
  then show ?case using Init_loop_step [of root line lines] by auto
qed simp

text \<open>Every node is deleted exactly once, and after the nodes below it.\<close>

fun paths :: "dir list \<Rightarrow> NodeTree \<Rightarrow> dir list set" where
  "paths p Null = {}"
| "paths p (Node ch t fq l m r) = insert p (paths (p @ [L]) l \<union> paths (p @ [M]) m \<union> paths (p @ [R]) r)"

lemma paths_prefix: "x \<in> paths p node \<Longrightarrow> prefix p x"
  by (induction p node rule: paths.induct) (auto dest: append_prefixD)

lemma DestroyNode_once: "distinct (DestroyNode p node) \<and> set (DestroyNode p node) = paths p node"
proof (induction p node rule: DestroyNode.induct)
  case (2 p ch t fq l m r)
  have "prefix (p @ [a]) x \<Longrightarrow> prefix (p @ [b]) x \<Longrightarrow> a = b" for a b x by (auto simp: prefix_def)
  then have "paths (p @ [a]) n \<inter> paths (p @ [b]) k = {}" if "a \<noteq> b" for a b n k using that paths_prefix by blast
  moreover have "p \<notin> paths (p @ [a]) n" for a n using paths_prefix [of p "p @ [a]" n] by auto
  ultimately show ?case using 2 by (simp add: Int_Un_distrib Un_assoc)
qed simp

text \<open>A dictionary line \<open>word TAB count\<close> enters the word with the number its own text converts to:
  the count of the line is never read.
\<close>

theorem init_ignores_count:
  assumes "w \<noteq> []" "9 \<notin> set w" "w \<noteq> [32]" "9 \<notin> set n" "n \<noteq> []" "n \<noteq> [32]"
  shows "Init (Some ((w @ 9 # n) # lines)) root = Init (Some lines) (snd (Insert w (atoi w) root))"
proof -
  have sep: "find_in [9] (w @ 9 # s) = Some (length w)" for s using assms(2) by (induction w) (auto split: if_splits)
  have none: "find_in [9] n = None" using assms(4) by (induction n) auto
  have "pieces [9] n = [n]" by (subst pieces.simps) (simp add: none)
  then have "pieces [9] (w @ 9 # n) = [w, n]" by (subst pieces.simps) (simp add: sep)
  then have "splitEx (w @ 9 # n) [9] = Some [w, n]"
    using split_loop_pieces [of "[9]" 0 "w @ 9 # n" "[]"] assms by (simp add: splitEx_def kept_def)
  moreover have "fst (Insert w (atoi w) root)"
    using Insert_at_dictionary by (cases w) (simp_all add: Insert_def)
  ultimately show ?thesis by (simp add: Init_def Let_def case_prod_unfold)
qed

theorem init_ignores_count_witness:
  "Init (Some [[97, 9, 55]]) Null = Init (Some []) (snd (Insert [97] (atoi [97]) Null)) \<and> atoi [97] = 0 \<and> atoi [55] = 7"
  using init_ignores_count [of "[97]" "[55]" "[]" Null]
  by (simp add: atoi_def strtoll_def strto_sign_def c_str_def is_space_def digits_value_def is_digit_def)

end
