(* ===== verification/Max_Heap.thy ===== *)
theory Max_Heap
  imports Heap_Array Bytes
begin

text \<open>
  The selection of the first \<open>k\<close> documents of an ordering (\<open>index_read/utils/max_heap.h\<close>): the
  entries with their comparison operators, and the heap of the \<open>k\<close> best entries seen so far with
  the worst of them at the root. The heap is a template over the entries: its operations take
  \<open>operator<\<close> and \<open>operator==\<close> as arguments. Arithmetic of doubles is an argument as well.
\<close>

section \<open>Entries\<close>

datatype FIELDTYPE = FIELDTYPE_INT | FIELDTYPE_DOUBLE | FIELDTYPE_STRING

abbreviation SORT_FIELD_ASC :: u32 where "SORT_FIELD_ASC \<equiv> 4"
abbreviation SORT_FIELD_DESC :: u32 where "SORT_FIELD_DESC \<equiv> 5"

text \<open>The score of type \<open>T\<close>, which the code instantiates with \<open>int\<close>, \<open>std::string\<close> and \<open>double\<close> for
  the three field types; \<open>'d\<close> are the doubles.\<close>

datatype 'd score = SInt int | SStr "byte list" | SDbl 'd

record 'd DocIdEntry =
  DocId :: "byte list"
  Score :: "'d score"
  FieldType :: FIELDTYPE
  SortType :: u32

definition new_DocIdEntry :: "byte list \<Rightarrow> 'd score \<Rightarrow> FIELDTYPE \<Rightarrow> u32 \<Rightarrow> 'd DocIdEntry" where
  "new_DocIdEntry doc_id sc field_type sort_type =
     \<lparr>DocId = doc_id, Score = sc, FieldType = field_type, SortType = sort_type\<rparr>"

text \<open>What the comparisons use of doubles: \<open>lexical_cast<double, double>\<close>, a difference that is less
  than \<open>1e-7\<close> in absolute value, and a negative difference.\<close>

record 'd dbl_ops =
  dcast :: "'d \<Rightarrow> 'd"
  dnear :: "'d \<Rightarrow> 'd \<Rightarrow> bool"
  dless :: "'d \<Rightarrow> 'd \<Rightarrow> bool"

text \<open>\<open>lexical_cast<std::string, std::string>\<close> through a string stream: the one word of the
  argument, and the empty string when the stream has no word or anything after the first.\<close>

definition lexical_cast_string :: "byte list \<Rightarrow> byte list" where
  "lexical_cast_string arg =
     (let s = dropWhile is_space arg; w = takeWhile (\<lambda>b. \<not> is_space b) s
      in if dropWhile is_space (drop (length w) s) = [] then w else [])"

fun int_of :: "'d score \<Rightarrow> int" where
  "int_of (SInt i) = i"
| "int_of _ = 0"

fun str_of :: "'d score \<Rightarrow> byte list" where
  "str_of (SStr s) = s"
| "str_of _ = []"

text \<open>The flags \<open>tmp\<close>, \<open>tmp1\<close>, \<open>tmp2\<close>: equal, less, greater.\<close>

definition score_flags :: "'d dbl_ops \<Rightarrow> FIELDTYPE \<Rightarrow> 'd score \<Rightarrow> 'd score \<Rightarrow> bool \<times> bool \<times> bool" where
  "score_flags D ft a b =
     (case ft of
        FIELDTYPE_INT \<Rightarrow> (int_of a = int_of b, int_of a < int_of b, int_of a > int_of b)
      | FIELDTYPE_STRING \<Rightarrow>
          let lhs = lexical_cast_string (str_of a); rhs = lexical_cast_string (str_of b)
          in (bcmp lhs rhs = 0, bcmp lhs rhs < 0, bcmp lhs rhs > 0)
      | FIELDTYPE_DOUBLE \<Rightarrow>
          (case (a, b) of
             (SDbl x, SDbl y) \<Rightarrow>
               let lhs = dcast D x; rhs = dcast D y in (dnear D lhs rhs, dless D lhs rhs, dless D rhs lhs)
           | _ \<Rightarrow> (True, False, False)))"

definition entry_less :: "'d dbl_ops \<Rightarrow> 'd DocIdEntry \<Rightarrow> 'd DocIdEntry \<Rightarrow> bool" where
  "entry_less D x other =
     (let (tmp, tmp1, tmp2) = score_flags D (FieldType x) (Score x) (Score other)
      in if SortType x = SORT_FIELD_ASC then (if tmp then bcmp (DocId x) (DocId other) < 0 else tmp1)
         else (if tmp then bcmp (DocId x) (DocId other) > 0 else tmp2))"

text \<open>\<open>operator==\<close> looks at the scores only. The round trip of an \<open>int\<close> through \<open>uint64_t\<close> text is
  injective, so equality of the results is equality of the scores.\<close>

definition entry_equal :: "'d dbl_ops \<Rightarrow> 'd DocIdEntry \<Rightarrow> 'd DocIdEntry \<Rightarrow> bool" where
  "entry_equal D x other = fst (score_flags D (FieldType x) (Score x) (Score other))"

section \<open>The heap\<close>

text \<open>The larger child of \<open>index\<close>, when there is one.\<close>

definition larger_child :: "('e \<Rightarrow> 'e \<Rightarrow> bool) \<Rightarrow> 'e list \<Rightarrow> nat \<Rightarrow> nat" where
  "larger_child lt v index =
     (let c = 2 * index + 1 in if c + 1 < length v \<and> lt (v ! c) (v ! (c + 1)) then c + 1 else c)"

function down_loop :: "('e \<Rightarrow> 'e \<Rightarrow> bool) \<Rightarrow> ('e \<Rightarrow> 'e \<Rightarrow> bool) \<Rightarrow> 'e \<Rightarrow> 'e list \<Rightarrow> nat \<Rightarrow> 'e list" where
  "down_loop lt eq val v index =
     (if 2 * index + 1 < length v then
        let child_index = larger_child lt v index in
        if lt (v ! child_index) val \<or> eq (v ! child_index) val then v[index := val]
        else down_loop lt eq val (v[index := v ! child_index]) child_index
      else v[index := val])"
  by pat_completeness auto

termination
  by (relation "measure (\<lambda>(lt, eq, val, v, index). length v - index)")
    (auto simp: larger_child_def Let_def split: if_splits)

definition downAdjust :: "('e \<Rightarrow> 'e \<Rightarrow> bool) \<Rightarrow> ('e \<Rightarrow> 'e \<Rightarrow> bool) \<Rightarrow> 'e list \<Rightarrow> nat \<Rightarrow> 'e list" where
  "downAdjust lt eq v index = down_loop lt eq (v ! index) v index"

definition emplacePeek :: "('e \<Rightarrow> 'e \<Rightarrow> bool) \<Rightarrow> ('e \<Rightarrow> 'e \<Rightarrow> bool) \<Rightarrow> 'e list \<Rightarrow> 'e \<Rightarrow> 'e list" where
  "emplacePeek lt eq v val = downAdjust lt eq (v[0 := val]) 0"

text \<open>\<open>int i = (v.size() - 2) / 2\<close>: the subtraction is of \<open>size_t\<close> and the result is cut to an \<open>int\<close>.\<close>

definition build_start :: "nat \<Rightarrow> int" where
  "build_start n = sint (ucast ((word_of_nat n - 2 :: u64) div 2) :: u32)"

function build_loop :: "('e \<Rightarrow> 'e \<Rightarrow> bool) \<Rightarrow> ('e \<Rightarrow> 'e \<Rightarrow> bool) \<Rightarrow> 'e list \<Rightarrow> int \<Rightarrow> 'e list" where
  "build_loop lt eq v i = (if i \<ge> 0 then build_loop lt eq (downAdjust lt eq v (nat i)) (i - 1) else v)"
  by pat_completeness auto

termination
  by (relation "measure (\<lambda>(lt, eq, v, i). nat (i + 1))") auto

definition buildMaxHeap :: "('e \<Rightarrow> 'e \<Rightarrow> bool) \<Rightarrow> ('e \<Rightarrow> 'e \<Rightarrow> bool) \<Rightarrow> 'e list \<Rightarrow> 'e list" where
  "buildMaxHeap lt eq v = build_loop lt eq v (build_start (length v))"

declare down_loop.simps [simp del] build_loop.simps [simp del]

section \<open>The \<open>k\<close> first entries\<close>

text \<open>The first loop: entries that pass are collected until there are \<open>k\<close>.\<close>

fun fill_loop :: "('e \<Rightarrow> bool) \<Rightarrow> int \<Rightarrow> 'e list \<Rightarrow> 'e list \<Rightarrow> 'e list" where
  "fill_loop pass k [] heap = heap"
| "fill_loop pass k (x # xs) heap =
     (let heap' = (if pass x then heap @ [x] else heap)
      in if int (length heap') \<ge> k then heap' else fill_loop pass k xs heap')"

text \<open>The second loop, over the entries from index \<open>k\<close> on.\<close>

definition heap_offer :: "('e \<Rightarrow> 'e \<Rightarrow> bool) \<Rightarrow> ('e \<Rightarrow> 'e \<Rightarrow> bool) \<Rightarrow> ('e \<Rightarrow> bool) \<Rightarrow> 'e \<Rightarrow> 'e list \<Rightarrow> 'e list" where
  "heap_offer lt eq pass x heap = (if lt x (heap ! 0) \<and> pass x then emplacePeek lt eq heap x else heap)"

text \<open>\<open>getNumbers\<close>; a negative \<open>k\<close> makes the second loop read before the vector.\<close>

definition getNumbers :: "('e \<Rightarrow> 'e \<Rightarrow> bool) \<Rightarrow> ('e \<Rightarrow> 'e \<Rightarrow> bool) \<Rightarrow> 'e list \<Rightarrow> int \<Rightarrow> 'e list option" where
  "getNumbers lt eq arr k =
     (if k = 0 then Some []
      else let heap = fill_loop (\<lambda>_. True) k arr []
           in if heap = [] then Some []
              else if k < 0 then None
              else Some (fold (heap_offer lt eq (\<lambda>_. True)) (drop (nat k) arr) (buildMaxHeap lt eq heap)))"

definition getNumbers_after :: "('e \<Rightarrow> 'e \<Rightarrow> bool) \<Rightarrow> ('e \<Rightarrow> 'e \<Rightarrow> bool) \<Rightarrow> 'e list \<Rightarrow> 'e \<Rightarrow> int \<Rightarrow> 'e list option" where
  "getNumbers_after lt eq arr last_value k =
     (if k = 0 then Some []
      else let heap = fill_loop (lt last_value) k arr []
           in if heap = [] then Some []
              else if k < 0 then None
              else Some (fold (heap_offer lt eq (lt last_value)) (drop (nat k) arr) (buildMaxHeap lt eq heap)))"

section \<open>Where the heap building starts\<close>

lemma build_start_one: "build_start 1 = - 1"
proof -
  have "(word_of_nat 1 - 2 :: u64) = - 1" by simp
  moreover have "(- 1 :: u64) div 2 = 0x7FFFFFFFFFFFFFFF" by simp
  ultimately show ?thesis by (simp add: build_start_def)
qed

lemma build_start_eq:
  assumes "2 \<le> n" "n < 2 ^ 31"
  shows "build_start n = (int n - 2) div 2"
proof -
  have "(word_of_nat n - 2 :: u64) = word_of_nat (n - 2)" using assms(1) by (simp add: of_nat_diff)
  then have "unat (word_of_nat n - 2 :: u64) = (n - 2) mod 2 ^ 64" by (simp only: unat_of_nat) simp
  then have "unat ((word_of_nat n - 2 :: u64) div 2) = (n - 2) div 2" using assms by (simp add: unat_div)
  then have "unat (ucast ((word_of_nat n - 2 :: u64) div 2) :: u32) = (n - 2) div 2"
    using assms by (simp add: unsigned_ucast_eq unsigned_take_bit_eq take_bit_nat_def)
  moreover have "(n - 2) div 2 < 2 ^ 31" using assms by simp
  ultimately have "build_start n = int ((n - 2) div 2)" by (simp only: build_start_def sint_small)
  then show ?thesis using assms(1) by (simp add: of_nat_div of_nat_diff)
qed

section \<open>What the loops do whatever the operators are\<close>

lemma down_loop_mset: "index < length v \<Longrightarrow> mset (down_loop lt eq p v index) = mset (v[index := p])"
proof (induction "length v - index" arbitrary: v index rule: less_induct)
  case less
  let ?c = "larger_child lt v index"
  show ?case
  proof (cases "2 * index + 1 < length v \<and> \<not> (lt (v ! ?c) p \<or> eq (v ! ?c) p)")
    case True
    have c: "index < ?c" "?c < length v" using True by (auto simp: larger_child_def Let_def)
    have step: "down_loop lt eq p v index = down_loop lt eq p (v[index := v ! ?c]) ?c"
      using True by (subst down_loop.simps) (simp add: Let_def)
    have "v[index := v ! ?c, ?c := p] = swap index ?c (v[index := p])"
      using c less.prems by (simp add: swap_def list_update_swap)
    then show ?thesis using less.hyps [of "v[index := v ! ?c]" ?c] step c less.prems by simp
  next
    case False
    then have "down_loop lt eq p v index = v[index := p]" by (subst down_loop.simps) (auto simp: Let_def)
    then show ?thesis by simp
  qed
qed

lemma downAdjust_mset: "index < length v \<Longrightarrow> mset (downAdjust lt eq v index) = mset v"
  by (simp add: downAdjust_def down_loop_mset)

lemma build_loop_mset: "i < int (length v) \<Longrightarrow> mset (build_loop lt eq v i) = mset v"
proof (induction "nat (i + 1)" arbitrary: v i rule: less_induct)
  case less
  show ?case
  proof (cases "i \<ge> 0")
    case True
    have m: "mset (downAdjust lt eq v (nat i)) = mset v" using downAdjust_mset [of "nat i" v] True less.prems by simp
    then have "length (downAdjust lt eq v (nat i)) = length v" by (metis size_mset)
    then have "mset (build_loop lt eq (downAdjust lt eq v (nat i)) (i - 1)) = mset v"
      using less.hyps [of "i - 1" "downAdjust lt eq v (nat i)"] True less.prems m by simp
    then show ?thesis using True by (subst build_loop.simps) simp
  qed (subst build_loop.simps, simp)
qed

lemma build_start_two: "build_start (Suc (Suc 0)) = 0"
proof -
  have "build_start 2 = 0" by (subst build_start_eq) simp_all
  then show ?thesis by (simp only: numeral_2_eq_2)
qed

lemma build_start_less: "v \<noteq> [] \<Longrightarrow> length v < 2 ^ 31 \<Longrightarrow> build_start (length v) < int (length v)"
proof -
  assume v: "v \<noteq> []" "length v < 2 ^ 31"
  consider "length v = 1" | "2 \<le> length v" using v(1) by (cases v) (auto simp: Suc_le_eq)
  then show ?thesis using build_start_one build_start_eq v(2) by cases simp_all
qed

lemma buildMaxHeap_mset: "v \<noteq> [] \<Longrightarrow> length v < 2 ^ 31 \<Longrightarrow> mset (buildMaxHeap lt eq v) = mset v"
  by (simp add: buildMaxHeap_def build_loop_mset build_start_less)

lemma heap_offer_set: "v \<noteq> [] \<Longrightarrow> heap_offer lt eq pass x v \<noteq> [] \<and> length (heap_offer lt eq pass x v) = length v \<and>
    set (heap_offer lt eq pass x v) \<subseteq> set v \<union> {y. y = x \<and> pass y}"
proof -
  assume v: "v \<noteq> []"
  then have m: "mset (emplacePeek lt eq v x) = mset (v[0 := x])" by (simp add: emplacePeek_def downAdjust_mset)
  have "length (emplacePeek lt eq v x) = length v" using arg_cong [OF m, of size] by simp
  moreover have "set (emplacePeek lt eq v x) \<subseteq> insert x (set v)"
    using mset_eq_setD [OF m] set_update_subset_insert [of v 0 x] by simp
  ultimately show ?thesis using v by (auto simp: heap_offer_def)
qed

lemma fold_offer_set: "v \<noteq> [] \<Longrightarrow> length (fold (heap_offer lt eq pass) xs v) = length v \<and>
    set (fold (heap_offer lt eq pass) xs v) \<subseteq> set v \<union> {y \<in> set xs. pass y}"
proof (induction xs arbitrary: v)
  case (Cons x xs)
  note o = heap_offer_set [OF Cons.prems, of lt eq pass x]
  show ?case using Cons.IH [of "heap_offer lt eq pass x v"] o by auto
qed simp

lemma fold_offer_filter: "fold (heap_offer lt eq pass) xs v = fold (heap_offer lt eq (\<lambda>_. True)) (filter pass xs) v"
  by (induction xs arbitrary: v) (simp_all add: heap_offer_def)

lemma fill_loop_take: "int (length heap) < k \<Longrightarrow> fill_loop (\<lambda>_. True) k xs heap = heap @ take (nat k - length heap) xs"
proof (induction xs arbitrary: heap)
  case (Cons x xs)
  have "nat k - length heap = Suc (nat k - length (heap @ [x]))" using Cons.prems by simp
  then show ?case using Cons.IH [of "heap @ [x]"] Cons.prems by (auto simp: Let_def)
qed simp

lemma fill_loop_filter: "int (length heap) < k \<Longrightarrow> fill_loop pass k xs heap = fill_loop (\<lambda>_. True) k (filter pass xs) heap"
proof (induction xs arbitrary: heap)
  case (Cons x xs)
  then show ?case by (cases "int (length heap) + 1 < k") (auto simp: Let_def)
qed simp

lemma fill_loop_set: "set (fill_loop pass k xs heap) \<subseteq> set heap \<union> {x \<in> set xs. pass x}"
proof (induction xs arbitrary: heap)
  case (Cons x xs)
  show ?case using Cons.IH [of "heap @ [x]"] Cons.IH [of heap] by (auto simp: Let_def split: if_splits)
qed simp

section \<open>Orders the heap is correct for\<close>

text \<open>
  What the heap needs of the operators of its entries: a total preorder \<open>worse\<close> that
  \<open>operator<\<close> refines and \<open>operator==\<close> respects, on the entries of one request.
\<close>

locale heap_entries = total_preorder_rel worse for worse :: "'e \<Rightarrow> 'e \<Rightarrow> bool" +
  fixes lt :: "'e \<Rightarrow> 'e \<Rightarrow> bool"
    and eq :: "'e \<Rightarrow> 'e \<Rightarrow> bool"
    and ok :: "'e \<Rightarrow> bool"
  assumes lt_worse: "ok x \<Longrightarrow> ok y \<Longrightarrow> lt x y \<Longrightarrow> worse y x"
    and not_lt_worse: "ok x \<Longrightarrow> ok y \<Longrightarrow> \<not> lt x y \<Longrightarrow> worse x y"
    and eq_worse: "ok x \<Longrightarrow> ok y \<Longrightarrow> eq x y \<Longrightarrow> worse y x"
begin

lemma larger_child_worst:
  assumes ok: "list_all ok v" and i: "0 < i" "i < length v" "parent i = index"
  shows "worse (v ! larger_child lt v index) (v ! i)"
proof -
  have i': "i = 2 * index + 1 \<or> i = 2 * index + 2" using parent_iff [OF i(1)] i(3) by blast
  have oks: "ok (v ! j)" if "j < length v" for j using ok that by (simp add: list_all_length)
  let ?c = "2 * index + 1"
  have c: "?c < length v" using i' i(2) by auto
  show ?thesis
  proof (cases "?c + 1 < length v")
    case True
    have "ok (v ! ?c)" "ok (v ! (?c + 1))" using oks c True by blast+
    then show ?thesis using i' True lt_worse not_lt_worse
      by (auto simp: larger_child_def Let_def refl)
  next
    case False
    then have "i = ?c" using i' i(2) by auto
    then show ?thesis using False by (simp add: larger_child_def Let_def refl)
  qed
qed

lemma down_loop_heap:
  "down_inv (v[index := p]) (length v) k index \<Longrightarrow> list_all ok (v[index := p]) \<Longrightarrow>
   heap_from (down_loop lt eq p v index) (length v) k \<and> mset (down_loop lt eq p v index) = mset (v[index := p])"
proof (induction "length v - index" arbitrary: v index rule: less_induct)
  case less
  let ?u = "v[index := p]" and ?c = "larger_child lt v index"
  have ix: "index < length v" using less.prems(1) by (simp add: down_inv_def)
  show ?case
  proof (cases "2 * index + 1 < length v")
    case False
    then have "\<not> (0 < i \<and> i < length v \<and> parent i = index)" for i using parent_iff [of i index] by auto
    then have "heap_from ?u (length v) k" using down_inv_stop [OF less.prems(1)] by blast
    then show ?thesis using False by (subst (1 2) down_loop.simps) simp
  next
    case True
    have c: "index < ?c" "?c < length v" "parent ?c = index"
      using True by (auto simp: larger_child_def Let_def parent_def)
    have child: "larger_child lt ?u index = ?c" by (simp add: larger_child_def Let_def)
    have uc: "?u ! ?c = v ! ?c" "?u ! index = p" using c ix by simp_all
    have ok: "ok (v ! ?c)" "ok p" using less.prems(2) uc c ix by (metis list_all_length length_list_update)+
    have worst: "worse (v ! ?c) (?u ! i)" if "0 < i" "i < length v" "parent i = index" for i
      using larger_child_worst [OF less.prems(2) that(1)] that uc child by simp
    show ?thesis
    proof (cases "lt (v ! ?c) p \<or> eq (v ! ?c) p")
      case True': True
      then have "worse p (v ! ?c)" using lt_worse eq_worse ok by blast
      then have "worse (?u ! index) (?u ! i)" if "0 < i" "i < length v" "parent i = index" for i
        using worst [OF that] trans uc by metis
      then have "heap_from ?u (length v) k" by (rule down_inv_stop [OF less.prems(1)])
      moreover have "down_loop lt eq p v index = ?u" using True True' by (subst down_loop.simps) (simp add: Let_def)
      ultimately show ?thesis by simp
    next
      case False
      let ?v = "v[index := v ! ?c]"
      have step: "down_loop lt eq p v index = down_loop lt eq p ?v ?c"
        using True False by (subst down_loop.simps) (simp add: Let_def)
      have sw: "?v[?c := p] = swap index ?c ?u" using c ix by (simp add: swap_def list_update_swap)
      have "worse (?u ! ?c) (?u ! index)" using not_lt_worse ok False uc by simp
      moreover have "0 < ?c" using c by simp
      ultimately have "down_inv (swap index ?c ?u) (length v) k ?c"
        using down_inv_swap [OF less.prems(1) _ c(2,3)] worst uc by simp
      then have inv: "down_inv (?v[?c := p]) (length ?v) k ?c" using sw by simp
      have m: "mset (?v[?c := p]) = mset ?u" unfolding sw using c ix by simp
      have "set (?v[?c := p]) = set ?u" using m by (rule mset_eq_setD)
      then have oks: "list_all ok (?v[?c := p])" using less.prems(2) by (simp add: list_all_iff)
      have "length ?v - ?c < length v - index" using c by simp
      from less.hyps [OF this inv oks] show ?thesis using step m by simp
    qed
  qed
qed

lemma downAdjust_heap:
  assumes "index < length v" "heap_from v (length v) (Suc index)" "list_all ok v"
  shows "heap_from (downAdjust lt eq v index) (length v) index" "mset (downAdjust lt eq v index) = mset v"
  using down_loop_heap [of v index "v ! index" index] down_inv_start [of index "length v" v] assms
  by (simp_all add: downAdjust_def)

lemma build_loop_heap:
  "heap_from v (length v) (nat (i + 1)) \<Longrightarrow> i < int (length v) \<Longrightarrow> list_all ok v \<Longrightarrow>
   heap_from (build_loop lt eq v i) (length v) 0 \<and> mset (build_loop lt eq v i) = mset v"
proof (induction "nat (i + 1)" arbitrary: v i rule: less_induct)
  case less
  show ?case
  proof (cases "i \<ge> 0")
    case False
    then show ?thesis using less.prems by (subst (1 2) build_loop.simps) simp
  next
    case True
    let ?w = "downAdjust lt eq v (nat i)"
    have i: "nat i < length v" "nat (i + 1) = Suc (nat i)" using True less.prems(2) by auto
    have w: "heap_from ?w (length v) (nat i)" "mset ?w = mset v"
      using downAdjust_heap [OF i(1)] less.prems i(2) by simp_all
    then have len: "length ?w = length v" by (metis size_mset)
    have "list_all ok ?w" using less.prems(3) mset_eq_setD [OF w(2)] by (simp add: list_all_iff)
    moreover have "nat (i - 1 + 1) < nat (i + 1)" using True by simp
    ultimately have "heap_from (build_loop lt eq ?w (i - 1)) (length ?w) 0 \<and> mset (build_loop lt eq ?w (i - 1)) = mset ?w"
      using less.hyps [of "i - 1" ?w] w(1) len less.prems(2) by simp
    moreover have "build_loop lt eq v i = build_loop lt eq ?w (i - 1)" using True by (subst build_loop.simps) simp
    ultimately show ?thesis using len w(2) by simp
  qed
qed

lemma buildMaxHeap_heap:
  assumes "v \<noteq> []" "length v < 2 ^ 31" "list_all ok v"
  shows "heap_from (buildMaxHeap lt eq v) (length v) 0 \<and> mset (buildMaxHeap lt eq v) = mset v"
proof -
  have start: "build_start (length v) < int (length v)" "int (length v) \<le> 2 * build_start (length v) + 3"
  proof -
    consider "length v = 1" | "2 \<le> length v" using assms(1) by (cases v) (auto simp: Suc_le_eq)
    then show "build_start (length v) < int (length v)" "int (length v) \<le> 2 * build_start (length v) + 3"
      using build_start_one build_start_eq assms(2) by (cases; simp)+
  qed
  have "\<not> (0 < i \<and> i < length v \<and> nat (build_start (length v) + 1) \<le> parent i)" for i
    using start(2) by (auto simp: parent_def)
  then have "heap_from v (length v) (nat (build_start (length v) + 1))" unfolding heap_from_def by blast
  then show ?thesis using build_loop_heap start(1) assms(3) by (simp add: buildMaxHeap_def)
qed

definition heap_ok :: "'e list \<Rightarrow> bool" where
  "heap_ok v \<longleftrightarrow> v \<noteq> [] \<and> heap_from v (length v) 0 \<and> list_all ok v"

lemma root_worst: "heap_ok v \<Longrightarrow> z \<in> set v \<Longrightarrow> worse (v ! 0) z"
  using heap_root [of v "length v"] by (auto simp: heap_ok_def in_set_conv_nth)

lemma emplacePeek_heap:
  assumes "heap_ok v" "ok x"
  shows "heap_ok (emplacePeek lt eq v x)" "add_mset (v ! 0) (mset (emplacePeek lt eq v x)) = add_mset x (mset v)"
proof -
  let ?u = "v[0 := x]"
  have ne: "v \<noteq> []" using assms(1) by (simp add: heap_ok_def)
  have "heap_from ?u (length ?u) (Suc 0)" using assms(1) unfolding heap_from_def heap_ok_def by auto
  moreover have oks: "list_all ok ?u" using assms by (auto simp: heap_ok_def list_all_length nth_list_update)
  ultimately have *: "heap_from (emplacePeek lt eq v x) (length ?u) 0" "mset (emplacePeek lt eq v x) = mset ?u"
    using downAdjust_heap [of 0 ?u] ne by (simp_all add: emplacePeek_def)
  have "length (emplacePeek lt eq v x) = length ?u" using *(2) by (metis size_mset)
  moreover have "list_all ok (emplacePeek lt eq v x)" using oks mset_eq_setD [OF *(2)] by (simp add: list_all_iff)
  ultimately show "heap_ok (emplacePeek lt eq v x)" using *(1) ne unfolding heap_ok_def by auto
  show "add_mset (v ! 0) (mset (emplacePeek lt eq v x)) = add_mset x (mset v)"
    using *(2) ne by (cases v) simp_all
qed

end

sublocale heap_entries \<subseteq> selection: bounded_selection worse "heap_offer lt eq (\<lambda>_. True)" mset length heap_ok ok
proof
  fix v x assume v: "heap_ok v" and x: "ok x"
  note e = emplacePeek_heap [OF v x]
  have "length (emplacePeek lt eq v x) = length v" using arg_cong [OF e(2), of size] by simp
  then show "heap_ok (heap_offer lt eq (\<lambda>_. True) x v) \<and> length (heap_offer lt eq (\<lambda>_. True) x v) = length v"
    and "size (mset (heap_offer lt eq (\<lambda>_. True) x v)) = min (length v) (Suc (size (mset v)))"
    using v e(1) by (simp_all add: heap_offer_def)
  have ok0: "ok (v ! 0)" using v by (cases v) (simp_all add: heap_ok_def)
  show "\<exists>d. add_mset x (mset v) = mset (heap_offer lt eq (\<lambda>_. True) x v) + d \<and>
      (\<forall>y \<in># d. \<forall>z \<in># mset (heap_offer lt eq (\<lambda>_. True) x v). worse y z)"
  proof (cases "lt x (v ! 0)")
    case True
    then have "worse (v ! 0) x" using lt_worse x ok0 by blast
    then have "worse (v ! 0) z" if "z \<in># add_mset x (mset v)" for z using that root_worst [OF v] by auto
    moreover have "z \<in># add_mset x (mset v)" if "z \<in># mset (emplacePeek lt eq v x)" for z
      using that e(2) by (metis insert_noteq_member union_single_eq_member add_mset_add_single Un_iff set_mset_union)
    ultimately show ?thesis using True e(2) by (intro exI [of _ "{#v ! 0#}"]) (simp add: heap_offer_def)
  next
    case False
    then have "worse x (v ! 0)" using not_lt_worse x ok0 by blast
    then have "worse x z" if "z \<in> set v" for z using root_worst [OF v that] trans by blast
    then show ?thesis using False by (intro exI [of _ "{#x#}"]) (simp add: heap_offer_def)
  qed
qed

context heap_entries
begin

lemma getNumbers_best:
  assumes k: "0 \<le> k" "k < 2 ^ 31" and ok: "list_all ok arr"
  shows "\<exists>res d. getNumbers lt eq arr k = Some res \<and> mset arr = mset res + d \<and>
    length res = min (nat k) (length arr) \<and> (\<forall>y \<in># d. \<forall>z \<in># mset res. worse y z)"
proof (cases "k = 0 \<or> arr = []")
  case True
  then show ?thesis by (auto simp: getNumbers_def)
next
  case False
  define v where "v = take (nat k) arr"
  have v: "fill_loop (\<lambda>_. True) k arr [] = v" using fill_loop_take [of "[]" k arr] False k by (simp add: v_def)
  have ne: "v \<noteq> []" "length v < 2 ^ 31" using False k by (auto simp: v_def min_def)
  have oks: "list_all ok v" "list_all ok (drop (nat k) arr)"
    using ok by (auto simp: v_def list_all_iff dest: in_set_takeD in_set_dropD)
  let ?h = "buildMaxHeap lt eq v" and ?res = "fold (heap_offer lt eq (\<lambda>_. True)) (drop (nat k) arr) (buildMaxHeap lt eq v)"
  have b: "heap_from ?h (length v) 0" "mset ?h = mset v" using buildMaxHeap_heap [OF ne oks(1)] by simp_all
  have len: "length ?h = length v" using b(2) by (metis size_mset)
  have h: "heap_ok ?h" using b len ne(1) oks(1) mset_eq_setD [OF b(2)] by (auto simp: heap_ok_def list_all_iff)
  obtain d where d: "mset ?h + mset (drop (nat k) arr) = mset ?res + d" "\<forall>y \<in># d. \<forall>z \<in># mset ?res. worse y z"
    using selection.offers_best [OF h oks(2)] by auto
  have "length ?res = length v" using selection.offers_inv [OF h oks(2)] len by simp
  moreover have "mset v + mset (drop (nat k) arr) = mset arr" unfolding v_def by (metis append_take_drop_id mset_append)
  moreover have "getNumbers lt eq arr k = Some ?res" using False k v ne by (simp add: getNumbers_def Let_def)
  ultimately show ?thesis using d b(2) by (intro exI [of _ ?res] exI [of _ d]) (simp add: v_def)
qed

text \<open>With \<open>search_after\<close>: as long as no entry among the first \<open>k\<close> is skipped, or there are no more.\<close>

lemma getNumbers_after_best:
  assumes k: "0 \<le> k" "k < 2 ^ 31" and ok: "list_all ok arr"
    and early: "list_all (lt lv) (take (nat k) arr) \<or> length arr \<le> nat k"
  shows "\<exists>res d. getNumbers_after lt eq arr lv k = Some res \<and> mset (filter (lt lv) arr) = mset res + d \<and>
    length res = min (nat k) (length (filter (lt lv) arr)) \<and> (\<forall>y \<in># d. \<forall>z \<in># mset res. worse y z)"
proof -
  let ?arr = "filter (lt lv) arr"
  have same: "getNumbers_after lt eq arr lv k = getNumbers lt eq ?arr k"
  proof (cases "k = 0")
    case False
    then have pos: "0 < k" using k by simp
    have fill: "fill_loop (lt lv) k arr [] = fill_loop (\<lambda>_. True) k ?arr []" using pos by (intro fill_loop_filter) simp
    show ?thesis
    proof (cases "length arr \<le> nat k")
      case True
      then have "length ?arr \<le> nat k" using length_filter_le [of "lt lv" arr] by linarith
      then show ?thesis using True pos fill by (simp add: getNumbers_after_def getNumbers_def Let_def)
    next
      case False
      then have all: "filter (lt lv) (take (nat k) arr) = take (nat k) arr" using early by (auto simp: list_all_iff)
      have split: "?arr = take (nat k) arr @ filter (lt lv) (drop (nat k) arr)"
        using all by (metis append_take_drop_id filter_append)
      then have "drop (nat k) ?arr = filter (lt lv) (drop (nat k) arr)" using False by simp
      then show ?thesis using pos fill by (simp add: getNumbers_after_def getNumbers_def Let_def fold_offer_filter [of lt eq "lt lv"])
    qed
  qed (simp add: getNumbers_after_def getNumbers_def)
  have "list_all ok ?arr" using ok by (auto simp: list_all_iff)
  from getNumbers_best [OF k this] show ?thesis unfolding same .
qed

end

section \<open>The entries of a request\<close>

text \<open>The order of the scores of one request, by its field and sort types.\<close>

definition score_cmp :: "FIELDTYPE \<Rightarrow> 'd score \<Rightarrow> 'd score \<Rightarrow> int" where
  "score_cmp ft a b =
     (case ft of
        FIELDTYPE_INT \<Rightarrow> cmp3 (int_of a) (int_of b)
      | FIELDTYPE_STRING \<Rightarrow> bcmp (lexical_cast_string (str_of a)) (lexical_cast_string (str_of b))
      | FIELDTYPE_DOUBLE \<Rightarrow> 0)"

definition no_better :: "FIELDTYPE \<Rightarrow> u32 \<Rightarrow> 'd DocIdEntry \<Rightarrow> 'd DocIdEntry \<Rightarrow> bool" where
  "no_better ft st x y \<longleftrightarrow>
     (if st = SORT_FIELD_ASC then score_cmp ft (Score y) (Score x) \<le> 0 else score_cmp ft (Score x) (Score y) \<le> 0)"

definition of_request :: "FIELDTYPE \<Rightarrow> u32 \<Rightarrow> 'd DocIdEntry \<Rightarrow> bool" where
  "of_request ft st x \<longleftrightarrow> FieldType x = ft \<and> SortType x = st"

lemma score_flags_cmp:
  "ft \<noteq> FIELDTYPE_DOUBLE \<Longrightarrow> score_flags D ft a b = (score_cmp ft a b = 0, score_cmp ft a b < 0, score_cmp ft a b > 0)"
  by (cases ft) (auto simp: score_flags_def score_cmp_def cmp3_def Let_def)

lemma score_cmp_antisym: "score_cmp ft b a = - score_cmp ft a b"
  using bcmp_antisym [of "lexical_cast_string (str_of b)" "lexical_cast_string (str_of a)"]
  by (cases ft) (simp_all add: score_cmp_def cmp3_def)

lemma score_cmp_trans: "score_cmp ft a b \<le> 0 \<Longrightarrow> score_cmp ft b c \<le> 0 \<Longrightarrow> score_cmp ft a c \<le> 0"
  using bcmp_trans by (cases ft) (auto simp: score_cmp_def cmp3_def split: if_splits)

interpretation entries: heap_entries "no_better ft st" "entry_less D" "entry_equal D" "of_request ft st"
  for ft :: FIELDTYPE and st :: u32 and D :: "'d dbl_ops"
proof
  fix x y z :: "'d DocIdEntry"
  show "no_better ft st x y \<Longrightarrow> no_better ft st y z \<Longrightarrow> no_better ft st x z"
    using score_cmp_trans by (auto simp: no_better_def split: if_splits)
  show "no_better ft st x y \<or> no_better ft st y x"
    using score_cmp_antisym [of ft "Score y" "Score x"] by (auto simp: no_better_def)
  assume "of_request ft st x" "of_request ft st y"
  then have r: "FieldType x = ft" "SortType x = st" by (simp_all add: of_request_def)
  have dbl: "no_better FIELDTYPE_DOUBLE st x y" for x y :: "'d DocIdEntry" by (simp add: no_better_def score_cmp_def)
  have less: "entry_less D x y = (if st = SORT_FIELD_ASC then (if c = 0 then bcmp (DocId x) (DocId y) < 0 else c < 0)
      else (if c = 0 then bcmp (DocId x) (DocId y) > 0 else c > 0))" and equal: "entry_equal D x y = (c = 0)"
    if "ft \<noteq> FIELDTYPE_DOUBLE" "c = score_cmp ft (Score x) (Score y)" for c
    using r that by (simp_all add: entry_less_def entry_equal_def score_flags_cmp)
  have worse: "no_better ft st y x = (if st = SORT_FIELD_ASC then c \<le> 0 else - c \<le> 0)"
    "no_better ft st x y = (if st = SORT_FIELD_ASC then - c \<le> 0 else c \<le> 0)" if "c = score_cmp ft (Score x) (Score y)" for c
    using that score_cmp_antisym [of ft "Score y" "Score x"] by (simp_all add: no_better_def)
  show "entry_less D x y \<Longrightarrow> no_better ft st y x"
    using less [OF _ HOL.refl] worse [OF HOL.refl] dbl by (cases "ft = FIELDTYPE_DOUBLE") (auto split: if_splits)
  show "\<not> entry_less D x y \<Longrightarrow> no_better ft st x y"
    using less [OF _ HOL.refl] worse [OF HOL.refl] dbl by (cases "ft = FIELDTYPE_DOUBLE") (auto split: if_splits)
  show "entry_equal D x y \<Longrightarrow> no_better ft st y x"
    using equal [OF _ HOL.refl] worse [OF HOL.refl] dbl by (cases "ft = FIELDTYPE_DOUBLE") (auto split: if_splits)
qed

section \<open>Properties\<close>


definition int_entry :: "byte \<Rightarrow> int \<Rightarrow> unit DocIdEntry" where
  "int_entry d i = new_DocIdEntry [d] (SInt i) FIELDTYPE_INT SORT_FIELD_ASC"

text \<open>Doubles that are all equal, for requests whose scores are not doubles.\<close>

definition no_dbl :: "unit dbl_ops" where
  "no_dbl = \<lparr>dcast = (\<lambda>d. d), dnear = (\<lambda>_ _. True), dless = (\<lambda>_ _. False)\<rparr>"

lemma int_entry_fields [simp]:
  "DocId (int_entry d i) = [d]" "Score (int_entry d i) = SInt i" "FieldType (int_entry d i) = FIELDTYPE_INT"
  "SortType (int_entry d i) = SORT_FIELD_ASC"
  by (simp_all add: int_entry_def new_DocIdEntry_def)


text \<open>After \<open>search_after\<close> every entry returned comes from the input and follows the last value,
  and there are at most \<open>k\<close> of them; this holds for every kind of score.
\<close>

theorem search_after_safe:
  assumes "0 \<le> k" "k < 2 ^ 31" "length arr < 2 ^ 31"
  shows "\<exists>res. getNumbers_after lt eq arr lv k = Some res \<and> length res \<le> nat k \<and>
    (\<forall>x \<in> set res. x \<in> set arr \<and> lt lv x)"
proof (cases "k = 0")
  case False
  define v where "v = fill_loop (lt lv) k arr []"
  have v: "v = take (nat k) (filter (lt lv) arr)"
    using fill_loop_filter [of "[]" k "lt lv" arr] fill_loop_take [of "[]" k "filter (lt lv) arr"] False assms(1) by (simp add: v_def)
  show ?thesis
  proof (cases "v = []")
    case True
    then show ?thesis using False by (simp add: getNumbers_after_def Let_def v_def)
  next
    case ne: False
    let ?h = "buildMaxHeap lt eq v" and ?res = "fold (heap_offer lt eq (lt lv)) (drop (nat k) arr) (buildMaxHeap lt eq v)"
    have "length v < 2 ^ 31" using v assms(2) by simp
    then have m: "mset ?h = mset v" using buildMaxHeap_mset ne by blast
    then have h: "?h \<noteq> []" "set ?h = set v" "length ?h = length v" using ne mset_eq_setD [OF m] by (auto, metis size_mset)
    have "set v \<subseteq> {x \<in> set arr. lt lv x}" using v by (auto dest: in_set_takeD)
    then have "set ?res \<subseteq> {x \<in> set arr. lt lv x}" using fold_offer_set [OF h(1)] h(2) by (blast dest: in_set_dropD)
    moreover have "length ?res = length v" using fold_offer_set [OF h(1)] h(3) by simp
    ultimately show ?thesis using False assms(1) ne v by (auto simp: getNumbers_after_def Let_def v_def [symmetric])
  qed
qed (simp add: getNumbers_after_def)

theorem search_after_safe_witness:
  "\<exists>res. getNumbers_after (<) (=) [1, 5, 3 :: int] 1 2 = Some res \<and> length res \<le> nat 2 \<and>
    (\<forall>x \<in> set res. x \<in> set [1, 5, 3] \<and> 1 < x)"
  by (rule search_after_safe) simp_all



section \<open>Where the code falls short\<close>

text \<open>The second loop of \<open>search_after\<close> starts at \<open>k\<close> even when the first one went further because it
  skipped entries: the entries in between are offered twice, and one displaces another.\<close>

lemma search_after_repeats:
  "getNumbers_after (entry_less D) (entry_equal D) [int_entry 97 1, int_entry 98 5, int_entry 99 3] (int_entry 97 1) 2 =
     Some [int_entry 99 3, int_entry 99 3]"
  by (simp add: getNumbers_after_def entry_less_def entry_equal_def score_flags_def buildMaxHeap_def build_start_two
      heap_offer_def emplacePeek_def downAdjust_def down_loop.simps build_loop.simps larger_child_def)

text \<open>\<open>operator==\<close> ends the sift at an equal score, so among entries of one score the root need not be
  the last by document: the entry given up is not the last in the order.\<close>

lemma ties_lose_order:
  "getNumbers (entry_less D) (entry_equal D) [int_entry 97 5, int_entry 98 5, int_entry 99 3] 2 =
     Some [int_entry 98 5, int_entry 99 3] \<and> entry_less D (int_entry 97 5) (int_entry 98 5)"
  by (simp add: getNumbers_def entry_less_def entry_equal_def score_flags_def buildMaxHeap_def build_start_two
      heap_offer_def emplacePeek_def downAdjust_def down_loop.simps build_loop.simps larger_child_def)

text \<open>String scores are read back as one word: every text with a space inside is the empty string.\<close>

lemma spaced_scores_equal:
  assumes "a \<noteq> []" "b \<noteq> []" "\<forall>c \<in> set (a @ b). \<not> is_space c"
  shows "lexical_cast_string (a @ [32] @ b) = []"
proof -
  have d: "dropWhile is_space (a @ 32 # b) = a @ 32 # b" using assms by (cases a) simp_all
  have t: "takeWhile (\<lambda>c. \<not> is_space c) (a @ 32 # b) = a" using assms(3) by (auto simp: takeWhile_append is_space_def)
  have sp: "is_space 32" by (simp add: is_space_def)
  have "dropWhile is_space b \<noteq> []" using assms by (cases b) simp_all
  then show ?thesis using sp unfolding lexical_cast_string_def by (simp add: d t Let_def del: dropWhile_eq_Nil_conv)
qed

end
