(* ===== verification/Order_Op.thy ===== *)
theory Order_Op
  imports Max_Heap
begin

text \<open>
  Ordering and paging of the result documents (\<open>index_read/order_op.h\<close>). The score map is the list
  of its pairs in key order; \<open>std::sort\<close> and the extra filter of the document manager are
  arguments; the response is the list of the pairs appended to it.
\<close>

section \<open>The operator\<close>

record OrderOpCond =
  last_id :: "byte list"
  limit_start :: u32
  oc_count :: u32
  has_extra_filter :: bool

record COrderOp =
  OrderFieldType :: FIELDTYPE
  SearchAfter :: bool
  OpSortType :: u32

type_synonym 'd result = "(byte list \<times> 'd score) list"

definition doc_info :: "'d DocIdEntry \<Rightarrow> byte list \<times> 'd score" where
  "doc_info e = (c_str (DocId e), Score e)"

text \<open>Insertion into a \<open>std::set\<close>, which keeps the first of two equivalent entries.\<close>

fun set_insert :: "('e \<Rightarrow> 'e \<Rightarrow> bool) \<Rightarrow> 'e \<Rightarrow> 'e list \<Rightarrow> 'e list" where
  "set_insert lt x [] = [x]"
| "set_insert lt x (y # ys) =
     (if lt x y then x # y # ys else if lt y x then y # set_insert lt x ys else y # ys)"

text \<open>\<open>std::upper_bound\<close> on a range in which the entries that follow the value come last.\<close>

definition upper_bound :: "('e \<Rightarrow> 'e \<Rightarrow> bool) \<Rightarrow> 'e list \<Rightarrow> 'e \<Rightarrow> 'e list" where
  "upper_bound lt xs v = dropWhile (\<lambda>e. \<not> lt v e) xs"

text \<open>The page loops: \<open>sequence\<close> counts the entries, \<open>start\<close> and \<open>stop\<close> are the converted bounds.\<close>

fun page_loop :: "('d DocIdEntry \<Rightarrow> bool) \<Rightarrow> int \<Rightarrow> int \<Rightarrow> 'd DocIdEntry list \<Rightarrow> int \<Rightarrow> 'd result \<Rightarrow> 'd result" where
  "page_loop check start stop [] sequence response = response"
| "page_loop check start stop (e # es) sequence response =
     (if \<not> check e then page_loop check start stop es sequence response
      else let sequence = sequence + 1 in
           if sequence < start then page_loop check start stop es sequence response
           else if sequence > stop then response
           else page_loop check start stop es sequence (response @ [doc_info e]))"

fun after_loop :: "('d DocIdEntry \<Rightarrow> bool) \<Rightarrow> int \<Rightarrow> 'd DocIdEntry list \<Rightarrow> int \<Rightarrow> 'd result \<Rightarrow> 'd result" where
  "after_loop check cnt [] c response = response"
| "after_loop check cnt (e # es) c response =
     (if \<not> c < cnt then response
      else if \<not> check e then after_loop check cnt es c response
      else after_loop check cnt es (c + 1) (response @ [doc_info e]))"

definition ProcessSearchAfter_set ::
  "'d dbl_ops \<Rightarrow> (byte list \<Rightarrow> bool) \<Rightarrow> 'd DocIdEntry list \<Rightarrow> 'd DocIdEntry \<Rightarrow> int \<Rightarrow> 'd result \<Rightarrow> 'd result" where
  "ProcessSearchAfter_set D check_doc score_set last_value cnt response =
     after_loop (\<lambda>e. check_doc (DocId e)) cnt (upper_bound (entry_less D) score_set last_value) 0 response"

definition ProcessSearchAfter_vec ::
  "'d dbl_ops \<Rightarrow> ('d DocIdEntry list \<Rightarrow> 'd DocIdEntry list) \<Rightarrow> 'd DocIdEntry list \<Rightarrow> 'd DocIdEntry \<Rightarrow> int \<Rightarrow> 'd result \<Rightarrow>
   'd result option" where
  "ProcessSearchAfter_vec D std_sort score_vec last_value cnt response =
     map_option (\<lambda>res. after_loop (\<lambda>_. True) cnt (std_sort res) 0 response)
       (getNumbers_after (entry_less D) (entry_equal D) score_vec last_value cnt)"

text \<open>\<open>Process\<close>: \<open>limit_start + count\<close> wraps at 32 bits and is then converted to \<open>int\<close>.\<close>

definition Process ::
  "'d dbl_ops \<Rightarrow> ('d DocIdEntry list \<Rightarrow> 'd DocIdEntry list) \<Rightarrow> (byte list \<Rightarrow> bool) \<Rightarrow> COrderOp \<Rightarrow>
   (byte list \<times> 'd score) list \<Rightarrow> 'd score \<Rightarrow> OrderOpCond \<Rightarrow> 'd result \<Rightarrow> 'd result option" where
  "Process D std_sort check_doc op score_map last_value cond response =
     (let last_entry = new_DocIdEntry (last_id cond) last_value (OrderFieldType op) (OpSortType op);
          entries = map (\<lambda>(d, s). new_DocIdEntry d s (OrderFieldType op) (OpSortType op)) score_map;
          score_set = (if has_extra_filter cond then fold (set_insert (entry_less D)) entries [] else []);
          score_vec = (if has_extra_filter cond then [] else entries);
          cnt = sint (oc_count cond); start = sint (limit_start cond);
          stop = sint (limit_start cond + oc_count cond - 1)
      in if SearchAfter op then
           (if has_extra_filter cond
            then Some (ProcessSearchAfter_set D check_doc score_set last_entry cnt response)
            else ProcessSearchAfter_vec D std_sort score_vec last_entry cnt response)
         else
           (if has_extra_filter cond
            then Some (page_loop (\<lambda>e. check_doc (DocId e)) start stop score_set (- 1) response)
            else map_option (\<lambda>res. page_loop (\<lambda>_. True) start stop (std_sort res) (- 1) response)
                   (getNumbers (entry_less D) (entry_equal D) score_vec (sint (limit_start cond + oc_count cond)))))"

section \<open>The order of the entries of a request\<close>

definition entry_cmp :: "FIELDTYPE \<Rightarrow> u32 \<Rightarrow> 'd DocIdEntry \<Rightarrow> 'd DocIdEntry \<Rightarrow> int" where
  "entry_cmp ft st x y =
     (let c = score_cmp ft (Score x) (Score y); c' = (if c = 0 then bcmp (DocId x) (DocId y) else c)
      in if st = SORT_FIELD_ASC then c' else - c')"

lemma entry_less_cmp:
  "ft \<noteq> FIELDTYPE_DOUBLE \<Longrightarrow> of_request ft st x \<Longrightarrow> entry_less D x y \<longleftrightarrow> entry_cmp ft st x y < 0"
  by (auto simp: entry_less_def entry_cmp_def of_request_def score_flags_cmp Let_def)

lemma entry_cmp_antisym: "entry_cmp ft st y x = - entry_cmp ft st x y"
  using score_cmp_antisym [of ft "Score y" "Score x"] bcmp_antisym [of "DocId y" "DocId x"]
  by (simp add: entry_cmp_def Let_def)

lemma entry_cmp_trans:
  assumes "entry_cmp ft st x y \<le> 0" "entry_cmp ft st y z \<le> 0" shows "entry_cmp ft st x z \<le> 0"
proof -
  have up: "(if score_cmp ft (Score x) (Score z) = 0 then bcmp (DocId x) (DocId z) else score_cmp ft (Score x) (Score z)) \<le> 0"
    if "(if score_cmp ft (Score x) (Score y) = 0 then bcmp (DocId x) (DocId y) else score_cmp ft (Score x) (Score y)) \<le> 0"
      "(if score_cmp ft (Score y) (Score z) = 0 then bcmp (DocId y) (DocId z) else score_cmp ft (Score y) (Score z)) \<le> 0" for x y z :: "'a DocIdEntry"
  proof -
    let ?xy = "score_cmp ft (Score x) (Score y)" and ?yz = "score_cmp ft (Score y) (Score z)" and ?xz = "score_cmp ft (Score x) (Score z)"
    have le: "?xy \<le> 0" "?yz \<le> 0" using that by (auto split: if_splits)
    then have xz: "?xz \<le> 0" by (rule score_cmp_trans)
    show ?thesis
    proof (cases "?xz = 0")
      case True
      then have "score_cmp ft (Score z) (Score x) \<le> 0" using score_cmp_antisym [of ft "Score z" "Score x"] by simp
      then have "score_cmp ft (Score z) (Score y) \<le> 0" "score_cmp ft (Score y) (Score x) \<le> 0"
        using score_cmp_trans le by blast+
      then have "?xy = 0" "?yz = 0"
        using le score_cmp_antisym [of ft "Score y" "Score x"] score_cmp_antisym [of ft "Score z" "Score y"] by simp_all
      then show ?thesis using that True bcmp_trans by auto
    qed (use xz in simp)
  qed
  show ?thesis
  proof (cases "st = SORT_FIELD_ASC")
    case True
    then show ?thesis using assms up [of x y z] by (simp add: entry_cmp_def Let_def)
  next
    case False
    have rev: "entry_cmp ft st a b = (if score_cmp ft (Score b) (Score a) = 0 then bcmp (DocId b) (DocId a) else score_cmp ft (Score b) (Score a))" for a b :: "'a DocIdEntry"
      using False score_cmp_antisym [of ft "Score b" "Score a"] bcmp_antisym [of "DocId b" "DocId a"] by (simp add: entry_cmp_def Let_def)
    show ?thesis using assms up [of z y x] unfolding rev by blast
  qed
qed

lemma entry_cmp_less_trans: "entry_cmp ft st x y < 0 \<Longrightarrow> entry_cmp ft st y z \<le> 0 \<Longrightarrow> entry_cmp ft st x z < 0"
  using entry_cmp_trans [of ft st x y z] entry_cmp_trans [of ft st y z x] entry_cmp_antisym [of ft st x y] entry_cmp_antisym [of ft st x z]
  by linarith

lemma entry_cmp_docid: "entry_cmp ft st x y = 0 \<Longrightarrow> DocId x = DocId y"
  by (auto simp: entry_cmp_def Let_def split: if_splits)

section \<open>The page loops\<close>

lemma page_loop_slice:
  "page_loop check (int s) (int s + int c - 1) es (int m - 1) response =
     response @ map doc_info (drop (s - m) (take (s + c - m) (filter check es)))"
proof (induction es arbitrary: m response)
  case (Cons e es)
  show ?case
  proof (cases "check e")
    case True
    have seq: "int m - 1 + 1 = int (Suc m) - 1" by simp
    consider "m < s" | "s \<le> m" "s + c \<le> m" | "s \<le> m" "m < s + c" by linarith
    then show ?thesis
    proof cases
      case 1
      then have "s - m = Suc (s - Suc m)" "s + c - m = Suc (s + c - Suc m)" by simp_all
      then show ?thesis using True 1 Cons.IH [of "Suc m"] seq by (simp add: Let_def)
    next
      case 3
      then have "s - m = 0" "s - Suc m = 0" "s + c - m = Suc (s + c - Suc m)" by simp_all
      then show ?thesis using True 3 Cons.IH [of "Suc m"] seq by (simp add: Let_def)
    qed (use True in \<open>simp add: Let_def\<close>)
  qed (use Cons.IH in simp)
qed simp

lemma page_loop_page:
  "page_loop check (int s) (int s + int c - 1) es (- 1) response = response @ map doc_info (take c (drop s (filter check es)))"
  using page_loop_slice [of check s c es 0 response] by (simp add: take_drop add.commute)

lemma after_loop_take:
  "m \<le> n \<Longrightarrow> after_loop check (int n) es (int m) response = response @ map doc_info (take (n - m) (filter check es))"
proof (induction es arbitrary: m response)
  case (Cons e es)
  show ?case
  proof (cases "m < n \<and> check e")
    case True
    then have "n - m = Suc (n - Suc m)" by linarith
    then show ?thesis using True Cons.IH [of "Suc m"] by (simp add: add.commute)
  next
    case False
    then show ?thesis using Cons by auto
  qed
qed simp

section \<open>The set of entries\<close>

definition entry_list :: "COrderOp \<Rightarrow> (byte list \<times> 'd score) list \<Rightarrow> 'd DocIdEntry list" where
  "entry_list op score_map = map (\<lambda>(d, s). new_DocIdEntry d s (OrderFieldType op) (OpSortType op)) score_map"

lemma entry_list_request: "x \<in> set (entry_list op sm) \<Longrightarrow> of_request (OrderFieldType op) (OpSortType op) x"
  by (auto simp: entry_list_def of_request_def new_DocIdEntry_def)

lemma entry_list_ids: "map DocId (entry_list op sm) = map fst sm"
  by (auto simp: entry_list_def new_DocIdEntry_def)

lemma set_insert_sorted:
  assumes ft: "ft \<noteq> FIELDTYPE_DOUBLE" and req: "\<forall>y \<in> set (x # ys). of_request ft st y"
    and fresh: "DocId x \<notin> DocId ` set ys" and sorted: "sorted_wrt (entry_less D) ys"
  shows "sorted_wrt (entry_less D) (set_insert (entry_less D) x ys) \<and> mset (set_insert (entry_less D) x ys) = add_mset x (mset ys)"
  using req fresh sorted
proof (induction ys)
  case (Cons y ys)
  have xy: "of_request ft st x" "of_request ft st y" using Cons.prems(1) by simp_all
  have cmp: "entry_less D x y \<longleftrightarrow> entry_cmp ft st x y < 0" "entry_less D y x \<longleftrightarrow> entry_cmp ft st x y > 0"
    using entry_less_cmp [OF ft xy(1)] entry_less_cmp [OF ft xy(2)] entry_cmp_antisym [of ft st y x] by simp_all
  have ne: "entry_cmp ft st x y \<noteq> 0" using Cons.prems(2) entry_cmp_docid by fastforce
  have IH: "sorted_wrt (entry_less D) (set_insert (entry_less D) x ys) \<and> mset (set_insert (entry_less D) x ys) = add_mset x (mset ys)"
    using Cons by simp
  show ?case
  proof (cases "entry_less D x y")
    case True
    have "entry_less D x z" if "z \<in> set ys" for z
    proof -
      have "entry_less D y z" "of_request ft st z" using Cons.prems(1,3) that by simp_all
      then have "entry_cmp ft st y z < 0" using entry_less_cmp [OF ft xy(2)] by blast
      then show ?thesis using entry_cmp_less_trans [of ft st x y z] True cmp(1) entry_less_cmp [OF ft xy(1)] by simp
    qed
    then show ?thesis using True Cons.prems(3) by simp
  next
    case False
    then have yx: "entry_less D y x" using cmp ne by linarith
    have "set (set_insert (entry_less D) x ys) = insert x (set ys)" using mset_eq_setD [of _ "x # ys"] IH by simp
    then show ?thesis using False yx IH Cons.prems(3) by simp
  qed
qed simp

lemma set_inserts_sorted:
  assumes ft: "ft \<noteq> FIELDTYPE_DOUBLE" and req: "\<forall>y \<in> set (xs @ ys). of_request ft st y"
    and "distinct (map DocId (xs @ ys))" and "sorted_wrt (entry_less D) ys"
  shows "sorted_wrt (entry_less D) (fold (set_insert (entry_less D)) xs ys) \<and>
    mset (fold (set_insert (entry_less D)) xs ys) = mset xs + mset ys"
  using req assms(3,4)
proof (induction xs arbitrary: ys)
  case (Cons x xs)
  have fresh: "DocId x \<notin> DocId ` set ys" using Cons.prems(2) by auto
  have s: "sorted_wrt (entry_less D) (set_insert (entry_less D) x ys)" "mset (set_insert (entry_less D) x ys) = add_mset x (mset ys)"
    using set_insert_sorted [OF ft _ fresh Cons.prems(3), of st] Cons.prems(1) by auto
  have "set (set_insert (entry_less D) x ys) = insert x (set ys)" using mset_eq_setD [of _ "x # ys"] s(2) by simp
  moreover have "mset (map DocId (set_insert (entry_less D) x ys)) = mset (map DocId (x # ys))" using s(2) by (metis mset_map mset.simps(2))
  then have "distinct (map DocId (set_insert (entry_less D) x ys)) \<longleftrightarrow> distinct (map DocId (x # ys))" by (rule mset_eq_imp_distinct_iff)
  ultimately show ?case using Cons.IH [of "set_insert (entry_less D) x ys"] s Cons.prems(1,2) by auto
qed simp

lemma upper_bound_filter:
  assumes ft: "ft \<noteq> FIELDTYPE_DOUBLE" and req: "of_request ft st v" "\<forall>y \<in> set xs. of_request ft st y"
    and "sorted_wrt (entry_less D) xs"
  shows "upper_bound (entry_less D) xs v = filter (entry_less D v) xs"
  using req(2) assms(4)
proof (induction xs)
  case (Cons x xs)
  have "entry_less D v y" if "entry_less D v x" "y \<in> set xs" for y
  proof -
    have "entry_less D x y" "of_request ft st x" using Cons.prems that(2) by simp_all
    then show ?thesis using entry_less_cmp [OF ft] req(1) that(1) entry_cmp_less_trans [of ft st v x y] by fastforce
  qed
  then have "filter (entry_less D v) xs = xs" if "entry_less D v x" using that by (simp add: filter_id_conv)
  then show ?case using Cons by (auto simp: upper_bound_def)
qed (simp add: upper_bound_def)

text \<open>The bounds of a page whose sum does not reach \<open>2^31\<close>.\<close>

lemma page_bounds:
  fixes s c :: u32
  assumes "unat s + unat c < 2 ^ 31"
  shows "sint s = int (unat s)" "sint c = int (unat c)" "sint (s + c) = int (unat s + unat c)"
    "sint (s + c - 1) = int (unat s) + int (unat c) - 1"
proof -
  show "sint s = int (unat s)" "sint c = int (unat c)" using assms sint_small [of s] sint_small [of c] by linarith+
  have sum: "unat (s + c) = unat s + unat c" using assms by (simp add: unat_plus_if_size word_size)
  then show "sint (s + c) = int (unat s + unat c)" using assms sint_small [of "s + c"] by simp
  show "sint (s + c - 1) = int (unat s) + int (unat c) - 1"
  proof (cases "s + c = 0")
    case True
    then show ?thesis using sum by simp
  next
    case False
    then have "unat (s + c - 1) = unat s + unat c - 1" using sum by (simp add: unat_minus_one)
    moreover have "0 < unat s + unat c" using False sum by (metis gr0I unat_eq_0)
    ultimately have "sint (s + c - 1) = int (unat s + unat c - 1)" using sint_small [of "s + c - 1"] assms by simp
    then show ?thesis using \<open>0 < unat s + unat c\<close> by (simp only: of_nat_diff Suc_le_eq of_nat_add of_nat_1 One_nat_def)
  qed
qed

section \<open>Properties\<close>



section \<open>A sort, and the pages of tied documents\<close>

fun sorted_put :: "('e \<Rightarrow> 'e \<Rightarrow> bool) \<Rightarrow> 'e \<Rightarrow> 'e list \<Rightarrow> 'e list" where
  "sorted_put lt x [] = [x]"
| "sorted_put lt x (y # ys) = (if lt y x then y # sorted_put lt x ys else x # y # ys)"

definition insertion_sort :: "('e \<Rightarrow> 'e \<Rightarrow> bool) \<Rightarrow> 'e list \<Rightarrow> 'e list" where
  "insertion_sort lt v = foldr (sorted_put lt) v []"

lemma mset_insertion_sort: "mset (insertion_sort lt v) = mset v"
proof -
  have "mset (sorted_put lt x ys) = add_mset x (mset ys)" for x ys by (induction ys) simp_all
  then show ?thesis unfolding insertion_sort_def by (induction v) simp_all
qed

lemma insertion_sort_sorted:
  assumes ft: "ft \<noteq> FIELDTYPE_DOUBLE" and "\<forall>x \<in> set v. of_request ft st x"
  shows "sorted_wrt (\<lambda>x y. \<not> entry_less D y x) (insertion_sort (entry_less D) v)"
proof -
  have less: "entry_less D x y \<longleftrightarrow> entry_cmp ft st x y < 0" if "of_request ft st x" for x y using entry_less_cmp [OF ft that] .
  have m: "set (sorted_put lt x ys) = insert x (set ys)" for lt :: "'a DocIdEntry \<Rightarrow> 'a DocIdEntry \<Rightarrow> bool" and x ys
    by (induction ys) auto
  have put: "sorted_wrt (\<lambda>x y. \<not> entry_less D y x) (sorted_put (entry_less D) x ys)"
    if "sorted_wrt (\<lambda>x y. \<not> entry_less D y x) ys" "of_request ft st x" "\<forall>y \<in> set ys. of_request ft st y" for x ys
    using that
  proof (induction ys)
    case (Cons y ys)
    have y: "of_request ft st y" using Cons.prems by simp
    show ?case
    proof (cases "entry_less D y x")
      case True
      then have "\<not> entry_less D x y" using less Cons.prems(2) y entry_cmp_antisym [of ft st x y] by simp
      then show ?thesis using True Cons m by simp
    next
      case False
      have "\<not> entry_less D z x" if z: "z \<in> set ys" for z
      proof
        assume zx: "entry_less D z x"
        have "of_request ft st z" "\<not> entry_less D z y" using Cons.prems z by simp_all
        then have "entry_cmp ft st z x < 0" "entry_cmp ft st y z \<le> 0"
          using zx less [of z] entry_cmp_antisym [of ft st y z] by simp_all
        then have "entry_cmp ft st y x \<le> 0" "entry_cmp ft st x y \<le> 0"
          using False less [OF y] entry_cmp_trans [of ft st y z x] entry_cmp_antisym [of ft st x y] by simp_all
        then have "entry_cmp ft st z y < 0" using \<open>entry_cmp ft st z x < 0\<close> entry_cmp_less_trans by blast
        then show False using \<open>\<not> entry_less D z y\<close> less \<open>of_request ft st z\<close> by blast
      qed
      then show ?thesis using False Cons.prems by simp
    qed
  qed simp
  have "sorted_wrt (\<lambda>x y. \<not> entry_less D y x) (foldr (sorted_put (entry_less D)) v []) \<and>
      set (foldr (sorted_put (entry_less D)) v []) = set v"
    using assms(2) by (induction v) (simp_all add: put m)
  then show ?thesis by (simp add: insertion_sort_def)
qed

definition int_op :: COrderOp where
  "int_op = \<lparr>OrderFieldType = FIELDTYPE_INT, SearchAfter = False, OpSortType = SORT_FIELD_ASC\<rparr>"

definition page_cond :: "u32 \<Rightarrow> u32 \<Rightarrow> bool \<Rightarrow> OrderOpCond" where
  "page_cond s c f = \<lparr>last_id = [], limit_start = s, oc_count = c, has_extra_filter = f\<rparr>"

definition tied_scores :: "(byte list \<times> unit score) list" where
  "tied_scores = [([97], SInt 5), ([98], SInt 5), ([99], SInt 3)]"



text \<open>Three documents, two with one score, in pages of two: the second page repeats a document of the
  first, and one document is on neither.\<close>

lemma tied_pages_overlap:
  "Process no_dbl (insertion_sort (entry_less no_dbl)) (\<lambda>_. True) int_op tied_scores (SInt 0) (page_cond 0 2 False) [] =
     Some [([99], SInt 3), ([98], SInt 5)]"
  "Process no_dbl (insertion_sort (entry_less no_dbl)) (\<lambda>_. True) int_op tied_scores (SInt 0) (page_cond 2 2 False) [] =
     Some [([98], SInt 5)]"
proof -
  have start: "build_start (Suc (Suc (Suc 0))) = 0"
  proof -
    have "build_start 3 = 0" by (subst build_start_eq) simp_all
    then show ?thesis by (simp only: numeral_3_eq_3)
  qed
  note eval = Process_def int_op_def page_cond_def tied_scores_def getNumbers_def entry_less_def entry_equal_def
    score_flags_def buildMaxHeap_def build_start_two start heap_offer_def emplacePeek_def downAdjust_def down_loop.simps
    build_loop.simps larger_child_def insertion_sort_def new_DocIdEntry_def doc_info_def c_str_def
  show "Process no_dbl (insertion_sort (entry_less no_dbl)) (\<lambda>_. True) int_op tied_scores (SInt 0) (page_cond 0 2 False) [] =
     Some [([99], SInt 3), ([98], SInt 5)]" by (simp add: eval)
  show "Process no_dbl (insertion_sort (entry_less no_dbl)) (\<lambda>_. True) int_op tied_scores (SInt 0) (page_cond 2 2 False) [] =
     Some [([98], SInt 5)]" by (simp add: eval)
qed

end
