(* ===== verification/Stem.thy ===== *)
theory Stem
  imports Prelude "HOL-Library.Monad_Syntax"
begin

text \<open>
  The Porter stemmer (\<open>comm/stem.cc\<close>). The static variables \<open>b\<close>, \<open>k\<close>, \<open>k0\<close> and \<open>j\<close> are a record that
  the functions pass along; the buffer is a list of characters, and reading or writing outside
  it is \<open>None\<close>. A suffix literal such as \<open>"\03" "ies"\<close>, whose first byte is its length, is the
  list of its letters. The main result is that stemming a word never touches anything outside
  it and never makes it longer, as the comment on \<open>stem\<close> promises.
\<close>

section \<open>Letters and measures\<close>

record stemmer =
  buf :: string
  pk :: int
  pk0 :: int
  pj :: int

definition rd :: "string \<Rightarrow> int \<Rightarrow> char option" where
  "rd b i = (if 0 \<le> i \<and> i < int (length b) then Some (b ! nat i) else None)"

function cons :: "string \<Rightarrow> int \<Rightarrow> int \<Rightarrow> bool option" where
  "cons b k0 i =
     (if i < 0 \<or> i \<ge> int (length b) then None
      else let c = b ! nat i in
           if c \<in> set ''aeiou'' then Some False
           else if c = CHR ''y'' then (if i = k0 then Some True else map_option Not (cons b k0 (i - 1)))
           else Some True)"
  by pat_completeness auto

termination
  by (relation "measure (\<lambda>(b, k0, i). nat (i + 1))") auto

text \<open>The loops of \<open>m\<close>: the first position from \<open>i\<close> to \<open>j\<close> that is a consonant, or is none;
  \<open>Some None\<close> when the end is passed.\<close>

function scan :: "string \<Rightarrow> int \<Rightarrow> int \<Rightarrow> bool \<Rightarrow> int \<Rightarrow> int option option" where
  "scan b k0 j wanted i =
     (if i > j then Some None
      else case cons b k0 i of
             None \<Rightarrow> None
           | Some c \<Rightarrow> if c = wanted then Some (Some i) else scan b k0 j wanted (i + 1))"
  by pat_completeness auto

termination
  by (relation "measure (\<lambda>(b, k0, j, wanted, i). nat (j + 1 - i))") auto

declare cons.simps [simp del] scan.simps [simp del]

lemma scan_bounds: "scan b k0 j wanted i = Some (Some x) \<Longrightarrow> i \<le> x \<and> x \<le> j"
proof (induction b k0 j wanted i rule: scan.induct)
  case (1 b k0 j wanted i)
  then show ?case using scan.simps [of b k0 j wanted i] by (auto split: if_splits option.splits)
qed

function m_loop :: "string \<Rightarrow> int \<Rightarrow> int \<Rightarrow> int \<Rightarrow> nat \<Rightarrow> nat option" where
  "m_loop b k0 j i n =
     (case scan b k0 j True i of
        None \<Rightarrow> None
      | Some None \<Rightarrow> Some n
      | Some (Some c) \<Rightarrow>
          (case scan b k0 j False (c + 1) of
             None \<Rightarrow> None
           | Some None \<Rightarrow> Some (n + 1)
           | Some (Some v) \<Rightarrow> m_loop b k0 j (v + 1) (n + 1)))"
  by pat_completeness auto

termination
  by (relation "measure (\<lambda>(b, k0, j, i, n). nat (j + 1 - i))") (auto dest!: scan_bounds)

declare m_loop.simps [simp del]

definition m_count :: "stemmer \<Rightarrow> nat option" where
  "m_count s =
     (case scan (buf s) (pk0 s) (pj s) False (pk0 s) of
        None \<Rightarrow> None
      | Some None \<Rightarrow> Some 0
      | Some (Some v) \<Rightarrow> m_loop (buf s) (pk0 s) (pj s) (v + 1) 0)"

definition vowelinstem :: "stemmer \<Rightarrow> bool option" where
  "vowelinstem s = map_option (\<lambda>x. x \<noteq> None) (scan (buf s) (pk0 s) (pj s) False (pk0 s))"

definition doublec :: "stemmer \<Rightarrow> int \<Rightarrow> bool option" where
  "doublec s j =
     (if j < pk0 s + 1 then Some False
      else do { c \<leftarrow> rd (buf s) j; d \<leftarrow> rd (buf s) (j - 1);
                if c \<noteq> d then Some False else cons (buf s) (pk0 s) j })"

definition cvc :: "stemmer \<Rightarrow> int \<Rightarrow> bool option" where
  "cvc s i =
     (if i < pk0 s + 2 then Some False
      else do { c1 \<leftarrow> cons (buf s) (pk0 s) i;
                if \<not> c1 then Some False
                else do { c2 \<leftarrow> cons (buf s) (pk0 s) (i - 1);
                          if c2 then Some False
                          else do { c3 \<leftarrow> cons (buf s) (pk0 s) (i - 2);
                                    if \<not> c3 then Some False
                                    else do { ch \<leftarrow> rd (buf s) i; Some (ch \<notin> set ''wxy'') } } } })"

section \<open>Suffixes\<close>

text \<open>\<open>ends\<close> also moves \<open>j\<close> before the suffix when it is there.\<close>

definition ends :: "string \<Rightarrow> stemmer \<Rightarrow> (bool \<times> stemmer) option" where
  "ends x s =
     do { c \<leftarrow> rd (buf s) (pk s);
          if last x \<noteq> c then Some (False, s)
          else if int (length x) > pk s - pk0 s + 1 then Some (False, s)
          else if pk s - int (length x) + 1 < 0 then None
          else if take (length x) (drop (nat (pk s - int (length x) + 1)) (buf s)) \<noteq> x then Some (False, s)
          else Some (True, s\<lparr>pj := pk s - int (length x)\<rparr>) }"

definition overwrite :: "string \<Rightarrow> nat \<Rightarrow> string \<Rightarrow> string" where
  "overwrite b i x = take i b @ x @ drop (i + length x) b"

definition setto :: "string \<Rightarrow> stemmer \<Rightarrow> stemmer option" where
  "setto x s =
     (if x \<noteq> [] \<and> (pj s + 1 < 0 \<or> pj s + int (length x) \<ge> int (length (buf s))) then None
      else Some (s\<lparr>buf := (if x = [] then buf s else overwrite (buf s) (nat (pj s + 1)) x), pk := pj s + int (length x)\<rparr>))"

definition r_set :: "string \<Rightarrow> stemmer \<Rightarrow> stemmer option" where
  "r_set x s = do { n \<leftarrow> m_count s; if n > 0 then setto x s else Some s }"

text \<open>A chain of \<open>if (ends(x)) { r(y); break; }\<close>.\<close>

fun replace_first :: "(string \<times> string) list \<Rightarrow> stemmer \<Rightarrow> stemmer option" where
  "replace_first [] s = Some s"
| "replace_first ((x, y) # rules) s =
     do { (e, s') \<leftarrow> ends x s; if e then r_set y s' else replace_first rules s' }"

text \<open>A chain of \<open>if (ends(x)) break;\<close> with \<open>return\<close> at its end.\<close>

fun ends_any :: "string list \<Rightarrow> stemmer \<Rightarrow> (bool \<times> stemmer) option" where
  "ends_any [] s = Some (False, s)"
| "ends_any (x # xs) s = do { (e, s') \<leftarrow> ends x s; if e then Some (True, s') else ends_any xs s' }"

section \<open>The steps\<close>

definition step1a :: "stemmer \<Rightarrow> stemmer option" where
  "step1a s =
     do { c \<leftarrow> rd (buf s) (pk s);
          if c \<noteq> CHR ''s'' then Some s
          else do { (e, s1) \<leftarrow> ends ''sses'' s;
                    if e then Some (s1\<lparr>pk := pk s1 - 2\<rparr>)
                    else do { (e, s2) \<leftarrow> ends ''ies'' s1;
                              if e then setto ''i'' s2
                              else do { d \<leftarrow> rd (buf s2) (pk s2 - 1);
                                        Some (if d \<noteq> CHR ''s'' then s2\<lparr>pk := pk s2 - 1\<rparr> else s2) } } } }"

text \<open>What follows the removal of \<open>-ed\<close> or \<open>-ing\<close>.\<close>

definition step1_restore :: "stemmer \<Rightarrow> stemmer option" where
  "step1_restore s =
     do { (e, s1) \<leftarrow> ends ''at'' s;
          if e then setto ''ate'' s1
          else do { (e, s2) \<leftarrow> ends ''bl'' s1;
                    if e then setto ''ble'' s2
                    else do { (e, s3) \<leftarrow> ends ''iz'' s2;
                              if e then setto ''ize'' s3
                              else do { dbl \<leftarrow> doublec s3 (pk s3);
                                        if dbl then do { let s4 = s3\<lparr>pk := pk s3 - 1\<rparr>;
                                                         ch \<leftarrow> rd (buf s4) (pk s4);
                                                         Some (if ch \<in> set ''lsz'' then s4\<lparr>pk := pk s4 + 1\<rparr> else s4) }
                                        else do { n \<leftarrow> m_count s3;
                                                  if n \<noteq> 1 then Some s3
                                                  else do { c \<leftarrow> cvc s3 (pk s3); if c then setto ''e'' s3 else Some s3 } } } } } }"

definition step1b :: "stemmer \<Rightarrow> stemmer option" where
  "step1b s =
     do { (e, s1) \<leftarrow> ends ''eed'' s;
          if e then do { n \<leftarrow> m_count s1; Some (if n > 0 then s1\<lparr>pk := pk s1 - 1\<rparr> else s1) }
          else do { (e, s2) \<leftarrow> ends_any [''ed'', ''ing''] s1;
                    if \<not> e then Some s2
                    else do { v \<leftarrow> vowelinstem s2;
                              if \<not> v then Some s2 else step1_restore (s2\<lparr>pk := pj s2\<rparr>) } } }"

definition step1ab :: "stemmer \<Rightarrow> stemmer option" where
  "step1ab s = do { s1 \<leftarrow> step1a s; step1b s1 }"

definition step1c :: "stemmer \<Rightarrow> stemmer option" where
  "step1c s =
     do { (e, s1) \<leftarrow> ends ''y'' s;
          if \<not> e then Some s1
          else do { v \<leftarrow> vowelinstem s1;
                    Some (if v then s1\<lparr>buf := (buf s1)[nat (pk s1) := CHR ''i'']\<rparr> else s1) } }"

definition step2_rules :: "char \<Rightarrow> (string \<times> string) list" where
  "step2_rules c =
     (if c = CHR ''a'' then [(''ational'', ''ate''), (''tional'', ''tion'')]
      else if c = CHR ''c'' then [(''enci'', ''ence''), (''anci'', ''ance'')]
      else if c = CHR ''e'' then [(''izer'', ''ize'')]
      else if c = CHR ''l'' then [(''bli'', ''ble''), (''alli'', ''al''), (''entli'', ''ent''), (''eli'', ''e''), (''ousli'', ''ous'')]
      else if c = CHR ''o'' then [(''ization'', ''ize''), (''ation'', ''ate''), (''ator'', ''ate'')]
      else if c = CHR ''s'' then [(''alism'', ''al''), (''iveness'', ''ive''), (''fulness'', ''ful''), (''ousness'', ''ous'')]
      else if c = CHR ''t'' then [(''aliti'', ''al''), (''iviti'', ''ive''), (''biliti'', ''ble'')]
      else if c = CHR ''g'' then [(''logi'', ''log'')]
      else [])"

definition step2 :: "stemmer \<Rightarrow> stemmer option" where
  "step2 s = do { c \<leftarrow> rd (buf s) (pk s - 1); replace_first (step2_rules c) s }"

definition step3_rules :: "char \<Rightarrow> (string \<times> string) list" where
  "step3_rules c =
     (if c = CHR ''e'' then [(''icate'', ''ic''), (''ative'', ''''), (''alize'', ''al'')]
      else if c = CHR ''i'' then [(''iciti'', ''ic'')]
      else if c = CHR ''l'' then [(''ical'', ''ic''), (''ful'', '''')]
      else if c = CHR ''s'' then [(''ness'', '''')]
      else [])"

definition step3 :: "stemmer \<Rightarrow> stemmer option" where
  "step3 s = do { c \<leftarrow> rd (buf s) (pk s); replace_first (step3_rules c) s }"

definition step4_suffixes :: "char \<Rightarrow> string list" where
  "step4_suffixes c =
     (if c = CHR ''a'' then [''al'']
      else if c = CHR ''c'' then [''ance'', ''ence'']
      else if c = CHR ''e'' then [''er'']
      else if c = CHR ''i'' then [''ic'']
      else if c = CHR ''l'' then [''able'', ''ible'']
      else if c = CHR ''n'' then [''ant'', ''ement'', ''ment'', ''ent'']
      else if c = CHR ''s'' then [''ism'']
      else if c = CHR ''t'' then [''ate'', ''iti'']
      else if c = CHR ''u'' then [''ous'']
      else if c = CHR ''v'' then [''ive'']
      else if c = CHR ''z'' then [''ize'']
      else [])"

text \<open>Case \<open>'o'\<close> of \<open>step4\<close>: \<open>-ion\<close> only after \<open>s\<close> or \<open>t\<close>, then \<open>-ou\<close>.\<close>

definition step4_ion :: "stemmer \<Rightarrow> (bool \<times> stemmer) option" where
  "step4_ion s =
     do { (e, s1) \<leftarrow> ends ''ion'' s;
          st \<leftarrow> (if e \<and> pj s1 \<ge> pk0 s1 then map_option (\<lambda>c. c \<in> set ''st'') (rd (buf s1) (pj s1)) else Some False);
          if st then Some (True, s1) else ends ''ou'' s1 }"

definition step4 :: "stemmer \<Rightarrow> stemmer option" where
  "step4 s =
     do { c \<leftarrow> rd (buf s) (pk s - 1);
          (e, s1) \<leftarrow> (if c = CHR ''o'' then step4_ion s else ends_any (step4_suffixes c) s);
          if \<not> e then Some s1
          else do { n \<leftarrow> m_count s1; Some (if n > 1 then s1\<lparr>pk := pj s1\<rparr> else s1) } }"

definition step5 :: "stemmer \<Rightarrow> stemmer option" where
  "step5 s =
     do { let s1 = s\<lparr>pj := pk s\<rparr>;
          c \<leftarrow> rd (buf s1) (pk s1);
          s2 \<leftarrow> (if c \<noteq> CHR ''e'' then Some s1
                 else do { a \<leftarrow> m_count s1;
                           if a > 1 then Some (s1\<lparr>pk := pk s1 - 1\<rparr>)
                           else if a = 1 then do { v \<leftarrow> cvc s1 (pk s1 - 1); Some (if v then s1 else s1\<lparr>pk := pk s1 - 1\<rparr>) }
                           else Some s1 });
          c2 \<leftarrow> rd (buf s2) (pk s2);
          if c2 \<noteq> CHR ''l'' then Some s2
          else do { d \<leftarrow> doublec s2 (pk s2);
                    if \<not> d then Some s2
                    else do { n \<leftarrow> m_count s2; Some (if n > 1 then s2\<lparr>pk := pk s2 - 1\<rparr> else s2) } } }"

text \<open>\<open>stem(p, i, j)\<close>: the buffer afterwards, the new end of the word, and the static variable \<open>j\<close>, in
  which an earlier call has left \<open>j0\<close>.\<close>

definition stem_at :: "int \<Rightarrow> string \<Rightarrow> int \<Rightarrow> int \<Rightarrow> (string \<times> int \<times> int) option" where
  "stem_at j0 p i j =
     (let s = \<lparr>buf = p, pk = j, pk0 = i, pj = j0\<rparr> in
      if pk s \<le> pk0 s + 1 then Some (buf s, pk s, pj s)
      else do { s1 \<leftarrow> step1ab s;
                s6 \<leftarrow> (if pk s1 > pk0 s1
                       then do { s2 \<leftarrow> step1c s1; s3 \<leftarrow> step2 s2; s4 \<leftarrow> step3 s3; s5 \<leftarrow> step4 s4; step5 s5 }
                       else Some s1);
                Some (buf s6, pk s6, pj s6) })"

section \<open>Bounds\<close>

text \<open>The word is at \<open>lo\<close> to \<open>hi\<close> of the buffer \<open>p\<close>; the stemmer is inside it and has changed nothing else.\<close>

definition st_inv :: "string \<Rightarrow> int \<Rightarrow> int \<Rightarrow> stemmer \<Rightarrow> bool" where
  "st_inv p lo hi s \<longleftrightarrow> pk0 s = lo \<and> 0 \<le> lo \<and> lo \<le> pk s \<and> pk s \<le> hi \<and> hi < int (length p) \<and> length (buf s) = length p \<and>
     (\<forall>i < length p. int i < lo \<or> hi < int i \<longrightarrow> buf s ! i = p ! i)"

lemma st_inv_bounds:
  "st_inv p lo hi s \<Longrightarrow> pk0 s = lo \<and> 0 \<le> lo \<and> lo \<le> pk s \<and> pk s \<le> hi \<and> hi < int (length (buf s))"
  by (simp add: st_inv_def)

lemma st_inv_pj [simp]: "st_inv p lo hi (s\<lparr>pj := x\<rparr>) \<longleftrightarrow> st_inv p lo hi s"
  by (simp add: st_inv_def)

lemma st_inv_pk: "st_inv p lo hi s \<Longrightarrow> lo \<le> x \<Longrightarrow> x \<le> hi \<Longrightarrow> st_inv p lo hi (s\<lparr>pk := x\<rparr>)"
  by (simp add: st_inv_def)

lemma rd_Some: "st_inv p lo hi s \<Longrightarrow> lo \<le> i \<Longrightarrow> i \<le> hi \<Longrightarrow> rd (buf s) i = Some (buf s ! nat i)"
  by (simp add: st_inv_def rd_def)

lemma cons_Some: "0 \<le> k0 \<Longrightarrow> k0 \<le> i \<Longrightarrow> i < int (length b) \<Longrightarrow> \<exists>c. cons b k0 i = Some c"
proof (induction b k0 i rule: cons.induct)
  case (1 b k0 i)
  show ?case
  proof (cases "b ! nat i = CHR ''y'' \<and> i \<noteq> k0")
    case True
    then have "\<exists>c. cons b k0 (i - 1) = Some c" using 1 by (auto simp: Let_def)
    then show ?thesis using True 1(2-4) by (auto simp: cons.simps [of b k0 i])
  next
    case False
    then show ?thesis using 1(2-4) by (auto simp: cons.simps [of b k0 i] Let_def)
  qed
qed

lemma scan_Some: "0 \<le> k0 \<Longrightarrow> k0 \<le> i \<Longrightarrow> j < int (length b) \<Longrightarrow> \<exists>x. scan b k0 j w i = Some x"
proof (induction b k0 j w i rule: scan.induct)
  case (1 b k0 j w i)
  show ?case
  proof (cases "i > j")
    case False
    then obtain c where "cons b k0 i = Some c" using cons_Some [of k0 i b] 1 by auto
    then show ?thesis using 1 False by (cases "c = w") (simp_all add: scan.simps [of b k0 j w i])
  qed (simp add: scan.simps [of b k0 j w i])
qed

lemma m_loop_Some: "0 \<le> k0 \<Longrightarrow> k0 \<le> i \<Longrightarrow> j < int (length b) \<Longrightarrow> \<exists>x. m_loop b k0 j i n = Some x"
proof (induction b k0 j i n rule: m_loop.induct)
  case (1 b k0 j i n)
  obtain x where x: "scan b k0 j True i = Some x" using scan_Some 1(2-4) by blast
  show ?case
  proof (cases x)
    case (Some c)
    then have c: "i \<le> c" using scan_bounds x by blast
    obtain y where y: "scan b k0 j False (c + 1) = Some y" using scan_Some [of k0 "c + 1" j b False] 1(2-4) c by auto
    show ?thesis
    proof (cases y)
      case (Some v)
      then have "c + 1 \<le> v" using scan_bounds y by blast
      then show ?thesis using 1(1) [OF x _ y] 1(2-4) \<open>x = Some c\<close> Some c x y by (simp add: m_loop.simps [of b k0 j i n])
    qed (use x y Some in \<open>simp add: m_loop.simps [of b k0 j i n]\<close>)
  qed (use x in \<open>simp add: m_loop.simps [of b k0 j i n]\<close>)
qed

lemma m_count_Some:
  assumes "st_inv p lo hi s" "pj s \<le> hi"
  obtains n where "m_count s = Some n" "n > 0 \<Longrightarrow> lo + 1 \<le> pj s"
proof -
  note b = st_inv_bounds [OF assms(1)]
  obtain x where x: "scan (buf s) (pk0 s) (pj s) False (pk0 s) = Some x" using scan_Some b assms(2) by fastforce
  show thesis
  proof (cases x)
    case None
    then show ?thesis using that [of 0] x by (simp add: m_count_def)
  next
    case (Some v)
    have v: "pk0 s \<le> v" using scan_bounds x Some by blast
    obtain n where n: "m_loop (buf s) (pk0 s) (pj s) (v + 1) 0 = Some n"
      using m_loop_Some [of "pk0 s" "v + 1" "pj s" "buf s"] v b assms(2) by fastforce
    have "n = 0" if "v + 1 > pj s"
      using n that by (simp add: m_loop.simps [of "buf s"] scan.simps [of "buf s" "pk0 s" "pj s" True])
    then show ?thesis using that [of n] n x Some v b by (fastforce simp: m_count_def)
  qed
qed

lemma vowelinstem_Some:
  assumes "st_inv p lo hi s" "pj s \<le> hi"
  obtains v where "vowelinstem s = Some v" "v \<Longrightarrow> lo \<le> pj s"
proof -
  note b = st_inv_bounds [OF assms(1)]
  obtain x where x: "scan (buf s) (pk0 s) (pj s) False (pk0 s) = Some x" using scan_Some b assms(2) by fastforce
  show thesis using that [of "x \<noteq> None"] x scan_bounds [of "buf s" "pk0 s" "pj s" False "pk0 s"] b
    by (fastforce simp: vowelinstem_def)
qed

lemma doublec_Some:
  assumes "st_inv p lo hi s" "j \<le> hi"
  obtains v where "doublec s j = Some v" "v \<Longrightarrow> lo + 1 \<le> j"
proof (cases "j < lo + 1")
  case True
  then show thesis using that [of False] st_inv_bounds [OF assms(1)] by (simp add: doublec_def)
next
  case False
  note b = st_inv_bounds [OF assms(1)]
  obtain c where c: "cons (buf s) (pk0 s) j = Some c" using cons_Some b assms(2) False by fastforce
  show thesis using that [of "buf s ! nat j = buf s ! nat (j - 1) \<and> c"] c b False assms
    by (simp add: doublec_def rd_Some [OF assms(1)])
qed

lemma cvc_Some:
  assumes "st_inv p lo hi s" "i \<le> hi"
  obtains v where "cvc s i = Some v"
proof (cases "i < lo + 2")
  case True
  then show thesis using that [of False] st_inv_bounds [OF assms(1)] by (simp add: cvc_def)
next
  case False
  note b = st_inv_bounds [OF assms(1)]
  obtain c1 c2 c3 where c: "cons (buf s) (pk0 s) i = Some c1" "cons (buf s) (pk0 s) (i - 1) = Some c2" "cons (buf s) (pk0 s) (i - 2) = Some c3"
    using cons_Some [of "pk0 s" i] cons_Some [of "pk0 s" "i - 1"] cons_Some [of "pk0 s" "i - 2"] b assms(2) False by fastforce
  have "\<exists>v. cvc s i = Some v" using c b False assms rd_Some [OF assms(1), of i] by (cases c1; cases c2; cases c3) (auto simp: cvc_def)
  then show thesis using that by blast
qed

lemma ends_Some:
  assumes "st_inv p lo hi s"
  shows "ends x s = Some (False, s) \<or> (ends x s = Some (True, s\<lparr>pj := pk s - int (length x)\<rparr>) \<and> int (length x) \<le> pk s - lo + 1)"
  using st_inv_bounds [OF assms] by (auto simp: ends_def rd_Some [OF assms])

lemma setto_Some:
  assumes inv: "st_inv p lo hi s" and "lo \<le> pj s + 1" "pj s + int (length x) \<le> hi" "lo \<le> pj s + int (length x)"
  obtains s' where "setto x s = Some s'" "st_inv p lo hi s'" "pk s' = pj s + int (length x)"
proof -
  note b = st_inv_bounds [OF inv]
  let ?s = "s\<lparr>buf := (if x = [] then buf s else overwrite (buf s) (nat (pj s + 1)) x), pk := pj s + int (length x)\<rparr>"
  have "overwrite (buf s) (nat (pj s + 1)) x ! i = buf s ! i" if "i < length (buf s)" "int i < lo \<or> hi < int i" for i
    using that assms(2,3) b by (auto simp: overwrite_def nth_append min_def)
  moreover have "length (overwrite (buf s) (nat (pj s + 1)) x) = length (buf s)" if "x \<noteq> []"
  proof -
    have "nat (pj s + 1) + length x \<le> length (buf s)" using assms(2,3) b by linarith
    then show ?thesis by (simp add: overwrite_def)
  qed
  ultimately have "st_inv p lo hi ?s" using inv assms(3,4) by (auto simp: st_inv_def)
  then show thesis using that [of ?s] assms(2,3) b by (simp add: setto_def)
qed

lemma r_set_Some:
  assumes inv: "st_inv p lo hi s" and len: "pk s = pj s + int n" "length y \<le> n" and lo: "lo < pk s"
  obtains s' where "r_set y s = Some s'" "st_inv p lo hi s'" "lo < pk s'"
proof -
  note b = st_inv_bounds [OF inv]
  have "pj s \<le> hi" using b len(1) by linarith
  then obtain c where c: "m_count s = Some c" "c > 0 \<Longrightarrow> lo + 1 \<le> pj s" using m_count_Some [OF inv] by metis
  show thesis
  proof (cases "c > 0")
    case True
    have "lo \<le> pj s + 1" "pj s + int (length y) \<le> hi" "lo \<le> pj s + int (length y)"
      using c(2) [OF True] len b by linarith+
    then obtain s' where s': "setto y s = Some s'" "st_inv p lo hi s'" "pk s' = pj s + int (length y)"
      by (rule setto_Some [OF inv])
    then show thesis using that [of s'] c True c(2) [OF True] by (simp add: r_set_def)
  next
    case False
    then show thesis using that [of s] c inv lo by (simp add: r_set_def)
  qed
qed

lemma replace_first_Some:
  assumes "st_inv p lo hi s" "lo < pk s" "\<forall>(x, y) \<in> set rules. length y \<le> length x"
  shows "\<exists>s'. replace_first rules s = Some s' \<and> st_inv p lo hi s' \<and> lo < pk s'"
  using assms(3)
proof (induction rules)
  case (Cons xy rules)
  obtain x y where xy: "xy = (x, y)" by (cases xy)
  from ends_Some [OF assms(1), of x] show ?case
  proof
    assume "ends x s = Some (False, s)"
    then show ?case using Cons xy by simp
  next
    assume e: "ends x s = Some (True, s\<lparr>pj := pk s - int (length x)\<rparr>) \<and> int (length x) \<le> pk s - lo + 1"
    have len: "pk (s\<lparr>pj := pk s - int (length x)\<rparr>) = pj (s\<lparr>pj := pk s - int (length x)\<rparr>) + int (length x)" "length y \<le> length x"
      using Cons.prems xy by simp_all
    obtain s' where "r_set y (s\<lparr>pj := pk s - int (length x)\<rparr>) = Some s'" "st_inv p lo hi s'" "lo < pk s'"
      using r_set_Some [OF _ len, of p lo hi] assms(1,2) by auto
    then show ?case using e xy by simp
  qed
qed (use assms in simp)

lemma ends_any_Some:
  assumes "st_inv p lo hi s"
  obtains "ends_any xs s = Some (False, s)"
  | x where "x \<in> set xs" "ends_any xs s = Some (True, s\<lparr>pj := pk s - int (length x)\<rparr>)" "int (length x) \<le> pk s - lo + 1"
  using assms
proof (induction xs arbitrary: thesis)
  case (Cons x xs)
  from ends_Some [OF Cons.prems(3), of x] show ?case
  proof
    assume f: "ends x s = Some (False, s)"
    show ?case
    proof (rule Cons.IH)
      show "ends_any xs s = Some (False, s) \<Longrightarrow> thesis" using Cons.prems(1) f by simp
      show "y \<in> set xs \<Longrightarrow> ends_any xs s = Some (True, s\<lparr>pj := pk s - int (length y)\<rparr>) \<Longrightarrow> int (length y) \<le> pk s - lo + 1 \<Longrightarrow> thesis" for y
        using Cons.prems(2) [of y] f by simp
      show "st_inv p lo hi s" by fact
    qed
  next
    assume "ends x s = Some (True, s\<lparr>pj := pk s - int (length x)\<rparr>) \<and> int (length x) \<le> pk s - lo + 1"
    then show ?case using Cons.prems(2) [of x] by simp
  qed
qed simp

lemma step1a_Some:
  assumes inv: "st_inv p lo hi s" and k: "lo + 2 \<le> pk s"
  obtains s' where "step1a s = Some s'" "st_inv p lo hi s'"
proof -
  note b = st_inv_bounds [OF inv]
  have rd: "rd (buf s) (pk s) = Some (buf s ! nat (pk s))" "rd (buf s) (pk s - 1) = Some (buf s ! nat (pk s - 1))"
    using rd_Some [OF inv] b k by simp_all
  show thesis
  proof (cases "buf s ! nat (pk s) = CHR ''s''")
    case True
    from ends_Some [OF inv, of "''sses''"] show thesis
    proof
      assume e1: "ends ''sses'' s = Some (False, s)"
      from ends_Some [OF inv, of "''ies''"] show thesis
      proof
        assume "ends ''ies'' s = Some (False, s)"
        then have "step1a s = Some (if buf s ! nat (pk s - 1) \<noteq> CHR ''s'' then s\<lparr>pk := pk s - 1\<rparr> else s)"
          using True e1 rd by (simp add: step1a_def)
        then show thesis using that inv st_inv_pk [OF inv, of "pk s - 1"] b k by simp
      next
        assume e: "ends ''ies'' s = Some (True, s\<lparr>pj := pk s - int (length ''ies'')\<rparr>) \<and> int (length ''ies'') \<le> pk s - lo + 1"
        have "st_inv p lo hi (s\<lparr>pj := pk s - 3\<rparr>)" using inv by simp
        then obtain s' where "setto ''i'' (s\<lparr>pj := pk s - 3\<rparr>) = Some s'" "st_inv p lo hi s'"
          by (rule setto_Some) (use b k in auto)
        then show thesis using that True e1 e rd by (simp add: step1a_def)
      qed
    next
      assume "ends ''sses'' s = Some (True, s\<lparr>pj := pk s - int (length ''sses'')\<rparr>) \<and> int (length ''sses'') \<le> pk s - lo + 1"
      then show thesis using that True rd st_inv_pk [of p lo hi "s\<lparr>pj := pk s - 4\<rparr>" "pk s - 2"] inv b by (simp add: step1a_def)
    qed
  next
    case False
    then show thesis using that inv rd by (simp add: step1a_def)
  qed
qed

lemma step1_restore_Some:
  assumes inv: "st_inv p lo hi s" and k: "pk s + 1 \<le> hi" "pj s = pk s"
  obtains s' where "step1_restore s = Some s'" "st_inv p lo hi s'"
proof -
  note b = st_inv_bounds [OF inv]
  have set: "\<exists>s'. setto x (s\<lparr>pj := pk s - 2\<rparr>) = Some s' \<and> st_inv p lo hi s'" if "length x = 3" "2 \<le> pk s - lo + 1" for x
  proof -
    have "st_inv p lo hi (s\<lparr>pj := pk s - 2\<rparr>)" using inv by simp
    then show ?thesis by (rule setto_Some [of _ _ _ _ x]) (use that k b in auto)
  qed
  obtain d where d: "doublec s (pk s) = Some d" "d \<Longrightarrow> lo + 1 \<le> pk s" using doublec_Some [OF inv, of "pk s"] b by auto
  obtain n where n: "m_count s = Some n" using m_count_Some [OF inv] b k(2) by auto
  obtain v where v: "cvc s (pk s) = Some v" using cvc_Some [OF inv, of "pk s"] b by auto
  obtain s' where e: "setto ''e'' s = Some s'" "st_inv p lo hi s'" by (rule setto_Some [OF inv, of "''e''"]) (use b k in auto)
  have last: "\<exists>t. (if d then do { ch \<leftarrow> rd (buf s) (pk s - 1); Some (if ch \<in> set ''lsz'' then s\<lparr>pk := pk s\<rparr> else s\<lparr>pk := pk s - 1\<rparr>) }
      else if n \<noteq> 1 then Some s else if v then setto ''e'' s else Some s) = Some t \<and> st_inv p lo hi t"
  proof (cases d)
    case True
    then show ?thesis using d(2) rd_Some [OF inv, of "pk s - 1"] st_inv_pk [OF inv, of "pk s"] st_inv_pk [OF inv, of "pk s - 1"] b by simp
  qed (use e inv in simp)
  let ?s = "s\<lparr>pj := pk s - 2\<rparr>"
  have ends2: "ends x s = Some (False, s) \<or> ends x s = Some (True, ?s) \<and> 2 \<le> pk s - lo + 1" if "length x = 2" for x
    using ends_Some [OF inv, of x] that by auto
  consider (at) "ends ''at'' s = Some (True, ?s)" "2 \<le> pk s - lo + 1"
    | (bl) "ends ''at'' s = Some (False, s)" "ends ''bl'' s = Some (True, ?s)" "2 \<le> pk s - lo + 1"
    | (iz) "ends ''at'' s = Some (False, s)" "ends ''bl'' s = Some (False, s)" "ends ''iz'' s = Some (True, ?s)" "2 \<le> pk s - lo + 1"
    | (none) "ends ''at'' s = Some (False, s)" "ends ''bl'' s = Some (False, s)" "ends ''iz'' s = Some (False, s)"
    using ends2 [of "''at''"] ends2 [of "''bl''"] ends2 [of "''iz''"] by fastforce
  then have "\<exists>t. step1_restore s = Some t \<and> st_inv p lo hi t"
  proof cases
    case at
    then show ?thesis using set [of "''ate''"] by (simp add: step1_restore_def)
  next
    case bl
    then show ?thesis using set [of "''ble''"] by (simp add: step1_restore_def)
  next
    case iz
    then show ?thesis using set [of "''ize''"] by (simp add: step1_restore_def)
  next
    case none
    then have "step1_restore s = (if d then do { ch \<leftarrow> rd (buf s) (pk s - 1); Some (if ch \<in> set ''lsz'' then s\<lparr>pk := pk s\<rparr> else s\<lparr>pk := pk s - 1\<rparr>) }
      else if n \<noteq> 1 then Some s else if v then setto ''e'' s else Some s)"
      using d(1) n v by (cases d) (simp_all add: step1_restore_def Let_def cong: if_cong)
    then show ?thesis using last by simp
  qed
  then show thesis using that by blast
qed

lemma step1b_Some:
  assumes inv: "st_inv p lo hi s"
  obtains s' where "step1b s = Some s'" "st_inv p lo hi s'"
proof -
  note b = st_inv_bounds [OF inv]
  from ends_Some [OF inv, of "''eed''"] show thesis
  proof
    assume "ends ''eed'' s = Some (True, s\<lparr>pj := pk s - int (length ''eed'')\<rparr>) \<and> int (length ''eed'') \<le> pk s - lo + 1"
    then have e: "ends ''eed'' s = Some (True, s\<lparr>pj := pk s - 3\<rparr>)" "3 \<le> pk s - lo + 1" by simp_all
    have inv': "st_inv p lo hi (s\<lparr>pj := pk s - 3\<rparr>)" using inv by simp
    obtain n where "m_count (s\<lparr>pj := pk s - 3\<rparr>) = Some n" using m_count_Some [OF inv'] b by auto
    then show thesis using that e inv' st_inv_pk [OF inv', of "pk s - 1"] b by (simp add: step1b_def)
  next
    assume f: "ends ''eed'' s = Some (False, s)"
    show thesis
    proof (rule ends_any_Some [OF inv, of "[''ed'', ''ing'']"])
      assume "ends_any [''ed'', ''ing''] s = Some (False, s)"
      then show thesis using that f inv by (simp add: step1b_def del: ends_any.simps)
    next
      fix x assume x: "x \<in> set [''ed'', ''ing'']" "ends_any [''ed'', ''ing''] s = Some (True, s\<lparr>pj := pk s - int (length x)\<rparr>)"
      let ?s = "s\<lparr>pj := pk s - int (length x)\<rparr>"
      have inv': "st_inv p lo hi ?s" and len: "2 \<le> length x" using inv x(1) by auto
      obtain v where v: "vowelinstem ?s = Some v" "v \<Longrightarrow> lo \<le> pj ?s"
        using vowelinstem_Some [OF inv'] b by auto
      show thesis
      proof (cases v)
        case True
        have k: "pj ?s + 1 \<le> hi" using len b by simp
        have "st_inv p lo hi (?s\<lparr>pk := pj ?s\<rparr>)" using st_inv_pk [OF inv', of "pj ?s"] v(2) [OF True] k by simp
        then obtain s' where "step1_restore (?s\<lparr>pk := pj ?s\<rparr>) = Some s'" "st_inv p lo hi s'"
          by (rule step1_restore_Some) (use k in simp_all)
        then show thesis using that f x(2) v(1) True by (simp add: step1b_def del: ends_any.simps)
      next
        case False
        then show thesis using that f x(2) v(1) inv' by (simp add: step1b_def del: ends_any.simps)
      qed
    qed
  qed
qed

lemma step1c_Some:
  assumes inv: "st_inv p lo hi s"
  obtains s' where "step1c s = Some s'" "st_inv p lo hi s'" "pk s' = pk s"
proof -
  note b = st_inv_bounds [OF inv]
  from ends_Some [OF inv, of "''y''"] show thesis
  proof
    assume "ends ''y'' s = Some (False, s)"
    then show thesis using that inv by (simp add: step1c_def)
  next
    assume "ends ''y'' s = Some (True, s\<lparr>pj := pk s - int (length ''y'')\<rparr>) \<and> int (length ''y'') \<le> pk s - lo + 1"
    then have e: "ends ''y'' s = Some (True, s\<lparr>pj := pk s - 1\<rparr>)" by simp
    let ?s = "s\<lparr>pj := pk s - 1\<rparr>" and ?t = "s\<lparr>pj := pk s - 1, buf := (buf s)[nat (pk s) := CHR ''i'']\<rparr>"
    obtain v where v: "vowelinstem ?s = Some v" using vowelinstem_Some [of p lo hi ?s] inv b by auto
    have "st_inv p lo hi ?t" using inv b by (auto simp: st_inv_def nth_list_update)
    moreover have "step1c s = Some (if v then ?t else ?s)" using e v by (simp add: step1c_def cong: if_cong)
    ultimately show thesis using that inv by (cases v) simp_all
  qed
qed

lemma step2_Some:
  assumes inv: "st_inv p lo hi s" and k: "lo < pk s"
  obtains s' where "step2 s = Some s'" "st_inv p lo hi s'" "lo < pk s'"
proof -
  have "rd (buf s) (pk s - 1) = Some (buf s ! nat (pk s - 1))" using rd_Some [OF inv] st_inv_bounds [OF inv] k by simp
  moreover have "\<forall>(x, y) \<in> set (step2_rules c). length y \<le> length x" for c by (simp add: step2_rules_def)
  ultimately show thesis using replace_first_Some [OF inv k] that by (fastforce simp: step2_def)
qed

lemma step3_Some:
  assumes inv: "st_inv p lo hi s" and k: "lo < pk s"
  obtains s' where "step3 s = Some s'" "st_inv p lo hi s'" "lo < pk s'"
proof -
  have "rd (buf s) (pk s) = Some (buf s ! nat (pk s))" using rd_Some [OF inv] st_inv_bounds [OF inv] k by simp
  moreover have "\<forall>(x, y) \<in> set (step3_rules c). length y \<le> length x" for c by (simp add: step3_rules_def)
  ultimately show thesis using replace_first_Some [OF inv k] that by (fastforce simp: step3_def)
qed

text \<open>What the two kinds of suffix test of \<open>step4\<close> leave behind.\<close>

lemma step4_ion_Some:
  assumes inv: "st_inv p lo hi s"
  shows "\<exists>e s'. step4_ion s = Some (e, s') \<and> st_inv p lo hi s' \<and> pk s' = pk s \<and> (e \<longrightarrow> pj s' \<le> hi)"
proof -
  note b = st_inv_bounds [OF inv]
  obtain e s1 where s1: "ends ''ion'' s = Some (e, s1)" "st_inv p lo hi s1" "pk s1 = pk s" "e \<Longrightarrow> pj s1 \<le> hi"
    using ends_Some [OF inv, of "''ion''"] inv b by auto
  have "\<exists>st. (if e \<and> pj s1 \<ge> pk0 s1 then map_option (\<lambda>c. c \<in> set ''st'') (rd (buf s1) (pj s1)) else Some False) = Some st \<and> (st \<longrightarrow> e)"
    using rd_Some [OF s1(2), of "pj s1"] s1(4) st_inv_bounds [OF s1(2)] by auto
  then obtain st where st: "(if e \<and> pj s1 \<ge> pk0 s1 then map_option (\<lambda>c. c \<in> set ''st'') (rd (buf s1) (pj s1)) else Some False) = Some st" "st \<Longrightarrow> e" by blast
  have "step4_ion s = (if st then Some (True, s1) else ends ''ou'' s1)" using s1(1) st(1) by (simp add: step4_ion_def)
  then show ?thesis using s1 st(2) ends_Some [OF s1(2), of "''ou''"] st_inv_bounds [OF s1(2)] by (cases st) auto
qed

lemma step4_Some:
  assumes inv: "st_inv p lo hi s" and k: "lo < pk s"
  obtains s' where "step4 s = Some s'" "st_inv p lo hi s'"
proof -
  note b = st_inv_bounds [OF inv]
  define c where "c = buf s ! nat (pk s - 1)"
  have rd: "rd (buf s) (pk s - 1) = Some c" using rd_Some [OF inv] b k by (simp add: c_def)
  have "\<exists>e s'. ends_any xs s = Some (e, s') \<and> st_inv p lo hi s' \<and> pk s' = pk s \<and> (e \<longrightarrow> pj s' \<le> hi)" for xs
    by (rule ends_any_Some [OF inv, of xs]) (use inv b in auto)
  then obtain e s1 where s1: "(if c = CHR ''o'' then step4_ion s else ends_any (step4_suffixes c) s) = Some (e, s1)"
    "st_inv p lo hi s1" "pk s1 = pk s" "e \<Longrightarrow> pj s1 \<le> hi"
    using step4_ion_Some [OF inv] by (cases "c = CHR ''o''") fastforce+
  show thesis
  proof (cases e)
    case True
    obtain n where n: "m_count s1 = Some n" "n > 0 \<Longrightarrow> lo + 1 \<le> pj s1" using m_count_Some [OF s1(2) s1(4) [OF True]] by blast
    have "step4 s = Some (if n > 1 then s1\<lparr>pk := pj s1\<rparr> else s1)" using rd s1(1) True n(1) by (simp add: step4_def)
    moreover have "st_inv p lo hi (s1\<lparr>pk := pj s1\<rparr>)" if "n > 1" using st_inv_pk [OF s1(2)] n(2) that s1(4) [OF True] by simp
    ultimately show thesis using that s1(2) by (cases "n > 1") simp_all
  next
    case False
    then have "step4 s = Some s1" using rd s1(1) by (simp add: step4_def)
    then show thesis using that s1(2) by blast
  qed
qed

lemma step5_Some:
  assumes inv: "st_inv p lo hi s"
  obtains s' where "step5 s = Some s'" "st_inv p lo hi s'"
proof -
  note b = st_inv_bounds [OF inv]
  define s1 where "s1 = s\<lparr>pj := pk s\<rparr>"
  have inv1: "st_inv p lo hi s1" and s1: "pj s1 = pk s" "pk s1 = pk s" using inv by (simp_all add: s1_def)
  have rd1: "rd (buf s1) (pk s1) = Some (buf s1 ! nat (pk s1))" using rd_Some [OF inv1] st_inv_bounds [OF inv1] by simp
  obtain a where a: "m_count s1 = Some a" "a > 0 \<Longrightarrow> lo + 1 \<le> pk s" using m_count_Some [OF inv1] s1 b by auto
  obtain v where v: "cvc s1 (pk s1 - 1) = Some v" using cvc_Some [OF inv1, of "pk s1 - 1"] s1 b by auto
  have cut: "st_inv p lo hi (s1\<lparr>pk := pk s1 - 1\<rparr>)" if "a > 0" using st_inv_pk [OF inv1, of "pk s1 - 1"] a(2) [OF that] s1 b by simp
  have "\<exists>s2. (if buf s1 ! nat (pk s1) \<noteq> CHR ''e'' then Some s1
                 else do { a \<leftarrow> m_count s1;
                           if a > 1 then Some (s1\<lparr>pk := pk s1 - 1\<rparr>)
                           else if a = 1 then do { v \<leftarrow> cvc s1 (pk s1 - 1); Some (if v then s1 else s1\<lparr>pk := pk s1 - 1\<rparr>) }
                           else Some s1 }) = Some s2 \<and> st_inv p lo hi s2 \<and> pj s2 = pk s"
    using a v cut inv1 s1 by (cases "a > 1"; cases v) (simp_all cong: if_cong)
  then obtain s2 where s2: "(if buf s1 ! nat (pk s1) \<noteq> CHR ''e'' then Some s1
                 else do { a \<leftarrow> m_count s1;
                           if a > 1 then Some (s1\<lparr>pk := pk s1 - 1\<rparr>)
                           else if a = 1 then do { v \<leftarrow> cvc s1 (pk s1 - 1); Some (if v then s1 else s1\<lparr>pk := pk s1 - 1\<rparr>) }
                           else Some s1 }) = Some s2" "st_inv p lo hi s2" "pj s2 = pk s" by blast
  note b2 = st_inv_bounds [OF s2(2)]
  have rd2: "rd (buf s2) (pk s2) = Some (buf s2 ! nat (pk s2))" using rd_Some [OF s2(2)] b2 by simp
  obtain d where d: "doublec s2 (pk s2) = Some d" "d \<Longrightarrow> lo + 1 \<le> pk s2" using doublec_Some [OF s2(2), of "pk s2"] b2 by auto
  obtain n where n: "m_count s2 = Some n" using m_count_Some [OF s2(2)] s2(3) b by auto
  let ?t = "if buf s2 ! nat (pk s2) = CHR ''l'' \<and> d \<and> n > 1 then s2\<lparr>pk := pk s2 - 1\<rparr> else s2"
  have "step5 s = Some ?t" using rd1 s2(1) rd2 d(1) n by (simp add: step5_def s1_def [symmetric])
  moreover have "st_inv p lo hi ?t" using s2(2) st_inv_pk [OF s2(2), of "pk s2 - 1"] d(2) b2 by auto
  ultimately show thesis using that by blast
qed

lemma stem_at_Some:
  assumes "0 \<le> i" "i \<le> j" "j < int (length p)"
  obtains p' k j' where "stem_at j0 p i j = Some (p', k, j')" "i \<le> k" "k \<le> j" "length p' = length p"
    "\<And>n. n < length p \<Longrightarrow> int n < i \<or> j < int n \<Longrightarrow> p' ! n = p ! n"
proof (cases "j \<le> i + 1")
  case True
  then show thesis using that [of p j j0] assms by (simp add: stem_at_def)
next
  case False
  define s where "s = \<lparr>buf = p, pk = j, pk0 = i, pj = j0\<rparr>"
  have inv: "st_inv p i j s" using assms by (simp add: s_def st_inv_def)
  obtain s0 where s0: "step1a s = Some s0" "st_inv p i j s0" using step1a_Some [OF inv] False by (auto simp: s_def)
  obtain s1 where s1: "step1b s0 = Some s1" "st_inv p i j s1" using step1b_Some [OF s0(2)] by blast
  have ab: "step1ab s = Some s1" using s0(1) s1(1) by (simp add: step1ab_def)
  have "\<exists>s6. (if pk s1 > pk0 s1 then do { s2 \<leftarrow> step1c s1; s3 \<leftarrow> step2 s2; s4 \<leftarrow> step3 s3; s5 \<leftarrow> step4 s4; step5 s5 }
      else Some s1) = Some s6 \<and> st_inv p i j s6"
  proof (cases "pk s1 > pk0 s1")
    case True
    then have k: "i < pk s1" using st_inv_bounds [OF s1(2)] by simp
    obtain s2 where s2: "step1c s1 = Some s2" "st_inv p i j s2" "pk s2 = pk s1" using step1c_Some [OF s1(2)] by blast
    obtain s3 where s3: "step2 s2 = Some s3" "st_inv p i j s3" "i < pk s3" using step2_Some [OF s2(2)] s2(3) k by auto
    obtain s4 where s4: "step3 s3 = Some s4" "st_inv p i j s4" "i < pk s4" using step3_Some [OF s3(2,3)] by blast
    obtain s5 where s5: "step4 s4 = Some s5" "st_inv p i j s5" using step4_Some [OF s4(2,3)] by blast
    obtain s6 where "step5 s5 = Some s6" "st_inv p i j s6" using step5_Some [OF s5(2)] by blast
    then show ?thesis using True s2 s3 s4 s5 by simp
  qed (use s1 in simp)
  then obtain s6 where s6: "(if pk s1 > pk0 s1 then do { s2 \<leftarrow> step1c s1; s3 \<leftarrow> step2 s2; s4 \<leftarrow> step3 s3; s5 \<leftarrow> step4 s4; step5 s5 }
      else Some s1) = Some s6" "st_inv p i j s6" by blast
  have "stem_at j0 p i j = Some (buf s6, pk s6, pj s6)"
    using False ab s6(1) unfolding stem_at_def s_def [symmetric] by (simp add: s_def)
  then show thesis by (rule that) (use s6(2) in \<open>auto simp: st_inv_def\<close>)
qed

section \<open>Text\<close>

text \<open>\<open>LETTER\<close> and \<open>tolower\<close> in the C locale.\<close>

definition LETTER :: "char \<Rightarrow> bool" where
  "LETTER c \<longleftrightarrow> (let n = of_char c :: nat in 65 \<le> n \<and> n \<le> 90 \<or> 97 \<le> n \<and> n \<le> 122)"

definition to_lower :: "char \<Rightarrow> char" where
  "to_lower c = (let n = of_char c :: nat in if 65 \<le> n \<and> n \<le> 90 then char_of (n + 32) else c)"

text \<open>The loop of \<open>stem(string)\<close> over the characters left in \<open>iss\<close>. A character \<open>0xFF\<close> is \<open>EOF\<close> as a
  \<open>char\<close>. \<open>tmp\<close> is appended to for every word and never emptied, while the index starts at zero.\<close>

function stem_loop :: "string \<Rightarrow> string \<Rightarrow> int \<Rightarrow> string \<Rightarrow> string option" where
  "stem_loop [] tmp j0 oss = Some oss"
| "stem_loop (c # cs) tmp j0 oss =
     (if c = CHR 0xFF then Some oss
      else if LETTER c then
        let w = map to_lower (takeWhile LETTER (c # cs)) in
        (case stem_at j0 (tmp @ w) 0 (int (length w) - 1) of
           None \<Rightarrow> None
         | Some (tmp', k, j') \<Rightarrow> stem_loop (dropWhile LETTER cs) tmp' j' (oss @ take (nat (k + 1)) tmp'))
      else stem_loop cs tmp j0 (oss @ [c]))"
  by pat_completeness auto

termination
  by (relation "measure (\<lambda>(cs, tmp, j0, oss). length cs)") (auto simp: less_Suc_eq_le length_dropWhile_le)

definition stem_string :: "int \<Rightarrow> string \<Rightarrow> string option" where
  "stem_string j0 str = stem_loop str [] j0 []"

section \<open>Properties\<close>



text \<open>A consonant right after a vowel, the end of one \<open>vc\<close> group.\<close>

definition vc_at :: "string \<Rightarrow> int \<Rightarrow> int \<Rightarrow> bool" where
  "vc_at b k0 x \<longleftrightarrow> cons b k0 (x - 1) = Some False \<and> cons b k0 x = Some True"

lemma scan_found: "scan b k0 j w i = Some (Some x) \<Longrightarrow> cons b k0 x = Some w \<and> (\<forall>y. i \<le> y \<longrightarrow> y < x \<longrightarrow> cons b k0 y = Some (\<not> w))"
proof (induction b k0 j w i rule: scan.induct)
  case (1 b k0 j w i)
  from 1(2) obtain c where c: "cons b k0 i = Some c" "i \<le> j" by (auto simp: scan.simps [of b k0 j w i] split: if_splits option.splits)
  show ?case
  proof (cases "c = w")
    case True
    then show ?thesis using 1(2) c by (simp add: scan.simps [of b k0 j w i])
  next
    case False
    then have s: "scan b k0 j w (i + 1) = Some (Some x)" using 1(2) c by (simp add: scan.simps [of b k0 j w i])
    have "cons b k0 x = Some w" "\<forall>y. i + 1 \<le> y \<longrightarrow> y < x \<longrightarrow> cons b k0 y = Some (\<not> w)" using 1(1) [OF _ c(1) False s] c(2) by simp_all
    moreover have "cons b k0 i = Some (\<not> w)" using c(1) False by simp
    moreover have "i + 1 \<le> y \<or> y = i" if "i \<le> y" for y using that by linarith
    ultimately show ?thesis by blast
  qed
qed

lemma scan_end: "scan b k0 j w i = Some None \<Longrightarrow> i \<le> y \<Longrightarrow> y \<le> j \<Longrightarrow> cons b k0 y = Some (\<not> w)"
proof (induction b k0 j w i rule: scan.induct)
  case (1 b k0 j w i)
  then have "i \<le> j" by linarith
  then obtain c where c: "cons b k0 i = Some c" "c \<noteq> w" "scan b k0 j w (i + 1) = Some None"
    using 1(2) by (auto simp: scan.simps [of b k0 j w i] split: if_splits option.splits)
  show ?case
  proof (cases "y = i")
    case False
    then show ?thesis using 1(1) [OF _ c(1-3)] \<open>i \<le> j\<close> 1(3,4) by simp
  qed (use c in auto)
qed

lemma m_loop_counts:
  "m_loop b k0 j i n = Some x \<Longrightarrow> cons b k0 (i - 1) = Some False \<Longrightarrow> x = n + card {y. i \<le> y \<and> y \<le> j \<and> vc_at b k0 y}"
proof (induction b k0 j i n rule: m_loop.induct)
  case (1 b k0 j i n)
  from 1(2) obtain a where a: "scan b k0 j True i = Some a" by (auto simp: m_loop.simps [of b k0 j i n] split: option.splits)
  show ?case
  proof (cases a)
    case None
    then have none: "{y. i \<le> y \<and> y \<le> j \<and> vc_at b k0 y} = {}" using scan_end a by (fastforce simp: vc_at_def)
    show ?thesis unfolding none using 1(2) a None by (simp add: m_loop.simps [of b k0 j i n])
  next
    case (Some c)
    note ca = a [unfolded Some]
    have c: "i \<le> c" "c \<le> j" "cons b k0 c = Some True" using scan_bounds [OF ca] scan_found [OF ca] by simp_all
    have vowels: "cons b k0 y = Some False" if "i \<le> y" "y < c" for y using scan_found [OF ca] that by simp
    have "cons b k0 (c - 1) = Some False"
    proof (cases "c = i")
      case False
      then show ?thesis using vowels [of "c - 1"] c(1) by simp
    qed (use 1(3) in simp)
    then have here: "vc_at b k0 c" using c(3) by (simp add: vc_at_def)
    have before: "\<not> vc_at b k0 y" if "i \<le> y" "y < c" for y using vowels [OF that] by (simp add: vc_at_def)
    from 1(2) obtain d where d: "scan b k0 j False (c + 1) = Some d"
      using ca by (auto simp: m_loop.simps [of b k0 j i n] split: option.splits)
    show ?thesis
    proof (cases d)
      case None
      have cons: "cons b k0 y = Some True" if "c \<le> y" "y \<le> j" for y
        using scan_end [OF d [unfolded None], of y] c(3) that by (cases "y = c") simp_all
      have "\<not> vc_at b k0 y" if "c < y" "y \<le> j" for y using cons [of "y - 1"] that by (simp add: vc_at_def)
      then have only: "vc_at b k0 y \<longleftrightarrow> y = c" if "i \<le> y" "y \<le> j" for y using before here that by (cases y c rule: linorder_cases) auto
      then have "{y. i \<le> y \<and> y \<le> j \<and> vc_at b k0 y} = {c}" using c by blast
      then show ?thesis using 1(2) ca d None by (simp add: m_loop.simps [of b k0 j i n])
    next
      case (Some v)
      note dv = d [unfolded Some]
      have v: "c + 1 \<le> v" "v \<le> j" "cons b k0 v = Some False" using scan_bounds [OF dv] scan_found [OF dv] by simp_all
      have cons: "cons b k0 y = Some True" if "c \<le> y" "y < v" for y
        using scan_found [OF dv] c(3) that by (cases "y = c") simp_all
      have after: "\<not> vc_at b k0 y" if "c < y" "y \<le> v" for y
        using cons [of "y - 1"] v(3) that by (simp add: vc_at_def)
      have "i \<le> y \<and> y \<le> j \<and> vc_at b k0 y \<longleftrightarrow> y = c \<or> v + 1 \<le> y \<and> y \<le> j \<and> vc_at b k0 y" for y
      proof -
        consider "y < c" | "y = c" | "c < y" "y \<le> v" | "v < y" by linarith
        then show ?thesis
        proof cases
          case 1
          then show ?thesis using before [of y] v(1) by auto
        next
          case 3
          then show ?thesis using after [of y] by auto
        next
          case 4
          then show ?thesis using c(1) v(1) by auto
        qed (use here c in simp)
      qed
      then have split: "{y. i \<le> y \<and> y \<le> j \<and> vc_at b k0 y} = insert c {y. v + 1 \<le> y \<and> y \<le> j \<and> vc_at b k0 y}" by blast
      have fin: "finite {y. v + 1 \<le> y \<and> y \<le> j \<and> vc_at b k0 y}" by (rule finite_subset [of _ "{v + 1..j}"]) auto
      have rec: "m_loop b k0 j (v + 1) (n + 1) = Some x" using 1(2) ca dv by (simp add: m_loop.simps [of b k0 j i n])
      have "x = n + 1 + card {y. v + 1 \<le> y \<and> y \<le> j \<and> vc_at b k0 y}" by (rule 1(1) [OF a \<open>a = Some c\<close> d Some rec]) (simp add: v(3))
      then show ?thesis unfolding split using fin v(1) by simp
    qed
  qed
qed

text \<open>
  (C24) The loops of \<open>m()\<close> return the number of consonants between \<open>k0\<close> and \<open>j\<close> that come right after a
  vowel, which is the number of \<open>vc\<close> groups its comment describes.
\<close>

theorem m_counts_groups:
  assumes "0 \<le> pk0 s" "pj s < int (length (buf s))"
  shows "m_count s = Some (card {y. pk0 s < y \<and> y \<le> pj s \<and> vc_at (buf s) (pk0 s) y})"
proof -
  obtain a where a: "scan (buf s) (pk0 s) (pj s) False (pk0 s) = Some a" using scan_Some [OF assms(1) order.refl assms(2)] by blast
  show ?thesis
  proof (cases a)
    case None
    have none: "{y. pk0 s < y \<and> y \<le> pj s \<and> vc_at (buf s) (pk0 s) y} = {}"
      using scan_end [OF a [unfolded None]] by (fastforce simp: vc_at_def)
    show ?thesis unfolding none using a None by (simp add: m_count_def)
  next
    case (Some v)
    note av = a [unfolded Some]
    have v: "pk0 s \<le> v" "cons (buf s) (pk0 s) v = Some False" using scan_bounds [OF av] scan_found [OF av] by simp_all
    have before: "cons (buf s) (pk0 s) y = Some True" if "pk0 s \<le> y" "y < v" for y using scan_found [OF av] that by simp
    have "0 \<le> pk0 s" "pk0 s \<le> v + 1" "pj s < int (length (buf s))" using v assms by simp_all
    then obtain x where x: "m_loop (buf s) (pk0 s) (pj s) (v + 1) 0 = Some x" using m_loop_Some by blast
    have "\<not> vc_at (buf s) (pk0 s) y" if "pk0 s < y" "y \<le> v" for y
      using before [of "y - 1"] that by (simp add: vc_at_def)
    then have "{y. pk0 s < y \<and> y \<le> pj s \<and> vc_at (buf s) (pk0 s) y} = {y. v + 1 \<le> y \<and> y \<le> pj s \<and> vc_at (buf s) (pk0 s) y}"
      using v(1) by (force simp: add1_zle_eq)
    then show ?thesis using m_loop_counts [OF x] v(2) a Some x by (simp add: m_count_def)
  qed
qed

theorem m_counts_groups_witness:
  "m_count \<lparr>buf = ''oaten'', pk = 4, pk0 = 0, pj = 4\<rparr> =
     Some (card {y. 0 < y \<and> y \<le> 4 \<and> vc_at ''oaten'' 0 y})"
  using m_counts_groups [of "\<lparr>buf = ''oaten'', pk = 4, pk0 = 0, pj = 4\<rparr>"] by simp

lemma stem_loop_Some: "\<exists>r. stem_loop str tmp j0 oss = Some r \<and> length r \<le> length oss + length str"
proof (induction str tmp j0 oss rule: stem_loop.induct)
  case (2 c cs tmp j0 oss)
  show ?case
  proof (cases "c \<noteq> CHR 0xFF \<and> LETTER c")
    case True
    define w where "w = map to_lower (takeWhile LETTER (c # cs))"
    have "length (takeWhile LETTER cs) + length (dropWhile LETTER cs) = length cs" by (metis length_append takeWhile_dropWhile_id)
    then have len: "0 < length w" "length w + length (dropWhile LETTER cs) = Suc (length cs)" using True by (simp_all add: w_def)
    obtain p k j' where p: "stem_at j0 (tmp @ w) 0 (int (length w) - 1) = Some (p, k, j')" "k \<le> int (length w) - 1" "0 \<le> k"
      by (rule stem_at_Some [of 0 "int (length w) - 1" "tmp @ w" j0]) (use len in auto)
    obtain r where r: "stem_loop (dropWhile LETTER cs) p j' (oss @ take (nat (k + 1)) p) = Some r"
      "length r \<le> length (oss @ take (nat (k + 1)) p) + length (dropWhile LETTER cs)"
      using 2(1) [OF _ _ w_def p(1)] True by auto
    have "length r \<le> length oss + length (c # cs)" using r(2) p(2,3) len by simp
    moreover have "stem_loop (c # cs) tmp j0 oss = Some r"
      using True r(1) p(1) unfolding stem_loop.simps(2) w_def [symmetric] Let_def by simp
    ultimately show ?thesis by blast
  next
    case False
    then show ?thesis using 2(2) by auto
  qed
qed simp

text \<open>
  (C25) Stemming a text returns for every text, whatever the characters, and never makes it longer.
\<close>

theorem stem_text_not_longer: "\<exists>r. stem_string j0 str = Some r \<and> length r \<le> length str"
  using stem_loop_Some [of str "[]" j0 "[]"] by (simp add: stem_string_def)

text \<open>The stem of a text that is a single word is the word in lower case, changed and cut at the
  end the stemmer finds.
\<close>

theorem stem_single_word:
  assumes w: "\<forall>c \<in> set w. LETTER c" "w \<noteq> []"
  shows "\<exists>p k j'. stem_at j0 (map to_lower w) 0 (int (length w) - 1) = Some (p, k, j') \<and> stem_string j0 w = Some (take (nat (k + 1)) p)"
proof -
  obtain c cs where cs: "w = c # cs" using w(2) by (cases w) simp_all
  have ff: "\<not> LETTER (CHR 0xFF)" by (simp add: LETTER_def)
  have all: "takeWhile LETTER cs = cs" "dropWhile LETTER cs = []" using w by (simp_all add: cs)
  obtain p k j' where p: "stem_at j0 (map to_lower w) 0 (int (length w) - 1) = Some (p, k, j')"
    by (rule stem_at_Some [of 0 "int (length w) - 1" "map to_lower w" j0]) (use w(2) in \<open>auto simp: Suc_le_eq cs\<close>)
  have "stem_string j0 w = Some (take (nat (k + 1)) p)"
    using p w ff by (auto simp: stem_string_def cs Let_def all)
  then show ?thesis using p by blast
qed

theorem stem_single_word_witness:
  "\<exists>p k j'. stem_at 0 (map to_lower ''Cats'') 0 (int (length ''Cats'') - 1) = Some (p, k, j') \<and>
     stem_string 0 ''Cats'' = Some (take (nat (k + 1)) p)"
  by (rule stem_single_word) (simp_all add: LETTER_def)

text \<open>The words after the first are not stemmed: \<open>tmp\<close> still holds the first one.\<close>

lemma second_word_lost: "stem_string 0 ''cats dogs'' = Some ''cat cat''"
  by code_simp

lemma porter_examples:
  "stem_string 0 ''relational'' = Some ''relat''" "stem_string 0 ''hopping'' = Some ''hop''" "stem_string 0 ''ponies'' = Some ''poni''"
  "stem_string 0 ''ties'' = Some ''ti''" "stem_string 0 ''agreed'' = Some ''agre''" "stem_string 0 ''electricity'' = Some ''electr''"
  by code_simp+

end
