(* ===== verification/Hash_Table.thy ===== *)
theory Hash_Table
  imports Bytes "HOL-Library.Monad_Syntax"
begin

text \<open>
  The hash of the cache: the two slot functions of \<open>cache/hash.h\<close> with the mixing hash of
  \<open>common/new_hash.cc\<close>, the bucket array of \<open>cache/hash.cc\<close>, and the interface of nodes that are
  chained into buckets by one link each. A key is the memory from its pointer on; reading past
  it and a remainder by zero are \<open>None\<close>. Characters are signed and integers are little-endian.
\<close>

section \<open>The mixing hash\<close>

definition mix_round :: "nat \<Rightarrow> nat \<Rightarrow> nat \<Rightarrow> u32 \<times> u32 \<times> u32 \<Rightarrow> u32 \<times> u32 \<times> u32" where
  "mix_round i j k s =
     (case s of (a, b, c) \<Rightarrow>
      let a = a - b; a = a - c; a = a XOR drop_bit i c;
          b = b - c; b = b - a; b = b XOR push_bit j a;
          c = c - a; c = c - b; c = c XOR drop_bit k b
      in (a, b, c))"

text \<open>The macro \<open>mix\<close> has the same nine statements three times, with other shifts.\<close>

definition mix :: "u32 \<times> u32 \<times> u32 \<Rightarrow> u32 \<times> u32 \<times> u32" where
  "mix s = mix_round 3 10 15 (mix_round 12 16 5 (mix_round 13 8 13 s))"

text \<open>A \<open>char\<close> of the key, sign extended.\<close>

definition kc :: "byte list \<Rightarrow> nat \<Rightarrow> u32" where
  "kc k i = scast (k ! i)"

fun new_hash_loop :: "byte list \<Rightarrow> nat \<Rightarrow> u32 \<times> u32 \<times> u32 \<Rightarrow> byte list \<times> nat \<times> u32 \<times> u32 \<times> u32" where
  "new_hash_loop k len (a, b, c) =
     (if len \<ge> 12 then
        let a = a + (kc k 0 + push_bit 8 (kc k 1) + push_bit 16 (kc k 2) + push_bit 24 (kc k 3));
            b = b + (kc k 4 + push_bit 8 (kc k 5) + push_bit 16 (kc k 6) + push_bit 24 (kc k 7));
            c = c + (kc k 8 + push_bit 8 (kc k 9) + push_bit 16 (kc k 10) + push_bit 24 (kc k 11))
        in new_hash_loop (drop 12 k) (len - 12) (mix (a, b, c))
      else (k, len, a, b, c))"

declare new_hash_loop.simps [simp del]

definition new_hash :: "byte list \<Rightarrow> nat \<Rightarrow> u32" where
  "new_hash k0 length0 =
     (case new_hash_loop k0 length0 (0x9e3779b9, 0x9e3779b9, 0x48545443) of (k, len, a, b, c) \<Rightarrow>
      let c = c + word_of_nat length0;
          c = (if len \<ge> 11 then c + push_bit 24 (kc k 10) else c);
          c = (if len \<ge> 10 then c + push_bit 16 (kc k 9) else c);
          c = (if len \<ge> 9 then c + push_bit 8 (kc k 8) else c);
          b = (if len \<ge> 8 then b + push_bit 24 (kc k 7) else b);
          b = (if len \<ge> 7 then b + push_bit 16 (kc k 6) else b);
          b = (if len \<ge> 6 then b + push_bit 8 (kc k 5) else b);
          b = (if len \<ge> 5 then b + kc k 4 else b);
          a = (if len \<ge> 4 then a + push_bit 24 (kc k 3) else a);
          a = (if len \<ge> 3 then a + push_bit 16 (kc k 2) else a);
          a = (if len \<ge> 2 then a + push_bit 8 (kc k 1) else a);
          a = (if len \<ge> 1 then a + kc k 0 else a)
      in snd (snd (mix (a, b, c))))"

section \<open>Slots\<close>

record hash_t =
  hh_size :: u32
  hh_free :: u32
  hh_node :: u32
  hh_fixedsize :: u32
  hh_buckets :: "nat \<Rightarrow> u32"

text \<open>The size of the key and the bytes it is hashed from; a key of variable length starts with
  its length.\<close>

definition key_part :: "hash_t \<Rightarrow> byte list \<Rightarrow> (nat \<times> byte list) option" where
  "key_part h key =
     (if hh_fixedsize h \<noteq> 0 then (if unat (hh_fixedsize h) \<le> length key then Some (unat (hh_fixedsize h), key) else None)
      else case key of [] \<Rightarrow> None | n # k \<Rightarrow> if unat n \<le> length k then Some (unat n, k) else None)"

definition load_le :: "byte list \<Rightarrow> u32" where
  "load_le bs = foldr (\<lambda>b acc. ucast b + 256 * acc) bs 0"

fun old_hash_loop :: "byte list \<Rightarrow> u32 \<Rightarrow> u32" where
  "old_hash_loop [] h = h"
| "old_hash_loop (k # ks) h =
     (let h = push_bit 4 h + scast k; g = h AND 0xF0000000
      in old_hash_loop ks (if g \<noteq> 0 then (h XOR drop_bit 24 g) XOR g else h))"

text \<open>What both slot functions do, given the hash they use for keys of other sizes.\<close>

definition slot_with :: "(byte list \<Rightarrow> nat \<Rightarrow> u32) \<Rightarrow> hash_t \<Rightarrow> byte list \<Rightarrow> nat option" where
  "slot_with f h key =
     do { (size, k) \<leftarrow> key_part h key;
          if hh_size h = 0 then None
          else if size = 1 then Some (unat (load_le (take 1 k) mod hh_size h))
          else if size = 2 then Some (unat (load_le (take 2 k) mod hh_size h))
          else if size = 4 then Some (unat (load_le (take 4 k) mod hh_size h))
          else Some (unat (f k size mod hh_size h)) }"

definition new_hash_slot :: "hash_t \<Rightarrow> byte list \<Rightarrow> nat option" where
  "new_hash_slot h key = slot_with new_hash h key"

definition hash_slot :: "hash_t \<Rightarrow> byte list \<Rightarrow> nat option" where
  "hash_slot h key = slot_with (\<lambda>k size. old_hash_loop (take size k) 0) h key"

section \<open>Buckets\<close>

definition hash2_node :: "hash_t \<Rightarrow> nat \<Rightarrow> u32" where
  "hash2_node h v = hh_buckets h v"

definition set_bucket :: "nat \<Rightarrow> u32 \<Rightarrow> hash_t \<Rightarrow> hash_t" where
  "set_bucket v nid h = h\<lparr>hh_buckets := (hh_buckets h)(v := nid)\<rparr>"

fun init_buckets :: "nat \<Rightarrow> (nat \<Rightarrow> u32) \<Rightarrow> nat \<Rightarrow> u32" where
  "init_buckets 0 b = b"
| "init_buckets (Suc n) b = (init_buckets n b)(n := - 1)"

text \<open>\<open>Init\<close>: the block that \<open>M_CALLOC\<close> returned, whose buckets are zero, or a failure.\<close>

definition hash_Init :: "bool \<Rightarrow> u32 \<Rightarrow> u32 \<Rightarrow> hash_t option" where
  "hash_Init calloc_ok hsize fixedsize =
     (if \<not> calloc_ok then None
      else Some \<lparr>hh_size = hsize, hh_free = hsize, hh_node = 0, hh_fixedsize = fixedsize,
                 hh_buckets = init_buckets (unat hsize) (\<lambda>_. 0)\<rparr>)"

definition inc_free_bucket :: "u32 \<Rightarrow> hash_t \<Rightarrow> hash_t" where
  "inc_free_bucket v h = h\<lparr>hh_free := hh_free h + v\<rparr>"

definition inc_node_cnt :: "u32 \<Rightarrow> hash_t \<Rightarrow> hash_t" where
  "inc_node_cnt v h = h\<lparr>hh_node := hh_node h + v\<rparr>"

section \<open>Chains\<close>

text \<open>
  What a bucket needs of the nodes in it: one link per node that can be read and written, where a
  write changes that link only. The chains of a table hold every node at most once.
\<close>

locale next_store =
  fixes nx :: "'s \<Rightarrow> 'k \<Rightarrow> 'k option"
    and set_nx :: "'k \<Rightarrow> 'k \<Rightarrow> 's \<Rightarrow> 's option"
    and ok :: "'s \<Rightarrow> 'k \<Rightarrow> bool"
    and nil :: 'k
  assumes set_nx: "ok s k \<Longrightarrow> \<exists>s'. set_nx k v s = Some s' \<and> (\<forall>j. ok s' j = ok s j) \<and>
      (\<forall>j. ok s j \<longrightarrow> nx s' j = (if j = k then Some v else nx s j))"
begin

fun chain :: "'s \<Rightarrow> 'k \<Rightarrow> 'k list \<Rightarrow> bool" where
  "chain s i [] \<longleftrightarrow> i = nil"
| "chain s i (x # xs) \<longleftrightarrow> i = x \<and> x \<noteq> nil \<and> ok s x \<and> (\<exists>y. nx s x = Some y \<and> chain s y xs)"

definition table :: "'s \<Rightarrow> nat \<Rightarrow> (nat \<Rightarrow> 'k) \<Rightarrow> (nat \<Rightarrow> 'k list) \<Rightarrow> bool" where
  "table s n head B \<longleftrightarrow> (\<forall>t < n. chain s (head t) (B t) \<and> distinct (B t)) \<and>
     (\<forall>t < n. \<forall>u < n. t \<noteq> u \<longrightarrow> set (B t) \<inter> set (B u) = {})"

lemma chain_cong:
  "chain s i xs \<Longrightarrow> (\<And>j. j \<in> set xs \<Longrightarrow> ok s' j = ok s j \<and> nx s' j = nx s j) \<Longrightarrow> chain s' i xs"
  by (induction xs arbitrary: i) auto

lemma chain_ok: "chain s i xs \<Longrightarrow> x \<in> set xs \<Longrightarrow> ok s x \<and> x \<noteq> nil"
  by (induction xs arbitrary: i) auto

lemma chain_next: "chain s i xs \<Longrightarrow> x \<in> set xs \<Longrightarrow> \<exists>y. nx s x = Some y"
  by (induction xs arbitrary: i) auto

lemma chain_write:
  assumes "chain s i xs" "ok s k" "k \<notin> set xs" "set_nx k v s = Some s'"
  shows "chain s' i xs"
proof (rule chain_cong [OF assms(1)])
  fix j assume "j \<in> set xs"
  then show "ok s' j = ok s j \<and> nx s' j = nx s j"
    using set_nx [OF assms(2), of v] assms(3,4) chain_ok [OF assms(1), of j] by auto
qed

lemma chain_push:
  assumes "chain s i xs" "ok s k" "k \<notin> set xs" "k \<noteq> nil" "set_nx k i s = Some s'"
  shows "chain s' k (k # xs)"
  using set_nx [OF assms(2), of i] assms chain_write [OF assms(1-3,5)] by auto

lemma chain_cut:
  "chain s i (xs @ p # x # ys) \<Longrightarrow> distinct (xs @ p # x # ys) \<Longrightarrow> nx s x = Some y \<Longrightarrow> set_nx p y s = Some s' \<Longrightarrow>
   chain s' i (xs @ p # ys)"
proof (induction xs arbitrary: i)
  case Nil
  have p: "ok s p" "p \<noteq> nil" "chain s y ys" "p \<notin> set ys" "i = p" using Nil by auto
  have "nx s' p = Some y" "ok s' p" using set_nx [OF p(1), of y] p(1) Nil(4) by auto
  then show ?case using chain_write [OF p(3,1,4) Nil(4)] p by auto
next
  case (Cons z xs)
  then obtain y' where z: "i = z" "z \<noteq> nil" "ok s z" "nx s z = Some y'" "chain s y' (xs @ p # x # ys)" by auto
  have "ok s p" using chain_ok [OF z(5)] by simp
  moreover have "z \<noteq> p" using Cons.prems(2) by auto
  ultimately have "ok s' z" "nx s' z = Some y'" using set_nx [of s p y] Cons.prems(4) z by auto
  then show ?case using Cons.IH [OF z(5)] Cons.prems z by auto
qed

text \<open>The table after one bucket has changed.\<close>

lemma table_parts:
  assumes "table s n head B" "t < n"
  shows "chain s (head t) (B t)" "distinct (B t)" "u < n \<Longrightarrow> t \<noteq> u \<Longrightarrow> set (B t) \<inter> set (B u) = {}"
  using assms by (simp_all add: table_def)

lemma table_update:
  assumes t: "table s n head B" and others: "\<And>t. t < n \<Longrightarrow> t \<noteq> u \<Longrightarrow> chain s' (head t) (B t)"
    and new: "chain s' h ks" "distinct ks" "\<And>t. t < n \<Longrightarrow> t \<noteq> u \<Longrightarrow> set (B t) \<inter> set ks = {}"
  shows "table s' n (head(u := h)) (B(u := ks))"
proof -
  have "chain s' ((head(u := h)) t) ((B(u := ks)) t) \<and> distinct ((B(u := ks)) t)" if "t < n" for t
    using others [OF that] new(1,2) table_parts(2) [OF t that] by (cases "t = u") simp_all
  moreover have "set ((B(u := ks)) t) \<inter> set ((B(u := ks)) v) = {}" if "t < n" "v < n" "t \<noteq> v" for t v
    using table_parts(3) [OF t that(1,2,3)] new(3) [OF that(1)] new(3) [OF that(2)] that(3)
    by (cases "t = u"; cases "v = u") (simp_all add: Int_commute)
  ultimately show ?thesis unfolding table_def by blast
qed

lemma table_push:
  assumes t: "table s n head B" and u: "u < n" and k: "ok s k" "k \<noteq> nil" "\<And>t. t < n \<Longrightarrow> k \<notin> set (B t)" "set_nx k (head u) s = Some s'"
  shows "table s' n (head(u := k)) (B(u := k # B u))"
proof (rule table_update [OF t])
  show "chain s' (head t) (B t)" if "t < n" "t \<noteq> u" for t
    using chain_write [OF table_parts(1) [OF t that(1)] k(1) k(3) [OF that(1)] k(4)] .
  show "chain s' k (k # B u)" using chain_push [OF table_parts(1) [OF t u] k(1) k(3) [OF u] k(2,4)] .
  show "distinct (k # B u)" using table_parts(2) [OF t u] k(3) [OF u] by simp
  show "set (B v) \<inter> set (k # B u) = {}" if "v < n" "v \<noteq> u" for v
    using table_parts(3) [OF t that(1) u that(2)] k(3) [OF that(1)] by auto
qed

lemma table_pop:
  assumes t: "table s n head B" and u: "u < n" and B: "B u = k # ks" "nx s k = Some y"
  shows "table s n (head(u := y)) (B(u := ks))"
proof (rule table_update [OF t])
  show "chain s (head t) (B t)" if "t < n" for t by (rule table_parts(1) [OF t that])
  show "chain s y ks" using table_parts(1) [OF t u] B by simp
  show "distinct ks" using table_parts(2) [OF t u] B by simp
  show "set (B v) \<inter> set ks = {}" if "v < n" "v \<noteq> u" for v using table_parts(3) [OF t that(1) u that(2)] B by auto
qed

lemma table_cut:
  assumes t: "table s n head B" and u: "u < n" and B: "B u = xs @ p # k # ys" "nx s k = Some y" "set_nx p y s = Some s'"
  shows "table s' n head (B(u := xs @ p # ys))"
proof -
  have p: "ok s p" using chain_ok [OF table_parts(1) [OF t u]] B(1) by simp
  have "table s' n (head(u := head u)) (B(u := xs @ p # ys))"
  proof (rule table_update [OF t])
    show "chain s' (head t) (B t)" if "t < n" "t \<noteq> u" for t
      using chain_write [OF table_parts(1) [OF t that(1)] p _ B(3)] table_parts(3) [OF t that(1) u that(2)] B(1) by auto
    show "chain s' (head u) (xs @ p # ys)" using chain_cut [of s "head u" xs p k ys y s'] table_parts(1,2) [OF t u] B by simp
    show "distinct (xs @ p # ys)" using table_parts(2) [OF t u] B(1) by auto
    show "set (B v) \<inter> set (xs @ p # ys) = {}" if "v < n" "v \<noteq> u" for v using table_parts(3) [OF t that(1) u that(2)] B(1) by auto
  qed
  then show ?thesis by simp
qed

end

section \<open>Slots are in range\<close>

lemma slot_with_range: "slot_with f h key = Some v \<Longrightarrow> v < unat (hh_size h)"
proof -
  have "unat (w mod hh_size h) < unat (hh_size h)" if "hh_size h \<noteq> 0" for w
    using that by (simp add: unat_mod unat_gt_0)
  then show "slot_with f h key = Some v \<Longrightarrow> v < unat (hh_size h)"
    by (auto simp: slot_with_def bind_eq_Some_conv split: if_splits)
qed

text \<open>A key has a slot when the table has buckets and the key is complete.\<close>

definition key_complete :: "hash_t \<Rightarrow> byte list \<Rightarrow> bool" where
  "key_complete h key \<longleftrightarrow>
     (if hh_fixedsize h \<noteq> 0 then unat (hh_fixedsize h) \<le> length key
      else key \<noteq> [] \<and> unat (hd key) \<le> length (tl key))"

lemma slot_with_Some: "hh_size h \<noteq> 0 \<Longrightarrow> key_complete h key \<Longrightarrow> \<exists>v. slot_with f h key = Some v"
proof -
  assume h: "hh_size h \<noteq> 0" and k: "key_complete h key"
  obtain n k' where "key_part h key = Some (n, k')"
    using k by (cases key) (auto simp: key_part_def key_complete_def split: if_splits)
  then show ?thesis using h by (simp add: slot_with_def)
qed

lemma init_buckets_nth: "init_buckets n b i = (if i < n then - 1 else b i)"
  by (induction n) auto

end
