(* ===== verification/Cache_Hash.thy ===== *)
theory Cache_Hash
  imports Ng_Info Hash_Table
begin

text \<open>
  The hash chains of the buffer pool (\<open>cache/buffer_pool.cc\<close>): nodes of the node manager, chained
  into the buckets through their attribute \<open>next_node_id\<close>, with the switch from one hash function
  to the other while the pool is in use. The pool is a record of the node memory, the hash, the
  key at each data handle, and the pool's own flags and counters. \<open>None\<close> is an access through an
  invalid node, or a chain that does not end.
\<close>

section \<open>The pool\<close>

record pool =
  mem :: world
  hash :: hash_t
  targetNewHash :: bool
  hashChanging :: bool
  statFreeBucket :: int
  keySize :: nat
  chunk_key :: "u64 \<Rightarrow> byte list option"

definition nd_next_id :: "world \<Rightarrow> node \<Rightarrow> u32 option" where
  "nd_next_id w n = (case n of NoNode \<Rightarrow> None | Nd h i \<Rightarrow> do { s \<leftarrow> sets w h; Some (next_node_id s i) })"

definition set_next_id :: "node \<Rightarrow> u32 \<Rightarrow> world \<Rightarrow> world option" where
  "set_next_id n v w =
     (case n of NoNode \<Rightarrow> None | Nd h i \<Rightarrow> upd_set h (\<lambda>s. s\<lparr>next_node_id := (next_node_id s)(i := v)\<rparr>) w)"

definition next_in_chain :: "world \<Rightarrow> node \<Rightarrow> node option" where
  "next_in_chain w nd = do { i \<leftarrow> nd_next_id w nd; Search w i }"

definition nd_handle :: "world \<Rightarrow> node \<Rightarrow> u64 option" where
  "nd_handle w n = (case n of NoNode \<Rightarrow> None | Nd h i \<Rightarrow> do { s \<leftarrow> sets w h; Some (vd_handle s i) })"

definition slot_of :: "bool \<Rightarrow> byte list \<Rightarrow> pool \<Rightarrow> nat option" where
  "slot_of newhash key p = (if newhash then new_hash_slot (hash p) key else hash_slot (hash p) key)"

section \<open>Operations\<close>

definition Insert2Hash :: "byte list \<Rightarrow> node \<Rightarrow> pool \<Rightarrow> (int \<times> pool) option" where
  "Insert2Hash key nd p =
     do { hashslot \<leftarrow> slot_of (targetNewHash p) key p;
          let p1 = (if hash2_node (hash p) hashslot = INVALID_NODE_ID
                    then p\<lparr>hash := inc_free_bucket (- 1) (hash p), statFreeBucket := statFreeBucket p - 1\<rparr> else p);
          let p2 = p1\<lparr>hash := inc_node_cnt 1 (hash p1)\<rparr>;
          w \<leftarrow> set_next_id nd (hash2_node (hash p2) hashslot) (mem p2);
          nid \<leftarrow> node_id w nd;
          Some (0, p2\<lparr>mem := w, hash := set_bucket hashslot nid (hash p2)\<rparr>) }"

text \<open>The loop that looks for the node, with its predecessor.\<close>

partial_function (option) remove_loop :: "world \<Rightarrow> u32 \<Rightarrow> node \<Rightarrow> node \<Rightarrow> (node \<times> node) option" where
  "remove_loop w target prev next =
     (if next = NoNode then Some (prev, next)
      else do { nid \<leftarrow> node_id w next;
                if nid = target then Some (prev, next)
                else do { n \<leftarrow> next_in_chain w next; remove_loop w target next n } })"

definition remove_from_hash_base :: "byte list \<Rightarrow> node \<Rightarrow> bool \<Rightarrow> pool \<Rightarrow> (int \<times> pool) option" where
  "remove_from_hash_base key nd newhash p =
     do { slot \<leftarrow> slot_of newhash key p;
          let nid = hash2_node (hash p) slot;
          if nid = INVALID_NODE_ID then Some (0, p)
          else do {
            target \<leftarrow> node_id (mem p) nd;
            if nid = target then
              do { i \<leftarrow> nd_next_id (mem p) nd;
                   let p1 = p\<lparr>hash := set_bucket slot i (hash p)\<rparr>;
                   let p2 = (if i = INVALID_NODE_ID
                             then p1\<lparr>hash := inc_free_bucket 1 (hash p1), statFreeBucket := statFreeBucket p1 + 1\<rparr> else p1);
                   Some (0, p2\<lparr>hash := inc_node_cnt (- 1) (hash p2)\<rparr>) }
            else
              do { prev \<leftarrow> Search (mem p) nid;
                   next \<leftarrow> next_in_chain (mem p) prev;
                   (prev, next) \<leftarrow> remove_loop (mem p) target prev next;
                   if next \<noteq> NoNode then
                     do { j \<leftarrow> nd_next_id (mem p) next;
                          w \<leftarrow> set_next_id prev j (mem p);
                          Some (0, p\<lparr>mem := w, hash := inc_node_cnt (- 1) (hash p)\<rparr>) }
                   else Some (- 1, p) } } }"

definition remove_from_hash :: "byte list \<Rightarrow> node \<Rightarrow> pool \<Rightarrow> (int \<times> pool) option" where
  "remove_from_hash key nd p =
     (if hashChanging p then
        do { (_, p1) \<leftarrow> remove_from_hash_base key nd True p;
             (_, p2) \<leftarrow> remove_from_hash_base key nd False p1;
             Some (0, p2) }
      else do { (_, p1) \<leftarrow> remove_from_hash_base key nd (targetNewHash p) p; Some (0, p1) })"

definition move_to_new_hash :: "byte list \<Rightarrow> node \<Rightarrow> pool \<Rightarrow> (int \<times> pool) option" where
  "move_to_new_hash key nd p =
     do { (_, p1) \<leftarrow> remove_from_hash key nd p; (_, p2) \<leftarrow> Insert2Hash key nd p1; Some (0, p2) }"

definition key_cmp :: "pool \<Rightarrow> byte list \<Rightarrow> byte list \<Rightarrow> int" where
  "key_cmp p key other =
     (let len = (if keySize p = 0 then unat (hd key) + 1 else keySize p) in memcmp key other len)"

text \<open>Out of the hash, out of its list, and back to its group. The notifier that is told about it
  does not touch the pool.\<close>

definition purge_node :: "byte list \<Rightarrow> node \<Rightarrow> pool \<Rightarrow> (int \<times> pool) option" where
  "purge_node key nd p =
     do { (_, p1) \<leftarrow> remove_from_hash key nd p;
          w1 \<leftarrow> remove_from_lru nd (mem p1);
          w2 \<leftarrow> release_node nd w1;
          Some (0, p1\<lparr>mem := w2\<rparr>) }"

text \<open>The key of a node's data, when its handle leads to data with a key.\<close>

definition node_key :: "pool \<Rightarrow> node \<Rightarrow> byte list option option" where
  "node_key p nd = do { h \<leftarrow> nd_handle (mem p) nd; Some (if h = INVALID_HANDLE then None else chunk_key p h) }"

partial_function (option) find_loop :: "byte list \<Rightarrow> node \<Rightarrow> pool \<Rightarrow> (node \<times> pool) option" where
  "find_loop key iter p =
     (if iter = NoNode then Some (NoNode, p)
      else do { k \<leftarrow> node_key p iter;
                case k of
                  None \<Rightarrow> do { n \<leftarrow> next_in_chain (mem p) iter; (_, p1) \<leftarrow> purge_node key iter p; find_loop key n p1 }
                | Some other \<Rightarrow>
                    if key_cmp p key other = 0 then Some (iter, p)
                    else do { n \<leftarrow> next_in_chain (mem p) iter; find_loop key n p } })"

definition cache_find :: "byte list \<Rightarrow> bool \<Rightarrow> pool \<Rightarrow> (node \<times> pool) option" where
  "cache_find key newhash p =
     do { slot \<leftarrow> slot_of newhash key p;
          let nid = hash2_node (hash p) slot;
          if nid = INVALID_NODE_ID then Some (NoNode, p)
          else do { iter \<leftarrow> Search (mem p) nid; find_loop key iter p } }"

definition cache_find_auto_chose_hash :: "byte list \<Rightarrow> pool \<Rightarrow> (node \<times> pool) option" where
  "cache_find_auto_chose_hash key p =
     (if hashChanging p then
        do { let oldhash = \<not> targetNewHash p; let newhash = targetNewHash p;
             (stNode, p1) \<leftarrow> cache_find key oldhash p;
             if stNode = NoNode then cache_find key newhash p1
             else do { (_, p2) \<leftarrow> move_to_new_hash key stNode p1; Some (stNode, p2) } }
      else cache_find key (targetNewHash p) p)"

section \<open>Nodes as a store of links\<close>

text \<open>Worlds that differ in the attribute \<open>next_node_id\<close> only.\<close>

definition no_next :: "node_set \<Rightarrow> node_set" where
  "no_next s = s\<lparr>next_node_id := (\<lambda>_. 0)\<rparr>"

definition strip_next :: "world \<Rightarrow> world" where
  "strip_next w = w\<lparr>sets := (\<lambda>h. map_option no_next (sets w h))\<rparr>"

lemma strip_next_sets: "sets (strip_next w) h = map_option no_next (sets w h)"
  by (simp add: strip_next_def)

lemma bind_no_next: "(\<And>s. f (no_next s) = f s) \<Longrightarrow> map_option no_next x \<bind> f = x \<bind> f"
  by (cases x) auto

lemma no_next_simps [simp]:
  "ng_nid (no_next s) = ng_nid s" "vd_handle (no_next s) = vd_handle s" "ns_node_id (no_next s) i = ns_node_id s i"
  by (simp_all add: no_next_def ns_node_id_def)

lemma strip_next_same: "Search (strip_next w) i = Search w i" "node_id (strip_next w) n = node_id w n"
  "nd_handle (strip_next w) n = nd_handle w n"
proof -
  have "fi_h (strip_next w) = fi_h w" "seconds (strip_next w) = seconds w" by (simp_all add: strip_next_def)
  then show "Search (strip_next w) i = Search w i" by (simp add: Search_def strip_next_sets bind_no_next cong: if_cong)
  show "node_id (strip_next w) n = node_id w n" "nd_handle (strip_next w) n = nd_handle w n"
    by (cases n; simp add: node_id_def nd_handle_def strip_next_sets bind_no_next)+
qed

lemma strip_next_eq:
  assumes "strip_next w' = strip_next w"
  shows "Search w' i = Search w i" "node_id w' n = node_id w n" "nd_handle w' n = nd_handle w n" "valid_id w' i = valid_id w i"
    "indexed w' n i = indexed w n i"
proof -
  show s: "Search w' i = Search w i" and n: "node_id w' n = node_id w n" and "nd_handle w' n = nd_handle w n" for i n
    using strip_next_same [of w] strip_next_same [of w'] assms by metis+
  show "valid_id w' i = valid_id w i" "indexed w' n i = indexed w n i" by (simp_all add: valid_id_def indexed_def s n)
qed

definition hash_nx :: "world \<Rightarrow> u32 \<Rightarrow> u32 option" where
  "hash_nx w i = do { n \<leftarrow> Search w i; nd_next_id w n }"

definition hash_set_nx :: "u32 \<Rightarrow> u32 \<Rightarrow> world \<Rightarrow> world option" where
  "hash_set_nx i v w = do { n \<leftarrow> Search w i; set_next_id n v w }"

lemma set_next_effect:
  assumes "sets w h = Some s"
  shows "\<exists>w'. set_next_id (Nd h i) v w = Some w' \<and> strip_next w' = strip_next w \<and>
    sets w' = (sets w)(h \<mapsto> s\<lparr>next_node_id := (next_node_id s)(i := v)\<rparr>)"
proof -
  let ?w = "w\<lparr>sets := (sets w)(h \<mapsto> s\<lparr>next_node_id := (next_node_id s)(i := v)\<rparr>)\<rparr>"
  have "(\<lambda>j. map_option no_next (sets ?w j)) = (\<lambda>j. map_option no_next (sets w j))"
    using assms by (intro ext) (simp add: no_next_def)
  then have "strip_next ?w = strip_next w" by (simp add: strip_next_def del: fun_upd_apply)
  then show ?thesis using assms by (simp add: set_next_id_def upd_set_def)
qed

interpretation hs: next_store hash_nx hash_set_nx valid_id INVALID_NODE_ID
proof
  fix w k v assume "valid_id w k"
  then obtain h i s where k: "Search w k = Some (Nd h i)" "sets w h = Some s" "ns_node_id s i = k" by (rule valid_idE)
  obtain w' where w': "set_next_id (Nd h i) v w = Some w'" "strip_next w' = strip_next w"
    "sets w' = (sets w)(h \<mapsto> s\<lparr>next_node_id := (next_node_id s)(i := v)\<rparr>)" using set_next_effect [OF k(2)] by blast
  have "hash_nx w' j = (if j = k then Some v else hash_nx w j)" if vj: "valid_id w j" for j
  proof -
    obtain h' i' s' where j: "Search w j = Some (Nd h' i')" "sets w h' = Some s'" using valid_idE [OF vj] by metis
    then show ?thesis using valid_id_other [OF k vj _ j(1)] k(1,2) w'(3) strip_next_eq(1) [OF w'(2)]
      by (cases "j = k"; cases "h' = h") (simp_all add: hash_nx_def nd_next_id_def)
  qed
  then show "\<exists>s'. hash_set_nx k v w = Some s' \<and> (\<forall>j. valid_id s' j = valid_id w j) \<and>
      (\<forall>j. valid_id w j \<longrightarrow> hash_nx s' j = (if j = k then Some v else hash_nx w j))"
    using w'(1) k(1) strip_next_eq(4) [OF w'(2)] by (simp add: hash_set_nx_def)
qed

lemma hash_set_strip: "hash_set_nx i v w = Some w' \<Longrightarrow> strip_next w' = strip_next w"
proof -
  assume "hash_set_nx i v w = Some w'"
  then obtain n where n: "Search w i = Some n" "set_next_id n v w = Some w'" by (auto simp: hash_set_nx_def bind_eq_Some_conv)
  then obtain h j s where "n = Nd h j" "sets w h = Some s"
    by (cases n) (auto simp: set_next_id_def upd_set_def bind_eq_Some_conv)
  then show ?thesis using set_next_effect [of w h s j v] n(2) by auto
qed

lemma hash_indexed:
  "indexed w n i \<Longrightarrow> hash_nx w i = nd_next_id w n" "indexed w n i \<Longrightarrow> hash_set_nx i v w = set_next_id n v w"
  "indexed w n i \<Longrightarrow> n \<noteq> NoNode"
  by (auto simp: indexed_def hash_nx_def hash_set_nx_def node_id_def)

section \<open>The table\<close>

definition hsize :: "pool \<Rightarrow> nat" where
  "hsize p = unat (hh_size (hash p))"

text \<open>The bucket lists of a pool, with the counters of free buckets and of chained nodes.\<close>

definition bucket_inv :: "pool \<Rightarrow> (nat \<Rightarrow> u32 list) \<Rightarrow> bool" where
  "bucket_inv p B \<longleftrightarrow> hs.table (mem p) (hsize p) (hh_buckets (hash p)) B \<and>
     hh_free (hash p) = word_of_nat (card {t. t < hsize p \<and> B t = []}) \<and>
     hh_node (hash p) = word_of_nat (\<Sum>t<hsize p. length (B t))"

text \<open>Everything but the chains is the same.\<close>

definition same_pool :: "pool \<Rightarrow> pool \<Rightarrow> bool" where
  "same_pool p p' \<longleftrightarrow> strip_next (mem p') = strip_next (mem p) \<and> hh_size (hash p') = hh_size (hash p) \<and>
     hh_fixedsize (hash p') = hh_fixedsize (hash p) \<and> targetNewHash p' = targetNewHash p \<and> hashChanging p' = hashChanging p \<and>
     keySize p' = keySize p \<and> chunk_key p' = chunk_key p"

lemma same_pool_refl [simp]: "same_pool p p"
  by (simp add: same_pool_def)

lemma same_pool_trans: "same_pool p q \<Longrightarrow> same_pool q r \<Longrightarrow> same_pool p r"
  by (simp add: same_pool_def)

lemma same_pool_facts:
  assumes "same_pool p p'"
  shows "slot_of b key p' = slot_of b key p" "key_cmp p' k1 k2 = key_cmp p k1 k2" "node_key p' n = node_key p n"
    "indexed (mem p') n i = indexed (mem p) n i" "hsize p' = hsize p" "targetNewHash p' = targetNewHash p" "hashChanging p' = hashChanging p"
proof -
  have e: "strip_next (mem p') = strip_next (mem p)" "hh_size (hash p') = hh_size (hash p)" "hh_fixedsize (hash p') = hh_fixedsize (hash p)"
    "keySize p' = keySize p" "chunk_key p' = chunk_key p" using assms by (simp_all add: same_pool_def)
  have kp: "key_part (hash p') key = key_part (hash p) key" by (simp add: key_part_def e)
  show "slot_of b key p' = slot_of b key p" by (simp add: slot_of_def new_hash_slot_def hash_slot_def slot_with_def kp e cong: if_cong)
  show "key_cmp p' k1 k2 = key_cmp p k1 k2" by (simp add: key_cmp_def e)
  show "node_key p' n = node_key p n" by (simp add: node_key_def e strip_next_eq(3) [OF e(1)] cong: if_cong)
  show "indexed (mem p') n i = indexed (mem p) n i" by (rule strip_next_eq(5) [OF e(1)])
  show "hsize p' = hsize p" "targetNewHash p' = targetNewHash p" "hashChanging p' = hashChanging p"
    using assms by (simp_all add: hsize_def same_pool_def)
qed

lemma slot_of_range: "slot_of b key p = Some u \<Longrightarrow> u < hsize p"
  using slot_with_range by (auto simp: slot_of_def new_hash_slot_def hash_slot_def hsize_def split: if_splits)

lemma indexed_not_invalid: "indexed w n i \<Longrightarrow> i \<noteq> INVALID_NODE_ID"
  by (auto simp: indexed_def Search_def node_id_def)

lemma Search_invalid [simp]: "Search w INVALID_NODE_ID = Some NoNode"
  by (simp add: Search_def)

lemma head_empty: "hs.table w n head B \<Longrightarrow> u < n \<Longrightarrow> head u = INVALID_NODE_ID \<longleftrightarrow> B u = []"
  using hs.table_parts(1) [of w n head B u] by (cases "B u") auto

text \<open>The counters when one bucket changes.\<close>

lemma count_free:
  fixes B :: "nat \<Rightarrow> 'a list"
  assumes "u < n"
  shows "card {t. t < n \<and> (B(u := ks)) t = []} + (if B u = [] then 1 else 0) = card {t. t < n \<and> B t = []} + (if ks = [] then 1 else 0)"
proof -
  let ?R = "{t. t < n \<and> t \<noteq> u \<and> B t = []}"
  have "card {t. t < n \<and> (C :: nat \<Rightarrow> 'a list) t = []} = card ?R + (if C u = [] then 1 else 0)" if "\<And>t. t \<noteq> u \<Longrightarrow> C t = B t" for C
  proof -
    have "t < n \<and> C t = [] \<longleftrightarrow> (if C u = [] then t = u \<or> t \<in> ?R else t \<in> ?R)" for t
      using assms that [of t] by (cases "t = u") auto
    then have "{t. t < n \<and> C t = []} = (if C u = [] then insert u ?R else ?R)" by auto
    then show ?thesis by simp
  qed
  from this [of B] this [of "B(u := ks)"] show ?thesis by simp
qed

lemma count_nodes:
  fixes B :: "nat \<Rightarrow> 'a list"
  assumes "u < n"
  shows "(\<Sum>t<n. length ((B(u := ks)) t)) + length (B u) = (\<Sum>t<n. length (B t)) + length ks"
proof -
  have "(\<Sum>t<n. length (C t)) = length (C u) + (\<Sum>t \<in> {..<n} - {u}. length (C t))" for C :: "nat \<Rightarrow> 'a list"
    using assms by (simp add: sum.remove [of "{..<n}" u])
  from this [of B] this [of "B(u := ks)"] show ?thesis by simp
qed

lemma word_count: "a + b = c + d \<Longrightarrow> word_of_nat a = (word_of_nat c + word_of_nat d - word_of_nat b :: u32)"
proof -
  assume "a + b = c + d"
  then have "(word_of_nat (a + b) :: u32) = word_of_nat (c + d)" by simp
  then show ?thesis by (simp add: algebra_simps)
qed

lemma Insert2Hash_ok:
  assumes inv: "bucket_inv p B" and nd: "indexed (mem p) nd i" and fresh: "\<And>t. t < hsize p \<Longrightarrow> i \<notin> set (B t)"
    and slot: "slot_of (targetNewHash p) key p = Some u"
  obtains p' where "Insert2Hash key nd p = Some (0, p')" "bucket_inv p' (B(u := i # B u))" "same_pool p p'"
proof -
  have u: "u < hsize p" using slot_of_range [OF slot] .
  have t: "hs.table (mem p) (hsize p) (hh_buckets (hash p)) B" using inv by (simp add: bucket_inv_def)
  have i: "valid_id (mem p) i" "i \<noteq> INVALID_NODE_ID" using indexed_valid [OF nd] indexed_not_invalid [OF nd] by simp_all
  let ?head = "hh_buckets (hash p) u"
  obtain w where w: "hash_set_nx i ?head (mem p) = Some w" using hs.set_nx [OF i(1)] by blast
  have sn: "strip_next w = strip_next (mem p)" by (rule hash_set_strip [OF w])
  have wn: "set_next_id nd ?head (mem p) = Some w" "node_id w nd = Some i"
    using w hash_indexed(2) [OF nd] strip_next_eq(2) [OF sn] indexed_id [OF nd] by simp_all
  have tab: "hs.table w (hsize p) ((hh_buckets (hash p))(u := i)) (B(u := i # B u))"
    by (rule hs.table_push [OF t u i fresh w])
  define p' where "p' = (let p1 = (if ?head = INVALID_NODE_ID
                    then p\<lparr>hash := inc_free_bucket (- 1) (hash p), statFreeBucket := statFreeBucket p - 1\<rparr> else p);
          p2 = p1\<lparr>hash := inc_node_cnt 1 (hash p1)\<rparr> in p2\<lparr>mem := w, hash := set_bucket u i (hash p2)\<rparr>)"
  have ins: "Insert2Hash key nd p = Some (0, p')"
    using slot wn by (cases "?head = INVALID_NODE_ID") (simp_all add: Insert2Hash_def hash2_node_def p'_def Let_def inc_free_bucket_def inc_node_cnt_def)
  have f: "mem p' = w" "hh_size (hash p') = hh_size (hash p)" "hh_fixedsize (hash p') = hh_fixedsize (hash p)"
    "hh_buckets (hash p') = (hh_buckets (hash p))(u := i)" "hh_node (hash p') = hh_node (hash p) + 1"
    "hh_free (hash p') = hh_free (hash p) - (if ?head = INVALID_NODE_ID then 1 else 0)"
    "targetNewHash p' = targetNewHash p" "hashChanging p' = hashChanging p" "keySize p' = keySize p" "chunk_key p' = chunk_key p"
    by (simp_all add: p'_def Let_def inc_free_bucket_def inc_node_cnt_def set_bucket_def)
  have hs: "hsize p' = hsize p" using f by (simp add: hsize_def)
  have "bucket_inv p' (B(u := i # B u))"
    unfolding bucket_inv_def hs f(1,4)
    using tab f(5,6) inv word_count [OF count_free [OF u, of B "i # B u"]] word_count [OF count_nodes [OF u, of B "i # B u"]]
      head_empty [OF t u]
    by (simp add: bucket_inv_def)
  then show thesis using that ins sn f by (simp add: same_pool_def)
qed

section \<open>Walking a chain\<close>

lemma next_indexed:
  assumes "indexed w nd a" "hash_nx w a = Some y"
  shows "next_in_chain w nd = Search w y" "nd_next_id w nd = Some y"
  using assms hash_indexed(1) [OF assms(1)] by (simp_all add: next_in_chain_def)

lemma chain_cases:
  assumes "hs.chain w y ys"
  obtains "ys = []" "Search w y = Some NoNode" | x zs n z where "ys = x # zs" "y = x" "indexed w n x" "Search w y = Some n" "hash_nx w x = Some z" "hs.chain w z zs"
proof (cases ys)
  case Nil
  then show thesis using that(1) assms by simp
next
  case (Cons x zs)
  then obtain z where z: "y = x" "valid_id w x" "hash_nx w x = Some z" "hs.chain w z zs" using assms by auto
  obtain n where n: "indexed w n x" using valid_indexed [OF z(2)] by blast
  then show thesis using that(2) [OF Cons z(1) n _ z(3,4)] z(1) by (simp add: indexed_def)
qed

lemma remove_loop_spec:
  assumes "indexed w prev a" "hash_nx w a = Some y" "hs.chain w y ys" "Search w y = Some next"
  shows "if target \<in> set ys
    then \<exists>xs zs prev' n. ys = xs @ target # zs \<and> remove_loop w target prev next = Some (prev', n) \<and>
           indexed w prev' (last (a # xs)) \<and> indexed w n target
    else \<exists>prev'. remove_loop w target prev next = Some (prev', NoNode)"
  using assms
proof (induction ys arbitrary: prev a y "next")
  case Nil
  then have "next = NoNode" by simp
  then show ?case by (subst remove_loop.simps) simp
next
  case (Cons x ys)
  obtain n z where n: "indexed w n x" "y = x" "hash_nx w x = Some z" "hs.chain w z ys"
    using chain_cases [OF Cons.prems(3)] by (metis list.inject list.simps(3))
  have nx: "next = n" using Cons.prems(4) n by (simp add: indexed_def)
  obtain m where m: "Search w z = Some m" using chain_cases [OF n(4)] by metis
  have step: "remove_loop w target prev next = (if x = target then Some (prev, n) else remove_loop w target n m)"
    using nx n(1) m next_indexed(1) [OF n(1,3)] hash_indexed(3) [OF n(1)] indexed_id [OF n(1)]
    by (subst remove_loop.simps) simp
  show ?case
  proof (cases "x = target")
    case True
    then have "remove_loop w target prev next = Some (prev, n)" using step by simp
    then show ?thesis using True n(1) Cons.prems(1) by (auto intro!: exI [of _ "[]"])
  next
    case False
    note IH = Cons.IH [OF n(1,3,4) m]
    show ?thesis
    proof (cases "target \<in> set ys")
      case True
      then obtain xs zs prev' k where xs: "ys = xs @ target # zs" "remove_loop w target n m = Some (prev', k)"
        "indexed w prev' (last (x # xs))" "indexed w k target" using IH by auto
      have "x # ys = (x # xs) @ target # zs" "remove_loop w target prev next = Some (prev', k)" "indexed w prev' (last (a # x # xs))"
        using xs step False by simp_all
      then show ?thesis using xs(4) True by (metis list.set_intros(2))
    next
      case notin: False
      then show ?thesis using IH False step by auto
    qed
  qed
qed

lemma remove1_middle: "i \<notin> set xs \<Longrightarrow> remove1 i (xs @ i # ys) = xs @ ys"
  by (simp add: remove1_append)

lemma remove_base_ok:
  assumes inv: "bucket_inv p B" and nd: "indexed (mem p) nd i" and slot: "slot_of newhash key p = Some u"
  obtains r p' where "remove_from_hash_base key nd newhash p = Some (r, p')" "bucket_inv p' (B(u := remove1 i (B u)))"
    "same_pool p p'" "r = (if B u = [] \<or> i \<in> set (B u) then 0 else - 1)"
proof -
  have u: "u < hsize p" using slot_of_range [OF slot] .
  have t: "hs.table (mem p) (hsize p) (hh_buckets (hash p)) B" using inv by (simp add: bucket_inv_def)
  note c = hs.table_parts(1,2) [OF t u]
  have id: "node_id (mem p) nd = Some i" by (rule indexed_id [OF nd])
  show thesis
  proof (rule chain_cases [OF c(1)])
    assume "B u = []"
    then have "hh_buckets (hash p) u = INVALID_NODE_ID" using head_empty [OF t u] by simp
    then have "remove_from_hash_base key nd newhash p = Some (0, p)" using slot by (simp add: remove_from_hash_base_def hash2_node_def)
    then show thesis using that [of 0 p] inv \<open>B u = []\<close> by (simp add: fun_upd_idem)
  next
    fix x zs n z assume x: "B u = x # zs" "hh_buckets (hash p) u = x" "indexed (mem p) n x" "Search (mem p) (hh_buckets (hash p) u) = Some n"
      "hash_nx (mem p) x = Some z" "hs.chain (mem p) z zs"
    have xi: "x \<noteq> INVALID_NODE_ID" using indexed_not_invalid [OF x(3)] .
    show thesis
    proof (cases "x = i")
      case True
      have nz: "nd_next_id (mem p) nd = Some z" using next_indexed(2) [of "mem p" nd i z] nd x(5) True by simp
      have zs: "z = INVALID_NODE_ID \<longleftrightarrow> zs = []" using x(6) by (cases zs) auto
      define p' where "p' = (let p1 = p\<lparr>hash := set_bucket u z (hash p)\<rparr>;
           p2 = (if z = INVALID_NODE_ID then p1\<lparr>hash := inc_free_bucket 1 (hash p1), statFreeBucket := statFreeBucket p1 + 1\<rparr> else p1)
           in p2\<lparr>hash := inc_node_cnt (- 1) (hash p2)\<rparr>)"
      have rem: "remove_from_hash_base key nd newhash p = Some (0, p')"
        using slot nz id x(2) xi True by (simp add: remove_from_hash_base_def hash2_node_def p'_def Let_def)
      have f: "mem p' = mem p" "hh_size (hash p') = hh_size (hash p)" "hh_fixedsize (hash p') = hh_fixedsize (hash p)"
        "hh_buckets (hash p') = (hh_buckets (hash p))(u := z)" "hh_node (hash p') = hh_node (hash p) - 1"
        "hh_free (hash p') = hh_free (hash p) + (if z = INVALID_NODE_ID then 1 else 0)"
        "targetNewHash p' = targetNewHash p" "hashChanging p' = hashChanging p" "keySize p' = keySize p" "chunk_key p' = chunk_key p"
        by (simp_all add: p'_def Let_def inc_free_bucket_def inc_node_cnt_def set_bucket_def)
      have hs: "hsize p' = hsize p" using f by (simp add: hsize_def)
      have tab: "hs.table (mem p) (hsize p) ((hh_buckets (hash p))(u := z)) (B(u := zs))" by (rule hs.table_pop [OF t u x(1,5)])
      have "bucket_inv p' (B(u := zs))" unfolding bucket_inv_def hs f(1,4)
        using tab f(5,6) inv word_count [OF count_free [OF u, of B zs]] word_count [OF count_nodes [OF u, of B zs]] zs x(1)
        by (simp add: bucket_inv_def)
      moreover have "same_pool p p'" using f by (simp add: same_pool_def)
      ultimately show thesis using that [OF rem] x(1) True by simp
    next
      case False
      obtain m where m: "Search (mem p) z = Some m" using chain_cases [OF x(6)] by metis
      have nn: "next_in_chain (mem p) n = Some m" using next_indexed(1) [OF x(3,5)] m by simp
      note spec = remove_loop_spec [OF x(3,5,6) m, of i]
      show thesis
      proof (cases "i \<in> set zs")
        case True
        then obtain xs ys prev k where k: "zs = xs @ i # ys" "remove_loop (mem p) i n m = Some (prev, k)"
          "indexed (mem p) prev (last (x # xs))" "indexed (mem p) k i" using spec by auto
        have kn: "k = nd" using k(4) nd by (simp add: indexed_def)
        let ?q = "last (x # xs)" and ?as = "butlast (x # xs)"
        have B: "B u = ?as @ ?q # i # ys" using x(1) k(1) append_butlast_last_id [of "x # xs"] by (metis append.assoc append_Cons append_Nil list.discI)
        have q: "valid_id (mem p) ?q" using indexed_valid [OF k(3)] .
        obtain y where y: "hash_nx (mem p) i = Some y" using hs.chain_next [OF c(1)] B by (metis in_set_conv_decomp append.assoc append_Cons append_Nil)
        obtain w where w: "hash_set_nx ?q y (mem p) = Some w" using hs.set_nx [OF q] by blast
        have sn: "strip_next w = strip_next (mem p)" by (rule hash_set_strip [OF w])
        define p' where "p' = p\<lparr>mem := w, hash := inc_node_cnt (- 1) (hash p)\<rparr>"
        have rem: "remove_from_hash_base key nd newhash p = Some (0, p')"
          using slot id x(2,4) xi False nn k(2) kn hash_indexed(2) [OF k(3), of y] w next_indexed(2) [OF nd y] hash_indexed(3) [OF nd]
          by (simp add: remove_from_hash_base_def hash2_node_def p'_def)
        have "remove1 i (B u) = ?as @ ?q # ys"
        proof -
          have ni: "i \<notin> set (?as @ [?q])" using c(2) B by auto
          have "B u = (?as @ [?q]) @ i # ys" using B by simp
          then have "remove1 i (B u) = (?as @ [?q]) @ ys" using remove1_middle [OF ni, of ys] by (simp only:)
          then show ?thesis by simp
        qed
        moreover have hs: "hsize p' = hsize p" by (simp add: hsize_def p'_def inc_node_cnt_def)
        have tab: "hs.table w (hsize p) (hh_buckets (hash p)) (B(u := ?as @ ?q # ys))" by (rule hs.table_cut [OF t u B y w])
        have f: "mem p' = w" "hh_buckets (hash p') = hh_buckets (hash p)" "hh_free (hash p') = hh_free (hash p)" "hh_node (hash p') = hh_node (hash p) - 1"
          by (simp_all add: p'_def inc_node_cnt_def)
        have len: "length (B u) = Suc (length (?as @ ?q # ys))" "B u \<noteq> []" using B by simp_all
        have "bucket_inv p' (B(u := ?as @ ?q # ys))" unfolding bucket_inv_def hs f
          using tab inv word_count [OF count_free [OF u, of B "?as @ ?q # ys"]] word_count [OF count_nodes [OF u, of B "?as @ ?q # ys"]] len
          by (simp add: bucket_inv_def del: last.simps butlast.simps)
        moreover have "same_pool p p'" using sn by (simp add: same_pool_def p'_def inc_node_cnt_def)
        moreover have "i \<in> set (B u)" using True x(1) by simp
        ultimately show thesis using that [OF rem] by simp
      next
        case notin: False
        then obtain prev where "remove_loop (mem p) i n m = Some (prev, NoNode)" using spec by auto
        then have "remove_from_hash_base key nd newhash p = Some (- 1, p)"
          using slot id x(2,4) xi False nn by (simp add: remove_from_hash_base_def hash2_node_def)
        moreover have "remove1 i (B u) = B u" using x(1) False notin by (simp add: remove1_idem)
        ultimately show thesis using that [of "- 1" p] inv x(1) False notin by (simp add: fun_upd_idem)
      qed
    qed
  qed
qed

section \<open>Finding\<close>

text \<open>The key of the node with an id, and the first node of a bucket with a key.\<close>

definition id_key :: "pool \<Rightarrow> u32 \<Rightarrow> byte list option" where
  "id_key p i = (case Search (mem p) i of Some n \<Rightarrow> (case node_key p n of Some (Some k) \<Rightarrow> Some k | _ \<Rightarrow> None) | None \<Rightarrow> None)"

definition matches :: "pool \<Rightarrow> byte list \<Rightarrow> u32 \<Rightarrow> bool" where
  "matches p key i \<longleftrightarrow> (\<exists>k. id_key p i = Some k \<and> key_cmp p key k = 0)"

definition found :: "pool \<Rightarrow> byte list \<Rightarrow> u32 list \<Rightarrow> node" where
  "found p key xs = (case find (matches p key) xs of None \<Rightarrow> NoNode | Some i \<Rightarrow> the (Search (mem p) i))"

lemma find_loop_spec:
  assumes "hs.chain (mem p) y ys" "Search (mem p) y = Some iter" "\<forall>x \<in> set ys. id_key p x \<noteq> None"
  shows "find_loop key iter p = Some (found p key ys, p)"
  using assms
proof (induction ys arbitrary: y iter)
  case Nil
  then show ?case by (subst find_loop.simps) (simp add: found_def)
next
  case (Cons x ys)
  obtain n z where n: "indexed (mem p) n x" "y = x" "hash_nx (mem p) x = Some z" "hs.chain (mem p) z ys"
    using chain_cases [OF Cons.prems(1)] by (metis list.inject list.simps(3))
  have it: "iter = n" "Search (mem p) x = Some n" using Cons.prems(2) n by (simp_all add: indexed_def)
  obtain m where m: "Search (mem p) z = Some m" using chain_cases [OF n(4)] by metis
  obtain k where k: "id_key p x = Some k" using Cons.prems(3) by auto
  then have nk: "node_key p n = Some (Some k)" using it(2) by (auto simp: id_key_def split: option.splits)
  have nn: "next_in_chain (mem p) n = Some m" using next_indexed(1) [OF n(1,3)] m by simp
  have IH: "find_loop key m p = Some (found p key ys, p)" using Cons.IH [OF n(4) m] Cons.prems(3) by simp
  have mt: "matches p key x \<longleftrightarrow> key_cmp p key k = 0" using k by (simp add: matches_def)
  show ?case using it nk nn IH mt hash_indexed(3) [OF n(1)]
    by (subst find_loop.simps) (simp add: found_def)
qed

lemma cache_find_spec:
  assumes inv: "bucket_inv p B" and slot: "slot_of newhash key p = Some u" and keys: "\<forall>x \<in> set (B u). id_key p x \<noteq> None"
  shows "cache_find key newhash p = Some (found p key (B u), p)"
proof -
  have u: "u < hsize p" using slot_of_range [OF slot] .
  have t: "hs.table (mem p) (hsize p) (hh_buckets (hash p)) B" using inv by (simp add: bucket_inv_def)
  note c = hs.table_parts(1) [OF t u]
  show ?thesis
  proof (cases "B u = []")
    case True
    then show ?thesis using head_empty [OF t u] slot by (simp add: cache_find_def hash2_node_def found_def)
  next
    case False
    obtain n where n: "Search (mem p) (hh_buckets (hash p) u) = Some n" using chain_cases [OF c] by metis
    show ?thesis using False head_empty [OF t u] slot n find_loop_spec [OF c n keys] by (simp add: cache_find_def hash2_node_def)
  qed
qed

lemma id_key_same: "same_pool p p' \<Longrightarrow> id_key p' i = id_key p i"
proof -
  assume s: "same_pool p p'"
  then have "strip_next (mem p') = strip_next (mem p)" by (simp add: same_pool_def)
  from strip_next_eq(1) [OF this] have "Search (mem p') i = Search (mem p) i" .
  then show ?thesis using same_pool_facts(3) [OF s] by (cases "Search (mem p) i") (simp_all add: id_key_def)
qed

lemma found_same: "same_pool p p' \<Longrightarrow> found p' key xs = found p key xs"
proof -
  assume s: "same_pool p p'"
  then have "strip_next (mem p') = strip_next (mem p)" by (simp add: same_pool_def)
  note search = strip_next_eq(1) [OF this]
  have "matches p' key = matches p key"
    using id_key_same [OF s] same_pool_facts(2) [OF s] by (intro ext) (simp add: matches_def)
  then show ?thesis by (cases "find (matches p key) xs") (simp_all add: found_def search)
qed

section \<open>Properties\<close>

text \<open>With buckets in the table and a complete key, both slot functions return a bucket of the
  table.
\<close>

theorem slots_in_range:
  assumes "hh_size h \<noteq> 0" "key_complete h key"
  shows "(\<exists>v. new_hash_slot h key = Some v \<and> v < unat (hh_size h)) \<and> (\<exists>v. hash_slot h key = Some v \<and> v < unat (hh_size h))"
  using slot_with_Some [OF assms, of new_hash] slot_with_Some [OF assms, of "\<lambda>k size. old_hash_loop (take size k) 0"] slot_with_range
  unfolding new_hash_slot_def hash_slot_def by blast

text \<open>
  (C26) Putting a node that is in no bucket into the hash keeps the chains and the counters right
  and moves nothing else, and a search for the key of the node then returns that node.
\<close>

theorem insert_then_find:
  assumes "bucket_inv p B" "indexed (mem p) nd i" "\<forall>t < hsize p. i \<notin> set (B t)"
    and "slot_of (targetNewHash p) key p = Some u" "matches p key i" "\<forall>x \<in> set (B u). id_key p x \<noteq> None"
  shows "\<exists>p'. Insert2Hash key nd p = Some (0, p') \<and> bucket_inv p' (B(u := i # B u)) \<and> same_pool p p' \<and>
    cache_find key (targetNewHash p) p' = Some (nd, p')"
proof -
  obtain p' where p': "Insert2Hash key nd p = Some (0, p')" "bucket_inv p' (B(u := i # B u))" "same_pool p p'"
    using Insert2Hash_ok [OF assms(1,2) _ assms(4)] assms(3) by metis
  have "\<forall>x \<in> set ((B(u := i # B u)) u). id_key p' x \<noteq> None"
    using assms(5,6) id_key_same [OF p'(3)] by (auto simp: matches_def)
  then have "cache_find key (targetNewHash p) p' = Some (found p' key (i # B u), p')"
    using cache_find_spec [OF p'(2)] same_pool_facts(1) [OF p'(3)] assms(4) by simp
  moreover have "found p key (i # B u) = nd" using assms(2,5) by (simp add: found_def indexed_def)
  then have "found p' key (i # B u) = nd" using found_same [OF p'(3)] by simp
  ultimately show ?thesis using p' by auto
qed


text \<open>
  (C27) While the hash function is being changed, a search that meets the node under the old
  function returns it and moves it to its bucket under the new one, where the next search
  finds it; every other node stays where it is.
\<close>

theorem find_moves_to_new_hash:
  assumes inv: "bucket_inv p B" and ch: "hashChanging p"
    and slots: "slot_of (\<not> targetNewHash p) key p = Some old" "slot_of (targetNewHash p) key p = Some new" "old \<noteq> new"
    and nd: "indexed (mem p) nd i" "i \<in> set (B old)" "found p key (B old) = nd"
    and keys: "\<forall>x \<in> set (B old). id_key p x \<noteq> None"
  shows "\<exists>p'. cache_find_auto_chose_hash key p = Some (nd, p') \<and> same_pool p p' \<and>
    bucket_inv p' (B(old := remove1 i (B old), new := i # B new))"
proof -
  have t: "hs.table (mem p) (hsize p) (hh_buckets (hash p)) B" using inv by (simp add: bucket_inv_def)
  have old: "old < hsize p" "new < hsize p" using slot_of_range slots(1,2) by blast+
  have once: "distinct (B old)" "\<And>v. v < hsize p \<Longrightarrow> v \<noteq> old \<Longrightarrow> i \<notin> set (B v)"
    using hs.table_parts(2) [OF t old(1)] hs.table_parts(3) [OF t _ old(1)] nd(2) by auto
  have find: "cache_find key (\<not> targetNewHash p) p = Some (nd, p)" using cache_find_spec [OF inv slots(1) keys] nd(3) by simp
  define s1 where "s1 = (if targetNewHash p then new else old)"
  define s2 where "s2 = (if targetNewHash p then old else new)"
  have s: "slot_of True key p = Some s1" "slot_of False key p = Some s2" using slots(1,2) by (cases "targetNewHash p"; simp add: s1_def s2_def)+
  let ?B1 = "B(s1 := remove1 i (B s1))"
  obtain r1 p1 where p1: "remove_from_hash_base key nd True p = Some (r1, p1)" "bucket_inv p1 ?B1" "same_pool p p1"
    by (rule remove_base_ok [OF inv nd(1) s(1)])
  have nd1: "indexed (mem p1) nd i" "slot_of False key p1 = Some s2" using same_pool_facts(1,4) [OF p1(3)] nd(1) s(2) by simp_all
  let ?B2 = "?B1(s2 := remove1 i (?B1 s2))"
  obtain r2 p2 where p2: "remove_from_hash_base key nd False p1 = Some (r2, p2)" "bucket_inv p2 ?B2" "same_pool p1 p2"
    by (rule remove_base_ok [OF p1(2) nd1])
  have B2: "?B2 = B(old := remove1 i (B old))"
  proof -
    have "remove1 i (B new) = B new" using once(2) [OF old(2)] slots(3) by (simp add: remove1_idem)
    then show ?thesis using slots(3) by (auto simp: s1_def s2_def fun_eq_iff)
  qed
  have same: "same_pool p p2" by (rule same_pool_trans [OF p1(3) p2(3)])
  have rem: "remove_from_hash key nd p = Some (0, p2)" using ch p1(1) p2(1) by (simp add: remove_from_hash_def)
  have fresh: "i \<notin> set ((B(old := remove1 i (B old))) v)" if "v < hsize p2" for v
    using once that same_pool_facts(5) [OF same] by (cases "v = old") simp_all
  have "slot_of (targetNewHash p2) key p2 = Some new" "indexed (mem p2) nd i"
    using same_pool_facts(1,4,6) [OF same] slots(2) nd(1) by simp_all
  then obtain p3 where p3: "Insert2Hash key nd p2 = Some (0, p3)"
    "bucket_inv p3 ((B(old := remove1 i (B old)))(new := i # (B(old := remove1 i (B old))) new))" "same_pool p2 p3"
    using Insert2Hash_ok [OF p2(2) [unfolded B2] _ fresh] by metis
  have "cache_find_auto_chose_hash key p = Some (nd, p3)"
    using ch find rem p3(1) hash_indexed(3) [OF nd(1)] by (simp add: cache_find_auto_chose_hash_def move_to_new_hash_def Let_def)
  then show ?thesis using p3(2) slots(3) same_pool_trans [OF same p3(3)] by (intro exI [of _ p3]) simp
qed

section \<open>A small pool\<close>

text \<open>One group with data in every node, two buckets, and keys of three bytes.\<close>

definition one_group :: world where
  "one_group = (blank 1)\<lparr>fi_h := (\<lambda>_. 0)(0 := 4096), seconds := [4096 \<mapsto> empty_second\<lparr>si_h := (\<lambda>_. 0)(0 := 8192)\<rparr>],
     sets := [8192 \<mapsto> (ns_init 0)\<lparr>vd_handle := (\<lambda>_. 77)\<rparr>]\<rparr>"

definition small_pool :: "bool \<Rightarrow> pool" where
  "small_pool new = \<lparr>mem = one_group, hash = the (hash_Init True 2 3), targetNewHash = new, hashChanging = False,
     statFreeBucket = 2, keySize = 3, chunk_key = (\<lambda>_. Some [0, 0, 1])\<rparr>"

lemma one_group_indexed: "indexed one_group (Nd 8192 2) 2"
  by (simp add: indexed_def Search_def node_id_def one_group_def blank_def OFFSET1_def OFFSET2_def ns_init_def ns_node_id_def empty_second_def)

lemma small_pool_fields [simp]:
  "mem (small_pool b) = one_group" "hh_size (hash (small_pool b)) = 2" "hh_fixedsize (hash (small_pool b)) = 3"
  "hh_free (hash (small_pool b)) = 2" "hh_node (hash (small_pool b)) = 0" "hsize (small_pool b) = 2"
  "hh_buckets (hash (small_pool b)) t = (if t < 2 then - 1 else 0)" "targetNewHash (small_pool b) = b" "hashChanging (small_pool b) = False"
  by (simp_all add: small_pool_def hash_Init_def hsize_def init_buckets_nth)

lemma small_pool_inv: "bucket_inv (small_pool b) (\<lambda>_. [])"
  by (simp add: bucket_inv_def hs.table_def)

lemma small_hash:
  "new_hash [0, 0, 1] 3 = 1498719192" "old_hash_loop [0, 0, 1] 0 = 1"
proof -
  have "mix_round 13 8 13 (2654501305, 2654435769, 1213486150) = (3081693464, 819799131, 1607057466)"
    "mix_round 12 16 5 (3081693464, 819799131, 1607057466) = (655226911, 1377463298, 3828453241)"
    "mix_round 3 10 15 (655226911, 1377463298, 3828453241) = (3964128587, 2660508478, 1498719192)"
    by (simp_all add: mix_round_def)
  then have "mix (2654501305, 2654435769, 1213486150) = (3964128587, 2660508478, 1498719192)" by (simp add: mix_def)
  then show "new_hash [0, 0, 1] 3 = 1498719192" by (simp add: new_hash_def new_hash_loop.simps kc_def Let_def)
  show "old_hash_loop [0, 0, 1] 0 = 1" by simp
qed

lemma small_slots: "slot_of True [0, 0, 1] (small_pool b) = Some 0" "slot_of False [0, 0, 1] (small_pool b) = Some 1"
  using small_hash
  by (simp_all add: slot_of_def new_hash_slot_def hash_slot_def slot_with_def key_part_def)

lemma small_matches: "matches (small_pool b) [0, 0, 1] 2"
  using one_group_indexed
  by (simp add: matches_def id_key_def indexed_def node_key_def nd_handle_def key_cmp_def memcmp_def small_pool_def)
    (simp add: one_group_def)

theorem slots_in_range_witness:
  "(\<exists>v. new_hash_slot (hash (small_pool True)) [0, 0, 1] = Some v \<and> v < 2) \<and> (\<exists>v. hash_slot (hash (small_pool True)) [0, 0, 1] = Some v \<and> v < 2)"
  using slots_in_range [of "hash (small_pool True)" "[0, 0, 1]"] by (simp add: key_complete_def)

theorem insert_then_find_witness:
  "\<exists>p'. Insert2Hash [0, 0, 1] (Nd 8192 2) (small_pool True) = Some (0, p') \<and> bucket_inv p' ((\<lambda>_. [])(0 := [2])) \<and>
    same_pool (small_pool True) p' \<and> cache_find [0, 0, 1] True p' = Some (Nd 8192 2, p')"
  using insert_then_find [OF small_pool_inv, of True "Nd 8192 2" 2 "[0, 0, 1]" 0] one_group_indexed small_slots small_matches by simp

text \<open>The node in its bucket under the old function, while the change to the new one is under way.\<close>

definition changing_pool :: pool where
  "changing_pool = (snd (the (Insert2Hash [0, 0, 1] (Nd 8192 2) (small_pool False))))\<lparr>targetNewHash := True, hashChanging := True\<rparr>"

lemma changing_pool_inv:
  "bucket_inv changing_pool ((\<lambda>_. [])(1 := [2])) \<and> same_pool ((small_pool False)\<lparr>targetNewHash := True, hashChanging := True\<rparr>) changing_pool"
proof -
  obtain p' where p': "Insert2Hash [0, 0, 1] (Nd 8192 2) (small_pool False) = Some (0, p')"
    "bucket_inv p' ((\<lambda>_. [])(1 := 2 # []))" "same_pool (small_pool False) p'"
    using Insert2Hash_ok [OF small_pool_inv, of False "Nd 8192 2" 2 "[0, 0, 1]" 1] one_group_indexed small_slots by auto
  then show ?thesis by (simp add: changing_pool_def bucket_inv_def hsize_def same_pool_def)
qed

theorem find_moves_to_new_hash_witness:
  "\<exists>p'. cache_find_auto_chose_hash [0, 0, 1] changing_pool = Some (Nd 8192 2, p') \<and> same_pool changing_pool p' \<and>
    bucket_inv p' ((\<lambda>_. [])(0 := [2]))"
proof -
  let ?q = "(small_pool False)\<lparr>targetNewHash := True, hashChanging := True\<rparr>"
  have inv: "bucket_inv changing_pool ((\<lambda>_. [])(1 := [2]))" and same: "same_pool ?q changing_pool" using changing_pool_inv by simp_all
  have q: "slot_of b [0, 0, 1] ?q = slot_of b [0, 0, 1] (small_pool False)" "indexed (mem ?q) (Nd 8192 2) 2" "matches ?q [0, 0, 1] 2" for b
  proof -
    have "node_key ?q = node_key (small_pool False)" by (rule ext) (simp add: node_key_def cong: if_cong)
    then have "id_key ?q = id_key (small_pool False)" by (intro ext) (simp add: id_key_def cong: option.case_cong)
    moreover have "key_cmp ?q = key_cmp (small_pool False)" by (intro ext) (simp add: key_cmp_def cong: if_cong)
    ultimately show "matches ?q [0, 0, 1] 2" using small_matches [of False] by (simp add: matches_def)
  qed (use one_group_indexed in \<open>simp_all add: slot_of_def\<close>)
  have fl: "hashChanging changing_pool" "targetNewHash changing_pool" using same by (simp_all add: same_pool_def)
  have slots: "slot_of True [0, 0, 1] changing_pool = Some 0" "slot_of False [0, 0, 1] changing_pool = Some 1"
    using same_pool_facts(1) [OF same] q(1) small_slots by simp_all
  have nd: "indexed (mem changing_pool) (Nd 8192 2) 2" using same_pool_facts(4) [OF same] q(2) by simp
  have k: "id_key changing_pool 2 \<noteq> None" using id_key_same [OF same] q(3) by (auto simp: matches_def)
  have "found ?q [0, 0, 1] [2] = Nd 8192 2" using q(2,3) by (simp add: found_def indexed_def)
  then have f: "found changing_pool [0, 0, 1] [2] = Nd 8192 2" using found_same [OF same] by simp
  have "(((\<lambda>_. [])(1 := [2]))(1 := remove1 2 [2], 0 := [2]) :: nat \<Rightarrow> u32 list) = (\<lambda>_. [])(0 := [2])" by (auto simp: fun_eq_iff)
  then show ?thesis
    using find_moves_to_new_hash [OF inv fl(1), of "[0, 0, 1]" 1 0 "Nd 8192 2" 2] fl slots nd k f by simp
qed


end
