(* ===== verification/Chunk_Memory.thy ===== *)
theory Chunk_Memory
  imports Prelude
begin

text \<open>
  Byte-addressed shared memory seen through the headers of memory chunks
  (\<open>cache/pt_malloc.h\<close>, \<open>MallocChunk\<close>): little-endian loads and stores, the four header
  fields as accessors, and the laws under which the fields of different chunks are
  independent. Addresses are offsets from the start of the memory.
\<close>

section \<open>Loads and stores\<close>

primrec ld :: "nat \<Rightarrow> memory \<Rightarrow> nat \<Rightarrow> nat" where
  "ld 0 m a = 0"
| "ld (Suc n) m a = unat (m a) + 256 * ld n m (Suc a)"

primrec st :: "nat \<Rightarrow> nat \<Rightarrow> nat \<Rightarrow> memory \<Rightarrow> memory" where
  "st 0 a v m = m"
| "st (Suc n) a v m = st n (Suc a) (v div 256) (m(a := word_of_nat v))"

lemma st_outside: "x < a \<or> a + n \<le> x \<Longrightarrow> st n a v m x = m x"
  by (induction n arbitrary: a v m) auto

lemma ld_cong: "(\<And>x. a \<le> x \<Longrightarrow> x < a + n \<Longrightarrow> m x = m' x) \<Longrightarrow> ld n m a = ld n m' a"
  by (induction n arbitrary: a) simp_all

lemma ld_st_same: "v < 256 ^ n \<Longrightarrow> ld n (st n a v m) a = v"
proof (induction n arbitrary: a v m)
  case (Suc n)
  have "ld n (st n (Suc a) (v div 256) (m(a := word_of_nat v))) (Suc a) = v div 256"
    using Suc.prems by (intro Suc.IH) (simp add: less_mult_imp_div_less mult.commute)
  moreover have "st n (Suc a) (v div 256) (m(a := word_of_nat v)) a = word_of_nat v"
    by (simp add: st_outside)
  ultimately show ?case by (simp add: unsigned_of_nat take_bit_eq_mod)
qed simp

lemma ld_st_other: "a + n \<le> b \<or> b + k \<le> a \<Longrightarrow> ld k (st n a v m) b = ld k m b"
  by (rule ld_cong) (auto intro: st_outside)

lemma ld_less: "ld n m a < 256 ^ n"
proof (induction n arbitrary: a)
  case (Suc n)
  have "unat (m a) < 256" using unsigned_less [of "m a"] by simp
  with Suc [of "Suc a"] show ?case by simp
qed simp

section \<open>The interface of a store of chunks\<close>

text \<open>
  What the allocator relies on: reading a field of a chunk after a write to a field of a chunk,
  for chunks far enough apart. A set of chunks with pairwise distance is a carrier on which the
  fields behave like independent variables.
\<close>

locale chunk_store =
  fixes get :: "'f \<Rightarrow> 'm \<Rightarrow> 'a \<Rightarrow> 'v"
    and put :: "'f \<Rightarrow> 'a \<Rightarrow> 'v \<Rightarrow> 'm \<Rightarrow> 'm"
    and fits :: "'f \<Rightarrow> 'v \<Rightarrow> bool"
    and apart :: "'a \<Rightarrow> 'a \<Rightarrow> bool"
  assumes get_same: "fits f v \<Longrightarrow> get g (put f a v m) a = (if g = f then v else get g m a)"
    and get_apart: "apart a b \<Longrightarrow> get g (put f a v m) b = get g m b"
begin

definition spaced :: "'a set \<Rightarrow> bool" where
  "spaced S \<longleftrightarrow> (\<forall>a \<in> S. \<forall>b \<in> S. a \<noteq> b \<longrightarrow> apart a b)"

lemma spaced_subset: "spaced S \<Longrightarrow> T \<subseteq> S \<Longrightarrow> spaced T"
  unfolding spaced_def by blast

lemma spacedD: "spaced S \<Longrightarrow> a \<in> S \<Longrightarrow> b \<in> S \<Longrightarrow> a = b \<or> apart a b"
  unfolding spaced_def by blast

lemma get_put:
  assumes "spaced S" "a \<in> S" "b \<in> S" "fits f v"
  shows "get g (put f a v m) b = (if g = f \<and> b = a then v else get g m b)"
  using spacedD [OF assms(1-3)] assms(4) get_same get_apart by auto

end

text \<open>
  Lists of chunks linked in both directions through two of the fields. Taking an element out
  and pushing one at the front write the fields of the neighbours only.
\<close>

locale linked_chunks = chunk_store +
  fixes fp fn :: 'a and ptr :: "'c \<Rightarrow> 'd" and nil :: 'd
  assumes two_fields: "fp \<noteq> fn" and fits_nil: "fits fp nil" "fits fn nil"
begin

definition ptr_first :: "'c list \<Rightarrow> 'd" where
  "ptr_first xs = (if xs = [] then nil else ptr (hd xs))"

definition ptr_last :: "'c list \<Rightarrow> 'd" where
  "ptr_last xs = (if xs = [] then nil else ptr (last xs))"

definition dll :: "'b \<Rightarrow> 'c list \<Rightarrow> bool" where
  "dll m xs \<longleftrightarrow> (\<forall>as x bs. xs = as @ x # bs \<longrightarrow> get fp m x = ptr_last as \<and> get fn m x = ptr_first bs)"

lemma dll_Nil [simp]: "dll m []"
  by (simp add: dll_def)

lemma dllD: "dll m (as @ x # bs) \<Longrightarrow> get fp m x = ptr_last as \<and> get fn m x = ptr_first bs"
  by (simp add: dll_def)

lemma dll_cong:
  assumes "dll m xs" "\<And>x. x \<in> set xs \<Longrightarrow> get fp m' x = get fp m x \<and> get fn m' x = get fn m x"
  shows "dll m' xs"
  using assms unfolding dll_def by auto

definition unlinked :: "'c list \<Rightarrow> 'c list \<Rightarrow> 'b \<Rightarrow> 'b" where
  "unlinked as bs m =
     (let m1 = (if as = [] then m else put fn (last as) (ptr_first bs) m)
      in if bs = [] then m1 else put fp (hd bs) (ptr_last as) m1)"

definition pushed :: "'c \<Rightarrow> 'c list \<Rightarrow> 'b \<Rightarrow> 'b" where
  "pushed h xs m =
     (let m1 = put fp h nil (put fn h (ptr_first xs) m)
      in if xs = [] then m1 else put fp (hd xs) (ptr h) m1)"

definition carrier :: "'c set \<Rightarrow> bool" where
  "carrier S \<longleftrightarrow> spaced S \<and> (\<forall>x \<in> S. fits fp (ptr x) \<and> fits fn (ptr x))"

lemma fits_ends: "carrier S \<Longrightarrow> set xs \<subseteq> S \<Longrightarrow> fits fp (ptr_last xs) \<and> fits fn (ptr_first xs) \<and> fits fn (ptr_last xs) \<and> fits fp (ptr_first xs)"
  using fits_nil by (auto simp: ptr_last_def ptr_first_def carrier_def subset_iff)

lemma get_unlinked:
  assumes "carrier S" "set as \<union> set bs \<subseteq> S" "y \<in> S"
  shows "get f (unlinked as bs m) y =
    (if f = fp \<and> bs \<noteq> [] \<and> y = hd bs then ptr_last as
     else if f = fn \<and> as \<noteq> [] \<and> y = last as then ptr_first bs else get f m y)"
proof -
  have sp: "spaced S" and ft: "fits fp (ptr_last as)" "fits fn (ptr_first bs)"
    using assms fits_ends [of S as] fits_ends [of S bs] by (auto simp: carrier_def)
  have "as \<noteq> [] \<Longrightarrow> last as \<in> S" "bs \<noteq> [] \<Longrightarrow> hd bs \<in> S" using assms(2) by auto
  then show ?thesis
    using get_put [OF sp _ assms(3) ft(1)] get_put [OF sp _ assms(3) ft(2)] two_fields
    by (auto simp: unlinked_def Let_def)
qed

lemma get_pushed:
  assumes "carrier S" "insert h (set xs) \<subseteq> S" "y \<in> S" "h \<notin> set xs"
  shows "get f (pushed h xs m) y =
    (if f = fp \<and> xs \<noteq> [] \<and> y = hd xs then ptr h
     else if f = fp \<and> y = h then nil else if f = fn \<and> y = h then ptr_first xs else get f m y)"
proof -
  have sp: "spaced S" and ft: "fits fn (ptr_first xs)" "fits fp (ptr h)"
    using assms fits_ends [of S xs] by (auto simp: carrier_def)
  have "h \<in> S" "xs \<noteq> [] \<Longrightarrow> hd xs \<in> S" using assms(2) by auto
  then show ?thesis
    using get_put [OF sp _ assms(3) ft(1)] get_put [OF sp _ assms(3) ft(2)] get_put [OF sp _ assms(3) fits_nil(1)] two_fields
    by (auto simp: pushed_def Let_def)
qed

lemma dll_unlinked:
  assumes "carrier S" "set (as @ h # bs) \<subseteq> S" "distinct (as @ h # bs)" and d: "dll m (as @ h # bs)"
  shows "dll (unlinked as bs m) (as @ bs)"
  unfolding dll_def
proof (intro allI impI)
  fix cs x ds assume split: "as @ bs = cs @ x # ds"
  have dist: "distinct (cs @ x # ds)" using assms(3) split by (metis distinct_append distinct.simps(2) disjoint_insert(1) list.simps(15))
  have "x \<in> set (as @ bs)" using split by simp
  then have x: "x \<in> S" "set as \<union> set bs \<subseteq> S" using assms(2) by auto
  note g = get_unlinked [OF assms(1) x(2) x(1)]
  show "get fp (unlinked as bs m) x = ptr_last cs \<and> get fn (unlinked as bs m) x = ptr_first ds"
  proof (cases "length cs < length as")
    case True
    then obtain es where as: "as = cs @ x # es" and ds: "ds = es @ bs" using split
      by (auto simp: append_eq_append_conv2 append_eq_Cons_conv)
    have "x \<notin> set bs" using assms(3) as by auto
    then have "bs \<noteq> [] \<Longrightarrow> x \<noteq> hd bs" by auto
    moreover have "get fp m x = ptr_last cs \<and> get fn m x = ptr_first (es @ h # bs)"
      using dllD [of m cs x "es @ h # bs"] d as by simp
    moreover have "x = last as \<longleftrightarrow> es = []" using dist as ds by (cases es rule: rev_cases) auto
    ultimately show ?thesis using as ds two_fields unfolding g by (cases es) (auto simp: ptr_first_def)
  next
    case False
    then obtain es where cs: "cs = as @ es" and bs: "bs = es @ x # ds" using split
      by (auto simp: append_eq_append_conv2)
    have "x \<notin> set as" using assms(3) bs by auto
    then have "as \<noteq> [] \<Longrightarrow> x \<noteq> last as" by auto
    moreover have "get fp m x = ptr_last (as @ h # es) \<and> get fn m x = ptr_first ds"
      using dllD [of m "as @ h # es" x ds] d bs by simp
    moreover have "x = hd bs \<longleftrightarrow> es = []" using dist cs bs by (cases es) auto
    ultimately show ?thesis using cs bs two_fields unfolding g by (cases es rule: rev_cases) (auto simp: ptr_last_def)
  qed
qed

lemma dll_pushed:
  assumes "carrier S" "insert h (set xs) \<subseteq> S" "distinct (h # xs)" and d: "dll m xs"
  shows "dll (pushed h xs m) (h # xs)"
  unfolding dll_def
proof (intro allI impI)
  fix cs x ds assume split: "h # xs = cs @ x # ds"
  have x: "x \<in> S" "h \<notin> set xs" using assms(2,3) split by (auto simp: set_eq_iff Cons_eq_append_conv)
  note g = get_pushed [OF assms(1,2) x]
  show "get fp (pushed h xs m) x = ptr_last cs \<and> get fn (pushed h xs m) x = ptr_first ds"
  proof (cases cs)
    case Nil
    then have "x = h" "ds = xs" using split by auto
    moreover have "xs \<noteq> [] \<Longrightarrow> h \<noteq> hd xs" using x(2) by auto
    ultimately show ?thesis using g two_fields Nil by (cases "xs = []") (auto simp: ptr_last_def)
  next
    case (Cons c es)
    then have c: "c = h" and xs: "xs = es @ x # ds" using split by auto
    have "get fp m x = ptr_last es \<and> get fn m x = ptr_first ds" using dllD [of m es x ds] d xs by simp
    moreover have "x = hd xs \<longleftrightarrow> es = []" "x \<noteq> h" using assms(3) xs by (cases es; auto)+
    ultimately show ?thesis using Cons c xs two_fields unfolding g by (auto simp: ptr_last_def)
  qed
qed

end

section \<open>Chunk headers in byte memory\<close>

text \<open>
  The fields of the chunk at an address: the size of the chunk before it (kept in the last bytes
  of that chunk, and meaningful only while it is free), the size of the chunk with the flag of the
  chunk before it in the lowest bit, and the two links used while the chunk is free.
\<close>

datatype chunk_field = PreSize | Size | PreChunk | NextChunk

fun field_offset :: "chunk_field \<Rightarrow> nat" where
  "field_offset PreSize = 0"
| "field_offset Size = 4"
| "field_offset PreChunk = 8"
| "field_offset NextChunk = 16"

fun field_width :: "chunk_field \<Rightarrow> nat" where
  "field_width PreSize = 4"
| "field_width Size = 4"
| "field_width PreChunk = 8"
| "field_width NextChunk = 8"

definition fld :: "chunk_field \<Rightarrow> memory \<Rightarrow> nat \<Rightarrow> nat" where
  "fld f m a = ld (field_width f) m (a + field_offset f)"

definition set_fld :: "chunk_field \<Rightarrow> nat \<Rightarrow> nat \<Rightarrow> memory \<Rightarrow> memory" where
  "set_fld f a v m = st (field_width f) (a + field_offset f) v m"

definition fits :: "chunk_field \<Rightarrow> nat \<Rightarrow> bool" where
  "fits f v \<longleftrightarrow> v < 256 ^ field_width f"

definition chunks_apart :: "nat \<Rightarrow> nat \<Rightarrow> bool" where
  "chunks_apart a b \<longleftrightarrow> a + 24 \<le> b \<or> b + 24 \<le> a"

interpretation cs: chunk_store fld set_fld fits chunks_apart
proof
  fix f g v a and m :: memory
  assume "fits f v"
  then show "fld g (set_fld f a v m) a = (if g = f then v else fld g m a)"
    by (cases f; cases g) (simp_all add: fld_def set_fld_def fits_def ld_st_same ld_st_other)
next
  fix f g v a b and m :: memory
  assume "chunks_apart a b"
  then show "fld g (set_fld f a v m) b = fld g m b"
    unfolding fld_def set_fld_def chunks_apart_def by (intro ld_st_other) (cases f; cases g; auto)
qed

interpretation lk: linked_chunks fld set_fld fits chunks_apart PreChunk NextChunk "\<lambda>h. h" 0
  by unfold_locales (simp_all add: fits_def)

lemma spaced_iff: "cs.spaced S \<longleftrightarrow> (\<forall>a \<in> S. \<forall>b \<in> S. a \<noteq> b \<longrightarrow> a + 24 \<le> b \<or> b + 24 \<le> a)"
  by (simp add: cs.spaced_def chunks_apart_def)

lemma fld_fits: "fits f (fld f m a)"
  by (simp add: fits_def fld_def ld_less)

lemma fits_iff: "fits PreSize v \<longleftrightarrow> v < 2 ^ 32" "fits Size v \<longleftrightarrow> v < 2 ^ 32" "fits PreChunk v \<longleftrightarrow> v < 2 ^ 64" "fits NextChunk v \<longleftrightarrow> v < 2 ^ 64"
  by (simp_all add: fits_def)

lemma fld_unchanged:
  assumes "\<And>x. a + field_offset f \<le> x \<Longrightarrow> x < a + field_offset f + field_width f \<Longrightarrow> m x = m' x"
  shows "fld f m a = fld f m' a"
  unfolding fld_def by (rule ld_cong) (use assms in auto)

lemma set_fld_outside:
  "x < a + field_offset f \<or> a + field_offset f + field_width f \<le> x \<Longrightarrow> set_fld f a v m x = m x"
  by (simp add: set_fld_def st_outside)

end
