(* ===== verification/Bin_Malloc.thy ===== *)
theory Bin_Malloc
  imports Chunk_Memory "HOL-Library.Monad_Syntax"
begin

text \<open>
  The allocator of the shared memory (\<open>cache/pt_malloc.cc\<close>, \<open>cache/pt_malloc.h\<close>): chunks with
  boundary tags between a bottom and a top address, free chunks in doubly linked bins by size with
  a bitmap of the bins in use, allocation by best bin, splitting, and coalescing on release.
  Pointers are offsets from the base of the memory; \<open>None\<close> is an access outside the memory or
  through a null pointer. Sums of the 32-bit sizes wrap.
\<close>

section \<open>Constants and sizes\<close>

abbreviation INVALID :: nat where "INVALID \<equiv> 0"
abbreviation MINSIZE :: nat where "MINSIZE \<equiv> 24"
abbreviation NBINS :: nat where "NBINS \<equiv> 128"
abbreviation NFASTBINS :: nat where "NFASTBINS \<equiv> 64"
abbreviation MIN_LARGE_SIZE :: nat where "MIN_LARGE_SIZE \<equiv> 512"
abbreviation DTC_RESERVE_SIZE :: nat where "DTC_RESERVE_SIZE \<equiv> 4096"
abbreviation MEM_HEAD_SIZE :: nat where "MEM_HEAD_SIZE \<equiv> 1024"
abbreviation DTC_VER_MIN :: nat where "DTC_VER_MIN \<equiv> 4"
abbreviation DTC_SIGN_1 :: u32 where "DTC_SIGN_1 \<equiv> 0x4D635474"

definition MAX_ALLOC_SIZE :: nat where
  "MAX_ALLOC_SIZE = 2 ^ 32 - 8"

text \<open>The value a 32-bit variable keeps.\<close>

definition u32_of :: "nat \<Rightarrow> nat" where
  "u32_of n = n mod 2 ^ 32"

definition align8 :: "nat \<Rightarrow> nat" where
  "align8 n = (n + 7) div 8 * 8"

definition REAL_SIZE :: "nat \<Rightarrow> nat" where
  "REAL_SIZE sz = sz div 8 * 8"

definition REQUEST_OUT_OF_RANGE :: "nat \<Rightarrow> bool" where
  "REQUEST_OUT_OF_RANGE req \<longleftrightarrow> req \<ge> 2 ^ 32 - 2 * MINSIZE"

definition request2size :: "nat \<Rightarrow> nat" where
  "request2size req = (if req + 4 + 7 < MINSIZE then MINSIZE else (req + 4 + 7) div 8 * 8)"

definition chunksize2memsize :: "nat \<Rightarrow> nat" where
  "chunksize2memsize sz = u32_of (sz + (2 ^ 32 - 4))"

definition in_smallbin_range :: "nat \<Rightarrow> bool" where
  "in_smallbin_range sz \<longleftrightarrow> sz < MIN_LARGE_SIZE"

definition smallbin_index :: "nat \<Rightarrow> nat" where
  "smallbin_index sz = sz div 2 ^ 3"

definition largebin_index :: "nat \<Rightarrow> nat" where
  "largebin_index sz =
     (if sz div 2 ^ 6 \<le> 32 then 56 + sz div 2 ^ 6
      else if sz div 2 ^ 9 \<le> 20 then 91 + sz div 2 ^ 9
      else if sz div 2 ^ 12 \<le> 10 then 110 + sz div 2 ^ 12
      else if sz div 2 ^ 15 \<le> 4 then 119 + sz div 2 ^ 15
      else if sz div 2 ^ 18 \<le> 2 then 124 + sz div 2 ^ 18
      else 126)"

definition bin_index :: "nat \<Rightarrow> nat" where
  "bin_index sz = (if in_smallbin_range sz then smallbin_index sz else largebin_index sz)"

definition CAN_COMBILE :: "nat \<Rightarrow> nat \<Rightarrow> bool" where
  "CAN_COMBILE sz add \<longleftrightarrow> sz + add \<le> MAX_ALLOC_SIZE"

section \<open>State\<close>

record CBin =
  m_hPreChunk :: nat
  m_hNextChunk :: nat

datatype bin_ref = Bin nat | FastBin nat | UnsortedBin

record bin_malloc =
  m_auiSign :: "u32 list"
  m_ushVer :: nat
  m_tSize :: nat
  m_tUserAllocSize :: u64
  m_tUserAllocChunkCnt :: u64
  m_uiFlags :: u32
  m_hBottom :: nat
  m_hReserveZone :: nat
  m_hTop :: nat
  m_tLastFreeChunkSize :: nat
  m_auiBinBitMap :: "nat \<Rightarrow> u32"
  m_shmIntegrity :: u32
  bins :: "bin_ref \<Rightarrow> CBin"
  chunks :: memory
  statChunkTotal :: int
  statDataSize :: int
  statMemoryTop :: int
  statTmpDataSizeRecently :: u64
  statTmpDataAllocCountRecently :: u64
  statAverageDataSizeRecently :: int
  minChunkSize :: nat

text \<open>A field of the chunk at an offset.\<close>

definition get_fld :: "chunk_field \<Rightarrow> nat \<Rightarrow> bin_malloc \<Rightarrow> nat option" where
  "get_fld f p s = (if p + field_offset f + field_width f \<le> m_tSize s then Some (fld f (chunks s) p) else None)"

definition put_fld :: "chunk_field \<Rightarrow> nat \<Rightarrow> nat \<Rightarrow> bin_malloc \<Rightarrow> bin_malloc option" where
  "put_fld f p v s =
     (if p + field_offset f + field_width f \<le> m_tSize s then Some (s\<lparr>chunks := set_fld f p v (chunks s)\<rparr>) else None)"

definition handle_to_ptr :: "nat \<Rightarrow> nat option" where
  "handle_to_ptr h = (if h = INVALID then None else Some h)"

definition ptr_to_handle :: "nat \<Rightarrow> bin_malloc \<Rightarrow> nat" where
  "ptr_to_handle p s = (if p \<ge> m_tSize s then INVALID else p)"

definition mem2chunk :: "nat \<Rightarrow> nat option" where
  "mem2chunk p = (if p < 2 * 4 then None else Some (p - 2 * 4))"

definition chunk2mem :: "nat \<Rightarrow> nat" where
  "chunk2mem p = p + 2 * 4"

definition ptr_minus :: "nat \<Rightarrow> nat \<Rightarrow> nat option" where
  "ptr_minus p n = (if p < n then None else Some (p - n))"

definition CHUNK_SIZE :: "nat \<Rightarrow> bin_malloc \<Rightarrow> nat option" where
  "CHUNK_SIZE p s = do { v \<leftarrow> get_fld Size p s; Some (REAL_SIZE v) }"

definition prev_inuse :: "nat \<Rightarrow> bin_malloc \<Rightarrow> bool option" where
  "prev_inuse p s = do { v \<leftarrow> get_fld Size p s; Some (odd v) }"

definition inuse_bit_at_offset :: "nat \<Rightarrow> nat \<Rightarrow> bin_malloc \<Rightarrow> bool option" where
  "inuse_bit_at_offset p off s = do { v \<leftarrow> get_fld Size (p + off) s; Some (odd v) }"

definition set_inuse_bit_at_offset :: "nat \<Rightarrow> nat \<Rightarrow> bin_malloc \<Rightarrow> bin_malloc option" where
  "set_inuse_bit_at_offset p off s = do { v \<leftarrow> get_fld Size (p + off) s; put_fld Size (p + off) (v div 2 * 2 + 1) s }"

definition clear_inuse_bit_at_offset :: "nat \<Rightarrow> nat \<Rightarrow> bin_malloc \<Rightarrow> bin_malloc option" where
  "clear_inuse_bit_at_offset p off s = do { v \<leftarrow> get_fld Size (p + off) s; put_fld Size (p + off) (v div 2 * 2) s }"

definition set_size_at_offset :: "nat \<Rightarrow> nat \<Rightarrow> nat \<Rightarrow> bin_malloc \<Rightarrow> bin_malloc option" where
  "set_size_at_offset p off sz s = do { v \<leftarrow> get_fld Size (p + off) s; put_fld Size (p + off) (REAL_SIZE sz + v mod 8) s }"

definition set_presize_at_offset :: "nat \<Rightarrow> nat \<Rightarrow> nat \<Rightarrow> bin_malloc \<Rightarrow> bin_malloc option" where
  "set_presize_at_offset p off sz s = put_fld PreSize (p + off) (REAL_SIZE sz) s"

definition AT_TOP :: "nat \<Rightarrow> nat \<Rightarrow> bin_malloc \<Rightarrow> bool" where
  "AT_TOP p sz s \<longleftrightarrow> p + sz = m_hTop s"

definition misaligned_chunk :: "nat \<Rightarrow> bool" where
  "misaligned_chunk h \<longleftrightarrow> h mod 8 \<noteq> 0"

section \<open>Initialisation\<close>

definition init_sign :: "u32 list" where
  "init_sign = [0, DTC_SIGN_1, 1, - 1, - 1, - 1, 4, 0, 16, - 1, 0, 0, - 1, - 1]"

text \<open>The first chunk header is written at the bottom, which is also the top.\<close>

definition bm_Init :: "nat \<Rightarrow> bin_malloc \<Rightarrow> (int \<times> bin_malloc) option" where
  "bm_Init tSize s =
     (if tSize < MEM_HEAD_SIZE + 16 * (NBINS + NFASTBINS + 1) + DTC_RESERVE_SIZE + MINSIZE then Some (- 1, s)
      else
        let zone = align8 (MEM_HEAD_SIZE + 16 * (NBINS + NFASTBINS + 1));
            bottom = align8 (zone + DTC_RESERVE_SIZE);
            s1 = s\<lparr>m_auiSign := init_sign, m_ushVer := DTC_VER_MIN, m_tSize := tSize, m_tUserAllocChunkCnt := 0, m_uiFlags := 0,
                   m_hReserveZone := zone, m_hBottom := bottom, m_hTop := bottom,
                   m_tUserAllocSize := word_of_nat bottom, statMemoryTop := int bottom,
                   m_tLastFreeChunkSize := (if tSize > bottom + MINSIZE then tSize - bottom - MINSIZE else 0),
                   m_auiBinBitMap := (\<lambda>_. 0), m_shmIntegrity := 0,
                   bins := (\<lambda>_. \<lparr>m_hPreChunk = INVALID, m_hNextChunk = INVALID\<rparr>)\<rparr>
        in do {
          p \<leftarrow> handle_to_ptr (m_hTop s1);
          s2 \<leftarrow> put_fld PreSize p 0 s1;
          s3 \<leftarrow> put_fld Size p 1 s2;
          Some (0, s3\<lparr>statChunkTotal := sint (m_tUserAllocChunkCnt s3), statDataSize := sint (m_tUserAllocSize s3)\<rparr>) })"

definition detect_version :: "bin_malloc \<Rightarrow> int" where
  "detect_version s =
     (if m_auiSign s ! 0 \<noteq> 0 \<or> m_auiSign s ! 1 \<noteq> DTC_SIGN_1 then 1
      else if m_ushVer s = 2 then 2 else if m_ushVer s = 3 then 3 else if m_ushVer s = 4 then 4 else 0)"

definition share_memory_integrity :: "bin_malloc \<Rightarrow> int" where
  "share_memory_integrity s = sint (m_shmIntegrity s)"

definition set_share_memory_integrity :: "int \<Rightarrow> bin_malloc \<Rightarrow> bin_malloc" where
  "set_share_memory_integrity flags s = s\<lparr>m_shmIntegrity := (if flags \<noteq> 0 then 1 else 0)\<rparr>"

definition bm_Attach :: "nat \<Rightarrow> bin_malloc \<Rightarrow> int \<times> bin_malloc" where
  "bm_Attach tSize s =
     (if tSize < MEM_HEAD_SIZE + 16 * (NBINS + NFASTBINS + 1) + MINSIZE then (- 1, s)
      else if detect_version s \<noteq> int DTC_VER_MIN then (- 2, s)
      else if m_tSize s \<noteq> tSize then (- 3, s)
      else if m_hTop s \<ge> m_tSize s then (- 4, s)
      else (0, s\<lparr>statChunkTotal := sint (m_tUserAllocChunkCnt s), statDataSize := sint (m_tUserAllocSize s)\<rparr>))"

definition get_reserve_zone :: "bin_malloc \<Rightarrow> nat" where
  "get_reserve_zone s = m_hReserveZone s"

section \<open>Statistics and the least chunk\<close>

definition set_min_chunk_size :: "nat \<Rightarrow> bin_malloc \<Rightarrow> bin_malloc" where
  "set_min_chunk_size sz s =
     s\<lparr>minChunkSize := (if sz = 1 then 1 else if sz < MINSIZE then MINSIZE else sz)\<rparr>"

definition get_min_chunk_size :: "bin_malloc \<Rightarrow> nat" where
  "get_min_chunk_size s =
     (if minChunkSize s = 1
      then if statChunkTotal s \<le> 0 then MINSIZE else u32_of (nat (statDataSize s div statChunkTotal s))
      else minChunkSize s)"

definition MAXSTATCOUNT :: nat where
  "MAXSTATCOUNT = 10000 * 3600 * 12"

definition add_alloc_size_to_stat :: "nat \<Rightarrow> bin_malloc \<Rightarrow> bin_malloc" where
  "add_alloc_size_to_stat req s =
     (if unat (statTmpDataAllocCountRecently s) > MAXSTATCOUNT
      then s\<lparr>statTmpDataSizeRecently := 0, statTmpDataAllocCountRecently := 0, statAverageDataSizeRecently := int MINSIZE\<rparr>
      else let sz = statTmpDataSizeRecently s + word_of_nat req; cnt = statTmpDataAllocCountRecently s + 1
           in s\<lparr>statTmpDataSizeRecently := sz, statTmpDataAllocCountRecently := cnt,
                statAverageDataSizeRecently := sint (sz div cnt)\<rparr>)"

section \<open>Bins\<close>

definition set_bin_bit_map :: "nat \<Rightarrow> bin_malloc \<Rightarrow> bin_malloc" where
  "set_bin_bit_map i s =
     s\<lparr>m_auiBinBitMap := (m_auiBinBitMap s)(i div 32 := m_auiBinBitMap s (i div 32) OR push_bit (i mod 32) 1)\<rparr>"

definition clear_bin_bit_map :: "nat \<Rightarrow> bin_malloc \<Rightarrow> bin_malloc" where
  "clear_bin_bit_map i s =
     s\<lparr>m_auiBinBitMap := (m_auiBinBitMap s)(i div 32 := m_auiBinBitMap s (i div 32) AND NOT (push_bit (i mod 32) 1))\<rparr>"

definition empty_bin :: "nat \<Rightarrow> bin_malloc \<Rightarrow> bool" where
  "empty_bin i s \<longleftrightarrow> m_hNextChunk (bins s (Bin i)) = INVALID"

definition clear_if_empty :: "nat \<Rightarrow> bin_malloc \<Rightarrow> bin_malloc" where
  "clear_if_empty i s = (if empty_bin i s then clear_bin_bit_map i s else s)"

definition set_first :: "bin_ref \<Rightarrow> nat \<Rightarrow> bin_malloc \<Rightarrow> bin_malloc" where
  "set_first b h s = s\<lparr>bins := (bins s)(b := (bins s b)\<lparr>m_hNextChunk := h\<rparr>)\<rparr>"

definition set_last :: "bin_ref \<Rightarrow> nat \<Rightarrow> bin_malloc \<Rightarrow> bin_malloc" where
  "set_last b h s = s\<lparr>bins := (bins s)(b := (bins s b)\<lparr>m_hPreChunk := h\<rparr>)\<rparr>"

definition unlink_bin :: "bin_ref \<Rightarrow> nat \<Rightarrow> bin_malloc \<Rightarrow> (int \<times> bin_malloc) option" where
  "unlink_bin b hHandle s =
     (if hHandle = INVALID then Some (- 1, s)
      else if m_hNextChunk (bins s b) = INVALID \<or> m_hPreChunk (bins s b) = INVALID then Some (- 2, s)
      else do {
        pre \<leftarrow> get_fld PreChunk hHandle s;
        next \<leftarrow> get_fld NextChunk hHandle s;
        s1 \<leftarrow> (if pre = INVALID then Some (set_first b next s) else put_fld NextChunk pre next s);
        pre \<leftarrow> get_fld PreChunk hHandle s1;
        next \<leftarrow> get_fld NextChunk hHandle s1;
        s2 \<leftarrow> (if next = INVALID then Some (set_last b pre s1) else put_fld PreChunk next pre s1);
        Some (0, s2) })"

definition link_bin :: "bin_ref \<Rightarrow> nat \<Rightarrow> bin_malloc \<Rightarrow> (int \<times> bin_malloc) option" where
  "link_bin b hHandle s =
     (if hHandle = INVALID then Some (- 1, s)
      else do {
        s1 \<leftarrow> put_fld NextChunk hHandle (m_hNextChunk (bins s b)) s;
        s2 \<leftarrow> put_fld PreChunk hHandle INVALID s1;
        if m_hNextChunk (bins s2 b) \<noteq> INVALID then do {
          s3 \<leftarrow> put_fld PreChunk (m_hNextChunk (bins s2 b)) hHandle s2;
          if m_hPreChunk (bins s3 b) = INVALID then Some (- 2, s3) else Some (0, set_first b hHandle s3) }
        else if m_hPreChunk (bins s2 b) \<noteq> INVALID then Some (- 3, s2)
        else Some (0, set_first b hHandle (set_last b hHandle s2)) })"

definition bin_malloc_from :: "bin_ref \<Rightarrow> bin_malloc \<Rightarrow> (nat option \<times> bin_malloc) option" where
  "bin_malloc_from b s =
     (if m_hNextChunk (bins s b) = INVALID then Some (None, s)
      else do {
        p \<leftarrow> handle_to_ptr (m_hNextChunk (bins s b));
        v \<leftarrow> get_fld Size p s;
        s1 \<leftarrow> set_inuse_bit_at_offset p (REAL_SIZE v) s;
        (_, s2) \<leftarrow> unlink_bin b (m_hNextChunk (bins s1 b)) s1;
        Some (Some p, s2) })"

definition fast_malloc :: "nat \<Rightarrow> bin_malloc \<Rightarrow> (nat option \<times> bin_malloc) option" where
  "fast_malloc tSize s = bin_malloc_from (FastBin (smallbin_index tSize)) s"

definition small_bin_malloc :: "nat \<Rightarrow> bin_malloc \<Rightarrow> (nat option \<times> bin_malloc) option" where
  "small_bin_malloc tSize s =
     (let uiBinIdx = smallbin_index tSize
      in do { (p, s1) \<leftarrow> bin_malloc_from (Bin uiBinIdx) s; Some (p, clear_if_empty uiBinIdx s1) })"

section \<open>Release\<close>

definition check_inuse_chunk :: "nat \<Rightarrow> bin_malloc \<Rightarrow> int option" where
  "check_inuse_chunk p s = do {
     sz \<leftarrow> CHUNK_SIZE p s;
     used \<leftarrow> inuse_bit_at_offset p sz s;
     if \<not> used then Some (- 1)
     else do {
       pre_used \<leftarrow> prev_inuse p s;
       bad \<leftarrow> (if pre_used then Some False
               else do {
                 pre \<leftarrow> get_fld PreSize p s;
                 if p < pre \<or> p - pre < m_hBottom s then Some True
                 else do { sz' \<leftarrow> CHUNK_SIZE (p - pre) s; Some (sz' \<noteq> pre) } });
       if bad then Some (- 2)
       else if AT_TOP (p + sz) 0 s then Some 0
       else do { sz' \<leftarrow> CHUNK_SIZE (p + sz) s; Some (if sz' < MINSIZE then - 3 else 0) } } }"

text \<open>The three parts of \<open>inter_free\<close> behind its checks: the free chunk before the released one
  is joined, then the free chunk behind it, and the result goes to the top or to its bin.\<close>

definition merge_prev :: "nat \<Rightarrow> nat \<Rightarrow> bin_malloc \<Rightarrow> (nat \<times> nat \<times> bin_malloc) option" where
  "merge_prev p tSize s = do {
     pre_used \<leftarrow> prev_inuse p s;
     pre \<leftarrow> get_fld PreSize p s;
     if \<not> pre_used \<and> CAN_COMBILE tSize pre then do {
       let t = u32_of (tSize + pre);
       let uiBinIdx = bin_index pre;
       q \<leftarrow> ptr_minus p pre;
       (_, s1) \<leftarrow> unlink_bin (Bin uiBinIdx) (ptr_to_handle q s) s;
       let s2 = clear_if_empty uiBinIdx s1;
       s3 \<leftarrow> set_size_at_offset q 0 t s2;
       s4 \<leftarrow> set_presize_at_offset q t t s3;
       Some (q, t, s4) }
     else Some (p, tSize, s) }"

definition merge_next :: "nat \<Rightarrow> nat \<Rightarrow> bin_malloc \<Rightarrow> (int \<times> nat \<times> bin_malloc) option" where
  "merge_next p tSize s =
     (if p + tSize = m_hTop s then Some (0, tSize, s)
      else do {
        n \<leftarrow> handle_to_ptr (p + tSize);
        sz \<leftarrow> CHUNK_SIZE n s;
        if sz < MINSIZE then Some (- 4, tSize, s)
        else do {
          used \<leftarrow> inuse_bit_at_offset n sz s;
          if \<not> used \<and> CAN_COMBILE tSize sz then do {
            let t = u32_of (tSize + sz);
            let uiBinIdx = bin_index sz;
            (_, s1) \<leftarrow> unlink_bin (Bin uiBinIdx) (ptr_to_handle n s) s;
            let s2 = clear_if_empty uiBinIdx s1;
            s3 \<leftarrow> set_size_at_offset p 0 t s2;
            s4 \<leftarrow> set_presize_at_offset p t t s3;
            Some (0, t, s4) }
          else Some (0, tSize, s) } })"

definition place_free :: "nat \<Rightarrow> nat \<Rightarrow> bin_malloc \<Rightarrow> bin_malloc option" where
  "place_free p tSize s = do {
     s1 \<leftarrow> set_size_at_offset p 0 tSize s;
     s2 \<leftarrow> set_presize_at_offset p tSize tSize s1;
     s3 \<leftarrow> set_inuse_bit_at_offset p tSize s2;
     let s4 = (if m_tLastFreeChunkSize s3 < tSize then s3\<lparr>m_tLastFreeChunkSize := tSize\<rparr> else s3);
     if p + tSize = m_hTop s4 then do {
       let top = m_hTop s4 - tSize;
       s5 \<leftarrow> put_fld Size p 1 (s4\<lparr>m_hTop := top, statMemoryTop := int top\<rparr>);
       Some (if m_tSize s5 > top + MINSIZE \<and> m_tLastFreeChunkSize s5 < m_tSize s5 - top - MINSIZE
             then s5\<lparr>m_tLastFreeChunkSize := m_tSize s5 - top - MINSIZE\<rparr> else s5) }
     else do {
       s5 \<leftarrow> clear_inuse_bit_at_offset p tSize s4;
       let uiBinIdx = bin_index tSize;
       (_, s6) \<leftarrow> link_bin (Bin uiBinIdx) (ptr_to_handle p s5) s5;
       Some (set_bin_bit_map uiBinIdx s6) } }"

text \<open>The result is the return code and the size of the chunk. A misaligned or inconsistent chunk
  is answered with the invalid handle, which is the return code of success.\<close>

definition inter_free :: "nat \<Rightarrow> bin_malloc \<Rightarrow> (int \<times> nat \<times> bin_malloc) option" where
  "inter_free hHandle s =
     (if hHandle = INVALID then Some (0, 0, s)
      else if hHandle \<ge> m_tSize s then Some (- 1, 0, s)
      else do {
        p \<leftarrow> mem2chunk hHandle;
        tMemSize \<leftarrow> CHUNK_SIZE p s;
        if p + tMemSize \<ge> m_tSize s then Some (- 2, tMemSize, s)
        else do {
          used \<leftarrow> inuse_bit_at_offset p tMemSize s;
          if \<not> used then Some (- 3, tMemSize, s)
          else if misaligned_chunk p then Some (int INVALID, tMemSize, s)
          else do {
            bad \<leftarrow> check_inuse_chunk p s;
            if bad \<noteq> 0 then Some (int INVALID, tMemSize, s)
            else do {
              (q, t1, s1) \<leftarrow> merge_prev p tMemSize s;
              (rc, t2, s2) \<leftarrow> merge_next q t1 s1;
              if rc \<noteq> 0 then Some (rc, tMemSize, s2)
              else do { s3 \<leftarrow> place_free q t2 s2; Some (0, tMemSize, s3) } } } } })"

definition bm_Free :: "nat \<Rightarrow> bin_malloc \<Rightarrow> (int \<times> bin_malloc) option" where
  "bm_Free hHandle s = do {
     (iRet, tSize, s1) \<leftarrow> inter_free hHandle s;
     if iRet = 0 then
       let s2 = s1\<lparr>m_tUserAllocSize := m_tUserAllocSize s1 - word_of_nat tSize, m_tUserAllocChunkCnt := m_tUserAllocChunkCnt s1 - 1,
                   statChunkTotal := statChunkTotal s1 - 1\<rparr>
       in Some (iRet, s2\<lparr>statDataSize := sint (m_tUserAllocSize s2)\<rparr>)
     else Some (iRet, s1) }"

section \<open>Allocation\<close>

definition top_alloc :: "nat \<Rightarrow> bin_malloc \<Rightarrow> (nat option \<times> bin_malloc) option" where
  "top_alloc tSize s =
     (if m_hTop s + tSize + MINSIZE \<ge> m_tSize s then Some (None, s)
      else do {
        p \<leftarrow> handle_to_ptr (m_hTop s);
        v \<leftarrow> get_fld Size p s;
        s1 \<leftarrow> put_fld Size p (v mod 8 + REAL_SIZE tSize) s;
        s2 \<leftarrow> put_fld PreSize (p + tSize) (REAL_SIZE tSize) s1;
        s3 \<leftarrow> put_fld Size (p + tSize) 1 s2;
        let top = m_hTop s3 + tSize;
        Some (Some (chunk2mem p), s3\<lparr>m_hTop := top, statMemoryTop := int top\<rparr>) })"

text \<open>The search in the bin of the size itself looks at no more than 99 chunks.\<close>

fun search_bin :: "nat \<Rightarrow> nat \<Rightarrow> nat \<Rightarrow> bin_malloc \<Rightarrow> nat option option" where
  "search_bin 0 tSize v s = Some None"
| "search_bin (Suc n) tSize v s =
     (if v = INVALID then Some None
      else do {
        sz \<leftarrow> CHUNK_SIZE v s;
        if sz \<ge> tSize then Some (Some v)
        else do { v' \<leftarrow> get_fld NextChunk v s; search_bin n tSize v' s } })"

text \<open>The words behind the bitmap are the integrity mark and the reserved bytes, which stay zero.\<close>

definition bitmap_word :: "nat \<Rightarrow> bin_malloc \<Rightarrow> u32" where
  "bitmap_word i s = (if i < 4 then m_auiBinBitMap s i else if i = 4 then m_shmIntegrity s else 0)"

function skip_words :: "nat \<Rightarrow> nat \<Rightarrow> bin_malloc \<Rightarrow> nat" where
  "skip_words i uiBinIdx s =
     (if i < 16 \<and> bitmap_word i s = 0 then skip_words (Suc i) (uiBinIdx + 32) s else uiBinIdx)"
  by pat_completeness auto
termination by (relation "measure (\<lambda>(i, _, _). 16 - i)") auto

function skip_empty :: "nat \<Rightarrow> bin_malloc \<Rightarrow> nat" where
  "skip_empty uiBinIdx s =
     (if uiBinIdx < NBINS \<and> m_hNextChunk (bins s (Bin uiBinIdx)) = INVALID then skip_empty (Suc uiBinIdx) s else uiBinIdx)"
  by pat_completeness auto
termination by (relation "measure (\<lambda>(i, _). 128 - i)") auto

declare skip_words.simps [simp del] skip_empty.simps [simp del]

definition next_bin :: "nat \<Rightarrow> bin_malloc \<Rightarrow> nat" where
  "next_bin uiBinIdx s =
     (let w = uiBinIdx div 32
      in skip_empty (if bitmap_word w s = 0 then skip_words (Suc w) (Suc w * 32) s else uiBinIdx) s)"

partial_function (option) last_fit :: "nat \<Rightarrow> nat \<Rightarrow> bin_malloc \<Rightarrow> nat option" where
  "last_fit tSize hPre s = do {
     p \<leftarrow> handle_to_ptr hPre;
     hPre' \<leftarrow> get_fld PreChunk p s;
     sz \<leftarrow> CHUNK_SIZE p s;
     if sz < tSize then last_fit tSize hPre' s else Some p }"

text \<open>Taking a free chunk out of its bin, with the part that is not needed given back.\<close>

definition carve :: "nat \<Rightarrow> nat \<Rightarrow> nat \<Rightarrow> bin_malloc \<Rightarrow> (nat \<times> bin_malloc) option" where
  "carve uiBinIdx p tSize s = do {
     sz \<leftarrow> CHUNK_SIZE p s;
     let tRemainSize = sz - tSize;
     (_, s1) \<leftarrow> unlink_bin (Bin uiBinIdx) (ptr_to_handle p s) s;
     let s2 = clear_if_empty uiBinIdx s1;
     s' \<leftarrow> (if tRemainSize < get_min_chunk_size s2 then do { sz \<leftarrow> CHUNK_SIZE p s2; set_inuse_bit_at_offset p sz s2 }
            else do {
              v \<leftarrow> get_fld Size p s2;
              s3 \<leftarrow> put_fld Size p (tSize + v mod 8) s2;
              let n = p + tSize;
              s4 \<leftarrow> put_fld Size n tRemainSize s3;
              s5 \<leftarrow> put_fld PreSize n tSize s4;
              s6 \<leftarrow> set_inuse_bit_at_offset n 0 s5;
              s7 \<leftarrow> put_fld PreSize (p + tSize + tRemainSize) tRemainSize s6;
              s8 \<leftarrow> set_inuse_bit_at_offset n tRemainSize s7;
              (_, _, s9) \<leftarrow> inter_free (ptr_to_handle n s8 + 2 * 4) s8;
              Some s9 });
     Some (ptr_to_handle (chunk2mem p) s', s') }"

definition inter_malloc :: "nat \<Rightarrow> bin_malloc \<Rightarrow> (nat \<times> bin_malloc) option" where
  "inter_malloc req s =
     (if REQUEST_OUT_OF_RANGE req then Some (INVALID, s)
      else let tSize = request2size req in do {
        (small, s1) \<leftarrow> (if in_smallbin_range tSize then small_bin_malloc tSize s else Some (None, s));
        case small of
          Some p \<Rightarrow> Some (ptr_to_handle (chunk2mem p) s1, s1)
        | None \<Rightarrow> do {
            let uiBinIdx = bin_index tSize;
            found \<leftarrow> (if in_smallbin_range tSize then Some None
                      else search_bin 99 tSize (m_hNextChunk (bins s1 (Bin uiBinIdx))) s1);
            case found of
              Some p \<Rightarrow> carve uiBinIdx p tSize s1
            | None \<Rightarrow> do {
                let i = next_bin (Suc uiBinIdx) s1;
                if i \<ge> NBINS then do {
                  (t, s2) \<leftarrow> top_alloc tSize s1;
                  Some (case t of None \<Rightarrow> INVALID | Some p \<Rightarrow> ptr_to_handle p s2, s2) }
                else do {
                  p \<leftarrow> last_fit tSize (m_hPreChunk (bins s1 (Bin i))) s1;
                  carve i p tSize s1 } } } })"

definition bm_Malloc :: "nat \<Rightarrow> bin_malloc \<Rightarrow> (nat \<times> bin_malloc) option" where
  "bm_Malloc tSize s = do {
     (hHandle, s1) \<leftarrow> inter_malloc tSize (s\<lparr>m_tLastFreeChunkSize := 0\<rparr>);
     if hHandle \<noteq> INVALID then do {
       p \<leftarrow> mem2chunk hHandle;
       sz \<leftarrow> CHUNK_SIZE p s1;
       let s2 = s1\<lparr>m_tUserAllocSize := m_tUserAllocSize s1 + word_of_nat sz, m_tUserAllocChunkCnt := m_tUserAllocChunkCnt s1 + 1,
                   statChunkTotal := statChunkTotal s1 + 1\<rparr>;
       Some (hHandle, add_alloc_size_to_stat tSize (s2\<lparr>statDataSize := sint (m_tUserAllocSize s2)\<rparr>)) }
     else Some (hHandle, s1) }"

definition bm_Calloc :: "nat \<Rightarrow> bin_malloc \<Rightarrow> (nat \<times> bin_malloc) option" where
  "bm_Calloc tSize s = do {
     (hHandle, s1) \<leftarrow> bm_Malloc tSize s;
     if hHandle \<noteq> INVALID then
       if hHandle + tSize \<le> m_tSize s1
       then Some (hHandle, s1\<lparr>chunks := memset hHandle 0 tSize (chunks s1)\<rparr>) else None
     else Some (hHandle, s1) }"

end
