(* ===== verification/Bin_Layout.thy ===== *)
theory Bin_Layout
  imports Bin_Malloc
begin

text \<open>
  The state of the allocator as a layout: the list of its chunks from the bottom to the top,
  each with its address, size and whether it is in use. The boundary tags describe the layout, and
  every free chunk is in the bin of its size. The operations on bins keep this, and the headers and
  the links can be changed independently of each other.
\<close>

section \<open>Layouts\<close>

type_synonym blk = "nat \<times> nat \<times> bool"

fun tiles :: "nat \<Rightarrow> blk list \<Rightarrow> nat \<Rightarrow> bool" where
  "tiles lo [] hi \<longleftrightarrow> lo = hi"
| "tiles lo ((a, n, u) # bs) hi \<longleftrightarrow> a = lo \<and> MINSIZE \<le> n \<and> 8 dvd n \<and> tiles (lo + n) bs hi"

lemma tiles_append: "tiles lo (xs @ ys) hi \<longleftrightarrow> (\<exists>mid. tiles lo xs mid \<and> tiles mid ys hi)"
  by (induction xs arbitrary: lo) auto

lemma tiles_le: "tiles lo xs hi \<Longrightarrow> lo \<le> hi"
  by (induction xs arbitrary: lo) (auto, fastforce)

lemma tiles_middle:
  "tiles lo (xs @ (a, n, u) # ys) hi \<longleftrightarrow> tiles lo xs a \<and> MINSIZE \<le> n \<and> 8 dvd n \<and> tiles (a + n) ys hi"
  by (auto simp: tiles_append)

lemma tiles_bounds:
  assumes "tiles lo L hi" "(a, n, u) \<in> set L"
  shows "lo \<le> a" "a + n \<le> hi" "MINSIZE \<le> n" "8 dvd n"
proof -
  obtain xs ys where "L = xs @ (a, n, u) # ys" using assms(2) by (meson split_list)
  then show "lo \<le> a" "a + n \<le> hi" "MINSIZE \<le> n" "8 dvd n"
    using assms(1) tiles_le by (auto simp: tiles_middle)
qed

lemma tiles_aligned: "tiles lo L hi \<Longrightarrow> 8 dvd lo \<Longrightarrow> 8 dvd hi"
  by (induction L arbitrary: lo) auto

lemma tiles_start_less: "tiles lo L hi \<Longrightarrow> a \<in> fst ` set L \<Longrightarrow> lo \<le> a \<and> a + 24 \<le> hi"
  using tiles_bounds by fastforce

text \<open>The addresses where a header is: the starts of the chunks and the top.\<close>

definition starts :: "blk list \<Rightarrow> nat \<Rightarrow> nat set" where
  "starts L hi = insert hi (fst ` set L)"

lemma starts_simps [simp]:
  "starts [] hi = {hi}"
  "starts ((a, n, u) # L) hi = insert a (starts L hi)"
  "starts (xs @ ys) hi = fst ` set xs \<union> starts ys hi"
  by (auto simp: starts_def)

lemma starts_less: "tiles lo L hi \<Longrightarrow> a \<in> starts L hi \<Longrightarrow> lo \<le> a \<and> a \<le> hi"
  using tiles_start_less tiles_le by (fastforce simp: starts_def)

lemma starts_spaced: "tiles lo L hi \<Longrightarrow> cs.spaced (starts L hi)"
proof (induction L arbitrary: lo)
  case (Cons b L)
  obtain a n u where b: "b = (a, n, u)" by (cases b)
  have sp: "cs.spaced (starts L hi)" and t: "tiles (a + n) L hi" "24 \<le> n" using Cons b by auto
  have "\<And>c. c \<in> starts L hi \<Longrightarrow> a + 24 \<le> c" using starts_less [OF t(1)] t(2) by fastforce
  then show ?case using sp by (auto simp: b spaced_iff)
qed (simp add: spaced_iff)

lemma tiles_distinct: "tiles lo L hi \<Longrightarrow> distinct (map fst L)"
proof (induction L arbitrary: lo)
  case (Cons b L)
  obtain a n u where b: "b = (a, n, u)" by (cases b)
  have "\<And>c. c \<in> fst ` set L \<Longrightarrow> a < c" using tiles_start_less [of "a + n" L hi] Cons b by fastforce
  then show ?case using Cons b by auto
qed simp

lemma tiles_unique: "tiles lo L hi \<Longrightarrow> (a, n, u) \<in> set L \<Longrightarrow> (a, n', u') \<in> set L \<Longrightarrow> n = n' \<and> u = u'"
  using tiles_distinct [of lo L hi] by (metis Pair_inject eq_key_imp_eq_value)

lemma tiles_first: "tiles lo L hi \<Longrightarrow> lo \<in> starts L hi"
  by (cases L) auto

lemma tiles_end: "tiles lo L hi \<Longrightarrow> (a, n, u) \<in> set L \<Longrightarrow> a + n \<in> starts L hi"
proof (induction L arbitrary: lo)
  case (Cons b L)
  obtain a' n' u' where b: "b = (a', n', u')" by (cases b)
  then show ?case using Cons tiles_first [of "a' + n'" L hi] by auto
qed simp

lemma dvd_8_even: "8 dvd (n :: nat) \<Longrightarrow> even n"
  by presburger

section \<open>Boundary tags\<close>

definition lastu :: "bool \<Rightarrow> blk list \<Rightarrow> bool" where
  "lastu pu L = (if L = [] then pu else snd (snd (last L)))"

lemma lastu_simps [simp]: "lastu pu [] = pu" "lastu pu ((a, n, u) # L) = lastu u L" "lastu pu (xs @ ys) = lastu (lastu pu xs) ys"
  by (auto simp: lastu_def)

text \<open>The size field holds the size and the flag of the chunk before; a free chunk has its size
  once more behind it, and no two free chunks are neighbours.\<close>

fun tagged :: "memory \<Rightarrow> bool \<Rightarrow> blk list \<Rightarrow> bool" where
  "tagged m pu [] \<longleftrightarrow> True"
| "tagged m pu ((a, n, u) # L) \<longleftrightarrow>
     fld Size m a = n + of_bool pu \<and> (\<not> u \<longrightarrow> fld PreSize m (a + n) = n) \<and> (pu \<or> u) \<and> tagged m u L"

lemma tagged_append: "tagged m pu (xs @ ys) \<longleftrightarrow> tagged m pu xs \<and> tagged m (lastu pu xs) ys"
  by (induction xs arbitrary: pu) auto

lemma tagged_cong:
  assumes "tagged m pu L" "\<And>a. a \<in> fst ` set L \<Longrightarrow> fld Size m' a = fld Size m a"
    and "\<And>a n. (a, n, False) \<in> set L \<Longrightarrow> fld PreSize m' (a + n) = fld PreSize m (a + n)"
  shows "tagged m' pu L"
  using assms by (induction L arbitrary: pu) auto

definition headers :: "memory \<Rightarrow> blk list \<Rightarrow> nat \<Rightarrow> bool" where
  "headers m L hi \<longleftrightarrow> tagged m True L \<and> lastu True L \<and> fld Size m hi = 1"

definition same_tags :: "nat set \<Rightarrow> memory \<Rightarrow> memory \<Rightarrow> bool" where
  "same_tags S m m' \<longleftrightarrow> (\<forall>a \<in> S. fld Size m' a = fld Size m a \<and> fld PreSize m' a = fld PreSize m a)"

lemma headers_same_tags: "headers m L hi \<Longrightarrow> tiles lo L hi \<Longrightarrow> same_tags (starts L hi) m m' \<Longrightarrow> headers m' L hi"
proof -
  assume h: "headers m L hi" and t: "tiles lo L hi" and same: "same_tags (starts L hi) m m'"
  have eq: "a \<in> starts L hi \<Longrightarrow> fld Size m' a = fld Size m a \<and> fld PreSize m' a = fld PreSize m a" for a
    using same by (simp add: same_tags_def)
  have "tagged m' True L"
    by (rule tagged_cong [of m]) (use h eq tiles_end [OF t] in \<open>auto simp: headers_def starts_def\<close>)
  then show ?thesis using h eq by (simp add: headers_def starts_def)
qed

lemma headers_middle:
  "headers m (xs @ (a, n, u) # ys) hi \<longleftrightarrow>
     tagged m True xs \<and> fld Size m a = n + of_bool (lastu True xs) \<and> (\<not> u \<longrightarrow> fld PreSize m (a + n) = n) \<and>
     (lastu True xs \<or> u) \<and> tagged m u ys \<and> lastu u ys \<and> fld Size m hi = 1"
  by (auto simp: headers_def tagged_append)

text \<open>The header behind a chunk carries the flag of the chunk.\<close>

lemma tag_behind:
  assumes "tiles lo ys hi" "tagged m u ys" "fld Size m hi = 1" "lastu u ys"
  shows "odd (fld Size m lo) \<longleftrightarrow> u"
  using assms by (cases ys) (auto dest: dvd_8_even)

section \<open>Bins\<close>

lemma bin_index_less: "bin_index n < NBINS"
  unfolding bin_index_def in_smallbin_range_def smallbin_index_def largebin_index_def by (auto split: if_splits)

lemma bin_index_ranges:
  "bin_index n = (if n < 512 then n div 8 else if n < 2112 then 56 + n div 64 else if n < 10752 then 91 + n div 512
     else if n < 45056 then 110 + n div 4096 else if n < 163840 then 119 + n div 32768
     else if n < 786432 then 124 + n div 262144 else 126)"
proof -
  have "n div k \<le> c \<longleftrightarrow> n < Suc c * k" if "0 < k" for k c :: nat
    using less_eq_div_iff_mult_less_eq [OF that, of "Suc c" n] by linarith
  then show ?thesis
    unfolding bin_index_def in_smallbin_range_def smallbin_index_def largebin_index_def by simp
qed

lemma bin_index_step: "bin_index n \<le> bin_index (Suc n)"
proof (cases "n \<in> {511, 2111, 10751, 45055, 163839, 786431}")
  case True
  then show ?thesis by (auto simp: bin_index_ranges)
next
  case False
  then have "Suc n < k \<longleftrightarrow> n < k" if "k \<in> {512, 2112, 10752, 45056, 163840, 786432}" for k
    using that by auto
  then have k: "Suc n < 512 \<longleftrightarrow> n < 512" "Suc n < 2112 \<longleftrightarrow> n < 2112" "Suc n < 10752 \<longleftrightarrow> n < 10752" "Suc n < 45056 \<longleftrightarrow> n < 45056"
    "Suc n < 163840 \<longleftrightarrow> n < 163840" "Suc n < 786432 \<longleftrightarrow> n < 786432" by blast+
  show ?thesis unfolding bin_index_ranges k by (simp add: div_le_mono)
qed

lemma bin_index_mono: "m \<le> n \<Longrightarrow> bin_index m \<le> bin_index n"
  using bin_index_step by (rule lift_Suc_mono_le)

definition bin_ends :: "nat list \<Rightarrow> CBin" where
  "bin_ends xs = \<lparr>m_hPreChunk = lk.ptr_last xs, m_hNextChunk = lk.ptr_first xs\<rparr>"

definition binned :: "bin_malloc \<Rightarrow> (nat \<times> nat) set \<Rightarrow> (nat \<Rightarrow> nat list) \<Rightarrow> bool" where
  "binned s F B \<longleftrightarrow> (\<forall>i < NBINS.
     distinct (B i) \<and> set (B i) = {a. \<exists>n. (a, n) \<in> F \<and> bin_index n = i} \<and> lk.dll (chunks s) (B i) \<and>
     bins s (Bin i) = bin_ends (B i) \<and> (B i \<noteq> [] \<longrightarrow> bit (m_auiBinBitMap s (i div 32)) (i mod 32)))"

text \<open>A set of headers the allocator can access.\<close>

definition reach :: "bin_malloc \<Rightarrow> nat set \<Rightarrow> bool" where
  "reach s S \<longleftrightarrow> cs.spaced S \<and> (\<forall>a \<in> S. 0 < a \<and> a + 24 \<le> m_tSize s) \<and> m_tSize s \<le> MAX_ALLOC_SIZE"

lemma reach_carrier: "reach s S \<Longrightarrow> lk.carrier S"
  by (auto simp: reach_def lk.carrier_def fits_iff MAX_ALLOC_SIZE_def)

lemma field_end: "field_offset f + field_width f \<le> 24"
  by (cases f) simp_all

lemma get_fld_reach: "reach s S \<Longrightarrow> a \<in> S \<Longrightarrow> get_fld f a s = Some (fld f (chunks s) a)"
  using field_end [of f] by (fastforce simp: get_fld_def reach_def)

lemma put_fld_reach: "reach s S \<Longrightarrow> a \<in> S \<Longrightarrow> put_fld f a v s = Some (s\<lparr>chunks := set_fld f a v (chunks s)\<rparr>)"
  using field_end [of f] by (fastforce simp: put_fld_def reach_def)

lemma fld_put_reach:
  "reach s S \<Longrightarrow> a \<in> S \<Longrightarrow> b \<in> S \<Longrightarrow> fits f v \<Longrightarrow> fld g (set_fld f a v m) b = (if g = f \<and> b = a then v else fld g m b)"
  using cs.get_put [of S] by (simp add: reach_def)

lemma reach_cong: "reach s S \<Longrightarrow> m_tSize s' = m_tSize s \<Longrightarrow> reach s' S"
  by (simp add: reach_def)

text \<open>The bytes of the links of free chunks, and memory changed at given bytes only.\<close>

definition links :: "nat set \<Rightarrow> nat set" where
  "links X = (\<Union>a \<in> X. {a + 8..<a + 24})"

definition agree :: "nat set \<Rightarrow> memory \<Rightarrow> memory \<Rightarrow> bool" where
  "agree R m m' \<longleftrightarrow> (\<forall>x. x \<notin> R \<longrightarrow> m' x = m x)"

lemma agree_refl [simp]: "agree R m m"
  by (simp add: agree_def)

lemma agree_trans: "agree R m m' \<Longrightarrow> agree R' m' m'' \<Longrightarrow> agree (R \<union> R') m m''"
  by (simp add: agree_def)

lemma agree_mono: "agree R m m' \<Longrightarrow> R \<subseteq> R' \<Longrightarrow> agree R' m m'"
  by (auto simp: agree_def)

lemma agree_set_fld: "agree {a + field_offset f..<a + field_offset f + field_width f} m (set_fld f a v m)"
  by (auto simp: agree_def intro!: set_fld_outside)

lemma agree_same: "agree R m m' \<Longrightarrow> agree R m' m'' \<Longrightarrow> agree R m m''"
  by (simp add: agree_def)

lemma agree_link: "a \<in> X \<Longrightarrow> f = PreChunk \<or> f = NextChunk \<Longrightarrow> agree (links X) m (set_fld f a v m)"
  by (rule agree_mono [OF agree_set_fld]) (auto simp: links_def)

lemma agree_unlinked:
  assumes "set as \<union> set bs \<subseteq> X"
  shows "agree (links X) m (lk.unlinked as bs m)"
proof -
  let ?m = "if as = [] then m else set_fld NextChunk (last as) (lk.ptr_first bs) m"
  have a: "agree (links X) m ?m" using assms by (auto intro!: agree_link)
  have "bs \<noteq> [] \<Longrightarrow> agree (links X) ?m (set_fld PreChunk (hd bs) (lk.ptr_last as) ?m)" using assms by (intro agree_link) auto
  then have "bs \<noteq> [] \<Longrightarrow> agree (links X) m (set_fld PreChunk (hd bs) (lk.ptr_last as) ?m)" by (rule agree_same [OF a])
  then show ?thesis using a unfolding lk.unlinked_def Let_def by presburger
qed

lemma agree_pushed:
  assumes "insert h (set xs) \<subseteq> X"
  shows "agree (links X) m (lk.pushed h xs m)"
proof -
  let ?m1 = "set_fld NextChunk h (lk.ptr_first xs) m" and ?m2 = "\<lambda>m. set_fld PreChunk h 0 m"
  have "agree (links X) m ?m1" "agree (links X) ?m1 (?m2 ?m1)" using assms by (auto intro!: agree_link)
  then have a: "agree (links X) m (?m2 ?m1)" by (rule agree_same)
  have "xs \<noteq> [] \<Longrightarrow> agree (links X) (?m2 ?m1) (set_fld PreChunk (hd xs) h (?m2 ?m1))" using assms by (intro agree_link) auto
  then have "xs \<noteq> [] \<Longrightarrow> agree (links X) m (set_fld PreChunk (hd xs) h (?m2 ?m1))" by (rule agree_same [OF a])
  then show ?thesis using a unfolding lk.pushed_def Let_def by presburger
qed

lemma ends_zero:
  assumes "reach s S" "set xs \<subseteq> S"
  shows "lk.ptr_first xs = 0 \<longleftrightarrow> xs = []" "lk.ptr_last xs = 0 \<longleftrightarrow> xs = []"
proof -
  have "xs \<noteq> [] \<Longrightarrow> 0 < hd xs \<and> 0 < last xs"
    using assms hd_in_set [of xs] last_in_set [of xs] unfolding reach_def by blast
  then show "lk.ptr_first xs = 0 \<longleftrightarrow> xs = []" "lk.ptr_last xs = 0 \<longleftrightarrow> xs = []"
    by (auto simp: lk.ptr_first_def lk.ptr_last_def)
qed

lemma unlink_bin_eq:
  assumes re: "reach s S" and xs: "set (as @ h # bs) \<subseteq> S" "distinct (as @ h # bs)" "lk.dll (chunks s) (as @ h # bs)"
    and ends: "bins s b = bin_ends (as @ h # bs)"
  shows "unlink_bin b h s = Some (0, s\<lparr>chunks := lk.unlinked as bs (chunks s), bins := (bins s)(b := bin_ends (as @ bs))\<rparr>)"
proof -
  have hS: "h \<in> S" "h \<noteq> 0" and sub: "set as \<subseteq> S" "set bs \<subseteq> S" using xs(1) re by (auto simp: reach_def)
  note z = ends_zero [OF re sub(1)] ends_zero [OF re sub(2)] ends_zero [OF re xs(1)]
  have f: "fld PreChunk (chunks s) h = lk.ptr_last as" "fld NextChunk (chunks s) h = lk.ptr_first bs"
    using lk.dllD [OF xs(3)] by simp_all
  have e: "m_hNextChunk (bins s b) \<noteq> 0" "m_hPreChunk (bins s b) \<noteq> 0" using ends z by (simp_all add: bin_ends_def)
  have l: "as \<noteq> [] \<Longrightarrow> last as \<in> S \<and> last as \<noteq> h" "bs \<noteq> [] \<Longrightarrow> hd bs \<in> S \<and> hd bs \<noteq> h"
    using xs(1,2) last_in_set [of as] hd_in_set [of bs] by auto
  let ?s1 = "if as = [] then set_first b (lk.ptr_first bs) s else s\<lparr>chunks := set_fld NextChunk (last as) (lk.ptr_first bs) (chunks s)\<rparr>"
  have re1: "reach ?s1 S" by (rule reach_cong [OF re]) (simp add: set_first_def)
  have "fits NextChunk (lk.ptr_first bs)" using lk.fits_ends [OF reach_carrier [OF re] sub(2)] by simp
  then have f1: "fld PreChunk (chunks ?s1) h = lk.ptr_last as" "fld NextChunk (chunks ?s1) h = lk.ptr_first bs"
    using f fld_put_reach [OF re _ hS(1)] l(1) by (auto simp: set_first_def)
  have c1: "(if lk.ptr_last as = 0 then Some (set_first b (lk.ptr_first bs) s) else put_fld NextChunk (lk.ptr_last as) (lk.ptr_first bs) s) = Some ?s1"
    using z l put_fld_reach [OF re, of "last as"] by (cases "as = []") (auto simp: lk.ptr_last_def)
  have c2: "(if lk.ptr_first bs = 0 then Some (set_last b (lk.ptr_last as) ?s1) else put_fld PreChunk (lk.ptr_first bs) (lk.ptr_last as) ?s1) =
      Some (s\<lparr>chunks := lk.unlinked as bs (chunks s), bins := (bins s)(b := bin_ends (as @ bs))\<rparr>)"
  proof (cases bs)
    case Nil
    then show ?thesis using ends
      by (cases as rule: rev_cases) (auto simp: lk.ptr_first_def lk.ptr_last_def lk.unlinked_def set_first_def set_last_def bin_ends_def hd_append)
  next
    case (Cons c cs)
    then have "put_fld PreChunk c (lk.ptr_last as) ?s1 = Some (?s1\<lparr>chunks := set_fld PreChunk c (lk.ptr_last as) (chunks ?s1)\<rparr>)"
      using put_fld_reach [OF re1] l by simp
    moreover have "lk.ptr_first bs = c" "c \<noteq> 0" using Cons z(3) by (auto simp: lk.ptr_first_def)
    moreover have "bin_ends (as @ bs) = (if as = [] then (bins s b)\<lparr>m_hNextChunk := c\<rparr> else bins s b)"
      using ends Cons by (auto simp: bin_ends_def lk.ptr_first_def lk.ptr_last_def)
    ultimately show ?thesis using Cons by (cases "as = []") (simp_all add: lk.unlinked_def set_first_def fun_upd_idem)
  qed
  show ?thesis
    using hS e get_fld_reach [OF re hS(1)] get_fld_reach [OF re1 hS(1)] f f1 c1 c2 by (simp add: unlink_bin_def)
qed

lemma link_bin_eq:
  assumes re: "reach s S" and xs: "insert h (set xs) \<subseteq> S" and ends: "bins s b = bin_ends xs"
  shows "link_bin b h s = Some (0, s\<lparr>chunks := lk.pushed h xs (chunks s), bins := (bins s)(b := bin_ends (h # xs))\<rparr>)"
proof -
  have pos: "\<And>x. x \<in> S \<Longrightarrow> x \<noteq> 0" using re by (auto simp: reach_def)
  then have nz: "h \<noteq> 0" "xs \<noteq> [] \<Longrightarrow> hd xs \<noteq> 0 \<and> hd xs \<in> S" "xs \<noteq> [] \<Longrightarrow> last xs \<noteq> 0"
    using xs last_in_set [of xs] hd_in_set [of xs] by (auto simp del: last_in_set hd_in_set)
  have hS: "h \<in> S" using xs by simp
  have p: "put_fld f x v (s\<lparr>chunks := m\<rparr>) = Some (s\<lparr>chunks := set_fld f x v m\<rparr>)" if "x \<in> S" for f x v m
    using put_fld_reach [OF reach_cong [OF re, of "s\<lparr>chunks := m\<rparr>"] that] by simp
  show ?thesis
    using nz put_fld_reach [OF re hS] p [OF hS] p [of "hd xs"] ends
    by (cases xs) (auto simp: link_bin_def lk.pushed_def lk.ptr_first_def lk.ptr_last_def set_first_def set_last_def bin_ends_def Let_def)
qed

lemma binnedD:
  assumes "binned s F B" "i < NBINS"
  shows "distinct (B i)" "set (B i) = {a. \<exists>n. (a, n) \<in> F \<and> bin_index n = i}" "lk.dll (chunks s) (B i)"
    "bins s (Bin i) = bin_ends (B i)" "B i \<noteq> [] \<Longrightarrow> bit (m_auiBinBitMap s (i div 32)) (i mod 32)"
  using assms by (auto simp: binned_def)

lemma binned_cong:
  assumes "binned s F B" "bins s' = bins s" "m_auiBinBitMap s' = m_auiBinBitMap s"
    and "\<And>a f. a \<in> fst ` F \<Longrightarrow> f = PreChunk \<or> f = NextChunk \<Longrightarrow> fld f (chunks s') a = fld f (chunks s) a"
  shows "binned s' F B"
proof -
  have "lk.dll (chunks s') (B i)" if i: "i < NBINS" for i
    by (rule lk.dll_cong [OF binnedD(3) [OF assms(1) i]]) (use assms(4) binnedD(2) [OF assms(1) i] in force)
  then show ?thesis using assms(1-3) by (simp add: binned_def)
qed

lemma binned_links:
  assumes "binned s F B" "fst ` F \<subseteq> S"
    and "\<And>a f. a \<in> S \<Longrightarrow> f = PreChunk \<or> f = NextChunk \<Longrightarrow> fld f m a = fld f (chunks s) a"
  shows "binned (s\<lparr>chunks := m\<rparr>) F B"
proof (rule binned_cong [OF assms(1)])
  fix a f assume "a \<in> fst ` F" "f = PreChunk \<or> f = NextChunk"
  then show "fld f (chunks (s\<lparr>chunks := m\<rparr>)) a = fld f (chunks s) a" using assms(3) [of a f] assms(2) by auto
qed simp_all

lemma bin_position_eq: "(i :: nat) div 32 = j div 32 \<Longrightarrow> i mod 32 = j mod 32 \<Longrightarrow> i = j"
  by (metis div_mult_mod_eq)

text \<open>Removing a free chunk from its bin, with the bit of the bin cleared when it became empty.\<close>

lemma unlink_binned:
  assumes b: "binned s F B" and re: "reach s S" and F: "fst ` F \<subseteq> S" "single_valued F" and h: "(h, n) \<in> F"
  defines "i \<equiv> bin_index n"
  obtains m b' bm where "unlink_bin (Bin i) h s = Some (0, s\<lparr>chunks := m, bins := b'\<rparr>)"
    "clear_if_empty i (s\<lparr>chunks := m, bins := b'\<rparr>) = s\<lparr>chunks := m, bins := b', m_auiBinBitMap := bm\<rparr>"
    "binned (s\<lparr>chunks := m, bins := b', m_auiBinBitMap := bm\<rparr>) (F - {(h, n)}) (B(i := remove1 h (B i)))"
    "same_tags S (chunks s) m" "agree (links (fst ` F)) (chunks s) m"
proof -
  have i: "i < NBINS" by (simp add: i_def bin_index_less)
  note bi = binnedD [OF b i]
  have "h \<in> set (B i)" using h bi(2) by (auto simp: i_def)
  then obtain as bs where B: "B i = as @ h # bs" by (meson split_list)
  have sub: "set (B j) \<subseteq> S" "set (B j) \<subseteq> fst ` F" if "j < NBINS" for j using binnedD(2) [OF b that] F(1) by force+
  have dist: "distinct (as @ h # bs)" "h \<notin> set as" "h \<notin> set bs" using bi(1) B by auto
  let ?m = "lk.unlinked as bs (chunks s)" and ?b = "(bins s)(Bin i := bin_ends (as @ bs))"
  let ?bm = "m_auiBinBitMap (clear_if_empty i (s\<lparr>chunks := ?m, bins := ?b\<rparr>))"
  let ?s = "s\<lparr>chunks := ?m, bins := ?b, m_auiBinBitMap := ?bm\<rparr>"
  have eq: "unlink_bin (Bin i) h s = Some (0, s\<lparr>chunks := ?m, bins := ?b\<rparr>)"
    using unlink_bin_eq [OF re _ dist(1), of "Bin i"] sub(1) [OF i] bi B by simp
  note g = lk.get_unlinked [OF reach_carrier [OF re], of as bs]
  have asbs: "set as \<union> set bs \<subseteq> S" using sub(1) [OF i] B by auto
  have g': "fld f ?m y = fld f (chunks s) y" if "y \<in> S" "y \<notin> set as \<union> set bs" for f y
    using g [OF asbs that(1)] that(2) by auto
  have ends0: "m_hNextChunk (bin_ends (as @ bs)) = 0 \<longleftrightarrow> as @ bs = []"
    using ends_zero(1) [OF re, of "as @ bs"] asbs by (simp add: bin_ends_def)
  have bit: "bit (?bm (j div 32)) (j mod 32)" if j: "j < NBINS" "j \<noteq> i \<or> as @ bs \<noteq> []" "bit (m_auiBinBitMap s (j div 32)) (j mod 32)" for j
    using j(2,3) bin_position_eq [of i j] ends0
    by (auto simp: clear_if_empty_def clear_bin_bit_map_def empty_bin_def bit_and_iff bit_not_iff bit_push_bit_iff bit_1_iff simp del: push_bit_of_1)
  have "binned ?s (F - {(h, n)}) (B(i := remove1 h (B i)))"
    unfolding binned_def
  proof (intro allI impI)
    fix j assume j: "j < NBINS"
    note bj = binnedD [OF b j]
    show "distinct ((B(i := remove1 h (B i))) j) \<and> set ((B(i := remove1 h (B i))) j) = {a. \<exists>k. (a, k) \<in> F - {(h, n)} \<and> bin_index k = j} \<and>
      lk.dll (chunks ?s) ((B(i := remove1 h (B i))) j) \<and> bins ?s (Bin j) = bin_ends ((B(i := remove1 h (B i))) j) \<and>
      ((B(i := remove1 h (B i))) j \<noteq> [] \<longrightarrow> bit (m_auiBinBitMap ?s (j div 32)) (j mod 32))"
    proof (cases "j = i")
      case True
      have "remove1 h (B i) = as @ bs" using B dist by (simp add: remove1_append)
      moreover have "set (as @ bs) = {a. \<exists>k. (a, k) \<in> F - {(h, n)} \<and> bin_index k = i}"
      proof -
        have "set (as @ bs) = set (B i) - {h}" using B dist by auto
        then show ?thesis using bi(2) F(2) h by (auto simp: single_valued_def i_def)
      qed
      moreover have "lk.dll ?m (as @ bs)"
        using lk.dll_unlinked [OF reach_carrier [OF re] _ dist(1)] sub(1) [OF i] bi(3) B by simp
      ultimately show ?thesis using True dist bit [OF i] bi(5) B by auto
    next
      case False
      have "set (B j) \<inter> set (B i) = {}" unfolding bj(2) bi(2) using False F(2) unfolding single_valued_def by blast
      then have "set (B j) \<inter> (set as \<union> set bs) = {}" using B by auto
      then have "x \<in> S" "x \<notin> set as \<union> set bs" if "x \<in> set (B j)" for x using sub(1) [OF j] that by blast+
      then have "lk.dll ?m (B j)" by (intro lk.dll_cong [OF bj(3)] conjI g')
      moreover have "{a. \<exists>k. (a, k) \<in> F \<and> bin_index k = j} = {a. \<exists>k. (a, k) \<in> F - {(h, n)} \<and> bin_index k = j}"
        using False by (auto simp: i_def)
      ultimately show ?thesis using bj bit [OF j] False by simp
    qed
  qed
  moreover have "same_tags S (chunks s) ?m" using g [OF asbs] by (simp add: same_tags_def)
  moreover have "agree (links (fst ` F)) (chunks s) ?m" by (rule agree_unlinked) (use sub(2) [OF i] B in auto)
  moreover have "clear_if_empty i (s\<lparr>chunks := ?m, bins := ?b\<rparr>) = ?s" by (simp add: clear_if_empty_def clear_bin_bit_map_def)
  ultimately show thesis using that [OF eq] by blast
qed

text \<open>Putting a free chunk into its bin, with the bit of the bin set.\<close>

lemma link_binned:
  fixes n :: nat
  assumes b: "binned s F B" and re: "reach s S" and F: "fst ` F \<subseteq> S" "single_valued F" and h: "h \<in> S" "h \<notin> fst ` F"
  defines "i \<equiv> bin_index n"
  obtains m b' bm where "link_bin (Bin i) h s = Some (0, s\<lparr>chunks := m, bins := b'\<rparr>)"
    "set_bin_bit_map i (s\<lparr>chunks := m, bins := b'\<rparr>) = s\<lparr>chunks := m, bins := b', m_auiBinBitMap := bm\<rparr>"
    "binned (s\<lparr>chunks := m, bins := b', m_auiBinBitMap := bm\<rparr>) (insert (h, n) F) (B(i := h # B i))"
    "same_tags S (chunks s) m" "agree (links (insert h (fst ` F))) (chunks s) m"
proof -
  have i: "i < NBINS" by (simp add: i_def bin_index_less)
  note bi = binnedD [OF b i]
  have sub: "set (B j) \<subseteq> S" "set (B j) \<subseteq> fst ` F" if "j < NBINS" for j using binnedD(2) [OF b that] F(1) by force+
  have hi: "h \<notin> set (B j)" if "j < NBINS" for j using sub(2) [OF that] h(2) by blast
  have hS: "insert h (set (B i)) \<subseteq> S" using sub(1) [OF i] h by simp
  let ?m = "lk.pushed h (B i) (chunks s)" and ?b = "(bins s)(Bin i := bin_ends (h # B i))"
  let ?bm = "m_auiBinBitMap (set_bin_bit_map i (s\<lparr>chunks := ?m, bins := ?b\<rparr>))"
  let ?s = "s\<lparr>chunks := ?m, bins := ?b, m_auiBinBitMap := ?bm\<rparr>"
  have eq: "link_bin (Bin i) h s = Some (0, s\<lparr>chunks := ?m, bins := ?b\<rparr>)" by (rule link_bin_eq [OF re hS bi(4)])
  note g = lk.get_pushed [OF reach_carrier [OF re] hS _ hi [OF i]]
  have g': "fld f ?m y = fld f (chunks s) y" if "y \<in> S" "y \<noteq> h" "y \<notin> set (B i)" for f y
    using g [OF that(1)] that(2,3) by auto
  have bit: "bit (?bm (j div 32)) (j mod 32)" if "j < NBINS" "j = i \<or> bit (m_auiBinBitMap s (j div 32)) (j mod 32)" for j
    using that by (auto simp: set_bin_bit_map_def bit_or_iff bit_push_bit_iff bit_1_iff simp del: push_bit_of_1)
  have "binned ?s (insert (h, n) F) (B(i := h # B i))"
    unfolding binned_def
  proof (intro allI impI)
    fix j assume j: "j < NBINS"
    note bj = binnedD [OF b j]
    show "distinct ((B(i := h # B i)) j) \<and> set ((B(i := h # B i)) j) = {a. \<exists>k. (a, k) \<in> insert (h, n) F \<and> bin_index k = j} \<and>
      lk.dll (chunks ?s) ((B(i := h # B i)) j) \<and> bins ?s (Bin j) = bin_ends ((B(i := h # B i)) j) \<and>
      ((B(i := h # B i)) j \<noteq> [] \<longrightarrow> bit (m_auiBinBitMap ?s (j div 32)) (j mod 32))"
    proof (cases "j = i")
      case True
      have "lk.dll ?m (h # B i)" using lk.dll_pushed [OF reach_carrier [OF re] hS _ bi(3)] bi(1) hi [OF i] by simp
      then show ?thesis using True bi(1,2) hi [OF i] bit [OF i] by (auto simp: i_def)
    next
      case False
      have "set (B j) \<inter> set (B i) = {}" unfolding bj(2) bi(2) using False F(2) unfolding single_valued_def by blast
      then have "x \<in> S" "x \<noteq> h" "x \<notin> set (B i)" if "x \<in> set (B j)" for x using sub(1) [OF j] hi [OF j] that by blast+
      then have "lk.dll ?m (B j)" by (intro lk.dll_cong [OF bj(3)] conjI g')
      then show ?thesis using bj bit [OF j] False by (auto simp: i_def)
    qed
  qed
  moreover have "same_tags S (chunks s) ?m" using g by (simp add: same_tags_def)
  moreover have "agree (links (insert h (fst ` F))) (chunks s) ?m" by (rule agree_pushed) (use sub(2) [OF i] in auto)
  moreover have "set_bin_bit_map i (s\<lparr>chunks := ?m, bins := ?b\<rparr>) = ?s" by (simp add: set_bin_bit_map_def)
  ultimately show thesis using that [OF eq] by blast
qed

section \<open>The invariant\<close>

definition free_blks :: "blk list \<Rightarrow> (nat \<times> nat) set" where
  "free_blks L = {(a, n). (a, n, False) \<in> set L}"

lemma free_blks_simps [simp]:
  "free_blks [] = {}"
  "free_blks ((a, n, u) # L) = (if u then free_blks L else insert (a, n) (free_blks L))"
  "free_blks (xs @ ys) = free_blks xs \<union> free_blks ys"
  by (auto simp: free_blks_def)

lemma fst_free_blks: "fst ` free_blks L \<subseteq> fst ` set L"
  by (force simp: free_blks_def)

lemma tiles_once: "tiles lo (xs @ (a, n, u) # ys) hi \<Longrightarrow> a \<notin> fst ` set xs \<and> a \<notin> fst ` set ys"
  using tiles_distinct [of lo "xs @ (a, n, u) # ys" hi] by auto

lemma free_blks_taken:
  "tiles lo (xs @ (a, n, False) # ys) hi \<Longrightarrow> free_blks (xs @ (a, n, False) # ys) - {(a, n)} = free_blks xs \<union> free_blks ys"
  using tiles_once [of lo xs a n False ys hi] by (force simp: free_blks_def)

text \<open>The chunks fill the memory from the bottom to the top, behind which a header still fits. The
  memory is small enough for the size of a chunk to describe it.\<close>

definition bm_ok :: "bin_malloc \<Rightarrow> blk list \<Rightarrow> (nat \<Rightarrow> nat list) \<Rightarrow> bool" where
  "bm_ok s L B \<longleftrightarrow>
     8 dvd m_hBottom s \<and> 0 < m_hBottom s \<and> tiles (m_hBottom s) L (m_hTop s) \<and> m_hTop s + MINSIZE \<le> m_tSize s \<and>
     m_tSize s \<le> MAX_ALLOC_SIZE \<and> headers (chunks s) L (m_hTop s) \<and> binned s (free_blks L) B"

lemma bm_okD:
  assumes "bm_ok s L B"
  shows "tiles (m_hBottom s) L (m_hTop s)" "headers (chunks s) L (m_hTop s)" "binned s (free_blks L) B"
    "reach s (starts L (m_hTop s))" "fst ` free_blks L \<subseteq> starts L (m_hTop s)" "single_valued (free_blks L)"
    "m_hTop s + 24 \<le> m_tSize s" "m_tSize s \<le> MAX_ALLOC_SIZE"
proof -
  show t: "tiles (m_hBottom s) L (m_hTop s)" and "headers (chunks s) L (m_hTop s)" "binned s (free_blks L) B"
    and top: "m_hTop s + 24 \<le> m_tSize s" "m_tSize s \<le> MAX_ALLOC_SIZE" using assms by (auto simp: bm_ok_def)
  have "0 < a \<and> a + 24 \<le> m_tSize s" if "a \<in> starts L (m_hTop s)" for a
    using starts_less [OF t that] assms by (auto simp: bm_ok_def)
  then show "reach s (starts L (m_hTop s))" using starts_spaced [OF t] top by (simp add: reach_def)
  show "fst ` free_blks L \<subseteq> starts L (m_hTop s)" using fst_free_blks [of L] by (auto simp: starts_def)
  show "single_valued (free_blks L)" using tiles_unique [OF t] unfolding single_valued_def free_blks_def by blast
qed

text \<open>Tags of the chunks before a position or behind it survive writes elsewhere.\<close>

lemma tagged_below:
  assumes "tiles lo xs q" "tagged m pu xs" "fst ` set xs \<subseteq> S" "q \<in> S"
    and "\<And>a. a \<in> S \<Longrightarrow> a < q \<Longrightarrow> fld Size m' a = fld Size m a" "\<And>a. a \<in> S \<Longrightarrow> a \<le> q \<Longrightarrow> fld PreSize m' a = fld PreSize m a"
  shows "tagged m' pu xs"
proof (rule tagged_cong [OF assms(2)])
  fix a assume a: "a \<in> fst ` set xs"
  then have "a < q" "a \<in> S" using tiles_start_less [OF assms(1) a] assms(3) by auto
  then show "fld Size m' a = fld Size m a" by (intro assms(5))
next
  fix a n assume a: "(a, n, False) \<in> set xs"
  then have "a + n \<in> S" using tiles_end [OF assms(1) a] assms(3,4) by (auto simp: starts_def)
  then show "fld PreSize m' (a + n) = fld PreSize m (a + n)" using tiles_bounds(2) [OF assms(1) a] by (intro assms(6))
qed

lemma tagged_above:
  assumes "tiles e ys hi" "tagged m pu ys" "starts ys hi \<subseteq> S"
    and "\<And>a. a \<in> S \<Longrightarrow> e \<le> a \<Longrightarrow> fld Size m' a = fld Size m a" "\<And>a. a \<in> S \<Longrightarrow> e < a \<Longrightarrow> fld PreSize m' a = fld PreSize m a"
  shows "tagged m' pu ys"
proof (rule tagged_cong [OF assms(2)])
  fix a assume a: "a \<in> fst ` set ys"
  then have "e \<le> a" "a \<in> S" using tiles_start_less [OF assms(1) a] assms(3) by (auto simp: starts_def)
  then show "fld Size m' a = fld Size m a" by (intro assms(4))
next
  fix a n assume a: "(a, n, False) \<in> set ys"
  then have "a + n \<in> S" using tiles_end [OF assms(1) a] assms(3) by auto
  moreover have "e < a + n" using tiles_bounds [OF assms(1) a] by simp
  ultimately show "fld PreSize m' (a + n) = fld PreSize m (a + n)" by (intro assms(5))
qed

section \<open>The bytes of the users\<close>

text \<open>A chunk in use belongs to its user from behind the size field up to the size field of the next
  chunk. Memory that changed elsewhere only keeps what the users of a list of chunks stored.\<close>

definition keeps :: "blk list \<Rightarrow> memory \<Rightarrow> memory \<Rightarrow> bool" where
  "keeps L m m' \<longleftrightarrow> (\<forall>a n x. (a, n, True) \<in> set L \<longrightarrow> a + 8 \<le> x \<longrightarrow> x < a + n + 4 \<longrightarrow> m' x = m x)"

lemma keeps_refl [simp]: "keeps L m m"
  by (simp add: keeps_def)

lemma keeps_trans: "keeps L m m' \<Longrightarrow> keeps L m' m'' \<Longrightarrow> keeps L m m''"
  by (simp add: keeps_def)

lemma keeps_subset: "keeps L m m' \<Longrightarrow> set L' \<subseteq> set L \<Longrightarrow> keeps L' m m'"
  by (auto simp: keeps_def)

lemma keeps_agree:
  assumes "agree R m m'" "\<And>a n x. (a, n, True) \<in> set L \<Longrightarrow> x \<in> R \<Longrightarrow> x < a + 8 \<or> a + n + 4 \<le> x"
  shows "keeps L m m'"
  using assms unfolding keeps_def agree_def by (metis not_less)

lemma tiles_order:
  assumes "tiles lo L hi" "(a, n, u) \<in> set L" "c \<in> starts L hi"
  shows "c \<le> a \<or> a + n \<le> c"
proof -
  obtain xs ys where L: "L = xs @ (a, n, u) # ys" using assms(2) by (meson split_list)
  then have t: "tiles lo xs a" "tiles (a + n) ys hi" using assms(1) by (simp_all add: tiles_middle)
  show ?thesis using assms(3) L tiles_start_less [OF t(1)] starts_less [OF t(2)] by fastforce
qed

lemma keeps_links:
  assumes "tiles lo L hi" "agree (links (fst ` free_blks L)) m m'"
  shows "keeps L m m'"
proof (rule keeps_agree [OF assms(2)])
  fix a n x assume a: "(a, n, True) \<in> set L" and "x \<in> links (fst ` free_blks L)"
  then obtain c k where c: "(c, k, False) \<in> set L" "c + 8 \<le> x" "x < c + 24" by (auto simp: links_def free_blks_def)
  have "a \<in> starts L hi" "c \<in> starts L hi" using a c(1) by (force simp: starts_def)+
  moreover have "a \<noteq> c" using tiles_unique [OF assms(1) c(1), of n True] a by auto
  ultimately have "c + k \<le> a \<or> a + n \<le> c"
    using tiles_order [OF assms(1) a, of c] tiles_order [OF assms(1) c(1), of a] by auto
  then show "x < a + 8 \<or> a + n + 4 \<le> x" using c tiles_bounds(3) [OF assms(1) c(1)] by auto
qed

lemma keeps_size:
  assumes "tiles lo L hi" "c \<in> starts L hi"
  shows "keeps L m (set_fld Size c v m)"
  by (rule keeps_agree [OF agree_set_fld]) (use tiles_order [OF assms(1) _ assms(2)] in force)

lemma keeps_pre:
  assumes "tiles lo (xs @ (a, n, u) # ys) hi"
  shows "keeps (xs @ ys) m (set_fld PreSize (a + n) v m)"
proof (rule keeps_agree [OF agree_set_fld])
  fix b k x assume b: "(b, k, True) \<in> set (xs @ ys)" and x: "x \<in> {a + n + field_offset PreSize..<a + n + field_offset PreSize + field_width PreSize}"
  have t: "tiles lo xs a" "24 \<le> n" "tiles (a + n) ys hi" using assms by (simp_all add: tiles_middle)
  have "b + k \<le> a \<or> a + n \<le> b" using b tiles_bounds [OF t(1)] tiles_bounds [OF t(3)] by auto
  then show "x < b + 8 \<or> b + k + 4 \<le> x" using x t(2) by auto
qed

end
