(* ===== verification/Bin_Free.thy ===== *)
theory Bin_Free
  imports Bin_Layout
begin

text \<open>
  Release in the allocator: joining the neighbours, giving the chunk back to the top or to a bin,
  and the checks before it. Each part keeps the invariant for a layout it determines, and leaves
  the bytes of all other users alone.
\<close>

section \<open>Joining the neighbours\<close>

text \<open>Everything but the memory, the bins and their bitmap is the same.\<close>

definition same_head :: "bin_malloc \<Rightarrow> bin_malloc \<Rightarrow> bool" where
  "same_head s s' \<longleftrightarrow> s' = s\<lparr>chunks := chunks s', bins := bins s', m_auiBinBitMap := m_auiBinBitMap s'\<rparr>"

lemma same_head_refl [simp]: "same_head s s"
  by (simp add: same_head_def)

lemma same_head_trans: "same_head s s' \<Longrightarrow> same_head s' s'' \<Longrightarrow> same_head s s''"
  by (cases s; cases s'; cases s'') (simp add: same_head_def)

lemma same_headD:
  assumes "same_head s s'"
  shows "m_tSize s' = m_tSize s" "m_hBottom s' = m_hBottom s" "m_hTop s' = m_hTop s"
    "m_tLastFreeChunkSize s' = m_tLastFreeChunkSize s" "minChunkSize s' = minChunkSize s" "statChunkTotal s' = statChunkTotal s"
    "statDataSize s' = statDataSize s" "m_tUserAllocSize s' = m_tUserAllocSize s" "m_tUserAllocChunkCnt s' = m_tUserAllocChunkCnt s"
  using assms by (cases s; cases s'; simp add: same_head_def)+

lemma REAL_SIZE_aligned: "8 dvd n \<Longrightarrow> REAL_SIZE n = n" "8 dvd n \<Longrightarrow> REAL_SIZE (n + of_bool u) = n" "8 dvd n \<Longrightarrow> REAL_SIZE (Suc n) = n"
  by (auto simp: REAL_SIZE_def elim!: dvdE)

lemma aligned_mod: "8 dvd (n :: nat) \<Longrightarrow> (n + of_bool u) mod 8 = of_bool u"
  by (auto elim!: dvdE)

lemma ok_size:
  assumes "bm_ok s (xs @ (a, n, u) # ys) B"
  shows "a + n \<le> m_hTop s" "24 \<le> n" "8 dvd n" "8 dvd a" "0 < a" "n \<le> MAX_ALLOC_SIZE" "a + n + 24 \<le> m_tSize s"
    "u32_of n = n" "m_hBottom s \<le> a"
proof -
  have t: "tiles (m_hBottom s) xs a" "tiles (a + n) ys (m_hTop s)" "24 \<le> n" "8 dvd n"
    using bm_okD(1) [OF assms] by (simp_all add: tiles_middle)
  then show "24 \<le> n" "8 dvd n" "a + n \<le> m_hTop s" "m_hBottom s \<le> a" using tiles_le by auto
  then show "n \<le> MAX_ALLOC_SIZE" "a + n + 24 \<le> m_tSize s" using bm_okD(7,8) [OF assms] by auto
  then show "u32_of n = n" by (simp add: u32_of_def MAX_ALLOC_SIZE_def)
  show "8 dvd a" "0 < a" using tiles_aligned [OF t(1)] tiles_le [OF t(1)] assms by (auto simp: bm_ok_def)
qed

text \<open>A used chunk whose predecessor is free swallows it and stays a used chunk.\<close>

lemma merge_prev_free:
  assumes ok: "bm_ok s (xs @ (q, n, False) # (p, t, True) # ys) B"
  obtains s' B' where "merge_prev p t s = Some (q, n + t, s')" "bm_ok s' (xs @ (q, n + t, True) # ys) B'" "same_head s s'"
    "keeps (xs @ ys) (chunks s) (chunks s')"
proof -
  let ?L = "xs @ (q, n, False) # (p, t, True) # ys" and ?e = "p + t" and ?T = "n + t"
  let ?S = "starts ?L (m_hTop s)"
  note okD = bm_okD [OF ok]
  have p: "p = q + n" and tl: "tiles (m_hBottom s) xs q" "tiles ?e ys (m_hTop s)" using okD(1) by (auto simp: tiles_middle)
  have sq: "24 \<le> n" "8 dvd n" "0 < q" and st: "24 \<le> t" "8 dvd t" "?e \<le> m_hTop s"
    using ok_size [OF ok] ok_size [of s "xs @ [(q, n, False)]" p t True ys B] ok by simp_all
  have S: "q \<in> ?S" "p \<in> ?S" "?e \<in> ?S" "starts ys (m_hTop s) \<subseteq> ?S" "fst ` set xs \<subseteq> ?S" using tiles_first [OF tl(2)] by auto
  have T: "?T \<le> MAX_ALLOC_SIZE" "8 dvd ?T" using okD(7,8) st p sq by auto
  then have u: "u32_of ?T = ?T" "CAN_COMBILE t n" by (simp_all add: u32_of_def CAN_COMBILE_def MAX_ALLOC_SIZE_def)
  have h: "tagged (chunks s) True xs" "fld Size (chunks s) q = n + of_bool (lastu True xs)" "fld PreSize (chunks s) p = n" "lastu True xs"
    "fld Size (chunks s) p = t" "tagged (chunks s) True ys" "lastu True ys" "fld Size (chunks s) (m_hTop s) = 1"
    using okD(2) p by (simp_all add: headers_middle)
  have qF: "(q, n) \<in> free_blks ?L" by simp
  obtain m b bm where m: "unlink_bin (Bin (bin_index n)) q s = Some (0, s\<lparr>chunks := m, bins := b\<rparr>)"
    "clear_if_empty (bin_index n) (s\<lparr>chunks := m, bins := b\<rparr>) = s\<lparr>chunks := m, bins := b, m_auiBinBitMap := bm\<rparr>"
    "binned (s\<lparr>chunks := m, bins := b, m_auiBinBitMap := bm\<rparr>) (free_blks ?L - {(q, n)}) (B(bin_index n := remove1 q (B (bin_index n))))"
    "same_tags ?S (chunks s) m" "agree (links (fst ` free_blks ?L)) (chunks s) m"
    by (rule unlink_binned [OF okD(3,4,5,6) qF])
  let ?s = "\<lambda>m. s\<lparr>chunks := m, bins := b, m_auiBinBitMap := bm\<rparr>"
  let ?m1 = "set_fld Size q (?T + of_bool (lastu True xs)) m"
  let ?m2 = "set_fld PreSize ?e ?T ?m1"
  have re: "reach (?s m) ?S" for m using okD(4) by (rule reach_cong) simp
  have ft: "fits Size (?T + of_bool (lastu True xs))" "fits PreSize ?T" using T by (auto simp: fits_iff MAX_ALLOC_SIZE_def)
  note fp = fld_put_reach [OF okD(4) S(1) _ ft(1)] fld_put_reach [OF okD(4) S(3) _ ft(2)]
  have f: "fld Size ?m2 a = (if a = q then ?T + of_bool (lastu True xs) else fld Size (chunks s) a)"
    "fld PreSize ?m2 a = (if a = ?e then ?T else fld PreSize (chunks s) a)"
    "fld PreChunk ?m2 a = fld PreChunk m a" "fld NextChunk ?m2 a = fld NextChunk m a" if a: "a \<in> ?S" for a
    using m(4) a by (auto simp: fp same_tags_def)
  have "merge_prev p t s = Some (q, ?T, ?s ?m2)"
  proof -
    have a: "prev_inuse p s = Some False" "get_fld PreSize p s = Some n" "ptr_minus p n = Some q" "ptr_to_handle q s = q"
      using get_fld_reach [OF okD(4) S(2)] h st(2) p okD(7) st sq
      by (auto simp: prev_inuse_def ptr_minus_def ptr_to_handle_def dest: dvd_8_even)
    have sz: "fld Size m q = n + of_bool (lastu True xs)" using m(4) S(1) h(2) by (simp add: same_tags_def)
    have b: "set_size_at_offset q 0 ?T (?s m) = Some (?s ?m1)"
      using get_fld_reach [OF re S(1)] put_fld_reach [OF re S(1)] sz REAL_SIZE_aligned(1) [OF T(2)] aligned_mod [OF sq(2)]
      by (simp add: set_size_at_offset_def)
    have c: "set_presize_at_offset q ?T ?T (?s ?m1) = Some (?s ?m2)"
      using put_fld_reach [OF re S(3)] REAL_SIZE_aligned(1) [OF T(2)] p by (simp add: set_presize_at_offset_def add.assoc)
    show ?thesis using a u m(1,2) b c by (simp add: merge_prev_def add.commute Let_def)
  qed
  moreover have "bm_ok (?s ?m2) (xs @ (q, ?T, True) # ys) (B(bin_index n := remove1 q (B (bin_index n))))"
  proof -
    have "tagged ?m2 True xs"
      by (rule tagged_below [OF tl(1) h(1) S(5,1)]) (use f p st sq in auto)
    moreover have "tagged ?m2 True ys"
      by (rule tagged_above [OF tl(2) h(6) S(4)]) (use f p st sq in auto)
    moreover have "fld Size ?m2 (m_hTop s) = 1" using f(1) [of "m_hTop s"] h(8) p st by (simp add: starts_def)
    ultimately have "headers ?m2 (xs @ (q, ?T, True) # ys) (m_hTop s)" using f(1) [OF S(1)] h by (simp add: headers_middle)
    moreover have "binned (?s ?m2) (free_blks (xs @ (q, ?T, True) # ys)) (B(bin_index n := remove1 q (B (bin_index n))))"
    proof -
      have "free_blks ?L - {(q, n)} = free_blks (xs @ (q, ?T, True) # ys)" using free_blks_taken [OF okD(1)] by simp
      then have b: "binned (?s m) (free_blks (xs @ (q, ?T, True) # ys)) (B(bin_index n := remove1 q (B (bin_index n))))" using m(3) by simp
      have sub: "a \<in> ?S" if "a \<in> fst ` free_blks (xs @ (q, ?T, True) # ys)" for a
        using that okD(5) by auto
      have "fld g ?m2 a = fld g m a" if "a \<in> fst ` free_blks (xs @ (q, ?T, True) # ys)" "g = PreChunk \<or> g = NextChunk" for a g
        using f(3,4) [OF sub [OF that(1)]] that(2) by blast
      then show ?thesis by (intro binned_cong [OF b]) simp_all
    qed
    ultimately show ?thesis using ok tl T st sq p by (simp add: bm_ok_def tiles_middle add.assoc)
  qed
  moreover have "keeps (xs @ ys) (chunks s) ?m2"
  proof -
    have "keeps ?L (chunks s) m" "keeps ?L m ?m1" using keeps_links [OF okD(1) m(5)] keeps_size [OF okD(1) S(1)] by auto
    then have "keeps ?L (chunks s) ?m1" by (rule keeps_trans)
    then have "keeps (xs @ (q, n, False) # ys) (chunks s) ?m1" by (rule keeps_subset) auto
    moreover have "keeps (xs @ (q, n, False) # ys) ?m1 ?m2"
      using keeps_pre [of "m_hBottom s" "xs @ [(q, n, False)]" p t True ys "m_hTop s"] okD(1) by simp
    ultimately have "keeps (xs @ (q, n, False) # ys) (chunks s) ?m2" by (rule keeps_trans)
    then show ?thesis by (rule keeps_subset) auto
  qed
  ultimately show thesis using that by (auto simp: same_head_def)
qed

lemma merge_prev_used:
  assumes ok: "bm_ok s (xs @ (p, t, True) # ys) B" and "lastu True xs"
  shows "merge_prev p t s = Some (p, t, s)"
proof -
  have "p \<in> starts (xs @ (p, t, True) # ys) (m_hTop s)" by simp
  note g = get_fld_reach [OF bm_okD(4) [OF ok] this]
  have "fld Size (chunks s) p = Suc t" "even t"
    using bm_okD(2) [OF ok] assms(2) ok_size(3) [OF ok] by (auto simp: headers_middle dest: dvd_8_even)
  then show ?thesis by (simp add: merge_prev_def prev_inuse_def g)
qed

text \<open>The writes that come before the decision between top and bin.\<close>

definition mark :: "nat \<Rightarrow> nat \<Rightarrow> bin_malloc \<Rightarrow> bin_malloc option" where
  "mark p T s = do {
     s1 \<leftarrow> set_size_at_offset p 0 T s; s2 \<leftarrow> set_presize_at_offset p T T s1; set_inuse_bit_at_offset p T s2 }"

lemma inuse_fits: "v < 2 ^ 32 \<Longrightarrow> v div 2 * 2 + 1 < (2 ^ 32 :: nat)"
  by (simp add: less_mult_imp_div_less) presburger

lemma mark_eq:
  assumes re: "reach s S" and S: "p \<in> S" "p + T \<in> S" and T: "8 dvd T" "0 < T" "T \<le> MAX_ALLOC_SIZE"
    and v: "fld Size (chunks s) p mod 8 = of_bool u"
  obtains m where "mark p T s = Some (s\<lparr>chunks := m\<rparr>)"
    "\<And>a. a \<in> S \<Longrightarrow> fld Size m a = (if a = p then T + of_bool u else if a = p + T then fld Size (chunks s) a div 2 * 2 + 1 else fld Size (chunks s) a)"
    "\<And>a. a \<in> S \<Longrightarrow> fld PreSize m a = (if a = p + T then T else fld PreSize (chunks s) a)"
    "\<And>a f. a \<in> S \<Longrightarrow> f = PreChunk \<or> f = NextChunk \<Longrightarrow> fld f m a = fld f (chunks s) a"
    "agree ({p + 4..<p + 8} \<union> {p + T..<p + T + 8}) (chunks s) m"
proof -
  let ?w = "fld Size (chunks s) (p + T) div 2 * 2 + 1"
  let ?m1 = "set_fld Size p (T + of_bool u) (chunks s)"
  let ?m2 = "set_fld PreSize (p + T) T ?m1"
  let ?m3 = "set_fld Size (p + T) ?w ?m2"
  have re': "reach (s\<lparr>chunks := m\<rparr>) S" for m using re by (rule reach_cong) simp
  have "fits Size ?w" using fld_fits [of Size "chunks s" "p + T"] unfolding fits_iff by (rule inuse_fits)
  moreover have "fits Size (T + of_bool u)" "fits PreSize T" using T by (auto simp: fits_iff MAX_ALLOC_SIZE_def)
  ultimately have f: "fld g ?m1 a = (if g = Size \<and> a = p then T + of_bool u else fld g (chunks s) a)"
    "fld g ?m2 a = (if g = PreSize \<and> a = p + T then T else fld g ?m1 a)"
    "fld g ?m3 a = (if g = Size \<and> a = p + T then ?w else fld g ?m2 a)" if "a \<in> S" for a g
    using fld_put_reach [OF re _ that] S by auto
  have a: "set_size_at_offset p 0 T s = Some (s\<lparr>chunks := ?m1\<rparr>)"
    using get_fld_reach [OF re S(1)] put_fld_reach [OF re S(1)] REAL_SIZE_aligned(1) [OF T(1)] v by (simp add: set_size_at_offset_def)
  have b: "set_presize_at_offset p T T (s\<lparr>chunks := ?m1\<rparr>) = Some (s\<lparr>chunks := ?m2\<rparr>)"
    using put_fld_reach [OF re' S(2)] REAL_SIZE_aligned(1) [OF T(1)] by (simp add: set_presize_at_offset_def)
  have c: "set_inuse_bit_at_offset p T (s\<lparr>chunks := ?m2\<rparr>) = Some (s\<lparr>chunks := ?m3\<rparr>)"
    using get_fld_reach [OF re' S(2)] put_fld_reach [OF re' S(2)] f [OF S(2)] T(2) by (simp add: set_inuse_bit_at_offset_def)
  have A: "agree ({p + 4..<p + 8} \<union> {p + T..<p + T + 8}) (chunks s) ?m3"
  proof -
    have "agree {p + 4..<p + 8} (chunks s) ?m1" "agree {p + T..<p + T + 8} ?m1 ?m2" "agree {p + T..<p + T + 8} ?m2 ?m3"
      by (rule agree_mono [OF agree_set_fld]; simp)+
    then show ?thesis by (blast intro: agree_trans agree_same)
  qed
  have M: "mark p T s = Some (s\<lparr>chunks := ?m3\<rparr>)" using a b c by (simp add: mark_def)
  have F: "fld Size ?m3 a = (if a = p then T + of_bool u else if a = p + T then fld Size (chunks s) a div 2 * 2 + 1 else fld Size (chunks s) a)"
    "fld PreSize ?m3 a = (if a = p + T then T else fld PreSize (chunks s) a)"
    "g = PreChunk \<or> g = NextChunk \<Longrightarrow> fld g ?m3 a = fld g (chunks s) a" if "a \<in> S" for a g
    unfolding f(3) [OF that] f(2) [OF that] f(1) [OF that] using T(2) by auto
  show thesis by (rule that [OF M F A])
qed

lemma keeps_mark:
  assumes "agree ({p + 4..<p + 8} \<union> {p + T..<p + T + 8}) m m'" "24 \<le> T"
    and "\<And>a k. (a, k, True) \<in> set L \<Longrightarrow> a + k \<le> p \<or> p + T \<le> a"
  shows "keeps L m m'"
proof (rule keeps_agree [OF assms(1)])
  fix a n x assume "(a, n, True) \<in> set L" "x \<in> {p + 4..<p + 8} \<union> {p + T..<p + T + 8}"
  then show "x < a + 8 \<or> a + n + 4 \<le> x" using assms(2) assms(3) [of a n] by auto
qed

lemma tiles_others:
  assumes "tiles lo (xs @ (p, n, u) # ys) hi" "(a, k, v) \<in> set (xs @ ys)"
  shows "a + k \<le> p \<or> p + n \<le> a"
proof -
  have t: "tiles lo xs p" "tiles (p + n) ys hi" using assms(1) by (simp_all add: tiles_middle)
  show ?thesis using assms(2) tiles_bounds(2) [OF t(1), of a k v] tiles_bounds(1) [OF t(2), of a k v] by auto
qed

text \<open>A chunk in use that has no free chunk behind it: nothing changes but the copy of its size.\<close>

lemma mark_used:
  assumes ok: "bm_ok s (xs @ (p, t, True) # ys) B"
  obtains s' where "mark p t s = Some s'" "bm_ok s' (xs @ (p, t, True) # ys) B" "same_head s s'"
    "keeps (xs @ ys) (chunks s) (chunks s')" "fld PreSize (chunks s') (p + t) = t"
proof -
  let ?L = "xs @ (p, t, True) # ys"
  let ?S = "starts ?L (m_hTop s)"
  note okD = bm_okD [OF ok] and sz = ok_size [OF ok]
  have tl: "tiles (m_hBottom s) xs p" "tiles (p + t) ys (m_hTop s)" using okD(1) by (simp_all add: tiles_middle)
  have S: "p \<in> ?S" "p + t \<in> ?S" "starts ys (m_hTop s) \<subseteq> ?S" "fst ` set xs \<subseteq> ?S" "m_hTop s \<in> ?S"
    using tiles_first [OF tl(2)] by (auto simp: starts_def)
  have h: "tagged (chunks s) True xs" "fld Size (chunks s) p = t + of_bool (lastu True xs)" "tagged (chunks s) True ys" "lastu True ys"
    "fld Size (chunks s) (m_hTop s) = 1" using okD(2) by (simp_all add: headers_middle)
  have odd: "odd (fld Size (chunks s) (p + t))" using tag_behind [OF tl(2) h(3,5,4)] by simp
  have v: "fld Size (chunks s) p mod 8 = of_bool (lastu True xs)" using h(2) aligned_mod [OF sz(3)] by simp
  obtain m where m: "mark p t s = Some (s\<lparr>chunks := m\<rparr>)"
    "\<And>a. a \<in> ?S \<Longrightarrow> fld Size m a = (if a = p then t + of_bool (lastu True xs) else if a = p + t then fld Size (chunks s) a div 2 * 2 + 1 else fld Size (chunks s) a)"
    "\<And>a. a \<in> ?S \<Longrightarrow> fld PreSize m a = (if a = p + t then t else fld PreSize (chunks s) a)"
    "\<And>a f. a \<in> ?S \<Longrightarrow> f = PreChunk \<or> f = NextChunk \<Longrightarrow> fld f m a = fld f (chunks s) a"
    "agree ({p + 4..<p + 8} \<union> {p + t..<p + t + 8}) (chunks s) m"
    by (rule mark_eq [OF okD(4) S(1,2) sz(3) _ sz(6) v]) (use sz(2) in auto)
  have f: "fld Size m a = fld Size (chunks s) a" if "a \<in> ?S" for a
    using m(2) [OF that] h(2) odd by (auto elim!: oddE)
  have "tagged m True xs" by (rule tagged_below [OF tl(1) h(1) S(4,1)]) (use f m(3) sz(2) in auto)
  moreover have "tagged m True ys" by (rule tagged_above [OF tl(2) h(3) S(3)]) (use f m(3) in auto)
  ultimately have "headers m ?L (m_hTop s)" using f h S by (simp add: headers_middle)
  moreover have "binned (s\<lparr>chunks := m\<rparr>) (free_blks ?L) B"
    by (rule binned_links [OF okD(3,5) m(4)])
  ultimately have "bm_ok (s\<lparr>chunks := m\<rparr>) ?L B" using ok by (simp add: bm_ok_def)
  moreover have "keeps (xs @ ys) (chunks s) m"
    by (rule keeps_mark [OF m(5) sz(2)]) (rule tiles_others [OF okD(1)])
  ultimately show thesis using that [OF m(1)] m(3) [OF S(2)] by (simp add: same_head_def)
qed

lemma merge_next_used:
  assumes ok: "bm_ok s (xs @ (p, t, True) # ys) B" and u: "\<And>a n v zs. ys = (a, n, v) # zs \<Longrightarrow> v"
  shows "merge_next p t s = Some (0, t, s)"
proof (cases ys)
  case Nil
  then show ?thesis using bm_okD(1) [OF ok] by (simp add: merge_next_def tiles_middle)
next
  case (Cons b zs)
  obtain a n v where b: "b = (a, n, v)" by (cases b)
  have v: v using u Cons b by blast
  note okD = bm_okD [OF ok] and sz = ok_size [OF ok]
  have ok': "bm_ok s ((xs @ [(p, t, True)]) @ (a, n, True) # zs) B" using ok Cons b v by simp
  note okD' = bm_okD [OF ok'] and sz' = ok_size [OF ok']
  let ?S = "starts (xs @ (p, t, True) # ys) (m_hTop s)"
  have a: "a = p + t" "tiles (a + n) zs (m_hTop s)" using okD(1) Cons b by (simp_all add: tiles_middle)
  have S: "a \<in> ?S" "a + n \<in> ?S" using tiles_first [OF a(2)] Cons b by auto
  have h: "fld Size (chunks s) a = n + 1" "tagged (chunks s) True zs" "lastu True zs" "fld Size (chunks s) (m_hTop s) = 1"
    using okD'(2) by (simp_all add: headers_middle)
  have "odd (fld Size (chunks s) (a + n))" using tag_behind [OF a(2) h(2,4,3)] by simp
  then have "CHUNK_SIZE a s = Some n" "inuse_bit_at_offset a n s = Some True"
    using get_fld_reach [OF okD(4) S(1)] get_fld_reach [OF okD(4) S(2)] h(1) REAL_SIZE_aligned [OF sz'(3)]
    by (simp_all add: CHUNK_SIZE_def inuse_bit_at_offset_def)
  moreover have "p + t \<noteq> m_hTop s" "handle_to_ptr (p + t) = Some a" using sz' sz a by (auto simp: handle_to_ptr_def)
  ultimately show ?thesis using sz'(2) by (simp add: merge_next_def)
qed

text \<open>A chunk in use whose successor is free takes it over. The flag of the chunk behind is set by the
  writes that follow.\<close>

lemma merge_next_free:
  assumes ok: "bm_ok s (xs @ (p, t, True) # (a, n, False) # ys) B"
  obtains s1 s' B' where "merge_next p t s = Some (0, t + n, s1)" "mark p (t + n) s1 = Some s'"
    "bm_ok s' (xs @ (p, t + n, True) # ys) B'" "same_head s s'" "keeps (xs @ ys) (chunks s) (chunks s')"
    "fld PreSize (chunks s') (p + (t + n)) = t + n" "ys \<noteq> []"
proof -
  let ?L = "xs @ (p, t, True) # (a, n, False) # ys" and ?e = "p + (t + n)" and ?T = "t + n" and ?u = "lastu True xs"
  let ?S = "starts ?L (m_hTop s)"
  note okD = bm_okD [OF ok] and sz = ok_size [OF ok]
  have ok': "bm_ok s ((xs @ [(p, t, True)]) @ (a, n, False) # ys) B" using ok by simp
  note sz' = ok_size [OF ok']
  have a: "a = p + t" and tl: "tiles (m_hBottom s) xs p" "tiles ?e ys (m_hTop s)"
    using okD(1) by (auto simp: tiles_middle add.assoc)
  have S: "p \<in> ?S" "a \<in> ?S" "?e \<in> ?S" "starts ys (m_hTop s) \<subseteq> ?S" "fst ` set xs \<subseteq> ?S" using tiles_first [OF tl(2)] by auto
  have T: "?T \<le> MAX_ALLOC_SIZE" "8 dvd ?T" "0 < ?T" "24 \<le> ?T" using sz' sz a okD(8) by auto
  then have u: "u32_of ?T = ?T" "CAN_COMBILE t n" by (simp_all add: u32_of_def CAN_COMBILE_def MAX_ALLOC_SIZE_def)
  have h: "tagged (chunks s) True xs" "fld Size (chunks s) p = t + of_bool ?u" "fld Size (chunks s) a = n + 1"
    "tagged (chunks s) False ys" "lastu False ys" "fld Size (chunks s) (m_hTop s) = 1"
    using okD(2) by (simp_all add: headers_middle)
  obtain k zs where ys: "ys = (?e, k, True) # zs" using h(4,5) tl(2) by (cases ys) auto
  have ez: "fld Size (chunks s) ?e = k" "tagged (chunks s) True zs" "tiles (?e + k) zs (m_hTop s)" "8 dvd k" "24 \<le> k" using h(4) ys tl(2) by auto
  have aF: "(a, n) \<in> free_blks ?L" by simp
  obtain m b bm where m: "unlink_bin (Bin (bin_index n)) a s = Some (0, s\<lparr>chunks := m, bins := b\<rparr>)"
    "clear_if_empty (bin_index n) (s\<lparr>chunks := m, bins := b\<rparr>) = s\<lparr>chunks := m, bins := b, m_auiBinBitMap := bm\<rparr>"
    "binned (s\<lparr>chunks := m, bins := b, m_auiBinBitMap := bm\<rparr>) (free_blks ?L - {(a, n)}) (B(bin_index n := remove1 a (B (bin_index n))))"
    "same_tags ?S (chunks s) m" "agree (links (fst ` free_blks ?L)) (chunks s) m"
    by (rule unlink_binned [OF okD(3,4,5,6) aF])
  define s0 where "s0 = s\<lparr>chunks := m, bins := b, m_auiBinBitMap := bm\<rparr>"
  define m1 where "m1 = set_fld Size p (?T + of_bool ?u) m"
  define m2 where "m2 = set_fld PreSize ?e ?T m1"
  have re: "reach (s0\<lparr>chunks := m\<rparr>) ?S" for m using okD(4) by (rule reach_cong) (simp add: s0_def)
  have re0: "reach s0 ?S" using okD(4) by (rule reach_cong) (simp add: s0_def)
  have ft: "fits Size (?T + of_bool ?u)" "fits PreSize ?T" using T by (auto simp: fits_iff MAX_ALLOC_SIZE_def)
  have tags: "fld Size m x = fld Size (chunks s) x" "fld PreSize m x = fld PreSize (chunks s) x" if "x \<in> ?S" for x
    using m(4) that by (auto simp: same_tags_def)
  have f2: "fld g m2 x = (if g = PreSize \<and> x = ?e then ?T else if g = Size \<and> x = p then ?T + of_bool ?u else fld g m x)" if "x \<in> ?S" for g x
    unfolding m1_def m2_def fld_put_reach [OF okD(4) S(3) that ft(2)] fld_put_reach [OF okD(4) S(1) that ft(1)] by simp
  have N: "merge_next p t s = Some (0, ?T, s0\<lparr>chunks := m2\<rparr>)"
  proof -
    have "even (fld Size (chunks s) ?e)" using ez dvd_8_even by simp
    then have c: "CHUNK_SIZE a s = Some n" "inuse_bit_at_offset a n s = Some False" "p + t \<noteq> m_hTop s" "handle_to_ptr (p + t) = Some a"
      "ptr_to_handle a s = a"
      using get_fld_reach [OF okD(4) S(2)] get_fld_reach [OF okD(4) S(3)] h(3) REAL_SIZE_aligned [OF sz'(3)] a sz' okD(7)
      by (simp_all add: CHUNK_SIZE_def inuse_bit_at_offset_def handle_to_ptr_def ptr_to_handle_def add.assoc)
    have d: "set_size_at_offset p 0 ?T s0 = Some (s0\<lparr>chunks := m1\<rparr>)"
      using get_fld_reach [OF re0 S(1)] put_fld_reach [OF re0 S(1)] tags(1) [OF S(1)] h(2) REAL_SIZE_aligned(1) [OF T(2)] aligned_mod [OF sz(3)]
      by (simp add: set_size_at_offset_def s0_def m1_def)
    have e: "set_presize_at_offset p ?T ?T (s0\<lparr>chunks := m1\<rparr>) = Some (s0\<lparr>chunks := m2\<rparr>)"
      using put_fld_reach [OF re S(3)] REAL_SIZE_aligned(1) [OF T(2)] by (simp add: set_presize_at_offset_def m2_def)
    show ?thesis using c u m(1) m(2) [folded s0_def] d e sz'(2) by (simp add: merge_next_def Let_def)
  qed
  define s2 where "s2 = s0\<lparr>chunks := m2\<rparr>"
  have c2: "chunks s2 = m2" and re2: "reach s2 ?S" using re by (simp_all add: s2_def)
  have v: "fld Size (chunks s2) p mod 8 = of_bool ?u" using f2 [OF S(1), of Size] aligned_mod [OF T(2)] c2 by simp
  obtain m3 where m3: "mark p ?T s2 = Some (s2\<lparr>chunks := m3\<rparr>)"
    "\<And>x. x \<in> ?S \<Longrightarrow> fld Size m3 x = (if x = p then ?T + of_bool ?u else if x = ?e then fld Size m2 x div 2 * 2 + 1 else fld Size m2 x)"
    "\<And>x. x \<in> ?S \<Longrightarrow> fld PreSize m3 x = (if x = ?e then ?T else fld PreSize m2 x)"
    "\<And>x f. x \<in> ?S \<Longrightarrow> f = PreChunk \<or> f = NextChunk \<Longrightarrow> fld f m3 x = fld f m2 x"
    "agree ({p + 4..<p + 8} \<union> {?e..<?e + 8}) m2 m3"
    using mark_eq [OF re2 S(1,3) T(2,3,1) v] unfolding c2 by blast
  have sz3: "fld Size m3 x = (if x = p then ?T + of_bool ?u else if x = ?e then k + 1 else fld Size (chunks s) x)" if "x \<in> ?S" for x
    using m3(2) [OF that] f2 [OF that, of Size] tags(1) [OF that] ez(1,4) by (auto elim!: dvdE)
  have pr3: "fld PreSize m3 x = (if x = ?e then ?T else fld PreSize (chunks s) x)" if "x \<in> ?S" for x
    using m3(3) [OF that] f2 [OF that, of PreSize] tags(2) [OF that] by auto
  have "tagged m3 True xs" by (rule tagged_below [OF tl(1) h(1) S(5,1)]) (use sz3 pr3 T in auto)
  moreover have "tagged m3 True zs"
    by (rule tagged_above [OF ez(3,2), of ?S]) (use sz3 pr3 ez(5) ys in auto)
  moreover have "fld Size m3 ?e = k + 1" "fld Size m3 p = ?T + of_bool ?u" using sz3 S T(3) by auto
  moreover have "fld Size m3 (m_hTop s) = 1"
    using sz3 [of "m_hTop s"] h(6) tiles_le [OF ez(3)] ez(5) T(3) by (auto simp: starts_def)
  ultimately have H: "headers m3 (xs @ (p, ?T, True) # ys) (m_hTop s)" using h(5) ys by (simp add: headers_middle)
  have "free_blks ?L - {(a, n)} = free_blks (xs @ (p, ?T, True) # ys)"
    using free_blks_taken [OF bm_okD(1) [OF ok']] by simp
  then have b0: "binned s0 (free_blks (xs @ (p, ?T, True) # ys)) (B(bin_index n := remove1 a (B (bin_index n))))" using m(3) by (simp add: s0_def)
  have sub: "fst ` free_blks (xs @ (p, ?T, True) # ys) \<subseteq> ?S" using okD(5) by auto
  have "binned (s0\<lparr>chunks := m3\<rparr>) (free_blks (xs @ (p, ?T, True) # ys)) (B(bin_index n := remove1 a (B (bin_index n))))"
  proof (rule binned_links [OF b0 sub])
    fix x f assume x: "x \<in> ?S" "f = PreChunk \<or> f = NextChunk"
    then show "fld f m3 x = fld f (chunks s0) x" using m3(4) [OF x] f2 [OF x(1), of f] by (auto simp: s0_def)
  qed
  then have K: "bm_ok (s0\<lparr>chunks := m3\<rparr>) (xs @ (p, ?T, True) # ys) (B(bin_index n := remove1 a (B (bin_index n))))"
    using ok tl T H by (simp add: bm_ok_def tiles_middle s0_def)
  have "keeps (xs @ ys) (chunks s) m3"
  proof -
    have o: "\<And>x j. (x, j, True) \<in> set (xs @ ys) \<Longrightarrow> x + j \<le> p \<or> ?e \<le> x" using tiles_others [OF bm_okD(1) [OF K]] by blast
    have "agree ({p + 4..<p + 8} \<union> {?e..<?e + 8}) m m2"
    proof -
      have "agree {p + 4..<p + 8} m m1" "agree {?e..<?e + 8} m1 m2"
        unfolding m1_def m2_def by (rule agree_mono [OF agree_set_fld]; simp)+
      then show ?thesis by (rule agree_trans)
    qed
    then have "keeps (xs @ ys) m m2" by (rule keeps_mark [OF _ T(4) o])
    moreover have "keeps (xs @ ys) m2 m3" using m3(5) by (intro keeps_mark [OF _ T(4) o]) simp_all
    moreover have "keeps (xs @ ys) (chunks s) m" by (rule keeps_subset [OF keeps_links [OF okD(1) m(5)]]) auto
    ultimately show ?thesis by (blast intro: keeps_trans)
  qed
  moreover have "same_head s (s0\<lparr>chunks := m3\<rparr>)" by (simp add: same_head_def s0_def)
  ultimately show thesis using that [OF N _ K] m3(1) pr3 [OF S(3)] ys by (simp add: s2_def)
qed

section \<open>Giving the chunk back\<close>

definition settle :: "nat \<Rightarrow> nat \<Rightarrow> bin_malloc \<Rightarrow> bin_malloc option" where
  "settle p tSize s3 =
    (let s4 = (if m_tLastFreeChunkSize s3 < tSize then s3\<lparr>m_tLastFreeChunkSize := tSize\<rparr> else s3)
     in if p + tSize = m_hTop s4 then do {
       let t = m_hTop s4 - tSize;
       s5 \<leftarrow> put_fld Size p 1 (s4\<lparr>m_hTop := t, statMemoryTop := int t\<rparr>);
       Some (if m_tSize s5 > t + MINSIZE \<and> m_tLastFreeChunkSize s5 < m_tSize s5 - t - MINSIZE
             then s5\<lparr>m_tLastFreeChunkSize := m_tSize s5 - t - MINSIZE\<rparr> else s5) }
     else do {
       s5 \<leftarrow> clear_inuse_bit_at_offset p tSize s4;
       let uiBinIdx = bin_index tSize;
       (_, s6) \<leftarrow> link_bin (Bin uiBinIdx) (ptr_to_handle p s5) s5;
       Some (set_bin_bit_map uiBinIdx s6) })"

lemma place_free_eq: "place_free p tSize s = do { s3 \<leftarrow> mark p tSize s; settle p tSize s3 }"
  by (simp add: place_free_def mark_def settle_def Let_def Option.bind_assoc)

text \<open>What a release leaves alone besides the users' bytes.\<close>

definition same_acct :: "bin_malloc \<Rightarrow> bin_malloc \<Rightarrow> bool" where
  "same_acct s s' \<longleftrightarrow> m_tSize s' = m_tSize s \<and> m_hBottom s' = m_hBottom s \<and> minChunkSize s' = minChunkSize s \<and>
     statChunkTotal s' = statChunkTotal s \<and> statDataSize s' = statDataSize s \<and>
     m_tUserAllocSize s' = m_tUserAllocSize s \<and> m_tUserAllocChunkCnt s' = m_tUserAllocChunkCnt s"

lemma same_acct_refl [simp]: "same_acct s s"
  by (simp add: same_acct_def)

lemma same_acct_trans: "same_acct s s' \<Longrightarrow> same_acct s' s'' \<Longrightarrow> same_acct s s''"
  by (simp add: same_acct_def)

lemma same_head_acct: "same_head s s' \<Longrightarrow> same_acct s s'"
  by (simp add: same_acct_def same_headD)

lemma bm_ok_head_cong:
  assumes "bm_ok s L B" "m_tSize s' = m_tSize s" "m_hBottom s' = m_hBottom s" "m_hTop s' = m_hTop s" "chunks s' = chunks s"
    "bins s' = bins s" "m_auiBinBitMap s' = m_auiBinBitMap s"
  shows "bm_ok s' L B"
proof -
  have "binned s' (free_blks L) B" by (rule binned_cong [OF bm_okD(3) [OF assms(1)]]) (use assms in auto)
  then show ?thesis using assms by (simp add: bm_ok_def)
qed

lemma settle_top:
  assumes ok: "bm_ok s (xs @ [(p, t, True)]) B" and u: "lastu True xs"
  obtains s' where "settle p t s = Some s'" "bm_ok s' xs B" "same_acct s s'" "keeps xs (chunks s) (chunks s')"
proof -
  let ?L = "xs @ [(p, t, True)]"
  note okD = bm_okD [OF ok] and sz = ok_size [OF ok]
  have tl: "tiles (m_hBottom s) xs p" "p + t = m_hTop s" using okD(1) by (auto simp: tiles_middle)
  have pS: "p \<in> starts ?L (m_hTop s)" "fst ` set xs \<subseteq> starts ?L (m_hTop s)" by auto
  define s4 where "s4 = (if m_tLastFreeChunkSize s < t then s\<lparr>m_tLastFreeChunkSize := t\<rparr> else s)"
  define s5 where "s5 = s4\<lparr>m_hTop := p, statMemoryTop := int p, chunks := set_fld Size p 1 (chunks s)\<rparr>"
  have c4: "m_hTop s4 = m_hTop s" "chunks s4 = chunks s" "same_acct s s4" "bins s4 = bins s" "m_auiBinBitMap s4 = m_auiBinBitMap s"
    by (simp_all add: s4_def same_acct_def)
  have t4: "m_tSize s4 = m_tSize s" "m_hBottom s4 = m_hBottom s" using c4(3) by (simp_all add: same_acct_def)
  have tp: "m_hTop s4 - t = p" "p + t = m_hTop s4" using tl(2) c4(1) by simp_all
  have "put_fld Size p 1 (s4\<lparr>m_hTop := p, statMemoryTop := int p\<rparr>) = Some s5"
    using put_fld_reach [OF reach_cong [OF okD(4)] pS(1), of "s4\<lparr>m_hTop := p, statMemoryTop := int p\<rparr>"] t4 c4 by (simp add: s5_def)
  then have S: "settle p t s = Some (if m_tSize s5 > p + MINSIZE \<and> m_tLastFreeChunkSize s5 < m_tSize s5 - p - MINSIZE
      then s5\<lparr>m_tLastFreeChunkSize := m_tSize s5 - p - MINSIZE\<rparr> else s5)" (is "_ = Some ?s'")
    unfolding settle_def s4_def [symmetric] Let_def tp(1) using tp(2) by simp
  have f: "fld g (set_fld Size p 1 (chunks s)) a = (if g = Size \<and> a = p then 1 else fld g (chunks s) a)" if "a \<in> starts ?L (m_hTop s)" for g a
    by (rule fld_put_reach [OF okD(4) pS(1) that]) (simp add: fits_iff)
  have "tagged (set_fld Size p 1 (chunks s)) True xs"
    by (rule tagged_below [OF tl(1) _ pS(2,1)]) (use okD(2) f in \<open>auto simp: headers_middle\<close>)
  then have "headers (chunks s5) xs p" using u f [OF pS(1)] by (simp add: headers_def s5_def)
  moreover have "binned s5 (free_blks xs) B"
  proof (rule binned_cong [of s])
    fix a g assume a: "a \<in> fst ` free_blks xs" "g = PreChunk \<or> g = NextChunk"
    have "fst ` free_blks xs \<subseteq> starts ?L (m_hTop s)" using okD(5) by simp
    from f [OF subsetD [OF this a(1)], of g] show "fld g (chunks s5) a = fld g (chunks s) a" using a(2) by (auto simp: s5_def)
  qed (use okD(3) c4 in \<open>simp_all add: s5_def\<close>)
  ultimately have "bm_ok s5 xs B" using ok tl sz t4 by (simp add: bm_ok_def s5_def)
  then have "bm_ok ?s' xs B" by (rule bm_ok_head_cong) simp_all
  moreover have "keeps xs (chunks s) (chunks ?s')"
    by (rule keeps_subset [of ?L]) (use keeps_size [OF okD(1) pS(1)] in \<open>auto simp: s5_def\<close>)
  moreover have "same_acct s ?s'" using c4(3) by (simp add: same_acct_def s5_def)
  ultimately show thesis using that [OF S] by blast
qed

lemma settle_bin:
  assumes ok: "bm_ok s (xs @ (p, t, True) # (e, k, True) # zs) B" and u: "lastu True xs" and pre: "fld PreSize (chunks s) (p + t) = t"
  obtains s' B' where "settle p t s = Some s'" "bm_ok s' (xs @ (p, t, False) # (e, k, True) # zs) B'" "same_acct s s'"
    "keeps (xs @ (e, k, True) # zs) (chunks s) (chunks s')" "m_hTop s' = m_hTop s"
proof -
  let ?L = "xs @ (p, t, True) # (e, k, True) # zs" and ?L' = "xs @ (p, t, False) # (e, k, True) # zs"
  let ?S = "starts ?L (m_hTop s)"
  note okD = bm_okD [OF ok] and sz = ok_size [OF ok]
  have ok': "bm_ok s ((xs @ [(p, t, True)]) @ (e, k, True) # zs) B" using ok by simp
  note sz' = ok_size [OF ok']
  have tl: "tiles (m_hBottom s) xs p" "e = p + t" "tiles (e + k) zs (m_hTop s)" using okD(1) by (auto simp: tiles_middle)
  have S: "p \<in> ?S" "e \<in> ?S" "fst ` set xs \<subseteq> ?S" "starts zs (m_hTop s) \<subseteq> ?S" by auto
  have h: "tagged (chunks s) True xs" "fld Size (chunks s) p = t + 1" "fld Size (chunks s) e = k + 1" "tagged (chunks s) True zs" "lastu True zs"
    "fld Size (chunks s) (m_hTop s) = 1" using okD(2) u by (simp_all add: headers_middle)
  define s4 where "s4 = (if m_tLastFreeChunkSize s < t then s\<lparr>m_tLastFreeChunkSize := t\<rparr> else s)"
  define m5 where "m5 = set_fld Size e k (chunks s)"
  define s5 where "s5 = s4\<lparr>chunks := m5\<rparr>"
  have c4: "m_hTop s4 = m_hTop s" "chunks s4 = chunks s" "same_acct s s4" "bins s4 = bins s" "m_auiBinBitMap s4 = m_auiBinBitMap s"
    by (simp_all add: s4_def same_acct_def)
  have t4: "m_tSize s4 = m_tSize s" "m_hBottom s4 = m_hBottom s" using c4(3) by (simp_all add: same_acct_def)
  have re: "reach s4 ?S" "reach s5 ?S" using reach_cong [OF okD(4)] t4 by (simp_all add: s5_def)
  have f: "fld g m5 a = (if g = Size \<and> a = e then k else fld g (chunks s) a)" if "a \<in> ?S" for g a
    unfolding m5_def by (rule fld_put_reach [OF okD(4) S(2) that]) (use sz'(6) in \<open>simp add: fits_iff MAX_ALLOC_SIZE_def\<close>)
  have C: "clear_inuse_bit_at_offset p t s4 = Some s5"
    using get_fld_reach [OF re(1) S(2)] put_fld_reach [OF re(1) S(2)] c4 h(3) tl(2) dvd_8_even [OF sz'(3)]
    by (auto simp: clear_inuse_bit_at_offset_def s5_def m5_def elim!: evenE)
  have "binned s (free_blks (xs @ (e, k, True) # zs)) B" using okD(3) by simp
  then have b4: "binned s4 (free_blks (xs @ (e, k, True) # zs)) B" by (rule binned_cong) (use c4 in auto)
  have sub: "fst ` free_blks (xs @ (e, k, True) # zs) \<subseteq> ?S" using okD(5) by auto
  have b5: "binned s5 (free_blks (xs @ (e, k, True) # zs)) B"
    unfolding s5_def by (rule binned_links [OF b4 sub]) (use f c4(2) in auto)
  have sv: "single_valued (free_blks (xs @ (e, k, True) # zs))" using okD(6) by simp
  have p: "p \<notin> fst ` free_blks (xs @ (e, k, True) # zs)"
    using tiles_once [OF okD(1)] fst_free_blks [of xs] fst_free_blks [of zs] by auto
  obtain m6 b6 bm where m: "link_bin (Bin (bin_index t)) p s5 = Some (0, s5\<lparr>chunks := m6, bins := b6\<rparr>)"
    "set_bin_bit_map (bin_index t) (s5\<lparr>chunks := m6, bins := b6\<rparr>) = s5\<lparr>chunks := m6, bins := b6, m_auiBinBitMap := bm\<rparr>"
    "binned (s5\<lparr>chunks := m6, bins := b6, m_auiBinBitMap := bm\<rparr>) (insert (p, t) (free_blks (xs @ (e, k, True) # zs))) (B(bin_index t := p # B (bin_index t)))"
    "same_tags ?S (chunks s5) m6" "agree (links (insert p (fst ` free_blks (xs @ (e, k, True) # zs)))) (chunks s5) m6"
    by (rule link_binned [OF b5 re(2) sub sv S(1) p])
  define s' where "s' = s5\<lparr>chunks := m6, bins := b6, m_auiBinBitMap := bm\<rparr>"
  have "ptr_to_handle p s5 = p" "p + t \<noteq> m_hTop s4" using sz sz' tl(2) t4 c4(1) by (auto simp: ptr_to_handle_def s5_def)
  then have St: "settle p t s = Some s'"
    using C m(1,2) unfolding settle_def s4_def [symmetric] Let_def s'_def by simp
  have c5: "chunks s5 = m5" by (simp add: s5_def)
  have tag: "fld Size m6 a = (if a = e then k else fld Size (chunks s) a)" "fld PreSize m6 a = fld PreSize (chunks s) a" if "a \<in> ?S" for a
    using bspec [OF m(4) [unfolded same_tags_def c5] that] f [OF that] by auto
  have "tagged m6 True xs" by (rule tagged_below [OF tl(1) h(1) S(3,1)]) (use tag tl(2) sz(2) in auto)
  moreover have "tagged m6 True zs" by (rule tagged_above [OF tl(3) h(4) S(4)]) (use tag sz'(2) in auto)
  moreover have "fld Size m6 (m_hTop s) = 1" using tag(1) [of "m_hTop s"] h(6) sz' by (auto simp: starts_def)
  ultimately have "headers m6 ?L' (m_hTop s)" using tag S h u pre tl(2) sz(2) by (simp add: headers_middle)
  moreover have "binned s' (free_blks ?L') (B(bin_index t := p # B (bin_index t)))" using m(3) by (simp add: s'_def)
  ultimately have K: "bm_ok s' ?L' (B(bin_index t := p # B (bin_index t)))"
    using ok t4 c4(1) by (simp add: bm_ok_def s'_def s5_def tiles_middle)
  have "keeps (xs @ (e, k, True) # zs) (chunks s) m5"
    unfolding m5_def by (rule keeps_subset [OF keeps_size [OF okD(1) S(2)]]) auto
  moreover have "keeps (xs @ (e, k, True) # zs) m5 m6"
    by (rule keeps_subset [OF keeps_links [OF bm_okD(1) [OF K]]]) (use m(5) in \<open>auto simp: s5_def\<close>)
  ultimately have "keeps (xs @ (e, k, True) # zs) (chunks s) (chunks s')" unfolding s'_def by (auto intro: keeps_trans)
  moreover have "same_acct s s'" "m_hTop s' = m_hTop s" using c4 by (simp_all add: same_acct_def s'_def s5_def)
  ultimately show thesis using that [OF St K] by blast
qed

section \<open>The whole release\<close>

definition used_blks :: "blk list \<Rightarrow> blk list" where
  "used_blks L = filter (\<lambda>(a, n, u). u) L"

lemma used_blks_simps [simp]:
  "used_blks [] = []" "used_blks ((a, n, u) # L) = (if u then (a, n, u) # used_blks L else used_blks L)"
  "used_blks (xs @ ys) = used_blks xs @ used_blks ys"
  by (simp_all add: used_blks_def)

lemma chunk_facts:
  assumes ok: "bm_ok s (xs @ (p, t, True) # ys) B"
  shows "CHUNK_SIZE p s = Some t" "inuse_bit_at_offset p t s = Some True" "check_inuse_chunk p s = Some 0" "mem2chunk (p + 8) = Some p"
proof -
  let ?L = "xs @ (p, t, True) # ys"
  let ?S = "starts ?L (m_hTop s)"
  note okD = bm_okD [OF ok] and sz = ok_size [OF ok]
  have tl: "tiles (m_hBottom s) xs p" "tiles (p + t) ys (m_hTop s)" using okD(1) by (simp_all add: tiles_middle)
  have S: "p \<in> ?S" "p + t \<in> ?S" using tiles_first [OF tl(2)] by auto
  have h: "tagged (chunks s) True xs" "fld Size (chunks s) p = t + of_bool (lastu True xs)" "tagged (chunks s) True ys" "lastu True ys"
    "fld Size (chunks s) (m_hTop s) = 1" using okD(2) by (simp_all add: headers_middle)
  have odd: "odd (fld Size (chunks s) (p + t))" using tag_behind [OF tl(2) h(3,5,4)] by simp
  note g = get_fld_reach [OF okD(4) S(1)] get_fld_reach [OF okD(4) S(2)]
  show c: "CHUNK_SIZE p s = Some t" using g(1) h(2) REAL_SIZE_aligned(2) [OF sz(3)] by (simp add: CHUNK_SIZE_def)
  show i: "inuse_bit_at_offset p t s = Some True" using g(2) odd by (simp add: inuse_bit_at_offset_def)
  show "mem2chunk (p + 8) = Some p" by (simp add: mem2chunk_def)
  have pu: "prev_inuse p s = Some (lastu True xs)" using g(1) h(2) dvd_8_even [OF sz(3)] by (simp add: prev_inuse_def)
  have pre: "get_fld PreSize p s = Some n \<and> \<not> (p < n \<or> p - n < m_hBottom s) \<and> CHUNK_SIZE (p - n) s = Some n"
    if xs: "xs = zs @ [(q, n, False)]" for zs q n
  proof -
    have q: "q + n = p" "tiles (m_hBottom s) zs q" "8 dvd n" using tl(1) xs by (auto simp: tiles_append)
    have "fld PreSize (chunks s) p = n" "fld Size (chunks s) q = n + of_bool (lastu True zs)" using h(1) xs q(1) by (auto simp: tagged_append)
    moreover have "q \<in> ?S" using xs by simp
    moreover have "p - n = q" "\<not> p < n" using q(1) by simp_all
    ultimately show ?thesis using g(1) get_fld_reach [OF okD(4), of q] tiles_le [OF q(2)] REAL_SIZE_aligned(2) [OF q(3)]
      by (simp add: CHUNK_SIZE_def)
  qed
  have bad: "(if lastu True xs then Some False
     else do { pre \<leftarrow> get_fld PreSize p s; if p < pre \<or> p - pre < m_hBottom s then Some True
               else do { sz' \<leftarrow> CHUNK_SIZE (p - pre) s; Some (sz' \<noteq> pre) } }) = Some False"
  proof (cases "lastu True xs")
    case False
    then obtain zs q n where "xs = zs @ [(q, n, False)]" by (cases xs rule: rev_cases) auto
    from pre [OF this] False show ?thesis by simp
  qed simp
  have nx: "CHUNK_SIZE (p + t) s = Some k \<and> 24 \<le> k \<and> p + t \<noteq> m_hTop s" if "ys = (e, k, v) # zs" for e k v zs
  proof -
    have "e = p + t" "8 dvd k" "24 \<le> k" "tiles (e + k) zs (m_hTop s)" "fld Size (chunks s) e = k + 1" using that tl(2) h(3) by auto
    moreover from this have "e + k \<le> m_hTop s" using tiles_le by blast
    ultimately show ?thesis using g(2) REAL_SIZE_aligned [of k] by (simp add: CHUNK_SIZE_def)
  qed
  have end_ok: "(if AT_TOP (p + t) 0 s then Some 0 else do { sz' \<leftarrow> CHUNK_SIZE (p + t) s; Some (if sz' < MINSIZE then - 3 else 0) }) = Some (0 :: int)"
  proof (cases ys)
    case (Cons b zs)
    then obtain e k v where "ys = (e, k, v) # zs" by (cases b) auto
    from nx [OF this] show ?thesis by (auto simp: AT_TOP_def)
  qed (use tl(2) in \<open>simp add: AT_TOP_def\<close>)
  show "check_inuse_chunk p s = Some 0" unfolding check_inuse_chunk_def using c i pu bad end_ok by simp
qed

text \<open>Releasing a chunk in use succeeds and removes exactly this chunk from those in use.\<close>

lemma inter_free_ok:
  assumes ok: "bm_ok s (xs @ (p, t, True) # ys) B"
  obtains s' L' B' where "inter_free (p + 8) s = Some (0, t, s')" "bm_ok s' L' B'" "used_blks L' = used_blks xs @ used_blks ys"
    "same_acct s s'" "keeps (xs @ ys) (chunks s) (chunks s')"
proof -
  obtain q t1 xs' s1 B1 where 1: "merge_prev p t s = Some (q, t1, s1)" "bm_ok s1 (xs' @ (q, t1, True) # ys) B1" "lastu True xs'"
    "used_blks xs' = used_blks xs" "same_head s s1" "keeps (xs @ ys) (chunks s) (chunks s1)"
  proof (cases "lastu True xs")
    case True
    then show thesis using that [OF merge_prev_used [OF ok True] ok True] by simp
  next
    case False
    then obtain zs a n where xs: "xs = zs @ [(a, n, False)]" by (cases xs rule: rev_cases) auto
    have "lastu True zs" using bm_okD(2) [OF ok] xs by (simp add: headers_middle tagged_append)
    moreover obtain s' B' where "merge_prev p t s = Some (a, n + t, s')" "bm_ok s' (zs @ (a, n + t, True) # ys) B'" "same_head s s'"
      "keeps (zs @ ys) (chunks s) (chunks s')"
      using ok xs by (auto intro: merge_prev_free)
    moreover have "keeps (zs @ ys) m m' \<longleftrightarrow> keeps (xs @ ys) m m'" for m m' by (auto simp: xs keeps_def)
    ultimately show thesis using that xs by auto
  qed
  obtain t2 ys' s2 s3 B3 where 2: "merge_next q t1 s1 = Some (0, t2, s2)" "mark q t2 s2 = Some s3" "bm_ok s3 (xs' @ (q, t2, True) # ys') B3"
    "\<And>a n v zs. ys' = (a, n, v) # zs \<Longrightarrow> v" "fld PreSize (chunks s3) (q + t2) = t2" "used_blks ys' = used_blks ys" "same_head s1 s3"
    "keeps (xs' @ ys) (chunks s1) (chunks s3)"
  proof (cases "\<exists>a n zs. ys = (a, n, False) # zs")
    case True
    then obtain a n zs where ys: "ys = (a, n, False) # zs" by blast
    have v: "v" if "zs = (b, k, v) # ws" for b k v ws using bm_okD(2) [OF 1(2)] ys that by (simp add: headers_middle)
    obtain s2 s3 B3 where o: "merge_next q t1 s1 = Some (0, t1 + n, s2)" "mark q (t1 + n) s2 = Some s3"
      "bm_ok s3 (xs' @ (q, t1 + n, True) # zs) B3" "same_head s1 s3" "keeps (xs' @ zs) (chunks s1) (chunks s3)"
      "fld PreSize (chunks s3) (q + (t1 + n)) = t1 + n"
      using merge_next_free [OF 1(2) [unfolded ys]] by blast
    have "keeps (xs' @ ys) (chunks s1) (chunks s3)" using o(5) by (auto simp: ys keeps_def)
    then show thesis by (intro that [OF o(1,2,3) v o(6) _ o(4)]) (simp_all add: ys)
  next
    case False
    then have v: "\<And>a n v zs. ys = (a, n, v) # zs \<Longrightarrow> v" by blast
    have n: "merge_next q t1 s1 = Some (0, t1, s1)" using v by (rule merge_next_used [OF 1(2)])
    obtain s3 where o: "mark q t1 s1 = Some s3" "bm_ok s3 (xs' @ (q, t1, True) # ys) B1" "same_head s1 s3"
      "keeps (xs' @ ys) (chunks s1) (chunks s3)" "fld PreSize (chunks s3) (q + t1) = t1" by (rule mark_used [OF 1(2)])
    show thesis using v by (rule that [OF n o(1,2) _ o(5) refl o(3,4)])
  qed
  obtain s4 L4 B4 where 3: "settle q t2 s3 = Some s4" "bm_ok s4 L4 B4" "used_blks L4 = used_blks xs' @ used_blks ys'" "same_acct s3 s4"
    "keeps (xs' @ ys') (chunks s3) (chunks s4)"
  proof (cases ys')
    case Nil
    then show thesis using settle_top [OF 2(3) [unfolded Nil] 1(3)] that [of _ xs' B3] by auto
  next
    case (Cons b zs)
    then obtain e k where ys': "ys' = (e, k, True) # zs" using 2(4) by (cases b) auto
    obtain s4 B4 where "settle q t2 s3 = Some s4" "bm_ok s4 (xs' @ (q, t2, False) # (e, k, True) # zs) B4" "same_acct s3 s4"
      "keeps (xs' @ (e, k, True) # zs) (chunks s3) (chunks s4)"
      using settle_bin [OF 2(3) [unfolded ys'] 1(3) 2(5)] by blast
    then show thesis using that ys' by auto
  qed
  have "place_free q t2 s2 = Some s4" using 2(2) 3(1) by (simp add: place_free_eq)
  then have F: "inter_free (p + 8) s = Some (0, t, s4)"
    using chunk_facts [OF ok] ok_size [OF ok] 1(1) 2(1) by (simp add: inter_free_def misaligned_chunk_def)
  have k: "keeps M m m' \<longleftrightarrow> keeps (used_blks M) m m'" for M m m' by (auto simp: keeps_def used_blks_def)
  have "keeps (xs @ ys) (chunks s) (chunks s4)"
    using 1(4,6) 2(6,8) 3(5) k [of "xs @ ys"] k [of "xs' @ ys"] k [of "xs' @ ys'"] keeps_trans by (metis used_blks_simps(3))
  moreover have "same_acct s s4" using 1(5) 2(7) 3(4) same_head_acct same_acct_trans by blast
  ultimately show thesis using that [OF F 3(2)] 1(4) 2(6) 3(3) by simp
qed

end
