(* ===== verification/Bin_Alloc.thy ===== *)
theory Bin_Alloc
  imports Bin_Free
begin

text \<open>
  Allocation: taking a free chunk out of its bin, whole or split, the search through the bins, and
  the chunk from the top. The properties of the allocator as a whole are at the end: every
  chunk handed out is new, large enough and disjoint from all others, and nobody else's bytes
  change.
\<close>

section \<open>Taking a free chunk\<close>

lemma free_neighbours:
  assumes ok: "bm_ok s (xs @ (p, n, False) # ys) B"
  obtains k zs where "ys = (p + n, k, True) # zs" "lastu True xs" "fld Size (chunks s) (p + n) = k" "8 dvd k" "24 \<le> k"
    "tagged (chunks s) True zs" "tiles (p + n + k) zs (m_hTop s)" "lastu True zs" "tagged (chunks s) True xs" "fld Size (chunks s) p = n + 1"
    "fld Size (chunks s) (m_hTop s) = 1"
proof -
  have h: "tagged (chunks s) True xs" "lastu True xs" "tagged (chunks s) False ys" "lastu False ys" "fld Size (chunks s) p = n + 1"
    "fld Size (chunks s) (m_hTop s) = 1" and t: "tiles (p + n) ys (m_hTop s)"
    using bm_okD(1,2) [OF ok] by (auto simp: headers_middle tiles_middle)
  then show thesis using that by (cases ys) auto
qed

lemma unlink_free:
  assumes ok: "bm_ok s (xs @ (p, n, False) # ys) B"
  obtains s1 s2 B' where "unlink_bin (Bin (bin_index n)) p s = Some (0, s1)" "clear_if_empty (bin_index n) s1 = s2"
    "binned s2 (free_blks xs \<union> free_blks ys) B'" "same_tags (starts (xs @ (p, n, False) # ys) (m_hTop s)) (chunks s) (chunks s2)"
    "keeps (xs @ ys) (chunks s) (chunks s2)" "same_head s s2" "\<forall>m. reach (s2\<lparr>chunks := m\<rparr>) = reach s" "reach s2 = reach s"
proof -
  let ?L = "xs @ (p, n, False) # ys"
  note okD = bm_okD [OF ok]
  have pF: "(p, n) \<in> free_blks ?L" by simp
  obtain m b bm where m: "unlink_bin (Bin (bin_index n)) p s = Some (0, s\<lparr>chunks := m, bins := b\<rparr>)"
    "clear_if_empty (bin_index n) (s\<lparr>chunks := m, bins := b\<rparr>) = s\<lparr>chunks := m, bins := b, m_auiBinBitMap := bm\<rparr>"
    "binned (s\<lparr>chunks := m, bins := b, m_auiBinBitMap := bm\<rparr>) (free_blks ?L - {(p, n)}) (B(bin_index n := remove1 p (B (bin_index n))))"
    "same_tags (starts ?L (m_hTop s)) (chunks s) m" "agree (links (fst ` free_blks ?L)) (chunks s) m"
    by (rule unlink_binned [OF okD(3,4,5,6) pF])
  have "keeps (xs @ ys) (chunks s) m" by (rule keeps_subset [OF keeps_links [OF okD(1) m(5)]]) auto
  then show thesis using that [OF m(1,2)] m(3,4) free_blks_taken [OF okD(1)] by (simp add: same_head_def reach_def fun_eq_iff)
qed

text \<open>The chunk as a whole: only the flag behind it has to be set.\<close>

lemma headers_use:
  assumes ok: "bm_ok s (xs @ (p, n, False) # ys) B"
    and m: "\<And>a. a \<in> starts (xs @ (p, n, False) # ys) (m_hTop s) \<Longrightarrow>
      fld Size m a = (if a = p + n then fld Size (chunks s) a + 1 else fld Size (chunks s) a) \<and> fld PreSize m a = fld PreSize (chunks s) a"
  shows "headers m (xs @ (p, n, True) # ys) (m_hTop s)"
proof -
  let ?S = "starts (xs @ (p, n, False) # ys) (m_hTop s)"
  note okD = bm_okD [OF ok] and sz = ok_size [OF ok]
  obtain k zs where nb: "ys = (p + n, k, True) # zs" "lastu True xs" "fld Size (chunks s) (p + n) = k" "8 dvd k" "24 \<le> k"
    "tagged (chunks s) True zs" "tiles (p + n + k) zs (m_hTop s)" "lastu True zs" "tagged (chunks s) True xs" "fld Size (chunks s) p = n + 1"
    "fld Size (chunks s) (m_hTop s) = 1" by (rule free_neighbours [OF ok])
  have tl: "tiles (m_hBottom s) xs p" using okD(1) by (simp add: tiles_middle)
  have S: "p \<in> ?S" "p + n \<in> ?S" "starts zs (m_hTop s) \<subseteq> ?S" "fst ` set xs \<subseteq> ?S" "m_hTop s \<in> ?S" using nb(1) by (auto simp: starts_def)
  have "tagged m True xs" by (rule tagged_below [OF tl nb(9) S(4,1)]) (use m sz(2) in auto)
  moreover have "tagged m True zs" by (rule tagged_above [OF nb(7,6) S(3)]) (use m nb(5) in auto)
  moreover have "fld Size m (m_hTop s) = 1" using m [OF S(5)] nb(11) tiles_le [OF nb(7)] nb(5) by simp
  ultimately show ?thesis using m [OF S(1)] m [OF S(2)] nb sz by (simp add: headers_middle)
qed

text \<open>The write of the flag itself, in any memory with the tags of the state.\<close>

lemma flag_used:
  assumes ok: "bm_ok s (xs @ (p, n, False) # ys) B"
    and s2: "same_tags (starts (xs @ (p, n, False) # ys) (m_hTop s)) (chunks s) (chunks s2)" "reach s2 = reach s"
  obtains m where "CHUNK_SIZE p s2 = Some n" "set_inuse_bit_at_offset p n s2 = Some (s2\<lparr>chunks := m\<rparr>)"
    "\<And>a. a \<in> starts (xs @ (p, n, False) # ys) (m_hTop s) \<Longrightarrow>
      fld Size m a = (if a = p + n then fld Size (chunks s) a + 1 else fld Size (chunks s) a) \<and> fld PreSize m a = fld PreSize (chunks s) a"
    "\<And>a f. a \<in> starts (xs @ (p, n, False) # ys) (m_hTop s) \<Longrightarrow> f = PreChunk \<or> f = NextChunk \<Longrightarrow> fld f m a = fld f (chunks s2) a"
    "keeps (xs @ ys) (chunks s2) m"
proof -
  let ?L = "xs @ (p, n, False) # ys"
  let ?S = "starts ?L (m_hTop s)"
  note okD = bm_okD [OF ok] and sz = ok_size [OF ok]
  obtain k zs where nb: "ys = (p + n, k, True) # zs" "fld Size (chunks s) (p + n) = k" "8 dvd k" "tiles (p + n + k) zs (m_hTop s)"
    "fld Size (chunks s) p = n + 1" by (rule free_neighbours [OF ok])
  have S: "p \<in> ?S" "p + n \<in> ?S" using nb(1) by auto
  have re: "reach s2 ?S" using okD(4) s2(2) by simp
  have tag: "fld Size (chunks s2) a = fld Size (chunks s) a" "fld PreSize (chunks s2) a = fld PreSize (chunks s) a" if "a \<in> ?S" for a
    using bspec [OF s2(1) [unfolded same_tags_def] that] by simp_all
  define m where "m = set_fld Size (p + n) (k + 1) (chunks s2)"
  have kf: "fits Size (k + 1)" using tiles_le [OF nb(4)] okD(7,8) by (simp add: fits_iff MAX_ALLOC_SIZE_def)
  have f: "fld g m a = (if g = Size \<and> a = p + n then k + 1 else fld g (chunks s2) a)" if "a \<in> ?S" for g a
    unfolding m_def by (rule fld_put_reach [OF re S(2) that kf])
  have C: "CHUNK_SIZE p s2 = Some n" using get_fld_reach [OF re S(1)] tag(1) [OF S(1)] nb(5) REAL_SIZE_aligned [OF sz(3)] by (simp add: CHUNK_SIZE_def)
  have U: "set_inuse_bit_at_offset p n s2 = Some (s2\<lparr>chunks := m\<rparr>)"
    using get_fld_reach [OF re S(2)] put_fld_reach [OF re S(2)] tag(1) [OF S(2)] nb(2,3)
    by (auto simp: set_inuse_bit_at_offset_def m_def elim!: dvdE)
  have F: "fld Size m a = (if a = p + n then fld Size (chunks s) a + 1 else fld Size (chunks s) a) \<and> fld PreSize m a = fld PreSize (chunks s) a"
    "g = PreChunk \<or> g = NextChunk \<Longrightarrow> fld g m a = fld g (chunks s2) a" if "a \<in> ?S" for a g
    using f [OF that] tag [OF that] nb(2) by auto
  have "keeps (xs @ ys) (chunks s2) m"
    unfolding m_def by (rule keeps_subset [OF keeps_size [OF okD(1) S(2)]]) auto
  with C U F show thesis by (rule that)
qed

lemma take_whole:
  assumes ok: "bm_ok s (xs @ (p, n, False) # ys) B"
    and s2: "binned s2 (free_blks xs \<union> free_blks ys) B'" "same_tags (starts (xs @ (p, n, False) # ys) (m_hTop s)) (chunks s) (chunks s2)"
    "same_head s s2" "reach s2 = reach s"
  obtains s' where "CHUNK_SIZE p s2 = Some n" "set_inuse_bit_at_offset p n s2 = Some s'" "bm_ok s' (xs @ (p, n, True) # ys) B'"
    "keeps (xs @ ys) (chunks s2) (chunks s')" "same_head s s'"
proof -
  note okD = bm_okD [OF ok]
  obtain m where m: "CHUNK_SIZE p s2 = Some n" "set_inuse_bit_at_offset p n s2 = Some (s2\<lparr>chunks := m\<rparr>)"
    "\<And>a. a \<in> starts (xs @ (p, n, False) # ys) (m_hTop s) \<Longrightarrow>
      fld Size m a = (if a = p + n then fld Size (chunks s) a + 1 else fld Size (chunks s) a) \<and> fld PreSize m a = fld PreSize (chunks s) a"
    "\<And>a f. a \<in> starts (xs @ (p, n, False) # ys) (m_hTop s) \<Longrightarrow> f = PreChunk \<or> f = NextChunk \<Longrightarrow> fld f m a = fld f (chunks s2) a"
    "keeps (xs @ ys) (chunks s2) m" using flag_used [OF ok s2(2,4)] by blast
  have "headers m (xs @ (p, n, True) # ys) (m_hTop s)" by (rule headers_use [OF ok m(3)])
  moreover have "binned (s2\<lparr>chunks := m\<rparr>) (free_blks xs \<union> free_blks ys) B'"
    by (rule binned_links [OF s2(1) _ m(4)]) (use okD(5) in auto)
  ultimately have K: "bm_ok (s2\<lparr>chunks := m\<rparr>) (xs @ (p, n, True) # ys) B'"
    using ok same_headD [OF s2(3)] by (simp add: bm_ok_def tiles_middle)
  have "same_head s (s2\<lparr>chunks := m\<rparr>)" using s2(3) by (cases s; cases s2) (simp add: same_head_def)
  then show thesis using that [OF m(1,2) K] m(5) by simp
qed

text \<open>A part of the chunk: the headers of both parts are written as chunks in use, and the second
  part is released.\<close>

definition split_writes :: "nat \<Rightarrow> nat \<Rightarrow> nat \<Rightarrow> bin_malloc \<Rightarrow> bin_malloc option" where
  "split_writes p tSize tRemainSize s2 = do {
     v \<leftarrow> get_fld Size p s2;
     s3 \<leftarrow> put_fld Size p (tSize + v mod 8) s2;
     let n = p + tSize;
     s4 \<leftarrow> put_fld Size n tRemainSize s3;
     s5 \<leftarrow> put_fld PreSize n tSize s4;
     s6 \<leftarrow> set_inuse_bit_at_offset n 0 s5;
     s7 \<leftarrow> put_fld PreSize (p + tSize + tRemainSize) tRemainSize s6;
     set_inuse_bit_at_offset n tRemainSize s7 }"

lemma split_writes_eq:
  assumes re: "reach s2 S" and S: "p \<in> S" "p + t \<in> S" "p + t + r \<in> S" and sz: "0 < t" "0 < r" "t + r \<le> MAX_ALLOC_SIZE" "8 dvd r"
    and v: "fld Size (chunks s2) p mod 8 = 1" "fld Size (chunks s2) (p + t + r) = k" "even k"
  obtains m where "split_writes p t r s2 = Some (s2\<lparr>chunks := m\<rparr>)"
    "\<And>a. a \<in> S \<Longrightarrow> fld Size m a = (if a = p then t + 1 else if a = p + t then r + 1 else if a = p + t + r then k + 1 else fld Size (chunks s2) a)"
    "\<And>a. a \<in> S \<Longrightarrow> fld PreSize m a = (if a = p + t then t else if a = p + t + r then r else fld PreSize (chunks s2) a)"
    "\<And>a f. a \<in> S \<Longrightarrow> f = PreChunk \<or> f = NextChunk \<Longrightarrow> fld f m a = fld f (chunks s2) a"
    "agree ({p + 4..<p + 8} \<union> {p + t..<p + t + 8} \<union> {p + t + r..<p + t + r + 8}) (chunks s2) m"
proof -
  define m1 where "m1 = set_fld Size p (t + 1) (chunks s2)"
  define m2 where "m2 = set_fld Size (p + t) r m1"
  define m3 where "m3 = set_fld PreSize (p + t) t m2"
  define m4 where "m4 = set_fld Size (p + t) (r + 1) m3"
  define m5 where "m5 = set_fld PreSize (p + t + r) r m4"
  define m6 where "m6 = set_fld Size (p + t + r) (k + 1) m5"
  have re': "reach (s2\<lparr>chunks := m\<rparr>) S" for m using re by (rule reach_cong) simp
  have "k < 2 ^ 32" using fld_fits [of Size "chunks s2" "p + t + r"] v(2) by (simp add: fits_iff)
  then have "k + 1 < 2 ^ 32" using v(3) inuse_fits [of k] by auto
  then have ft: "fits Size (t + 1)" "fits Size r" "fits PreSize t" "fits Size (r + 1)" "fits PreSize r" "fits Size (k + 1)"
    using sz by (auto simp: fits_iff MAX_ALLOC_SIZE_def)
  note fp = fld_put_reach [OF re]
  have f1: "fld g m1 a = (if g = Size \<and> a = p then t + 1 else fld g (chunks s2) a)" if "a \<in> S" for g a
    unfolding m1_def by (rule fp [OF S(1) that ft(1)])
  have f2: "fld g m2 a = (if g = Size \<and> a = p + t then r else fld g m1 a)" if "a \<in> S" for g a
    unfolding m2_def by (rule fp [OF S(2) that ft(2)])
  have f3: "fld g m3 a = (if g = PreSize \<and> a = p + t then t else fld g m2 a)" if "a \<in> S" for g a
    unfolding m3_def by (rule fp [OF S(2) that ft(3)])
  have f4: "fld g m4 a = (if g = Size \<and> a = p + t then r + 1 else fld g m3 a)" if "a \<in> S" for g a
    unfolding m4_def by (rule fp [OF S(2) that ft(4)])
  have f5: "fld g m5 a = (if g = PreSize \<and> a = p + t + r then r else fld g m4 a)" if "a \<in> S" for g a
    unfolding m5_def by (rule fp [OF S(3) that ft(5)])
  have f6: "fld g m6 a = (if g = Size \<and> a = p + t + r then k + 1 else fld g m5 a)" if "a \<in> S" for g a
    unfolding m6_def by (rule fp [OF S(3) that ft(6)])
  have rd: "get_fld f a (s2\<lparr>chunks := m\<rparr>) = Some (fld f m a)" if "a \<in> S" for f a m using get_fld_reach [OF re' that] by simp
  have wr: "put_fld f a w (s2\<lparr>chunks := m\<rparr>) = Some (s2\<lparr>chunks := set_fld f a w m\<rparr>)" if "a \<in> S" for f a w m using put_fld_reach [OF re' that] by simp
  have w1: "put_fld Size p (t + fld Size (chunks s2) p mod 8) s2 = Some (s2\<lparr>chunks := m1\<rparr>)" using put_fld_reach [OF re S(1)] v(1) by (simp add: m1_def)
  have w4: "set_inuse_bit_at_offset (p + t) 0 (s2\<lparr>chunks := m3\<rparr>) = Some (s2\<lparr>chunks := m4\<rparr>)"
  proof -
    have "fld Size m3 (p + t) = r" using f3 [OF S(2)] f2 [OF S(2)] by simp
    then show ?thesis using rd [OF S(2)] wr [OF S(2)] sz(4) dvd_8_even [of r] by (auto simp: set_inuse_bit_at_offset_def m4_def elim!: evenE)
  qed
  have w6: "set_inuse_bit_at_offset (p + t) r (s2\<lparr>chunks := m5\<rparr>) = Some (s2\<lparr>chunks := m6\<rparr>)"
  proof -
    have "fld Size m5 (p + t + r) = k"
      using f5 [OF S(3)] f4 [OF S(3)] f3 [OF S(3)] f2 [OF S(3)] f1 [OF S(3)] v(2) sz by simp
    then show ?thesis using rd [OF S(3)] wr [OF S(3)] v(3) by (auto simp: set_inuse_bit_at_offset_def m6_def elim!: evenE)
  qed
  have W: "split_writes p t r s2 = Some (s2\<lparr>chunks := m6\<rparr>)"
    using get_fld_reach [OF re S(1)] w1 wr [OF S(2)] w4 wr [OF S(3)] w6
    by (simp add: split_writes_def Let_def m2_def [symmetric] m3_def [symmetric] m5_def [symmetric])
  have fields: "fld Size m6 a = (if a = p then t + 1 else if a = p + t then r + 1 else if a = p + t + r then k + 1 else fld Size (chunks s2) a)"
    "fld PreSize m6 a = (if a = p + t then t else if a = p + t + r then r else fld PreSize (chunks s2) a)"
    "f = PreChunk \<or> f = NextChunk \<Longrightarrow> fld f m6 a = fld f (chunks s2) a" if "a \<in> S" for a f
    unfolding f6 [OF that] f5 [OF that] f4 [OF that] f3 [OF that] f2 [OF that] f1 [OF that] using sz by auto
  have "agree ({p + 4..<p + 8} \<union> {p + t..<p + t + 8} \<union> {p + t + r..<p + t + r + 8}) (chunks s2) m6" (is "agree ?R _ _")
  proof -
    have "agree ?R (chunks s2) m1" "agree ?R m1 m2" "agree ?R m2 m3" "agree ?R m3 m4" "agree ?R m4 m5" "agree ?R m5 m6"
      unfolding m1_def m2_def m3_def m4_def m5_def m6_def by (rule agree_mono [OF agree_set_fld]; auto)+
    then show ?thesis by (meson agree_same)
  qed
  with W fields show thesis by (rule that)
qed

lemma take_part:
  assumes ok: "bm_ok s (xs @ (p, t + r, False) # ys) B" and t: "24 \<le> t" "8 dvd t" "24 \<le> r" "8 dvd r"
    and s2: "binned s2 (free_blks xs \<union> free_blks ys) B'" "same_tags (starts (xs @ (p, t + r, False) # ys) (m_hTop s)) (chunks s) (chunks s2)"
    "same_head s s2" "reach s2 = reach s"
  obtains s' where "split_writes p t r s2 = Some s'" "bm_ok s' (xs @ (p, t, True) # (p + t, r, True) # ys) B'"
    "keeps (xs @ ys) (chunks s2) (chunks s')" "same_head s s'"
proof -
  let ?L = "xs @ (p, t + r, False) # ys" and ?L' = "xs @ (p, t, True) # (p + t, r, True) # ys"
  let ?S = "starts ?L (m_hTop s)" and ?S' = "starts ?L' (m_hTop s)"
  note okD = bm_okD [OF ok] and sz = ok_size [OF ok]
  obtain k zs where nb: "ys = (p + (t + r), k, True) # zs" "lastu True xs" "fld Size (chunks s) (p + (t + r)) = k" "8 dvd k" "24 \<le> k"
    "tagged (chunks s) True zs" "tiles (p + (t + r) + k) zs (m_hTop s)" "lastu True zs" "tagged (chunks s) True xs" "fld Size (chunks s) p = t + r + 1"
    "fld Size (chunks s) (m_hTop s) = 1" by (rule free_neighbours [OF ok])
  have tl: "tiles (m_hBottom s) xs p" using okD(1) by (simp add: tiles_middle)
  have T': "tiles (m_hBottom s) ?L' (m_hTop s)" using okD(1) t by (simp add: tiles_middle add.assoc)
  have re: "reach s2 ?S'"
  proof -
    have "0 < a \<and> a + 24 \<le> m_tSize s" if "a \<in> ?S'" for a using starts_less [OF T' that] ok by (auto simp: bm_ok_def)
    then have "reach s ?S'" using starts_spaced [OF T'] okD(8) by (simp add: reach_def)
    then show ?thesis using s2(4) by simp
  qed
  have S: "p \<in> ?S'" "p + t \<in> ?S'" "p + t + r \<in> ?S'" "?S \<subseteq> ?S'" using nb(1) by (auto simp: add.assoc)
  have S0: "p \<in> ?S" "p + (t + r) \<in> ?S" "starts zs (m_hTop s) \<subseteq> ?S" "fst ` set xs \<subseteq> ?S" "m_hTop s \<in> ?S" using nb(1) by (auto simp: starts_def)
  have tag: "fld Size (chunks s2) a = fld Size (chunks s) a" "fld PreSize (chunks s2) a = fld PreSize (chunks s) a" if "a \<in> ?S" for a
    using bspec [OF s2(2) [unfolded same_tags_def] that] by simp_all
  have v: "fld Size (chunks s2) p mod 8 = 1" "fld Size (chunks s2) (p + t + r) = k" "even k"
    using tag(1) S0 nb(3,10) aligned_mod [of "t + r" True] t dvd_8_even [OF nb(4)] by (simp_all add: add.assoc)
  obtain m where m: "split_writes p t r s2 = Some (s2\<lparr>chunks := m\<rparr>)"
    "\<And>a. a \<in> ?S' \<Longrightarrow> fld Size m a = (if a = p then t + 1 else if a = p + t then r + 1 else if a = p + t + r then k + 1 else fld Size (chunks s2) a)"
    "\<And>a. a \<in> ?S' \<Longrightarrow> fld PreSize m a = (if a = p + t then t else if a = p + t + r then r else fld PreSize (chunks s2) a)"
    "\<And>a f. a \<in> ?S' \<Longrightarrow> f = PreChunk \<or> f = NextChunk \<Longrightarrow> fld f m a = fld f (chunks s2) a"
    "agree ({p + 4..<p + 8} \<union> {p + t..<p + t + 8} \<union> {p + t + r..<p + t + r + 8}) (chunks s2) m"
    by (rule split_writes_eq [OF re S(1,2,3) _ _ _ t(4) v]) (use t sz(6) in auto)
  have fs: "fld Size m a = (if a = p then t + 1 else if a = p + (t + r) then k + 1 else fld Size (chunks s) a)"
    "fld PreSize m a = (if a = p + (t + r) then r else fld PreSize (chunks s) a)" if a: "a \<in> ?S" for a
  proof -
    have "a \<noteq> p + t"
    proof
      assume "a = p + t"
      then have "a \<le> p \<or> p + (t + r) \<le> a" using tiles_order [OF okD(1), of p "t + r" False a] a by simp
      then show False using \<open>a = p + t\<close> t by simp
    qed
    then show "fld Size m a = (if a = p then t + 1 else if a = p + (t + r) then k + 1 else fld Size (chunks s) a)"
      "fld PreSize m a = (if a = p + (t + r) then r else fld PreSize (chunks s) a)"
      using m(2,3) [OF subsetD [OF S(4) a]] tag [OF a] by (simp_all add: add.assoc)
  qed
  have "tagged m True xs" by (rule tagged_below [OF tl nb(9) S0(4,1)]) (use fs t in auto)
  moreover have "tagged m True zs" by (rule tagged_above [OF nb(7,6) S0(3)]) (use fs nb(5) t in auto)
  moreover have "fld Size m (m_hTop s) = 1" using fs(1) [OF S0(5)] nb(11) tiles_le [OF nb(7)] nb(5) t by simp
  moreover have "fld Size m p = t + 1" "fld Size m (p + t) = r + 1" "fld Size m (p + (t + r)) = k + 1"
    using m(2) [OF S(1)] m(2) [OF S(2)] m(2) [OF S(3)] t by (simp_all add: add.assoc)
  ultimately have "headers m ?L' (m_hTop s)" using nb by (simp add: headers_middle)
  moreover have "binned (s2\<lparr>chunks := m\<rparr>) (free_blks xs \<union> free_blks ys) B'"
    by (rule binned_links [OF s2(1) _ m(4)]) (use okD(5) in auto)
  ultimately have K: "bm_ok (s2\<lparr>chunks := m\<rparr>) ?L' B'"
    using ok T' same_headD [OF s2(3)] by (simp add: bm_ok_def)
  have "keeps (xs @ ys) (chunks s2) m"
  proof (rule keeps_agree [OF m(5)])
    fix a n x assume "(a, n, True) \<in> set (xs @ ys)"
      "x \<in> {p + 4..<p + 8} \<union> {p + t..<p + t + 8} \<union> {p + t + r..<p + t + r + 8}"
    then show "x < a + 8 \<or> a + n + 4 \<le> x" using tiles_others [OF okD(1), of a n True] t by auto
  qed
  moreover have "same_head s (s2\<lparr>chunks := m\<rparr>)" using s2(3) by (cases s; cases s2) (simp add: same_head_def)
  ultimately show thesis using that [OF m(1) K] by simp
qed

lemma carve_eq:
  "carve uiBinIdx p tSize s = do {
     sz \<leftarrow> CHUNK_SIZE p s;
     (_, s1) \<leftarrow> unlink_bin (Bin uiBinIdx) (ptr_to_handle p s) s;
     s' \<leftarrow> (if sz - tSize < get_min_chunk_size (clear_if_empty uiBinIdx s1)
            then do { sz \<leftarrow> CHUNK_SIZE p (clear_if_empty uiBinIdx s1); set_inuse_bit_at_offset p sz (clear_if_empty uiBinIdx s1) }
            else do {
              s8 \<leftarrow> split_writes p tSize (sz - tSize) (clear_if_empty uiBinIdx s1);
              (_, _, s9) \<leftarrow> inter_free (ptr_to_handle (p + tSize) s8 + 2 * 4) s8;
              Some s9 });
     Some (ptr_to_handle (chunk2mem p) s', s') }"
  unfolding carve_def split_writes_def Let_def Option.bind_assoc by (rule refl)

lemma same_head_min: "same_head s s' \<Longrightarrow> get_min_chunk_size s' = get_min_chunk_size s"
  by (simp add: get_min_chunk_size_def same_headD)

lemma carve_ok:
  assumes ok: "bm_ok s (xs @ (p, n, False) # ys) B" and t: "t \<le> n" "24 \<le> t" "8 dvd t" and least: "24 \<le> get_min_chunk_size s"
  obtains s' L' B' k where "carve (bin_index n) p t s = Some (p + 8, s')" "bm_ok s' L' B'" "t \<le> k"
    "used_blks L' = used_blks xs @ (p, k, True) # used_blks ys" "same_acct s s'" "keeps (xs @ ys) (chunks s) (chunks s')"
proof -
  note okD = bm_okD [OF ok] and sz = ok_size [OF ok]
  obtain s1 s2 B2 where 1: "unlink_bin (Bin (bin_index n)) p s = Some (0, s1)" "clear_if_empty (bin_index n) s1 = s2"
    "binned s2 (free_blks xs \<union> free_blks ys) B2" "same_tags (starts (xs @ (p, n, False) # ys) (m_hTop s)) (chunks s) (chunks s2)"
    "keeps (xs @ ys) (chunks s) (chunks s2)" "same_head s s2" "\<forall>m. reach (s2\<lparr>chunks := m\<rparr>) = reach s" "reach s2 = reach s"
    by (rule unlink_free [OF ok])
  have pS: "p \<in> starts (xs @ (p, n, False) # ys) (m_hTop s)" by simp
  have C: "CHUNK_SIZE p s = Some n" "ptr_to_handle p s = p"
    using get_fld_reach [OF okD(4) pS] okD(2) REAL_SIZE_aligned [OF sz(3)] sz by (simp_all add: CHUNK_SIZE_def headers_middle ptr_to_handle_def)
  show thesis
  proof (cases "n - t < get_min_chunk_size s")
    case True
    obtain s' where w: "CHUNK_SIZE p s2 = Some n" "set_inuse_bit_at_offset p n s2 = Some s'" "bm_ok s' (xs @ (p, n, True) # ys) B2"
      "keeps (xs @ ys) (chunks s2) (chunks s')" "same_head s s'" by (rule take_whole [OF ok 1(3,4,6,8)])
    have "carve (bin_index n) p t s = Some (p + 8, s')"
      using C 1(1,2) w True same_head_min [OF 1(6)] sz same_headD(1) [OF w(5)] by (simp add: carve_eq chunk2mem_def ptr_to_handle_def)
    then show thesis using that [OF _ w(3) t(1)] keeps_trans [OF 1(5) w(4)] same_head_acct [OF w(5)] by simp
  next
    case False
    define r where "r = n - t"
    have r: "n = t + r" "24 \<le> r" "8 dvd r" using False t least sz(3) by (simp_all add: r_def dvd_diff_nat)
    obtain s8 where w: "split_writes p t r s2 = Some s8" "bm_ok s8 (xs @ (p, t, True) # (p + t, r, True) # ys) B2"
      "keeps (xs @ ys) (chunks s2) (chunks s8)" "same_head s s8"
      by (rule take_part [OF ok [unfolded r(1)] t(2,3) r(2,3) 1(3) 1(4) [unfolded r(1)] 1(6,8)])
    have ok8: "bm_ok s8 ((xs @ [(p, t, True)]) @ (p + t, r, True) # ys) B2" using w(2) by simp
    obtain s' L' B' where f: "inter_free (p + t + 8) s8 = Some (0, r, s')" "bm_ok s' L' B'"
      "used_blks L' = used_blks (xs @ [(p, t, True)]) @ used_blks ys" "same_acct s8 s'"
      "keeps ((xs @ [(p, t, True)]) @ ys) (chunks s8) (chunks s')" by (rule inter_free_ok [OF ok8])
    have acct: "same_acct s s'" using same_acct_trans [OF same_head_acct [OF w(4)] f(4)] .
    have "carve (bin_index n) p t s = Some (p + 8, s')"
      using C 1(1,2) w(1) f(1) False same_head_min [OF 1(6)] sz same_headD(1) [OF w(4)] acct r
      by (simp add: carve_eq chunk2mem_def ptr_to_handle_def r_def [symmetric] same_acct_def)
    moreover have "keeps (xs @ ys) (chunks s8) (chunks s')" by (rule keeps_subset [OF f(5)]) auto
    ultimately show thesis using that [OF _ f(2), of t] f(3) acct keeps_trans [OF keeps_trans [OF 1(5) w(3)]] by simp
  qed
qed

section \<open>The search through the bins\<close>

lemma bin_member:
  assumes ok: "bm_ok s L B" and "i < NBINS" "p \<in> set (B i)"
  obtains xs n ys where "L = xs @ (p, n, False) # ys" "bin_index n = i" "CHUNK_SIZE p s = Some n" "p \<noteq> 0"
proof -
  obtain n where n: "(p, n, False) \<in> set L" "bin_index n = i" using binnedD(2) [OF bm_okD(3) [OF ok] assms(2)] assms(3) by (auto simp: free_blks_def)
  then obtain xs ys where L: "L = xs @ (p, n, False) # ys" by (meson split_list)
  have ok': "bm_ok s (xs @ (p, n, False) # ys) B" using ok L by simp
  have "p \<in> starts (xs @ (p, n, False) # ys) (m_hTop s)" by simp
  from get_fld_reach [OF bm_okD(4) [OF ok'] this]
  have "CHUNK_SIZE p s = Some n" using bm_okD(2) [OF ok'] REAL_SIZE_aligned [OF ok_size(3) [OF ok']] by (simp add: CHUNK_SIZE_def headers_middle)
  then show thesis using that L n(2) ok_size(5) [OF ok'] by blast
qed

lemma bin_links:
  assumes ok: "bm_ok s L B" and "i < NBINS" "B i = as @ p # bs"
  shows "get_fld NextChunk p s = Some (lk.ptr_first bs)" "get_fld PreChunk p s = Some (lk.ptr_last as)"
    "lk.ptr_first (B i) = m_hNextChunk (bins s (Bin i))" "lk.ptr_last (B i) = m_hPreChunk (bins s (Bin i))"
proof -
  note b = binnedD [OF bm_okD(3) [OF ok] assms(2)]
  have "p \<in> starts L (m_hTop s)" using b(2) assms(3) bm_okD(5) [OF ok] by force
  then show "get_fld NextChunk p s = Some (lk.ptr_first bs)" "get_fld PreChunk p s = Some (lk.ptr_last as)"
    using get_fld_reach [OF bm_okD(4) [OF ok]] lk.dllD [OF b(3) [unfolded assms(3)]] by simp_all
  show "lk.ptr_first (B i) = m_hNextChunk (bins s (Bin i))" "lk.ptr_last (B i) = m_hPreChunk (bins s (Bin i))"
    using b(4) by (simp_all add: bin_ends_def)
qed

lemma search_bin_ok:
  assumes ok: "bm_ok s L B" and i: "i < NBINS" and B: "B i = as @ bs"
  shows "search_bin k t (lk.ptr_first bs) s = Some None \<or>
    (\<exists>p n. search_bin k t (lk.ptr_first bs) s = Some (Some p) \<and> p \<in> set (B i) \<and> CHUNK_SIZE p s = Some n \<and> t \<le> n)"
  using B
proof (induction k arbitrary: as bs)
  case (Suc k)
  show ?case
  proof (cases bs)
    case (Cons p cs)
    have p: "p \<in> set (B i)" using Suc.prems Cons by simp
    obtain xs n ys where n: "L = xs @ (p, n, False) # ys" "bin_index n = i" "CHUNK_SIZE p s = Some n" "p \<noteq> 0" by (rule bin_member [OF ok i p])
    have "get_fld NextChunk p s = Some (lk.ptr_first cs)" using bin_links(1) [OF ok i] Suc.prems Cons by simp
    then show ?thesis using Suc.IH [of "as @ [p]" cs] Suc.prems Cons n p by (simp add: lk.ptr_first_def)
  qed (simp add: lk.ptr_first_def)
qed simp

text \<open>Every chunk of a bin behind the one of the size is large enough, so the search from the
  end of the bin returns its last chunk.\<close>

lemma last_fit_ok:
  assumes ok: "bm_ok s L B" and i: "i < NBINS" "B i \<noteq> []" and t: "bin_index t < i"
  shows "last_fit t (m_hPreChunk (bins s (Bin i))) s = Some (last (B i)) \<and> (\<exists>n. CHUNK_SIZE (last (B i)) s = Some n \<and> t \<le> n)"
proof -
  obtain as p where B: "B i = as @ [p]" using i(2) by (cases "B i" rule: rev_cases) auto
  have p: "p \<in> set (B i)" using B by simp
  obtain xs n ys where n: "L = xs @ (p, n, False) # ys" "bin_index n = i" "CHUNK_SIZE p s = Some n" "p \<noteq> 0" by (rule bin_member [OF ok i(1) p])
  have "t \<le> n" using t n(2) bin_index_mono [of n t] by (meson nle_le not_less)
  then show ?thesis using n(3,4) bin_links(2,4) [OF ok i(1) B] B
    by (subst last_fit.simps) (simp add: lk.ptr_last_def handle_to_ptr_def)
qed

lemma skip_empty_le: "i \<le> skip_empty i s"
  by (induction i s rule: skip_empty.induct) (subst skip_empty.simps, auto)

lemma skip_empty_found: "skip_empty i s < NBINS \<Longrightarrow> m_hNextChunk (bins s (Bin (skip_empty i s))) \<noteq> 0"
proof (induction i s rule: skip_empty.induct)
  case (1 i s)
  then show ?case using skip_empty.simps [of i s] by (auto split: if_splits)
qed

lemma skip_words_le: "idx \<le> skip_words i idx s"
  by (induction i idx s rule: skip_words.induct) (subst skip_words.simps, auto)

lemma next_bin_ge: "i \<le> next_bin i s"
proof -
  have "i \<le> Suc (i div 32) * 32" by presburger
  also have "\<dots> \<le> skip_words (Suc (i div 32)) (Suc (i div 32) * 32) s" by (rule skip_words_le)
  finally have "i \<le> (if bitmap_word (i div 32) s = 0 then skip_words (Suc (i div 32)) (Suc (i div 32) * 32) s else i)" by simp
  then show ?thesis unfolding next_bin_def Let_def using skip_empty_le order.trans by blast
qed

text \<open>The search for the next bin in use misses none: the bit of a bin in use is set.\<close>

lemma skip_empty_first: "i \<le> j \<Longrightarrow> j < NBINS \<Longrightarrow> m_hNextChunk (bins s (Bin j)) \<noteq> 0 \<Longrightarrow> skip_empty i s \<le> j"
proof (induction i s rule: skip_empty.induct)
  case (1 i s)
  then show ?case using skip_empty.simps [of i s] by (cases "i = j") auto
qed

lemma word_behind: "w \<le> j div 32 \<Longrightarrow> j div 32 \<noteq> w \<Longrightarrow> Suc w * 32 \<le> j"
  using less_eq_div_iff_mult_less_eq [of 32 "Suc w" j] by simp

lemma skip_words_first: "w * 32 \<le> j \<Longrightarrow> j < NBINS \<Longrightarrow> m_auiBinBitMap s (j div 32) \<noteq> 0 \<Longrightarrow> skip_words w (w * 32) s \<le> j"
proof (induction "4 - w" arbitrary: w)
  case 0
  then show ?case by simp
next
  case (Suc k)
  show ?case
  proof (cases "bitmap_word w s = 0")
    case True
    have "w < 4" using Suc.hyps(2) by simp
    then have "j div 32 \<noteq> w" using True Suc.prems(3) by (auto simp: bitmap_word_def)
    then have "Suc w * 32 \<le> j" using word_behind [of w j] Suc.prems(1) by (simp add: less_eq_div_iff_mult_less_eq)
    then have "skip_words (Suc w) (Suc w * 32) s \<le> j" using Suc.hyps Suc.prems(2,3) by (intro Suc.hyps(1)) simp_all
    moreover have "skip_words w (w * 32) s = skip_words (Suc w) (Suc w * 32) s"
      using True \<open>w < 4\<close> by (subst skip_words.simps) (simp add: add.commute)
    ultimately show ?thesis by simp
  next
    case False
    then show ?thesis using Suc.prems(1) by (subst skip_words.simps) simp
  qed
qed

lemma next_bin_first:
  assumes ok: "bm_ok s L B" and j: "i \<le> j" "j < NBINS" "B j \<noteq> []"
  shows "next_bin i s \<le> j"
proof -
  note b = binnedD [OF bm_okD(3) [OF ok] j(2)]
  have "set (B j) \<subseteq> starts L (m_hTop s)" using b(2) bm_okD(5) [OF ok] by force
  then have e: "m_hNextChunk (bins s (Bin j)) \<noteq> 0" using ends_zero(1) [OF bm_okD(4) [OF ok]] b(4) j(3) by (simp add: bin_ends_def)
  have "m_auiBinBitMap s (j div 32) \<noteq> 0" using b(5) [OF j(3)] by auto
  moreover have "Suc (i div 32) * 32 \<le> j" if "bitmap_word (i div 32) s = 0"
  proof -
    have "i div 32 < 4" using j(1,2) by simp
    then have "j div 32 \<noteq> i div 32" using that \<open>m_auiBinBitMap s (j div 32) \<noteq> 0\<close> by (auto simp: bitmap_word_def)
    then show ?thesis using word_behind [of "i div 32" j] div_le_mono [OF j(1)] by simp
  qed
  ultimately have "(if bitmap_word (i div 32) s = 0 then skip_words (Suc (i div 32)) (Suc (i div 32) * 32) s else i) \<le> j"
    using skip_words_first [of "Suc (i div 32)" j s] j(1,2) by presburger
  then show ?thesis unfolding next_bin_def Let_def using skip_empty_first [OF _ j(2) e] by blast
qed

lemma next_bin_used:
  assumes ok: "bm_ok s L B" and i: "next_bin i s < NBINS"
  shows "B (next_bin i s) \<noteq> []"
proof -
  have "m_hNextChunk (bins s (Bin (next_bin i s))) \<noteq> 0" using i skip_empty_found unfolding next_bin_def Let_def by blast
  then show ?thesis using binnedD(4) [OF bm_okD(3) [OF ok] i] by (auto simp: bin_ends_def lk.ptr_first_def)
qed

section \<open>The chunk from the top\<close>

lemma top_alloc_ok:
  assumes ok: "bm_ok s L B" and t: "24 \<le> t" "8 dvd t" and room: "m_hTop s + t + 24 < m_tSize s"
  obtains s' where "top_alloc t s = Some (Some (m_hTop s + 8), s')" "bm_ok s' (L @ [(m_hTop s, t, True)]) B" "same_acct s s'"
    "keeps L (chunks s) (chunks s')"
proof -
  let ?p = "m_hTop s" and ?L' = "L @ [(m_hTop s, t, True)]"
  let ?e = "?p + t"
  let ?S' = "starts ?L' ?e"
  note okD = bm_okD [OF ok]
  have h: "tagged (chunks s) True L" "lastu True L" "fld Size (chunks s) ?p = 1" using okD(2) by (simp_all add: headers_def)
  have T': "tiles (m_hBottom s) ?L' ?e" using okD(1) t by (simp add: tiles_append)
  have re: "reach s ?S'"
  proof -
    have "0 < a \<and> a + 24 \<le> m_tSize s" if "a \<in> ?S'" for a using starts_less [OF T' that] ok room by (auto simp: bm_ok_def)
    then show ?thesis using starts_spaced [OF T'] okD(8) by (simp add: reach_def)
  qed
  have S: "?p \<in> ?S'" "?e \<in> ?S'" "fst ` set L \<subseteq> ?S'" by auto
  define m1 where "m1 = set_fld Size ?p (t + 1) (chunks s)"
  define m2 where "m2 = set_fld PreSize ?e t m1"
  define m3 where "m3 = set_fld Size ?e 1 m2"
  have ft: "fits Size (t + 1)" "fits PreSize t" "fits Size 1" using room okD(8) by (auto simp: fits_iff MAX_ALLOC_SIZE_def)
  have f: "fld g m3 a = (if g = Size \<and> a = ?e then 1 else if g = PreSize \<and> a = ?e then t else if g = Size \<and> a = ?p then t + 1 else fld g (chunks s) a)"
    if "a \<in> ?S'" for g a
    unfolding m3_def m2_def m1_def fld_put_reach [OF re S(2) that ft(3)] fld_put_reach [OF re S(2) that ft(2)] fld_put_reach [OF re S(1) that ft(1)] by simp
  define s' where "s' = s\<lparr>chunks := m3, m_hTop := ?e, statMemoryTop := int ?e\<rparr>"
  have wr: "put_fld f a w (s\<lparr>chunks := m\<rparr>) = Some (s\<lparr>chunks := set_fld f a w m\<rparr>)" if "a \<in> ?S'" for f a w m
    using put_fld_reach [OF reach_cong [OF re] that, of "s\<lparr>chunks := m\<rparr>"] by simp
  have "?p \<noteq> 0" using ok tiles_le [OF okD(1)] by (auto simp: bm_ok_def)
  then have A: "top_alloc t s = Some (Some (?p + 8), s')"
    using room get_fld_reach [OF re S(1)] put_fld_reach [OF re S(1)] wr [OF S(2)] h(3) REAL_SIZE_aligned(1) [OF t(2)]
    by (simp add: top_alloc_def handle_to_ptr_def chunk2mem_def s'_def m3_def m2_def m1_def add.commute Let_def)
  have "tagged m3 True L" by (rule tagged_below [OF okD(1) h(1) S(3,1)]) (use f t in auto)
  then have "headers m3 ?L' ?e" using f S h t by (simp add: headers_middle)
  moreover have "binned (s\<lparr>chunks := m3\<rparr>) (free_blks ?L') B"
    by (rule binned_links [of s _ _ ?S']) (use okD(3) fst_free_blks [of L] f in auto)
  then have "binned s' (free_blks ?L') B" by (rule binned_cong) (simp_all add: s'_def)
  ultimately have K: "bm_ok s' ?L' B" using ok T' room by (simp add: bm_ok_def s'_def)
  have "agree ({?p + 4..<?p + 8} \<union> {?e..<?e + 8}) (chunks s) m3" (is "agree ?R _ _")
  proof -
    have "agree ?R (chunks s) m1" "agree ?R m1 m2" "agree ?R m2 m3"
      unfolding m1_def m2_def m3_def by (rule agree_mono [OF agree_set_fld]; auto)+
    then show ?thesis by (meson agree_same)
  qed
  then have "keeps L (chunks s) m3" by (rule keeps_mark [OF _ t(1)]) (use tiles_bounds(2) [OF okD(1)] in blast)
  then show thesis using that [OF A K] by (simp add: same_acct_def s'_def)
qed

lemma request2size_ok:
  assumes "\<not> REQUEST_OUT_OF_RANGE req"
  shows "24 \<le> request2size req" "8 dvd request2size req" "req + 4 \<le> request2size req" "request2size req \<le> req + 24"
proof -
  show "24 \<le> request2size req" "8 dvd request2size req"
    unfolding request2size_def using div_le_mono [of 24 "req + 4 + 7" 8] by auto
  have "(req + 11) div 8 * 8 + (req + 11) mod 8 = req + 11" "(req + 11) mod 8 < 8" by simp_all
  then show "req + 4 \<le> request2size req" "request2size req \<le> req + 24" unfolding request2size_def by (simp_all, linarith+)
qed

section \<open>Allocation\<close>

text \<open>The new chunk is inserted among those in use, or there is none because neither a bin behind the
  one of the size nor the top has the space.\<close>

definition no_space :: "nat \<Rightarrow> bin_malloc \<Rightarrow> blk list \<Rightarrow> bool" where
  "no_space req s L \<longleftrightarrow> REQUEST_OUT_OF_RANGE req \<or>
     m_tSize s \<le> m_hTop s + request2size req + 24 \<and>
     (\<forall>(a, n) \<in> free_blks L. bin_index n \<le> bin_index (request2size req)) \<and>
     (in_smallbin_range (request2size req) \<longrightarrow> (\<forall>(a, n) \<in> free_blks L. n < request2size req))"

definition allocated :: "nat \<Rightarrow> nat \<Rightarrow> blk list \<Rightarrow> blk list \<Rightarrow> bool" where
  "allocated req p U U' \<longleftrightarrow> (\<exists>us vs k. U = us @ vs \<and> U' = us @ (p, k, True) # vs \<and> req + 4 \<le> k)"

lemma carve_allocated:
  assumes ok: "bm_ok s L B" and L: "L = xs @ (p, n, False) # ys" and t: "request2size req \<le> n" "\<not> REQUEST_OUT_OF_RANGE req"
    and least: "24 \<le> get_min_chunk_size s"
  obtains s' L' B' where "carve (bin_index n) p (request2size req) s = Some (p + 8, s')" "bm_ok s' L' B'"
    "allocated req p (used_blks L) (used_blks L')" "same_acct s s'" "keeps L (chunks s) (chunks s')"
proof -
  note r = request2size_ok [OF t(2)]
  obtain s' L' B' k where c: "carve (bin_index n) p (request2size req) s = Some (p + 8, s')" "bm_ok s' L' B'" "request2size req \<le> k"
    "used_blks L' = used_blks xs @ (p, k, True) # used_blks ys" "same_acct s s'" "keeps (xs @ ys) (chunks s) (chunks s')"
    by (rule carve_ok [OF ok [unfolded L] t(1) r(1,2) least])
  have "allocated req p (used_blks L) (used_blks L')" 
    unfolding allocated_def using c(3,4) r(3) L by (intro exI [of _ "used_blks xs"] exI [of _ "used_blks ys"] exI [of _ k]) simp
  moreover have "keeps L (chunks s) (chunks s')" using c(6) by (auto simp: L keeps_def)
  ultimately show thesis using that c by blast
qed

text \<open>Small bins hold chunks of one size, so their first chunk fits exactly.\<close>

lemma small_bin_exact:
  assumes "in_smallbin_range t" "8 dvd t" "8 dvd n" "bin_index n = smallbin_index t"
  shows "n = t"
proof -
  have "bin_index n < 64" using assms(1,4) by (simp add: in_smallbin_range_def smallbin_index_def less_mult_imp_div_less)
  then have "n < 512" unfolding bin_index_ranges by (simp split: if_splits)
  then have "n div 8 = t div 8" using assms(4) by (simp add: bin_index_ranges smallbin_index_def)
  then show ?thesis using assms(2,3) by (metis dvd_div_eq_iff)
qed

lemma small_bin_malloc_ok:
  assumes ok: "bm_ok s L B" and t: "in_smallbin_range t" "8 dvd t"
  shows "(small_bin_malloc t s = Some (None, clear_if_empty (smallbin_index t) s) \<and> B (smallbin_index t) = []) \<or>
    (\<exists>p xs ys s' B'. small_bin_malloc t s = Some (Some p, s') \<and> L = xs @ (p, t, False) # ys \<and> bm_ok s' (xs @ (p, t, True) # ys) B' \<and>
      same_head s s' \<and> keeps (xs @ ys) (chunks s) (chunks s'))"
proof -
  define i where "i = smallbin_index t"
  have i: "i < NBINS" "i = bin_index t" using t(1) bin_index_less [of t] by (simp_all add: i_def bin_index_def)
  note okD = bm_okD [OF ok] and b = binnedD [OF okD(3) i(1)]
  show ?thesis
  proof (cases "B i")
    case Nil
    then show ?thesis using b(4) by (simp add: small_bin_malloc_def bin_malloc_from_def bin_ends_def lk.ptr_first_def i_def)
  next
    case (Cons p ps)
    have "p \<in> set (B i)" using Cons by simp
    then obtain xs n ys where p: "L = xs @ (p, n, False) # ys" "bin_index n = i" "CHUNK_SIZE p s = Some n" "p \<noteq> 0" by (rule bin_member [OF ok i(1)])
    have ok': "bm_ok s (xs @ (p, n, False) # ys) B" using ok p(1) by simp
    have nt: "n = t" using small_bin_exact [OF t ok_size(3) [OF ok']] p(2) by (simp add: i_def)
    let ?S = "starts (xs @ (p, n, False) # ys) (m_hTop s)"
    have st: "same_tags ?S (chunks s) (chunks s)" by (simp add: same_tags_def)
    obtain m where "CHUNK_SIZE p s = Some n" and m: "set_inuse_bit_at_offset p n s = Some (s\<lparr>chunks := m\<rparr>)"
      "\<And>a. a \<in> ?S \<Longrightarrow> fld Size m a = (if a = p + n then fld Size (chunks s) a + 1 else fld Size (chunks s) a) \<and> fld PreSize m a = fld PreSize (chunks s) a"
      "\<And>a f. a \<in> ?S \<Longrightarrow> f = PreChunk \<or> f = NextChunk \<Longrightarrow> fld f m a = fld f (chunks s) a"
      "keeps (xs @ ys) (chunks s) m" using flag_used [OF ok' st refl] by blast
    define s1 where "s1 = s\<lparr>chunks := m\<rparr>"
    note okD' = bm_okD [OF ok']
    have b1: "binned s1 (free_blks (xs @ (p, n, False) # ys)) B" unfolding s1_def by (rule binned_links [OF okD'(3,5) m(3)])
    have re1: "reach s1 ?S" using okD'(4) by (rule reach_cong) (simp add: s1_def)
    have pF: "(p, n) \<in> free_blks (xs @ (p, n, False) # ys)" by simp
    obtain m2 b2 bm where u: "unlink_bin (Bin (bin_index n)) p s1 = Some (0, s1\<lparr>chunks := m2, bins := b2\<rparr>)"
      "clear_if_empty (bin_index n) (s1\<lparr>chunks := m2, bins := b2\<rparr>) = s1\<lparr>chunks := m2, bins := b2, m_auiBinBitMap := bm\<rparr>"
      "binned (s1\<lparr>chunks := m2, bins := b2, m_auiBinBitMap := bm\<rparr>) (free_blks (xs @ (p, n, False) # ys) - {(p, n)}) (B(bin_index n := remove1 p (B (bin_index n))))"
      "same_tags ?S (chunks s1) m2" "agree (links (fst ` free_blks (xs @ (p, n, False) # ys))) (chunks s1) m2"
      by (rule unlink_binned [OF b1 re1 okD'(5,6) pF])
    define s' where "s' = s1\<lparr>chunks := m2, bins := b2, m_auiBinBitMap := bm\<rparr>"
    have "fld Size m2 a = (if a = p + n then fld Size (chunks s) a + 1 else fld Size (chunks s) a) \<and> fld PreSize m2 a = fld PreSize (chunks s) a" if "a \<in> ?S" for a
      using bspec [OF u(4) [unfolded same_tags_def] that] m(2) [OF that] by (simp add: s1_def)
    then have "headers m2 (xs @ (p, n, True) # ys) (m_hTop s)" by (rule headers_use [OF ok'])
    moreover have "binned s' (free_blks (xs @ (p, n, True) # ys)) (B(bin_index n := remove1 p (B (bin_index n))))"
      using u(3) free_blks_taken [OF okD'(1)] by (simp add: s'_def)
    ultimately have K: "bm_ok s' (xs @ (p, n, True) # ys) (B(bin_index n := remove1 p (B (bin_index n))))"
      using ok' by (simp add: bm_ok_def tiles_middle s'_def s1_def)
    have "keeps (xs @ ys) (chunks s1) m2" by (rule keeps_subset [OF keeps_links [OF okD'(1) u(5)]]) auto
    then have "keeps (xs @ ys) (chunks s) (chunks s')" using keeps_trans [OF m(4)] by (simp add: s1_def s'_def)
    moreover have "same_head s s'" by (simp add: same_head_def s'_def s1_def)
    moreover have "m_hNextChunk (bins s (Bin i)) = p" using b(4) Cons by (simp add: bin_ends_def lk.ptr_first_def)
    then have "bin_malloc_from (Bin i) s = Some (Some p, s1\<lparr>chunks := m2, bins := b2\<rparr>)"
      using p(2,3,4) m(1) u(1) by (auto simp: bin_malloc_from_def handle_to_ptr_def CHUNK_SIZE_def s1_def bind_eq_Some_conv)
    then have "small_bin_malloc t s = Some (Some p, s')" using u(2) p(2) by (simp add: small_bin_malloc_def i_def [symmetric] s'_def)
    ultimately show ?thesis using K p(1) nt by blast
  qed
qed

lemma clear_empty_ok:
  assumes ok: "bm_ok s L B" and i: "i < NBINS" "B i = []"
  shows "bm_ok (clear_if_empty i s) L B" "same_head s (clear_if_empty i s)" "chunks (clear_if_empty i s) = chunks s"
proof -
  have "bit (m_auiBinBitMap (clear_if_empty i s) (j div 32)) (j mod 32)" if "j < NBINS" "B j \<noteq> []" for j
  proof -
    have "j \<noteq> i" using that i by auto
    then show ?thesis using binnedD(5) [OF bm_okD(3) [OF ok] that] bin_position_eq [of i j]
      by (auto simp: clear_if_empty_def clear_bin_bit_map_def bit_and_iff bit_not_iff bit_push_bit_iff bit_1_iff simp del: push_bit_of_1)
  qed
  moreover show h: "same_head s (clear_if_empty i s)" and c: "chunks (clear_if_empty i s) = chunks s"
    by (simp_all add: same_head_def clear_if_empty_def clear_bin_bit_map_def)
  moreover have "bins (clear_if_empty i s) = bins s" by (simp add: clear_if_empty_def clear_bin_bit_map_def)
  ultimately have "binned (clear_if_empty i s) (free_blks L) B" using bm_okD(3) [OF ok] by (simp add: binned_def)
  then show "bm_ok (clear_if_empty i s) L B" using ok same_headD [OF h] c by (simp add: bm_ok_def)
qed

text \<open>The search behind the bin of the size, down to the top.\<close>

definition from_larger :: "nat \<Rightarrow> bin_malloc \<Rightarrow> (nat \<times> bin_malloc) option" where
  "from_larger tSize s =
     (if next_bin (Suc (bin_index tSize)) s \<ge> NBINS then do {
        (t, s2) \<leftarrow> top_alloc tSize s;
        Some (case t of None \<Rightarrow> INVALID | Some p \<Rightarrow> ptr_to_handle p s2, s2) }
      else do {
        p \<leftarrow> last_fit tSize (m_hPreChunk (bins s (Bin (next_bin (Suc (bin_index tSize)) s)))) s;
        carve (next_bin (Suc (bin_index tSize)) s) p tSize s })"

lemma larger_bins_ok:
  assumes ok: "bm_ok s L B" and req: "\<not> REQUEST_OUT_OF_RANGE req" and least: "24 \<le> get_min_chunk_size s"
    and small: "in_smallbin_range (request2size req) \<Longrightarrow> B (bin_index (request2size req)) = []"
  shows "\<exists>h s' L' B'. from_larger (request2size req) s = Some (h, s') \<and>
    bm_ok s' L' B' \<and> same_acct s s' \<and> keeps L (chunks s) (chunks s') \<and>
    (if h = 0 then no_space req s L \<and> used_blks L' = used_blks L else 8 \<le> h \<and> allocated req (h - 8) (used_blks L) (used_blks L'))"
proof -
  define i where "i = next_bin (Suc (bin_index (request2size req))) s"
  show ?thesis
  proof (cases "i \<ge> NBINS")
    case True
    let ?t = "request2size req"
    note r = request2size_ok [OF req] and okD = bm_okD [OF ok]
    show ?thesis
    proof (cases "m_hTop s + ?t + 24 < m_tSize s")
      case room: True
      obtain s' where a: "top_alloc ?t s = Some (Some (m_hTop s + 8), s')" "bm_ok s' (L @ [(m_hTop s, ?t, True)]) B" "same_acct s s'"
        "keeps L (chunks s) (chunks s')" by (rule top_alloc_ok [OF ok r(1,2) room])
      have "ptr_to_handle (m_hTop s + 8) s' = m_hTop s + 8" using a(3) room r(1) by (simp add: ptr_to_handle_def same_acct_def)
      moreover have "allocated req (m_hTop s) (used_blks L) (used_blks (L @ [(m_hTop s, ?t, True)]))"
        unfolding allocated_def using r(3) by (intro exI [of _ "used_blks L"] exI [of _ "[]"] exI [of _ ?t]) simp
      ultimately show ?thesis using True a by (intro exI [of _ "m_hTop s + 8"] exI [of _ s'] exI [of _ "L @ [(m_hTop s, ?t, True)]"] exI [of _ B]) (simp add: from_larger_def i_def)
    next
      case full: False
      have behind: "bin_index n \<le> bin_index ?t" if "(a, n) \<in> free_blks L" for a n
      proof (rule ccontr)
        assume "\<not> bin_index n \<le> bin_index ?t"
        then have "Suc (bin_index ?t) \<le> bin_index n" by simp
        moreover have "B (bin_index n) \<noteq> []" using binnedD(2) [OF okD(3) bin_index_less, of n] that by auto
        ultimately have "i \<le> bin_index n" unfolding i_def by (intro next_bin_first [OF ok]) (simp_all add: bin_index_less)
        then show False using True bin_index_less [of n] by simp
      qed
      moreover have "n < ?t" if "in_smallbin_range ?t" "(a, n) \<in> free_blks L" for a n
      proof -
        have "a \<notin> set (B (bin_index ?t))" using small [OF that(1)] by simp
        then have "bin_index n \<noteq> bin_index ?t" using binnedD(2) [OF okD(3) bin_index_less, of ?t] that(2) by auto
        then show ?thesis using behind [OF that(2)] bin_index_mono [of ?t n] by (meson le_antisym not_less)
      qed
      ultimately have "no_space req s L" using full by (auto simp: no_space_def)
      moreover have "top_alloc ?t s = Some (None, s)" using full by (simp add: top_alloc_def)
      ultimately show ?thesis using True ok by (intro exI [of _ 0] exI [of _ s] exI [of _ L] exI [of _ B]) (simp add: from_larger_def i_def)
    qed
  next
    case False
    let ?t = "request2size req"
    have i: "i < NBINS" "B i \<noteq> []" "bin_index ?t < i" using False next_bin_used [OF ok, of "Suc (bin_index ?t)"] next_bin_ge [of "Suc (bin_index ?t)" s] by (simp_all add: i_def)
    obtain n where l: "last_fit ?t (m_hPreChunk (bins s (Bin i))) s = Some (last (B i))" "CHUNK_SIZE (last (B i)) s = Some n" "?t \<le> n"
      using last_fit_ok [OF ok i] by blast
    have "last (B i) \<in> set (B i)" using i(2) by simp
    then obtain xs k ys where p: "L = xs @ (last (B i), k, False) # ys" "bin_index k = i" "CHUNK_SIZE (last (B i)) s = Some k" by (rule bin_member [OF ok i(1)])
    have k: "k = n" using p(3) l(2) by simp
    obtain s' L' B' where "carve (bin_index k) (last (B i)) ?t s = Some (last (B i) + 8, s')" "bm_ok s' L' B'"
      "allocated req (last (B i)) (used_blks L) (used_blks L')" "same_acct s s'" "keeps L (chunks s) (chunks s')"
      using carve_allocated [OF ok p(1) _ req least] l(3) k by blast
    then show ?thesis using False l(1) p(2)
      by (intro exI [of _ "last (B i) + 8"] exI [of _ s'] exI [of _ L'] exI [of _ B']) (simp add: from_larger_def i_def)
  qed
qed

lemma inter_malloc_ok:
  assumes ok: "bm_ok s L B" and least: "24 \<le> get_min_chunk_size s"
  obtains h s' L' B' where "inter_malloc req s = Some (h, s')" "bm_ok s' L' B'" "same_acct s s'" "keeps L (chunks s) (chunks s')"
    "h = 0 \<Longrightarrow> no_space req s L \<and> used_blks L' = used_blks L"
    "h \<noteq> 0 \<Longrightarrow> 8 \<le> h \<and> allocated req (h - 8) (used_blks L) (used_blks L')"
proof (cases "REQUEST_OUT_OF_RANGE req")
  case True
  then show thesis using that [of 0 s L B] ok by (simp add: inter_malloc_def no_space_def)
next
  case req: False
  let ?t = "request2size req"
  let ?i = "bin_index ?t"
  note r = request2size_ok [OF req]
  have small: "\<exists>h s' L' B'. inter_malloc req s = Some (h, s') \<and> bm_ok s' L' B' \<and> same_acct s s' \<and> keeps L (chunks s) (chunks s') \<and>
      (if h = 0 then no_space req s L \<and> used_blks L' = used_blks L else 8 \<le> h \<and> allocated req (h - 8) (used_blks L) (used_blks L'))"
    if sm: "in_smallbin_range ?t"
    using small_bin_malloc_ok [OF ok sm r(2)]
  proof (elim disjE exE conjE)
    fix p xs ys s' B'
    assume a: "small_bin_malloc ?t s = Some (Some p, s')" "L = xs @ (p, ?t, False) # ys" "bm_ok s' (xs @ (p, ?t, True) # ys) B'" "same_head s s'"
      "keeps (xs @ ys) (chunks s) (chunks s')"
    have "p + ?t + 24 \<le> m_tSize s'" using ok_size [OF a(3)] by simp
    then have "inter_malloc req s = Some (p + 8, s')" using req sm a(1) r(1) by (simp add: inter_malloc_def ptr_to_handle_def chunk2mem_def)
    moreover have "allocated req p (used_blks L) (used_blks (xs @ (p, ?t, True) # ys))"
      unfolding allocated_def using r(3) a(2) by (intro exI [of _ "used_blks xs"] exI [of _ "used_blks ys"] exI [of _ ?t]) simp
    moreover have "keeps L (chunks s) (chunks s')" using a(5) by (auto simp: a(2) keeps_def)
    ultimately show ?thesis using a(3) same_head_acct [OF a(4)] by fastforce
  next
    assume a: "small_bin_malloc ?t s = Some (None, clear_if_empty (smallbin_index ?t) s)" "B (smallbin_index ?t) = []"
    have i: "smallbin_index ?t = ?i" using sm by (simp add: bin_index_def)
    note c = clear_empty_ok [OF ok bin_index_less, of ?t, folded i, OF a(2)]
    have "no_space req (clear_if_empty (smallbin_index ?t) s) L = no_space req s L" using same_headD [OF c(2)] by (simp add: no_space_def)
    moreover have "24 \<le> get_min_chunk_size (clear_if_empty (smallbin_index ?t) s)" using same_head_min [OF c(2)] least by simp
    moreover have "B ?i = []" using a(2) i by simp
    moreover have "inter_malloc req s = from_larger ?t (clear_if_empty (smallbin_index ?t) s)"
      using req sm a(1) by (simp add: inter_malloc_def from_larger_def Let_def)
    ultimately show ?thesis
      using larger_bins_ok [OF c(1) req] c(3) same_acct_trans [OF same_head_acct [OF c(2)]] by (metis (no_types))
  qed
  have large: "\<exists>h s' L' B'. inter_malloc req s = Some (h, s') \<and> bm_ok s' L' B' \<and> same_acct s s' \<and> keeps L (chunks s) (chunks s') \<and>
      (if h = 0 then no_space req s L \<and> used_blks L' = used_blks L else 8 \<le> h \<and> allocated req (h - 8) (used_blks L) (used_blks L'))"
    if lg: "\<not> in_smallbin_range ?t"
  proof -
    have first: "lk.ptr_first (B ?i) = m_hNextChunk (bins s (Bin ?i))" using binnedD(4) [OF bm_okD(3) [OF ok] bin_index_less] by (simp add: bin_ends_def)
    have "B ?i = [] @ B ?i" by simp
    from search_bin_ok [OF ok bin_index_less this, of 99 ?t] show ?thesis
    proof (elim disjE exE conjE)
      assume "search_bin 99 ?t (lk.ptr_first (B ?i)) s = Some None"
      then have "inter_malloc req s = from_larger ?t s" using lg req first by (simp add: inter_malloc_def from_larger_def Let_def)
      then show ?thesis using larger_bins_ok [OF ok req least] lg by simp
    next
      fix p n assume a: "search_bin 99 ?t (lk.ptr_first (B ?i)) s = Some (Some p)" "p \<in> set (B ?i)" "CHUNK_SIZE p s = Some n" "?t \<le> n"
      obtain xs k ys where p: "L = xs @ (p, k, False) # ys" "bin_index k = ?i" "CHUNK_SIZE p s = Some k" by (rule bin_member [OF ok bin_index_less a(2)])
      have "k = n" using p(3) a(3) by simp
      then obtain s' L' B' where "carve ?i p ?t s = Some (p + 8, s')" "bm_ok s' L' B'" "allocated req p (used_blks L) (used_blks L')"
        "same_acct s s'" "keeps L (chunks s) (chunks s')"
        using carve_allocated [OF ok p(1) _ req least] a(4) p(2) by metis
      then show ?thesis using a(1) lg req first by (intro exI [of _ "p + 8"] exI [of _ s'] exI [of _ L'] exI [of _ B']) (simp add: inter_malloc_def Let_def)
    qed
  qed
  obtain h s' L' B' where "inter_malloc req s = Some (h, s')" "bm_ok s' L' B'" "same_acct s s'" "keeps L (chunks s) (chunks s')"
    "if h = 0 then no_space req s L \<and> used_blks L' = used_blks L else 8 \<le> h \<and> allocated req (h - 8) (used_blks L) (used_blks L')"
    using small large by blast
  then show thesis using that by (auto split: if_splits)
qed

end
