(* ===== verification/Bin_Heap.thy ===== *)
theory Bin_Heap
  imports Bin_Alloc
begin

text \<open>
  The allocator as its clients see it: the handles they own, the counters, and a store of
  independent byte strings that the operations implement.
\<close>

section \<open>Counters\<close>

definition used_sum :: "blk list \<Rightarrow> nat" where
  "used_sum L = sum_list (map (\<lambda>(a, n, u). n) (used_blks L))"

lemma used_sum_bounds: "tiles lo L hi \<Longrightarrow> lo + used_sum L \<le> hi \<and> 24 * length (used_blks L) \<le> used_sum L"
proof (induction L arbitrary: lo)
  case (Cons b L)
  obtain a n u where b: "b = (a, n, u)" by (cases b)
  have "lo + n + used_sum L \<le> hi" "24 * length (used_blks L) \<le> used_sum L" "24 \<le> n" using Cons b by auto
  then show ?case by (auto simp: b used_sum_def)
qed (simp add: used_sum_def)

text \<open>The counters agree with the layout, and the least size of a split is none or at least that of a
  chunk.\<close>

definition acct :: "bin_malloc \<Rightarrow> blk list \<Rightarrow> bool" where
  "acct s L \<longleftrightarrow> m_tUserAllocSize s = word_of_nat (m_hBottom s + used_sum L) \<and> m_tUserAllocChunkCnt s = word_of_nat (length (used_blks L)) \<and>
     statChunkTotal s = int (length (used_blks L)) \<and> statDataSize s = int (m_hBottom s + used_sum L) \<and>
     (minChunkSize s = 1 \<or> 24 \<le> minChunkSize s)"

definition bm_inv :: "bin_malloc \<Rightarrow> blk list \<Rightarrow> (nat \<Rightarrow> nat list) \<Rightarrow> bool" where
  "bm_inv s L B \<longleftrightarrow> bm_ok s L B \<and> acct s L"

lemma acct_cong: "acct s L \<Longrightarrow> same_acct s s' \<Longrightarrow> used_blks L' = used_blks L \<Longrightarrow> acct s' L'"
  by (simp add: acct_def same_acct_def used_sum_def)

lemma sint_of_nat_small: "n < 2 ^ 63 \<Longrightarrow> sint (word_of_nat n :: u64) = int n"
proof -
  assume n: "n < 2 ^ 63"
  have "signed_take_bit 63 (int n) = int n" using n by (intro signed_take_bit_int_eq_self) (simp_all add: order.trans [of _ 0])
  then show ?thesis using n by (simp add: sint_uint unsigned_of_nat take_bit_nat_eq_self)
qed

lemma least_ok:
  assumes "bm_inv s L B"
  shows "24 \<le> get_min_chunk_size s"
proof (cases "minChunkSize s = 1 \<and> used_blks L \<noteq> []")
  case True
  note ok = assms [unfolded bm_inv_def, THEN conjunct1] and ac = assms [unfolded bm_inv_def acct_def, THEN conjunct2]
  let ?n = "m_hBottom s + used_sum L" and ?c = "length (used_blks L)"
  have b: "?n \<le> m_hTop s" "24 * ?c \<le> ?n" using used_sum_bounds [OF bm_okD(1) [OF ok]] by auto
  have c: "0 < ?c" using True by simp
  have "24 \<le> ?n div ?c" using b(2) c by (simp add: less_eq_div_iff_mult_less_eq mult.commute)
  moreover have "?n div ?c < 2 ^ 32" 
    by (rule le_less_trans [OF div_le_dividend]) (use b(1) bm_okD(7,8) [OF ok] in \<open>simp add: MAX_ALLOC_SIZE_def\<close>)
  ultimately show ?thesis using ac True c by (simp add: get_min_chunk_size_def u32_of_def nat_div_distrib flip: of_nat_add zdiv_int)
qed (use assms in \<open>auto simp: bm_inv_def acct_def get_min_chunk_size_def\<close>)

section \<open>Ownership\<close>

definition owned :: "blk list \<Rightarrow> nat \<rightharpoonup> nat" where
  "owned L = map_of (map (\<lambda>(a, n, u). (a + 8, n - 4)) (used_blks L))"

lemma used_keys_distinct: "tiles lo L hi \<Longrightarrow> distinct (map fst (map (\<lambda>(a, n, u). (a + 8, n - 4)) (used_blks L)))"
proof (induction L arbitrary: lo)
  case (Cons b L)
  obtain a n u where b: "b = (a, n, u)" by (cases b)
  have "a + 8 \<noteq> c + 8" if "(c, k, v) \<in> set (used_blks L)" for c k v
    using tiles_bounds(1) [of "a + n" L hi c k v] that Cons.prems b by (auto simp: used_blks_def)
  then show ?case using Cons b by (auto simp: case_prod_beta)
qed simp

lemma owned_iff:
  assumes "tiles lo L hi"
  shows "owned L h = Some k \<longleftrightarrow> (\<exists>a n. (a, n, True) \<in> set L \<and> h = a + 8 \<and> k = n - 4)"
  unfolding owned_def map_of_eq_Some_iff [OF used_keys_distinct [OF assms]] by (force simp: used_blks_def)

lemma owned_chunk:
  assumes ok: "bm_ok s L B" and h: "owned L h = Some k"
  obtains xs p n ys where "L = xs @ (p, n, True) # ys" "h = p + 8" "k = n - 4"
  using h owned_iff [OF bm_okD(1) [OF ok]] by (metis split_list)

text \<open>Different owners have disjoint parts of the memory.\<close>

lemma owned_disjoint:
  assumes ok: "bm_ok s L B" and "owned L h = Some k" "owned L h' = Some k'"
  shows "m_hBottom s + 8 \<le> h" "h + k + 24 \<le> m_tSize s + 4" "h = h' \<or> h + k \<le> h' \<or> h' + k' \<le> h" "20 \<le> k"
proof -
  obtain xs p n ys where p: "L = xs @ (p, n, True) # ys" "h = p + 8" "k = n - 4" by (rule owned_chunk [OF ok assms(2)])
  obtain a m where a: "(a, m, True) \<in> set L" "h' = a + 8" "k' = m - 4" using assms(3) owned_iff [OF bm_okD(1) [OF ok]] by blast
  note sz = ok_size [OF ok [unfolded p(1)]]
  show "m_hBottom s + 8 \<le> h" "h + k + 24 \<le> m_tSize s + 4" "20 \<le> k" using sz p by auto
  show "h = h' \<or> h + k \<le> h' \<or> h' + k' \<le> h"
    using tiles_others [OF bm_okD(1) [OF ok, unfolded p(1)], of a m True] a p by auto
qed

text \<open>A client may write anything into what it owns.\<close>

lemma user_writes_ok:
  assumes ok: "bm_ok s L B" and w: "\<And>x. m x \<noteq> chunks s x \<Longrightarrow> \<exists>h k. owned L h = Some k \<and> h \<le> x \<and> x < h + k"
  shows "bm_ok (s\<lparr>chunks := m\<rparr>) L B"
proof -
  note okD = bm_okD [OF ok]
  have u: "\<exists>a n. (a, n, True) \<in> set L \<and> a + 8 \<le> x \<and> x < a + n + 4" if d: "m x \<noteq> chunks s x" for x
  proof -
    obtain h k where "owned L h = Some k" "h \<le> x" "x < h + k" using w [OF d] by blast
    then show ?thesis using owned_iff [OF okD(1)] tiles_bounds(3) [OF okD(1)] by fastforce
  qed
  have size: "fld Size m c = fld Size (chunks s) c" if c: "c \<in> starts L (m_hTop s)" for c
    by (rule fld_unchanged) (use u tiles_order [OF okD(1) _ c] in fastforce)
  have apart: "c + k \<le> a \<or> a + n \<le> c" if c: "(c, k, False) \<in> set L" and a: "(a, n, True) \<in> set L" for a n c k
  proof -
    obtain xs ys where "L = xs @ (c, k, False) # ys" using c by (meson split_list)
    then show ?thesis using tiles_others [of "m_hBottom s" xs c k False ys "m_hTop s" a n True] okD(1) a by auto
  qed
  have pre: "fld PreSize m (c + k) = fld PreSize (chunks s) (c + k)" if c: "(c, k, False) \<in> set L" for c k
  proof (rule fld_unchanged)
    fix x assume "c + k + field_offset PreSize \<le> x" "x < c + k + field_offset PreSize + field_width PreSize"
    then show "m x = chunks s x" using u [of x] apart [OF c] tiles_bounds(3) [OF okD(1) c] by fastforce
  qed
  have link: "fld f m c = fld f (chunks s) c" if c: "(c, k, False) \<in> set L" and f: "f = PreChunk \<or> f = NextChunk" for c k f
  proof (rule fld_unchanged)
    fix x assume "c + field_offset f \<le> x" "x < c + field_offset f + field_width f"
    then have "c + 8 \<le> x" "x < c + 24" using f by auto
    then show "m x = chunks s x" using u [of x] apart [OF c] tiles_bounds(3) [OF okD(1) c] by fastforce
  qed
  have "tagged m True L" by (rule tagged_cong [of "chunks s"]) (use okD(2) size pre in \<open>auto simp: headers_def starts_def\<close>)
  then have "headers m L (m_hTop s)" using okD(2) size [of "m_hTop s"] by (simp add: headers_def starts_def)
  moreover have "binned (s\<lparr>chunks := m\<rparr>) (free_blks L) B"
    by (rule binned_cong [OF okD(3)]) (use link in \<open>auto simp: free_blks_def\<close>)
  ultimately show ?thesis using ok by (simp add: bm_ok_def)
qed

lemma acct_chunks [simp]: "acct (s\<lparr>chunks := m\<rparr>) L = acct s L"
  by (simp add: acct_def)

lemma keeps_owned: "keeps L m m' \<Longrightarrow> tiles lo L hi \<Longrightarrow> owned L h = Some k \<Longrightarrow> h \<le> x \<Longrightarrow> x < h + k \<Longrightarrow> m' x = m x"
  unfolding keeps_def using owned_iff [of lo L hi h k] tiles_bounds(3) [of lo L hi] by fastforce

lemma keeps_used: "keeps L m m' \<longleftrightarrow> keeps (used_blks L) m m'"
  by (auto simp: keeps_def used_blks_def)

text \<open>One chunk more among those in use is one more owner.\<close>

lemma one_more:
  assumes "tiles lo L' hi" "used_blks L = us @ vs" "used_blks L' = us @ (p, k, True) # vs"
  shows "owned L (p + 8) = None" "owned L' = (owned L)(p + 8 \<mapsto> k - 4)" "owned L = (owned L')(p + 8 := None)"
    "used_sum L' = used_sum L + k" "length (used_blks L') = Suc (length (used_blks L))"
proof -
  let ?f = "\<lambda>(a :: nat, n :: nat, u :: bool). (a + 8, n - 4)"
  have fresh: "p + 8 \<notin> dom (map_of (map ?f us))" "p + 8 \<notin> dom (map_of (map ?f vs))"
    using used_keys_distinct [OF assms(1)] assms(3) by (force simp: dom_map_of_conv_image_fst)+
  then show N: "owned L (p + 8) = None" by (auto simp: owned_def assms(2) map_add_def dom_def split: option.split)
  show S: "owned L' = (owned L)(p + 8 \<mapsto> k - 4)" using fresh(1) by (simp add: owned_def assms map_add_upd_left)
  show "owned L = (owned L')(p + 8 := None)" using N by (auto simp: S)
  show "used_sum L' = used_sum L + k" "length (used_blks L') = Suc (length (used_blks L))" by (simp_all add: used_sum_def assms)
qed

lemma used_total:
  assumes "bm_ok s L B"
  shows "m_hBottom s + used_sum L < 2 ^ 63" "length (used_blks L) < 2 ^ 63"
  using used_sum_bounds [OF bm_okD(1) [OF assms]] bm_okD(7,8) [OF assms] by (auto simp: MAX_ALLOC_SIZE_def)

lemma stat_same [simp]:
  "m_tSize (add_alloc_size_to_stat r s) = m_tSize s" "m_hBottom (add_alloc_size_to_stat r s) = m_hBottom s"
  "m_hTop (add_alloc_size_to_stat r s) = m_hTop s" "chunks (add_alloc_size_to_stat r s) = chunks s"
  "bins (add_alloc_size_to_stat r s) = bins s" "m_auiBinBitMap (add_alloc_size_to_stat r s) = m_auiBinBitMap s"
  "acct (add_alloc_size_to_stat r s) L = acct s L" "minChunkSize (add_alloc_size_to_stat r s) = minChunkSize s"
  by (simp_all add: add_alloc_size_to_stat_def Let_def acct_def)

section \<open>The operations\<close>

text \<open>An allocation fails without a trace or has a new owner with at least the bytes asked for.\<close>

lemma bm_Malloc_ok:
  assumes inv: "bm_inv s L B"
  obtains h s' L' B' where "bm_Malloc req s = Some (h, s')" "bm_inv s' L' B'" "keeps L (chunks s) (chunks s')" "m_tSize s' = m_tSize s"
    "h = 0 \<Longrightarrow> no_space req s L \<and> owned L' = owned L"
    "h \<noteq> 0 \<Longrightarrow> owned L h = None \<and> (\<exists>k. req \<le> k \<and> owned L' = (owned L)(h \<mapsto> k))"
proof -
  let ?s = "s\<lparr>m_tLastFreeChunkSize := 0\<rparr>"
  note ac = inv [unfolded bm_inv_def, THEN conjunct2]
  have ok: "bm_ok ?s L B" by (rule bm_ok_head_cong [of s]) (use inv in \<open>simp_all add: bm_inv_def\<close>)
  have "get_min_chunk_size ?s = get_min_chunk_size s" by (simp add: get_min_chunk_size_def)
  then have least: "24 \<le> get_min_chunk_size ?s" using least_ok [OF inv] by simp
  obtain h s1 L' B' where m: "inter_malloc req ?s = Some (h, s1)" "bm_ok s1 L' B'" "same_acct ?s s1" "keeps L (chunks ?s) (chunks s1)"
    "h = 0 \<Longrightarrow> no_space req ?s L \<and> used_blks L' = used_blks L" "h \<noteq> 0 \<Longrightarrow> 8 \<le> h \<and> allocated req (h - 8) (used_blks L) (used_blks L')"
    using inter_malloc_ok [OF ok least, of req] by blast
  have ns: "no_space req ?s L = no_space req s L" by (simp add: no_space_def)
  show thesis
  proof (cases "h = 0")
    case True
    have "bm_inv s1 L' B'" using m(2,3,5) ac True by (simp add: bm_inv_def acct_def same_acct_def used_sum_def)
    then show thesis using that [of h s1 L' B'] m ns True by (simp add: bm_Malloc_def owned_def same_acct_def)
  next
    case False
    then obtain p where h: "h = p + 8" and "allocated req p (used_blks L) (used_blks L')" using m(6) by (metis le_add_diff_inverse2)
    then obtain us vs k where u: "used_blks L = us @ vs" "used_blks L' = us @ (p, k, True) # vs" "req + 4 \<le> k" by (auto simp: allocated_def)
    note one = one_more [OF bm_okD(1) [OF m(2)] u(1,2)]
    have "(p, k, True) \<in> set L'" using arg_cong [OF u(2), of set] by (auto simp: used_blks_def)
    then obtain xs ys where "L' = xs @ (p, k, True) # ys" by (meson split_list)
    then have c: "CHUNK_SIZE p s1 = Some k" using chunk_facts(1) m(2) by blast
    define s2 where "s2 = s1\<lparr>m_tUserAllocSize := m_tUserAllocSize s1 + word_of_nat k, m_tUserAllocChunkCnt := m_tUserAllocChunkCnt s1 + 1,
      statChunkTotal := statChunkTotal s1 + 1, statDataSize := sint (m_tUserAllocSize s1 + word_of_nat k)\<rparr>"
    have M: "bm_Malloc req s = Some (h, add_alloc_size_to_stat req s2)"
      using m(1) False h c by (simp add: bm_Malloc_def mem2chunk_def s2_def)
    have "m_tUserAllocSize s1 + word_of_nat k = word_of_nat (m_hBottom s1 + used_sum L')"
      using ac m(3) one(4) by (simp add: acct_def same_acct_def)
    then have "acct s2 L'" using ac m(3) one(4,5) used_total(1) [OF m(2)]
      by (simp add: acct_def same_acct_def s2_def sint_of_nat_small [symmetric] del: of_nat_add)
    moreover have "bm_ok (add_alloc_size_to_stat req s2) L' B'" by (rule bm_ok_head_cong [OF m(2)]) (simp_all add: s2_def)
    ultimately have "bm_inv (add_alloc_size_to_stat req s2) L' B'" by (simp add: bm_inv_def)
    moreover have "req \<le> k - 4" using u(3) by simp
    moreover have "m_tSize s2 = m_tSize s" "chunks s2 = chunks s1" using m(3) by (simp_all add: same_acct_def s2_def)
    ultimately show thesis using that [OF M, of L' B'] m(4) one(1,2) False h by auto
  qed
qed

text \<open>A release by an owner succeeds and removes this owner only.\<close>

lemma bm_Free_ok:
  assumes inv: "bm_inv s L B" and own: "owned L h = Some k"
  obtains s' L' B' where "bm_Free h s = Some (0, s')" "bm_inv s' L' B'" "keeps L' (chunks s) (chunks s')" "m_tSize s' = m_tSize s"
    "owned L' = (owned L)(h := None)"
proof -
  note ok = inv [unfolded bm_inv_def, THEN conjunct1] and ac = inv [unfolded bm_inv_def, THEN conjunct2]
  obtain xs p n ys where p: "L = xs @ (p, n, True) # ys" "h = p + 8" "k = n - 4" by (rule owned_chunk [OF ok own])
  obtain s1 L' B' where f: "inter_free (p + 8) s = Some (0, n, s1)" "bm_ok s1 L' B'" "used_blks L' = used_blks xs @ used_blks ys"
    "same_acct s s1" "keeps (xs @ ys) (chunks s) (chunks s1)" by (rule inter_free_ok [OF ok [unfolded p(1)]])
  have u: "used_blks L = used_blks xs @ (p, n, True) # used_blks ys" by (simp add: p(1))
  note one = one_more [OF bm_okD(1) [OF ok] f(3) u]
  define s2 where "s2 = s1\<lparr>m_tUserAllocSize := m_tUserAllocSize s1 - word_of_nat n, m_tUserAllocChunkCnt := m_tUserAllocChunkCnt s1 - 1,
    statChunkTotal := statChunkTotal s1 - 1, statDataSize := sint (m_tUserAllocSize s1 - word_of_nat n)\<rparr>"
  have F: "bm_Free h s = Some (0, s2)" using f(1) p(2) by (simp add: bm_Free_def s2_def)
  have "m_tUserAllocSize s1 - word_of_nat n = word_of_nat (m_hBottom s1 + used_sum L')" using ac f(4) one(4) by (simp add: acct_def same_acct_def)
  then have "acct s2 L'" using ac f(4) one(4,5) used_total(1) [OF f(2)]
    by (simp add: acct_def same_acct_def s2_def sint_of_nat_small [symmetric] del: of_nat_add)
  moreover have "bm_ok s2 L' B'" by (rule bm_ok_head_cong [OF f(2)]) (simp_all add: s2_def)
  ultimately have "bm_inv s2 L' B'" by (simp add: bm_inv_def)
  moreover have "keeps L' (chunks s) (chunks s2)" using f(3,5) keeps_used [of L'] keeps_used [of "xs @ ys"] by (simp add: s2_def)
  moreover have "m_tSize s2 = m_tSize s" using f(4) by (simp add: s2_def same_acct_def)
  ultimately show thesis using that [OF F] one(3) p(2) by simp
qed

lemma bm_Calloc_ok:
  assumes inv: "bm_inv s L B"
  obtains h s' L' B' where "bm_Calloc req s = Some (h, s')" "bm_inv s' L' B'" "keeps L (chunks s) (chunks s')" "m_tSize s' = m_tSize s"
    "h = 0 \<Longrightarrow> no_space req s L \<and> owned L' = owned L"
    "h \<noteq> 0 \<Longrightarrow> owned L h = None \<and> (\<exists>k. req \<le> k \<and> owned L' = (owned L)(h \<mapsto> k)) \<and> (\<forall>i < req. chunks s' (h + i) = 0)"
proof -
  obtain h s1 L' B' where m: "bm_Malloc req s = Some (h, s1)" "bm_inv s1 L' B'" "keeps L (chunks s) (chunks s1)" "m_tSize s1 = m_tSize s"
    "h = 0 \<Longrightarrow> no_space req s L \<and> owned L' = owned L"
    "h \<noteq> 0 \<Longrightarrow> owned L h = None \<and> (\<exists>k. req \<le> k \<and> owned L' = (owned L)(h \<mapsto> k))" using bm_Malloc_ok [OF inv, of req] by blast
  show thesis
  proof (cases "h = 0")
    case True
    then show thesis using that [of h s1 L' B'] m by (simp add: bm_Calloc_def)
  next
    case False
    then obtain k where k: "owned L h = None" "req \<le> k" "owned L' = (owned L)(h \<mapsto> k)" using m(6) by blast
    note ok = m(2) [unfolded bm_inv_def, THEN conjunct1]
    have own: "owned L' h = Some k" by (simp add: k(3))
    note b = owned_disjoint [OF ok own own]
    define m' where "m' = memset h 0 req (chunks s1)"
    have C: "bm_Calloc req s = Some (h, s1\<lparr>chunks := m'\<rparr>)" using m(1) False b(2) k(2) by (simp add: bm_Calloc_def m'_def)
    have "bm_ok (s1\<lparr>chunks := m'\<rparr>) L' B'"
    proof (rule user_writes_ok [OF ok])
      fix x assume "m' x \<noteq> chunks s1 x"
      then show "\<exists>h k. owned L' h = Some k \<and> h \<le> x \<and> x < h + k" using own k(2) by (intro exI [of _ h] exI [of _ k]) (auto simp: m'_def memset_def split: if_splits)
    qed
    then have I: "bm_inv (s1\<lparr>chunks := m'\<rparr>) L' B'" using m(2) by (simp add: bm_inv_def)
    have "keeps L (chunks s1) m'" unfolding keeps_def
    proof (intro allI impI)
      fix a n x assume a: "(a, n, True) \<in> set L" "a + 8 \<le> x" "x < a + n + 4"
      have "owned L (a + 8) = Some (n - 4)" using owned_iff [OF bm_okD(1), of s L B] inv a(1) by (auto simp: bm_inv_def)
      moreover from this have "a + 8 \<noteq> h" using k(1) by auto
      ultimately have "owned L' (a + 8) = Some (n - 4)" using k(3) by simp
      then show "m' x = chunks s1 x" using owned_disjoint(3,4) [OF ok own, of "a + 8" "n - 4"] owned_disjoint(4) [OF ok _ own, of "a + 8" "n - 4"] \<open>a + 8 \<noteq> h\<close> a k(2)
        by (auto simp: m'_def memset_def)
    qed
    then have K: "keeps L (chunks s) (chunks (s1\<lparr>chunks := m'\<rparr>))" using keeps_trans [OF m(3)] by simp
    show thesis by (rule that [OF C I K]) (use m(4) False k in \<open>auto simp: m'_def memset_def\<close>)
  qed
qed

text \<open>A fresh memory has no owners.\<close>

lemma bm_Init_ok:
  assumes "8232 \<le> n" "n \<le> MAX_ALLOC_SIZE" "minChunkSize s = 1 \<or> 24 \<le> minChunkSize s"
  obtains s' where "bm_Init n s = Some (0, s')" "bm_inv s' [] (\<lambda>_. [])" "m_tSize s' = n"
proof -
  define m where "m = set_fld Size 8208 1 (set_fld PreSize 8208 0 (chunks s))"
  define s' where "s' = s\<lparr>m_auiSign := init_sign, m_ushVer := DTC_VER_MIN, m_tSize := n, m_tUserAllocChunkCnt := 0, m_uiFlags := 0,
    m_hReserveZone := 4112, m_hBottom := 8208, m_hTop := 8208, m_tUserAllocSize := 8208, statMemoryTop := 8208,
    m_tLastFreeChunkSize := n - 8232, m_auiBinBitMap := (\<lambda>_. 0), m_shmIntegrity := 0,
    bins := (\<lambda>_. \<lparr>m_hPreChunk = INVALID, m_hNextChunk = INVALID\<rparr>), chunks := m, statChunkTotal := 0, statDataSize := 8208\<rparr>"
  have "sint (8208 :: u64) = 8208" using sint_of_nat_small [of 8208] by simp
  then have "bm_Init n s = Some (0, s')"
    using assms(1) by (simp add: bm_Init_def align8_def handle_to_ptr_def put_fld_def s'_def m_def)
  moreover have "binned s' {} (\<lambda>_. [])" by (simp add: binned_def s'_def bin_ends_def lk.ptr_first_def lk.ptr_last_def)
  moreover have "headers m [] 8208" by (simp add: headers_def m_def cs.get_same fits_iff)
  ultimately show thesis using that [of s'] assms by (simp add: bm_inv_def bm_ok_def acct_def used_sum_def s'_def free_blks_def)
qed

text \<open>A chunk that is free already is not freed again.\<close>

lemma free_twice:
  assumes ok: "bm_ok s L B" and p: "(p, n, False) \<in> set L"
  shows "bm_Free (p + 8) s = Some (- 3, s)"
proof -
  obtain xs ys where L: "L = xs @ (p, n, False) # ys" using p by (meson split_list)
  note okD = bm_okD [OF ok [unfolded L]] and sz = ok_size [OF ok [unfolded L]]
  have tl: "tiles (p + n) ys (m_hTop s)" using okD(1) by (simp add: tiles_middle)
  have S: "p \<in> starts L (m_hTop s)" "p + n \<in> starts L (m_hTop s)" using tiles_first [OF tl] by (auto simp: L)
  have h: "fld Size (chunks s) p = n + of_bool (lastu True xs)" "tagged (chunks s) False ys" "lastu False ys" "fld Size (chunks s) (m_hTop s) = 1"
    using okD(2) by (simp_all add: headers_middle)
  have "even (fld Size (chunks s) (p + n))" using tag_behind [OF tl h(2,4)] h(3) by simp
  then show ?thesis using get_fld_reach [OF okD(4)] S h(1) REAL_SIZE_aligned(2) [OF sz(3)] sz
    by (simp add: bm_Free_def inter_free_def mem2chunk_def CHUNK_SIZE_def inuse_bit_at_offset_def L)
qed

end
