(* ===== verification/Bin_Realloc.thy ===== *)
theory Bin_Realloc
  imports Bin_Malloc
begin

text \<open>
  The other operations of the allocator (\<open>cache/pt_malloc.cc\<close>): the size of a chunk, changing the
  size of an allocation in place, by moving it down or by moving it elsewhere, what a release would
  gain, the release of the fast bins, and the checks of the bins and of the memory.
\<close>

section \<open>Sizes\<close>

definition chunk_size :: "nat \<Rightarrow> bin_malloc \<Rightarrow> nat option" where
  "chunk_size hHandle s =
     (if hHandle \<ge> m_hTop s \<or> hHandle \<le> m_hBottom s then Some 0
      else do {
        h \<leftarrow> handle_to_ptr hHandle;
        p \<leftarrow> mem2chunk h;
        bad \<leftarrow> check_inuse_chunk p s;
        if bad \<noteq> 0 then Some 0 else do { sz \<leftarrow> CHUNK_SIZE p s; Some (chunksize2memsize sz) } })"

text \<open>The bytes a release would make available, together with free neighbours and the top.\<close>

definition ask_for_destroy_size :: "nat \<Rightarrow> bin_malloc \<Rightarrow> nat option" where
  "ask_for_destroy_size hHandle s =
     (if hHandle = INVALID \<or> hHandle \<ge> m_tSize s then Some 0
      else do {
        p \<leftarrow> mem2chunk hHandle;
        physic_size \<leftarrow> CHUNK_SIZE p s;
        if p + physic_size > m_tSize s then Some 0
        else do {
          used \<leftarrow> inuse_bit_at_offset p physic_size s;
          if \<not> used then Some 0
          else if misaligned_chunk p then Some 0
          else do {
            bad \<leftarrow> check_inuse_chunk p s;
            if bad \<noteq> 0 then Some 0
            else do {
              pre_used \<leftarrow> prev_inuse p s;
              pre \<leftarrow> get_fld PreSize p s;
              (q, t1) \<leftarrow> (if \<not> pre_used \<and> CAN_COMBILE physic_size pre
                          then do { q \<leftarrow> ptr_minus p pre; Some (q, u32_of (physic_size + pre)) } else Some (p, physic_size));
              t2 \<leftarrow> (if q + t1 \<noteq> m_hTop s then do {
                       n \<leftarrow> handle_to_ptr (q + t1);
                       sz \<leftarrow> CHUNK_SIZE n s;
                       if sz < MINSIZE then Some None
                       else do {
                         used \<leftarrow> inuse_bit_at_offset n sz s;
                         Some (Some (if \<not> used \<and> CAN_COMBILE t1 sz then u32_of (t1 + sz) else t1)) } }
                     else Some (Some t1));
              case t2 of
                None \<Rightarrow> Some 0
              | Some t \<Rightarrow>
                  let free = u32_of (nat ((int (m_tSize s) - int (m_hTop s) - int MINSIZE + int t) mod 2 ^ 64));
                      size = (if q + t = m_hTop s \<and> t < free then free else t)
                  in Some (chunksize2memsize size) } } } })"

section \<open>Changing the size\<close>

text \<open>Copying of bytes, which overlap only where the source uses \<open>memmove\<close>.\<close>

definition copy_bytes :: "nat \<Rightarrow> nat \<Rightarrow> nat \<Rightarrow> bin_malloc \<Rightarrow> bin_malloc option" where
  "copy_bytes d from n s =
     (if d + n \<le> m_tSize s \<and> from + n \<le> m_tSize s
      then Some (s\<lparr>chunks := (\<lambda>x. if d \<le> x \<and> x < d + n then chunks s (from + (x - d)) else chunks s x)\<rparr>) else None)"

definition this_size :: "nat \<Rightarrow> nat" where
  "this_size tRemainderSize =
     (if tRemainderSize > MAX_ALLOC_SIZE
      then if tRemainderSize - MAX_ALLOC_SIZE \<ge> MINSIZE then REAL_SIZE MAX_ALLOC_SIZE else REAL_SIZE (tRemainderSize - MINSIZE)
      else tRemainderSize)"

function split_rest :: "nat \<Rightarrow> nat \<Rightarrow> bin_malloc \<Rightarrow> bin_malloc option" where
  "split_rest r tRemainderSize s = do {
     let tThis = this_size tRemainderSize;
     s1 \<leftarrow> put_fld Size r (REAL_SIZE tThis + 1) s;
     s2 \<leftarrow> put_fld PreSize (r + REAL_SIZE tThis) (REAL_SIZE tThis) s1;
     s3 \<leftarrow> set_inuse_bit_at_offset r (REAL_SIZE tThis) s2;
     s4 \<leftarrow> set_inuse_bit_at_offset r tThis s3;
     (_, _, s5) \<leftarrow> inter_free (ptr_to_handle (chunk2mem r) s4) s4;
     if tRemainderSize - tThis > 0 then split_rest (r + REAL_SIZE tThis) (tRemainderSize - tThis) s5 else Some s5 }"
  by pat_completeness auto
termination
  by (relation "measure (\<lambda>(_, n, _). n)") (auto simp: this_size_def REAL_SIZE_def MAX_ALLOC_SIZE_def split: if_splits)

declare split_rest.simps [simp del]

text \<open>The part of the chunk of \<open>tNewSize\<close> bytes behind the size asked for is released when it is large
  enough, and the header is written last.\<close>

definition re_finish :: "nat \<Rightarrow> nat \<Rightarrow> nat \<Rightarrow> bool \<Rightarrow> nat \<Rightarrow> bin_malloc \<Rightarrow> (nat \<times> bin_malloc) option" where
  "re_finish p tNewSize tSize iPreInUse tPreSize s =
     (if tNewSize < tSize then None
      else do {
        (n, s1) \<leftarrow> (if tNewSize - tSize \<ge> get_min_chunk_size s
                    then do { s' \<leftarrow> split_rest (p + tSize) (tNewSize - tSize) s; Some (tSize, s') }
                    else do { s' \<leftarrow> set_inuse_bit_at_offset p (REAL_SIZE tNewSize) s; Some (tNewSize, s') });
        s2 \<leftarrow> put_fld Size p (REAL_SIZE n) s1;
        s3 \<leftarrow> (if iPreInUse then set_inuse_bit_at_offset p 0 s2 else Some s2);
        s4 \<leftarrow> put_fld PreSize p tPreSize s3;
        Some (ptr_to_handle (chunk2mem p) s4, s4) })"

text \<open>The four ways to a larger chunk: into the top, over the free chunk behind, over the free chunk
  before, or elsewhere.\<close>

definition grow_top :: "nat \<Rightarrow> nat \<Rightarrow> nat \<Rightarrow> bin_malloc \<Rightarrow> (nat \<times> bin_malloc) option" where
  "grow_top p tOldSize tSize s = do {
     v \<leftarrow> get_fld Size p s;
     s1 \<leftarrow> put_fld Size p (REAL_SIZE tSize + v mod 8) s;
     n \<leftarrow> handle_to_ptr (m_hTop s1 + (tSize - tOldSize));
     s2 \<leftarrow> put_fld PreSize n (REAL_SIZE tSize) s1;
     s3 \<leftarrow> put_fld Size n 1 s2;
     let top = m_hTop s3 + (tSize - tOldSize);
     let s4 = s3\<lparr>m_hTop := top, statMemoryTop := int top\<rparr>;
     Some (ptr_to_handle (chunk2mem p) s4, s4) }"

definition grow_next :: "nat \<Rightarrow> nat \<Rightarrow> nat \<Rightarrow> nat \<Rightarrow> bool \<Rightarrow> nat \<Rightarrow> bin_malloc \<Rightarrow> (nat \<times> bin_malloc) option" where
  "grow_next p tOldSize tNextSize tSize iPreInUse tPreSize s = do {
     (_, s1) \<leftarrow> unlink_bin (Bin (bin_index tNextSize)) (ptr_to_handle (p + tOldSize) s) s;
     re_finish p (tOldSize + tNextSize) tSize iPreInUse tPreSize s1 }"

definition grow_prev :: "nat \<Rightarrow> nat \<Rightarrow> nat \<Rightarrow> nat \<Rightarrow> bin_malloc \<Rightarrow> (nat \<times> bin_malloc) option" where
  "grow_prev p tOldSize tPreSize tSize s = do {
     q \<leftarrow> ptr_minus p tPreSize;
     iPreInUse \<leftarrow> prev_inuse q s;
     pre \<leftarrow> get_fld PreSize q s;
     (_, s1) \<leftarrow> unlink_bin (Bin (bin_index tPreSize)) q s;
     s2 \<leftarrow> copy_bytes (chunk2mem q) (chunk2mem p) (chunksize2memsize tOldSize) s1;
     re_finish q (tOldSize + tPreSize) tSize iPreInUse pre s2 }"

definition grow_elsewhere :: "nat \<Rightarrow> nat \<Rightarrow> nat \<Rightarrow> bin_malloc \<Rightarrow> (nat \<times> bin_malloc) option" where
  "grow_elsewhere p tOldSize req s = do {
     (hNew, s1) \<leftarrow> inter_malloc req s;
     if hNew = INVALID then Some (INVALID, s1)
     else do {
       n \<leftarrow> mem2chunk hNew;
       s2 \<leftarrow> copy_bytes (chunk2mem n) (chunk2mem p) (chunksize2memsize tOldSize) s1;
       (_, _, s3) \<leftarrow> inter_free (p + 2 * 4) s2;
       Some (ptr_to_handle n s1 + 2 * 4, s3) } }"

definition resize :: "nat \<Rightarrow> nat \<Rightarrow> nat \<Rightarrow> nat \<Rightarrow> bin_malloc \<Rightarrow> (nat \<times> bin_malloc) option" where
  "resize p tOldSize tSize req s = do {
     iPreInUse \<leftarrow> prev_inuse p s;
     tPreSize \<leftarrow> get_fld PreSize p s;
     if tOldSize \<ge> tSize then re_finish p tOldSize tSize iPreInUse tPreSize s
     else if AT_TOP p tOldSize s \<and> m_hTop s + (tSize - tOldSize) + MINSIZE < m_tSize s then grow_top p tOldSize tSize s
     else do {
       next \<leftarrow> (if AT_TOP p tOldSize s then Some None
               else do {
                 sz \<leftarrow> CHUNK_SIZE (p + tOldSize) s;
                 used \<leftarrow> inuse_bit_at_offset (p + tOldSize) sz s;
                 Some (if \<not> used \<and> tOldSize + sz \<ge> tSize then Some sz else None) });
       case next of
         Some sz \<Rightarrow> grow_next p tOldSize sz tSize iPreInUse tPreSize s
       | None \<Rightarrow>
           if \<not> iPreInUse \<and> u32_of (tOldSize + tPreSize) \<ge> tSize then grow_prev p tOldSize tPreSize tSize s
           else grow_elsewhere p tOldSize req s } }"

text \<open>The result is the new handle and the size of the old chunk.\<close>

definition inter_re_alloc :: "nat \<Rightarrow> nat \<Rightarrow> bin_malloc \<Rightarrow> (nat \<times> nat \<times> bin_malloc) option" where
  "inter_re_alloc hHandle req s =
     (if hHandle = INVALID then do { (h, s1) \<leftarrow> inter_malloc req s; Some (h, 0, s1) }
      else if req = 0 then do { (_, tOldMemSize, s1) \<leftarrow> inter_free hHandle s; Some (INVALID, tOldMemSize, s1) }
      else if REQUEST_OUT_OF_RANGE req then Some (INVALID, 0, s)
      else if hHandle \<ge> m_hTop s \<or> hHandle \<le> m_hBottom s then Some (INVALID, 0, s)
      else do {
        p \<leftarrow> mem2chunk hHandle;
        tOldSize \<leftarrow> CHUNK_SIZE p s;
        if p + tOldSize > m_hTop s \<or> misaligned_chunk p \<or> tOldSize < MINSIZE then Some (INVALID, 0, s)
        else do {
          bad \<leftarrow> check_inuse_chunk p s;
          if bad \<noteq> 0 then Some (INVALID, 0, s)
          else do { (h, s1) \<leftarrow> resize p tOldSize (request2size req) req s; Some (h, tOldSize, s1) } } })"

definition bm_ReAlloc :: "nat \<Rightarrow> nat \<Rightarrow> bin_malloc \<Rightarrow> (nat \<times> bin_malloc) option" where
  "bm_ReAlloc hHandle tSize s = do {
     (hNewHandle, tOldSize, s1) \<leftarrow> inter_re_alloc hHandle tSize (s\<lparr>m_tLastFreeChunkSize := 0\<rparr>);
     if hNewHandle \<noteq> INVALID then do {
       p \<leftarrow> mem2chunk hNewHandle;
       sz \<leftarrow> CHUNK_SIZE p s1;
       let s2 = s1\<lparr>m_tUserAllocSize := m_tUserAllocSize s1 + word_of_nat sz - word_of_nat tOldSize\<rparr>;
       let s3 = (if hHandle = INVALID
                 then s2\<lparr>m_tUserAllocChunkCnt := m_tUserAllocChunkCnt s2 + 1, statChunkTotal := statChunkTotal s2 + 1\<rparr> else s2);
       let s4 = add_alloc_size_to_stat tSize s3;
       Some (hNewHandle, s4\<lparr>statDataSize := sint (m_tUserAllocSize s4)\<rparr>) }
     else if tSize = 0 then
       let s2 = s1\<lparr>m_tUserAllocSize := m_tUserAllocSize s1 - word_of_nat tOldSize,
                   m_tUserAllocChunkCnt := m_tUserAllocChunkCnt s1 - 1, statChunkTotal := statChunkTotal s1 - 1\<rparr>
       in Some (hNewHandle, s2\<lparr>statDataSize := sint (m_tUserAllocSize s2)\<rparr>)
     else Some (hNewHandle, s1) }"

section \<open>Fast bins\<close>

text \<open>One turn of the loop: the first chunk of a fast bin is joined with its free neighbours and put
  into the unsorted bin or given to the top.\<close>

definition free_fast_first :: "nat \<Rightarrow> bin_malloc \<Rightarrow> bin_malloc option" where
  "free_fast_first i s = do {
     p \<leftarrow> handle_to_ptr (m_hNextChunk (bins s (FastBin i)));
     (_, s1) \<leftarrow> unlink_bin (FastBin i) (m_hNextChunk (bins s (FastBin i))) s;
     tSize \<leftarrow> CHUNK_SIZE p s1;
     pre_used \<leftarrow> prev_inuse p s1;
     pre \<leftarrow> get_fld PreSize p s1;
     (q, t1, s2) \<leftarrow> (if \<not> pre_used \<and> CAN_COMBILE tSize pre then do {
                       let t = u32_of (tSize + pre);
                       q \<leftarrow> ptr_minus p pre;
                       (_, s') \<leftarrow> unlink_bin (Bin (bin_index pre)) (ptr_to_handle q s1) s1;
                       s'' \<leftarrow> set_inuse_bit_at_offset q t (clear_if_empty (bin_index pre) s');
                       Some (q, t, s'') }
                     else Some (p, tSize, s1));
     (t2, s3) \<leftarrow> (if AT_TOP q t1 s2 then Some (t1, s2)
                  else do {
                    let n = q + t1;
                    tNextSize \<leftarrow> CHUNK_SIZE n s2;
                    used \<leftarrow> inuse_bit_at_offset n tNextSize s2;
                    if \<not> used \<and> CAN_COMBILE t1 tNextSize then do {
                      let t = u32_of (t1 + tNextSize);
                      (_, s') \<leftarrow> unlink_bin (Bin (bin_index tNextSize)) (ptr_to_handle n s2) s2;
                      s'' \<leftarrow> set_inuse_bit_at_offset q t (clear_if_empty (bin_index tNextSize) s');
                      Some (t, s'') }
                    else Some (t1, s2) });
     let s4 = (if m_tLastFreeChunkSize s3 < REAL_SIZE t2 then s3\<lparr>m_tLastFreeChunkSize := REAL_SIZE t2\<rparr> else s3);
     s5 \<leftarrow> set_size_at_offset q 0 t2 s4;
     s6 \<leftarrow> (if AT_TOP q t2 s5 then Some (s5\<lparr>m_hTop := m_hTop s5 - t2, statMemoryTop := int (m_hTop s5 - t2)\<rparr>)
            else map_option snd (link_bin UnsortedBin (ptr_to_handle q s5) s5));
     put_fld PreSize (q + REAL_SIZE t2) (REAL_SIZE t2) s6 }"

partial_function (option) free_fast_bin :: "nat \<Rightarrow> bin_malloc \<Rightarrow> bin_malloc option" where
  "free_fast_bin i s = do {
     s1 \<leftarrow> free_fast_first i s;
     if m_hNextChunk (bins s1 (FastBin i)) \<noteq> INVALID then free_fast_bin i s1 else Some s1 }"

fun free_fast_bins :: "nat list \<Rightarrow> bin_malloc \<Rightarrow> bin_malloc option" where
  "free_fast_bins [] s = Some s"
| "free_fast_bins (i # is) s = do {
     s1 \<leftarrow> (if m_hNextChunk (bins s (FastBin i)) \<noteq> INVALID then free_fast_bin i s else Some s);
     free_fast_bins is s1 }"

definition free_fast :: "bin_malloc \<Rightarrow> (int \<times> bin_malloc) option" where
  "free_fast s =
     (if \<not> bit (m_uiFlags s) 0 then Some (0, s)
      else do {
        s1 \<leftarrow> free_fast_bins [0..<NFASTBINS] s;
        Some (0, s1\<lparr>m_uiFlags := m_uiFlags s1 AND NOT 1\<rparr>) })"

definition last_free_size :: "bin_malloc \<Rightarrow> (nat \<times> bin_malloc) option" where
  "last_free_size s = do { (_, s1) \<leftarrow> free_fast s; Some (chunksize2memsize (m_tLastFreeChunkSize s1), s1) }"

section \<open>Lists in order of size, and the check of the bins\<close>

partial_function (option) find_larger :: "nat \<Rightarrow> nat \<Rightarrow> bin_malloc \<Rightarrow> nat option" where
  "find_larger tSize hPre s =
     (if hPre = INVALID then Some INVALID
      else do {
        v \<leftarrow> get_fld Size hPre s;
        if tSize \<le> v then Some hPre else do { pre \<leftarrow> get_fld PreChunk hPre s; find_larger tSize pre s } })"

definition link_sorted_bin :: "bin_ref \<Rightarrow> nat \<Rightarrow> nat \<Rightarrow> bin_malloc \<Rightarrow> (int \<times> bin_malloc) option" where
  "link_sorted_bin b hHandle tSize s =
     (if hHandle = INVALID then Some (- 1, s)
      else do {
        s1 \<leftarrow> put_fld NextChunk hHandle INVALID s;
        s2 \<leftarrow> put_fld PreChunk hHandle INVALID s1;
        if m_hNextChunk (bins s2 b) = INVALID then Some (0, set_last b hHandle (set_first b hHandle s2))
        else do {
          hPre \<leftarrow> find_larger (REAL_SIZE tSize + 1) (m_hPreChunk (bins s2 b)) s2;
          if hPre = INVALID then
            if m_hPreChunk (bins s2 b) = INVALID then Some (- 1, s2)
            else do { (_, s3) \<leftarrow> link_bin b hHandle s2; Some (0, s3) }
          else do {
            s3 \<leftarrow> put_fld PreChunk hHandle hPre s2;
            next \<leftarrow> get_fld NextChunk hPre s3;
            s4 \<leftarrow> put_fld NextChunk hHandle next s3;
            s5 \<leftarrow> put_fld NextChunk hPre hHandle s4;
            next \<leftarrow> get_fld NextChunk hHandle s5;
            if next \<noteq> INVALID then do { s6 \<leftarrow> put_fld PreChunk next (ptr_to_handle hHandle s5) s5; Some (0, s6) }
            else Some (0, set_last b hHandle s5) } } })"

partial_function (option) list_end :: "nat \<Rightarrow> bin_malloc \<Rightarrow> nat option" where
  "list_end hHandle s = do {
     p \<leftarrow> handle_to_ptr hHandle;
     next \<leftarrow> get_fld NextChunk p s;
     if next \<noteq> INVALID then list_end next s else Some hHandle }"

definition bin_closed :: "bin_ref \<Rightarrow> bin_malloc \<Rightarrow> bool option" where
  "bin_closed b s = do {
     h \<leftarrow> (if m_hNextChunk (bins s b) \<noteq> INVALID then list_end (m_hNextChunk (bins s b)) s else Some INVALID);
     Some (m_hPreChunk (bins s b) = h) }"

fun all_closed :: "bin_ref list \<Rightarrow> bin_malloc \<Rightarrow> bool option" where
  "all_closed [] s = Some True"
| "all_closed (b # bs) s = do { ok \<leftarrow> bin_closed b s; if ok then all_closed bs s else Some False }"

definition check_bin :: "bin_malloc \<Rightarrow> int option" where
  "check_bin s = do {
     ok \<leftarrow> all_closed (map Bin [0..<NBINS]) s;
     if \<not> ok then Some (- 1)
     else do {
       ok \<leftarrow> all_closed (map FastBin [0..<NFASTBINS]) s;
       if \<not> ok then Some (- 2)
       else do { ok \<leftarrow> bin_closed UnsortedBin s; Some (if ok then 0 else - 3) } } }"

end
