(* ===== verification/Bin_Resize.thy ===== *)
theory Bin_Resize
  imports Bin_Heap Bin_Realloc
begin

text \<open>
  Changing the size of an allocation keeps the layout and the bytes of the user. The header of the
  changed chunk is written last, after the release of the part that is not needed; the release does
  not look at this header, so that it may as well have been written first.
\<close>

section \<open>Writing a header later\<close>

lemma st_inside: "a \<le> x \<Longrightarrow> x < a + n \<Longrightarrow> st n a v m x = st n a v m' x"
proof (induction n arbitrary: a v m m')
  case (Suc n)
  show ?case
  proof (cases "x = a")
    case False
    then have "Suc a \<le> x" "x < Suc a + n" using Suc.prems by auto
    then have "st n (Suc a) (v div 256) (m(a := word_of_nat v)) x = st n (Suc a) (v div 256) (m'(a := word_of_nat v)) x" by (rule Suc.IH)
    then show ?thesis by simp
  qed (simp add: st_outside)
qed simp

lemma st_swap: "a + n \<le> b \<or> b + k \<le> a \<Longrightarrow> st n a v (st k b w m) = st k b w (st n a v m)"
proof
  fix x assume a: "a + n \<le> b \<or> b + k \<le> a"
  show "st n a v (st k b w m) x = st k b w (st n a v m) x"
  proof (cases "a \<le> x \<and> x < a + n")
    case True
    then have "st n a v (st k b w m) x = st n a v m x" "x < b \<or> b + k \<le> x" using a st_inside [of a x n] by auto
    then show ?thesis by (simp add: st_outside)
  next
    case False
    then have o: "x < a \<or> a + n \<le> x" by auto
    show ?thesis
    proof (cases "b \<le> x \<and> x < b + k")
      case True
      then show ?thesis using o st_inside [of b x k w "st n a v m" m] by (simp add: st_outside)
    qed (use o in \<open>auto simp: st_outside\<close>)
  qed
qed

lemma set_fld_swap: "chunks_apart a b \<Longrightarrow> set_fld f a v (set_fld g b w m) = set_fld g b w (set_fld f a v m)"
  unfolding set_fld_def chunks_apart_def by (intro st_swap) (cases f; cases g; auto)

definition head_mem :: "nat \<Rightarrow> nat \<Rightarrow> nat \<Rightarrow> memory \<Rightarrow> memory" where
  "head_mem p v w m = set_fld PreSize p w (set_fld Size p v m)"

definition with_head :: "nat \<Rightarrow> nat \<Rightarrow> nat \<Rightarrow> bin_malloc \<Rightarrow> bin_malloc" where
  "with_head p v w s = s\<lparr>chunks := head_mem p v w (chunks s)\<rparr>"

lemma with_head_simps [simp]:
  "chunks (with_head p v w s) = head_mem p v w (chunks s)" "bins (with_head p v w s) = bins s" "m_hTop (with_head p v w s) = m_hTop s"
  "m_tSize (with_head p v w s) = m_tSize s" "m_hBottom (with_head p v w s) = m_hBottom s" "m_auiBinBitMap (with_head p v w s) = m_auiBinBitMap s"
  "m_tLastFreeChunkSize (with_head p v w s) = m_tLastFreeChunkSize s" "get_min_chunk_size (with_head p v w s) = get_min_chunk_size s"
  by (simp_all add: with_head_def get_min_chunk_size_def)

lemma head_mem_get: "chunks_apart p a \<Longrightarrow> fld f (head_mem p v w m) a = fld f m a"
  by (simp add: head_mem_def cs.get_apart)

lemma head_mem_put: "chunks_apart a p \<Longrightarrow> set_fld f a x (head_mem p v w m) = head_mem p v w (set_fld f a x m)"
  by (simp add: head_mem_def set_fld_swap)

lemma reach_head [simp]: "reach (with_head p v w s) S = reach s S"
  by (simp add: reach_def)

text \<open>Operations on other headers.\<close>

lemma reach_apart: "reach s S \<Longrightarrow> p \<in> S \<Longrightarrow> a \<in> S \<Longrightarrow> a \<noteq> p \<Longrightarrow> chunks_apart p a \<and> chunks_apart a p"
  using cs.spacedD [of S p a] by (auto simp: reach_def chunks_apart_def)

lemma get_fld_head:
  assumes "reach s S" "p \<in> S" "a \<in> S" "a \<noteq> p"
  shows "get_fld f a (with_head p v w s) = get_fld f a s"
  using reach_apart [OF assms] by (simp add: get_fld_def head_mem_get)

lemma put_fld_head:
  assumes "reach s S" "p \<in> S" "a \<in> S" "a \<noteq> p"
  shows "put_fld f a x (with_head p v w s) = map_option (with_head p v w) (put_fld f a x s)"
  using reach_apart [OF assms] by (simp add: put_fld_def head_mem_put with_head_def)

lemma unlink_bin_head:
  assumes re: "reach s S" "p \<in> S" and xs: "set (as @ h # bs) \<subseteq> S - {p}" "distinct (as @ h # bs)" "lk.dll (chunks s) (as @ h # bs)"
    and ends: "bins s b = bin_ends (as @ h # bs)"
  shows "unlink_bin b h (with_head p v w s) = map_option (map_prod id (with_head p v w)) (unlink_bin b h s)"
proof -
  have ap: "chunks_apart a p" "chunks_apart p a" if "a \<in> set (as @ h # bs)" for a using reach_apart [OF re] xs(1) that by auto
  have "lk.dll (head_mem p v w (chunks s)) (as @ h # bs)"
    by (rule lk.dll_cong [OF xs(3)]) (use ap head_mem_get in auto)
  then have "unlink_bin b h (with_head p v w s) =
      Some (0, (with_head p v w s)\<lparr>chunks := lk.unlinked as bs (head_mem p v w (chunks s)), bins := (bins s)(b := bin_ends (as @ bs))\<rparr>)"
    using unlink_bin_eq [of "with_head p v w s" S as h bs b] re xs ends by auto
  moreover have "lk.unlinked as bs (head_mem p v w m) = head_mem p v w (lk.unlinked as bs m)" for m
    using ap by (simp add: lk.unlinked_def Let_def head_mem_put)
  moreover have "unlink_bin b h s = Some (0, s\<lparr>chunks := lk.unlinked as bs (chunks s), bins := (bins s)(b := bin_ends (as @ bs))\<rparr>)"
    by (rule unlink_bin_eq [OF re(1) _ xs(2,3) ends]) (use xs(1) in auto)
  ultimately show ?thesis by (simp add: with_head_def)
qed

lemma link_bin_head:
  assumes re: "reach s S" "p \<in> S" and xs: "insert h (set xs) \<subseteq> S - {p}" and ends: "bins s b = bin_ends xs"
  shows "link_bin b h (with_head p v w s) = map_option (map_prod id (with_head p v w)) (link_bin b h s)"
proof -
  have ap: "chunks_apart a p" if "a \<in> insert h (set xs)" for a using reach_apart [OF re] xs(1) that by auto
  have "insert h (set xs) \<subseteq> S" using xs by auto
  note l = link_bin_eq [OF _ this, of _ b]
  have "lk.pushed h xs (head_mem p v w m) = head_mem p v w (lk.pushed h xs m)" for m
    using ap by (simp add: lk.pushed_def Let_def head_mem_put)
  then show ?thesis using l [of s] l [of "with_head p v w s", unfolded reach_head] re ends by (simp add: with_head_def)
qed

text \<open>Steps on other headers commute with the write of this header.\<close>

definition later :: "nat \<Rightarrow> nat set \<Rightarrow> (bin_malloc \<Rightarrow> bin_malloc option) \<Rightarrow> bool" where
  "later p S f \<longleftrightarrow> (\<forall>s v w. reach s S \<longrightarrow> f (with_head p v w s) = map_option (with_head p v w) (f s) \<and> (\<forall>s'. f s = Some s' \<longrightarrow> reach s' S))"

lemma laterD: "later p S f \<Longrightarrow> reach s S \<Longrightarrow> f (with_head p v w s) = map_option (with_head p v w) (f s)"
  by (simp add: later_def)

lemma later_reach: "later p S f \<Longrightarrow> reach s S \<Longrightarrow> f s = Some s' \<Longrightarrow> reach s' S"
  by (auto simp: later_def)

lemma later_put: "p \<in> S \<Longrightarrow> a \<in> S - {p} \<Longrightarrow> later p S (put_fld f a x)"
  unfolding later_def by (intro allI impI conjI put_fld_head) (auto simp: put_fld_def reach_def split: if_splits)

lemma later_get: "p \<in> S \<Longrightarrow> a \<in> S - {p} \<Longrightarrow> (\<And>v. later p S (k v)) \<Longrightarrow> later p S (\<lambda>s. do { v \<leftarrow> get_fld f a s; k v s })"
  unfolding later_def by (auto simp: get_fld_head split: Option.bind_splits)

lemma later_bind: "later p S f \<Longrightarrow> later p S g \<Longrightarrow> later p S (\<lambda>s. do { s1 \<leftarrow> f s; g s1 })"
proof -
  assume f: "later p S f" and g: "later p S g"
  have "f (with_head p v w s) \<bind> g = map_option (with_head p v w) (f s \<bind> g) \<and> (\<forall>s'. f s \<bind> g = Some s' \<longrightarrow> reach s' S)" if s: "reach s S" for s v w
  proof (cases "f s")
    case (Some s1)
    then have r: "reach s1 S" by (rule later_reach [OF f s])
    then show ?thesis using laterD [OF f s] laterD [OF g r] later_reach [OF g r] Some by simp
  qed (simp add: laterD [OF f s])
  then show ?thesis unfolding later_def by blast
qed

lemma later_flags:
  assumes "p \<in> S" "a + off \<in> S - {p}"
  shows "later p S (set_inuse_bit_at_offset a off)" "later p S (clear_inuse_bit_at_offset a off)" "later p S (set_size_at_offset a off T)"
    "later p S (set_presize_at_offset a off T)"
  unfolding set_inuse_bit_at_offset_def clear_inuse_bit_at_offset_def set_size_at_offset_def set_presize_at_offset_def
  by (intro later_get later_put assms)+

lemma later_mark: "p \<in> S \<Longrightarrow> a \<in> S - {p} \<Longrightarrow> a + T \<in> S - {p} \<Longrightarrow> later p S (mark a T)"
  unfolding mark_def by (intro later_bind later_flags) simp_all

lemma read_head:
  assumes "reach s S" "p \<in> S" "a + off \<in> S - {p}"
  shows "CHUNK_SIZE (a + off) (with_head p v w s) = CHUNK_SIZE (a + off) s" "prev_inuse (a + off) (with_head p v w s) = prev_inuse (a + off) s"
    "inuse_bit_at_offset a off (with_head p v w s) = inuse_bit_at_offset a off s"
  using assms by (simp_all add: CHUNK_SIZE_def prev_inuse_def inuse_bit_at_offset_def get_fld_head)

lemma clear_if_empty_head: "clear_if_empty i (with_head p v w s) = with_head p v w (clear_if_empty i s)"
  by (simp add: clear_if_empty_def empty_bin_def clear_bin_bit_map_def with_head_def)

lemma clear_if_empty_same [simp]: "m_tSize (clear_if_empty i s) = m_tSize s" "chunks (clear_if_empty i s) = chunks s"
  by (simp_all add: clear_if_empty_def clear_bin_bit_map_def)

text \<open>The release of the chunk behind.\<close>

lemma bins_behind:
  assumes ok: "bm_ok (with_head p v w s) (xs @ (p, t, True) # ys) B" and i: "i < NBINS"
  shows "set (B i) \<subseteq> starts (xs @ (p, t, True) # ys) (m_hTop s) - {p}" "distinct (B i)" "bins s (Bin i) = bin_ends (B i)"
    "lk.dll (chunks s) (B i)"
proof -
  let ?L = "xs @ (p, t, True) # ys"
  note okD = bm_okD [OF ok] and b = binnedD [OF bm_okD(3) [OF ok] i]
  have "p \<notin> fst ` free_blks ?L" using tiles_once [OF okD(1)] fst_free_blks [of xs] fst_free_blks [of ys] by auto
  moreover have "set (B i) \<subseteq> fst ` free_blks ?L" unfolding b(2) by force
  ultimately show s: "set (B i) \<subseteq> starts ?L (m_hTop s) - {p}" using okD(5) unfolding with_head_simps by blast
  show "distinct (B i)" "bins s (Bin i) = bin_ends (B i)" using b by simp_all
  have re: "reach s (starts ?L (m_hTop s))" "p \<in> starts ?L (m_hTop s)" using okD(4) by simp_all
  have "chunks_apart p a" if "a \<in> set (B i)" for a using reach_apart [OF re] s that by blast
  then show "lk.dll (chunks s) (B i)" by (intro lk.dll_cong [OF b(3)]) (simp add: head_mem_get)
qed

lemma settle_head:
  assumes ok: "bm_ok (with_head p v w s) (xs @ (p, t, True) # (r, n, True) # ys) B"
  shows "settle r n (with_head p v w s) = map_option (with_head p v w) (settle r n s)"
proof -
  let ?L = "xs @ (p, t, True) # (r, n, True) # ys"
  let ?S = "starts ?L (m_hTop s)" and ?W = "with_head p v w"
  note okD = bm_okD [OF ok]
  have r: "r = p + t" "24 \<le> t" "24 \<le> n" "tiles (r + n) ys (m_hTop s)" using okD(1) by (auto simp: tiles_middle)
  have S: "p \<in> ?S" "r \<in> ?S - {p}" "r + n \<in> ?S - {p}" using r tiles_first [OF r(4)] by auto
  define s4 where "s4 = (if m_tLastFreeChunkSize s < n then s\<lparr>m_tLastFreeChunkSize := n\<rparr> else s)"
  have w4: "(if m_tLastFreeChunkSize (?W s) < n then (?W s)\<lparr>m_tLastFreeChunkSize := n\<rparr> else ?W s) = ?W s4" by (simp add: s4_def with_head_def)
  have c4: "m_hTop s4 = m_hTop s" "bins s4 = bins s" "m_tSize s4 = m_tSize s" "chunks s4 = chunks s" by (simp_all add: s4_def)
  have re: "reach s4 ?S" using okD(4) c4 by (simp add: reach_def)
  show ?thesis
  proof (cases "r + n = m_hTop s")
    case True
    let ?u = "\<lambda>s. s\<lparr>m_hTop := m_hTop s4 - n, statMemoryTop := int (m_hTop s4 - n)\<rparr>"
    have "reach (?u s4) ?S" using re by (simp add: reach_def)
    note laterD [OF later_put [OF S(1,2), of Size 1] this, of v w]
    moreover have "?u (?W s4) = ?W (?u s4)" by (simp add: with_head_def)
    ultimately have "put_fld Size r 1 (?u (?W s4)) = map_option ?W (put_fld Size r 1 (?u s4))" by simp
    then show ?thesis using True c4 unfolding settle_def w4 s4_def [symmetric] Let_def
      by (cases "put_fld Size r 1 (?u s4)") (auto simp: with_head_def)
  next
    case False
    have c: "clear_inuse_bit_at_offset r n (?W s4) = map_option ?W (clear_inuse_bit_at_offset r n s4)"
      by (rule laterD [OF later_flags(2) [OF S(1,3)] re])
    have l: "link_bin (Bin (bin_index n)) (ptr_to_handle r (?W s5)) (?W s5) = map_option (map_prod id ?W) (link_bin (Bin (bin_index n)) (ptr_to_handle r s5) s5)"
      if "clear_inuse_bit_at_offset r n s4 = Some s5" for s5
    proof -
      have b: "bins s5 = bins s" "m_tSize s5 = m_tSize s" "reach s5 ?S" using that c4 later_reach [OF later_flags(2) [OF S(1,3)] re that]
        by (auto simp: clear_inuse_bit_at_offset_def put_fld_def bind_eq_Some_conv split: if_splits)
      have h: "ptr_to_handle r s5 = r" using starts_less [OF okD(1), of r] S(2) okD(7) b(2) by (simp add: ptr_to_handle_def)
      note bb = bins_behind [OF ok bin_index_less]
      show ?thesis using link_bin_head [OF b(3) S(1), of r "B (bin_index n)" "Bin (bin_index n)"] bb(1,3) b(1) S(2) h by (simp add: ptr_to_handle_def)
    qed
    have sb: "set_bin_bit_map i (?W s') = ?W (set_bin_bit_map i s')" for i s' by (simp add: set_bin_bit_map_def with_head_def)
    show ?thesis using False c4 c l unfolding settle_def w4 s4_def [symmetric] Let_def
      by (auto simp: sb split: Option.bind_split)
  qed
qed

lemma merge_next_head:
  assumes ok: "bm_ok (with_head p v w s) (xs @ (p, t, True) # (r, n, True) # ys) B"
  shows "merge_next r n (with_head p v w s) = map_option (map_prod id (map_prod id (with_head p v w))) (merge_next r n s)"
    "merge_next r n s = Some (0, T, s') \<Longrightarrow> reach s' (starts (xs @ (p, t, True) # (r, n, True) # ys) (m_hTop s))"
    "merge_next r n s = Some (0, T, s') \<Longrightarrow> m_hTop s' = m_hTop s"
proof -
  let ?L = "xs @ (p, t, True) # (r, n, True) # ys"
  let ?S = "starts ?L (m_hTop s)" and ?W = "with_head p v w"
  note okD = bm_okD [OF ok]
  have r: "r = p + t" "24 \<le> t" "24 \<le> n" "tiles (r + n) ys (m_hTop s)" "8 dvd n" using okD(1) by (auto simp: tiles_middle)
  have S: "p \<in> ?S" "r \<in> ?S - {p}" "r + n \<in> ?S - {p}" using r tiles_first [OF r(4)] by auto
  have re: "reach s ?S" using okD(4) by simp
  have "merge_next r n (?W s) = map_option (map_prod id (map_prod id ?W)) (merge_next r n s) \<and>
    (merge_next r n s = Some (0, T, s') \<longrightarrow> reach s' ?S \<and> m_hTop s' = m_hTop s)"
  proof (cases ys)
    case Nil
    then show ?thesis using r(4) re by (auto simp: merge_next_def)
  next
    case (Cons b zs)
    obtain k u where b: "ys = (r + n, k, u) # zs" using Cons r(4) by (cases b) auto
    have e: "24 \<le> k" "8 dvd k" "tiles (r + n + k) zs (m_hTop s)" using r(4) b by auto
    have eS: "r + n + k \<in> ?S - {p}" "r + n \<noteq> m_hTop s" using tiles_first [OF e(3)] tiles_le [OF e(3)] b r e(1) by auto
    have ok': "bm_ok (?W s) ((xs @ [(p, t, True), (r, n, True)]) @ (r + n, k, u) # zs) B" using ok b by simp
    have "fld Size (chunks (?W s)) (r + n) = k + 1" using bm_okD(2) [OF ok'] by (simp add: headers_middle)
    then have "get_fld Size (r + n) s = Some (k + 1)"
      using get_fld_head [OF re S(1), of "r + n" Size v w] S(3) get_fld_reach [OF okD(4), of "r + n" Size] by simp
    then have sz: "CHUNK_SIZE (r + n) s = Some k" using REAL_SIZE_aligned(3) [OF e(2)] by (simp add: CHUNK_SIZE_def)
    note rd = read_head [OF re S(1), of r n] read_head [OF re S(1), of "r + n" k]
    have sz': "CHUNK_SIZE (r + n) (?W s) = Some k" using rd(1) S(3) sz by simp
    have used: "inuse_bit_at_offset (r + n) k (?W s) = inuse_bit_at_offset (r + n) k s" using rd(6) eS(1) by simp
    have h: "ptr_to_handle (r + n) s = r + n" "ptr_to_handle (r + n) (?W s) = r + n"
      using starts_less [OF okD(1), of "r + n"] S(3) okD(7) by (simp_all add: ptr_to_handle_def)
    have T: "u32_of (n + k) = n + k" "CAN_COMBILE n k" using r e tiles_le [OF e(3)] okD(7,8) by (simp_all add: u32_of_def CAN_COMBILE_def MAX_ALLOC_SIZE_def)
    define g where "g = (\<lambda>s2. do { s3 \<leftarrow> set_size_at_offset r 0 (n + k) s2; set_presize_at_offset r (n + k) (n + k) s3 })"
    have f: "later p ?S g" unfolding g_def
      by (intro later_bind later_flags) (use S eS in \<open>simp_all add: add.assoc\<close>)
    have "inuse_bit_at_offset (r + n) k (?W s) = Some u"
    proof -
      have "odd (fld Size (chunks (?W s)) (r + n + k)) = u" using tag_behind [OF e(3), of "chunks (?W s)" u] bm_okD(2) [OF ok'] by (simp add: headers_middle)
      then show ?thesis using get_fld_reach [OF okD(4), of "r + n + k" Size] eS(1) by (simp add: inuse_bit_at_offset_def)
    qed
    note used = this this [unfolded used]
    show ?thesis
    proof (cases u)
      case True
      then show ?thesis using sz sz' used re e(1) eS(2) r(3) by (auto simp: merge_next_def handle_to_ptr_def)
    next
      case False
      have kF: "(r + n, k) \<in> free_blks ?L" using b False by simp
      have "r + n \<in> set (B (bin_index k))" unfolding binnedD(2) [OF okD(3) bin_index_less] using kF by blast
      then obtain as bs where B: "B (bin_index k) = as @ (r + n) # bs" by (meson split_list)
      note bb = bins_behind [OF ok bin_index_less, of k, unfolded B]
      have U: "unlink_bin (Bin (bin_index k)) (r + n) (?W s) = map_option (map_prod id ?W) (unlink_bin (Bin (bin_index k)) (r + n) s)"
        by (rule unlink_bin_head [OF re S(1) bb(1,2,4,3)])
      have U': "unlink_bin (Bin (bin_index k)) (r + n) s = Some (0, s\<lparr>chunks := lk.unlinked as bs (chunks s), bins := (bins s)(Bin (bin_index k) := bin_ends (as @ bs))\<rparr>)"
        by (rule unlink_bin_eq [OF re _ bb(2,4,3)]) (use bb(1) in auto)
      define s2 where "s2 = clear_if_empty (bin_index k) (s\<lparr>chunks := lk.unlinked as bs (chunks s), bins := (bins s)(Bin (bin_index k) := bin_ends (as @ bs))\<rparr>)"
      have re2: "reach s2 ?S" using re by (simp add: s2_def reach_def)
      have t2: "m_hTop s2 = m_hTop s" by (simp add: s2_def clear_if_empty_def clear_bin_bit_map_def)
      have M: "merge_next r n s = do { s4 \<leftarrow> g s2; Some (0, n + k, s4) }"
        using sz used False e(1) eS(2) h U' T r(3) by (simp add: merge_next_def handle_to_ptr_def s2_def g_def Let_def)
      have M': "merge_next r n (?W s) = do { s4 \<leftarrow> g (?W s2); Some (0, n + k, s4) }"
        using sz' used False e(1) eS(2) h U U' T r(3) by (simp add: merge_next_def handle_to_ptr_def s2_def g_def Let_def clear_if_empty_head)
      have tp: "m_hTop s4 = m_hTop s2" if "g s2 = Some s4" for s4
        using that by (auto simp: g_def set_size_at_offset_def set_presize_at_offset_def put_fld_def bind_eq_Some_conv split: if_splits)
      show ?thesis
      proof (cases "g s2")
        case (Some s4)
        then show ?thesis using M M' laterD [OF f re2, of v w] later_reach [OF f re2 Some] tp [OF Some] t2 by (simp del: starts_simps) blast
      qed (use M M' laterD [OF f re2, of v w] in simp)
    qed
  qed
  then show "merge_next r n (?W s) = map_option (map_prod id (map_prod id ?W)) (merge_next r n s)"
    "merge_next r n s = Some (0, T, s') \<Longrightarrow> reach s' ?S" "merge_next r n s = Some (0, T, s') \<Longrightarrow> m_hTop s' = m_hTop s" by blast+
qed

lemma inter_free_behind:
  assumes ok: "bm_ok (with_head p v w s) (xs @ (p, t, True) # (r, n, True) # ys) B"
  obtains s' L' B' where "inter_free (r + 8) s = Some (0, n, s')" "bm_ok (with_head p v w s') L' B'"
    "used_blks L' = used_blks xs @ (p, t, True) # used_blks ys" "same_acct s s'"
    "keeps (xs @ (p, t, True) # ys) (chunks (with_head p v w s)) (chunks (with_head p v w s'))"
proof -
  let ?L = "xs @ (p, t, True) # (r, n, True) # ys"
  let ?S = "starts ?L (m_hTop s)" and ?W = "with_head p v w"
  have ok': "bm_ok (?W s) ((xs @ [(p, t, True)]) @ (r, n, True) # ys) B" using ok by simp
  note okD = bm_okD [OF ok] and cf = chunk_facts [OF ok'] and sz = ok_size [OF ok']
  have r: "r = p + t" "24 \<le> t" "24 \<le> n" "tiles (r + n) ys (m_hTop s)" "8 dvd n" using okD(1) by (auto simp: tiles_middle)
  have S: "p \<in> ?S" "r \<in> ?S - {p}" "r + n \<in> ?S - {p}" using r tiles_first [OF r(4)] by auto
  have re: "reach s ?S" using okD(4) by simp
  obtain z L' B' where z: "inter_free (r + 8) (?W s) = Some (0, n, z)" "bm_ok z L' B'" "used_blks L' = used_blks (xs @ [(p, t, True)]) @ used_blks ys"
    "same_acct (?W s) z" "keeps ((xs @ [(p, t, True)]) @ ys) (chunks (?W s)) (chunks z)" by (rule inter_free_ok [OF ok'])
  have rd: "CHUNK_SIZE r s = Some n" "inuse_bit_at_offset r n s = Some True" "prev_inuse r s = Some True" "prev_inuse r (?W s) = Some True"
  proof -
    have "fld Size (chunks (?W s)) r = n + 1" using bm_okD(2) [OF ok'] by (simp add: headers_middle)
    then show "prev_inuse r (?W s) = Some True" using get_fld_reach [OF okD(4), of r Size] S(2) dvd_8_even [OF r(5)] by (simp add: prev_inuse_def)
    then show "prev_inuse r s = Some True" "CHUNK_SIZE r s = Some n" "inuse_bit_at_offset r n s = Some True"
      using read_head [OF re S(1), of r 0 v w] read_head [OF re S(1), of r n v w] S cf by simp_all
  qed
  have ck: "check_inuse_chunk r s = Some 0"
  proof -
    have "CHUNK_SIZE (r + n) (?W s) = CHUNK_SIZE (r + n) s" using read_head(1) [OF re S(1), of r n v w] S(3) by simp
    then show ?thesis using cf rd unfolding check_inuse_chunk_def by (auto simp: AT_TOP_def split: if_splits)
  qed
  have mp: "merge_prev r n s = Some (r, n, s)" "merge_prev r n (?W s) = Some (r, n, ?W s)"
  proof -
    have "get_fld PreSize r s \<noteq> None" "get_fld PreSize r (?W s) \<noteq> None" using get_fld_reach [OF re, of r] get_fld_reach [OF okD(4), of r] S(2) by simp_all
    then show "merge_prev r n s = Some (r, n, s)" "merge_prev r n (?W s) = Some (r, n, ?W s)" using rd by (auto simp: merge_prev_def)
  qed
  have F: "inter_free (r + 8) x = do { (rc, t2, s2) \<leftarrow> merge_next r n x; if rc \<noteq> 0 then Some (rc, n, s2) else do { s3 \<leftarrow> place_free r t2 s2; Some (0, n, s3) } }"
    if "x = s \<or> x = ?W s" for x
    using that cf rd ck mp sz by (auto simp: inter_free_def misaligned_chunk_def)
  obtain T y y3 zs B3 where y: "merge_next r n s = Some (0, T, y)" "mark r T (?W y) = Some y3" "bm_ok y3 (xs @ (p, t, True) # (r, T, True) # zs) B3"
    "m_hTop y3 = m_hTop s" "r + T \<in> ?S - {p}"
  proof (cases "\<exists>a k zs. ys = (a, k, False) # zs")
    case True
    then obtain a k zs where ys: "ys = (a, k, False) # zs" by blast
    obtain s2 s3 B3 where o: "merge_next r n (?W s) = Some (0, n + k, s2)" "mark r (n + k) s2 = Some s3"
      "bm_ok s3 ((xs @ [(p, t, True)]) @ (r, n + k, True) # zs) B3" "same_head (?W s) s3"
      using merge_next_free [OF ok' [unfolded ys]] by blast
    then obtain y where y: "merge_next r n s = Some (0, n + k, y)" "s2 = ?W y" using merge_next_head(1) [OF ok] by auto
    have "tiles (r + n + k) zs (m_hTop s)" using r(4) ys by auto
    then have e: "r + (n + k) \<in> ?S - {p}" using tiles_first ys r by (fastforce simp: add.assoc)
    have "bm_ok s3 (xs @ (p, t, True) # (r, n + k, True) # zs) B3" "m_hTop s3 = m_hTop s" using o(3) same_headD(3) [OF o(4)] by simp_all
    then show thesis by (rule that [OF y(1) o(2) [unfolded y(2)] _ _ e])
  next
    case False
    then have u: "\<And>a k u zs. ys = (a, k, u) # zs \<Longrightarrow> u" by blast
    have n: "merge_next r n (?W s) = Some (0, n, ?W s)" using u by (rule merge_next_used [OF ok'])
    then obtain y where y: "merge_next r n s = Some (0, n, y)" "?W y = ?W s" using merge_next_head(1) [OF ok] by auto
    obtain s3 where o: "mark r n (?W s) = Some s3" "bm_ok s3 ((xs @ [(p, t, True)]) @ (r, n, True) # ys) B" "same_head (?W s) s3"
      by (rule mark_used [OF ok'])
    have "bm_ok s3 (xs @ (p, t, True) # (r, n, True) # ys) B" "m_hTop s3 = m_hTop s" using o(2) same_headD(3) [OF o(3)] by simp_all
    then show thesis by (rule that [OF y(1) o(1) [folded y(2)] _ _ S(3)])
  qed
  have rey: "reach y ?S" by (rule merge_next_head(2) [OF ok y(1)])
  obtain x3 where x3: "mark r T y = Some x3" "y3 = ?W x3" using laterD [OF later_mark [OF S(1,2) y(5)] rey, of v w] y(2) by (cases "mark r T y") auto
  have se: "settle r T (?W x3) = map_option ?W (settle r T x3)" by (rule settle_head) (use y(3) x3(2) in simp)
  have "inter_free (r + 8) (?W s) = map_option (map_prod id (map_prod id ?W)) (inter_free (r + 8) s)"
    unfolding F [of s, simplified] F [of "?W s", simplified] merge_next_head(1) [OF ok] place_free_eq
    using y(1,2) x3 se by (cases "settle r T x3") auto
  then obtain s' where s': "inter_free (r + 8) s = Some (0, n, s')" "z = ?W s'" using z(1) by (cases "inter_free (r + 8) s") auto
  have "same_acct s s'" using z(4) s'(2) by (simp add: same_acct_def with_head_def)
  then show thesis using that [OF s'(1)] z s'(2) by simp
qed

section \<open>A hole in the layout\<close>

text \<open>Between two parts of the layout lies a chunk whose header is not yet right, nor the flag
  behind it. Writing both, or those of two chunks in its place, completes the layout.\<close>

definition flagged :: "nat \<Rightarrow> memory \<Rightarrow> memory" where
  "flagged e m = set_fld Size e (fld Size m e div 2 * 2 + 1) m"

definition hole :: "bin_malloc \<Rightarrow> blk list \<Rightarrow> nat \<Rightarrow> nat \<Rightarrow> blk list \<Rightarrow> (nat \<Rightarrow> nat list) \<Rightarrow> bool" where
  "hole s xs p N ys B \<longleftrightarrow>
     8 dvd m_hBottom s \<and> 0 < m_hBottom s \<and> tiles (m_hBottom s) (xs @ (p, N, True) # ys) (m_hTop s) \<and> m_hTop s + MINSIZE \<le> m_tSize s \<and>
     m_tSize s \<le> MAX_ALLOC_SIZE \<and> tagged (chunks s) True xs \<and> tagged (flagged (p + N) (chunks s)) True ys \<and> lastu True ys \<and>
     fld Size (flagged (p + N) (chunks s)) (m_hTop s) = 1 \<and> binned s (free_blks xs \<union> free_blks ys) B"

lemma set_inuse_flagged:
  "reach s S \<Longrightarrow> a + off \<in> S \<Longrightarrow> set_inuse_bit_at_offset a off s = Some (s\<lparr>chunks := flagged (a + off) (chunks s)\<rparr>)"
  using get_fld_reach [of s S "a + off" Size] put_fld_reach [of s S "a + off" Size] by (simp add: set_inuse_bit_at_offset_def flagged_def)

lemma fld_flagged:
  assumes "reach s S" "e \<in> S" "a \<in> S"
  shows "fld g (flagged e m) a = (if g = Size \<and> a = e then fld Size m e div 2 * 2 + 1 else fld g m a)"
  unfolding flagged_def by (rule fld_put_reach [OF assms]) (use inuse_fits fld_fits [of Size m e] in \<open>simp add: fits_iff\<close>)

lemma st_ld: "st n a (ld n m a) m = m"
proof (induction n arbitrary: a)
  case (Suc n)
  have "unat (m a) < 256" using unsigned_less [of "m a"] by simp
  then have "(unat (m a) + 256 * ld n m (Suc a)) div 256 = ld n m (Suc a)" by simp
  moreover have "(256 :: byte) = 0" by simp
  then have "(word_of_nat (unat (m a) + 256 * ld n m (Suc a)) :: byte) = m a" by (simp only: of_nat_add of_nat_mult of_nat_numeral) simp
  ultimately show ?case using Suc [of "Suc a"] by simp
qed simp

lemma head_mem_own: "w = fld PreSize m p \<Longrightarrow> head_mem p v w m = set_fld Size p v m"
proof -
  assume w: "w = fld PreSize m p"
  have "fld PreSize (set_fld Size p v m) p = w" unfolding w by (rule fld_unchanged) (simp add: set_fld_outside)
  then show ?thesis using st_ld [of 4 p "set_fld Size p v m"] by (simp add: head_mem_def set_fld_def fld_def)
qed

lemma hole_reach:
  assumes h: "hole s xs p N ys B" and L: "tiles (m_hBottom s) L (m_hTop s)"
  shows "reach s (starts L (m_hTop s))"
proof -
  have "0 < a \<and> a + 24 \<le> m_tSize s" if "a \<in> starts L (m_hTop s)" for a using starts_less [OF L that] h by (auto simp: hole_def)
  then show ?thesis using starts_spaced [OF L] h by (simp add: reach_def hole_def)
qed

text \<open>A layout with other chunks in the place of the hole.\<close>

lemma hole_filled:
  assumes h: "hole s xs p N ys B" and zs: "tiles p zs (p + N)" "zs \<noteq> []" "\<And>a n u. (a, n, u) \<in> set zs \<Longrightarrow> u"
    and m: "\<And>a. a \<in> fst ` set xs \<Longrightarrow> fld Size m a = fld Size (chunks s) a"
    "\<And>a. a \<in> starts ys (m_hTop s) \<Longrightarrow> fld Size m a = fld Size (flagged (p + N) (chunks s)) a"
    "\<And>a. a \<in> starts (xs @ zs @ ys) (m_hTop s) \<Longrightarrow> a \<le> p \<or> p + N < a \<Longrightarrow> fld PreSize m a = fld PreSize (chunks s) a"
    "\<And>a f. a \<in> starts (xs @ zs @ ys) (m_hTop s) \<Longrightarrow> f = PreChunk \<or> f = NextChunk \<Longrightarrow> fld f m a = fld f (chunks s) a"
    and new: "tagged m (lastu True xs) zs"
  shows "bm_ok (s\<lparr>chunks := m\<rparr>) (xs @ zs @ ys) B"
proof -
  let ?S = "starts (xs @ zs @ ys) (m_hTop s)"
  have t: "tiles (m_hBottom s) xs p" "tiles (p + N) ys (m_hTop s)" "24 \<le> N" using h by (auto simp: hole_def tiles_middle)
  have T: "tiles (m_hBottom s) (xs @ zs @ ys) (m_hTop s)" using t(1,2) zs(1) by (auto simp: tiles_append)
  have re: "reach s ?S" by (rule hole_reach [OF h T])
  have pS: "p \<in> fst ` set zs" using zs(1,2) by (cases zs) auto
  have S: "fst ` set xs \<subseteq> ?S" "starts ys (m_hTop s) \<subseteq> ?S" "p \<in> ?S" "p + N \<in> starts ys (m_hTop s)" using tiles_first [OF t(2)] pS by auto
  have "tagged m True xs"
    by (rule tagged_below [OF t(1), of "chunks s" True "insert p (fst ` set xs)"]) (use h m(1,3) S in \<open>auto simp: hole_def\<close>)
  moreover have "tagged m True ys"
  proof (rule tagged_above [OF t(2) _ order.refl m(2)])
    show "tagged (flagged (p + N) (chunks s)) True ys" using h by (simp add: hole_def)
    fix a assume a: "a \<in> starts ys (m_hTop s)" "p + N < a"
    then show "fld PreSize m a = fld PreSize (flagged (p + N) (chunks s)) a"
      using m(3) [of a] fld_flagged [OF re, of "p + N" a PreSize "chunks s"] S(2,4) by auto
  qed
  moreover have "lastu (lastu True xs) zs" using zs(2,3) last_in_set [OF zs(2)] by (cases "last zs") (auto simp: lastu_def)
  moreover have "fld Size m (m_hTop s) = 1" using m(2) [of "m_hTop s"] h by (simp add: starts_def hole_def)
  ultimately have "headers m (xs @ zs @ ys) (m_hTop s)" using new h by (simp add: headers_def tagged_append hole_def)
  moreover have "binned (s\<lparr>chunks := m\<rparr>) (free_blks xs \<union> free_blks ys) B"
  proof (rule binned_links [of _ _ _ ?S])
    show "fst ` (free_blks xs \<union> free_blks ys) \<subseteq> ?S" using fst_free_blks [of xs] fst_free_blks [of ys] S by (auto simp: starts_def)
  qed (use h m(4) in \<open>simp_all add: hole_def\<close>)
  moreover have "free_blks zs = {}" using zs(3) by (auto simp: free_blks_def)
  ultimately show ?thesis using h T by (simp add: bm_ok_def hole_def)
qed

lemma hole_whole:
  assumes h: "hole s xs p N ys B"
  defines "v \<equiv> N + of_bool (lastu True xs)" and "w \<equiv> fld PreSize (chunks s) p" and "m \<equiv> flagged (p + N) (chunks s)"
  shows "bm_ok (with_head p v w (s\<lparr>chunks := m\<rparr>)) (xs @ (p, N, True) # ys) B" "keeps (xs @ ys) (chunks s) (head_mem p v w m)"
    "p + 8 \<le> x \<Longrightarrow> x < p + N + 4 \<Longrightarrow> head_mem p v w m x = chunks s x"
proof -
  let ?S = "starts (xs @ [(p, N, True)] @ ys) (m_hTop s)"
  have t: "tiles (m_hBottom s) xs p" "tiles (p + N) ys (m_hTop s)" "24 \<le> N" "8 dvd N" and T: "tiles (m_hBottom s) (xs @ [(p, N, True)] @ ys) (m_hTop s)"
    using h by (auto simp: hole_def tiles_middle)
  have re: "reach s ?S" by (rule hole_reach [OF h T])
  have S: "p \<in> ?S" "p + N \<in> ?S" "starts ys (m_hTop s) \<subseteq> ?S" "fst ` set xs \<subseteq> ?S" using tiles_first [OF t(2)] by auto
  have sz: "N \<le> MAX_ALLOC_SIZE" using tiles_le [OF t(2)] h by (simp add: hole_def)
  have ft: "fits Size v" "fits PreSize w" using sz fld_fits [of PreSize] by (auto simp: v_def w_def fits_iff MAX_ALLOC_SIZE_def)
  have f: "fld g (head_mem p v w m) a = (if g = Size then if a = p then v else if a = p + N then fld Size m a else fld Size (chunks s) a else fld g (chunks s) a)" if "a \<in> ?S" for g a
    unfolding head_mem_def fld_put_reach [OF re S(1) that ft(2)] fld_put_reach [OF re S(1) that ft(1)]
    using fld_flagged [OF re S(2) that, of g "chunks s"] by (cases g) (auto simp: m_def w_def)
  have below: "a < p" if "a \<in> fst ` set xs" for a using tiles_start_less [OF t(1) that] by simp
  have above: "p + N \<le> a" if "a \<in> starts ys (m_hTop s)" for a using starts_less [OF t(2) that] by simp
  have "bm_ok (s\<lparr>chunks := head_mem p v w m\<rparr>) (xs @ [(p, N, True)] @ ys) B"
  proof (rule hole_filled [OF h])
    fix a assume a: "a \<in> starts ys (m_hTop s)"
    then show "fld Size (head_mem p v w m) a = fld Size (flagged (p + N) (chunks s)) a"
      using f [of a Size] above [OF a] S(3) t(3) fld_flagged [OF re S(2), of a Size "chunks s"] by (auto simp: m_def)
  next
    fix a assume a: "a \<in> fst ` set xs"
    then show "fld Size (head_mem p v w m) a = fld Size (chunks s) a" using f [of a Size] below [OF a] S(4) by auto
  next
    show "tagged (head_mem p v w m) (lastu True xs) [(p, N, True)]" using f [OF S(1), of Size] by (simp add: v_def)
  qed (use f t(3,4) in auto)
  then show "bm_ok (with_head p v w (s\<lparr>chunks := m\<rparr>)) (xs @ (p, N, True) # ys) B" by (simp add: with_head_def)
  have "w = fld PreSize m p" using fld_flagged [OF re S(2,1), of PreSize "chunks s"] by (simp add: w_def m_def)
  then have eq: "head_mem p v w m = set_fld Size p v m" by (rule head_mem_own)
  have "agree {p + N + 4..<p + N + 8} (chunks s) m" unfolding m_def flagged_def by (rule agree_mono [OF agree_set_fld]) simp
  moreover have "agree {p + 4..<p + 8} m (set_fld Size p v m)" by (rule agree_mono [OF agree_set_fld]) simp
  ultimately have ag: "agree ({p + N + 4..<p + N + 8} \<union> {p + 4..<p + 8}) (chunks s) (head_mem p v w m)" unfolding eq by (rule agree_trans)
  then show "p + 8 \<le> x \<Longrightarrow> x < p + N + 4 \<Longrightarrow> head_mem p v w m x = chunks s x" by (simp add: agree_def)
  have T': "tiles (m_hBottom s) (xs @ (p, N, True) # ys) (m_hTop s)" using T by simp
  show "keeps (xs @ ys) (chunks s) (head_mem p v w m)"
    by (rule keeps_mark [of p N]) (use ag t(3) tiles_others [OF T'] in \<open>auto intro: agree_mono\<close>)
qed

lemma hole_split:
  assumes h: "hole s xs p (t + r) ys B" and tr: "24 \<le> t" "8 dvd t" "24 \<le> r" "8 dvd r"
  defines "v \<equiv> t + of_bool (lastu True xs)" and "w \<equiv> fld PreSize (chunks s) p" and "e \<equiv> p + t + r"
    and "m \<equiv> flagged (p + t + r) (set_fld PreSize (p + t + r) r (set_fld Size (p + t) (r + 1) (chunks s)))"
  shows "bm_ok (with_head p v w (s\<lparr>chunks := m\<rparr>)) (xs @ (p, t, True) # (p + t, r, True) # ys) B" "keeps (xs @ ys) (chunks s) (head_mem p v w m)"
    "p + 8 \<le> x \<Longrightarrow> x < p + t + 4 \<Longrightarrow> head_mem p v w m x = chunks s x"
    "reach s (starts (xs @ (p, t, True) # (p + t, r, True) # ys) (m_hTop s))" "e \<in> starts (xs @ (p, t, True) # (p + t, r, True) # ys) (m_hTop s)"
proof -
  let ?zs = "[(p, t, True), (p + t, r, True)]"
  let ?S = "starts (xs @ ?zs @ ys) (m_hTop s)"
  define m1 where "m1 = set_fld Size (p + t) (r + 1) (chunks s)"
  define m2 where "m2 = set_fld PreSize e r m1"
  have m: "m = flagged e m2" by (simp add: m_def m2_def m1_def e_def)
  have tl: "tiles (m_hBottom s) xs p" "tiles e ys (m_hTop s)" and T: "tiles (m_hBottom s) (xs @ ?zs @ ys) (m_hTop s)"
    using h tr by (auto simp: hole_def tiles_middle e_def add.assoc)
  show re: "reach s (starts (xs @ (p, t, True) # (p + t, r, True) # ys) (m_hTop s))" using hole_reach [OF h T] by simp
  have re: "reach s ?S" by (rule hole_reach [OF h T])
  have S: "p \<in> ?S" "p + t \<in> ?S" "e \<in> ?S" "starts ys (m_hTop s) \<subseteq> ?S" "fst ` set xs \<subseteq> ?S" using tiles_first [OF tl(2)] by auto
  show "e \<in> starts (xs @ (p, t, True) # (p + t, r, True) # ys) (m_hTop s)" using S(3) by simp
  have sz: "t + r \<le> MAX_ALLOC_SIZE" using tiles_le [OF tl(2)] h by (simp add: hole_def e_def)
  have ft: "fits Size v" "fits PreSize w" "fits Size (r + 1)" "fits PreSize r"
    using sz tr fld_fits [of PreSize] by (auto simp: v_def w_def fits_iff MAX_ALLOC_SIZE_def)
  have f: "fld g (head_mem p v w m) a =
      (if g = Size then if a = p then v else if a = p + t then r + 1 else if a = e then fld Size (chunks s) e div 2 * 2 + 1 else fld Size (chunks s) a
       else if g = PreSize \<and> a = e then r else fld g (chunks s) a)" if a: "a \<in> ?S" for g a
  proof -
    note fp = fld_put_reach [OF re S(1) a ft(2)] fld_put_reach [OF re S(1) a ft(1)] fld_flagged [OF re S(3) a] fld_put_reach [OF re S(3) a ft(4)] fld_put_reach [OF re S(2) a ft(3)]
      fld_put_reach [OF re S(3) S(3) ft(4)] fld_put_reach [OF re S(2) S(3) ft(3)]
    show ?thesis unfolding head_mem_def m fp(1-3) m2_def fp(4,6) m1_def fp(5,7) using tr by (cases g) (auto simp: w_def e_def)
  qed
  have below: "a < p" if "a \<in> fst ` set xs" for a using tiles_start_less [OF tl(1) that] by simp
  have above: "e \<le> a" if "a \<in> starts ys (m_hTop s)" for a using starts_less [OF tl(2) that] by simp
  have "bm_ok (s\<lparr>chunks := head_mem p v w m\<rparr>) (xs @ ?zs @ ys) B"
  proof (rule hole_filled [OF h])
    fix a assume a: "a \<in> starts ys (m_hTop s)"
    then show "fld Size (head_mem p v w m) a = fld Size (flagged (p + (t + r)) (chunks s)) a"
      using f [of a Size] above [OF a] S(4) tr fld_flagged [OF re S(3), of a Size "chunks s"] by (auto simp: e_def add.assoc)
  next
    fix a assume a: "a \<in> fst ` set xs"
    then show "fld Size (head_mem p v w m) a = fld Size (chunks s) a" using f [of a Size] below [OF a] S(5) by (auto simp: e_def)
  next
    show "tagged (head_mem p v w m) (lastu True xs) ?zs" using f [OF S(1), of Size] f [OF S(2), of Size] tr by (simp add: v_def)
  next
    fix a assume "a \<in> ?S" "a \<le> p \<or> p + (t + r) < a"
    then show "fld PreSize (head_mem p v w m) a = fld PreSize (chunks s) a" using f [of a PreSize] tr by (auto simp: e_def)
  qed (use f tr in \<open>auto simp: add.assoc\<close>)
  then show "bm_ok (with_head p v w (s\<lparr>chunks := m\<rparr>)) (xs @ (p, t, True) # (p + t, r, True) # ys) B" by (simp add: with_head_def)
  have "w = fld PreSize m p"
    unfolding m fld_flagged [OF re S(3,1)] m2_def fld_put_reach [OF re S(3,1) ft(4)] m1_def fld_put_reach [OF re S(2,1) ft(3)] using tr by (simp add: w_def e_def)
  then have eq: "head_mem p v w m = set_fld Size p v m" by (rule head_mem_own)
  let ?R = "{p + t + 4..<p + t + 8} \<union> {e..<e + 8} \<union> {p + 4..<p + 8}"
  have "agree ?R (chunks s) m1" "agree ?R m1 m2" "agree ?R m2 m" "agree ?R m (head_mem p v w m)"
    unfolding eq unfolding m m1_def m2_def flagged_def by (rule agree_mono [OF agree_set_fld]; auto)+
  then have ag: "agree ?R (chunks s) (head_mem p v w m)" by (meson agree_same)
  then show "p + 8 \<le> x \<Longrightarrow> x < p + t + 4 \<Longrightarrow> head_mem p v w m x = chunks s x" using tr by (simp add: agree_def e_def)
  have T': "tiles (m_hBottom s) (xs @ (p, t + r, True) # ys) (m_hTop s)" using h by (simp add: hole_def)
  show "keeps (xs @ ys) (chunks s) (head_mem p v w m)"
  proof (rule keeps_agree [OF ag])
    fix a n x assume "(a, n, True) \<in> set (xs @ ys)" "x \<in> ?R"
    then show "x < a + 8 \<or> a + n + 4 \<le> x" using tiles_others [OF T', of a n True] tr by (auto simp: e_def)
  qed
qed

section \<open>The last steps\<close>

lemma set_fld_again: "set_fld f a v (set_fld f a w m) = set_fld f a v m"
proof
  fix x
  show "set_fld f a v (set_fld f a w m) x = set_fld f a v m x"
    unfolding set_fld_def by (cases "a + field_offset f \<le> x \<and> x < a + field_offset f + field_width f") (auto intro: st_inside simp: st_outside)
qed

lemma flagged_again: "flagged e (flagged e m) = flagged e m"
proof -
  have "fits Size (fld Size m e div 2 * 2 + 1)" using inuse_fits fld_fits [of Size m e] by (simp add: fits_iff)
  then have "fld Size (flagged e m) e = fld Size m e div 2 * 2 + 1" by (simp add: flagged_def cs.get_same)
  then show ?thesis by (simp add: flagged_def [of e "flagged e m"]) (simp add: flagged_def set_fld_again)
qed

definition put_head :: "nat \<Rightarrow> nat \<Rightarrow> bool \<Rightarrow> nat \<Rightarrow> bin_malloc \<Rightarrow> bin_malloc option" where
  "put_head p n u w s = do {
     s2 \<leftarrow> put_fld Size p (REAL_SIZE n) s;
     s3 \<leftarrow> (if u then set_inuse_bit_at_offset p 0 s2 else Some s2);
     put_fld PreSize p w s3 }"

lemma put_head_eq:
  assumes re: "reach s S" and p: "p \<in> S" and n: "8 dvd n" "n \<le> MAX_ALLOC_SIZE"
  shows "put_head p n u w s = Some (with_head p (n + of_bool u) w s)"
proof -
  have ft: "fits Size n" using n by (simp add: fits_iff MAX_ALLOC_SIZE_def)
  let ?s = "\<lambda>m. s\<lparr>chunks := m\<rparr>"
  have r: "reach (?s m) S" for m using re by (simp add: reach_def)
  have "fld Size (set_fld Size p n (chunks s)) p = n" by (simp add: cs.get_same ft)
  then have "flagged p (set_fld Size p n (chunks s)) = set_fld Size p (n + 1) (chunks s)"
    using dvd_8_even [OF n(1)] by (auto simp: flagged_def set_fld_again elim!: evenE)
  then show ?thesis
    using put_fld_reach [OF re p] put_fld_reach [OF r p] set_inuse_flagged [OF r, of p 0] p REAL_SIZE_aligned(1) [OF n(1)]
    by (cases u) (simp_all add: put_head_def with_head_def head_mem_def)
qed

lemma re_finish_eq:
  "re_finish p N t u w s =
     (if N < t then None
      else do {
        (n, s1) \<leftarrow> (if N - t \<ge> get_min_chunk_size s then do { s' \<leftarrow> split_rest (p + t) (N - t) s; Some (t, s') }
                    else do { s' \<leftarrow> set_inuse_bit_at_offset p (REAL_SIZE N) s; Some (N, s') });
        s4 \<leftarrow> put_head p n u w s1;
        Some (ptr_to_handle (chunk2mem p) s4, s4) })"
  unfolding re_finish_def put_head_def Option.bind_assoc by (rule refl)

text \<open>A rest that a size can describe is released in one piece.\<close>

lemma split_rest_eq:
  assumes re: "reach s S" "p \<in> S" "p + r \<in> S" and r: "8 dvd r" "0 < r" "r \<le> MAX_ALLOC_SIZE" and p: "p + 8 < m_tSize s"
  shows "split_rest p r s = do {
    (_, _, s5) \<leftarrow> inter_free (p + 8) (s\<lparr>chunks := flagged (p + r) (set_fld PreSize (p + r) r (set_fld Size p (r + 1) (chunks s)))\<rparr>); Some s5 }"
proof -
  have re': "reach (s\<lparr>chunks := m\<rparr>) S" for m using re(1) by (simp add: reach_def)
  have t: "this_size r = r" "REAL_SIZE r = r" using r REAL_SIZE_aligned(1) [OF r(1)] by (simp_all add: this_size_def)
  show ?thesis
    using put_fld_reach [OF re(1,2)] put_fld_reach [OF re' re(3)] set_inuse_flagged [OF re' re(3)] p
    by (subst split_rest.simps) (simp add: t flagged_again chunk2mem_def ptr_to_handle_def split: Option.bind_split)
qed

lemma re_finish_ok:
  assumes h: "hole s xs p N ys B" and t: "24 \<le> t" "8 dvd t" "t \<le> N" and least: "24 \<le> get_min_chunk_size s"
  obtains s' L' B' k where "re_finish p N t (lastu True xs) (fld PreSize (chunks s) p) s = Some (p + 8, s')" "bm_ok s' L' B'"
    "used_blks L' = used_blks xs @ (p, k, True) # used_blks ys" "t \<le> k" "same_acct s s'" "keeps (xs @ ys) (chunks s) (chunks s')"
    "\<And>x. p + 8 \<le> x \<Longrightarrow> x < p + t + 4 \<Longrightarrow> chunks s' x = chunks s x"
proof -
  let ?w = "fld PreSize (chunks s) p" and ?u = "lastu True xs"
  have tl: "tiles (p + N) ys (m_hTop s)" "8 dvd N" "24 \<le> N" and T: "tiles (m_hBottom s) (xs @ (p, N, True) # ys) (m_hTop s)"
    using h by (auto simp: hole_def tiles_middle)
  have sz: "p + N + 24 \<le> m_tSize s" "N \<le> MAX_ALLOC_SIZE" using tiles_le [OF tl(1)] h by (auto simp: hole_def)
  have re: "reach s (starts (xs @ (p, N, True) # ys) (m_hTop s))" by (rule hole_reach [OF h T])
  have S: "p \<in> starts (xs @ (p, N, True) # ys) (m_hTop s)" "p + N \<in> starts (xs @ (p, N, True) # ys) (m_hTop s)" using tiles_first [OF tl(1)] by auto
  show thesis
  proof (cases "get_min_chunk_size s \<le> N - t")
    case False
    let ?s = "s\<lparr>chunks := flagged (p + N) (chunks s)\<rparr>"
    have "reach ?s (starts (xs @ (p, N, True) # ys) (m_hTop s))" using re by (simp add: reach_def)
    note ph = put_head_eq [OF this S(1) tl(2) sz(2), of ?u ?w]
    have E: "re_finish p N t ?u ?w s = Some (p + 8, with_head p (N + of_bool ?u) ?w ?s)"
      using False t(3) set_inuse_flagged [OF re S(2)] ph REAL_SIZE_aligned(1) [OF tl(2)] sz
      by (simp add: re_finish_eq chunk2mem_def ptr_to_handle_def)
    note w = hole_whole [OF h]
    show thesis by (rule that [OF E w(1)]) (use t(3) w(2,3) in \<open>auto simp: same_acct_def with_head_def\<close>)
  next
    case True
    define r where "r = N - t"
    have r: "N = t + r" "24 \<le> r" "8 dvd r" using True least t(3) dvd_diff_nat [OF tl(2) t(2)] by (auto simp: r_def)
    let ?v = "t + of_bool ?u"
    let ?m = "flagged (p + t + r) (set_fld PreSize (p + t + r) r (set_fld Size (p + t) (r + 1) (chunks s)))"
    let ?S = "starts (xs @ (p, t, True) # (p + t, r, True) # ys) (m_hTop s)"
    note w = hole_split [OF h [unfolded r(1)] t(1,2) r(2,3)]
    obtain s1 L' B' where f: "inter_free (p + t + 8) (s\<lparr>chunks := ?m\<rparr>) = Some (0, r, s1)" "bm_ok (with_head p ?v ?w s1) L' B'"
      "used_blks L' = used_blks xs @ (p, t, True) # used_blks ys" "same_acct (s\<lparr>chunks := ?m\<rparr>) s1"
      "keeps (xs @ (p, t, True) # ys) (chunks (with_head p ?v ?w (s\<lparr>chunks := ?m\<rparr>))) (chunks (with_head p ?v ?w s1))"
      by (rule inter_free_behind [OF w(1)])
    have a: "same_acct s s1" using f(4) by (simp add: same_acct_def)
    have sp: "split_rest (p + t) r s = Some s1"
      using split_rest_eq [OF w(4) _ w(5) r(3), of] f(1) r sz by simp
    have "reach s1 ?S" using w(4) a by (simp add: reach_def same_acct_def)
    note ph = put_head_eq [OF this _ t(2), of p ?u ?w]
    have "re_finish p N t ?u ?w s = Some (p + 8, with_head p ?v ?w s1)"
      using True t(3) sp ph sz a by (simp add: re_finish_eq chunk2mem_def ptr_to_handle_def r_def [symmetric] same_acct_def)
    moreover have "keeps (xs @ ys) (chunks (with_head p ?v ?w (s\<lparr>chunks := ?m\<rparr>))) (chunks (with_head p ?v ?w s1))"
      by (rule keeps_subset [OF f(5)]) auto
    then have "keeps (xs @ ys) (chunks s) (chunks (with_head p ?v ?w s1))" using keeps_trans [OF w(2)] by simp
    moreover have "chunks (with_head p ?v ?w s1) x = chunks s x" if x: "p + 8 \<le> x" "x < p + t + 4" for x
      using f(5) w(3) [OF x] x by (simp add: keeps_def)
    moreover have "same_acct s (with_head p ?v ?w s1)" using a by (simp add: same_acct_def with_head_def)
    ultimately show thesis using that f(2,3) by blast
  qed
qed

section \<open>Where holes come from\<close>

lemma flagged_same: "odd (fld Size m e) \<Longrightarrow> flagged e m = m"
proof -
  assume "odd (fld Size m e)"
  then have "fld Size m e div 2 * 2 + 1 = fld Size m e" by (auto elim!: oddE)
  then show ?thesis using st_ld [of 4 "e + 4" m] by (simp add: flagged_def set_fld_def fld_def)
qed

lemma hole_used:
  assumes ok: "bm_ok s (xs @ (p, N, True) # ys) B"
  shows "hole s xs p N ys B"
proof -
  have h: "tagged (chunks s) True ys" "lastu True ys" "fld Size (chunks s) (m_hTop s) = 1" and t: "tiles (p + N) ys (m_hTop s)"
    using bm_okD(1,2) [OF ok] by (simp_all add: headers_middle tiles_middle)
  have "flagged (p + N) (chunks s) = chunks s" by (rule flagged_same) (use tag_behind [OF t h(1,3,2)] in simp)
  then show ?thesis using ok h by (simp add: hole_def bm_ok_def headers_middle)
qed

text \<open>The bit of a bin may stay when its last chunk is taken.\<close>

lemma unlink_binned_lazy:
  assumes b: "binned s F B" and re: "reach s S" and F: "fst ` F \<subseteq> S" "single_valued F" and h: "(h, n) \<in> F"
  obtains m b' B' where "unlink_bin (Bin (bin_index n)) h s = Some (0, s\<lparr>chunks := m, bins := b'\<rparr>)"
    "binned (s\<lparr>chunks := m, bins := b'\<rparr>) (F - {(h, n)}) B'" "same_tags S (chunks s) m" "agree (links (fst ` F)) (chunks s) m"
proof -
  obtain m b' bm where m: "unlink_bin (Bin (bin_index n)) h s = Some (0, s\<lparr>chunks := m, bins := b'\<rparr>)"
    "binned (s\<lparr>chunks := m, bins := b', m_auiBinBitMap := bm\<rparr>) (F - {(h, n)}) (B(bin_index n := remove1 h (B (bin_index n))))"
    "same_tags S (chunks s) m" "agree (links (fst ` F)) (chunks s) m" by (rule unlink_binned [OF assms])
  let ?B = "B(bin_index n := remove1 h (B (bin_index n)))"
  have "bit (m_auiBinBitMap s (i div 32)) (i mod 32)" if "i < NBINS" "?B i \<noteq> []" for i
    using binnedD(5) [OF b that(1)] that(2) by (cases "B i = []") (auto split: if_splits)
  then have "binned (s\<lparr>chunks := m, bins := b'\<rparr>) (F - {(h, n)}) ?B" using m(2) by (simp add: binned_def)
  then show thesis using that m by blast
qed

lemma hole_next:
  assumes ok: "bm_ok s (xs @ (p, t, True) # (a, n, False) # ys) B"
  obtains s1 B' where "unlink_bin (Bin (bin_index n)) a s = Some (0, s1)" "hole s1 xs p (t + n) ys B'" "same_head s s1"
    "keeps (xs @ (p, t, True) # ys) (chunks s) (chunks s1)" "fld PreSize (chunks s1) p = fld PreSize (chunks s) p"
proof -
  let ?L = "xs @ (p, t, True) # (a, n, False) # ys"
  let ?S = "starts ?L (m_hTop s)"
  note okD = bm_okD [OF ok]
  have ok': "bm_ok s ((xs @ [(p, t, True)]) @ (a, n, False) # ys) B" using ok by simp
  obtain k zs where nb: "ys = (a + n, k, True) # zs" "fld Size (chunks s) (a + n) = k" "8 dvd k" "24 \<le> k"
    "tagged (chunks s) True zs" "tiles (a + n + k) zs (m_hTop s)" "lastu True zs" "fld Size (chunks s) (m_hTop s) = 1" by (rule free_neighbours [OF ok'])
  have tl: "tiles (m_hBottom s) xs p" "a = p + t" "24 \<le> t" "8 dvd t" "24 \<le> n" "8 dvd n" using okD(1) by (auto simp: tiles_middle)
  have aF: "(a, n) \<in> free_blks ?L" by simp
  obtain m b' B' where m: "unlink_bin (Bin (bin_index n)) a s = Some (0, s\<lparr>chunks := m, bins := b'\<rparr>)"
    "binned (s\<lparr>chunks := m, bins := b'\<rparr>) (free_blks ?L - {(a, n)}) B'" "same_tags ?S (chunks s) m" "agree (links (fst ` free_blks ?L)) (chunks s) m"
    by (rule unlink_binned_lazy [OF okD(3,4,5,6) aF])
  have tag: "fld Size m x = fld Size (chunks s) x" "fld PreSize m x = fld PreSize (chunks s) x" if "x \<in> ?S" for x
    using bspec [OF m(3) [unfolded same_tags_def] that] by simp_all
  have S: "a + n \<in> ?S" "starts zs (m_hTop s) \<subseteq> ?S" "p \<in> ?S" "m_hTop s \<in> ?S" "fst ` set xs \<subseteq> ?S" using nb(1) by (auto simp: starts_def)
  have fl: "fld g (flagged (a + n) m) x = (if g = Size \<and> x = a + n then k + 1 else fld g m x)" if "x \<in> ?S" for g x
    using fld_flagged [OF okD(4) S(1) that, of g m] tag(1) [OF S(1)] nb(2) dvd_8_even [OF nb(3)] by (auto elim!: evenE)
  have "tagged m True xs" by (rule tagged_below [OF tl(1) _ S(5,3)]) (use okD(2) tag in \<open>auto simp: headers_middle\<close>)
  moreover have "tagged (flagged (a + n) m) True zs" by (rule tagged_above [OF nb(6,5) S(2)]) (use fl tag nb(4) in auto)
  moreover have "fld Size (flagged (a + n) m) (m_hTop s) = 1" using fl [OF S(4), of Size] tag(1) [OF S(4)] nb(8) tiles_le [OF nb(6)] nb(4) by simp
  moreover have "fld Size (flagged (a + n) m) (a + n) = k + 1" using fl [OF S(1), of Size] by simp
  moreover have "free_blks ?L - {(a, n)} = free_blks xs \<union> free_blks ys" using free_blks_taken [OF bm_okD(1) [OF ok']] by simp
  ultimately have "hole (s\<lparr>chunks := m, bins := b'\<rparr>) xs p (t + n) ys B'"
    using ok m(2) nb(1,3,4,6,7) tl unfolding hole_def bm_ok_def by (simp add: tiles_middle add.assoc)
  moreover have "keeps (xs @ (p, t, True) # ys) (chunks s) m" by (rule keeps_subset [OF keeps_links [OF okD(1) m(4)]]) auto
  ultimately show thesis using that [OF m(1)] tag(2) [OF S(3)] by (simp add: same_head_def)
qed

lemma hole_prev:
  assumes ok: "bm_ok s (xs @ (q, n, False) # (p, t, True) # ys) B"
  obtains s1 B' where "unlink_bin (Bin (bin_index n)) q s = Some (0, s1)" "hole s1 xs q (n + t) ys B'" "same_head s s1"
    "keeps (xs @ (p, t, True) # ys) (chunks s) (chunks s1)" "fld PreSize (chunks s1) q = fld PreSize (chunks s) q"
proof -
  let ?L = "xs @ (q, n, False) # (p, t, True) # ys"
  let ?S = "starts ?L (m_hTop s)"
  note okD = bm_okD [OF ok]
  have tl: "tiles (m_hBottom s) xs q" "p = q + n" "24 \<le> t" "8 dvd t" "24 \<le> n" "8 dvd n" "tiles (p + t) ys (m_hTop s)" using okD(1) by (auto simp: tiles_middle)
  have h: "tagged (chunks s) True xs" "tagged (chunks s) True ys" "lastu True ys" "fld Size (chunks s) (m_hTop s) = 1"
    using okD(2) by (simp_all add: headers_middle)
  have qF: "(q, n) \<in> free_blks ?L" by simp
  obtain m b' B' where m: "unlink_bin (Bin (bin_index n)) q s = Some (0, s\<lparr>chunks := m, bins := b'\<rparr>)"
    "binned (s\<lparr>chunks := m, bins := b'\<rparr>) (free_blks ?L - {(q, n)}) B'" "same_tags ?S (chunks s) m" "agree (links (fst ` free_blks ?L)) (chunks s) m"
    by (rule unlink_binned_lazy [OF okD(3,4,5,6) qF])
  have tag: "fld Size m x = fld Size (chunks s) x" "fld PreSize m x = fld PreSize (chunks s) x" if "x \<in> ?S" for x
    using bspec [OF m(3) [unfolded same_tags_def] that] by simp_all
  have S: "p + t \<in> ?S" "starts ys (m_hTop s) \<subseteq> ?S" "q \<in> ?S" "m_hTop s \<in> ?S" "fst ` set xs \<subseteq> ?S" using tiles_first [OF tl(7)] by (auto simp: starts_def)
  have fl: "flagged (p + t) m = m" by (rule flagged_same) (use tag(1) [OF S(1)] tag_behind [OF tl(7) h(2,4,3)] in simp)
  have "tagged m True xs" by (rule tagged_below [OF tl(1) h(1) S(5,3)]) (use tag in auto)
  moreover have "tagged m True ys" by (rule tagged_above [OF tl(7) h(2) S(2)]) (use tag in auto)
  moreover have "fld Size m (m_hTop s) = 1" using tag(1) [OF S(4)] h(4) by simp
  moreover have "free_blks ?L - {(q, n)} = free_blks xs \<union> free_blks ys" using free_blks_taken [OF okD(1)] by simp
  ultimately have "hole (s\<lparr>chunks := m, bins := b'\<rparr>) xs q (n + t) ys B'"
    using ok m(2) h(3) tl fl unfolding hole_def bm_ok_def by (simp add: tiles_middle add.assoc)
  moreover have "keeps (xs @ (p, t, True) # ys) (chunks s) m" by (rule keeps_subset [OF keeps_links [OF okD(1) m(4)]]) auto
  ultimately show thesis using that [OF m(1)] tag(2) [OF S(3)] by (simp add: same_head_def)
qed

lemma hole_write:
  assumes h: "hole s xs p N ys B" and m: "\<And>x. x < p + 8 \<or> p + N \<le> x \<Longrightarrow> m x = chunks s x"
  shows "hole (s\<lparr>chunks := m\<rparr>) xs p N ys B"
proof -
  have tl: "tiles (m_hBottom s) xs p" "24 \<le> N" "tiles (p + N) ys (m_hTop s)" and T: "tiles (m_hBottom s) (xs @ (p, N, True) # ys) (m_hTop s)"
    using h by (auto simp: hole_def tiles_middle)
  let ?S = "starts (xs @ (p, N, True) # ys) (m_hTop s)"
  have re: "reach s ?S" by (rule hole_reach [OF h T])
  have S: "p + N \<in> ?S" "fst ` set xs \<subseteq> ?S" "starts ys (m_hTop s) \<subseteq> ?S" using tiles_first [OF tl(3)] by auto
  have below: "a + 24 \<le> p" if "a \<in> fst ` set xs" for a using tiles_start_less [OF tl(1) that] by simp
  have above: "p + N \<le> a" if "a \<in> starts ys (m_hTop s)" for a using starts_less [OF tl(3) that] by simp
  have f: "fld g m a = fld g (chunks s) a" if "a + 24 \<le> p \<or> p + N \<le> a \<or> a = p \<and> g = PreSize" for g a
    by (rule fld_unchanged, rule m) (use that field_end [of g] in auto)
  have fl: "fld g (flagged (p + N) m) a = fld g (flagged (p + N) (chunks s)) a" if "a \<in> starts ys (m_hTop s)" for g a
    using fld_flagged [OF re S(1), of a g m] fld_flagged [OF re S(1), of a g "chunks s"] that S(3) f above [OF that] by auto
  have "tagged m True xs"
    by (rule tagged_below [OF tl(1), of "chunks s" True "insert p (fst ` set xs)"]) (use h f below in \<open>auto simp: hole_def\<close>)
  moreover have "tagged (flagged (p + N) m) True ys"
    by (rule tagged_above [OF tl(3), of "flagged (p + N) (chunks s)"]) (use h fl in \<open>auto simp: hole_def\<close>)
  moreover have "fld Size (flagged (p + N) m) (m_hTop s) = 1" using fl [of "m_hTop s" Size] h by (simp add: hole_def starts_def)
  moreover have "binned (s\<lparr>chunks := m\<rparr>) (free_blks xs \<union> free_blks ys) B"
  proof (rule binned_links [of _ _ _ "fst ` set xs \<union> starts ys (m_hTop s)"])
    show "fst ` (free_blks xs \<union> free_blks ys) \<subseteq> fst ` set xs \<union> starts ys (m_hTop s)" using fst_free_blks [of xs] fst_free_blks [of ys] by (auto simp: starts_def)
  qed (use h f below above in \<open>auto simp: hole_def\<close>)
  ultimately show ?thesis using h by (simp add: hole_def)
qed

section \<open>The five ways\<close>

text \<open>The chunk of an owner is replaced by one with at least the bytes asked for, which begins with
  the bytes of the old one.\<close>

definition resized :: "nat \<Rightarrow> nat \<Rightarrow> nat \<Rightarrow> blk list \<Rightarrow> memory \<Rightarrow> nat \<Rightarrow> memory \<Rightarrow> blk list \<Rightarrow> bool" where
  "resized req p t L m h m' L' \<longleftrightarrow> 8 \<le> h \<and> (h = p + 8 \<or> owned L h = None) \<and> length (used_blks L') = length (used_blks L) \<and>
     (\<exists>k. (h - 8, k, True) \<in> set L' \<and> req + 4 \<le> k \<and> owned L' = ((owned L)(p + 8 := None))(h \<mapsto> k - 4) \<and> used_sum L' + t = used_sum L + k) \<and>
     (\<forall>i. i < req \<and> i < t - 4 \<longrightarrow> m' (h + i) = m (p + 8 + i))"

lemma resizedI:
  assumes "tiles lo (xs @ (p, t, True) # ys) hi" "tiles lo' L' hi'" "used_blks L' = used_blks xs @ (q, k, True) # used_blks ys" "req + 4 \<le> k"
    and bytes: "\<And>i. i < req \<Longrightarrow> i < t - 4 \<Longrightarrow> m' (q + 8 + i) = m (p + 8 + i)"
  shows "resized req p t (xs @ (p, t, True) # ys) m (q + 8) m' L'"
proof -
  let ?L = "xs @ (p, t, True) # ys"
  have u: "used_blks (xs @ ys) = used_blks xs @ used_blks ys" "used_blks ?L = used_blks xs @ (p, t, True) # used_blks ys" by simp_all
  note o = one_more [OF assms(1) u] and n = one_more [OF assms(2) u(1) assms(3)]
  have "(q, k, True) \<in> set L'" using arg_cong [OF assms(3), of set] by (auto simp: used_blks_def)
  moreover have "q + 8 = p + 8 \<or> owned ?L (q + 8) = None" using o(3) n(1) by (metis fun_upd_apply)
  moreover have "owned L' = ((owned ?L)(p + 8 := None))(q + 8 \<mapsto> k - 4)" using n(2) unfolding o(3) .
  moreover have "used_sum L' + t = used_sum ?L + k" "length (used_blks L') = length (used_blks ?L)" using o(4,5) n(4,5) by simp_all
  ultimately show ?thesis unfolding resized_def using assms(4) bytes by (intro conjI exI [of _ k]) (simp_all del: One_nat_def)
qed

lemma kept_bytes: "keeps L m m' \<Longrightarrow> (p, t, True) \<in> set L \<Longrightarrow> i < t - 4 \<Longrightarrow> m' (p + 8 + i) = m (p + 8 + i)"
  by (auto simp: keeps_def)

lemma shrink_ok:
  assumes ok: "bm_ok s (xs @ (p, t, True) # ys) B" and T: "24 \<le> T" "8 dvd T" "T \<le> t" "req + 4 \<le> T" and least: "24 \<le> get_min_chunk_size s"
  obtains s' L' B' where "re_finish p t T (lastu True xs) (fld PreSize (chunks s) p) s = Some (p + 8, s')" "bm_ok s' L' B'" "same_acct s s'"
    "keeps (xs @ ys) (chunks s) (chunks s')" "resized req p t (xs @ (p, t, True) # ys) (chunks s) (p + 8) (chunks s') L'"
proof -
  obtain s' L' B' k where r: "re_finish p t T (lastu True xs) (fld PreSize (chunks s) p) s = Some (p + 8, s')" "bm_ok s' L' B'"
    "used_blks L' = used_blks xs @ (p, k, True) # used_blks ys" "T \<le> k" "same_acct s s'" "keeps (xs @ ys) (chunks s) (chunks s')"
    "\<And>x. p + 8 \<le> x \<Longrightarrow> x < p + T + 4 \<Longrightarrow> chunks s' x = chunks s x" using re_finish_ok [OF hole_used [OF ok] T(1-3) least] by blast
  have "resized req p t (xs @ (p, t, True) # ys) (chunks s) (p + 8) (chunks s') L'"
    by (rule resizedI [OF bm_okD(1) [OF ok] bm_okD(1) [OF r(2)] r(3)]) (use r(4,7) T(4) in auto)
  then show thesis by (rule that [OF r(1,2,5,6)])
qed

lemma grow_next_ok:
  assumes ok: "bm_ok s (xs @ (p, t, True) # (a, n, False) # ys) B" and T: "24 \<le> T" "8 dvd T" "t < T" "T \<le> t + n" "req + 4 \<le> T"
    and least: "24 \<le> get_min_chunk_size s"
  obtains s' L' B' where "grow_next p t n T (lastu True xs) (fld PreSize (chunks s) p) s = Some (p + 8, s')" "bm_ok s' L' B'" "same_acct s s'"
    "keeps (xs @ ys) (chunks s) (chunks s')" "resized req p t (xs @ (p, t, True) # (a, n, False) # ys) (chunks s) (p + 8) (chunks s') L'"
proof -
  let ?L = "xs @ (p, t, True) # (a, n, False) # ys"
  have ok': "bm_ok s ((xs @ [(p, t, True)]) @ (a, n, False) # ys) B" using ok by simp
  have a: "a = p + t" "24 \<le> t" "ptr_to_handle a s = a" using bm_okD(1) [OF ok] ok_size [OF ok'] by (auto simp: tiles_middle ptr_to_handle_def)
  obtain s1 B1 where u: "unlink_bin (Bin (bin_index n)) a s = Some (0, s1)" "hole s1 xs p (t + n) ys B1" "same_head s s1"
    "keeps (xs @ (p, t, True) # ys) (chunks s) (chunks s1)" "fld PreSize (chunks s1) p = fld PreSize (chunks s) p" by (rule hole_next [OF ok])
  have l1: "24 \<le> get_min_chunk_size s1" using least same_head_min [OF u(3)] by simp
  obtain s' L' B' k where r: "re_finish p (t + n) T (lastu True xs) (fld PreSize (chunks s1) p) s1 = Some (p + 8, s')" "bm_ok s' L' B'"
    "used_blks L' = used_blks xs @ (p, k, True) # used_blks ys" "T \<le> k" "same_acct s1 s'" "keeps (xs @ ys) (chunks s1) (chunks s')"
    "\<And>x. p + 8 \<le> x \<Longrightarrow> x < p + T + 4 \<Longrightarrow> chunks s' x = chunks s1 x" using re_finish_ok [OF u(2) T(1,2,4) l1] by blast
  have G: "grow_next p t n T (lastu True xs) (fld PreSize (chunks s) p) s = Some (p + 8, s')" using u(1,5) r(1) a by (simp add: grow_next_def)
  have "resized req p t ?L (chunks s) (p + 8) (chunks s') L'"
  proof (rule resizedI [OF bm_okD(1) [OF ok] bm_okD(1) [OF r(2)]])
    show "used_blks L' = used_blks xs @ (p, k, True) # used_blks ((a, n, False) # ys)" using r(3) by simp
    fix i assume "i < req" "i < t - 4"
    then show "chunks s' (p + 8 + i) = chunks s (p + 8 + i)" using r(7) [of "p + 8 + i"] kept_bytes [OF u(4), of p t i] T(3) by auto
  qed (use r(4) T(5) in simp)
  moreover have "keeps (xs @ ys) (chunks s) (chunks s')" by (rule keeps_trans [OF keeps_subset [OF u(4)] r(6)]) auto
  ultimately show thesis using that [OF G r(2)] same_acct_trans [OF same_head_acct [OF u(3)] r(5)] by blast
qed

lemma memsize_eq: "24 \<le> t \<Longrightarrow> t \<le> MAX_ALLOC_SIZE \<Longrightarrow> chunksize2memsize t = t - 4"
proof -
  assume t: "24 \<le> t" "t \<le> MAX_ALLOC_SIZE"
  then have "t + (2 ^ 32 - 4) = (t - 4) + 2 ^ 32" "t - 4 < 2 ^ 32" by (simp_all add: MAX_ALLOC_SIZE_def)
  then show ?thesis unfolding chunksize2memsize_def u32_of_def by (metis mod_add_self2 mod_less)
qed

lemma grow_prev_ok:
  assumes ok: "bm_ok s (xs @ (q, n, False) # (p, t, True) # ys) B" and T: "24 \<le> T" "8 dvd T" "t < T" "T \<le> t + n" "req + 4 \<le> T"
    and least: "24 \<le> get_min_chunk_size s"
  obtains s' L' B' where "grow_prev p t n T s = Some (q + 8, s')" "bm_ok s' L' B'" "same_acct s s'"
    "keeps (xs @ ys) (chunks s) (chunks s')" "resized req p t (xs @ (q, n, False) # (p, t, True) # ys) (chunks s) (q + 8) (chunks s') L'"
proof -
  let ?L = "xs @ (q, n, False) # (p, t, True) # ys"
  note okD = bm_okD [OF ok] and sq = ok_size [OF ok]
  have ok': "bm_ok s ((xs @ [(q, n, False)]) @ (p, t, True) # ys) B" using ok by simp
  note sp = ok_size [OF ok']
  have p: "p = q + n" using okD(1) by (simp add: tiles_middle)
  have g: "get_fld f q s = Some (fld f (chunks s) q)" for f by (rule get_fld_reach [OF okD(4)]) simp
  have "fld Size (chunks s) q = n + of_bool (lastu True xs)" using okD(2) by (simp add: headers_middle)
  then have pu: "prev_inuse q s = Some (lastu True xs)" using g dvd_8_even [OF sq(3)] by (simp add: prev_inuse_def)
  obtain s1 B1 where u: "unlink_bin (Bin (bin_index n)) q s = Some (0, s1)" "hole s1 xs q (n + t) ys B1" "same_head s s1"
    "keeps (xs @ (p, t, True) # ys) (chunks s) (chunks s1)" "fld PreSize (chunks s1) q = fld PreSize (chunks s) q" by (rule hole_prev [OF ok])
  have t1: "m_tSize s1 = m_tSize s" using same_headD [OF u(3)] by simp
  define m where "m = (\<lambda>x. if q + 8 \<le> x \<and> x < q + 8 + (t - 4) then chunks s1 (p + 8 + (x - (q + 8))) else chunks s1 x)"
  have cp: "copy_bytes (chunk2mem q) (chunk2mem p) (chunksize2memsize t) s1 = Some (s1\<lparr>chunks := m\<rparr>)"
    using memsize_eq [OF sp(2,6)] sp(2,7) p t1 by (simp add: copy_bytes_def chunk2mem_def m_def cong: if_cong)
  have h2: "hole (s1\<lparr>chunks := m\<rparr>) xs q (n + t) ys B1" by (rule hole_write [OF u(2)]) (use sq(2) in \<open>auto simp: m_def\<close>)
  have pre: "fld PreSize m q = fld PreSize (chunks s) q" unfolding u(5) [symmetric] by (rule fld_unchanged) (simp add: m_def)
  define s2 where "s2 = s1\<lparr>chunks := m\<rparr>"
  have c2: "chunks s2 = m" "get_min_chunk_size s2 = get_min_chunk_size s1" by (simp_all add: s2_def get_min_chunk_size_def)
  then have l1: "24 \<le> get_min_chunk_size s2" using least same_head_min [OF u(3)] by simp
  have Tn: "T \<le> n + t" using T(4) by simp
  obtain s' L' B' k where r: "re_finish q (n + t) T (lastu True xs) (fld PreSize (chunks s2) q) s2 = Some (q + 8, s')" "bm_ok s' L' B'"
    "used_blks L' = used_blks xs @ (q, k, True) # used_blks ys" "T \<le> k" "same_acct s2 s'" "keeps (xs @ ys) (chunks s2) (chunks s')"
    "\<And>x. q + 8 \<le> x \<Longrightarrow> x < q + T + 4 \<Longrightarrow> chunks s' x = chunks s2 x" using re_finish_ok [OF h2 [folded s2_def] T(1,2) Tn l1] by blast
  have G: "grow_prev p t n T s = Some (q + 8, s')"
    using g pu u(1) cp r(1) pre p c2 by (simp add: grow_prev_def ptr_minus_def s2_def [symmetric] add.commute)
  have "resized req p t ((xs @ [(q, n, False)]) @ (p, t, True) # ys) (chunks s) (q + 8) (chunks s') L'"
  proof (rule resizedI [OF bm_okD(1) [OF ok'] bm_okD(1) [OF r(2)]])
    show "used_blks L' = used_blks (xs @ [(q, n, False)]) @ (q, k, True) # used_blks ys" using r(3) by simp
    fix i assume i: "i < req" "i < t - 4"
    then have "chunks s' (q + 8 + i) = m (q + 8 + i)" using r(7) T(3) c2 by simp
    then show "chunks s' (q + 8 + i) = chunks s (p + 8 + i)" using kept_bytes [OF u(4), of p t i] i by (auto simp: m_def)
  qed (use r(4) T(5) in simp)
  then have R: "resized req p t ?L (chunks s) (q + 8) (chunks s') L'" by simp
  have "keeps (xs @ ys) (chunks s1) m"
  proof -
    have "agree {q + 8..<q + (n + t)} (chunks s1) m" using sq(2) by (auto simp: agree_def m_def)
    moreover have "tiles (m_hBottom s) (xs @ (q, n + t, True) # ys) (m_hTop s)" using u(2) same_headD [OF u(3)] by (simp add: hole_def)
    ultimately show ?thesis by (intro keeps_agree) (auto dest!: tiles_others)
  qed
  then have "keeps (xs @ ys) (chunks s) (chunks s')" using keeps_trans [OF keeps_trans [OF keeps_subset [OF u(4)]] r(6) [unfolded c2]] by auto
  moreover have "same_acct s s'" using r(5) same_head_acct [OF u(3)] by (simp add: same_acct_def s2_def)
  ultimately show thesis using that [OF G r(2)] R by blast
qed

lemma grow_top_ok:
  assumes ok: "bm_ok s (xs @ [(p, t, True)]) B" and T: "24 \<le> T" "8 dvd T" "t < T" "req + 4 \<le> T" and room: "m_hTop s + (T - t) + 24 < m_tSize s"
  obtains s' L' where "grow_top p t T s = Some (p + 8, s')" "bm_ok s' L' B" "same_acct s s'"
    "keeps xs (chunks s) (chunks s')" "resized req p t (xs @ [(p, t, True)]) (chunks s) (p + 8) (chunks s') L'"
proof -
  let ?L = "xs @ [(p, t, True)]" and ?L' = "xs @ [(p, T, True)]" and ?e = "p + T" and ?u = "lastu True xs"
  let ?S' = "starts ?L' ?e"
  note okD = bm_okD [OF ok] and sz = ok_size [OF ok]
  have tp: "m_hTop s = p + t" "tiles (m_hBottom s) xs p" using okD(1) by (auto simp: tiles_middle)
  have h: "tagged (chunks s) True xs" "fld Size (chunks s) p = t + of_bool ?u" using okD(2) by (simp_all add: headers_middle)
  have e: "m_hTop s + (T - t) = ?e" "m_hTop s + T - t = ?e" using tp T(3) by simp_all
  have T': "tiles (m_hBottom s) ?L' ?e" using tp T by (simp add: tiles_append)
  have re: "reach s ?S'"
  proof -
    have "0 < a \<and> a + 24 \<le> m_tSize s" if "a \<in> ?S'" for a using starts_less [OF T' that] ok room e by (auto simp: bm_ok_def)
    then show ?thesis using starts_spaced [OF T'] okD(8) by (simp add: reach_def)
  qed
  have S: "p \<in> ?S'" "?e \<in> ?S'" "fst ` set xs \<subseteq> ?S'" by auto
  define m1 where "m1 = set_fld Size p (T + of_bool ?u) (chunks s)"
  define m2 where "m2 = set_fld PreSize ?e T m1"
  define m3 where "m3 = set_fld Size ?e 1 m2"
  have ft: "fits Size (T + of_bool ?u)" "fits PreSize T" "fits Size 1" using room okD(8) e by (auto simp: fits_iff MAX_ALLOC_SIZE_def)
  have f: "fld g m3 a = (if g = Size \<and> a = ?e then 1 else if g = PreSize \<and> a = ?e then T else if g = Size \<and> a = p then T + of_bool ?u else fld g (chunks s) a)"
    if "a \<in> ?S'" for g a
    unfolding m3_def m2_def m1_def fld_put_reach [OF re S(2) that ft(3)] fld_put_reach [OF re S(2) that ft(2)] fld_put_reach [OF re S(1) that ft(1)] by simp
  define s' where "s' = s\<lparr>chunks := m3, m_hTop := ?e, statMemoryTop := int ?e\<rparr>"
  have wr: "put_fld f a w (s\<lparr>chunks := m\<rparr>) = Some (s\<lparr>chunks := set_fld f a w m\<rparr>)" if "a \<in> ?S'" for f a w m
    using put_fld_reach [OF reach_cong [OF re] that, of "s\<lparr>chunks := m\<rparr>"] by simp
  have A: "grow_top p t T s = Some (p + 8, s')"
    using room get_fld_reach [OF re S(1)] put_fld_reach [OF re S(1)] wr [OF S(2)] h(2) REAL_SIZE_aligned(1) [OF T(2)] aligned_mod [OF sz(3)] T(1) e sz
    by (simp add: grow_top_def handle_to_ptr_def chunk2mem_def s'_def m3_def m2_def m1_def Let_def ptr_to_handle_def del: of_nat_add of_nat_diff add_diff_assoc)
  have "tagged m3 True xs" by (rule tagged_below [OF tp(2) h(1) S(3,1)]) (use f T in auto)
  then have "headers m3 ?L' ?e" using f S h T by (simp add: headers_middle)
  moreover have "binned (s\<lparr>chunks := m3\<rparr>) (free_blks ?L') B"
    by (rule binned_links [of s _ _ ?S']) (use okD(3) fst_free_blks [of xs] f in auto)
  then have "binned s' (free_blks ?L') B" by (rule binned_cong) (simp_all add: s'_def)
  ultimately have K: "bm_ok s' ?L' B" using ok T' room e by (simp add: bm_ok_def s'_def)
  have ag: "agree ({p + 4..<p + 8} \<union> {?e..<?e + 8}) (chunks s) m3" (is "agree ?R _ _")
  proof -
    have "agree ?R (chunks s) m1" "agree ?R m1 m2" "agree ?R m2 m3"
      unfolding m1_def m2_def m3_def by (rule agree_mono [OF agree_set_fld]; auto)+
    then show ?thesis by (meson agree_same)
  qed
  then have "keeps xs (chunks s) m3" by (rule keeps_mark [OF _ T(1)]) (use tiles_bounds(2) [OF tp(2)] in blast)
  moreover have "t + 8 \<le> T" using T(2,3) sz(3) by (auto elim!: dvdE)
  then have "resized req p t ?L (chunks s) (p + 8) m3 ?L'"
    by (intro resizedI [OF okD(1) bm_okD(1) [OF K]]) (use ag T(4) in \<open>auto simp: agree_def\<close>)
  ultimately show thesis using that [OF A K] by (simp add: same_acct_def s'_def)
qed

lemma request2size_least:
  assumes "24 \<le> k" "8 dvd k" "req + 4 \<le> k"
  shows "request2size req \<le> k"
proof -
  obtain j where j: "k = 8 * j" using assms(2) by (auto elim: dvdE)
  have "(req + 11) div 8 \<le> (8 * j + 7) div 8" by (rule div_le_mono) (use assms(3) j in simp)
  also have "(8 * j + 7) div 8 = j" by simp
  finally show ?thesis using assms(1) j by (simp add: request2size_def add.commute)
qed

text \<open>An allocation elsewhere: the new chunk is filled with the bytes of the old one, which is
  released. Without space the owner keeps what it has.\<close>

lemma grow_elsewhere_ok:
  assumes ok: "bm_ok s (xs @ (p, t, True) # ys) B" and T: "t < request2size req" "\<not> REQUEST_OUT_OF_RANGE req" and least: "24 \<le> get_min_chunk_size s"
  obtains h s' L' B' where "grow_elsewhere p t req s = Some (h, s')" "bm_ok s' L' B'" "same_acct s s'"
    "keeps (xs @ ys) (chunks s) (chunks s')"
    "h = 0 \<Longrightarrow> no_space req s (xs @ (p, t, True) # ys) \<and> used_blks L' = used_blks (xs @ (p, t, True) # ys) \<and> keeps (xs @ (p, t, True) # ys) (chunks s) (chunks s')"
    "h \<noteq> 0 \<Longrightarrow> resized req p t (xs @ (p, t, True) # ys) (chunks s) h (chunks s') L'"
proof -
  let ?L = "xs @ (p, t, True) # ys"
  note sp = ok_size [OF ok]
  obtain h s1 L1 B1 where m: "inter_malloc req s = Some (h, s1)" "bm_ok s1 L1 B1" "same_acct s s1" "keeps ?L (chunks s) (chunks s1)"
    "h = 0 \<Longrightarrow> no_space req s ?L \<and> used_blks L1 = used_blks ?L" "h \<noteq> 0 \<Longrightarrow> 8 \<le> h \<and> allocated req (h - 8) (used_blks ?L) (used_blks L1)"
    using inter_malloc_ok [OF ok least, of req] by blast
  show thesis
  proof (cases "h = 0")
    case True
    have "keeps (xs @ ys) (chunks s) (chunks s1)" by (rule keeps_subset [OF m(4)]) auto
    then show thesis using that [of 0 s1 L1 B1] m True by (simp add: grow_elsewhere_def)
  next
    case False
    then obtain a where h: "h = a + 8" and "allocated req a (used_blks ?L) (used_blks L1)" using m(6) by (metis le_add_diff_inverse2)
    then obtain us vs k where u: "used_blks ?L = us @ vs" "used_blks L1 = us @ (a, k, True) # vs" "req + 4 \<le> k" by (auto simp: allocated_def)
    note one = one_more [OF bm_okD(1) [OF m(2)] u(1,2)]
    have own: "owned L1 (a + 8) = Some (k - 4)" using one(2) by simp
    have "owned ?L (p + 8) = Some (t - 4)" using owned_iff [OF bm_okD(1) [OF ok]] by auto
    then have ownp: "owned L1 (p + 8) = Some (t - 4)" and ap: "a \<noteq> p" using one(1,2) by auto
    note da = owned_disjoint [OF m(2) own ownp] and dp = owned_disjoint [OF m(2) ownp ownp]
    obtain xs' q n ys' where q: "L1 = xs' @ (q, n, True) # ys'" "p + 8 = q + 8" "t - 4 = n - 4" by (rule owned_chunk [OF m(2) ownp])
    have "24 \<le> n" using ok_size [OF m(2) [unfolded q(1)]] by simp
    then have L1: "L1 = xs' @ (p, t, True) # ys'" using q sp(2) by auto
    have used: "x \<in> set (xs' @ ys')" if "x \<in> set (used_blks L1)" "fst x \<noteq> p" for x using that L1 by (auto simp: used_blks_def)
    have aL: "(a, k, True) \<in> set (used_blks L1)" using u(2) by simp
    have old: "(b, j, True) \<in> set (xs' @ ys') \<and> owned L1 (b + 8) = Some (j - 4) \<and> b \<noteq> a" if b: "(b, j, True) \<in> set (xs @ ys)" for b j
    proof -
      have "(b, j, True) \<in> set (used_blks ?L)" "b \<noteq> p" using b tiles_once [OF bm_okD(1) [OF ok]] by (auto simp: used_blks_def image_iff)
      moreover have "set (used_blks ?L) \<subseteq> set (used_blks L1)" unfolding u(1,2) by auto
      moreover from calculation have "owned ?L (b + 8) = Some (j - 4)" using owned_iff [OF bm_okD(1) [OF ok]] by (auto simp: used_blks_def)
      ultimately show ?thesis using one(1,2) used [of "(b, j, True)"] by auto
    qed
    have "24 \<le> k" "8 dvd k" using aL tiles_bounds [OF bm_okD(1) [OF m(2)], of a k True] by (auto simp: used_blks_def)
    then have tk: "t \<le> k" using request2size_least [OF _ _ u(3)] T(1) by simp
    define m2 where "m2 = (\<lambda>x. if a + 8 \<le> x \<and> x < a + 8 + (t - 4) then chunks s1 (p + 8 + (x - (a + 8))) else chunks s1 x)"
    define s2 where "s2 = s1\<lparr>chunks := m2\<rparr>"
    have c2: "chunks s2 = m2" "same_acct s s2" "m_tSize s2 = m_tSize s1" using m(3) by (simp_all add: s2_def same_acct_def)
    have cp: "copy_bytes (chunk2mem a) (chunk2mem p) (chunksize2memsize t) s1 = Some s2"
      using memsize_eq [OF sp(2,6)] da(2) dp(2) tk by (simp add: copy_bytes_def chunk2mem_def m2_def s2_def)
    have ok2: "bm_ok s2 L1 B1" unfolding s2_def
    proof (rule user_writes_ok [OF m(2)])
      fix x assume "m2 x \<noteq> chunks s1 x"
      then show "\<exists>h k. owned L1 h = Some k \<and> h \<le> x \<and> x < h + k"
        using own tk by (intro exI [of _ "a + 8"] exI [of _ "k - 4"]) (auto simp: m2_def split: if_splits)
    qed
    obtain s3 L3 B3 where f: "inter_free (p + 8) s2 = Some (0, t, s3)" "bm_ok s3 L3 B3" "used_blks L3 = used_blks xs' @ used_blks ys'"
      "same_acct s2 s3" "keeps (xs' @ ys') (chunks s2) (chunks s3)" by (rule inter_free_ok [OF ok2 [unfolded L1]])
    have G: "grow_elsewhere p t req s = Some (h, s3)"
      using m(1) False h cp f(1) da(2) tk sp(2) by (simp add: grow_elsewhere_def mem2chunk_def ptr_to_handle_def)
    have "used_blks L1 = used_blks xs' @ (p, t, True) # used_blks ys'" by (simp add: L1)
    note two = one_more [OF bm_okD(1) [OF m(2)] f(3) this]
    have aL3: "(a, k, True) \<in> set (xs' @ ys')" using used [OF aL] ap by simp
    then have "(a, k, True) \<in> set (used_blks L3)" using f(3) by (auto simp: used_blks_def)
    then have aL3': "(a, k, True) \<in> set L3" by (simp add: used_blks_def)
    have "chunks s3 (a + 8 + i) = chunks s (p + 8 + i)" if "i < t - 4" for i
      using kept_bytes [OF f(5) aL3, of i] kept_bytes [OF m(4), of p t i] that tk by (auto simp: c2 m2_def)
    moreover have "owned L3 = ((owned ?L)(p + 8 := None))(a + 8 \<mapsto> k - 4)" unfolding two(3) one(2) using ap by (simp add: fun_upd_twist)
    moreover have "used_sum L3 + t = used_sum ?L + k" "length (used_blks L3) = length (used_blks ?L)" using one(4,5) two(4,5) by simp_all
    ultimately have R: "resized req p t ?L (chunks s) h (chunks s3) L3"
      unfolding resized_def h using one(1) aL3' u(3) by (intro conjI exI [of _ k]) (simp_all del: One_nat_def)
    have "keeps (xs @ ys) (chunks s1) m2" unfolding keeps_def
    proof (intro allI impI)
      fix b j x assume b: "(b, j, True) \<in> set (xs @ ys)" "b + 8 \<le> x" "x < b + j + 4"
      have o: "owned L1 (b + 8) = Some (j - 4)" "b \<noteq> a" using old [OF b(1)] by auto
      show "m2 x = chunks s1 x" using owned_disjoint(3,4) [OF m(2) o(1) own] o(2) b tk by (auto simp: m2_def)
    qed
    moreover have "keeps (xs @ ys) m2 (chunks s3)" using f(5) old unfolding keeps_def c2(1) by blast
    moreover have "keeps (xs @ ys) (chunks s) (chunks s1)" by (rule keeps_subset [OF m(4)]) auto
    ultimately have "keeps (xs @ ys) (chunks s) (chunks s3)" by (blast intro: keeps_trans)
    then show thesis using that [OF G f(2)] same_acct_trans [OF c2(2) f(4)] R False by blast
  qed
qed

text \<open>The outcome all ways have in common.\<close>

definition resize_post :: "nat \<Rightarrow> nat \<Rightarrow> nat \<Rightarrow> blk list \<Rightarrow> blk list \<Rightarrow> bin_malloc \<Rightarrow> (nat \<times> bin_malloc) option \<Rightarrow> bool" where
  "resize_post req p t xs ys s r \<longleftrightarrow> (\<exists>h s' L' B'. r = Some (h, s') \<and> bm_ok s' L' B' \<and> same_acct s s' \<and> keeps (xs @ ys) (chunks s) (chunks s') \<and>
     (if h = 0 then no_space req s (xs @ (p, t, True) # ys) \<and> used_blks L' = used_blks (xs @ (p, t, True) # ys) \<and> keeps (xs @ (p, t, True) # ys) (chunks s) (chunks s')
      else resized req p t (xs @ (p, t, True) # ys) (chunks s) h (chunks s') L'))"

lemma resize_postI:
  assumes "r = Some (q + 8, s')" "bm_ok s' L' B'" "same_acct s s'" "keeps (xs @ ys) (chunks s) (chunks s')"
    "resized req p t (xs @ (p, t, True) # ys) (chunks s) (q + 8) (chunks s') L'"
  shows "resize_post req p t xs ys s r"
  unfolding resize_post_def using assms by (intro exI [of _ "q + 8"] exI [of _ s'] exI [of _ L'] exI [of _ B']) simp

lemma pre_fields:
  assumes ok: "bm_ok s (xs @ (p, t, True) # ys) B"
  shows "prev_inuse p s = Some (lastu True xs)" "get_fld PreSize p s = Some (fld PreSize (chunks s) p)"
proof -
  have g: "get_fld f p s = Some (fld f (chunks s) p)" for f by (rule get_fld_reach [OF bm_okD(4) [OF ok]]) simp
  have "fld Size (chunks s) p = t + of_bool (lastu True xs)" using bm_okD(2) [OF ok] by (simp add: headers_middle)
  then show "prev_inuse p s = Some (lastu True xs)" "get_fld PreSize p s = Some (fld PreSize (chunks s) p)"
    using g dvd_8_even [OF ok_size(3) [OF ok]] by (simp_all add: prev_inuse_def)
qed

lemma grow_down_or_away:
  assumes ok: "bm_ok s (xs @ (p, t, True) # ys) B" and T: "t < request2size req" "\<not> REQUEST_OUT_OF_RANGE req" and least: "24 \<le> get_min_chunk_size s"
  shows "resize_post req p t xs ys s
    (if \<not> lastu True xs \<and> u32_of (t + fld PreSize (chunks s) p) \<ge> request2size req
     then grow_prev p t (fld PreSize (chunks s) p) (request2size req) s else grow_elsewhere p t req s)"
proof (cases "\<not> lastu True xs \<and> u32_of (t + fld PreSize (chunks s) p) \<ge> request2size req")
  case True
  note r = request2size_ok [OF T(2)]
  obtain zs q n where xs: "xs = zs @ [(q, n, False)]" using True by (cases xs rule: rev_cases) auto
  have ok': "bm_ok s (zs @ (q, n, False) # (p, t, True) # ys) B" using ok xs by simp
  have p: "p = q + n" "fld PreSize (chunks s) p = n" using bm_okD(1,2) [OF ok'] by (auto simp: tiles_middle headers_middle)
  have "u32_of (t + n) \<le> t + n" by (simp add: u32_of_def)
  then have "request2size req \<le> t + n" using True p(2) by simp
  then obtain s' L' B' where g: "grow_prev p t n (request2size req) s = Some (q + 8, s')" "bm_ok s' L' B'" "same_acct s s'"
    "keeps (zs @ ys) (chunks s) (chunks s')" "resized req p t (zs @ (q, n, False) # (p, t, True) # ys) (chunks s) (q + 8) (chunks s') L'"
    using grow_prev_ok [OF ok' r(1,2) T(1) _ r(3) least] by blast
  have "keeps (xs @ ys) (chunks s) (chunks s')" using g(4) by (auto simp: xs keeps_def)
  then show ?thesis using True g p(2) by (intro resize_postI) (simp_all add: xs)
next
  case False
  obtain h s' L' B' where g: "grow_elsewhere p t req s = Some (h, s')" "bm_ok s' L' B'" "same_acct s s'" "keeps (xs @ ys) (chunks s) (chunks s')"
    "h = 0 \<Longrightarrow> no_space req s (xs @ (p, t, True) # ys) \<and> used_blks L' = used_blks (xs @ (p, t, True) # ys) \<and> keeps (xs @ (p, t, True) # ys) (chunks s) (chunks s')"
    "h \<noteq> 0 \<Longrightarrow> resized req p t (xs @ (p, t, True) # ys) (chunks s) h (chunks s') L'"
    using grow_elsewhere_ok [OF ok T least] by blast
  show ?thesis unfolding if_not_P [OF False] resize_post_def
    using g by (intro exI [of _ h] exI [of _ s'] exI [of _ L'] exI [of _ B']) (simp del: used_blks_simps)
qed

lemma resize_ok:
  assumes ok: "bm_ok s (xs @ (p, t, True) # ys) B" and req: "\<not> REQUEST_OUT_OF_RANGE req" and least: "24 \<le> get_min_chunk_size s"
  shows "resize_post req p t xs ys s (resize p t (request2size req) req s)"
proof -
  let ?T = "request2size req" and ?pre = "fld PreSize (chunks s) p"
  note r = request2size_ok [OF req] and pf = pre_fields [OF ok] and away = grow_down_or_away [OF ok _ req least]
  consider "?T \<le> t" | "t < ?T" "ys = []" | a n u zs where "t < ?T" "ys = (a, n, u) # zs" by (cases ys) force+
  then show ?thesis
  proof cases
    case 1
    obtain s' L' B' where g: "re_finish p t ?T (lastu True xs) ?pre s = Some (p + 8, s')" "bm_ok s' L' B'" "same_acct s s'"
      "keeps (xs @ ys) (chunks s) (chunks s')" "resized req p t (xs @ (p, t, True) # ys) (chunks s) (p + 8) (chunks s') L'"
      using shrink_ok [OF ok r(1,2) 1 r(3) least] by blast
    then show ?thesis using 1 pf by (intro resize_postI) (simp_all add: resize_def)
  next
    case 2
    then have top: "AT_TOP p t s" using bm_okD(1) [OF ok] by (auto simp: AT_TOP_def tiles_middle)
    show ?thesis
    proof (cases "m_hTop s + (?T - t) + 24 < m_tSize s")
      case True
      obtain s' L' where g: "grow_top p t ?T s = Some (p + 8, s')" "bm_ok s' L' B" "same_acct s s'"
        "keeps xs (chunks s) (chunks s')" "resized req p t (xs @ [(p, t, True)]) (chunks s) (p + 8) (chunks s') L'"
        using grow_top_ok [OF ok [unfolded 2(2)] r(1,2) 2(1) r(3) True] by blast
      then show ?thesis using 2 pf top True by (intro resize_postI) (simp_all add: resize_def)
    next
      case False
      have "resize p t ?T req s = (if \<not> lastu True xs \<and> u32_of (t + ?pre) \<ge> ?T then grow_prev p t ?pre ?T s else grow_elsewhere p t req s)"
        using 2(1) pf top False by (simp add: resize_def)
      then show ?thesis using away 2(1) by simp
    qed
  next
    case 3
    have ok': "bm_ok s ((xs @ [(p, t, True)]) @ (a, n, u) # zs) B" using ok 3(2) by simp
    note okD = bm_okD [OF ok'] and sz = ok_size [OF ok'] and sp = ok_size [OF ok]
    have a: "a = p + t" "tiles (a + n) zs (m_hTop s)" using bm_okD(1) [OF ok] 3(2) by (auto simp: tiles_middle)
    have nt: "\<not> AT_TOP p t s" using a tiles_le [OF a(2)] sz(2) by (simp add: AT_TOP_def)
    have h: "fld Size (chunks s) a = n + 1" "tagged (chunks s) u zs" "lastu u zs" "fld Size (chunks s) (m_hTop s) = 1" using okD(2) by (simp_all add: headers_middle)
    have S: "a \<in> starts ((xs @ [(p, t, True)]) @ (a, n, u) # zs) (m_hTop s)" "a + n \<in> starts ((xs @ [(p, t, True)]) @ (a, n, u) # zs) (m_hTop s)"
      using tiles_first [OF a(2)] by auto
    have C: "CHUNK_SIZE (p + t) s = Some n" using get_fld_reach [OF okD(4) S(1)] h(1) REAL_SIZE_aligned(3) [OF sz(3)] a(1) by (simp add: CHUNK_SIZE_def)
    have I: "inuse_bit_at_offset (p + t) n s = Some u"
      using get_fld_reach [OF okD(4) S(2)] tag_behind [OF a(2) h(2,4,3)] a(1) by (simp add: inuse_bit_at_offset_def)
    show ?thesis
    proof (cases "\<not> u \<and> t + n \<ge> ?T")
      case True
      have "bm_ok s (xs @ (p, t, True) # (a, n, False) # zs) B" using ok 3(2) True by simp
      then obtain s' L' B' where g: "grow_next p t n ?T (lastu True xs) ?pre s = Some (p + 8, s')" "bm_ok s' L' B'" "same_acct s s'"
        "keeps (xs @ zs) (chunks s) (chunks s')" "resized req p t (xs @ (p, t, True) # (a, n, False) # zs) (chunks s) (p + 8) (chunks s') L'"
        using grow_next_ok [OF _ r(1,2) 3(1) _ r(3) least] True by blast
      have "keeps (xs @ ys) (chunks s) (chunks s')" using g(4) True by (auto simp: 3(2) keeps_def)
      then show ?thesis using g 3 True pf nt C I by (intro resize_postI) (simp_all add: resize_def)
    next
      case False
      have "resize p t ?T req s = (if \<not> lastu True xs \<and> u32_of (t + ?pre) \<ge> ?T then grow_prev p t ?pre ?T s else grow_elsewhere p t req s)"
        using 3(1) pf nt C I False by (auto simp: resize_def)
      then show ?thesis using away 3(1) by simp
    qed
  qed
qed

section \<open>The operation of the clients\<close>

lemma kept_others:
  assumes ok: "bm_ok s (xs @ (p, t, True) # ys) B" and k: "keeps (xs @ ys) m m'" and g: "owned (xs @ (p, t, True) # ys) g = Some j" "g \<noteq> p + 8" "g \<le> x" "x < g + j"
  shows "m' x = m x"
proof -
  obtain a n where a: "(a, n, True) \<in> set (xs @ (p, t, True) # ys)" "g = a + 8" "j = n - 4" using g(1) owned_iff [OF bm_okD(1) [OF ok]] by blast
  then have "(a, n, True) \<in> set (xs @ ys)" using g(2) by auto
  then show ?thesis using k a g(3,4) unfolding keeps_def by (auto dest: less_imp_le)
qed

lemma inter_re_alloc_eq:
  assumes ok: "bm_ok s (xs @ (p, t, True) # ys) B" and req: "req \<noteq> 0" "\<not> REQUEST_OUT_OF_RANGE req"
  shows "inter_re_alloc (p + 8) req s = do { (h, s1) \<leftarrow> resize p t (request2size req) req s; Some (h, t, s1) }"
proof -
  note cf = chunk_facts [OF ok] and sz = ok_size [OF ok]
  show ?thesis using cf sz req by (simp add: inter_re_alloc_def misaligned_chunk_def)
qed

text \<open>Without a chunk the operation is an allocation, and with no bytes a release.\<close>

lemma ReAlloc_none:
  assumes "req \<noteq> 0"
  shows "bm_ReAlloc INVALID req s = bm_Malloc req s"
proof (cases "inter_malloc req (s\<lparr>m_tLastFreeChunkSize := 0\<rparr>)")
  case (Some hs)
  obtain h s1 where hs: "hs = (h, s1)" by (cases hs)
  have "(add_alloc_size_to_stat req s2)\<lparr>statDataSize := sint (m_tUserAllocSize (add_alloc_size_to_stat req s2))\<rparr> =
      add_alloc_size_to_stat req (s2\<lparr>statDataSize := sint (m_tUserAllocSize s2)\<rparr>)" for s2
    by (cases s2) (simp add: add_alloc_size_to_stat_def Let_def)
  then show ?thesis using assms Some hs by (simp add: bm_ReAlloc_def bm_Malloc_def inter_re_alloc_def split: Option.bind_split)
qed (use assms in \<open>simp add: bm_ReAlloc_def bm_Malloc_def inter_re_alloc_def\<close>)

lemma ReAlloc_zero:
  assumes "bm_inv s L B" "owned L h = Some k"
  shows "bm_ReAlloc h 0 s = map_option (map_prod (\<lambda>_. INVALID) id) (bm_Free h (s\<lparr>m_tLastFreeChunkSize := 0\<rparr>))"
proof -
  let ?s = "s\<lparr>m_tLastFreeChunkSize := 0\<rparr>"
  have ok: "bm_ok ?s L B" by (rule bm_ok_head_cong [of s]) (use assms(1) in \<open>simp_all add: bm_inv_def\<close>)
  obtain xs p n ys where p: "L = xs @ (p, n, True) # ys" "h = p + 8" "k = n - 4" by (rule owned_chunk [OF ok assms(2)])
  obtain s1 where f: "inter_free (p + 8) ?s = Some (0, n, s1)" by (rule inter_free_ok [OF ok [unfolded p(1)]])
  then show ?thesis using p(2) by (simp add: bm_ReAlloc_def inter_re_alloc_def bm_Free_def)
qed

text \<open>The owner gets its bytes back, as many as fit, and nobody else notices.\<close>

lemma bm_ReAlloc_ok:
  assumes inv: "bm_inv s L B" and own: "owned L h = Some k" and req: "req \<noteq> 0"
  obtains h' s' L' B' where "bm_ReAlloc h req s = Some (h', s')" "bm_inv s' L' B'" "m_tSize s' = m_tSize s"
    "h' = 0 \<Longrightarrow> no_space req s L \<and> owned L' = owned L \<and> keeps L (chunks s) (chunks s')"
    "h' \<noteq> 0 \<Longrightarrow> (h' = h \<or> owned L h' = None) \<and> (\<exists>k'. req \<le> k' \<and> owned L' = ((owned L)(h := None))(h' \<mapsto> k')) \<and>
      (\<forall>i. i < req \<and> i < k \<longrightarrow> chunks s' (h' + i) = chunks s (h + i)) \<and>
      (\<forall>g j x. owned L g = Some j \<and> g \<noteq> h \<and> g \<le> x \<and> x < g + j \<longrightarrow> chunks s' x = chunks s x)"
proof -
  let ?s = "s\<lparr>m_tLastFreeChunkSize := 0\<rparr>"
  note ac = inv [unfolded bm_inv_def, THEN conjunct2]
  have ok: "bm_ok ?s L B" by (rule bm_ok_head_cong [of s]) (use inv in \<open>simp_all add: bm_inv_def\<close>)
  have "get_min_chunk_size ?s = get_min_chunk_size s" by (simp add: get_min_chunk_size_def)
  then have least: "24 \<le> get_min_chunk_size ?s" using least_ok [OF inv] by simp
  have aS: "acct ?s L" using ac by (simp add: acct_def)
  show thesis
  proof (cases "REQUEST_OUT_OF_RANGE req")
    case True
    have "h \<noteq> 0" using owned_disjoint(1) [OF ok own own] by auto
    then have "bm_ReAlloc h req s = Some (0, ?s)" using True req by (simp add: bm_ReAlloc_def inter_re_alloc_def)
    then show thesis using that [of 0 ?s L B] ok aS True by (simp add: bm_inv_def no_space_def)
  next
    case False
    obtain xs p t ys where p: "L = xs @ (p, t, True) # ys" "h = p + 8" "k = t - 4" by (rule owned_chunk [OF ok own])
    obtain h' s1 L1 B1 where r: "resize p t (request2size req) req ?s = Some (h', s1)" "bm_ok s1 L1 B1" "same_acct ?s s1"
      "keeps (xs @ ys) (chunks ?s) (chunks s1)"
      "if h' = 0 then no_space req ?s L \<and> used_blks L1 = used_blks L \<and> keeps L (chunks ?s) (chunks s1) else resized req p t L (chunks ?s) h' (chunks s1) L1"
      using resize_ok [OF ok [unfolded p(1)] False least, folded p(1)] unfolding resize_post_def p(1) [symmetric] by blast
    have E: "inter_re_alloc h req ?s = Some (h', t, s1)" using inter_re_alloc_eq [OF ok [unfolded p(1)] req False] r(1) p(2) by simp
    show thesis
    proof (cases "h' = 0")
      case True
      have "acct s1 L1" by (rule acct_cong [OF aS r(3)]) (use r(5) True in simp)
      moreover have "bm_ReAlloc h req s = Some (h', s1)" using E True req by (simp add: bm_ReAlloc_def)
      ultimately show thesis using that [of h' s1 L1 B1] r True by (simp add: bm_inv_def same_acct_def no_space_def owned_def)
    next
      case h': False
      then have R: "resized req p t L (chunks s) h' (chunks s1) L1" using r(5) by simp
      then obtain k' where k': "(h' - 8, k', True) \<in> set L1" "req + 4 \<le> k'" "owned L1 = ((owned L)(p + 8 := None))(h' \<mapsto> k' - 4)" "used_sum L1 + t = used_sum L + k'"
        "8 \<le> h'" "h' = p + 8 \<or> owned L h' = None" "length (used_blks L1) = length (used_blks L)"
        "\<forall>i. i < req \<and> i < t - 4 \<longrightarrow> chunks s1 (h' + i) = chunks s (p + 8 + i)" unfolding resized_def by blast
      obtain xs' ys' where "L1 = xs' @ (h' - 8, k', True) # ys'" using k'(1) by (meson split_list)
      then have c: "CHUNK_SIZE (h' - 8) s1 = Some k'" using chunk_facts(1) r(2) by blast
      have h0: "h \<noteq> 0" using p(2) by simp
      define s2 where "s2 = add_alloc_size_to_stat req (s1\<lparr>m_tUserAllocSize := m_tUserAllocSize s1 + word_of_nat k' - word_of_nat t\<rparr>)"
      define s3 where "s3 = s2\<lparr>statDataSize := sint (m_tUserAllocSize s2)\<rparr>"
      have M: "bm_ReAlloc h req s = Some (h', s3)"
        using E h' c k'(5) h0 by (simp add: bm_ReAlloc_def mem2chunk_def s3_def s2_def Let_def)
      have "m_tUserAllocSize s1 = word_of_nat (m_hBottom s1 + used_sum L)" using aS r(3) by (simp add: acct_def same_acct_def)
      then have "m_tUserAllocSize s1 + word_of_nat k' - word_of_nat t = word_of_nat (m_hBottom s1 + used_sum L1)"
        using arg_cong [OF k'(4), of "word_of_nat :: nat \<Rightarrow> u64"] by (simp add: algebra_simps)
      moreover have "m_tUserAllocSize s2 = m_tUserAllocSize s1 + word_of_nat k' - word_of_nat t" "m_tUserAllocChunkCnt s2 = m_tUserAllocChunkCnt s1"
        "statChunkTotal s2 = statChunkTotal s1" by (simp_all add: s2_def add_alloc_size_to_stat_def Let_def)
      moreover have c2: "m_hBottom s2 = m_hBottom s1" "minChunkSize s2 = minChunkSize s1" "m_tSize s2 = m_tSize s1" "chunks s2 = chunks s1" by (simp_all add: s2_def)
      ultimately have "acct s3 L1"
        using aS r(3) k'(7) used_total(1) [OF r(2)] sint_of_nat_small by (simp add: acct_def same_acct_def s3_def del: of_nat_add)
      moreover have "bm_ok s3 L1 B1" by (rule bm_ok_head_cong [OF r(2)]) (simp_all add: s3_def s2_def)
      ultimately have I: "bm_inv s3 L1 B1" by (simp add: bm_inv_def)
      have c3: "chunks s3 = chunks s1" "m_tSize s3 = m_tSize s" using c2 r(3) by (simp_all add: s3_def same_acct_def)
      have rest: "chunks s1 x = chunks s x" if "owned L g = Some j" "g \<noteq> h" "g \<le> x" "x < g + j" for g j x
        using kept_others [OF ok [unfolded p(1)] r(4) that(1) [unfolded p(1)]] that p(2) by simp
      have k4: "req \<le> k' - 4" using k'(2) by simp
      show thesis
      proof (rule that [OF M I c3(2)])
        show "(h' = h \<or> owned L h' = None) \<and> (\<exists>k'. req \<le> k' \<and> owned L1 = ((owned L)(h := None))(h' \<mapsto> k')) \<and>
          (\<forall>i. i < req \<and> i < k \<longrightarrow> chunks s3 (h' + i) = chunks s (h + i)) \<and>
          (\<forall>g j x. owned L g = Some j \<and> g \<noteq> h \<and> g \<le> x \<and> x < g + j \<longrightarrow> chunks s3 x = chunks s x)"
          unfolding c3(1) using k'(3,6,8) k4 rest unfolding p(2,3) by (intro conjI exI [of _ "k' - 4"]) blast+
      qed (use h' in simp)
    qed
  qed
qed

end
