(* ===== verification/Bin_Example.thy ===== *)
theory Bin_Example
  imports Bin_Realloc
begin

text \<open>
  A small memory and a short history of it, evaluated step by step: two allocations of 100 bytes in
  16 kilobytes, then the release of the first, or a larger size for the second.
\<close>

definition blank_heap :: bin_malloc where
  "blank_heap = \<lparr>m_auiSign = [], m_ushVer = 0, m_tSize = 0, m_tUserAllocSize = 0, m_tUserAllocChunkCnt = 0, m_uiFlags = 0, m_hBottom = 0,
     m_hReserveZone = 0, m_hTop = 0, m_tLastFreeChunkSize = 0, m_auiBinBitMap = (\<lambda>_. 0), m_shmIntegrity = 0,
     bins = (\<lambda>_. \<lparr>m_hPreChunk = 0, m_hNextChunk = 0\<rparr>), chunks = (\<lambda>_. 0), statChunkTotal = 0, statDataSize = 0, statMemoryTop = 0,
     statTmpDataSizeRecently = 0, statTmpDataAllocCountRecently = 0, statAverageDataSizeRecently = 0, minChunkSize = 24\<rparr>"

definition heap0 :: bin_malloc where "heap0 = snd (the (bm_Init 16384 blank_heap))"
definition heap1 :: bin_malloc where "heap1 = snd (the (bm_Malloc 100 heap0))"
definition heap2 :: bin_malloc where "heap2 = snd (the (bm_Malloc 100 heap1))"
definition heap3 :: bin_malloc where "heap3 = snd (the (bm_Free 8216 heap2))"
definition heap4 :: bin_malloc where "heap4 = snd (the (bm_ReAlloc 8320 200 heap2))"
definition heap5 :: bin_malloc where "heap5 = snd (the (bm_Free 8216 heap1))"

definition mem0 :: memory where "mem0 = set_fld Size 8208 1 (set_fld PreSize 8208 0 (\<lambda>_. 0))"
definition mem1 :: memory where "mem1 = set_fld Size 8312 1 (set_fld PreSize 8312 104 (set_fld Size 8208 105 mem0))"
definition mem2 :: memory where "mem2 = set_fld Size 8416 1 (set_fld PreSize 8416 104 (set_fld Size 8312 105 mem1))"

lemmas access_eval = handle_to_ptr_def put_fld_def get_fld_def CHUNK_SIZE_def REAL_SIZE_def chunk2mem_def ptr_to_handle_def mem2chunk_def
  inuse_bit_at_offset_def prev_inuse_def AT_TOP_def misaligned_chunk_def check_inuse_chunk_def u32_of_def

lemmas malloc_eval = bm_Malloc_def inter_malloc_def REQUEST_OUT_OF_RANGE_def request2size_def in_smallbin_range_def small_bin_malloc_def smallbin_index_def
  bin_malloc_from_def clear_if_empty_def empty_bin_def clear_bin_bit_map_def bin_index_def next_bin_def bitmap_word_def skip_words.simps skip_empty.simps
  top_alloc_def add_alloc_size_to_stat_def MAXSTATCOUNT_def

lemmas free_eval = bm_Free_def inter_free_def merge_prev_def merge_next_def place_free_def CAN_COMBILE_def MAX_ALLOC_SIZE_def set_size_at_offset_def
  set_presize_at_offset_def set_inuse_bit_at_offset_def clear_inuse_bit_at_offset_def link_bin_def set_first_def set_last_def set_bin_bit_map_def

lemmas realloc_eval = bm_ReAlloc_def inter_re_alloc_def resize_def grow_top_def

lemmas field_eval = cs.get_same cs.get_apart chunks_apart_def fits_iff

lemma no_bits: "(\<lambda>_. 0)(i := 0) = (\<lambda>_. 0)"
  by auto

lemma heap0_eq: "bm_Init 16384 blank_heap = Some (0, heap0)"
    "heap0 = blank_heap\<lparr>m_auiSign := init_sign, m_ushVer := DTC_VER_MIN, m_tSize := 16384, m_tUserAllocChunkCnt := 0, m_uiFlags := 0,
      m_hReserveZone := 4112, m_hBottom := 8208, m_hTop := 8208, m_tUserAllocSize := 8208, statMemoryTop := 8208,
      m_tLastFreeChunkSize := 8152, m_auiBinBitMap := (\<lambda>_. 0), m_shmIntegrity := 0,
      bins := (\<lambda>_. \<lparr>m_hPreChunk = INVALID, m_hNextChunk = INVALID\<rparr>), chunks := mem0, statChunkTotal := 0, statDataSize := 8208\<rparr>"
  by (simp_all add: heap0_def blank_heap_def bm_Init_def align8_def handle_to_ptr_def put_fld_def mem0_def)

lemma mem0_eq: "fld Size mem0 8208 = 1"
  by (simp add: mem0_def field_eval)

lemma heap1_eq: "bm_Malloc 100 heap0 = Some (8216, heap1)"
    "heap1 = heap0\<lparr>m_hTop := 8312, statMemoryTop := 8312, chunks := mem1, m_tUserAllocChunkCnt := 1, m_tUserAllocSize := 8312, statChunkTotal := 1, statDataSize := 8312,
      statTmpDataSizeRecently := 100, statTmpDataAllocCountRecently := 1, statAverageDataSizeRecently := 100, m_tLastFreeChunkSize := 0\<rparr>"
  using mem0_eq by (simp_all add: heap0_eq(2) heap1_def blank_heap_def malloc_eval access_eval field_eval mem1_def no_bits)

lemma mem1_eq: "fld Size mem1 8208 = 105" "fld Size mem1 8312 = 1"
  by (simp_all add: mem1_def field_eval)

lemma heap2_eq: "bm_Malloc 100 heap1 = Some (8320, heap2)"
    "heap2 = heap1\<lparr>m_hTop := 8416, statMemoryTop := 8416, chunks := mem2, m_tUserAllocChunkCnt := 2, m_tUserAllocSize := 8416, statChunkTotal := 2, statDataSize := 8416,
      statTmpDataSizeRecently := 200, statTmpDataAllocCountRecently := 2, statAverageDataSizeRecently := 100, m_tLastFreeChunkSize := 0\<rparr>"
  using mem1_eq by (simp_all add: heap0_eq(2) heap1_eq(2) heap2_def blank_heap_def malloc_eval access_eval field_eval mem2_def no_bits)

lemma mem2_eq: "fld Size mem2 8208 = 105" "fld Size mem2 8312 = 105" "fld Size mem2 8416 = 1"
  by (simp_all add: mem2_def mem1_eq field_eval)

lemmas heap_eqs = heap0_eq(2) heap1_eq(2) heap2_eq(2) blank_heap_def

lemma heap3_eq: "bm_Free 8216 heap2 = Some (0, heap3)" "bins heap3 (Bin 13) = \<lparr>m_hPreChunk = 8208, m_hNextChunk = 8208\<rparr>"
  using mem2_eq by (simp_all add: heap_eqs heap3_def free_eval malloc_eval access_eval field_eval)

lemma heap4_eq: "bm_ReAlloc 8320 200 heap2 = Some (8320, heap4)" "m_hTop heap4 = 8520"
  using mem2_eq by (simp_all add: heap_eqs heap4_def realloc_eval malloc_eval access_eval field_eval)

lemma heap5_eq: "bm_Free 8216 heap1 = Some (0, heap5)" "m_tSize heap5 = 16384"
  using mem1_eq by (simp_all add: heap_eqs heap5_def free_eval malloc_eval access_eval field_eval)

end
