(* ===== verification/Bin_Run.thy ===== *)
theory Bin_Run
  imports Bin_Resize Bin_Example
begin

text \<open>
  Runs of the allocator against its abstract specification: a partial map from handles to the
  byte strings their owners stored. Every state a client can reach holds all of these strings in
  disjoint parts of the memory.
\<close>

section \<open>The specification\<close>

definition contents :: "nat \<Rightarrow> nat \<Rightarrow> memory \<Rightarrow> byte list" where
  "contents h n m = map (\<lambda>i. m (h + i)) [0..<n]"

lemma contents_length [simp]: "length (contents h n m) = n"
  by (simp add: contents_def)

lemma contents_nth [simp]: "i < n \<Longrightarrow> contents h n m ! i = m (h + i)"
  by (simp add: contents_def)

lemma contents_cong: "(\<And>x. h \<le> x \<Longrightarrow> x < h + n \<Longrightarrow> m' x = m x) \<Longrightarrow> contents h n m' = contents h n m"
  by (simp add: contents_def)

text \<open>Clients allocate, release and resize what they own, write into what they own and change the least
  size of a split; the process may attach to the memory again. A resized string keeps its bytes up to
  the shorter of the two lengths.\<close>

inductive bm_run :: "(nat \<rightharpoonup> byte list) \<Rightarrow> bin_malloc \<Rightarrow> bool" where
  init: "bm_Init n s = Some (0, s') \<Longrightarrow> n \<le> MAX_ALLOC_SIZE \<Longrightarrow> minChunkSize s = 1 \<or> 24 \<le> minChunkSize s \<Longrightarrow> bm_run Map.empty s'"
| malloc: "bm_run C s \<Longrightarrow> bm_Malloc req s = Some (h, s') \<Longrightarrow> h \<noteq> INVALID \<Longrightarrow> bm_run (C(h \<mapsto> contents h req (chunks s'))) s'"
| calloc: "bm_run C s \<Longrightarrow> bm_Calloc req s = Some (h, s') \<Longrightarrow> h \<noteq> INVALID \<Longrightarrow> bm_run (C(h \<mapsto> replicate req 0)) s'"
| no_malloc: "bm_run C s \<Longrightarrow> bm_Malloc req s = Some (INVALID, s') \<Longrightarrow> bm_run C s'"
| no_calloc: "bm_run C s \<Longrightarrow> bm_Calloc req s = Some (INVALID, s') \<Longrightarrow> bm_run C s'"
| free: "bm_run C s \<Longrightarrow> C h = Some bs \<Longrightarrow> bm_Free h s = Some (rc, s') \<Longrightarrow> bm_run (C(h := None)) s'"
| realloc: "bm_run C s \<Longrightarrow> C h = Some bs \<Longrightarrow> req \<noteq> 0 \<Longrightarrow> bm_ReAlloc h req s = Some (h', s') \<Longrightarrow> h' \<noteq> INVALID \<Longrightarrow>
    bm_run ((C(h := None))(h' \<mapsto> take req bs @ contents (h' + length bs) (req - length bs) (chunks s'))) s'"
| no_realloc: "bm_run C s \<Longrightarrow> C h = Some bs \<Longrightarrow> req \<noteq> 0 \<Longrightarrow> bm_ReAlloc h req s = Some (INVALID, s') \<Longrightarrow> bm_run C s'"
| realloc_free: "bm_run C s \<Longrightarrow> C h = Some bs \<Longrightarrow> bm_ReAlloc h 0 s = Some (h', s') \<Longrightarrow> bm_run (C(h := None)) s'"
| store: "bm_run C s \<Longrightarrow> C h = Some bs \<Longrightarrow> i < length bs \<Longrightarrow> bm_run (C(h \<mapsto> bs[i := b])) (s\<lparr>chunks := (chunks s)(h + i := b)\<rparr>)"
| least: "bm_run C s \<Longrightarrow> bm_run C (set_min_chunk_size k s)"
| attach: "bm_run C s \<Longrightarrow> bm_Attach n s = (rc, s') \<Longrightarrow> bm_run C s'"

section \<open>The simulation\<close>

text \<open>The owners are those of the specification, and each has its string.\<close>

definition holds :: "(nat \<rightharpoonup> byte list) \<Rightarrow> bin_malloc \<Rightarrow> blk list \<Rightarrow> bool" where
  "holds C s L \<longleftrightarrow> dom C = dom (owned L) \<and>
     (\<forall>h bs. C h = Some bs \<longrightarrow> (\<exists>k. owned L h = Some k \<and> length bs \<le> k) \<and> bs = contents h (length bs) (chunks s))"

lemma holdsD:
  assumes "holds C s L" "C h = Some bs"
  obtains k where "owned L h = Some k" "length bs \<le> k" "bs = contents h (length bs) (chunks s)"
  using assms unfolding holds_def by blast

lemma holds_keeps:
  assumes "holds C s L" "tiles lo L hi" "keeps L (chunks s) (chunks s')"
  shows "holds C s' L"
  unfolding holds_def
proof (intro conjI allI impI)
  show "dom C = dom (owned L)" using assms(1) by (simp add: holds_def)
  fix h bs assume "C h = Some bs"
  then obtain k where k: "owned L h = Some k" "length bs \<le> k" "bs = contents h (length bs) (chunks s)" by (rule holdsD [OF assms(1)])
  show "\<exists>k. owned L h = Some k \<and> length bs \<le> k" using k by auto
  have "contents h (length bs) (chunks s') = contents h (length bs) (chunks s)"
    by (intro contents_cong keeps_owned [OF assms(3,2) k(1)]) (use k(2) in auto)
  then show "bs = contents h (length bs) (chunks s')" using k(3) by simp
qed

lemma inv_tiles: "bm_inv s L B \<Longrightarrow> tiles (m_hBottom s) L (m_hTop s)"
  using bm_okD(1) by (auto simp: bm_inv_def)

lemma holds_same: "holds C s L \<Longrightarrow> bm_inv s L B \<Longrightarrow> keeps L (chunks s) (chunks s') \<Longrightarrow> owned L' = owned L \<Longrightarrow> holds C s' L'"
  by (drule (1) holds_keeps [OF _ inv_tiles]) (simp_all add: holds_def)

lemma holds_new:
  assumes "holds C s L" "owned L h = None" "owned L' = (owned L)(h \<mapsto> k)" "length bs \<le> k" "bs = contents h (length bs) (chunks s)"
  shows "holds (C(h \<mapsto> bs)) s L'"
  using assms unfolding holds_def by auto

lemma holds_drop: "holds C s L \<Longrightarrow> owned L' = (owned L)(h := None) \<Longrightarrow> holds (C(h := None)) s L'"
  unfolding holds_def by auto

lemma acct_least: "acct s L \<Longrightarrow> k = 1 \<or> 24 \<le> k \<Longrightarrow> acct (s\<lparr>minChunkSize := k\<rparr>) L"
  by (simp add: acct_def)

lemma write_holds:
  assumes inv: "bm_inv s L B" and C: "holds C s L" and h: "C h = Some bs" and i: "i < length bs"
  shows "bm_inv (s\<lparr>chunks := (chunks s)(h + i := b)\<rparr>) L B" "holds (C(h \<mapsto> bs[i := b])) (s\<lparr>chunks := (chunks s)(h + i := b)\<rparr>) L"
proof -
  note ok = inv [unfolded bm_inv_def, THEN conjunct1]
  obtain k where k: "owned L h = Some k" "length bs \<le> k" "bs = contents h (length bs) (chunks s)" by (rule holdsD [OF C h])
  have "bm_ok (s\<lparr>chunks := (chunks s)(h + i := b)\<rparr>) L B"
  proof (rule user_writes_ok [OF ok])
    fix x assume "((chunks s)(h + i := b)) x \<noteq> chunks s x"
    then show "\<exists>h k. owned L h = Some k \<and> h \<le> x \<and> x < h + k" using k(1,2) i by (intro exI [of _ h] exI [of _ k]) (auto split: if_splits)
  qed
  then show "bm_inv (s\<lparr>chunks := (chunks s)(h + i := b)\<rparr>) L B" using inv by (simp add: bm_inv_def)
  have own: "bs[i := b] = contents h (length bs) ((chunks s)(h + i := b))"
    by (rule nth_equalityI) (use k(3) in \<open>auto simp: nth_list_update intro: arg_cong [of bs, THEN fun_cong]\<close>, metis contents_nth)
  have other: "bs' = contents h' (length bs') ((chunks s)(h + i := b))" if o: "C h' = Some bs'" "h' \<noteq> h" for h' bs'
  proof -
    obtain k' where k': "owned L h' = Some k'" "length bs' \<le> k'" "bs' = contents h' (length bs') (chunks s)" by (rule holdsD [OF C o(1)])
    have "contents h' (length bs') ((chunks s)(h + i := b)) = contents h' (length bs') (chunks s)"
      by (rule contents_cong) (use owned_disjoint(3) [OF ok k(1) k'(1)] o(2) k(2) k'(2) i in auto)
    then show ?thesis using k'(3) by simp
  qed
  show "holds (C(h \<mapsto> bs[i := b])) (s\<lparr>chunks := (chunks s)(h + i := b)\<rparr>) L"
    using C k own other unfolding holds_def by (auto simp: dom_def)
qed

lemma realloc_holds:
  assumes C: "holds C s L" and h: "C h = Some bs" "owned L h = Some k"
    and new: "req \<le> k'" "owned L' = ((owned L)(h := None))(h' \<mapsto> k')" "\<forall>i. i < req \<and> i < k \<longrightarrow> chunks s' (h' + i) = chunks s (h + i)"
    and rest: "\<forall>g j x. owned L g = Some j \<and> g \<noteq> h \<and> g \<le> x \<and> x < g + j \<longrightarrow> chunks s' x = chunks s x"
  shows "holds ((C(h := None))(h' \<mapsto> take req bs @ contents (h' + length bs) (req - length bs) (chunks s'))) s' L'"
proof -
  let ?b = "take req bs @ contents (h' + length bs) (req - length bs) (chunks s')"
  have bs: "length bs \<le> k" "bs = contents h (length bs) (chunks s)" using holdsD [OF C h(1)] h(2) by auto
  have len: "length ?b = req" by simp
  have own: "?b = contents h' (length ?b) (chunks s')" unfolding len
  proof (rule nth_equalityI)
    fix i assume "i < length ?b"
    then have i: "i < req" by simp
    show "?b ! i = contents h' req (chunks s') ! i"
    proof (cases "i < length bs")
      case True
      then have "bs ! i = chunks s (h + i)" using bs(2) contents_nth by metis
      then show ?thesis using True i new(3) bs(1) by (simp add: nth_append)
    qed (use i in \<open>simp add: nth_append\<close>)
  qed simp
  have other: "(\<exists>j. owned L g = Some j \<and> length cs \<le> j) \<and> cs = contents g (length cs) (chunks s')" if g: "C g = Some cs" "g \<noteq> h" for g cs
  proof -
    obtain j where j: "owned L g = Some j" "length cs \<le> j" "cs = contents g (length cs) (chunks s)" by (rule holdsD [OF C g(1)])
    have "contents g (length cs) (chunks s') = contents g (length cs) (chunks s)"
    proof (rule contents_cong)
      fix x assume "g \<le> x" "x < g + length cs"
      then show "chunks s' x = chunks s x" using rest [rule_format, of g j x] j(1,2) g(2) by simp
    qed
    then show ?thesis using j by simp
  qed
  have "dom C = dom (owned L)" using C by (simp add: holds_def)
  then have "dom ((C(h := None))(h' \<mapsto> ?b)) = dom (owned L')" unfolding new(2) by auto
  then show ?thesis unfolding holds_def
    using own len new(1,2) other by (auto split: if_splits)
qed

lemma run_holds: "bm_run C s \<Longrightarrow> \<exists>L B. bm_inv s L B \<and> holds C s L"
proof (induction rule: bm_run.induct)
  case (init n s s')
  have "8232 \<le> n" using init(1) by (simp add: bm_Init_def split: if_splits)
  then obtain s'' where "bm_Init n s = Some (0, s'')" "bm_inv s'' [] (\<lambda>_. [])" by (rule bm_Init_ok [OF _ init(2,3)])
  then have "bm_inv s' [] (\<lambda>_. [])" using init(1) by simp
  moreover have "holds Map.empty s' []" by (simp add: holds_def owned_def)
  ultimately show ?case by blast
next
  case (malloc C s req h s')
  then obtain L B where b: "bm_inv s L B" "holds C s L" by blast
  obtain L' B' k where m: "bm_inv s' L' B'" "keeps L (chunks s) (chunks s')" "owned L h = None" "req \<le> k" "owned L' = (owned L)(h \<mapsto> k)"
    by (rule bm_Malloc_ok [OF b(1), of req]) (use malloc(2,3) in auto)
  have "holds (C(h \<mapsto> contents h req (chunks s'))) s' L'"
    by (rule holds_new [OF holds_same [OF b(2,1) m(2) refl] m(3,5)]) (use m(4) in simp_all)
  then show ?case using m(1) by blast
next
  case (calloc C s req h s')
  then obtain L B where b: "bm_inv s L B" "holds C s L" by blast
  obtain L' B' k where m: "bm_inv s' L' B'" "keeps L (chunks s) (chunks s')" "owned L h = None" "req \<le> k" "owned L' = (owned L)(h \<mapsto> k)"
    "\<forall>i < req. chunks s' (h + i) = 0"
    by (rule bm_Calloc_ok [OF b(1), of req]) (use calloc(2,3) in auto)
  have "replicate req 0 = contents h req (chunks s')" using m(6) by (intro nth_equalityI) simp_all
  then have "holds (C(h \<mapsto> replicate req 0)) s' L'"
    by (intro holds_new [OF holds_same [OF b(2,1) m(2) refl] m(3,5)]) (use m(4) in simp_all)
  then show ?case using m(1) by blast
next
  case (no_malloc C s req s')
  then obtain L B where b: "bm_inv s L B" "holds C s L" by blast
  obtain L' B' where "bm_inv s' L' B'" "keeps L (chunks s) (chunks s')" "owned L' = owned L"
    by (rule bm_Malloc_ok [OF b(1), of req]) (use no_malloc(2) in auto)
  then show ?case using holds_same [OF b(2,1)] by blast
next
  case (no_calloc C s req s')
  then obtain L B where b: "bm_inv s L B" "holds C s L" by blast
  obtain L' B' where "bm_inv s' L' B'" "keeps L (chunks s) (chunks s')" "owned L' = owned L"
    by (rule bm_Calloc_ok [OF b(1), of req]) (use no_calloc(2) in auto)
  then show ?case using holds_same [OF b(2,1)] by blast
next
  case (free C s h bs rc s')
  then obtain L B where b: "bm_inv s L B" "holds C s L" by blast
  obtain k where k: "owned L h = Some k" using holdsD [OF b(2) free(2)] by blast
  obtain L' B' where f: "bm_inv s' L' B'" "keeps L' (chunks s) (chunks s')" "owned L' = (owned L)(h := None)" "m_tSize s' = m_tSize s"
    by (rule bm_Free_ok [OF b(1) k]) (use free(3) in auto)
  have "holds (C(h := None)) s' L'" by (rule holds_keeps [OF holds_drop [OF b(2) f(3)] inv_tiles [OF f(1)] f(2)])
  then show ?case using f(1) by blast
next
  case (realloc C s h bs req h' s')
  then obtain L B where b: "bm_inv s L B" "holds C s L" by blast
  obtain k where k: "owned L h = Some k" using holdsD [OF b(2) realloc(2)] by blast
  obtain L' B' k' where r: "bm_inv s' L' B'" "req \<le> k'" "owned L' = ((owned L)(h := None))(h' \<mapsto> k')"
    "\<forall>i. i < req \<and> i < k \<longrightarrow> chunks s' (h' + i) = chunks s (h + i)"
    "\<forall>g j x. owned L g = Some j \<and> g \<noteq> h \<and> g \<le> x \<and> x < g + j \<longrightarrow> chunks s' x = chunks s x"
  proof (rule bm_ReAlloc_ok [OF b(1) k realloc(3)])
    fix h1 s1 L1 B1
    assume a: "bm_ReAlloc h req s = Some (h1, s1)" "bm_inv s1 L1 B1"
      "h1 \<noteq> 0 \<Longrightarrow> (h1 = h \<or> owned L h1 = None) \<and> (\<exists>k'. req \<le> k' \<and> owned L1 = ((owned L)(h := None))(h1 \<mapsto> k')) \<and>
        (\<forall>i. i < req \<and> i < k \<longrightarrow> chunks s1 (h1 + i) = chunks s (h + i)) \<and>
        (\<forall>g j x. owned L g = Some j \<and> g \<noteq> h \<and> g \<le> x \<and> x < g + j \<longrightarrow> chunks s1 x = chunks s x)"
    have e: "h1 = h'" "s1 = s'" using a(1) realloc(4) by simp_all
    show thesis using a(3) [unfolded e, OF realloc(5)] that [OF a(2) [unfolded e]] by blast
  qed
  show ?case using realloc_holds [OF b(2) realloc(2) k r(2,3,4,5)] r(1) by blast
next
  case (no_realloc C s h bs req s')
  then obtain L B where b: "bm_inv s L B" "holds C s L" by blast
  obtain k where k: "owned L h = Some k" using holdsD [OF b(2) no_realloc(2)] by blast
  obtain L' B' where "bm_inv s' L' B'" "keeps L (chunks s) (chunks s')" "owned L' = owned L"
    by (rule bm_ReAlloc_ok [OF b(1) k no_realloc(3)]) (use no_realloc(4) in auto)
  then show ?case using holds_same [OF b(2,1)] by blast
next
  case (realloc_free C s h bs h' s')
  then obtain L B where b: "bm_inv s L B" "holds C s L" by blast
  let ?s = "s\<lparr>m_tLastFreeChunkSize := 0\<rparr>"
  obtain k where k: "owned L h = Some k" using holdsD [OF b(2) realloc_free(2)] by blast
  have i: "bm_inv ?s L B" using b(1) bm_ok_head_cong [of s L B ?s] by (simp add: bm_inv_def acct_def)
  obtain z L' B' where f: "bm_Free h ?s = Some (0, z)" "bm_inv z L' B'" "keeps L' (chunks ?s) (chunks z)" "owned L' = (owned L)(h := None)"
    by (rule bm_Free_ok [OF i k])
  have "s' = z" using ReAlloc_zero [OF b(1) k] f(1) realloc_free(3) by simp
  moreover have "holds (C(h := None)) z L'" by (rule holds_keeps [OF holds_drop [OF b(2) f(4)] inv_tiles [OF f(2)]]) (use f(3) in simp)
  ultimately show ?case using f(2) by blast
next
  case (store C s h bs i b)
  then show ?case using write_holds by blast
next
  case (least C s k)
  then obtain L B where b: "bm_inv s L B" "holds C s L" by blast
  have "bm_ok (set_min_chunk_size k s) L B" by (rule bm_ok_head_cong [of s]) (use b(1) in \<open>simp_all add: bm_inv_def set_min_chunk_size_def\<close>)
  moreover have "acct (set_min_chunk_size k s) L" using b(1) acct_least by (auto simp: bm_inv_def set_min_chunk_size_def)
  moreover have "holds C (set_min_chunk_size k s) L" using b(2) by (simp add: holds_def set_min_chunk_size_def)
  ultimately show ?case by (auto simp: bm_inv_def)
next
  case (attach C s n rc s')
  then obtain L B where b: "bm_inv s L B" "holds C s L" by blast
  note ok = b(1) [unfolded bm_inv_def, THEN conjunct1] and ac = b(1) [unfolded bm_inv_def acct_def, THEN conjunct2]
  have "sint (m_tUserAllocSize s) = statDataSize s" "sint (m_tUserAllocChunkCnt s) = statChunkTotal s"
    using ac sint_of_nat_small used_total [OF ok] by (metis, metis)
  then have "s' = s" using attach(2) by (cases s) (auto simp: bm_Attach_def split: if_splits)
  then show ?case using b by blast
qed

section \<open>What clients may rely on\<close>

lemma run_owners:
  assumes "bm_run C s"
  obtains L B where "bm_ok s L B" "acct s L" "holds C s L" "dom C = (\<lambda>(a, n, u). a + 8) ` set (used_blks L)" "card (dom C) = length (used_blks L)"
proof -
  obtain L B where b: "bm_ok s L B" "acct s L" "holds C s L" using run_holds [OF assms] by (auto simp: bm_inv_def)
  let ?k = "map fst (map (\<lambda>(a, n, u). (a + 8, n - 4)) (used_blks L))"
  have d: "dom C = set ?k" using b(3) unfolding holds_def owned_def dom_map_of_conv_image_fst by (metis list.set_map)
  moreover have "card (set ?k) = length (used_blks L)" using distinct_card [OF used_keys_distinct [OF bm_okD(1) [OF b(1)]]] by simp
  moreover have "set ?k = (\<lambda>(a, n, u). a + 8) ` set (used_blks L)" by (force simp: image_image)
  ultimately show thesis using that [OF b] by simp
qed

lemma run_example:
  "bm_run Map.empty heap0" "bm_run [8216 \<mapsto> contents 8216 100 mem1] heap1"
  "bm_run ([8216 \<mapsto> contents 8216 100 mem1](8320 \<mapsto> contents 8320 100 mem2)) heap2"
proof -
  show r0: "bm_run Map.empty heap0" by (rule init [OF heap0_eq(1)]) (simp_all add: MAX_ALLOC_SIZE_def blank_heap_def)
  have "bm_run [8216 \<mapsto> contents 8216 100 (chunks heap1)] heap1" by (rule malloc [OF r0 heap1_eq(1)]) simp
  then show r1: "bm_run [8216 \<mapsto> contents 8216 100 mem1] heap1" by (simp add: heap1_eq(2))
  have "bm_run ([8216 \<mapsto> contents 8216 100 mem1](8320 \<mapsto> contents 8320 100 (chunks heap2))) heap2" by (rule malloc [OF r1 heap2_eq(1)]) simp
  then show "bm_run ([8216 \<mapsto> contents 8216 100 mem1](8320 \<mapsto> contents 8320 100 mem2)) heap2" by (simp add: heap2_eq(2))
qed

text \<open>(C29) Refinement of the store of byte strings: in every state reached from an initialised
  memory by allocations, releases and writes of the owners, each owner finds exactly its bytes,
  inside the memory and apart from those of every other owner, and the counter counts the owners.\<close>

theorem heap_refines:
  assumes "bm_run C s"
  shows "(\<forall>h bs. C h = Some bs \<longrightarrow> m_hBottom s + 8 \<le> h \<and> h + length bs \<le> m_tSize s \<and> contents h (length bs) (chunks s) = bs) \<and>
    (\<forall>h bs h' bs'. C h = Some bs \<and> C h' = Some bs' \<and> h \<noteq> h' \<longrightarrow> {h..<h + length bs} \<inter> {h'..<h' + length bs'} = {}) \<and>
    finite (dom C) \<and> unat (m_tUserAllocChunkCnt s) = card (dom C)"
proof (intro conjI allI impI)
  obtain L B where b: "bm_ok s L B" "acct s L" "holds C s L" "dom C = (\<lambda>(a, n, u). a + 8) ` set (used_blks L)" "card (dom C) = length (used_blks L)"
    by (rule run_owners [OF assms])
  fix h bs assume "C h = Some bs"
  then obtain k where k: "owned L h = Some k" "length bs \<le> k" "bs = contents h (length bs) (chunks s)" by (rule holdsD [OF b(3)])
  note d = owned_disjoint [OF b(1) k(1)]
  show "m_hBottom s + 8 \<le> h" "h + length bs \<le> m_tSize s" "contents h (length bs) (chunks s) = bs" using d(1,2) [OF k(1)] k by simp_all
next
  obtain L B where b: "bm_ok s L B" "acct s L" "holds C s L" by (rule run_owners [OF assms])
  fix h bs h' bs' assume c: "C h = Some bs \<and> C h' = Some bs' \<and> h \<noteq> h'"
  obtain k where k: "owned L h = Some k" "length bs \<le> k" using holdsD [OF b(3)] c by blast
  obtain k' where k': "owned L h' = Some k'" "length bs' \<le> k'" using holdsD [OF b(3)] c by blast
  show "{h..<h + length bs} \<inter> {h'..<h' + length bs'} = {}" using owned_disjoint(3) [OF b(1) k(1) k'(1)] c k(2) k'(2) by auto
next
  obtain L B where b: "bm_ok s L B" "acct s L" "dom C = (\<lambda>(a, n, u). a + 8) ` set (used_blks L)" "card (dom C) = length (used_blks L)"
    by (rule run_owners [OF assms])
  show "finite (dom C)" using b(3) by simp
  show "unat (m_tUserAllocChunkCnt s) = card (dom C)"
    using b(2) used_total(2) [OF b(1)] by (simp add: acct_def b(4) unsigned_of_nat take_bit_nat_eq_self)
qed

theorem heap_refines_witness:
  "8216 + 100 \<le> m_tSize heap2 \<and> contents 8216 100 (chunks heap2) = contents 8216 100 mem1 \<and> {8216..<8316 :: nat} \<inter> {8320..<8420} = {} \<and>
   unat (m_tUserAllocChunkCnt heap2) = 2"
  using heap_refines [OF run_example(3), THEN conjunct1, rule_format, of 8216 "contents 8216 100 mem1"]
    heap_refines [OF run_example(3), THEN conjunct2, THEN conjunct1, rule_format, of 8216 "contents 8216 100 mem1" 8320 "contents 8320 100 mem2"]
  by (simp add: heap2_eq(2))

text \<open>(C30) The allocator never gets stuck: in a reachable state an allocation returns, with a
  handle nobody owns, or with none when the request is out of range or does not fit above the top;
  the release of an owned handle returns success, and so does a change of its size, with the handle
  itself, one nobody owns or none.\<close>

theorem heap_progress:
  assumes "bm_run C s"
  shows "(\<exists>h s'. bm_Malloc req s = Some (h, s') \<and>
      (if h = INVALID then REQUEST_OUT_OF_RANGE req \<or> m_tSize s \<le> m_hTop s + request2size req + MINSIZE else h \<notin> dom C)) \<and>
    (\<forall>h \<in> dom C. (\<exists>s'. bm_Free h s = Some (0, s')) \<and>
      (req \<noteq> 0 \<longrightarrow> (\<exists>h' s'. bm_ReAlloc h req s = Some (h', s') \<and> (h' = INVALID \<or> h' = h \<or> h' \<notin> dom C))))"
proof (intro conjI ballI impI)
  obtain L B where b: "bm_inv s L B" "holds C s L" using run_holds [OF assms] by blast
  then have d: "dom C = dom (owned L)" by (simp add: holds_def)
  show "\<exists>h s'. bm_Malloc req s = Some (h, s') \<and>
      (if h = INVALID then REQUEST_OUT_OF_RANGE req \<or> m_tSize s \<le> m_hTop s + request2size req + MINSIZE else h \<notin> dom C)"
    by (rule bm_Malloc_ok [OF b(1), of req]) (auto simp: no_space_def d)
  fix h assume "h \<in> dom C"
  then obtain k where k: "owned L h = Some k" using d by auto
  then show "\<exists>s'. bm_Free h s = Some (0, s')" by (rule bm_Free_ok [OF b(1)]) auto
  assume "req \<noteq> 0"
  then show "\<exists>h' s'. bm_ReAlloc h req s = Some (h', s') \<and> (h' = INVALID \<or> h' = h \<or> h' \<notin> dom C)"
    by (rule bm_ReAlloc_ok [OF b(1) k]) (auto simp: d)
qed

theorem heap_progress_witness:
  "(\<exists>h s'. bm_Malloc 100 heap2 = Some (h, s') \<and> h \<notin> {8216, 8320}) \<and> (\<exists>s'. bm_Free 8320 heap2 = Some (0, s')) \<and>
   (\<exists>h' s'. bm_ReAlloc 8320 100 heap2 = Some (h', s') \<and> h' \<noteq> 8216)"
  using heap_progress [OF run_example(3), of 100] by (auto simp: REQUEST_OUT_OF_RANGE_def request2size_def heap2_eq(2) heap1_eq(2) heap0_eq(2) split: if_splits)

text \<open>(C31) A change of size keeps the bytes of the owner, up to the shorter length, wherever the
  chunk ends up, and all bytes of the other owners.\<close>

theorem realloc_keeps:
  assumes "bm_run C s" "C h = Some bs" "req \<noteq> 0" "bm_ReAlloc h req s = Some (h', s')" "h' \<noteq> INVALID"
  shows "contents h' (min req (length bs)) (chunks s') = take req bs \<and>
    (\<forall>g cs. C g = Some cs \<and> g \<noteq> h \<longrightarrow> g \<noteq> h' \<and> contents g (length cs) (chunks s') = cs)"
proof -
  let ?b = "take req bs @ contents (h' + length bs) (req - length bs) (chunks s')"
  obtain L B where b: "bm_inv s L B" "holds C s L" using run_holds [OF assms(1)] by blast
  obtain k where k: "owned L h = Some k" using holdsD [OF b(2) assms(2)] by blast
  have "h' = h \<or> owned L h' = None" by (rule bm_ReAlloc_ok [OF b(1) k assms(3)]) (use assms(4,5) in auto)
  moreover have "dom C = dom (owned L)" using b(2) by (simp add: holds_def)
  ultimately have fresh: "g \<noteq> h'" if "C g = Some cs" "g \<noteq> h" for g cs using that by auto
  have "bm_run ((C(h := None))(h' \<mapsto> ?b)) s'" by (rule realloc [OF assms])
  then obtain L' B' where i: "holds ((C(h := None))(h' \<mapsto> ?b)) s' L'" using run_holds by blast
  have "?b = contents h' (length ?b) (chunks s')" using holdsD [OF i, of h' ?b] by (metis fun_upd_same)
  then have e: "?b ! j = chunks s' (h' + j)" if "j < req" for j using that contents_nth [of j "length ?b" h' "chunks s'"] by simp
  have "contents h' (min req (length bs)) (chunks s') = take req bs"
  proof (rule nth_equalityI)
    fix i assume "i < length (contents h' (min req (length bs)) (chunks s'))"
    then have i: "i < req" "i < length bs" by simp_all
    then have "?b ! i = bs ! i" by (simp add: nth_append)
    then show "contents h' (min req (length bs)) (chunks s') ! i = take req bs ! i" using e [OF i(1)] i by simp
  qed simp
  moreover have "contents g (length cs) (chunks s') = cs" if g: "C g = Some cs" "g \<noteq> h" for g cs
    using holdsD [OF i, of g cs] g fresh [OF g] by (metis fun_upd_other)
  ultimately show ?thesis using fresh by blast
qed

theorem realloc_keeps_witness:
  "contents 8320 100 (chunks heap4) = contents 8320 100 mem2 \<and> contents 8216 100 (chunks heap4) = contents 8216 100 mem1"
  using realloc_keeps [OF run_example(3), of 8320 "contents 8320 100 mem2" 200 8320 heap4] heap4_eq(1)
    realloc_keeps [OF run_example(3), of 8320 "contents 8320 100 mem2" 200 8320 heap4, THEN conjunct2, rule_format, of 8216 "contents 8216 100 mem1"] by simp

lemma reclaimed:
  assumes "bm_run Map.empty s"
  shows "m_hTop s = m_hBottom s \<and> (\<forall>i < NBINS. empty_bin i s) \<and> unat (m_tUserAllocSize s) = m_hBottom s"
proof -
  obtain L B where b: "bm_ok s L B" "acct s L" "holds Map.empty s L" "dom Map.empty = (\<lambda>(a, n, u). a + 8) ` set (used_blks L)"
    by (rule run_owners [OF assms]) blast
  have u: "used_blks L = []" using b(4) by simp
  have "L = []"
  proof (cases L rule: rev_cases)
    case (snoc xs x)
    then show ?thesis using u bm_okD(2) [OF b(1)] by (cases x) (auto simp: headers_def split: if_splits)
  qed
  then have t: "m_hTop s = m_hBottom s" and e: "binned s {} B" using bm_okD(1,3) [OF b(1)] by (simp_all add: free_blks_def)
  have "empty_bin i s" if i: "i < NBINS" for i
  proof -
    have "B i = []" using binnedD [OF e i] by auto
    then show ?thesis using binnedD(4) [OF e i] by (simp add: empty_bin_def bin_ends_def lk.ptr_first_def)
  qed
  moreover have "unat (m_tUserAllocSize s) = m_hBottom s"
    using b(2) used_total(1) [OF b(1)] u by (simp add: acct_def used_sum_def unsigned_of_nat take_bit_nat_eq_self)
  ultimately show ?thesis using t by blast
qed

text \<open>(C32) Nothing is lost: once every owner has released its memory, the chunks have been joined
  and given back to the top, the bins are empty and the statistics are those of a fresh memory.\<close>

theorem heap_reclaimed:
  assumes "bm_run Map.empty s"
  shows "m_hTop s = m_hBottom s \<and> (\<forall>i < NBINS. empty_bin i s) \<and> unat (m_tUserAllocSize s) = m_hBottom s"
  by (rule reclaimed [OF assms])

theorem heap_reclaimed_witness: "m_hTop heap5 = m_hBottom heap5 \<and> unat (m_tUserAllocSize heap5) = m_hBottom heap5"
proof -
  have "bm_run ([8216 \<mapsto> contents 8216 100 mem1](8216 := None)) heap5" by (rule free [OF run_example(2) _ heap5_eq(1)]) simp
  moreover have "[8216 \<mapsto> contents 8216 100 mem1](8216 := None) = Map.empty" by simp
  ultimately have "bm_run Map.empty heap5" by simp
  from heap_reclaimed [OF this] show ?thesis by simp
qed



end
