(* ===== verification/T_Tree.thy ===== *)
theory T_Tree
  imports Prelude "HOL-Library.Monad_Syntax"
begin

text \<open>
  The T-tree of the cache (\<open>cache/t_tree.h\<close>, \<open>cache/t_tree.cc\<close>): a balanced binary tree whose nodes hold
  up to twenty record handles in key order. Nodes live in shared memory under handles; \<open>nodes\<close> maps
  the handle of a node to its structure, and \<open>heap\<close> is the state of the allocator, which is used through
  the interface \<open>Mallocator\<close>. The comparison \<open>pfComp\<close> of a key with a record and the key \<open>convert_cvalue\<close>
  reads out of a record are callbacks as well. \<open>None\<close> is an access through a handle that is no node, or
  outside the array of items, or a recursion without end. The result of a comparison has 64 bits and is
  assigned to an \<open>int\<close>.
\<close>

section \<open>Nodes, memory and callbacks\<close>

definition PAGE_SIZE :: nat where "PAGE_SIZE = 20"

definition MIN_ITEMS :: nat where "MIN_ITEMS = PAGE_SIZE - 2"

record ttree_node =
  m_hLeft :: nat
  m_hRight :: nat
  m_chBalance :: int
  m_ushNItems :: nat
  m_ahItems :: "nat list"

record 'm tree_mem =
  nodes :: "nat \<rightharpoonup> ttree_node"
  heap :: 'm
  node_flag :: bool

record ('k, 'm) tree_env =
  Malloc :: "'m \<Rightarrow> (nat \<times> 'm) option"
  Free :: "nat \<Rightarrow> 'm \<Rightarrow> (int \<times> 'm) option"
  size_of :: "'m \<Rightarrow> nat \<Rightarrow> nat option"
  pfComp :: "'m \<Rightarrow> 'k \<Rightarrow> nat \<Rightarrow> u64"
  cvalue :: "'m \<Rightarrow> nat \<Rightarrow> 'k"

text \<open>\<open>iDiff\<close> is an \<open>int\<close>: only the low 32 bits of the comparison are kept.\<close>

definition iDiff :: "('k, 'm) tree_env \<Rightarrow> 'm \<Rightarrow> 'k \<Rightarrow> nat \<Rightarrow> int" where
  "iDiff E m k h = sint (ucast (pfComp E m k h) :: u32)"

definition upd_node :: "nat \<Rightarrow> (ttree_node \<Rightarrow> ttree_node) \<Rightarrow> 'm tree_mem \<Rightarrow> 'm tree_mem option" where
  "upd_node h f s = do { n \<leftarrow> nodes s h; Some (s\<lparr>nodes := (nodes s)(h \<mapsto> f n)\<rparr>) }"

definition node_Init :: ttree_node where
  "node_Init = \<lparr>m_hLeft = 0, m_hRight = 0, m_chBalance = 0, m_ushNItems = 0, m_ahItems = replicate PAGE_SIZE 0\<rparr>"

definition node_Alloc :: "('k, 'm) tree_env \<Rightarrow> nat \<Rightarrow> 'm tree_mem \<Rightarrow> (nat \<times> 'm tree_mem) option" where
  "node_Alloc E hRecord s = do {
     (h, m) \<leftarrow> Malloc E (heap s);
     if h = 0 then Some (0, s\<lparr>heap := m\<rparr>)
     else Some (h, s\<lparr>heap := m, nodes := (nodes s)(h \<mapsto> node_Init\<lparr>m_ahItems := (m_ahItems node_Init)[0 := hRecord], m_ushNItems := 1\<rparr>)\<rparr>) }"

section \<open>Arrays of items\<close>

definition item :: "ttree_node \<Rightarrow> nat \<Rightarrow> nat option" where
  "item n i = (if i < length (m_ahItems n) then Some (m_ahItems n ! i) else None)"

definition last_item :: "ttree_node \<Rightarrow> nat option" where
  "last_item n = (if m_ushNItems n = 0 then None else item n (m_ushNItems n - 1))"

definition set_item :: "nat \<Rightarrow> nat \<Rightarrow> nat list \<Rightarrow> nat list option" where
  "set_item i v xs = (if i < length xs then Some (xs[i := v]) else None)"

text \<open>The two loops that move items by one place: \<open>for (; i > lo; i--) a[i] = a[i - 1]\<close> and
  \<open>for (; i < hi; i++) a[i - 1] = a[i]\<close>.\<close>

fun shift_up :: "nat \<Rightarrow> nat \<Rightarrow> nat list \<Rightarrow> nat list option" where
  "shift_up lo i xs = (if lo < i then (if i < length xs then shift_up lo (i - 1) (xs[i := xs ! (i - 1)]) else None) else Some xs)"

function shift_down :: "nat \<Rightarrow> nat \<Rightarrow> nat list \<Rightarrow> nat list option" where
  "shift_down i hi xs = (if i < hi then (if i < length xs then shift_down (i + 1) hi (xs[i - 1 := xs ! i]) else None) else Some xs)"
  by auto
termination by (relation "measure (\<lambda>(i, hi, xs). hi - i)") auto

declare shift_up.simps [simp del] shift_down.simps [simp del]

definition insert_item :: "nat \<Rightarrow> nat \<Rightarrow> ttree_node \<Rightarrow> ttree_node option" where
  "insert_item i v n = do {
     xs \<leftarrow> shift_up i (m_ushNItems n) (m_ahItems n);
     ys \<leftarrow> set_item i v xs;
     Some (n\<lparr>m_ahItems := ys, m_ushNItems := m_ushNItems n + 1\<rparr>) }"

text \<open>The binary search of a node: the position of an equal item, or the place of the key before \<open>iRight\<close>.\<close>

function search_items :: "(nat \<Rightarrow> int) \<Rightarrow> nat list \<Rightarrow> nat \<Rightarrow> nat \<Rightarrow> (nat + nat) option" where
  "search_items diff xs iLeft iRight =
     (if iLeft < iRight then
        (if (iLeft + iRight) div 2 < length xs then
           (if diff (xs ! ((iLeft + iRight) div 2)) = 0 then Some (Inl ((iLeft + iRight) div 2))
            else if diff (xs ! ((iLeft + iRight) div 2)) > 0 then search_items diff xs ((iLeft + iRight) div 2 + 1) iRight
            else search_items diff xs iLeft ((iLeft + iRight) div 2))
         else None)
      else Some (Inr iRight))"
  by pat_completeness auto
termination by (relation "measure (\<lambda>(d, xs, l, r). r - l)") auto

declare search_items.simps [simp del]

section \<open>Turns\<close>

text \<open>The pointers of the single turns; the balances are set by the callers.\<close>

definition ll_turn :: "nat \<Rightarrow> nat \<Rightarrow> int \<Rightarrow> int \<Rightarrow> 'm tree_mem \<Rightarrow> 'm tree_mem option" where
  "ll_turn hNode hLeft bNode bLeft s = do {
     l \<leftarrow> nodes s hLeft;
     s \<leftarrow> upd_node hNode (m_hLeft_update (\<lambda>_. m_hRight l)) s;
     s \<leftarrow> upd_node hLeft (m_hRight_update (\<lambda>_. hNode)) s;
     s \<leftarrow> upd_node hNode (m_chBalance_update (\<lambda>_. bNode)) s;
     upd_node hLeft (m_chBalance_update (\<lambda>_. bLeft)) s }"

definition rr_turn :: "nat \<Rightarrow> nat \<Rightarrow> int \<Rightarrow> int \<Rightarrow> 'm tree_mem \<Rightarrow> 'm tree_mem option" where
  "rr_turn hNode hRight bNode bRight s = do {
     r \<leftarrow> nodes s hRight;
     s \<leftarrow> upd_node hNode (m_hRight_update (\<lambda>_. m_hLeft r)) s;
     s \<leftarrow> upd_node hRight (m_hLeft_update (\<lambda>_. hNode)) s;
     s \<leftarrow> upd_node hNode (m_chBalance_update (\<lambda>_. bNode)) s;
     upd_node hRight (m_chBalance_update (\<lambda>_. bRight)) s }"

definition lr_turn :: "nat \<Rightarrow> nat \<Rightarrow> 'm tree_mem \<Rightarrow> (nat \<times> 'm tree_mem) option" where
  "lr_turn hNode hLeft s = do {
     l \<leftarrow> nodes s hLeft;
     r \<leftarrow> nodes s (m_hRight l);
     s \<leftarrow> upd_node hLeft (m_hRight_update (\<lambda>_. m_hLeft r)) s;
     s \<leftarrow> upd_node (m_hRight l) (m_hLeft_update (\<lambda>_. hLeft)) s;
     s \<leftarrow> upd_node hNode (m_hLeft_update (\<lambda>_. m_hRight r)) s;
     s \<leftarrow> upd_node (m_hRight l) (m_hRight_update (\<lambda>_. hNode)) s;
     s \<leftarrow> upd_node hNode (m_chBalance_update (\<lambda>_. if m_chBalance r < 0 then 1 else 0)) s;
     s \<leftarrow> upd_node hLeft (m_chBalance_update (\<lambda>_. if m_chBalance r > 0 then - 1 else 0)) s;
     s \<leftarrow> upd_node (m_hRight l) (m_chBalance_update (\<lambda>_. 0)) s;
     Some (m_hRight l, s) }"

definition rl_turn :: "nat \<Rightarrow> nat \<Rightarrow> 'm tree_mem \<Rightarrow> (nat \<times> 'm tree_mem) option" where
  "rl_turn hNode hRight s = do {
     r \<leftarrow> nodes s hRight;
     l \<leftarrow> nodes s (m_hLeft r);
     s \<leftarrow> upd_node hRight (m_hLeft_update (\<lambda>_. m_hRight l)) s;
     s \<leftarrow> upd_node (m_hLeft r) (m_hRight_update (\<lambda>_. hRight)) s;
     s \<leftarrow> upd_node hNode (m_hRight_update (\<lambda>_. m_hLeft l)) s;
     s \<leftarrow> upd_node (m_hLeft r) (m_hLeft_update (\<lambda>_. hNode)) s;
     s \<leftarrow> upd_node hNode (m_chBalance_update (\<lambda>_. if m_chBalance l > 0 then - 1 else 0)) s;
     s \<leftarrow> upd_node hRight (m_chBalance_update (\<lambda>_. if m_chBalance l < 0 then 1 else 0)) s;
     s \<leftarrow> upd_node (m_hLeft r) (m_chBalance_update (\<lambda>_. 0)) s;
     Some (m_hLeft r, s) }"

section \<open>Insertion\<close>

text \<open>What \<open>Insert\<close> does after a branch has grown. The result is the return value, the new root of the
  branch and the memory.\<close>

definition grew_left :: "nat \<Rightarrow> 'm tree_mem \<Rightarrow> (int \<times> nat \<times> 'm tree_mem) option" where
  "grew_left hNode s = do {
     n \<leftarrow> nodes s hNode;
     if m_chBalance n > 0 then do { s \<leftarrow> upd_node hNode (m_chBalance_update (\<lambda>_. 0)) s; Some (0, hNode, s) }
     else if m_chBalance n = 0 then do { s \<leftarrow> upd_node hNode (m_chBalance_update (\<lambda>_. - 1)) s; Some (1, hNode, s) }
     else do {
       l \<leftarrow> nodes s (m_hLeft n);
       if m_chBalance l < 0 then do { s \<leftarrow> ll_turn hNode (m_hLeft n) 0 0 s; Some (0, m_hLeft n, s) }
       else do { (h, s) \<leftarrow> lr_turn hNode (m_hLeft n) s; Some (0, h, s) } } }"

definition grew_right :: "nat \<Rightarrow> 'm tree_mem \<Rightarrow> (int \<times> nat \<times> 'm tree_mem) option" where
  "grew_right hNode s = do {
     n \<leftarrow> nodes s hNode;
     if m_chBalance n < 0 then do { s \<leftarrow> upd_node hNode (m_chBalance_update (\<lambda>_. 0)) s; Some (0, hNode, s) }
     else if m_chBalance n = 0 then do { s \<leftarrow> upd_node hNode (m_chBalance_update (\<lambda>_. 1)) s; Some (1, hNode, s) }
     else do {
       r \<leftarrow> nodes s (m_hRight n);
       if m_chBalance r > 0 then do { s \<leftarrow> rr_turn hNode (m_hRight n) 0 0 s; Some (0, m_hRight n, s) }
       else do { (h, s) \<leftarrow> rl_turn hNode (m_hRight n) s; Some (0, h, s) } } }"

text \<open>A full node makes room for the new record by giving up its first or its last item.\<close>

definition displace :: "nat \<Rightarrow> nat \<Rightarrow> ttree_node \<Rightarrow> (nat \<times> ttree_node) option" where
  "displace iRight hRecord n =
     (if m_chBalance n \<ge> 0 then do {
        h \<leftarrow> item n 0;
        xs \<leftarrow> shift_down 1 iRight (m_ahItems n);
        ys \<leftarrow> (if iRight = 0 then None else set_item (iRight - 1) hRecord xs);
        Some (h, n\<lparr>m_ahItems := ys\<rparr>) }
      else do {
        h \<leftarrow> last_item n;
        xs \<leftarrow> shift_up iRight (m_ushNItems n - 1) (m_ahItems n);
        ys \<leftarrow> set_item iRight hRecord xs;
        Some (h, n\<lparr>m_ahItems := ys\<rparr>) })"

partial_function (option) node_Insert :: "('k, 'm) tree_env \<Rightarrow> 'k \<Rightarrow> nat \<Rightarrow> nat \<Rightarrow> 'm tree_mem \<Rightarrow> (int \<times> nat \<times> 'm tree_mem) option" where
  "node_Insert E k hRecord hNode s = do {
     n \<leftarrow> nodes s hNode;
     x \<leftarrow> item n 0;
     if iDiff E (heap s) k x = 0 then Some (- 2, hNode, s)
     else if iDiff E (heap s) k x < 0 then
       (if m_hLeft n = 0 \<and> m_ushNItems n < PAGE_SIZE then do {
          n' \<leftarrow> insert_item 0 hRecord n;
          s \<leftarrow> upd_node hNode (\<lambda>_. n') s;
          Some (0, hNode, s) }
        else if m_hLeft n = 0 then do {
          (hLeft, s) \<leftarrow> node_Alloc E hRecord s;
          if hLeft = 0 then Some (- 1, hNode, s)
          else do {
            s \<leftarrow> upd_node hNode (m_hLeft_update (\<lambda>_. hLeft)) (s\<lparr>node_flag := True\<rparr>);
            grew_left hNode s } }
        else do {
          (iGrow, hChild, s) \<leftarrow> node_Insert E k hRecord (m_hLeft n) s;
          if iGrow < 0 then Some (iGrow, hNode, s)
          else do {
            s \<leftarrow> (if hChild \<noteq> m_hLeft n then upd_node hNode (m_hLeft_update (\<lambda>_. hChild)) s else Some s);
            if iGrow = 0 then Some (0, hNode, s) else grew_left hNode s } })
     else do {
       y \<leftarrow> last_item n;
       if iDiff E (heap s) k y = 0 then Some (- 2, hNode, s)
       else if iDiff E (heap s) k y > 0 then
         (if m_hRight n = 0 \<and> m_ushNItems n < PAGE_SIZE then do {
            n' \<leftarrow> insert_item (m_ushNItems n) hRecord n;
            s \<leftarrow> upd_node hNode (\<lambda>_. n') s;
            Some (0, hNode, s) }
          else if m_hRight n = 0 then do {
            (hRight, s) \<leftarrow> node_Alloc E hRecord s;
            if hRight = 0 then Some (- 1, hNode, s)
            else do {
              s \<leftarrow> upd_node hNode (m_hRight_update (\<lambda>_. hRight)) (s\<lparr>node_flag := True\<rparr>);
              grew_right hNode s } }
          else do {
            (iGrow, hChild, s) \<leftarrow> node_Insert E k hRecord (m_hRight n) s;
            if iGrow < 0 then Some (iGrow, hNode, s)
            else do {
              s \<leftarrow> (if hChild \<noteq> m_hRight n then upd_node hNode (m_hRight_update (\<lambda>_. hChild)) s else Some s);
              if iGrow = 0 then Some (0, hNode, s) else grew_right hNode s } })
       else do {
         p \<leftarrow> search_items (iDiff E (heap s) k) (m_ahItems n) 1 (m_ushNItems n - 1);
         case p of Inl i \<Rightarrow> Some (- 2, hNode, s)
         | Inr iRight \<Rightarrow>
             (if m_ushNItems n < PAGE_SIZE then do {
                n' \<leftarrow> insert_item iRight hRecord n;
                s \<leftarrow> upd_node hNode (\<lambda>_. n') s;
                Some (0, hNode, s) }
              else do {
                (hReInsert, n') \<leftarrow> displace iRight hRecord n;
                s \<leftarrow> upd_node hNode (\<lambda>_. n') s;
                (iRet, hTop, s) \<leftarrow> node_Insert E (cvalue E (heap s) hReInsert) hReInsert hNode s;
                if iRet < 0 then do {
                  s \<leftarrow> upd_node hNode (m_ahItems_update (\<lambda>_. m_ahItems n)) s;
                  Some (iRet, hTop, s) }
                else Some (iRet, hTop, s) }) } } }"

section \<open>Removal\<close>

definition balance_left_branch :: "nat \<Rightarrow> 'm tree_mem \<Rightarrow> (int \<times> nat \<times> 'm tree_mem) option" where
  "balance_left_branch hNode s = do {
     n \<leftarrow> nodes s hNode;
     if m_chBalance n < 0 then do { s \<leftarrow> upd_node hNode (m_chBalance_update (\<lambda>_. 0)) s; Some (1, hNode, s) }
     else if m_chBalance n = 0 then do { s \<leftarrow> upd_node hNode (m_chBalance_update (\<lambda>_. 1)) s; Some (0, hNode, s) }
     else do {
       r \<leftarrow> nodes s (m_hRight n);
       if m_chBalance r \<ge> 0 then
         (if m_chBalance r = 0 then do { s \<leftarrow> rr_turn hNode (m_hRight n) 1 (- 1) s; Some (0, m_hRight n, s) }
          else do { s \<leftarrow> rr_turn hNode (m_hRight n) 0 0 s; Some (1, m_hRight n, s) })
       else do { (h, s) \<leftarrow> rl_turn hNode (m_hRight n) s; Some (1, h, s) } } }"

definition balance_right_branch :: "nat \<Rightarrow> 'm tree_mem \<Rightarrow> (int \<times> nat \<times> 'm tree_mem) option" where
  "balance_right_branch hNode s = do {
     n \<leftarrow> nodes s hNode;
     if m_chBalance n > 0 then do { s \<leftarrow> upd_node hNode (m_chBalance_update (\<lambda>_. 0)) s; Some (1, hNode, s) }
     else if m_chBalance n = 0 then do { s \<leftarrow> upd_node hNode (m_chBalance_update (\<lambda>_. - 1)) s; Some (0, hNode, s) }
     else do {
       l \<leftarrow> nodes s (m_hLeft n);
       if m_chBalance l \<le> 0 then
         (if m_chBalance l = 0 then do { s \<leftarrow> ll_turn hNode (m_hLeft n) (- 1) 1 s; Some (0, m_hLeft n, s) }
          else do { s \<leftarrow> ll_turn hNode (m_hLeft n) 0 0 s; Some (1, m_hLeft n, s) })
       else do { (h, s) \<leftarrow> lr_turn hNode (m_hLeft n) s; Some (1, h, s) } } }"

text \<open>The loop over the items compares all 64 bits.\<close>

fun find_item :: "(nat \<Rightarrow> u64) \<Rightarrow> nat list \<Rightarrow> nat \<Rightarrow> nat option" where
  "find_item pc [] i = None"
| "find_item pc (x # xs) i = (if pc x = 0 then Some i else find_item pc xs (i + 1))"

definition items_of :: "ttree_node \<Rightarrow> nat list option" where
  "items_of n = (if m_ushNItems n \<le> length (m_ahItems n) then Some (take (m_ushNItems n) (m_ahItems n)) else None)"

partial_function (option) rightmost :: "nat \<Rightarrow> 'm tree_mem \<Rightarrow> ttree_node option" where
  "rightmost h s = do { n \<leftarrow> nodes s h; if m_hRight n \<noteq> 0 then rightmost (m_hRight n) s else Some n }"

partial_function (option) leftmost :: "nat \<Rightarrow> 'm tree_mem \<Rightarrow> ttree_node option" where
  "leftmost h s = do { n \<leftarrow> nodes s h; if m_hLeft n \<noteq> 0 then leftmost (m_hLeft n) s else Some n }"

definition free_node :: "('k, 'm) tree_env \<Rightarrow> nat \<Rightarrow> 'm tree_mem \<Rightarrow> 'm tree_mem option" where
  "free_node E h s = do { (rc, m) \<leftarrow> Free E h (heap s); Some (s\<lparr>heap := m, nodes := (nodes s)(h := None)\<rparr>) }"

text \<open>Item \<open>i\<close> is removed and replaced by the greatest item of the left branch or the least one of the
  right branch, or the items behind it close the gap.\<close>

definition take_left :: "nat \<Rightarrow> ttree_node \<Rightarrow> 'm tree_mem \<Rightarrow> (nat \<times> ttree_node) option" where
  "take_left i n s = do {
     l \<leftarrow> rightmost (m_hLeft n) s;
     xs \<leftarrow> shift_up 0 i (m_ahItems n);
     x \<leftarrow> last_item l;
     ys \<leftarrow> set_item 0 x xs;
     Some (x, n\<lparr>m_ahItems := ys\<rparr>) }"

definition take_right :: "nat \<Rightarrow> ttree_node \<Rightarrow> 'm tree_mem \<Rightarrow> (nat \<times> ttree_node) option" where
  "take_right i n s = do {
     r \<leftarrow> leftmost (m_hRight n) s;
     xs \<leftarrow> shift_down (i + 1) (m_ushNItems n) (m_ahItems n);
     x \<leftarrow> item r 0;
     ys \<leftarrow> set_item (m_ushNItems n - 1) x xs;
     Some (x, n\<lparr>m_ahItems := ys\<rparr>) }"

definition remove_item :: "nat \<Rightarrow> ttree_node \<Rightarrow> ttree_node option" where
  "remove_item i n = do {
     xs \<leftarrow> shift_down (i + 1) (m_ushNItems n) (m_ahItems n);
     Some (n\<lparr>m_ahItems := xs, m_ushNItems := m_ushNItems n - 1\<rparr>) }"

partial_function (option) node_Delete :: "('k, 'm) tree_env \<Rightarrow> 'k \<Rightarrow> nat \<Rightarrow> 'm tree_mem \<Rightarrow> (int \<times> nat \<times> 'm tree_mem) option" where
  "node_Delete E k hNode s = do {
     n \<leftarrow> nodes s hNode;
     x \<leftarrow> item n 0;
     res \<leftarrow> (if iDiff E (heap s) k x < 0 \<and> m_hLeft n \<noteq> 0 then do {
          (iRet, hChild, s) \<leftarrow> node_Delete E k (m_hLeft n) s;
          if iRet < - 1 then Some (Inl (iRet, hNode, s))
          else do {
            s \<leftarrow> (if hChild \<noteq> m_hLeft n then upd_node hNode (m_hLeft_update (\<lambda>_. hChild)) s else Some s);
            if iRet > 0 then do { r \<leftarrow> balance_left_branch hNode s; Some (Inl r) }
            else if iRet = 0 then Some (Inl (0, hNode, s))
            else Some (Inr s) } }
        else Some (Inr s));
     case res of Inl r \<Rightarrow> Some r
     | Inr s \<Rightarrow> do {
         n \<leftarrow> nodes s hNode;
         y \<leftarrow> last_item n;
         xs \<leftarrow> items_of n;
         case (if iDiff E (heap s) k y \<le> 0 then find_item (pfComp E (heap s) k) xs 0 else None) of
           Some i \<Rightarrow>
             (if m_ushNItems n = 1 \<and> m_hRight n = 0 then do { s \<leftarrow> free_node E hNode s; Some (1, m_hLeft n, s) }
              else if m_ushNItems n = 1 \<and> m_hLeft n = 0 then do { s \<leftarrow> free_node E hNode s; Some (1, m_hRight n, s) }
              else if m_ushNItems n \<le> MIN_ITEMS \<and> m_hLeft n \<noteq> 0 \<and> m_chBalance n \<le> 0 then do {
                (z, n') \<leftarrow> take_left i n s;
                s \<leftarrow> upd_node hNode (\<lambda>_. n') (s\<lparr>node_flag := (node_flag s \<or> m_ushNItems n = 1)\<rparr>);
                (iRet, hChild, s) \<leftarrow> node_Delete E (cvalue E (heap s) z) (m_hLeft n) s;
                if iRet < - 1 then Some (iRet, hNode, s)
                else do {
                  s \<leftarrow> (if hChild \<noteq> m_hLeft n then upd_node hNode (m_hLeft_update (\<lambda>_. hChild)) s else Some s);
                  if iRet > 0 then balance_left_branch hNode s else Some (iRet, hNode, s) } }
              else if m_ushNItems n \<le> MIN_ITEMS \<and> m_hRight n \<noteq> 0 then do {
                (z, n') \<leftarrow> take_right i n s;
                s \<leftarrow> upd_node hNode (\<lambda>_. n') (s\<lparr>node_flag := (node_flag s \<or> m_ushNItems n = 1)\<rparr>);
                (iRet, hChild, s) \<leftarrow> node_Delete E (cvalue E (heap s) z) (m_hRight n) s;
                if iRet < - 1 then Some (iRet, hNode, s)
                else do {
                  s \<leftarrow> (if hChild \<noteq> m_hRight n then upd_node hNode (m_hRight_update (\<lambda>_. hChild)) s else Some s);
                  if iRet > 0 then balance_right_branch hNode s else Some (iRet, hNode, s) } }
              else do {
                n' \<leftarrow> remove_item i n;
                s \<leftarrow> upd_node hNode (\<lambda>_. n') (s\<lparr>node_flag := (node_flag s \<or> m_ushNItems n = 1)\<rparr>);
                Some (0, hNode, s) })
         | None \<Rightarrow>
             (if m_hRight n \<noteq> 0 then do {
                (iRet, hChild, s) \<leftarrow> node_Delete E k (m_hRight n) s;
                if iRet < - 1 then Some (iRet, hNode, s)
                else do {
                  s \<leftarrow> (if hChild \<noteq> m_hRight n then upd_node hNode (m_hRight_update (\<lambda>_. hChild)) s else Some s);
                  if iRet > 0 then balance_right_branch hNode s else Some (iRet, hNode, s) } }
              else Some (- 1, hNode, s)) } }"

section \<open>Release of the whole tree\<close>

fun free_items :: "('k, 'm) tree_env \<Rightarrow> nat list \<Rightarrow> 'm \<Rightarrow> 'm option" where
  "free_items E [] m = Some m"
| "free_items E (x # xs) m = do { (rc, m) \<leftarrow> Free E x m; free_items E xs m }"

partial_function (option) node_Destroy :: "('k, 'm) tree_env \<Rightarrow> nat \<Rightarrow> 'm tree_mem \<Rightarrow> 'm tree_mem option" where
  "node_Destroy E hNode s = (if hNode = 0 then Some s else do {
     n \<leftarrow> nodes s hNode;
     xs \<leftarrow> items_of n;
     m \<leftarrow> free_items E xs (heap s);
     s \<leftarrow> free_node E hNode (s\<lparr>heap := m\<rparr>);
     s \<leftarrow> node_Destroy E (m_hLeft n) s;
     node_Destroy E (m_hRight n) s })"

fun item_sizes :: "('k, 'm) tree_env \<Rightarrow> 'm \<Rightarrow> nat list \<Rightarrow> u32 option" where
  "item_sizes E m [] = Some 0"
| "item_sizes E m (x # xs) = do { a \<leftarrow> size_of E m x; b \<leftarrow> item_sizes E m xs; Some (word_of_nat a + b) }"

partial_function (option) node_destroy_size :: "('k, 'm) tree_env \<Rightarrow> nat \<Rightarrow> 'm tree_mem \<Rightarrow> u32 option" where
  "node_destroy_size E hNode s = (if hNode = 0 then Some 0 else do {
     n \<leftarrow> nodes s hNode;
     xs \<leftarrow> items_of n;
     a \<leftarrow> item_sizes E (heap s) xs;
     b \<leftarrow> size_of E (heap s) hNode;
     c \<leftarrow> node_destroy_size E (m_hLeft n) s;
     d \<leftarrow> node_destroy_size E (m_hRight n) s;
     Some (a + word_of_nat b + c + d) })"

section \<open>Search\<close>

text \<open>A pointer to an item is the handle of the node with the position.\<close>

partial_function (option) node_Find :: "('k, 'm) tree_env \<Rightarrow> 'k \<Rightarrow> nat \<Rightarrow> 'm tree_mem \<Rightarrow> (int \<times> (nat \<times> nat) option) option" where
  "node_Find E k this s = do {
     n \<leftarrow> nodes s this;
     if m_ushNItems n = 0 then Some (0, None)
     else do {
       x \<leftarrow> item n 0;
       if iDiff E (heap s) k x = 0 then Some (1, Some (this, 0))
       else if iDiff E (heap s) k x > 0 then do {
         y \<leftarrow> last_item n;
         if iDiff E (heap s) k y = 0 then Some (1, Some (this, m_ushNItems n - 1))
         else if iDiff E (heap s) k y > 0 then
           (if m_hRight n = 0 then Some (0, None) else node_Find E k (m_hRight n) s)
         else do {
           p \<leftarrow> search_items (iDiff E (heap s) k) (m_ahItems n) 1 (m_ushNItems n - 1);
           case p of Inl i \<Rightarrow> Some (1, Some (this, i)) | Inr i \<Rightarrow> Some (0, None) } }
       else if m_hLeft n = 0 then Some (0, None) else node_Find E k (m_hLeft n) s } }"

definition node_Find_record :: "('k, 'm) tree_env \<Rightarrow> 'k \<Rightarrow> nat \<Rightarrow> 'm tree_mem \<Rightarrow> (int \<times> nat) option" where
  "node_Find_record E k this s = do {
     (iRet, p) \<leftarrow> node_Find E k this s;
     case p of Some (h, i) \<Rightarrow> (if iRet = 1 then do { n \<leftarrow> nodes s h; x \<leftarrow> item n i; Some (iRet, x) } else Some (iRet, 0))
     | None \<Rightarrow> Some (iRet, 0) }"

partial_function (option) node_find_handle :: "nat \<Rightarrow> nat \<Rightarrow> 'm tree_mem \<Rightarrow> int option" where
  "node_find_handle hRecord this s = do {
     n \<leftarrow> nodes s this;
     xs \<leftarrow> items_of n;
     if m_ushNItems n = 0 then Some 0
     else if hRecord \<in> set xs then Some 1
     else do {
       r \<leftarrow> (if m_hRight n \<noteq> 0 then node_find_handle hRecord (m_hRight n) s else Some 0);
       if r = 1 then Some 1
       else do {
         l \<leftarrow> (if m_hLeft n \<noteq> 0 then node_find_handle hRecord (m_hLeft n) s else Some 0);
         if l = 1 then Some 1 else Some 0 } } }"

partial_function (option) node_find_node :: "('k, 'm) tree_env \<Rightarrow> 'k \<Rightarrow> nat \<Rightarrow> 'm tree_mem \<Rightarrow> (int \<times> nat) option" where
  "node_find_node E k this s = do {
     n \<leftarrow> nodes s this;
     if m_ushNItems n = 0 then Some (0, 0)
     else do {
       x \<leftarrow> item n 0;
       if iDiff E (heap s) k x = 0 then Some (1, this)
       else if iDiff E (heap s) k x > 0 then do {
         y \<leftarrow> last_item n;
         if iDiff E (heap s) k y \<le> 0 then Some (1, this)
         else if m_hRight n = 0 then Some (0, 0) else node_find_node E k (m_hRight n) s }
       else if m_hLeft n = 0 then Some (1, this) else node_find_node E k (m_hLeft n) s } }"

section \<open>Traversal\<close>

text \<open>A visitor is called with a record and its cookie and returns a code and the new cookie; a code other
  than zero ends the traversal. The loops over the items of a node visit those that pass a test.\<close>

type_synonym 'c visitor = "nat \<Rightarrow> 'c \<Rightarrow> int \<times> 'c"

fun visit_each :: "(nat \<Rightarrow> bool) \<Rightarrow> 'c visitor \<Rightarrow> nat list \<Rightarrow> 'c \<Rightarrow> int \<times> 'c" where
  "visit_each P vis [] c = (0, c)"
| "visit_each P vis (x # xs) c =
     (if P x then (case vis x c of (iRet, c) \<Rightarrow> if iRet \<noteq> 0 then (iRet, c) else visit_each P vis xs c)
      else visit_each P vis xs c)"

partial_function (option) traverse_forward :: "'c visitor \<Rightarrow> nat \<Rightarrow> 'm tree_mem \<Rightarrow> 'c \<Rightarrow> (int \<times> 'c) option" where
  "traverse_forward vis this s c = do {
     n \<leftarrow> nodes s this;
     (iRet, c) \<leftarrow> (if m_hLeft n \<noteq> 0 then traverse_forward vis (m_hLeft n) s c else Some (0, c));
     if iRet \<noteq> 0 then Some (iRet, c) else do {
     xs \<leftarrow> items_of n;
     (iRet, c) \<leftarrow> Some (visit_each (\<lambda>_. True) vis xs c);
     if iRet \<noteq> 0 then Some (iRet, c)
     else if m_hRight n \<noteq> 0 then traverse_forward vis (m_hRight n) s c else Some (0, c) } }"

partial_function (option) traverse_backward :: "'c visitor \<Rightarrow> nat \<Rightarrow> 'm tree_mem \<Rightarrow> 'c \<Rightarrow> (int \<times> 'c) option" where
  "traverse_backward vis this s c = do {
     n \<leftarrow> nodes s this;
     (iRet, c) \<leftarrow> (if m_hRight n \<noteq> 0 then traverse_backward vis (m_hRight n) s c else Some (0, c));
     if iRet \<noteq> 0 then Some (iRet, c) else do {
     xs \<leftarrow> items_of n;
     (iRet, c) \<leftarrow> Some (visit_each (\<lambda>_. True) vis (rev xs) c);
     if iRet \<noteq> 0 then Some (iRet, c)
     else if m_hLeft n \<noteq> 0 then traverse_backward vis (m_hLeft n) s c else Some (0, c) } }"

partial_function (option) post_order_traverse :: "'c visitor \<Rightarrow> nat \<Rightarrow> 'm tree_mem \<Rightarrow> 'c \<Rightarrow> (int \<times> 'c) option" where
  "post_order_traverse vis this s c = do {
     n \<leftarrow> nodes s this;
     (iRet, c) \<leftarrow> (if m_hRight n \<noteq> 0 then post_order_traverse vis (m_hRight n) s c else Some (0, c));
     if iRet \<noteq> 0 then Some (iRet, c) else do {
     (iRet, c) \<leftarrow> (if m_hLeft n \<noteq> 0 then post_order_traverse vis (m_hLeft n) s c else Some (0, c));
     if iRet \<noteq> 0 then Some (iRet, c) else do {
     xs \<leftarrow> items_of n;
     Some (visit_each (\<lambda>_. True) vis (rev xs) c) } } }"

text \<open>The range \<open>[key, key + iInclusion]\<close>: the loop ends at the first item beyond the range, and the flag
  says whether it came to the end. The negation of the least \<open>int\<close> is not defined.\<close>

fun visit_inclusion :: "(nat \<Rightarrow> int) \<Rightarrow> int \<Rightarrow> 'c visitor \<Rightarrow> nat list \<Rightarrow> 'c \<Rightarrow> (int \<times> bool \<times> 'c) option" where
  "visit_inclusion diff inc vis [] c = Some (0, True, c)"
| "visit_inclusion diff inc vis (x # xs) c =
     (if inc = - (2 ^ 31) then None
      else if diff x \<le> 0 \<and> diff x \<ge> 0 - inc then
        (case vis x c of (iRet, c) \<Rightarrow> if iRet \<noteq> 0 then Some (iRet, False, c) else visit_inclusion diff inc vis xs c)
      else if diff x < 0 - inc then Some (0, False, c)
      else visit_inclusion diff inc vis xs c)"

partial_function (option) traverse_forward_inclusion ::
    "('k, 'm) tree_env \<Rightarrow> 'k \<Rightarrow> int \<Rightarrow> 'c visitor \<Rightarrow> nat \<Rightarrow> 'm tree_mem \<Rightarrow> 'c \<Rightarrow> (int \<times> 'c) option" where
  "traverse_forward_inclusion E k inc vis this s c = do {
     n \<leftarrow> nodes s this;
     x \<leftarrow> item n 0;
     (iRet, c) \<leftarrow> (if m_hLeft n \<noteq> 0 \<and> iDiff E (heap s) k x < 0 then traverse_forward_inclusion E k inc vis (m_hLeft n) s c else Some (0, c));
     if iRet \<noteq> 0 then Some (iRet, c) else do {
     y \<leftarrow> last_item n;
     xs \<leftarrow> items_of n;
     (iRet, all, c) \<leftarrow> (if iDiff E (heap s) k y \<le> 0 then visit_inclusion (iDiff E (heap s) k) inc vis xs c else Some (0, True, c));
     if iRet \<noteq> 0 then Some (iRet, c)
     else if all \<and> m_hRight n \<noteq> 0 then traverse_forward_inclusion E k inc vis (m_hRight n) s c else Some (0, c) } }"

definition in_range :: "('k, 'm) tree_env \<Rightarrow> 'm \<Rightarrow> 'k \<Rightarrow> 'k \<Rightarrow> nat \<Rightarrow> bool" where
  "in_range E m k k1 x \<longleftrightarrow> iDiff E m k x \<le> 0 \<and> iDiff E m k1 x \<ge> 0"

partial_function (option) traverse_forward_range ::
    "('k, 'm) tree_env \<Rightarrow> 'k \<Rightarrow> 'k \<Rightarrow> 'c visitor \<Rightarrow> nat \<Rightarrow> 'm tree_mem \<Rightarrow> 'c \<Rightarrow> (int \<times> 'c) option" where
  "traverse_forward_range E k k1 vis this s c = do {
     n \<leftarrow> nodes s this;
     x \<leftarrow> item n 0;
     (iRet, c) \<leftarrow> (if m_hLeft n \<noteq> 0 \<and> iDiff E (heap s) k x < 0 then traverse_forward_range E k k1 vis (m_hLeft n) s c else Some (0, c));
     if iRet \<noteq> 0 then Some (iRet, c) else do {
     y \<leftarrow> last_item n;
     xs \<leftarrow> items_of n;
     (iRet, c) \<leftarrow> (if iDiff E (heap s) k1 x < 0 \<or> iDiff E (heap s) k y > 0 then Some (0, c)
                    else Some (visit_each (in_range E (heap s) k k1) vis xs c));
     if iRet \<noteq> 0 then Some (iRet, c)
     else if iDiff E (heap s) k1 y \<ge> 0 \<and> m_hRight n \<noteq> 0 then traverse_forward_range E k k1 vis (m_hRight n) s c else Some (0, c) } }"

partial_function (option) traverse_forward_ge ::
    "('k, 'm) tree_env \<Rightarrow> 'k \<Rightarrow> 'c visitor \<Rightarrow> nat \<Rightarrow> 'm tree_mem \<Rightarrow> 'c \<Rightarrow> (int \<times> 'c) option" where
  "traverse_forward_ge E k vis this s c = do {
     n \<leftarrow> nodes s this;
     x \<leftarrow> item n 0;
     (iRet, c) \<leftarrow> (if m_hLeft n \<noteq> 0 \<and> iDiff E (heap s) k x < 0 then traverse_forward_ge E k vis (m_hLeft n) s c else Some (0, c));
     if iRet \<noteq> 0 then Some (iRet, c) else do {
     y \<leftarrow> last_item n;
     xs \<leftarrow> items_of n;
     (iRet, c) \<leftarrow> (if iDiff E (heap s) k y \<le> 0 then Some (visit_each (\<lambda>z. iDiff E (heap s) k z \<le> 0) vis xs c) else Some (0, c));
     if iRet \<noteq> 0 then Some (iRet, c)
     else if m_hRight n \<noteq> 0 then traverse_forward_ge E k vis (m_hRight n) s c else Some (0, c) } }"

partial_function (option) traverse_backward_range ::
    "('k, 'm) tree_env \<Rightarrow> 'k \<Rightarrow> 'k \<Rightarrow> 'c visitor \<Rightarrow> nat \<Rightarrow> 'm tree_mem \<Rightarrow> 'c \<Rightarrow> (int \<times> 'c) option" where
  "traverse_backward_range E k k1 vis this s c = do {
     n \<leftarrow> nodes s this;
     y \<leftarrow> last_item n;
     (iRet, c) \<leftarrow> (if m_hRight n \<noteq> 0 \<and> iDiff E (heap s) k1 y > 0 then traverse_backward_range E k k1 vis (m_hRight n) s c else Some (0, c));
     if iRet \<noteq> 0 then Some (iRet, c) else do {
     x \<leftarrow> item n 0;
     xs \<leftarrow> items_of n;
     (iRet, c) \<leftarrow> (if iDiff E (heap s) k1 x < 0 \<or> iDiff E (heap s) k y > 0 then Some (0, c)
                    else Some (visit_each (in_range E (heap s) k k1) vis (rev xs) c));
     if iRet \<noteq> 0 then Some (iRet, c)
     else if iDiff E (heap s) k x \<le> 0 \<and> m_hLeft n \<noteq> 0 then traverse_backward_range E k k1 vis (m_hLeft n) s c else Some (0, c) } }"

partial_function (option) traverse_backward_le ::
    "('k, 'm) tree_env \<Rightarrow> 'k \<Rightarrow> 'c visitor \<Rightarrow> nat \<Rightarrow> 'm tree_mem \<Rightarrow> 'c \<Rightarrow> (int \<times> 'c) option" where
  "traverse_backward_le E k vis this s c = do {
     n \<leftarrow> nodes s this;
     y \<leftarrow> last_item n;
     (iRet, c) \<leftarrow> (if m_hRight n \<noteq> 0 \<and> iDiff E (heap s) k y > 0 then traverse_backward_le E k vis (m_hRight n) s c else Some (0, c));
     if iRet \<noteq> 0 then Some (iRet, c) else do {
     x \<leftarrow> item n 0;
     xs \<leftarrow> items_of n;
     (iRet, c) \<leftarrow> (if iDiff E (heap s) k x \<ge> 0 then Some (visit_each (\<lambda>z. iDiff E (heap s) k z \<ge> 0) vis (rev xs) c) else Some (0, c));
     if iRet \<noteq> 0 then Some (iRet, c)
     else if m_hLeft n \<noteq> 0 then traverse_backward_le E k vis (m_hLeft n) s c else Some (0, c) } }"

partial_function (option) post_order_traverse_range ::
    "('k, 'm) tree_env \<Rightarrow> 'k \<Rightarrow> 'k \<Rightarrow> 'c visitor \<Rightarrow> nat \<Rightarrow> 'm tree_mem \<Rightarrow> 'c \<Rightarrow> (int \<times> 'c) option" where
  "post_order_traverse_range E k k1 vis this s c = do {
     n \<leftarrow> nodes s this;
     x \<leftarrow> item n 0;
     (iRet, c) \<leftarrow> (if m_hLeft n \<noteq> 0 \<and> iDiff E (heap s) k x < 0 then post_order_traverse_range E k k1 vis (m_hLeft n) s c else Some (0, c));
     if iRet \<noteq> 0 then Some (iRet, c) else do {
     y \<leftarrow> last_item n;
     (iRet, c) \<leftarrow> (if iDiff E (heap s) k1 y \<ge> 0 \<and> m_hRight n \<noteq> 0 then post_order_traverse_range E k k1 vis (m_hRight n) s c else Some (0, c));
     if iRet \<noteq> 0 then Some (iRet, c) else do {
     xs \<leftarrow> items_of n;
     if iDiff E (heap s) k1 x < 0 \<or> iDiff E (heap s) k y > 0 then Some (0, c)
     else Some (visit_each (in_range E (heap s) k k1) vis xs c) } } }"

partial_function (option) post_order_traverse_ge ::
    "('k, 'm) tree_env \<Rightarrow> 'k \<Rightarrow> 'c visitor \<Rightarrow> nat \<Rightarrow> 'm tree_mem \<Rightarrow> 'c \<Rightarrow> (int \<times> 'c) option" where
  "post_order_traverse_ge E k vis this s c = do {
     n \<leftarrow> nodes s this;
     x \<leftarrow> item n 0;
     (iRet, c) \<leftarrow> (if m_hLeft n \<noteq> 0 \<and> iDiff E (heap s) k x < 0 then post_order_traverse_ge E k vis (m_hLeft n) s c else Some (0, c));
     if iRet \<noteq> 0 then Some (iRet, c) else do {
     (iRet, c) \<leftarrow> (if m_hRight n \<noteq> 0 then post_order_traverse_ge E k vis (m_hRight n) s c else Some (0, c));
     if iRet \<noteq> 0 then Some (iRet, c) else do {
     y \<leftarrow> last_item n;
     xs \<leftarrow> items_of n;
     if iDiff E (heap s) k y \<le> 0 then Some (visit_each (\<lambda>z. iDiff E (heap s) k z \<le> 0) vis xs c) else Some (0, c) } } }"

partial_function (option) post_order_traverse_le ::
    "('k, 'm) tree_env \<Rightarrow> 'k \<Rightarrow> 'c visitor \<Rightarrow> nat \<Rightarrow> 'm tree_mem \<Rightarrow> 'c \<Rightarrow> (int \<times> 'c) option" where
  "post_order_traverse_le E k vis this s c = do {
     n \<leftarrow> nodes s this;
     y \<leftarrow> last_item n;
     (iRet, c) \<leftarrow> (if m_hRight n \<noteq> 0 \<and> iDiff E (heap s) k y > 0 then post_order_traverse_le E k vis (m_hRight n) s c else Some (0, c));
     if iRet \<noteq> 0 then Some (iRet, c) else do {
     (iRet, c) \<leftarrow> (if m_hLeft n \<noteq> 0 then post_order_traverse_le E k vis (m_hLeft n) s c else Some (0, c));
     if iRet \<noteq> 0 then Some (iRet, c) else do {
     x \<leftarrow> item n 0;
     xs \<leftarrow> items_of n;
     if iDiff E (heap s) k x \<ge> 0 then Some (visit_each (\<lambda>z. iDiff E (heap s) k z \<ge> 0) vis (rev xs) c) else Some (0, c) } } }"

section \<open>The tree\<close>

text \<open>\<open>Ttree\<close> is the handle of the root with the allocator; the error text is not modelled. The operations
  return the code with the root and the memory.\<close>

definition EC_NO_MEM :: int where "EC_NO_MEM = 2041"
definition EC_KEY_EXIST :: int where "EC_KEY_EXIST = 2042"

definition tree_new :: nat where
  "tree_new = 0"

definition tree_Attach :: "nat \<Rightarrow> nat \<Rightarrow> nat" where
  "tree_Attach hRoot m_hRoot = hRoot"

definition tree_first_node :: "nat \<Rightarrow> 'm tree_mem \<Rightarrow> nat option" where
  "tree_first_node m_hRoot s = (if m_hRoot = 0 then Some 0 else do { n \<leftarrow> nodes s m_hRoot; item n 0 })"

definition tree_Insert :: "('k, 'm) tree_env \<Rightarrow> 'k \<Rightarrow> nat \<Rightarrow> nat \<Rightarrow> 'm tree_mem \<Rightarrow> (int \<times> nat \<times> 'm tree_mem) option" where
  "tree_Insert E k hRecord m_hRoot s =
     (if m_hRoot = 0 then do {
        (hNode, s) \<leftarrow> node_Alloc E hRecord s;
        if hNode = 0 then Some (EC_NO_MEM, m_hRoot, s)
        else Some (0, hNode, s\<lparr>node_flag := True\<rparr>) }
      else do {
        (iRet, hNode, s) \<leftarrow> node_Insert E k hRecord m_hRoot s;
        if iRet = - 2 then Some (EC_KEY_EXIST, m_hRoot, s)
        else if iRet = - 1 then Some (EC_NO_MEM, m_hRoot, s)
        else if iRet < 0 then Some (- 1, m_hRoot, s)
        else Some (0, hNode, s) })"

definition tree_Delete :: "('k, 'm) tree_env \<Rightarrow> 'k \<Rightarrow> nat \<Rightarrow> 'm tree_mem \<Rightarrow> (int \<times> nat \<times> 'm tree_mem) option" where
  "tree_Delete E k m_hRoot s =
     (if m_hRoot = 0 then Some (0, m_hRoot, s)
      else do {
        (iRet, hNode, s) \<leftarrow> node_Delete E k m_hRoot s;
        if iRet < - 1 then Some (- 1, m_hRoot, s)
        else if iRet = - 1 then Some (- 1, m_hRoot, s)
        else Some (0, hNode, s) })"

definition tree_find_handle :: "nat \<Rightarrow> nat \<Rightarrow> 'm tree_mem \<Rightarrow> int option" where
  "tree_find_handle hRecord m_hRoot s = (if m_hRoot = 0 then Some 0 else node_find_handle hRecord m_hRoot s)"

definition tree_Find_record :: "('k, 'm) tree_env \<Rightarrow> 'k \<Rightarrow> nat \<Rightarrow> 'm tree_mem \<Rightarrow> (int \<times> nat) option" where
  "tree_Find_record E k m_hRoot s = (if m_hRoot = 0 then Some (0, 0) else node_Find_record E k m_hRoot s)"

definition tree_Find :: "('k, 'm) tree_env \<Rightarrow> 'k \<Rightarrow> nat \<Rightarrow> 'm tree_mem \<Rightarrow> (int \<times> (nat \<times> nat) option) option" where
  "tree_Find E k m_hRoot s = (if m_hRoot = 0 then Some (0, None) else node_Find E k m_hRoot s)"

definition tree_Destroy :: "('k, 'm) tree_env \<Rightarrow> nat \<Rightarrow> 'm tree_mem \<Rightarrow> (int \<times> nat \<times> 'm tree_mem) option" where
  "tree_Destroy E m_hRoot s = do { s \<leftarrow> node_Destroy E m_hRoot s; Some (0, 0, s) }"

definition tree_destroy_size :: "('k, 'm) tree_env \<Rightarrow> nat \<Rightarrow> 'm tree_mem \<Rightarrow> u32 option" where
  "tree_destroy_size E m_hRoot s = node_destroy_size E m_hRoot s"

definition tree_traverse_forward :: "'c visitor \<Rightarrow> nat \<Rightarrow> 'm tree_mem \<Rightarrow> 'c \<Rightarrow> (int \<times> 'c) option" where
  "tree_traverse_forward vis m_hRoot s c = (if m_hRoot \<noteq> 0 then traverse_forward vis m_hRoot s c else Some (0, c))"

definition tree_traverse_backward :: "'c visitor \<Rightarrow> nat \<Rightarrow> 'm tree_mem \<Rightarrow> 'c \<Rightarrow> (int \<times> 'c) option" where
  "tree_traverse_backward vis m_hRoot s c = (if m_hRoot \<noteq> 0 then traverse_backward vis m_hRoot s c else Some (0, c))"

definition tree_post_order_traverse :: "'c visitor \<Rightarrow> nat \<Rightarrow> 'm tree_mem \<Rightarrow> 'c \<Rightarrow> (int \<times> 'c) option" where
  "tree_post_order_traverse vis m_hRoot s c = (if m_hRoot \<noteq> 0 then post_order_traverse vis m_hRoot s c else Some (0, c))"

text \<open>The range of 64 bits is passed on as an \<open>int\<close>.\<close>

definition tree_forward_inclusion :: "('k, 'm) tree_env \<Rightarrow> 'k \<Rightarrow> u64 \<Rightarrow> 'c visitor \<Rightarrow> nat \<Rightarrow> 'm tree_mem \<Rightarrow> 'c \<Rightarrow> (int \<times> 'c) option" where
  "tree_forward_inclusion E k iInclusion vis m_hRoot s c =
     (if m_hRoot \<noteq> 0 then traverse_forward_inclusion E k (sint (ucast iInclusion :: u32)) vis m_hRoot s c else Some (0, c))"

definition tree_forward_ge :: "('k, 'm) tree_env \<Rightarrow> 'k \<Rightarrow> 'c visitor \<Rightarrow> nat \<Rightarrow> 'm tree_mem \<Rightarrow> 'c \<Rightarrow> (int \<times> 'c) option" where
  "tree_forward_ge E k vis m_hRoot s c = (if m_hRoot \<noteq> 0 then traverse_forward_ge E k vis m_hRoot s c else Some (0, c))"

definition tree_forward_range :: "('k, 'm) tree_env \<Rightarrow> 'k \<Rightarrow> 'k \<Rightarrow> 'c visitor \<Rightarrow> nat \<Rightarrow> 'm tree_mem \<Rightarrow> 'c \<Rightarrow> (int \<times> 'c) option" where
  "tree_forward_range E k k1 vis m_hRoot s c = (if m_hRoot \<noteq> 0 then traverse_forward_range E k k1 vis m_hRoot s c else Some (0, c))"

definition tree_backward_le :: "('k, 'm) tree_env \<Rightarrow> 'k \<Rightarrow> 'c visitor \<Rightarrow> nat \<Rightarrow> 'm tree_mem \<Rightarrow> 'c \<Rightarrow> (int \<times> 'c) option" where
  "tree_backward_le E k vis m_hRoot s c = (if m_hRoot \<noteq> 0 then traverse_backward_le E k vis m_hRoot s c else Some (0, c))"

definition tree_backward_range :: "('k, 'm) tree_env \<Rightarrow> 'k \<Rightarrow> 'k \<Rightarrow> 'c visitor \<Rightarrow> nat \<Rightarrow> 'm tree_mem \<Rightarrow> 'c \<Rightarrow> (int \<times> 'c) option" where
  "tree_backward_range E k k1 vis m_hRoot s c = (if m_hRoot \<noteq> 0 then traverse_backward_range E k k1 vis m_hRoot s c else Some (0, c))"

definition tree_post_range :: "('k, 'm) tree_env \<Rightarrow> 'k \<Rightarrow> 'k \<Rightarrow> 'c visitor \<Rightarrow> nat \<Rightarrow> 'm tree_mem \<Rightarrow> 'c \<Rightarrow> (int \<times> 'c) option" where
  "tree_post_range E k k1 vis m_hRoot s c = (if m_hRoot \<noteq> 0 then post_order_traverse_range E k k1 vis m_hRoot s c else Some (0, c))"

definition tree_post_ge :: "('k, 'm) tree_env \<Rightarrow> 'k \<Rightarrow> 'c visitor \<Rightarrow> nat \<Rightarrow> 'm tree_mem \<Rightarrow> 'c \<Rightarrow> (int \<times> 'c) option" where
  "tree_post_ge E k vis m_hRoot s c = (if m_hRoot \<noteq> 0 then post_order_traverse_ge E k vis m_hRoot s c else Some (0, c))"

definition tree_post_le :: "('k, 'm) tree_env \<Rightarrow> 'k \<Rightarrow> 'c visitor \<Rightarrow> nat \<Rightarrow> 'm tree_mem \<Rightarrow> 'c \<Rightarrow> (int \<times> 'c) option" where
  "tree_post_le E k vis m_hRoot s c = (if m_hRoot \<noteq> 0 then post_order_traverse_le E k vis m_hRoot s c else Some (0, c))"

end
