(* ===== verification/T_Tree_Rep.thy ===== *)
theory T_Tree_Rep
  imports T_Tree
begin

text \<open>
  Trees as values, and the memory that represents them: every node of the value is a structure at its own
  address whose pointers are the addresses of its branches. The turns of the code are the turns of
  the value, and the moves of items in a node are operations on lists.
\<close>

section \<open>Trees\<close>

datatype tt = Tip | Nd tt nat int "nat list" tt

fun root :: "tt \<Rightarrow> nat" where
  "root Tip = 0"
| "root (Nd l a b xs r) = a"

fun bal :: "tt \<Rightarrow> int" where
  "bal Tip = 0"
| "bal (Nd l a b xs r) = b"

fun addrs :: "tt \<Rightarrow> nat set" where
  "addrs Tip = {}"
| "addrs (Nd l a b xs r) = insert a (addrs l \<union> addrs r)"

fun inorder :: "tt \<Rightarrow> nat list" where
  "inorder Tip = []"
| "inorder (Nd l a b xs r) = inorder l @ xs @ inorder r"

fun height :: "tt \<Rightarrow> nat" where
  "height Tip = 0"
| "height (Nd l a b xs r) = Suc (max (height l) (height r))"

text \<open>Balanced, with the balance in every node, and every node holding between one and twenty items.\<close>

fun avl :: "tt \<Rightarrow> bool" where
  "avl Tip \<longleftrightarrow> True"
| "avl (Nd l a b xs r) \<longleftrightarrow> avl l \<and> avl r \<and> b = int (height r) - int (height l) \<and> - 1 \<le> b \<and> b \<le> 1"

fun filled :: "tt \<Rightarrow> bool" where
  "filled Tip \<longleftrightarrow> True"
| "filled (Nd l a b xs r) \<longleftrightarrow> filled l \<and> filled r \<and> xs \<noteq> [] \<and> length xs \<le> PAGE_SIZE"

section \<open>Representation\<close>

definition repn :: "(nat \<rightharpoonup> ttree_node) \<Rightarrow> nat \<Rightarrow> nat \<Rightarrow> nat \<Rightarrow> int \<Rightarrow> nat list \<Rightarrow> bool" where
  "repn N a hl hr b xs \<longleftrightarrow> (\<exists>ys. N a = Some \<lparr>m_hLeft = hl, m_hRight = hr, m_chBalance = b, m_ushNItems = length xs, m_ahItems = xs @ ys\<rparr> \<and>
     length (xs @ ys) = PAGE_SIZE)"

fun rep :: "(nat \<rightharpoonup> ttree_node) \<Rightarrow> tt \<Rightarrow> bool" where
  "rep N Tip \<longleftrightarrow> True"
| "rep N (Nd l a b xs r) \<longleftrightarrow> a \<noteq> 0 \<and> repn N a (root l) (root r) b xs \<and> rep N l \<and> rep N r \<and>
     a \<notin> addrs l \<and> a \<notin> addrs r \<and> addrs l \<inter> addrs r = {}"

lemma root_in_addrs: "t \<noteq> Tip \<Longrightarrow> root t \<in> addrs t"
  by (cases t) auto

lemma rep_no_null: "rep N t \<Longrightarrow> 0 \<notin> addrs t"
  by (induction t) auto

lemma root_0 [simp]: "rep N t \<Longrightarrow> root t = 0 \<longleftrightarrow> t = Tip"
  by (cases t) auto

lemma addrs_finite [simp]: "finite (addrs t)"
  by (induction t) auto

lemma repnE:
  assumes "repn N a hl hr b xs"
  obtains ys where "N a = Some \<lparr>m_hLeft = hl, m_hRight = hr, m_chBalance = b, m_ushNItems = length xs, m_ahItems = xs @ ys\<rparr>"
    "length (xs @ ys) = PAGE_SIZE"
  using assms unfolding repn_def by blast

lemma repn_cong: "N' a = N a \<Longrightarrow> repn N' a hl hr b xs = repn N a hl hr b xs"
  by (simp add: repn_def)

lemma rep_cong: "(\<And>a. a \<in> addrs t \<Longrightarrow> N' a = N a) \<Longrightarrow> rep N' t = rep N t"
  by (induction t) (auto simp: repn_def)

lemma rep_other [simp]: "a \<notin> addrs t \<Longrightarrow> rep (N(a := v)) t = rep N t"
  by (rule rep_cong) auto

lemma repn_other [simp]: "c \<noteq> a \<Longrightarrow> repn (N(c := v)) a = repn N a"
  by (intro ext) (simp add: repn_def)

lemma repn_same:
  "repn (N(a \<mapsto> n)) a hl hr b xs \<longleftrightarrow>
     m_hLeft n = hl \<and> m_hRight n = hr \<and> m_chBalance n = b \<and> m_ushNItems n = length xs \<and> take (length xs) (m_ahItems n) = xs \<and>
     length (m_ahItems n) = PAGE_SIZE"
  unfolding repn_def
  by (cases n) (auto, metis append_take_drop_id length_append)

lemma rep_nodes: "rep N t \<Longrightarrow> addrs t \<subseteq> dom N"
  by (induction t) (auto elim!: repnE)

text \<open>What a turn or a change of one branch needs: the node is as it was but for the fields named.\<close>

lemma upd_node_ok: "nodes s a = Some n \<Longrightarrow> upd_node a f s = Some (s\<lparr>nodes := (nodes s)(a \<mapsto> f n)\<rparr>)"
  by (simp add: upd_node_def)

lemma repn_set:
  assumes "repn (nodes s) a hl hr b xs"
  shows "\<exists>N. upd_node a (m_hLeft_update (\<lambda>_. h)) s = Some (s\<lparr>nodes := N\<rparr>) \<and> repn N a h hr b xs \<and> (\<forall>c. c \<noteq> a \<longrightarrow> N c = nodes s c)"
    "\<exists>N. upd_node a (m_hRight_update (\<lambda>_. h)) s = Some (s\<lparr>nodes := N\<rparr>) \<and> repn N a hl h b xs \<and> (\<forall>c. c \<noteq> a \<longrightarrow> N c = nodes s c)"
    "\<exists>N. upd_node a (m_chBalance_update (\<lambda>_. v)) s = Some (s\<lparr>nodes := N\<rparr>) \<and> repn N a hl hr v xs \<and> (\<forall>c. c \<noteq> a \<longrightarrow> N c = nodes s c)"
  using assms by (auto elim!: repnE simp: upd_node_def repn_same)

section \<open>Turns\<close>

text \<open>A turn changes the nodes it turns and nothing else.\<close>

definition same_but :: "nat set \<Rightarrow> 'm tree_mem \<Rightarrow> 'm tree_mem \<Rightarrow> bool" where
  "same_but A s s' \<longleftrightarrow> heap s' = heap s \<and> node_flag s' = node_flag s \<and> (\<forall>c. c \<notin> A \<longrightarrow> nodes s' c = nodes s c)"

lemma same_but_mono: "same_but A s s' \<Longrightarrow> A \<subseteq> B \<Longrightarrow> same_but B s s'"
  by (auto simp: same_but_def)

lemma ll_turn_ok:
  assumes "rep (nodes s) (Nd (Nd ll la lb lx lr) a b xs r)"
  obtains s' where "ll_turn a la bn bl s = Some s'" "rep (nodes s') (Nd ll la bl lx (Nd lr a bn xs r))" "same_but {a, la} s s'"
proof -
  obtain ys zs where n: "nodes s a = Some \<lparr>m_hLeft = la, m_hRight = root r, m_chBalance = b, m_ushNItems = length xs, m_ahItems = xs @ ys\<rparr>"
    "nodes s la = Some \<lparr>m_hLeft = root ll, m_hRight = root lr, m_chBalance = lb, m_ushNItems = length lx, m_ahItems = lx @ zs\<rparr>"
    "length (xs @ ys) = PAGE_SIZE" "length (lx @ zs) = PAGE_SIZE" and d: "a \<noteq> la" using assms by (auto elim!: repnE)
  define s' where "s' = s\<lparr>nodes := (nodes s)
    (a \<mapsto> \<lparr>m_hLeft = root lr, m_hRight = root r, m_chBalance = bn, m_ushNItems = length xs, m_ahItems = xs @ ys\<rparr>,
     la \<mapsto> \<lparr>m_hLeft = root ll, m_hRight = a, m_chBalance = bl, m_ushNItems = length lx, m_ahItems = lx @ zs\<rparr>)\<rparr>"
  have "ll_turn a la bn bl s = Some s'" using n d by (simp add: ll_turn_def upd_node_def s'_def fun_upd_twist)
  moreover have "rep (nodes s') (Nd ll la bl lx (Nd lr a bn xs r))" using assms n(3,4) d by (auto simp: s'_def repn_same)
  moreover have "same_but {a, la} s s'" by (auto simp: same_but_def s'_def)
  ultimately show thesis by (rule that)
qed

lemma rr_turn_ok:
  assumes "rep (nodes s) (Nd l a b xs (Nd rl ra rb rx rr))"
  obtains s' where "rr_turn a ra bn br s = Some s'" "rep (nodes s') (Nd (Nd l a bn xs rl) ra br rx rr)" "same_but {a, ra} s s'"
proof -
  obtain ys zs where n: "nodes s a = Some \<lparr>m_hLeft = root l, m_hRight = ra, m_chBalance = b, m_ushNItems = length xs, m_ahItems = xs @ ys\<rparr>"
    "nodes s ra = Some \<lparr>m_hLeft = root rl, m_hRight = root rr, m_chBalance = rb, m_ushNItems = length rx, m_ahItems = rx @ zs\<rparr>"
    "length (xs @ ys) = PAGE_SIZE" "length (rx @ zs) = PAGE_SIZE" and d: "a \<noteq> ra" using assms by (auto elim!: repnE)
  define s' where "s' = s\<lparr>nodes := (nodes s)
    (a \<mapsto> \<lparr>m_hLeft = root l, m_hRight = root rl, m_chBalance = bn, m_ushNItems = length xs, m_ahItems = xs @ ys\<rparr>,
     ra \<mapsto> \<lparr>m_hLeft = a, m_hRight = root rr, m_chBalance = br, m_ushNItems = length rx, m_ahItems = rx @ zs\<rparr>)\<rparr>"
  have "rr_turn a ra bn br s = Some s'" using n d by (simp add: rr_turn_def upd_node_def s'_def fun_upd_twist)
  moreover have "rep (nodes s') (Nd (Nd l a bn xs rl) ra br rx rr)" using assms n(3,4) d by (auto simp: s'_def repn_same)
  moreover have "same_but {a, ra} s s'" by (auto simp: same_but_def s'_def)
  ultimately show thesis by (rule that)
qed

lemma lr_turn_ok:
  assumes "rep (nodes s) (Nd (Nd ll la lb lx (Nd ml ma mb mx mr)) a b xs r)"
  obtains s' where "lr_turn a la s = Some (ma, s')"
    "rep (nodes s') (Nd (Nd ll la (if mb > 0 then - 1 else 0) lx ml) ma 0 mx (Nd mr a (if mb < 0 then 1 else 0) xs r))" "same_but {a, la, ma} s s'"
proof -
  obtain ys zs ws where n: "nodes s a = Some \<lparr>m_hLeft = la, m_hRight = root r, m_chBalance = b, m_ushNItems = length xs, m_ahItems = xs @ ys\<rparr>"
    "nodes s la = Some \<lparr>m_hLeft = root ll, m_hRight = ma, m_chBalance = lb, m_ushNItems = length lx, m_ahItems = lx @ zs\<rparr>"
    "nodes s ma = Some \<lparr>m_hLeft = root ml, m_hRight = root mr, m_chBalance = mb, m_ushNItems = length mx, m_ahItems = mx @ ws\<rparr>"
    "length (xs @ ys) = PAGE_SIZE" "length (lx @ zs) = PAGE_SIZE" "length (mx @ ws) = PAGE_SIZE" and d: "a \<noteq> la" "ma \<noteq> la" "ma \<noteq> a"
    using assms by (auto elim!: repnE)
  define s' where "s' = s\<lparr>nodes := (nodes s)
    (a \<mapsto> \<lparr>m_hLeft = root mr, m_hRight = root r, m_chBalance = if mb < 0 then 1 else 0, m_ushNItems = length xs, m_ahItems = xs @ ys\<rparr>,
     la \<mapsto> \<lparr>m_hLeft = root ll, m_hRight = root ml, m_chBalance = if mb > 0 then - 1 else 0, m_ushNItems = length lx, m_ahItems = lx @ zs\<rparr>,
     ma \<mapsto> \<lparr>m_hLeft = la, m_hRight = a, m_chBalance = 0, m_ushNItems = length mx, m_ahItems = mx @ ws\<rparr>)\<rparr>"
  have "lr_turn a la s = Some (ma, s')" using n d by (simp add: lr_turn_def upd_node_def s'_def fun_upd_def fun_eq_iff)
  moreover have "rep (nodes s') (Nd (Nd ll la (if mb > 0 then - 1 else 0) lx ml) ma 0 mx (Nd mr a (if mb < 0 then 1 else 0) xs r))"
    using assms n(4-6) d by (auto simp: s'_def repn_same)
  moreover have "same_but {a, la, ma} s s'" by (auto simp: same_but_def s'_def)
  ultimately show thesis by (rule that)
qed

lemma rl_turn_ok:
  assumes "rep (nodes s) (Nd l a b xs (Nd (Nd ml ma mb mx mr) ra rb rx rr))"
  obtains s' where "rl_turn a ra s = Some (ma, s')"
    "rep (nodes s') (Nd (Nd l a (if mb > 0 then - 1 else 0) xs ml) ma 0 mx (Nd mr ra (if mb < 0 then 1 else 0) rx rr))" "same_but {a, ra, ma} s s'"
proof -
  obtain ys zs ws where n: "nodes s a = Some \<lparr>m_hLeft = root l, m_hRight = ra, m_chBalance = b, m_ushNItems = length xs, m_ahItems = xs @ ys\<rparr>"
    "nodes s ra = Some \<lparr>m_hLeft = ma, m_hRight = root rr, m_chBalance = rb, m_ushNItems = length rx, m_ahItems = rx @ zs\<rparr>"
    "nodes s ma = Some \<lparr>m_hLeft = root ml, m_hRight = root mr, m_chBalance = mb, m_ushNItems = length mx, m_ahItems = mx @ ws\<rparr>"
    "length (xs @ ys) = PAGE_SIZE" "length (rx @ zs) = PAGE_SIZE" "length (mx @ ws) = PAGE_SIZE" and d: "a \<noteq> ra" "ma \<noteq> ra" "ma \<noteq> a"
    using assms by (auto elim!: repnE)
  define s' where "s' = s\<lparr>nodes := (nodes s)
    (a \<mapsto> \<lparr>m_hLeft = root l, m_hRight = root ml, m_chBalance = if mb > 0 then - 1 else 0, m_ushNItems = length xs, m_ahItems = xs @ ys\<rparr>,
     ra \<mapsto> \<lparr>m_hLeft = root mr, m_hRight = root rr, m_chBalance = if mb < 0 then 1 else 0, m_ushNItems = length rx, m_ahItems = rx @ zs\<rparr>,
     ma \<mapsto> \<lparr>m_hLeft = a, m_hRight = ra, m_chBalance = 0, m_ushNItems = length mx, m_ahItems = mx @ ws\<rparr>)\<rparr>"
  have "rl_turn a ra s = Some (ma, s')" using n d by (simp add: rl_turn_def upd_node_def s'_def fun_upd_def fun_eq_iff)
  moreover have "rep (nodes s') (Nd (Nd l a (if mb > 0 then - 1 else 0) xs ml) ma 0 mx (Nd mr ra (if mb < 0 then 1 else 0) rx rr))"
    using assms n(4-6) d by (auto simp: s'_def repn_same)
  moreover have "same_but {a, ra, ma} s s'" by (auto simp: same_but_def s'_def)
  ultimately show thesis by (rule that)
qed

section \<open>Balance\<close>

text \<open>The tree in the memory is again balanced, with the same items in the same order in the same nodes.\<close>

definition rebalanced :: "tt \<Rightarrow> 'm tree_mem \<Rightarrow> nat \<Rightarrow> 'm tree_mem \<Rightarrow> tt \<Rightarrow> bool" where
  "rebalanced t s h s' t' \<longleftrightarrow> rep (nodes s') t' \<and> h = root t' \<and> avl t' \<and> filled t' \<and> inorder t' = inorder t \<and> addrs t' = addrs t \<and>
     same_but (addrs t) s s'"

lemma set_balance:
  assumes "rep (nodes s) (Nd l a b xs r)"
  obtains s' where "upd_node a (m_chBalance_update (\<lambda>_. v)) s = Some s'" "rep (nodes s') (Nd l a v xs r)" "same_but {a} s s'"
proof -
  obtain N where N: "upd_node a (m_chBalance_update (\<lambda>_. v)) s = Some (s\<lparr>nodes := N\<rparr>)" "repn N a (root l) (root r) v xs" "\<And>c. c \<noteq> a \<Longrightarrow> N c = nodes s c"
    using repn_set(3) [of s a "root l" "root r" b xs v] assms by auto
  have "rep N l" "rep N r" using assms N(3) rep_cong [of l N "nodes s"] rep_cong [of r N "nodes s"] by (auto, metis, metis)
  then show thesis using that [OF N(1)] N assms by (auto simp: same_but_def)
qed

lemma balance_at: "rep (nodes s) (Nd l a b xs r) \<Longrightarrow> \<exists>n. nodes s a = Some n \<and> m_chBalance n = b \<and> m_hLeft n = root l \<and> m_hRight n = root r"
  by (auto elim: repnE)

text \<open>The turned trees are balanced.\<close>

lemma balance_cases: "avl (Nd l a b xs r) \<Longrightarrow> b = - 1 \<or> b = 0 \<or> b = 1"
  by auto

lemma avl_lr:
  assumes "avl (Nd ll la 1 lx (Nd ml ma mb mx mr))" "avl r" "height (Nd ll la 1 lx (Nd ml ma mb mx mr)) = height r + 2"
  shows "avl (Nd (Nd ll la (if mb > 0 then - 1 else 0) lx ml) ma 0 mx (Nd mr a (if mb < 0 then 1 else 0) xs r))"
    "height (Nd (Nd ll la bl lx ml) ma bm mx (Nd mr a bn xs r)) = height r + 2"
  using assms by (auto simp: max_def split: if_splits)

lemma avl_rl:
  assumes "avl (Nd (Nd ml ma mb mx mr) ra (- 1) rx rr)" "avl l" "height (Nd (Nd ml ma mb mx mr) ra (- 1) rx rr) = height l + 2"
  shows "avl (Nd (Nd l a (if mb > 0 then - 1 else 0) xs ml) ma 0 mx (Nd mr ra (if mb < 0 then 1 else 0) rx rr))"
    "height (Nd (Nd l a bn xs ml) ma bm mx (Nd mr ra br rx rr)) = height l + 2"
  using assms by (auto simp: max_def split: if_splits)

lemma avl_ll:
  assumes "avl (Nd ll la lb lx lr)" "avl r" "height (Nd ll la lb lx lr) = height r + 2" "lb \<le> 0"
  shows "avl (Nd ll la (lb + 1) lx (Nd lr a (- 1 - lb) xs r))" "int (height (Nd ll la bl lx (Nd lr a bn xs r))) = int (height r) + 3 + lb"
  using assms by (auto simp: max_def split: if_splits)

lemma avl_rr:
  assumes "avl (Nd rl ra rb rx rr)" "avl l" "height (Nd rl ra rb rx rr) = height l + 2" "rb \<ge> 0"
  shows "avl (Nd (Nd l a (1 - rb) xs rl) ra (rb - 1) rx rr)" "int (height (Nd (Nd l a bn xs rl) ra br rx rr)) = int (height l) + 3 - rb"
  using assms by (auto simp: max_def split: if_splits)

lemma grew_left_ok:
  assumes t: "rep (nodes s) (Nd l a b xs r)" "avl l" "avl r" "filled (Nd l a b xs r)" and b: "b = int (height r) - int (height l) + 1" "- 1 \<le> b" "b \<le> 1"
    and l: "b = - 1 \<Longrightarrow> bal l \<noteq> 0"
  obtains g h s' t' where "grew_left a s = Some (g, h, s')" "rebalanced (Nd l a b xs r) s h s' t'" "g = 0 \<or> g = 1"
    "int (height t') = 1 + max (int (height l) - 1) (int (height r)) + g" "g = 1 \<Longrightarrow> bal t' \<noteq> 0"
proof -
  obtain n where n: "nodes s a = Some n" "m_chBalance n = b" "m_hLeft n = root l" using balance_at [OF t(1)] by auto
  consider "b = 1" | "b = 0" | "b = - 1" using b by linarith
  then show thesis
  proof cases
    case 1
    obtain s' where s: "upd_node a (m_chBalance_update (\<lambda>_. 0)) s = Some s'" "rep (nodes s') (Nd l a 0 xs r)" "same_but {a} s s'" by (rule set_balance [OF t(1)])
    show thesis by (rule that [of 0 a s' "Nd l a 0 xs r"]) (use n s t b 1 in \<open>simp_all add: grew_left_def rebalanced_def same_but_mono\<close>)
  next
    case 2
    obtain s' where s: "upd_node a (m_chBalance_update (\<lambda>_. - 1)) s = Some s'" "rep (nodes s') (Nd l a (- 1) xs r)" "same_but {a} s s'" by (rule set_balance [OF t(1)])
    show thesis by (rule that [of 1 a s' "Nd l a (- 1) xs r"]) (use n s t b 2 in \<open>simp_all add: grew_left_def rebalanced_def same_but_mono\<close>)
  next
    case 3
    then obtain ll la lb lx lr where L: "l = Nd ll la lb lx lr" using l by (cases l) auto
    have "\<exists>n. nodes s la = Some n \<and> m_chBalance n = lb" using balance_at t(1) L by fastforce
    then obtain nl where nl: "nodes s la = Some nl" "m_chBalance nl = lb" by blast
    have h: "height l = height r + 2" using b(1) 3 by simp
    note n' = n [unfolded L 3, simplified] and avl = t(2) [unfolded L] and h' = h [unfolded L]
    show thesis
    proof (cases "lb < 0")
      case True
      then have lb: "lb = - 1" using l 3 L t(2) by auto
      obtain s' where s: "ll_turn a la 0 0 s = Some s'" "rep (nodes s') (Nd ll la 0 lx (Nd lr a 0 xs r))" "same_but {a, la} s s'" by (rule ll_turn_ok [OF t(1) [unfolded L]])
      note T = avl_ll(1) [OF avl t(3) h', where a = a and xs = xs, unfolded lb, simplified] avl_ll(2) [OF avl t(3) h', where a = a and xs = xs, unfolded lb, of 0 0]
      have "rebalanced (Nd l a b xs r) s la s' (Nd ll la 0 lx (Nd lr a 0 xs r))"
        using s T(1) t(4) L by (auto simp: rebalanced_def intro: same_but_mono)
      then show thesis by (rule that [rotated]) (use n' nl s(1) T(2) h lb in \<open>simp_all add: grew_left_def\<close>)
    next
      case False
      then have lb: "lb = 1" using l 3 L t(2) by auto
      then obtain ml ma mb mx mr where M: "lr = Nd ml ma mb mx mr" using t(2) L by (cases lr) auto
      let ?t = "Nd (Nd ll la (if mb > 0 then - 1 else 0) lx ml) ma 0 mx (Nd mr a (if mb < 0 then 1 else 0) xs r)"
      obtain s' where s: "lr_turn a la s = Some (ma, s')" "rep (nodes s') ?t" "same_but {a, la, ma} s s'" by (rule lr_turn_ok [OF t(1) [unfolded L M]])
      note T = avl_lr [OF avl [unfolded lb M] t(3) h' [unfolded lb M], where a = a and xs = xs]
      have "rebalanced (Nd l a b xs r) s ma s' ?t"
        unfolding rebalanced_def using s T(1) t(4) L M by (auto intro: same_but_mono simp del: avl.simps)
      then show thesis by (rule that [rotated]) (use n' nl s(1) T(2) h lb in \<open>simp_all add: grew_left_def del: height.simps\<close>)
    qed
  qed
qed

lemma grew_right_ok:
  assumes t: "rep (nodes s) (Nd l a b xs r)" "avl l" "avl r" "filled (Nd l a b xs r)" and b: "b = int (height r) - int (height l) - 1" "- 1 \<le> b" "b \<le> 1"
    and r: "b = 1 \<Longrightarrow> bal r \<noteq> 0"
  obtains g h s' t' where "grew_right a s = Some (g, h, s')" "rebalanced (Nd l a b xs r) s h s' t'" "g = 0 \<or> g = 1"
    "int (height t') = 1 + max (int (height l)) (int (height r) - 1) + g" "g = 1 \<Longrightarrow> bal t' \<noteq> 0"
proof -
  obtain n where n: "nodes s a = Some n" "m_chBalance n = b" "m_hRight n = root r" using balance_at [OF t(1)] by auto
  consider "b = - 1" | "b = 0" | "b = 1" using b by linarith
  then show thesis
  proof cases
    case 1
    obtain s' where s: "upd_node a (m_chBalance_update (\<lambda>_. 0)) s = Some s'" "rep (nodes s') (Nd l a 0 xs r)" "same_but {a} s s'" by (rule set_balance [OF t(1)])
    show thesis by (rule that [of 0 a s' "Nd l a 0 xs r"]) (use n s t b 1 in \<open>simp_all add: grew_right_def rebalanced_def same_but_mono\<close>)
  next
    case 2
    obtain s' where s: "upd_node a (m_chBalance_update (\<lambda>_. 1)) s = Some s'" "rep (nodes s') (Nd l a 1 xs r)" "same_but {a} s s'" by (rule set_balance [OF t(1)])
    show thesis by (rule that [of 1 a s' "Nd l a 1 xs r"]) (use n s t b 2 in \<open>simp_all add: grew_right_def rebalanced_def same_but_mono\<close>)
  next
    case 3
    then obtain rl ra rb rx rr where R: "r = Nd rl ra rb rx rr" using r by (cases r) auto
    have "\<exists>n. nodes s ra = Some n \<and> m_chBalance n = rb" using balance_at t(1) R by fastforce
    then obtain nr where nr: "nodes s ra = Some nr" "m_chBalance nr = rb" by blast
    have h: "height r = height l + 2" using b(1) 3 by simp
    note n' = n [unfolded R 3, simplified] and avl = t(3) [unfolded R] and h' = h [unfolded R]
    show thesis
    proof (cases "rb > 0")
      case True
      then have rb: "rb = 1" using r 3 R t(3) by auto
      obtain s' where s: "rr_turn a ra 0 0 s = Some s'" "rep (nodes s') (Nd (Nd l a 0 xs rl) ra 0 rx rr)" "same_but {a, ra} s s'" by (rule rr_turn_ok [OF t(1) [unfolded R]])
      note T = avl_rr(1) [OF avl t(2) h', where a = a and xs = xs, unfolded rb, simplified] avl_rr(2) [OF avl t(2) h', where a = a and xs = xs, unfolded rb, of 0 0]
      have "rebalanced (Nd l a b xs r) s ra s' (Nd (Nd l a 0 xs rl) ra 0 rx rr)"
        using s T(1) t(4) R by (auto simp: rebalanced_def intro: same_but_mono)
      then show thesis by (rule that [rotated]) (use n' nr s(1) T(2) h rb in \<open>simp_all add: grew_right_def\<close>)
    next
      case False
      then have rb: "rb = - 1" using r 3 R t(3) by auto
      then obtain ml ma mb mx mr where M: "rl = Nd ml ma mb mx mr" using t(3) R by (cases rl) auto
      let ?t = "Nd (Nd l a (if mb > 0 then - 1 else 0) xs ml) ma 0 mx (Nd mr ra (if mb < 0 then 1 else 0) rx rr)"
      obtain s' where s: "rl_turn a ra s = Some (ma, s')" "rep (nodes s') ?t" "same_but {a, ra, ma} s s'" by (rule rl_turn_ok [OF t(1) [unfolded R M]])
      note T = avl_rl [OF avl [unfolded rb M] t(2) h' [unfolded rb M], where a = a and xs = xs]
      have "rebalanced (Nd l a b xs r) s ma s' ?t"
        unfolding rebalanced_def using s T(1) t(4) R M by (auto intro: same_but_mono simp del: avl.simps)
      then show thesis by (rule that [rotated]) (use n' nr s(1) T(2) h rb in \<open>simp_all add: grew_right_def del: height.simps\<close>)
    qed
  qed
qed

lemma balance_left_branch_ok:
  assumes t: "rep (nodes s) (Nd l a b xs r)" "avl l" "avl r" "filled (Nd l a b xs r)" and b: "b = int (height r) - int (height l) - 1" "- 1 \<le> b" "b \<le> 1"
  obtains g h s' t' where "balance_left_branch a s = Some (g, h, s')" "rebalanced (Nd l a b xs r) s h s' t'" "g = 0 \<or> g = 1"
    "int (height t') = 1 + max (int (height l) + 1) (int (height r)) - g"
proof -
  obtain n where n: "nodes s a = Some n" "m_chBalance n = b" "m_hRight n = root r" using balance_at [OF t(1)] by auto
  consider "b = - 1" | "b = 0" | "b = 1" using b by linarith
  then show thesis
  proof cases
    case 1
    obtain s' where s: "upd_node a (m_chBalance_update (\<lambda>_. 0)) s = Some s'" "rep (nodes s') (Nd l a 0 xs r)" "same_but {a} s s'" by (rule set_balance [OF t(1)])
    show thesis by (rule that [of 1 a s' "Nd l a 0 xs r"]) (use n s t b 1 in \<open>simp_all add: balance_left_branch_def rebalanced_def same_but_mono\<close>)
  next
    case 2
    obtain s' where s: "upd_node a (m_chBalance_update (\<lambda>_. 1)) s = Some s'" "rep (nodes s') (Nd l a 1 xs r)" "same_but {a} s s'" by (rule set_balance [OF t(1)])
    show thesis by (rule that [of 0 a s' "Nd l a 1 xs r"]) (use n s t b 2 in \<open>simp_all add: balance_left_branch_def rebalanced_def same_but_mono\<close>)
  next
    case 3
    then obtain rl ra rb rx rr where R: "r = Nd rl ra rb rx rr" using b(1) by (cases r) auto
    have "\<exists>n. nodes s ra = Some n \<and> m_chBalance n = rb" using balance_at t(1) R by fastforce
    then obtain nr where nr: "nodes s ra = Some nr" "m_chBalance nr = rb" by blast
    have h: "height r = height l + 2" using b(1) 3 by simp
    note n' = n [unfolded R 3, simplified] and avl = t(3) [unfolded R] and h' = h [unfolded R]
    show thesis
    proof (cases "rb \<ge> 0")
      case True
      then have rb: "rb = 0 \<or> rb = 1" using balance_cases [OF avl] by auto
      obtain s' where s: "rr_turn a ra (1 - rb) (rb - 1) s = Some s'" "rep (nodes s') (Nd (Nd l a (1 - rb) xs rl) ra (rb - 1) rx rr)" "same_but {a, ra} s s'"
        by (rule rr_turn_ok [OF t(1) [unfolded R]])
      note T = avl_rr [OF avl t(2) h' True, where a = a and xs = xs]
      have "rebalanced (Nd l a b xs r) s ra s' (Nd (Nd l a (1 - rb) xs rl) ra (rb - 1) rx rr)"
        unfolding rebalanced_def using s T(1) t(4) R by (auto intro: same_but_mono simp del: avl.simps)
      then show thesis by (rule that [of rb, rotated]) (use n' nr s(1) T(2) h rb in \<open>auto simp: balance_left_branch_def simp del: height.simps\<close>)
    next
      case False
      then have rb: "rb = - 1" using balance_cases [OF avl] by auto
      then obtain ml ma mb mx mr where M: "rl = Nd ml ma mb mx mr" using t(3) R by (cases rl) auto
      let ?t = "Nd (Nd l a (if mb > 0 then - 1 else 0) xs ml) ma 0 mx (Nd mr ra (if mb < 0 then 1 else 0) rx rr)"
      obtain s' where s: "rl_turn a ra s = Some (ma, s')" "rep (nodes s') ?t" "same_but {a, ra, ma} s s'" by (rule rl_turn_ok [OF t(1) [unfolded R M]])
      note T = avl_rl [OF avl [unfolded rb M] t(2) h' [unfolded rb M], where a = a and xs = xs]
      have "rebalanced (Nd l a b xs r) s ma s' ?t"
        unfolding rebalanced_def using s T(1) t(4) R M by (auto intro: same_but_mono simp del: avl.simps)
      then show thesis by (rule that [of 1, rotated]) (use n' nr s(1) T(2) h rb in \<open>simp_all add: balance_left_branch_def del: height.simps\<close>)
    qed
  qed
qed

lemma balance_right_branch_ok:
  assumes t: "rep (nodes s) (Nd l a b xs r)" "avl l" "avl r" "filled (Nd l a b xs r)" and b: "b = int (height r) - int (height l) + 1" "- 1 \<le> b" "b \<le> 1"
  obtains g h s' t' where "balance_right_branch a s = Some (g, h, s')" "rebalanced (Nd l a b xs r) s h s' t'" "g = 0 \<or> g = 1"
    "int (height t') = 1 + max (int (height l)) (int (height r) + 1) - g"
proof -
  obtain n where n: "nodes s a = Some n" "m_chBalance n = b" "m_hLeft n = root l" using balance_at [OF t(1)] by auto
  consider "b = 1" | "b = 0" | "b = - 1" using b by linarith
  then show thesis
  proof cases
    case 1
    obtain s' where s: "upd_node a (m_chBalance_update (\<lambda>_. 0)) s = Some s'" "rep (nodes s') (Nd l a 0 xs r)" "same_but {a} s s'" by (rule set_balance [OF t(1)])
    show thesis by (rule that [of 1 a s' "Nd l a 0 xs r"]) (use n s t b 1 in \<open>simp_all add: balance_right_branch_def rebalanced_def same_but_mono\<close>)
  next
    case 2
    obtain s' where s: "upd_node a (m_chBalance_update (\<lambda>_. - 1)) s = Some s'" "rep (nodes s') (Nd l a (- 1) xs r)" "same_but {a} s s'" by (rule set_balance [OF t(1)])
    show thesis by (rule that [of 0 a s' "Nd l a (- 1) xs r"]) (use n s t b 2 in \<open>simp_all add: balance_right_branch_def rebalanced_def same_but_mono\<close>)
  next
    case 3
    then obtain ll la lb lx lr where L: "l = Nd ll la lb lx lr" using b(1) by (cases l) auto
    have "\<exists>n. nodes s la = Some n \<and> m_chBalance n = lb" using balance_at t(1) L by fastforce
    then obtain nl where nl: "nodes s la = Some nl" "m_chBalance nl = lb" by blast
    have h: "height l = height r + 2" using b(1) 3 by simp
    note n' = n [unfolded L 3, simplified] and avl = t(2) [unfolded L] and h' = h [unfolded L]
    show thesis
    proof (cases "lb \<le> 0")
      case True
      then have lb: "lb = 0 \<or> lb = - 1" using balance_cases [OF avl] by auto
      obtain s' where s: "ll_turn a la (- 1 - lb) (lb + 1) s = Some s'" "rep (nodes s') (Nd ll la (lb + 1) lx (Nd lr a (- 1 - lb) xs r))" "same_but {a, la} s s'"
        by (rule ll_turn_ok [OF t(1) [unfolded L]])
      note T = avl_ll [OF avl t(3) h' True, where a = a and xs = xs]
      have "rebalanced (Nd l a b xs r) s la s' (Nd ll la (lb + 1) lx (Nd lr a (- 1 - lb) xs r))"
        unfolding rebalanced_def using s T(1) t(4) L by (auto intro: same_but_mono simp del: avl.simps)
      then show thesis by (rule that [of "- lb", rotated]) (use n' nl s(1) T(2) h lb in \<open>auto simp: balance_right_branch_def simp del: height.simps\<close>)
    next
      case False
      then have lb: "lb = 1" using balance_cases [OF avl] by auto
      then obtain ml ma mb mx mr where M: "lr = Nd ml ma mb mx mr" using t(2) L by (cases lr) auto
      let ?t = "Nd (Nd ll la (if mb > 0 then - 1 else 0) lx ml) ma 0 mx (Nd mr a (if mb < 0 then 1 else 0) xs r)"
      obtain s' where s: "lr_turn a la s = Some (ma, s')" "rep (nodes s') ?t" "same_but {a, la, ma} s s'" by (rule lr_turn_ok [OF t(1) [unfolded L M]])
      note T = avl_lr [OF avl [unfolded lb M] t(3) h' [unfolded lb M], where a = a and xs = xs]
      have "rebalanced (Nd l a b xs r) s ma s' ?t"
        unfolding rebalanced_def using s T(1) t(4) L M by (auto intro: same_but_mono simp del: avl.simps)
      then show thesis by (rule that [of 1, rotated]) (use n' nl s(1) T(2) h lb in \<open>simp_all add: balance_right_branch_def del: height.simps\<close>)
    qed
  qed
qed

section \<open>Items\<close>

lemma shift_up_ok:
  "lo \<le> i \<Longrightarrow> i < length xs \<Longrightarrow>
   \<exists>zs. shift_up lo i xs = Some zs \<and> length zs = length xs \<and> (\<forall>j < length xs. zs ! j = (if lo < j \<and> j \<le> i then xs ! (j - 1) else xs ! j))"
proof (induction lo i xs rule: shift_up.induct)
  case (1 lo i xs)
  show ?case
  proof (cases "lo < i")
    case True
    have p: "lo \<le> i - 1" "i - 1 < length (xs[i := xs ! (i - 1)])" using True 1(3) by auto
    obtain zs where zs: "shift_up lo (i - 1) (xs[i := xs ! (i - 1)]) = Some zs" "length zs = length xs"
      "\<forall>j < length xs. zs ! j = (if lo < j \<and> j \<le> i - 1 then xs[i := xs ! (i - 1)] ! (j - 1) else xs[i := xs ! (i - 1)] ! j)"
      using 1(1) [OF True 1(3) p] by (auto simp del: One_nat_def)
    have "zs ! j = (if lo < j \<and> j \<le> i then xs ! (j - 1) else xs ! j)" if "j < length xs" for j
      using zs(3) [rule_format, OF that] True that by (auto simp: nth_list_update split: if_splits)
    then show ?thesis using zs True 1 by (subst shift_up.simps) simp
  next
    case False
    then show ?thesis using 1(2) by (subst shift_up.simps) auto
  qed
qed

lemma shift_down_ok:
  "0 < i \<Longrightarrow> hi \<le> length xs \<Longrightarrow>
   \<exists>zs. shift_down i hi xs = Some zs \<and> length zs = length xs \<and> (\<forall>j < length xs. zs ! j = (if i \<le> j + 1 \<and> j + 1 < hi then xs ! (j + 1) else xs ! j))"
proof (induction i hi xs rule: shift_down.induct)
  case (1 i hi xs)
  show ?case
  proof (cases "i < hi")
    case True
    then obtain zs where zs: "shift_down (i + 1) hi (xs[i - 1 := xs ! i]) = Some zs" "length zs = length xs"
      "\<forall>j < length xs. zs ! j = (if i + 1 \<le> j + 1 \<and> j + 1 < hi then xs[i - 1 := xs ! i] ! (j + 1) else xs[i - 1 := xs ! i] ! j)"
      using 1 by auto
    have "zs ! j = (if i \<le> j + 1 \<and> j + 1 < hi then xs ! (j + 1) else xs ! j)" if "j < length xs" for j
      using zs(3) [rule_format, OF that] True that 1(2) by (auto simp: nth_list_update split: if_splits)
    then show ?thesis using zs True 1 by (subst shift_down.simps) simp
  next
    case False
    then show ?thesis by (subst shift_down.simps) auto
  qed
qed

text \<open>A node of the representation with other items, or with other items and their number.\<close>

abbreviation mk_node :: "nat \<Rightarrow> nat \<Rightarrow> int \<Rightarrow> nat \<Rightarrow> nat list \<Rightarrow> ttree_node" where
  "mk_node hl hr b n xs \<equiv> \<lparr>m_hLeft = hl, m_hRight = hr, m_chBalance = b, m_ushNItems = n, m_ahItems = xs\<rparr>"

lemma take_nth_eq: "length zs = n \<Longrightarrow> (\<And>j. j < n \<Longrightarrow> zs ! j = ws ! j) \<Longrightarrow> length ws \<le> n \<Longrightarrow> take (length ws) zs = ws"
  by (rule nth_equalityI) auto

lemma insert_item_ok:
  assumes "length (xs @ ys) = PAGE_SIZE" "length xs < PAGE_SIZE" "i \<le> length xs"
  obtains zs where "insert_item i v (mk_node hl hr b (length xs) (xs @ ys)) = Some (mk_node hl hr b (length xs + 1) zs)"
    "length zs = PAGE_SIZE" "take (length xs + 1) zs = take i xs @ v # drop i xs"
proof -
  obtain ws where ws: "shift_up i (length xs) (xs @ ys) = Some ws" "length ws = PAGE_SIZE"
    "\<forall>j < PAGE_SIZE. ws ! j = (if i < j \<and> j \<le> length xs then (xs @ ys) ! (j - 1) else (xs @ ys) ! j)"
    using shift_up_ok [of i "length xs" "xs @ ys"] assms by (auto simp flip: length_append)
  have "take (length xs + 1) (ws[i := v]) = take i xs @ v # drop i xs"
  proof (rule nth_equalityI)
    fix j assume "j < length (take (length xs + 1) (ws[i := v]))"
    then have j: "j < length xs + 1" "j < PAGE_SIZE" using ws(2) by auto
    consider "j < i" | "j = i" | "i < j" by linarith
    then show "take (length xs + 1) (ws[i := v]) ! j = (take i xs @ v # drop i xs) ! j"
      by cases (use j ws(2) ws(3) [rule_format, OF j(2)] assms in \<open>auto simp: nth_append nth_Cons'\<close>)
  qed (use ws(2) assms in simp)
  then show thesis using that [of "ws[i := v]"] ws assms by (simp add: insert_item_def set_item_def)
qed

lemma displace_first_ok:
  assumes "length xs = PAGE_SIZE" "0 < i" "i < PAGE_SIZE" "0 \<le> b"
  shows "displace i v (mk_node hl hr b PAGE_SIZE xs) = Some (hd xs, mk_node hl hr b PAGE_SIZE (take (i - 1) (tl xs) @ v # drop i xs))"
proof -
  obtain ws where ws: "shift_down 1 i xs = Some ws" "length ws = PAGE_SIZE" "\<forall>j < PAGE_SIZE. ws ! j = (if j + 1 < i then xs ! (j + 1) else xs ! j)"
    using shift_down_ok [of 1 i xs] assms by auto
  have "ws[i - 1 := v] = take (i - 1) (tl xs) @ v # drop i xs"
    by (rule nth_equalityI) (use ws assms in \<open>auto simp: nth_append nth_list_update nth_Cons' nth_tl\<close>)
  moreover have "hd xs = xs ! 0" using assms by (cases xs) (auto simp: PAGE_SIZE_def)
  ultimately show ?thesis using ws assms by (simp add: displace_def item_def set_item_def PAGE_SIZE_def)
qed

lemma displace_last_ok:
  assumes "length xs = PAGE_SIZE" "i < PAGE_SIZE" "b < 0"
  shows "displace i v (mk_node hl hr b PAGE_SIZE xs) = Some (last xs, mk_node hl hr b PAGE_SIZE (take i xs @ v # butlast (drop i xs)))"
proof -
  obtain ws where ws: "shift_up i (PAGE_SIZE - 1) xs = Some ws" "length ws = PAGE_SIZE"
    "\<forall>j < PAGE_SIZE. ws ! j = (if i < j \<and> j \<le> PAGE_SIZE - 1 then xs ! (j - 1) else xs ! j)"
    using shift_up_ok [of i "PAGE_SIZE - 1" xs] assms by (auto simp: PAGE_SIZE_def)
  have "ws[i := v] = take i xs @ v # butlast (drop i xs)"
    by (rule nth_equalityI) (use ws assms in \<open>auto simp: nth_append nth_list_update nth_Cons' nth_butlast\<close>)
  moreover have "last xs = xs ! (PAGE_SIZE - 1)" using assms(1) by (subst last_conv_nth) (auto simp: PAGE_SIZE_def)
  ultimately show ?thesis using ws assms by (simp add: displace_def item_def last_item_def set_item_def PAGE_SIZE_def)
qed

lemma remove_item_ok:
  assumes "length (xs @ ys) = PAGE_SIZE" "i < length xs"
  obtains zs where "remove_item i (mk_node hl hr b (length xs) (xs @ ys)) = Some (mk_node hl hr b (length xs - 1) zs)"
    "length zs = PAGE_SIZE" "take (length xs - 1) zs = take i xs @ drop (i + 1) xs"
proof -
  obtain ws where ws: "shift_down (i + 1) (length xs) (xs @ ys) = Some ws" "length ws = PAGE_SIZE"
    "\<forall>j < PAGE_SIZE. ws ! j = (if i + 1 \<le> j + 1 \<and> j + 1 < length xs then (xs @ ys) ! (j + 1) else (xs @ ys) ! j)"
    using shift_down_ok [of "i + 1" "length xs" "xs @ ys"] assms by auto
  have "take (length xs - 1) ws = take i xs @ drop (i + 1) xs"
  proof (rule nth_equalityI)
    fix j assume "j < length (take (length xs - 1) ws)"
    then have j: "j < length xs - 1" "j < PAGE_SIZE" using ws(2) by auto
    then show "take (length xs - 1) ws ! j = (take i xs @ drop (i + 1) xs) ! j"
      using ws(2) ws(3) [rule_format, OF j(2)] assms by (auto simp: nth_append)
  qed (use ws(2) assms in auto)
  then show thesis using that [of ws] ws assms by (simp add: remove_item_def)
qed

end
