(* ===== verification/T_Tree_Insert.thy ===== *)
theory T_Tree_Insert
  imports T_Tree_Rep
begin

text \<open>
  Insertion: what the tree needs of its memory and of the comparison, and that insertion adds exactly the
  record, keeps the order and the balance, reports a key that is there, and leaves the tree alone when
  memory is short.
\<close>

section \<open>The memory of a tree\<close>

text \<open>\<open>rel A Q m\<close> says that in the allocator state \<open>m\<close> the handles \<open>A\<close> are allocated as nodes and \<open>Q\<close> gives the keys of
  the records. Keys are compared by sign; a record gives its own key back.\<close>

locale tree_memory =
  fixes E :: "('k :: linorder, 'm) tree_env" and K :: "'k set" and rel :: "nat set \<Rightarrow> (nat \<rightharpoonup> 'k) \<Rightarrow> 'm \<Rightarrow> bool"
  assumes no_null: "rel A Q m \<Longrightarrow> 0 \<notin> A"
    and malloc: "rel A Q m \<Longrightarrow> \<exists>h m'. Malloc E m = Some (h, m') \<and> (if h = 0 then rel A Q m' else h \<notin> A \<and> rel (insert h A) Q m')"
    and free: "rel A Q m \<Longrightarrow> h \<in> A \<Longrightarrow> \<exists>rc m'. Free E h m = Some (rc, m') \<and> rel (A - {h}) Q m'"
    and free_record: "rel A Q m \<Longrightarrow> Q h = Some q \<Longrightarrow> \<exists>rc m'. Free E h m = Some (rc, m') \<and> rel A (Q(h := None)) m'"
    and diff: "rel A Q m \<Longrightarrow> Q h = Some q \<Longrightarrow> k \<in> K \<Longrightarrow> (iDiff E m k h < 0 \<longleftrightarrow> k < q) \<and> (iDiff E m k h = 0 \<longleftrightarrow> k = q)"
    and comp_eq: "rel A Q m \<Longrightarrow> Q h = Some q \<Longrightarrow> k \<in> K \<Longrightarrow> pfComp E m k h = 0 \<longleftrightarrow> k = q"
    and cvalue: "rel A Q m \<Longrightarrow> Q h = Some q \<Longrightarrow> cvalue E m h = q \<and> q \<in> K"

section \<open>Order\<close>

abbreviation key :: "(nat \<rightharpoonup> 'k) \<Rightarrow> nat \<Rightarrow> 'k" where
  "key Q x \<equiv> the (Q x)"

definition ordered :: "(nat \<rightharpoonup> 'k :: linorder) \<Rightarrow> nat list \<Rightarrow> bool" where
  "ordered Q xs \<longleftrightarrow> set xs \<subseteq> dom Q \<and> sorted_wrt (\<lambda>x y. key Q x < key Q y) xs"

lemma ordered_Nil [simp]: "ordered Q []"
  by (simp add: ordered_def)

lemma ordered_Cons [simp]: "ordered Q (x # xs) \<longleftrightarrow> x \<in> dom Q \<and> ordered Q xs \<and> (\<forall>y \<in> set xs. key Q x < key Q y)"
  by (auto simp: ordered_def)

lemma ordered_append [simp]:
  "ordered Q (xs @ ys) \<longleftrightarrow> ordered Q xs \<and> ordered Q ys \<and> (\<forall>x \<in> set xs. \<forall>y \<in> set ys. key Q x < key Q y)"
  by (auto simp: ordered_def sorted_wrt_append)

lemma ordered_dom: "ordered Q xs \<Longrightarrow> x \<in> set xs \<Longrightarrow> Q x = Some (key Q x)"
  by (auto simp: ordered_def)

lemma ordered_nth: "ordered Q xs \<Longrightarrow> i < j \<Longrightarrow> j < length xs \<Longrightarrow> key Q (xs ! i) < key Q (xs ! j)"
  by (simp add: ordered_def sorted_wrt_iff_nth_less)

lemma ordered_hd: "ordered Q xs \<Longrightarrow> x \<in> set xs \<Longrightarrow> key Q (hd xs) \<le> key Q x"
  by (cases xs) (auto intro: less_imp_le)

lemma ordered_last: "ordered Q xs \<Longrightarrow> x \<in> set xs \<Longrightarrow> key Q x \<le> key Q (last xs)"
  by (induction xs rule: rev_induct) (auto intro: less_imp_le)

lemma not_image_above: "(\<And>y. y \<in> B \<Longrightarrow> f y < (c :: 'a :: linorder)) \<Longrightarrow> c \<notin> f ` B"
  by auto

lemma not_image_below: "(\<And>y. y \<in> B \<Longrightarrow> (c :: 'a :: linorder) < f y) \<Longrightarrow> c \<notin> f ` B"
  by auto

definition keys :: "(nat \<rightharpoonup> 'k) \<Rightarrow> tt \<Rightarrow> 'k set" where
  "keys Q t = key Q ` set (inorder t)"

definition wf_tree :: "(nat \<rightharpoonup> 'k :: linorder) \<Rightarrow> tt \<Rightarrow> bool" where
  "wf_tree Q t \<longleftrightarrow> avl t \<and> filled t \<and> ordered Q (inorder t)"

lemma search_items_ok:
  assumes "ordered Q (take n xs)" "n \<le> length xs" "\<And>i. i < n \<Longrightarrow> (d (xs ! i) < 0 \<longleftrightarrow> k < key Q (xs ! i)) \<and> (d (xs ! i) = (0 :: int) \<longleftrightarrow> k = key Q (xs ! i))"
    "l \<le> r" "r < n" "\<And>i. i < l \<Longrightarrow> key Q (xs ! i) < k" "k < key Q (xs ! r)"
  shows "(\<exists>i. search_items d xs l r = Some (Inl i) \<and> l \<le> i \<and> i < r \<and> key Q (xs ! i) = k) \<or>
     (\<exists>i. search_items d xs l r = Some (Inr i) \<and> l \<le> i \<and> i \<le> r \<and> (\<forall>j < i. key Q (xs ! j) < k) \<and> k < key Q (xs ! i))"
  using assms
proof (induction d xs l r rule: search_items.induct)
  case (1 d xs l r)
  note nth = ordered_nth [OF 1(3)]
  let ?i = "(l + r) div 2"
  show ?case
  proof (cases "l < r")
    case False
    then have "search_items d xs l r = Some (Inr r)" by (subst search_items.simps) simp
    moreover have "l = r" using False 1(6) by simp
    ultimately show ?thesis using 1(8,9) by (intro disjI2 exI [of _ r]) simp
  next
    case True
    then have i: "?i < r" "l \<le> ?i" "?i < n" "?i < length xs" using 1(4,7) by auto
    have d: "d (xs ! ?i) < 0 \<longleftrightarrow> k < key Q (xs ! ?i)" "d (xs ! ?i) = 0 \<longleftrightarrow> k = key Q (xs ! ?i)" using 1(5) i by auto
    consider "d (xs ! ?i) = 0" | "d (xs ! ?i) > 0" | "d (xs ! ?i) < 0" by linarith
    then show ?thesis
    proof cases
      case 1
      then have "search_items d xs l r = Some (Inl ?i)" using True i by (subst search_items.simps) simp
      then show ?thesis using d(2) 1 i by (intro disjI1 exI [of _ ?i]) simp
    next
      case 2
      have "\<not> k < key Q (xs ! ?i)" "k \<noteq> key Q (xs ! ?i)" using d 2 by linarith+
      then have k: "key Q (xs ! ?i) < k" by simp
      have "key Q (xs ! j) < k" if "j < ?i + 1" for j
        using k nth [of j ?i] that i 1(4) by (cases "j = ?i") (auto simp: nth_take intro: less_trans)
      then have "(\<exists>i. search_items d xs (?i + 1) r = Some (Inl i) \<and> ?i + 1 \<le> i \<and> i < r \<and> key Q (xs ! i) = k) \<or>
        (\<exists>i. search_items d xs (?i + 1) r = Some (Inr i) \<and> ?i + 1 \<le> i \<and> i \<le> r \<and> (\<forall>j < i. key Q (xs ! j) < k) \<and> k < key Q (xs ! i))"
        using True i 2 1(4,5,7,9) by (intro 1(1) [OF True i(4) _ 2 1(3)]) auto
      moreover have "search_items d xs l r = search_items d xs (?i + 1) r" using True i 2 by (subst search_items.simps) simp
      ultimately show ?thesis using i by (auto intro: less_imp_le)
    next
      case 3
      then have k: "k < key Q (xs ! ?i)" using d by simp
      have ns: "d (xs ! ?i) \<noteq> 0" "\<not> 0 < d (xs ! ?i)" using 3 by auto
      have "(\<exists>i. search_items d xs l ?i = Some (Inl i) \<and> l \<le> i \<and> i < ?i \<and> key Q (xs ! i) = k) \<or>
        (\<exists>i. search_items d xs l ?i = Some (Inr i) \<and> l \<le> i \<and> i \<le> ?i \<and> (\<forall>j < i. key Q (xs ! j) < k) \<and> k < key Q (xs ! i))"
        using k i 1(4,5,8) by (intro 1(2) [OF True i(4) ns 1(3)]) auto
      moreover have "search_items d xs l r = search_items d xs l ?i" using True i 3 by (subst search_items.simps) simp
      ultimately show ?thesis using i by (auto dest: less_trans)
    qed
  qed
qed

section \<open>What an insertion does\<close>

text \<open>The tree \<open>t'\<close> in \<open>s'\<close> is the tree \<open>t\<close> in \<open>s\<close> with one more record; new nodes were not allocated before, and the
  flag of the caller says whether there is one.\<close>

definition adds :: "(nat set \<Rightarrow> (nat \<rightharpoonup> 'k :: linorder) \<Rightarrow> 'm \<Rightarrow> bool) \<Rightarrow> nat set \<Rightarrow> (nat \<rightharpoonup> 'k) \<Rightarrow> nat \<Rightarrow> tt \<Rightarrow> 'm tree_mem \<Rightarrow> 'm tree_mem \<Rightarrow> tt \<Rightarrow> bool" where
  "adds rel A Q hr t s s' t' \<longleftrightarrow> rep (nodes s') t' \<and> filled t' \<and> ordered Q (inorder t') \<and> set (inorder t') = insert hr (set (inorder t)) \<and>
     addrs t \<subseteq> addrs t' \<and> (addrs t' - addrs t) \<inter> A = {} \<and> rel (A \<union> addrs t') Q (heap s') \<and> (\<forall>c. c \<notin> addrs t' \<longrightarrow> nodes s' c = nodes s c) \<and>
     node_flag s' = (node_flag s \<or> addrs t' \<noteq> addrs t)"

definition inserts :: "(nat set \<Rightarrow> (nat \<rightharpoonup> 'k :: linorder) \<Rightarrow> 'm \<Rightarrow> bool) \<Rightarrow> nat set \<Rightarrow> (nat \<rightharpoonup> 'k) \<Rightarrow> nat \<Rightarrow> tt \<Rightarrow> 'm tree_mem \<Rightarrow> int \<Rightarrow> nat \<Rightarrow> 'm tree_mem \<Rightarrow> bool" where
  "inserts rel A Q hr t s g h s' \<longleftrightarrow>
     g = - 2 \<and> key Q hr \<in> keys Q t \<and> s' = s \<or>
     g = - 1 \<and> key Q hr \<notin> keys Q t \<and> nodes s' = nodes s \<and> node_flag s' = node_flag s \<and> rel A Q (heap s') \<or>
     (g = 0 \<or> g = 1) \<and> key Q hr \<notin> keys Q t \<and>
       (\<exists>t'. adds rel A Q hr t s s' t' \<and> h = root t' \<and> avl t' \<and> int (height t') = int (height t) + g \<and> (g = 1 \<longrightarrow> bal t' \<noteq> 0))"

lemma insertsI:
  "adds rel A Q hr t s s' t' \<Longrightarrow> g = 0 \<or> g = 1 \<Longrightarrow> key Q hr \<notin> keys Q t \<Longrightarrow> h = root t' \<Longrightarrow> avl t' \<Longrightarrow>
   int (height t') = int (height t) + g \<Longrightarrow> (g = 1 \<Longrightarrow> bal t' \<noteq> 0) \<Longrightarrow> inserts rel A Q hr t s g h s'"
  by (auto simp: inserts_def)

lemma adds_rebalanced:
  assumes "adds rel A Q hr t s s1 t1" "rebalanced t1 s1 h s2 t2"
  shows "adds rel A Q hr t s s2 t2"
  using assms unfolding adds_def rebalanced_def same_but_def by auto

text \<open>A branch is replaced; the pointer to it is written only when it changed.\<close>

lemma relink_left:
  assumes "repn (nodes s) a (root l) hr b xs" "hr = root r" "rep (nodes s) l'" "rep (nodes s) r" "a \<noteq> 0" "a \<notin> addrs l'" "a \<notin> addrs r" "addrs l' \<inter> addrs r = {}"
  obtains s' where "(if root l' \<noteq> root l then upd_node a (m_hLeft_update (\<lambda>_. root l')) s else Some s) = Some s'"
    "rep (nodes s') (Nd l' a b xs r)" "same_but {a} s s'"
proof (cases "root l' = root l")
  case True
  then show thesis using that [of s] assms by (simp add: same_but_def)
next
  case False
  obtain N where N: "upd_node a (m_hLeft_update (\<lambda>_. root l')) s = Some (s\<lparr>nodes := N\<rparr>)" "repn N a (root l') (root r) b xs" "\<And>c. c \<noteq> a \<Longrightarrow> N c = nodes s c"
    using repn_set(1) [of s a "root l" "root r" b xs "root l'"] assms by auto
  have "rep N l'" "rep N r" using assms N(3) rep_cong [of l' N "nodes s"] rep_cong [of r N "nodes s"] by (metis, metis)
  then show thesis using that [of "s\<lparr>nodes := N\<rparr>"] N assms False by (auto simp: same_but_def)
qed

lemma relink_right:
  assumes "repn (nodes s) a hl (root r) b xs" "hl = root l" "rep (nodes s) l" "rep (nodes s) r'" "a \<noteq> 0" "a \<notin> addrs l" "a \<notin> addrs r'" "addrs l \<inter> addrs r' = {}"
  obtains s' where "(if root r' \<noteq> root r then upd_node a (m_hRight_update (\<lambda>_. root r')) s else Some s) = Some s'"
    "rep (nodes s') (Nd l a b xs r')" "same_but {a} s s'"
proof (cases "root r' = root r")
  case True
  then show thesis using that [of s] assms by (simp add: same_but_def)
next
  case False
  obtain N where N: "upd_node a (m_hRight_update (\<lambda>_. root r')) s = Some (s\<lparr>nodes := N\<rparr>)" "repn N a (root l) (root r') b xs" "\<And>c. c \<noteq> a \<Longrightarrow> N c = nodes s c"
    using repn_set(2) [of s a "root l" "root r" b xs "root r'"] assms by auto
  have "rep N l" "rep N r'" using assms N(3) rep_cong [of l N "nodes s"] rep_cong [of r' N "nodes s"] by (metis, metis)
  then show thesis using that [of "s\<lparr>nodes := N\<rparr>"] N assms False by (auto simp: same_but_def)
qed

lemma adds_left:
  assumes l: "adds rel A Q hr l s s1 l'" and t: "rep (nodes s) (Nd l a b xs r)" "addrs (Nd l a b xs r) \<subseteq> A" "wf_tree Q (Nd l a b xs r)"
    and k: "\<And>x. x \<in> set (xs @ inorder r) \<Longrightarrow> key Q hr < key Q x"
  obtains s2 where "(if root l' \<noteq> root l then upd_node a (m_hLeft_update (\<lambda>_. root l')) s1 else Some s1) = Some s2"
    "adds rel A Q hr (Nd l a b xs r) s s2 (Nd l' a b xs r)"
proof -
  have d: "a \<notin> addrs l'" "addrs l' \<inter> addrs r = {}" using l t(1,2) by (auto simp: adds_def)
  have same: "nodes s1 c = nodes s c" if "c \<notin> addrs l'" for c using l that by (auto simp: adds_def)
  have n: "repn (nodes s1) a (root l) (root r) b xs" using t(1) repn_cong [of "nodes s1" a "nodes s"] same d by simp
  have r: "rep (nodes s1) r" using t(1) rep_cong [of r "nodes s1" "nodes s"] same d by auto
  obtain s2 where s2: "(if root l' \<noteq> root l then upd_node a (m_hLeft_update (\<lambda>_. root l')) s1 else Some s1) = Some s2"
    "rep (nodes s2) (Nd l' a b xs r)" "same_but {a} s1 s2"
    by (rule relink_left [OF n refl _ r _ d(1) _ d(2)]) (use l t(1) in \<open>auto simp: adds_def\<close>)
  have A: "A \<union> addrs (Nd l' a b xs r) = A \<union> addrs l'" using t(2) by auto
  have ord: "ordered Q (inorder (Nd l' a b xs r))" using l t(3) k by (auto simp: adds_def wf_tree_def)
  have "(addrs (Nd l' a b xs r) \<noteq> addrs (Nd l a b xs r)) = (addrs l' \<noteq> addrs l)" using l t(1) d by (auto simp: adds_def)
  then have "node_flag s2 = (node_flag s \<or> addrs (Nd l' a b xs r) \<noteq> addrs (Nd l a b xs r))" using l s2(3) by (simp add: adds_def same_but_def)
  then have "adds rel A Q hr (Nd l a b xs r) s s2 (Nd l' a b xs r)"
    unfolding adds_def A using l t s2 ord d by (auto simp: adds_def wf_tree_def same_but_def)
  then show thesis using that s2(1) by blast
qed

lemma adds_right:
  assumes r: "adds rel A Q hr r s s1 r'" and t: "rep (nodes s) (Nd l a b xs r)" "addrs (Nd l a b xs r) \<subseteq> A" "wf_tree Q (Nd l a b xs r)"
    and k: "\<And>x. x \<in> set (inorder l @ xs) \<Longrightarrow> key Q x < key Q hr"
  obtains s2 where "(if root r' \<noteq> root r then upd_node a (m_hRight_update (\<lambda>_. root r')) s1 else Some s1) = Some s2"
    "adds rel A Q hr (Nd l a b xs r) s s2 (Nd l a b xs r')"
proof -
  have d: "a \<notin> addrs r'" "addrs l \<inter> addrs r' = {}" using r t(1,2) by (auto simp: adds_def)
  have same: "nodes s1 c = nodes s c" if "c \<notin> addrs r'" for c using r that by (auto simp: adds_def)
  have n: "repn (nodes s1) a (root l) (root r) b xs" using t(1) repn_cong [of "nodes s1" a "nodes s"] same d by simp
  have l: "rep (nodes s1) l" using t(1) rep_cong [of l "nodes s1" "nodes s"] same d by auto
  obtain s2 where s2: "(if root r' \<noteq> root r then upd_node a (m_hRight_update (\<lambda>_. root r')) s1 else Some s1) = Some s2"
    "rep (nodes s2) (Nd l a b xs r')" "same_but {a} s1 s2"
    by (rule relink_right [OF n refl l _ _ _ d(1) d(2)]) (use r t(1) in \<open>auto simp: adds_def\<close>)
  have A: "A \<union> addrs (Nd l a b xs r') = A \<union> addrs r'" using t(2) by auto
  have ord: "ordered Q (inorder (Nd l a b xs r'))" using r t(3) k by (auto simp: adds_def wf_tree_def)
  have "(addrs (Nd l a b xs r') \<noteq> addrs (Nd l a b xs r)) = (addrs r' \<noteq> addrs r)" using r t(1) d by (auto simp: adds_def)
  then have "node_flag s2 = (node_flag s \<or> addrs (Nd l a b xs r') \<noteq> addrs (Nd l a b xs r))" using r s2(3) by (simp add: adds_def same_but_def)
  then have "adds rel A Q hr (Nd l a b xs r) s s2 (Nd l a b xs r')"
    unfolding adds_def A using r t s2 ord d by (auto simp: adds_def wf_tree_def same_but_def)
  then show thesis using that s2(1) by blast
qed

lemma adds_items:
  assumes t: "rep (nodes s) (Nd l a b xs r)" "addrs (Nd l a b xs r) \<subseteq> A" "wf_tree Q (Nd l a b xs r)" "rel A Q (heap s)"
    and ys: "length zs = PAGE_SIZE" "take (length xs + 1) zs = ys" "length ys = length xs + 1" "set ys = insert hr (set xs)" "ordered Q (inorder l @ ys @ inorder r)"
  obtains s' where "upd_node a (\<lambda>_. mk_node (root l) (root r) b (length xs + 1) zs) s = Some s'" "adds rel A Q hr (Nd l a b xs r) s s' (Nd l a b ys r)"
proof -
  let ?s = "s\<lparr>nodes := (nodes s)(a \<mapsto> mk_node (root l) (root r) b (length xs + 1) zs)\<rparr>"
  have up: "upd_node a (\<lambda>_. mk_node (root l) (root r) b (length xs + 1) zs) s = Some ?s" using t(1) by (auto elim: repnE simp: upd_node_def)
  have "length ys \<le> PAGE_SIZE" using ys(1-3) by (metis length_take min.cobounded1)
  moreover have "A \<union> addrs (Nd l a b ys r) = A" using t(2) by auto
  ultimately have "adds rel A Q hr (Nd l a b xs r) s ?s (Nd l a b ys r)"
    unfolding adds_def using t ys by (auto simp: wf_tree_def repn_same)
  then show thesis using up that by blast
qed

lemma node_at:
  assumes "rep (nodes s) (Nd l a b xs r)" "filled (Nd l a b xs r)"
  obtains ys where "nodes s a = Some (mk_node (root l) (root r) b (length xs) (xs @ ys))" "length (xs @ ys) = PAGE_SIZE"
    "item (mk_node (root l) (root r) b (length xs) (xs @ ys)) 0 = Some (hd xs)"
    "last_item (mk_node (root l) (root r) b (length xs) (xs @ ys)) = Some (last xs)"
    "items_of (mk_node (root l) (root r) b (length xs) (xs @ ys)) = Some xs"
proof -
  obtain ys where ys: "nodes s a = Some (mk_node (root l) (root r) b (length xs) (xs @ ys))" "length (xs @ ys) = PAGE_SIZE" using assms(1) by (auto elim: repnE)
  obtain z zs where xs: "xs = z # zs" using assms(2) by (cases xs) auto
  show thesis by (rule that [OF ys]) (use xs in \<open>simp_all add: item_def last_item_def items_of_def last_conv_nth nth_append nth_Cons'\<close>)
qed

section \<open>Insertion is correct\<close>

context tree_memory
begin

lemma diff_key:
  assumes "rel A Q m" "ordered Q xs" "x \<in> set xs" "k \<in> K"
  shows "iDiff E m k x < 0 \<longleftrightarrow> k < key Q x" "iDiff E m k x = 0 \<longleftrightarrow> k = key Q x" "0 < iDiff E m k x \<longleftrightarrow> key Q x < k" "pfComp E m k x = 0 \<longleftrightarrow> k = key Q x"
proof -
  have q: "Q x = Some (key Q x)" using ordered_dom assms(2,3) by blast
  show a: "iDiff E m k x < 0 \<longleftrightarrow> k < key Q x" and b: "iDiff E m k x = 0 \<longleftrightarrow> k = key Q x" and "pfComp E m k x = 0 \<longleftrightarrow> k = key Q x"
    using diff [OF assms(1) q assms(4)] comp_eq [OF assms(1) q assms(4)] by auto
  show "0 < iDiff E m k x \<longleftrightarrow> key Q x < k" using a b by (metis less_irrefl linorder_less_linear order_less_asym)
qed

lemma alloc_ok:
  assumes "rel A Q (heap s)" "Q hr = Some k"
  shows "(\<exists>m. node_Alloc E hr s = Some (0, s\<lparr>heap := m\<rparr>) \<and> rel A Q m) \<or>
    (\<exists>h s1. node_Alloc E hr s = Some (h, s1) \<and> h \<noteq> 0 \<and> adds rel A Q hr Tip s (s1\<lparr>node_flag := True\<rparr>) (Nd Tip h 0 [hr] Tip))"
proof -
  obtain h m where h: "Malloc E (heap s) = Some (h, m)" "if h = 0 then rel A Q m else h \<notin> A \<and> rel (insert h A) Q m"
    using malloc [OF assms(1)] by blast
  show ?thesis
  proof (cases "h = 0")
    case True
    then show ?thesis using h by (auto simp: node_Alloc_def)
  next
    case False
    let ?n = "node_Init\<lparr>m_ahItems := (m_ahItems node_Init)[0 := hr], m_ushNItems := 1\<rparr>"
    let ?s = "s\<lparr>heap := m, nodes := (nodes s)(h \<mapsto> ?n)\<rparr>"
    have "node_Alloc E hr s = Some (h, ?s)" using h(1) False by (simp add: node_Alloc_def)
    moreover have "repn (nodes ?s) h 0 0 0 [hr]" by (simp add: repn_same node_Init_def PAGE_SIZE_def take_Suc_conv_app_nth)
    then have "adds rel A Q hr Tip s (?s\<lparr>node_flag := True\<rparr>) (Nd Tip h 0 [hr] Tip)"
      using h(2) False assms(2) by (auto simp: adds_def PAGE_SIZE_def)
    ultimately show ?thesis using False by blast
  qed
qed

lemma insert_left:
  assumes m: "rel A Q (heap s)" and t: "rep (nodes s) (Nd l a b xs r)" "addrs (Nd l a b xs r) \<subseteq> A" "wf_tree Q (Nd l a b xs r)"
    and k: "Q hr = Some k" "k < key Q (hd xs)"
    and IH: "l \<noteq> Tip \<Longrightarrow> \<exists>g h s'. node_Insert E k hr (root l) s = Some (g, h, s') \<and> inserts rel A Q hr l s g h s'"
  shows "\<exists>g h s'. node_Insert E k hr a s = Some (g, h, s') \<and> inserts rel A Q hr (Nd l a b xs r) s g h s'"
proof -
  have f: "filled (Nd l a b xs r)" and avl: "avl (Nd l a b xs r)" and ord: "ordered Q (inorder l @ xs @ inorder r)" using t(3) by (auto simp: wf_tree_def)
  obtain ys where n: "nodes s a = Some (mk_node (root l) (root r) b (length xs) (xs @ ys))" "length (xs @ ys) = PAGE_SIZE"
    "item (mk_node (root l) (root r) b (length xs) (xs @ ys)) 0 = Some (hd xs)" by (rule node_at [OF t(1) f])
  have hd: "hd xs \<in> set xs" "ordered Q xs" using f ord by auto
  have d: "iDiff E (heap s) k (hd xs) < 0" "iDiff E (heap s) k (hd xs) \<noteq> 0"
    using diff_key(1,2) [OF m hd(2,1), of k] cvalue [OF m k(1), THEN conjunct2] k(2) by auto
  have less: "k < key Q x" if "x \<in> set (xs @ inorder r)" for x
    using that k(2) ordered_hd [OF hd(2), of x] ord hd(1) by (auto intro: less_le_trans less_trans)
  then have out: "k \<notin> key Q ` set (xs @ inorder r)" by auto
  have grow: "\<exists>g h s'. grew_left a s2 = Some (g, h, s') \<and> inserts rel A Q hr (Nd l a b xs r) s g h s'"
    if a: "adds rel A Q hr (Nd l a b xs r) s s2 (Nd l' a b xs r)" "avl l'" "int (height l') = int (height l) + 1" "b = - 1 \<Longrightarrow> bal l' \<noteq> 0" "k \<notin> keys Q l" for s2 l'
  proof -
    have bal: "b = int (height r) - int (height l') + 1" "- 1 \<le> b" "b \<le> 1" using avl a(3) by auto
    obtain g h s' t' where g: "grew_left a s2 = Some (g, h, s')" "rebalanced (Nd l' a b xs r) s2 h s' t'" "g = 0 \<or> g = 1"
      "int (height t') = 1 + max (int (height l') - 1) (int (height r)) + g" "g = 1 \<Longrightarrow> bal t' \<noteq> 0"
      by (rule grew_left_ok [OF _ a(2) _ _ bal a(4)]) (use a(1) avl in \<open>auto simp: adds_def\<close>)
    have "int (height t') = int (height (Nd l a b xs r)) + g" using g(4) a(3) by simp
    moreover have "key Q hr \<notin> keys Q (Nd l a b xs r)" using a(5) out k(1) by (auto simp: keys_def)
    ultimately have "inserts rel A Q hr (Nd l a b xs r) s g h s'"
      using g(2,3,5) by (intro insertsI [OF adds_rebalanced [OF a(1) g(2)]]) (auto simp: rebalanced_def)
    then show ?thesis using g(1) by blast
  qed
  show ?thesis
  proof (cases "l = Tip")
    case True
    have nk: "key Q hr \<notin> keys Q (Nd l a b xs r)" using out k(1) True by (auto simp: keys_def)
    show ?thesis
    proof (cases "length xs < PAGE_SIZE")
      case room: True
      obtain zs where zs: "insert_item 0 hr (mk_node (root l) (root r) b (length xs) (xs @ ys)) = Some (mk_node (root l) (root r) b (length xs + 1) zs)"
        "length zs = PAGE_SIZE" "take (length xs + 1) zs = take 0 xs @ hr # drop 0 xs" by (rule insert_item_ok [OF n(2) room, of 0]) simp
      obtain s' where s': "upd_node a (\<lambda>_. mk_node (root l) (root r) b (length xs + 1) zs) s = Some s'" "adds rel A Q hr (Nd l a b xs r) s s' (Nd l a b (hr # xs) r)"
        by (rule adds_items [where rel = rel, OF t(1-3) m zs(2)]) (use zs ord less k(1) True in auto)
      have "inserts rel A Q hr (Nd l a b xs r) s 0 a s'"
        by (rule insertsI [OF s'(2)]) (use avl nk in auto)
      then show ?thesis using n d True room zs s' by (subst node_Insert.simps) simp
    next
      case full: False
      from alloc_ok [OF m k(1)] show ?thesis
      proof (elim disjE exE conjE)
        fix m' assume m': "node_Alloc E hr s = Some (0, s\<lparr>heap := m'\<rparr>)" "rel A Q m'"
        then have "inserts rel A Q hr (Nd l a b xs r) s (- 1) a (s\<lparr>heap := m'\<rparr>)" using nk by (simp add: inserts_def)
        then show ?thesis using n d True full m' by (subst node_Insert.simps) simp
      next
        fix h s1 assume s1: "node_Alloc E hr s = Some (h, s1)" "h \<noteq> 0" "adds rel A Q hr Tip s (s1\<lparr>node_flag := True\<rparr>) (Nd Tip h 0 [hr] Tip)"
        obtain s2 where s2: "(if root (Nd Tip h 0 [hr] Tip) \<noteq> root l then upd_node a (m_hLeft_update (\<lambda>_. root (Nd Tip h 0 [hr] Tip))) (s1\<lparr>node_flag := True\<rparr>)
            else Some (s1\<lparr>node_flag := True\<rparr>)) = Some s2" "adds rel A Q hr (Nd l a b xs r) s s2 (Nd (Nd Tip h 0 [hr] Tip) a b xs r)"
          by (rule adds_left [OF _ t, of rel hr "s1\<lparr>node_flag := True\<rparr>" "Nd Tip h 0 [hr] Tip"]) (use s1(3) True less k(1) in auto)
        have "\<exists>g h s'. grew_left a s2 = Some (g, h, s') \<and> inserts rel A Q hr (Nd l a b xs r) s g h s'"
          by (rule grow [OF s2(2)]) (use avl True in \<open>auto simp: keys_def\<close>)
        then show ?thesis using n d True full s1 s2(1) by (subst node_Insert.simps) simp
      qed
    qed
  next
    case False
    obtain g h s1 where g: "node_Insert E k hr (root l) s = Some (g, h, s1)" "inserts rel A Q hr l s g h s1" using IH [OF False] by blast
    have rl: "root l \<noteq> 0" using False t(1) root_0 [of "nodes s" l] by auto
    from g(2) consider "g = - 2" "k \<in> keys Q l" "s1 = s" | "g = - 1" "k \<notin> keys Q l" "nodes s1 = nodes s" "node_flag s1 = node_flag s" "rel A Q (heap s1)"
      | l' where "g = 0 \<or> g = 1" "k \<notin> keys Q l" "adds rel A Q hr l s s1 l'" "h = root l'" "avl l'" "int (height l') = int (height l) + g" "g = 1 \<longrightarrow> bal l' \<noteq> 0"
      using k(1) by (auto simp: inserts_def)
    then show ?thesis
    proof cases
      case 1
      then have "inserts rel A Q hr (Nd l a b xs r) s (- 2) a s1" using k(1) by (auto simp: inserts_def keys_def)
      then show ?thesis using n d rl g(1) 1 by (subst node_Insert.simps) simp
    next
      case 2
      then have "inserts rel A Q hr (Nd l a b xs r) s (- 1) a s1" using k(1) out by (auto simp: inserts_def keys_def)
      then show ?thesis using n d rl g(1) 2 by (subst node_Insert.simps) simp
    next
      case 3
      obtain s2 where s2: "(if root l' \<noteq> root l then upd_node a (m_hLeft_update (\<lambda>_. root l')) s1 else Some s1) = Some s2"
        "adds rel A Q hr (Nd l a b xs r) s s2 (Nd l' a b xs r)"
        by (rule adds_left [OF 3(3) t]) (use less k(1) in auto)
      show ?thesis
      proof (cases "g = 0")
        case True
        have "inserts rel A Q hr (Nd l a b xs r) s 0 a s2"
          by (rule insertsI [OF s2(2)]) (use avl 3 True out k(1) in \<open>auto simp: keys_def\<close>)
        then show ?thesis using n d rl g(1) 3 True s2(1) by (subst node_Insert.simps) simp
      next
        case False
        then have "\<exists>g h s'. grew_left a s2 = Some (g, h, s') \<and> inserts rel A Q hr (Nd l a b xs r) s g h s'"
          using 3 by (intro grow [OF s2(2)]) auto
        then show ?thesis using n d rl g(1) 3 False s2(1) by (subst node_Insert.simps) auto
      qed
    qed
  qed
qed

end

context tree_memory
begin

lemma insert_right:
  assumes m: "rel A Q (heap s)" and t: "rep (nodes s) (Nd l a b xs r)" "addrs (Nd l a b xs r) \<subseteq> A" "wf_tree Q (Nd l a b xs r)"
    and k: "Q hr = Some k" "key Q (last xs) < k"
    and IH: "r \<noteq> Tip \<Longrightarrow> \<exists>g h s'. node_Insert E k hr (root r) s = Some (g, h, s') \<and> inserts rel A Q hr r s g h s'"
  shows "\<exists>g h s'. node_Insert E k hr a s = Some (g, h, s') \<and> inserts rel A Q hr (Nd l a b xs r) s g h s'"
proof -
  have f: "filled (Nd l a b xs r)" and avl: "avl (Nd l a b xs r)" and ord: "ordered Q (inorder l @ xs @ inorder r)" using t(3) by (auto simp: wf_tree_def)
  obtain ys where n: "nodes s a = Some (mk_node (root l) (root r) b (length xs) (xs @ ys))" "length (xs @ ys) = PAGE_SIZE"
    "item (mk_node (root l) (root r) b (length xs) (xs @ ys)) 0 = Some (hd xs)"
    "last_item (mk_node (root l) (root r) b (length xs) (xs @ ys)) = Some (last xs)" by (rule node_at [OF t(1) f])
  have hd: "hd xs \<in> set xs" "last xs \<in> set xs" "ordered Q xs" using f ord by auto
  have K: "k \<in> K" using cvalue [OF m k(1)] by simp
  have less: "key Q x < k" if "x \<in> set (inorder l @ xs)" for x
  proof (cases "x \<in> set xs")
    case True
    show ?thesis by (rule le_less_trans [OF ordered_last [OF hd(3) True] k(2)])
  next
    case False
    then have "key Q x < key Q (last xs)" using that ord hd(2) by auto
    then show ?thesis using k(2) by (rule less_trans)
  qed
  have d: "\<not> iDiff E (heap s) k (hd xs) < 0" "iDiff E (heap s) k (hd xs) \<noteq> 0" "iDiff E (heap s) k (last xs) > 0"
    using diff_key [OF m hd(3,1) K] diff_key [OF m hd(3,2) K] less [of "hd xs"] hd(1) k(2) by auto
  have out: "k \<notin> key Q ` set (inorder l @ xs)" using less by auto
  have grow: "\<exists>g h s'. grew_right a s2 = Some (g, h, s') \<and> inserts rel A Q hr (Nd l a b xs r) s g h s'"
    if a: "adds rel A Q hr (Nd l a b xs r) s s2 (Nd l a b xs r')" "avl r'" "int (height r') = int (height r) + 1" "b = 1 \<Longrightarrow> bal r' \<noteq> 0" "k \<notin> keys Q r" for s2 r'
  proof -
    have bal: "b = int (height r') - int (height l) - 1" "- 1 \<le> b" "b \<le> 1" using avl a(3) by auto
    obtain g h s' t' where g: "grew_right a s2 = Some (g, h, s')" "rebalanced (Nd l a b xs r') s2 h s' t'" "g = 0 \<or> g = 1"
      "int (height t') = 1 + max (int (height l)) (int (height r') - 1) + g" "g = 1 \<Longrightarrow> bal t' \<noteq> 0"
      by (rule grew_right_ok [OF _ _ a(2) _ bal a(4)]) (use a(1) avl in \<open>auto simp: adds_def\<close>)
    have "int (height t') = int (height (Nd l a b xs r)) + g" using g(4) a(3) by simp
    moreover have "key Q hr \<notin> keys Q (Nd l a b xs r)" using a(5) out k(1) by (auto simp: keys_def)
    ultimately have "inserts rel A Q hr (Nd l a b xs r) s g h s'"
      using g(2,3,5) by (intro insertsI [OF adds_rebalanced [OF a(1) g(2)]]) (auto simp: rebalanced_def)
    then show ?thesis using g(1) by blast
  qed
  show ?thesis
  proof (cases "r = Tip")
    case True
    have nk: "key Q hr \<notin> keys Q (Nd l a b xs r)" using out k(1) True by (auto simp: keys_def)
    show ?thesis
    proof (cases "length xs < PAGE_SIZE")
      case room: True
      obtain zs where zs: "insert_item (length xs) hr (mk_node (root l) (root r) b (length xs) (xs @ ys)) = Some (mk_node (root l) (root r) b (length xs + 1) zs)"
        "length zs = PAGE_SIZE" "take (length xs + 1) zs = take (length xs) xs @ hr # drop (length xs) xs" by (rule insert_item_ok [OF n(2) room, of "length xs"]) simp
      obtain s' where s': "upd_node a (\<lambda>_. mk_node (root l) (root r) b (length xs + 1) zs) s = Some s'" "adds rel A Q hr (Nd l a b xs r) s s' (Nd l a b (xs @ [hr]) r)"
        by (rule adds_items [where rel = rel, OF t(1-3) m zs(2)]) (use zs ord less k(1) True in auto)
      have "inserts rel A Q hr (Nd l a b xs r) s 0 a s'" by (rule insertsI [OF s'(2)]) (use avl nk in auto)
      then show ?thesis using n d True room zs s' by (subst node_Insert.simps) simp
    next
      case full: False
      from alloc_ok [OF m k(1)] show ?thesis
      proof (elim disjE exE conjE)
        fix m' assume m': "node_Alloc E hr s = Some (0, s\<lparr>heap := m'\<rparr>)" "rel A Q m'"
        then have "inserts rel A Q hr (Nd l a b xs r) s (- 1) a (s\<lparr>heap := m'\<rparr>)" using nk by (simp add: inserts_def)
        then show ?thesis using n d True full m' by (subst node_Insert.simps) simp
      next
        fix h s1 assume s1: "node_Alloc E hr s = Some (h, s1)" "h \<noteq> 0" "adds rel A Q hr Tip s (s1\<lparr>node_flag := True\<rparr>) (Nd Tip h 0 [hr] Tip)"
        obtain s2 where s2: "(if root (Nd Tip h 0 [hr] Tip) \<noteq> root r then upd_node a (m_hRight_update (\<lambda>_. root (Nd Tip h 0 [hr] Tip))) (s1\<lparr>node_flag := True\<rparr>)
            else Some (s1\<lparr>node_flag := True\<rparr>)) = Some s2" "adds rel A Q hr (Nd l a b xs r) s s2 (Nd l a b xs (Nd Tip h 0 [hr] Tip))"
          by (rule adds_right [OF _ t, of rel hr "s1\<lparr>node_flag := True\<rparr>" "Nd Tip h 0 [hr] Tip"]) (use s1(3) True less k(1) in auto)
        have "\<exists>g h s'. grew_right a s2 = Some (g, h, s') \<and> inserts rel A Q hr (Nd l a b xs r) s g h s'"
          by (rule grow [OF s2(2)]) (use avl True in \<open>auto simp: keys_def\<close>)
        then show ?thesis using n d True full s1 s2(1) by (subst node_Insert.simps) simp
      qed
    qed
  next
    case False
    obtain g h s1 where g: "node_Insert E k hr (root r) s = Some (g, h, s1)" "inserts rel A Q hr r s g h s1" using IH [OF False] by blast
    have rr: "root r \<noteq> 0" using False t(1) root_0 [of "nodes s" r] by auto
    from g(2) consider "g = - 2" "k \<in> keys Q r" "s1 = s" | "g = - 1" "k \<notin> keys Q r" "nodes s1 = nodes s" "node_flag s1 = node_flag s" "rel A Q (heap s1)"
      | r' where "g = 0 \<or> g = 1" "k \<notin> keys Q r" "adds rel A Q hr r s s1 r'" "h = root r'" "avl r'" "int (height r') = int (height r) + g" "g = 1 \<longrightarrow> bal r' \<noteq> 0"
      using k(1) by (auto simp: inserts_def)
    then show ?thesis
    proof cases
      case 1
      then have "inserts rel A Q hr (Nd l a b xs r) s (- 2) a s1" using k(1) by (auto simp: inserts_def keys_def)
      then show ?thesis using n d rr g(1) 1 by (subst node_Insert.simps) simp
    next
      case 2
      then have "inserts rel A Q hr (Nd l a b xs r) s (- 1) a s1" using k(1) out by (auto simp: inserts_def keys_def)
      then show ?thesis using n d rr g(1) 2 by (subst node_Insert.simps) simp
    next
      case 3
      obtain s2 where s2: "(if root r' \<noteq> root r then upd_node a (m_hRight_update (\<lambda>_. root r')) s1 else Some s1) = Some s2"
        "adds rel A Q hr (Nd l a b xs r) s s2 (Nd l a b xs r')"
        by (rule adds_right [OF 3(3) t]) (use less k(1) in auto)
      show ?thesis
      proof (cases "g = 0")
        case True
        have "inserts rel A Q hr (Nd l a b xs r) s 0 a s2"
          by (rule insertsI [OF s2(2)]) (use avl 3 True out k(1) in \<open>auto simp: keys_def\<close>)
        then show ?thesis using n d rr g(1) 3 True s2(1) by (subst node_Insert.simps) simp
      next
        case False
        then have "\<exists>g h s'. grew_right a s2 = Some (g, h, s') \<and> inserts rel A Q hr (Nd l a b xs r) s g h s'"
          using 3 by (intro grow [OF s2(2)]) auto
        then show ?thesis using n d rr g(1) 3 False s2(1) by (subst node_Insert.simps) auto
      qed
    qed
  qed
qed

end

text \<open>A full node: the record takes the place of an item at the edge, which is inserted again. The result for the
  changed node is the result for the node as it was.\<close>

lemma inserts_displaced:
  assumes i: "inserts rel A Q x (Nd l a b zs r) s1 g h s2" and x: "key Q x \<notin> keys Q (Nd l a b zs r)" and hr: "key Q hr \<notin> keys Q (Nd l a b xs r)"
    and set: "insert x (set zs) = insert hr (set xs)" and n: "nodes s a = Some (mk_node hl hrt b (length xs) xs)"
    and s1: "s1 = s\<lparr>nodes := (nodes s)(a \<mapsto> mk_node hl hrt b (length xs) zs)\<rparr>"
  shows "\<exists>s3. (if g < 0 then do { s \<leftarrow> upd_node a (m_ahItems_update (\<lambda>_. xs)) s2; Some (g, h, s) } else Some (g, h, s2)) = Some (g, h, s3) \<and>
    inserts rel A Q hr (Nd l a b xs r) s g h s3"
proof -
  from i x consider "g = - 1" "nodes s2 = nodes s1" "node_flag s2 = node_flag s1" "rel A Q (heap s2)"
    | t' where "g = 0 \<or> g = 1" "adds rel A Q x (Nd l a b zs r) s1 s2 t'" "h = root t'" "avl t'" "int (height t') = int (height (Nd l a b zs r)) + g" "g = 1 \<longrightarrow> bal t' \<noteq> 0"
    by (auto simp: inserts_def)
  then show ?thesis
  proof cases
    case 1
    let ?s = "s2\<lparr>nodes := nodes s\<rparr>"
    have "upd_node a (m_ahItems_update (\<lambda>_. xs)) s2 = Some ?s" using 1(2) n by (simp add: upd_node_def s1 fun_upd_idem)
    moreover have "inserts rel A Q hr (Nd l a b xs r) s (- 1) h ?s" using 1 hr by (simp add: inserts_def s1)
    ultimately show ?thesis using 1(1) by simp
  next
    case 2
    have "insert x (set (inorder (Nd l a b zs r))) = insert hr (set (inorder (Nd l a b xs r)))" using set by auto
    moreover have "c \<notin> addrs t' \<Longrightarrow> nodes s2 c = nodes s c" for c using 2(2) by (auto simp: adds_def s1)
    ultimately have "adds rel A Q hr (Nd l a b xs r) s s2 t'" using 2(2) by (simp add: adds_def s1)
    then have "inserts rel A Q hr (Nd l a b xs r) s g h s2" by (rule insertsI) (use 2 hr in auto)
    then show ?thesis using 2(1) by auto
  qed
qed

lemma rep_items:
  assumes "rep (nodes s) (Nd l a b xs r)" "length zs = length xs" "length xs = PAGE_SIZE"
  shows "rep ((nodes s)(a \<mapsto> mk_node (root l) (root r) b (length xs) zs)) (Nd l a b zs r)"
  using assms by (auto simp: repn_same)

context tree_memory
begin

lemma insert_middle:
  assumes m: "rel A Q (heap s)" and t: "rep (nodes s) (Nd l a b xs r)" "addrs (Nd l a b xs r) \<subseteq> A" "wf_tree Q (Nd l a b xs r)"
    and k: "Q hr = Some k" "key Q (hd xs) < k" "k < key Q (last xs)"
    and IHl: "\<And>s k hr. rel A Q (heap s) \<Longrightarrow> rep (nodes s) l \<Longrightarrow> Q hr = Some k \<Longrightarrow> l \<noteq> Tip \<Longrightarrow> \<exists>g h s'. node_Insert E k hr (root l) s = Some (g, h, s') \<and> inserts rel A Q hr l s g h s'"
    and IHr: "\<And>s k hr. rel A Q (heap s) \<Longrightarrow> rep (nodes s) r \<Longrightarrow> Q hr = Some k \<Longrightarrow> r \<noteq> Tip \<Longrightarrow> \<exists>g h s'. node_Insert E k hr (root r) s = Some (g, h, s') \<and> inserts rel A Q hr r s g h s'"
  shows "\<exists>g h s'. node_Insert E k hr a s = Some (g, h, s') \<and> inserts rel A Q hr (Nd l a b xs r) s g h s'"
proof -
  have f: "filled (Nd l a b xs r)" and avl: "avl (Nd l a b xs r)" and ord: "ordered Q (inorder l @ xs @ inorder r)" using t(3) by (auto simp: wf_tree_def)
  obtain ys where n: "nodes s a = Some (mk_node (root l) (root r) b (length xs) (xs @ ys))" "length (xs @ ys) = PAGE_SIZE"
    "item (mk_node (root l) (root r) b (length xs) (xs @ ys)) 0 = Some (hd xs)"
    "last_item (mk_node (root l) (root r) b (length xs) (xs @ ys)) = Some (last xs)" by (rule node_at [OF t(1) f])
  have hd: "hd xs \<in> set xs" "last xs \<in> set xs" "ordered Q xs" "xs \<noteq> []" using f ord by auto
  have K: "k \<in> K" using cvalue [OF m k(1)] by simp
  have d: "\<not> iDiff E (heap s) k (hd xs) < 0" "iDiff E (heap s) k (hd xs) \<noteq> 0" "\<not> iDiff E (heap s) k (last xs) > 0" "iDiff E (heap s) k (last xs) \<noteq> 0"
    using diff_key [OF m hd(3,1) K] diff_key [OF m hd(3,2) K] k(2,3) by auto
  have xl: "(xs @ ys) ! (length xs - 1) = last xs" "(xs @ ys) ! 0 = hd xs" using hd(4) by (auto simp: nth_append last_conv_nth hd_conv_nth)
  have two: "1 \<le> length xs - 1"
  proof (rule ccontr)
    assume "\<not> 1 \<le> length xs - 1"
    then have "hd xs = last xs" using hd(4) by (cases xs) (auto simp: Suc_le_eq)
    then show False using k(2,3) by simp
  qed
  have S: "(\<exists>i. search_items (iDiff E (heap s) k) (xs @ ys) 1 (length xs - 1) = Some (Inl i) \<and> 1 \<le> i \<and> i < length xs - 1 \<and> key Q ((xs @ ys) ! i) = k) \<or>
     (\<exists>i. search_items (iDiff E (heap s) k) (xs @ ys) 1 (length xs - 1) = Some (Inr i) \<and> 1 \<le> i \<and> i \<le> length xs - 1 \<and> (\<forall>j < i. key Q ((xs @ ys) ! j) < k) \<and> k < key Q ((xs @ ys) ! i))"
    by (rule search_items_ok [of Q "length xs"]) (use hd xl two k diff_key(1,2) [OF m hd(3) _ K] in \<open>auto simp: nth_append\<close>)
  have run: "node_Insert E k hr a s = (case search_items (iDiff E (heap s) k) (xs @ ys) 1 (length xs - 1) of None \<Rightarrow> None | Some (Inl i) \<Rightarrow> Some (- 2, a, s)
      | Some (Inr iRight) \<Rightarrow>
         (if length xs < PAGE_SIZE then do {
            n' \<leftarrow> insert_item iRight hr (mk_node (root l) (root r) b (length xs) (xs @ ys));
            s \<leftarrow> upd_node a (\<lambda>_. n') s;
            Some (0, a, s) }
          else do {
            (hReInsert, n') \<leftarrow> displace iRight hr (mk_node (root l) (root r) b (length xs) (xs @ ys));
            s \<leftarrow> upd_node a (\<lambda>_. n') s;
            (iRet, hTop, s) \<leftarrow> node_Insert E (cvalue E (heap s) hReInsert) hReInsert a s;
            if iRet < 0 then do { s \<leftarrow> upd_node a (m_ahItems_update (\<lambda>_. xs @ ys)) s; Some (iRet, hTop, s) }
            else Some (iRet, hTop, s) }))"
    by (subst node_Insert.simps) (use n d in \<open>simp split: option.split sum.split cong: if_cong\<close>)
  from S show ?thesis
  proof (elim disjE exE conjE)
    fix i assume i: "search_items (iDiff E (heap s) k) (xs @ ys) 1 (length xs - 1) = Some (Inl i)" "1 \<le> i" "i < length xs - 1" "key Q ((xs @ ys) ! i) = k"
    then have "k \<in> keys Q (Nd l a b xs r)" by (auto simp: keys_def nth_append)
    then have "inserts rel A Q hr (Nd l a b xs r) s (- 2) a s" using k(1) by (simp add: inserts_def)
    then show ?thesis using run i(1) by simp
  next
    fix i assume i: "search_items (iDiff E (heap s) k) (xs @ ys) 1 (length xs - 1) = Some (Inr i)" "1 \<le> i" "i \<le> length xs - 1"
      "\<forall>j < i. key Q ((xs @ ys) ! j) < k" "k < key Q ((xs @ ys) ! i)"
    define us vs where uv: "us = take i xs" "vs = drop i xs"
    have xs: "xs = us @ vs" "length us = i" "vs \<noteq> []" "us \<noteq> []" using i(2,3) two by (auto simp: uv)
    have lo: "key Q x < k" if "x \<in> set us" for x using that i(4) xs(1,2) by (auto simp: in_set_conv_nth nth_append)
    have "i < length xs" using i(3) two by simp
    then have "k < key Q (hd vs)" using i(5) uv(2) by (simp add: nth_append hd_drop_conv_nth)
    then have hi: "k < key Q x" if "x \<in> set vs" for x using that ordered_hd [of Q vs x] hd(3) xs(1) by (auto intro: less_le_trans)
    have outer: "key Q x < k" if "x \<in> set (inorder l)" for x using that ord hd(1) by (intro less_trans [OF _ k(2)]) auto
    have outer': "k < key Q x" if "x \<in> set (inorder r)" for x using that ord hd(2) by (intro less_trans [OF k(3)]) auto
    have nk: "key Q hr \<notin> keys Q (Nd l a b xs r)" using lo hi outer outer' k(1) xs(1) by (auto simp: keys_def)
    have dom: "hr \<in> dom Q" "key Q hr = k" using k(1) by auto
    show ?thesis
    proof (cases "length xs < PAGE_SIZE")
      case room: True
      obtain zs where zs: "insert_item i hr (mk_node (root l) (root r) b (length xs) (xs @ ys)) = Some (mk_node (root l) (root r) b (length xs + 1) zs)"
        "length zs = PAGE_SIZE" "take (length xs + 1) zs = us @ hr # vs" by (rule insert_item_ok [OF n(2) room, of i]) (use i(3) in \<open>auto simp: uv\<close>)
      have oz: "ordered Q (inorder l @ (us @ hr # vs) @ inorder r)" using ord xs(1) lo hi outer outer' dom by auto
      obtain s' where s': "upd_node a (\<lambda>_. mk_node (root l) (root r) b (length xs + 1) zs) s = Some s'" "adds rel A Q hr (Nd l a b xs r) s s' (Nd l a b (us @ hr # vs) r)"
        by (rule adds_items [where rel = rel, OF t(1-3) m zs(2,3) _ _ oz]) (use xs(1) in auto)
      have "inserts rel A Q hr (Nd l a b xs r) s 0 a s'" by (rule insertsI [OF s'(2)]) (use avl nk in auto)
      then show ?thesis using run i(1) room zs(1) s'(1) by simp
    next
      case full: False
      then have len: "length xs = PAGE_SIZE" "ys = []" "i < PAGE_SIZE" using f n(2) i(2,3) two by auto
      have n': "nodes s a = Some (mk_node (root l) (root r) b (length xs) xs)" using n(1) len by simp
      have go: "\<exists>g h s'. node_Insert E k hr a s = Some (g, h, s') \<and> inserts rel A Q hr (Nd l a b xs r) s g h s'"
        if x: "displace i hr (mk_node (root l) (root r) b PAGE_SIZE xs) = Some (x, mk_node (root l) (root r) b PAGE_SIZE zs)" "length zs = length xs"
          "ordered Q (inorder l @ zs @ inorder r)" "x \<in> set xs" "key Q x \<notin> key Q ` set zs" "insert x (set zs) = insert hr (set xs)"
          and ins: "\<And>s1. s1 = s\<lparr>nodes := (nodes s)(a \<mapsto> mk_node (root l) (root r) b (length xs) zs)\<rparr> \<Longrightarrow> rel A Q (heap s1) \<Longrightarrow> rep (nodes s1) (Nd l a b zs r) \<Longrightarrow>
            wf_tree Q (Nd l a b zs r) \<Longrightarrow> Q x = Some (key Q x) \<Longrightarrow> \<exists>g h s'. node_Insert E (key Q x) x a s1 = Some (g, h, s') \<and> inserts rel A Q x (Nd l a b zs r) s1 g h s'" for x zs
      proof -
        define s1 where s1: "s1 = s\<lparr>nodes := (nodes s)(a \<mapsto> mk_node (root l) (root r) b (length xs) zs)\<rparr>"
        have q: "Q x = Some (key Q x)" using ordered_dom [OF hd(3) x(4)] .
        have r1: "rep (nodes s1) (Nd l a b zs r)" using rep_items [OF t(1) x(2) len(1)] by (simp add: s1)
        have "filled (Nd l a b zs r)" using f x(2) by auto
        moreover have "avl (Nd l a b zs r)" using avl by simp
        ultimately have w1: "wf_tree Q (Nd l a b zs r)" using x(3) by (simp add: wf_tree_def)
        obtain g h s2 where g: "node_Insert E (key Q x) x a s1 = Some (g, h, s2)" "inserts rel A Q x (Nd l a b zs r) s1 g h s2"
          using ins [OF s1 _ r1 w1 q] m by (auto simp: s1)
        have "key Q x \<notin> key Q ` set (inorder l)" by (rule not_image_above) (use ord x(4) in auto)
        moreover have "key Q x \<notin> key Q ` set (inorder r)" by (rule not_image_below) (use ord x(4) in auto)
        ultimately have kx: "key Q x \<notin> keys Q (Nd l a b zs r)" using x(5) by (simp add: keys_def image_Un)
        obtain s3 where s3: "(if g < 0 then do { s \<leftarrow> upd_node a (m_ahItems_update (\<lambda>_. xs)) s2; Some (g, h, s) } else Some (g, h, s2)) = Some (g, h, s3)"
          "inserts rel A Q hr (Nd l a b xs r) s g h s3" using inserts_displaced [OF g(2) kx nk x(6) n' s1] by blast
        have up: "upd_node a (\<lambda>_. mk_node (root l) (root r) b PAGE_SIZE zs) s = Some s1" using n' len(1) by (simp add: upd_node_def s1)
        have cv: "cvalue E (heap s1) x = key Q x" using cvalue [of A Q "heap s1" x "key Q x"] m q by (simp add: s1)
        have "node_Insert E k hr a s = Some (g, h, s3)" using run i(1) len x(1) up cv g(1) s3(1) by (simp cong: if_cong)
        then show ?thesis using s3(2) by blast
      qed
      show ?thesis
      proof (cases "0 \<le> b")
        case True
        obtain x us' where us': "us = x # us'" using xs(4) by (cases us) auto
        have D: "displace i hr (mk_node (root l) (root r) b PAGE_SIZE xs) = Some (x, mk_node (root l) (root r) b PAGE_SIZE (us' @ hr # vs))"
          using displace_first_ok [OF len(1) _ len(3) True, of hr "root l" "root r"] i(2) xs us' by (simp flip: xs(2))
        have "key Q x < k" using lo us' by simp
        then have kx: "k \<noteq> key Q x" by simp
        show ?thesis
        proof (rule go [OF D])
          fix s1 assume s1: "s1 = s\<lparr>nodes := (nodes s)(a \<mapsto> mk_node (root l) (root r) b (length xs) (us' @ hr # vs))\<rparr>" "rel A Q (heap s1)"
            "rep (nodes s1) (Nd l a b (us' @ hr # vs) r)" "wf_tree Q (Nd l a b (us' @ hr # vs) r)" "Q x = Some (key Q x)"
          have less: "key Q x < key Q (hd (us' @ hr # vs))" using hd(3) xs(1) us' lo dom by (cases us') auto
          show "\<exists>g h s'. node_Insert E (key Q x) x a s1 = Some (g, h, s') \<and> inserts rel A Q x (Nd l a b (us' @ hr # vs) r) s1 g h s'"
            by (rule insert_left [OF s1(2,3) _ s1(4,5) less]) (use t(2) s1(2,3,5) IHl in auto)
        qed (use ord xs us' lo kx hi outer outer' dom in auto)
      next
        case False
        then have nb: "b < 0" by simp
        obtain x vs' where vs': "vs = vs' @ [x]" using xs(3) by (cases vs rule: rev_cases) auto
        have D: "displace i hr (mk_node (root l) (root r) b PAGE_SIZE xs) = Some (x, mk_node (root l) (root r) b PAGE_SIZE (us @ hr # vs'))"
          using displace_last_ok [OF len(1,3) nb, of hr "root l" "root r"] xs vs' by (simp add: butlast_append)
        have "k < key Q x" using hi vs' by simp
        then have kx: "k \<noteq> key Q x" by simp
        show ?thesis
        proof (rule go [OF D])
          fix s1 assume s1: "s1 = s\<lparr>nodes := (nodes s)(a \<mapsto> mk_node (root l) (root r) b (length xs) (us @ hr # vs'))\<rparr>" "rel A Q (heap s1)"
            "rep (nodes s1) (Nd l a b (us @ hr # vs') r)" "wf_tree Q (Nd l a b (us @ hr # vs') r)" "Q x = Some (key Q x)"
          have less: "key Q (last (us @ hr # vs')) < key Q x" using hd(3) xs(1) vs' hi dom by (cases vs' rule: rev_cases) auto
          show "\<exists>g h s'. node_Insert E (key Q x) x a s1 = Some (g, h, s') \<and> inserts rel A Q x (Nd l a b (us @ hr # vs') r) s1 g h s'"
            by (rule insert_right [OF s1(2,3) _ s1(4,5) less]) (use t(2) s1(2,3,5) IHr in auto)
        qed (use ord xs vs' lo hi kx outer outer' dom in auto)
      qed
    qed
  qed
qed

end

context tree_memory
begin

theorem Insert_ok:
  assumes "rel A Q (heap s)" "rep (nodes s) t" "t \<noteq> Tip" "addrs t \<subseteq> A" "wf_tree Q t" "Q hr = Some k"
  shows "\<exists>g h s'. node_Insert E k hr (root t) s = Some (g, h, s') \<and> inserts rel A Q hr t s g h s'"
  using assms
proof (induction t arbitrary: s hr k)
  case (Nd l a b xs r)
  note m = Nd.prems(1) and t = Nd.prems(2,4,5) and k = Nd.prems(6)
  have f: "filled (Nd l a b xs r)" and ord: "ordered Q (inorder l @ xs @ inorder r)" using t(3) by (auto simp: wf_tree_def)
  have w: "wf_tree Q l" "wf_tree Q r" using t(3) by (auto simp: wf_tree_def)
  have IHl: "\<exists>g h s'. node_Insert E k hr (root l) s = Some (g, h, s') \<and> inserts rel A Q hr l s g h s'"
    if "rel A Q (heap s)" "rep (nodes s) l" "Q hr = Some k" "l \<noteq> Tip" for s k hr using Nd.IH(1) [OF that(1,2,4) _ w(1) that(3)] t(2) by simp
  have IHr: "\<exists>g h s'. node_Insert E k hr (root r) s = Some (g, h, s') \<and> inserts rel A Q hr r s g h s'"
    if "rel A Q (heap s)" "rep (nodes s) r" "Q hr = Some k" "r \<noteq> Tip" for s k hr using Nd.IH(2) [OF that(1,2,4) _ w(2) that(3)] t(2) by simp
  have hd: "hd xs \<in> set xs" "last xs \<in> set xs" "ordered Q xs" using f ord by auto
  have K: "k \<in> K" using cvalue [OF m k] by simp
  obtain ys where n: "nodes s a = Some (mk_node (root l) (root r) b (length xs) (xs @ ys))"
    "item (mk_node (root l) (root r) b (length xs) (xs @ ys)) 0 = Some (hd xs)"
    "last_item (mk_node (root l) (root r) b (length xs) (xs @ ys)) = Some (last xs)" by (rule node_at [OF t(1) f])
  have same: "inserts rel A Q hr (Nd l a b xs r) s (- 2) a s" if "x \<in> set xs" "k = key Q x" for x
    using that k by (auto simp: inserts_def keys_def)
  have le: "key Q (hd xs) \<le> key Q (last xs)" by (rule ordered_hd [OF hd(3,2)])
  consider "k < key Q (hd xs)" | "k = key Q (hd xs)" | "key Q (last xs) < k" | "k = key Q (last xs)" "key Q (hd xs) < k" | "key Q (hd xs) < k" "k < key Q (last xs)"
    using linorder_less_linear by metis
  then show ?case
  proof cases
    case 1
    then show ?thesis unfolding root.simps using t(1) by (intro insert_left [OF m t k 1 IHl [OF m _ k]]) auto
  next
    case 2
    then show ?thesis using n same [OF hd(1)] diff_key(2) [OF m hd(3,1) K] by (subst node_Insert.simps) simp
  next
    case 3
    then show ?thesis unfolding root.simps using t(1) by (intro insert_right [OF m t k 3 IHr [OF m _ k]]) auto
  next
    case 4
    then show ?thesis using n same [OF hd(2)] diff_key [OF m hd(3,1) K] diff_key(2) [OF m hd(3,2) K] by (subst node_Insert.simps) auto
  next
    case 5
    then show ?thesis unfolding root.simps by (intro insert_middle [OF m t k 5] IHl IHr)
  qed
qed simp

end

section \<open>Shortage of memory\<close>

text \<open>An insertion gives up only when the allocator has no memory for a node: this holds in every state.\<close>

lemma upd_heap: "upd_node h f s = Some s' \<Longrightarrow> heap s' = heap s"
  by (auto simp: upd_node_def split: Option.bind_splits)

lemma alloc_none: "node_Alloc E hr s = Some (0, s') \<Longrightarrow> \<exists>m. Malloc E (heap s) = Some (0, m)"
  by (auto simp: node_Alloc_def split: Option.bind_splits if_splits)

definition fails_only :: "bool \<Rightarrow> (int \<times> nat \<times> 'm tree_mem) option \<Rightarrow> bool" where
  "fails_only C x \<longleftrightarrow> (\<forall>h s. x = Some (- 1, h, s) \<longrightarrow> C)"

lemma fails_only_intros:
  "(\<And>v. x = Some v \<Longrightarrow> fails_only C (F v)) \<Longrightarrow> fails_only C (x \<bind> F)"
  "(b \<Longrightarrow> fails_only C p) \<Longrightarrow> (\<not> b \<Longrightarrow> fails_only C q) \<Longrightarrow> fails_only C (if b then p else q)"
  "(\<And>a c. v = (a, c) \<Longrightarrow> fails_only C (G a c)) \<Longrightarrow> fails_only C (case v of (a, c) \<Rightarrow> G a c)"
  "(\<And>i. w = Inl i \<Longrightarrow> fails_only C (p' i)) \<Longrightarrow> (\<And>i. w = Inr i \<Longrightarrow> fails_only C (q' i)) \<Longrightarrow> fails_only C (case w of Inl i \<Rightarrow> p' i | Inr i \<Rightarrow> q' i)"
  "(g = - 1 \<Longrightarrow> C) \<Longrightarrow> fails_only C (Some (g, h, s))"
  by (auto simp: fails_only_def bind_eq_Some_conv split: prod.splits sum.splits)

lemma fails_grew: "fails_only C (grew_left h s)" "fails_only C (grew_right h s)"
  unfolding grew_left_def grew_right_def by (intro fails_only_intros; simp)+

lemma short_of_memory: "node_Insert E k hr h s = Some y \<Longrightarrow> fails_only (\<exists>m. Malloc E (heap s) = Some (0, m)) (Some y)"
proof (erule node_Insert.raw_induct [rotated, where P = "\<lambda>E k hr h s y. fails_only (\<exists>m. Malloc E (heap s) = Some (0, m)) (Some y)"], goal_cases)
  case (1 f E k hr h s y)
  have IH: "f E k hr h s = Some (- 1, h', s') \<Longrightarrow> \<exists>m. Malloc E (heap s) = Some (0, m)" for E k hr h s h' s' using 1(1) by (fastforce simp: fails_only_def)
  show ?case unfolding 1(2) [symmetric]
    by (intro fails_only_intros fails_grew; clarsimp) (metis IH alloc_none upd_heap)+
qed

end
