(* ===== verification/T_Tree_Read.thy ===== *)
theory T_Tree_Read
  imports T_Tree_Insert
begin

text \<open>
  Search and traversal: a search finds the record of a key if there is one, and a traversal calls its visitor with
  exactly the records of its range, in its order, until the visitor ends it.
\<close>

section \<open>Search\<close>

context tree_memory
begin

theorem Find_ok:
  assumes "rel A Q (heap s)" "rep (nodes s) t" "t \<noteq> Tip" "wf_tree Q t" "k \<in> K"
  shows "(k \<notin> keys Q t \<and> node_Find E k (root t) s = Some (0, None)) \<or>
    (\<exists>a i n x. node_Find E k (root t) s = Some (1, Some (a, i)) \<and> nodes s a = Some n \<and> item n i = Some x \<and> x \<in> set (inorder t) \<and> key Q x = k)"
  using assms
proof (induction t)
  case (Nd l a b xs r)
  note m = Nd.prems(1) and t = Nd.prems(2,4) and k = Nd.prems(5)
  have f: "filled (Nd l a b xs r)" and ord: "ordered Q (inorder l @ xs @ inorder r)" "ordered Q xs" using t(2) by (auto simp: wf_tree_def)
  have w: "wf_tree Q l" "wf_tree Q r" using t(2) by (auto simp: wf_tree_def)
  have roots: "root l = 0 \<longleftrightarrow> l = Tip" "root r = 0 \<longleftrightarrow> r = Tip" using t(1) root_0 by auto
  obtain ys where n: "nodes s a = Some (mk_node (root l) (root r) b (length xs) (xs @ ys))" "length (xs @ ys) = PAGE_SIZE"
    "item (mk_node (root l) (root r) b (length xs) (xs @ ys)) 0 = Some (hd xs)"
    "last_item (mk_node (root l) (root r) b (length xs) (xs @ ys)) = Some (last xs)" by (rule node_at [OF t(1) f])
  have hd: "hd xs \<in> set xs" "last xs \<in> set xs" "xs \<noteq> []" using f by auto
  note dh = diff_key [OF m ord(2) hd(1) k] and dl = diff_key [OF m ord(2) hd(2) k]
  have last: "item (mk_node (root l) (root r) b (length xs) (xs @ ys)) (length xs - 1) = Some (last xs)" using n(4) hd(3) by (simp add: last_item_def)
  have low: "key Q x < key Q (hd xs)" if "x \<in> set (inorder l)" for x using that ord hd by auto
  have high: "key Q (last xs) < key Q x" if "x \<in> set (inorder r)" for x using that ord hd by auto
  consider "k < key Q (hd xs)" | "k = key Q (hd xs)" | "key Q (hd xs) < k" "key Q (last xs) < k" | "key Q (hd xs) < k" "k = key Q (last xs)" | "key Q (hd xs) < k" "k < key Q (last xs)"
    using linorder_less_linear by metis
  then show ?case
  proof cases
    case 1
    have "k < key Q x" if "x \<in> set (xs @ inorder r)" for x
      using that by (intro less_le_trans [OF 1 ordered_hd [of Q "xs @ inorder r" x, simplified hd_append2 [OF hd(3)]]]) (use ord in auto)
    then have out: "k \<notin> key Q ` set (xs @ inorder r)" by (rule not_image_below)
    show ?thesis
    proof (cases "l = Tip")
      case True
      then show ?thesis using n dh 1 out hd(3) by (subst (1 2) node_Find.simps) (auto simp: keys_def)
    next
      case False
      then have "node_Find E k a s = node_Find E k (root l) s" using n dh 1 hd(3) roots by (subst node_Find.simps) auto
      then show ?thesis using Nd.IH(1) [OF m _ False w(1) k] t(1) out by (auto simp: keys_def)
    qed
  next
    case 2
    then have "node_Find E k a s = Some (1, Some (a, 0))" using n dh hd(3) by (subst node_Find.simps) auto
    then show ?thesis using n(1,3) hd(1) 2 by auto
  next
    case 3
    have "key Q x < k" if "x \<in> set (inorder l @ xs)" for x
      using that by (intro le_less_trans [OF ordered_last [of Q "inorder l @ xs" x, simplified last_appendR [OF hd(3)]] 3(2)]) (use ord in auto)
    then have out: "k \<notin> key Q ` set (inorder l @ xs)" by (rule not_image_above)
    show ?thesis
    proof (cases "r = Tip")
      case True
      then show ?thesis using n dh dl 3 out hd(3) by (subst (1 2) node_Find.simps) (auto simp: keys_def)
    next
      case False
      then have "node_Find E k a s = node_Find E k (root r) s" using n dh dl 3 hd(3) roots by (subst node_Find.simps) auto
      then show ?thesis using Nd.IH(2) [OF m _ False w(2) k] t(1) out by (auto simp: keys_def)
    qed
  next
    case 4
    then have "node_Find E k a s = Some (1, Some (a, length xs - 1))" using n dh dl hd(3) by (subst node_Find.simps) auto
    then show ?thesis using n(1) last hd(2) 4 by auto
  next
    case 5
    have two: "1 \<le> length xs - 1"
    proof (rule ccontr)
      assume "\<not> 1 \<le> length xs - 1"
      then have "hd xs = last xs" using hd(3) by (cases xs) (auto simp: Suc_le_eq)
      then show False using 5 by simp
    qed
    have xl: "(xs @ ys) ! (length xs - 1) = last xs" "(xs @ ys) ! 0 = hd xs" using hd(3) by (auto simp: nth_append last_conv_nth hd_conv_nth)
    have S: "(\<exists>i. search_items (iDiff E (heap s) k) (xs @ ys) 1 (length xs - 1) = Some (Inl i) \<and> 1 \<le> i \<and> i < length xs - 1 \<and> key Q ((xs @ ys) ! i) = k) \<or>
       (\<exists>i. search_items (iDiff E (heap s) k) (xs @ ys) 1 (length xs - 1) = Some (Inr i) \<and> 1 \<le> i \<and> i \<le> length xs - 1 \<and> (\<forall>j < i. key Q ((xs @ ys) ! j) < k) \<and> k < key Q ((xs @ ys) ! i))"
      by (rule search_items_ok [of Q "length xs"]) (use ord(2) hd xl two 5 diff_key(1,2) [OF m ord(2) _ k] in \<open>auto simp: nth_append\<close>)
    have run: "node_Find E k a s = (case search_items (iDiff E (heap s) k) (xs @ ys) 1 (length xs - 1) of None \<Rightarrow> None | Some (Inl i) \<Rightarrow> Some (1, Some (a, i)) | Some (Inr i) \<Rightarrow> Some (0, None))"
      using n dh dl 5 hd(3) by (subst node_Find.simps) (auto split: option.split sum.split)
    from S show ?thesis
    proof (elim disjE exE conjE)
      fix i assume i: "search_items (iDiff E (heap s) k) (xs @ ys) 1 (length xs - 1) = Some (Inl i)" "i < length xs - 1" "key Q ((xs @ ys) ! i) = k"
      have "item (mk_node (root l) (root r) b (length xs) (xs @ ys)) i = Some (xs ! i)" using less_le_trans [OF i(2) diff_le_self] by (simp add: item_def nth_append)
      then show ?thesis using run i n(1) by (auto simp: nth_append)
    next
      fix i assume i: "search_items (iDiff E (heap s) k) (xs @ ys) 1 (length xs - 1) = Some (Inr i)" "i \<le> length xs - 1" "\<forall>j < i. key Q ((xs @ ys) ! j) < k" "k < key Q ((xs @ ys) ! i)"
      have il: "i < length xs" using i(2) two by simp
      have "k \<noteq> key Q (xs ! j)" if "j < length xs" for j
        using that i(3,4) il ordered_nth [OF ord(2), of i j] by (cases j i rule: linorder_cases) (auto simp: nth_append dest: less_trans)
      then have "k \<notin> key Q ` set xs" unfolding set_conv_nth by blast
      moreover have "k \<notin> key Q ` set (inorder l)" by (intro not_image_above less_trans [OF low 5(1)])
      moreover have "k \<notin> key Q ` set (inorder r)" by (intro not_image_below less_trans [OF 5(2) high])
      ultimately show ?thesis using run i(1) by (auto simp: keys_def)
    qed
  qed
qed simp

end

lemma find_handle_ok:
  "rep (nodes s) t \<Longrightarrow> filled t \<Longrightarrow> t \<noteq> Tip \<Longrightarrow> node_find_handle x (root t) s = Some (if x \<in> set (inorder t) then 1 else 0)"
proof (induction t)
  case (Nd l a b xs r)
  have roots: "root l = 0 \<longleftrightarrow> l = Tip" "root r = 0 \<longleftrightarrow> r = Tip" using Nd.prems(1) root_0 by auto
  obtain ys where n: "nodes s a = Some (mk_node (root l) (root r) b (length xs) (xs @ ys))"
    "items_of (mk_node (root l) (root r) b (length xs) (xs @ ys)) = Some xs" by (rule node_at [OF Nd.prems(1,2)])
  have "(if root r \<noteq> 0 then node_find_handle x (root r) s else Some 0) = Some (if x \<in> set (inorder r) then 1 else 0)"
    "(if root l \<noteq> 0 then node_find_handle x (root l) s else Some 0) = Some (if x \<in> set (inorder l) then 1 else 0)"
    using Nd roots by auto
  then show ?case using n Nd.prems(2) unfolding root.simps by (subst node_find_handle.simps) auto
qed simp

section \<open>Traversal\<close>

text \<open>The three orders: by key, and both branches before the node.\<close>

fun right_left_node :: "tt \<Rightarrow> nat list" where
  "right_left_node Tip = []"
| "right_left_node (Nd l a b xs r) = right_left_node r @ right_left_node l @ rev xs"

fun left_right_node :: "tt \<Rightarrow> nat list" where
  "left_right_node Tip = []"
| "left_right_node (Nd l a b xs r) = left_right_node l @ left_right_node r @ xs"

lemma set_orders [simp]: "set (right_left_node t) = set (inorder t)" "set (left_right_node t) = set (inorder t)"
  by (induction t) auto

lemma visit_append:
  "visit_each P vis (xs @ ys) c = (case visit_each P vis xs c of (iRet, c) \<Rightarrow> if iRet \<noteq> 0 then (iRet, c) else visit_each P vis ys c)"
  by (induction xs arbitrary: c) (auto split: prod.split)

lemma visit_none: "\<forall>x \<in> set xs. \<not> P x \<Longrightarrow> visit_each P vis xs c = (0, c)"
  by (induction xs) auto

lemma visit_cong: "(\<And>x. x \<in> set xs \<Longrightarrow> P x = P' x) \<Longrightarrow> visit_each P vis xs c = visit_each P' vis xs c"
  by (induction xs arbitrary: c) (auto split: prod.split)

lemma traverse_forward_ok:
  "rep (nodes s) t \<Longrightarrow> filled t \<Longrightarrow> t \<noteq> Tip \<Longrightarrow> traverse_forward vis (root t) s c = Some (visit_each (\<lambda>_. True) vis (inorder t) c)"
proof (induction t arbitrary: c)
  case (Nd l a b xs r)
  have roots: "root l = 0 \<longleftrightarrow> l = Tip" "root r = 0 \<longleftrightarrow> r = Tip" using Nd.prems(1) root_0 by auto
  obtain ys where n: "nodes s a = Some (mk_node (root l) (root r) b (length xs) (xs @ ys))"
    "items_of (mk_node (root l) (root r) b (length xs) (xs @ ys)) = Some xs" by (rule node_at [OF Nd.prems(1,2)])
  show ?case unfolding root.simps
    by (subst traverse_forward.simps, cases "l = Tip"; cases "r = Tip"; use n roots Nd in \<open>simp add: visit_append split: prod.split\<close>)
qed simp

lemma traverse_backward_ok:
  "rep (nodes s) t \<Longrightarrow> filled t \<Longrightarrow> t \<noteq> Tip \<Longrightarrow> traverse_backward vis (root t) s c = Some (visit_each (\<lambda>_. True) vis (rev (inorder t)) c)"
proof (induction t arbitrary: c)
  case (Nd l a b xs r)
  have roots: "root l = 0 \<longleftrightarrow> l = Tip" "root r = 0 \<longleftrightarrow> r = Tip" using Nd.prems(1) root_0 by auto
  obtain ys where n: "nodes s a = Some (mk_node (root l) (root r) b (length xs) (xs @ ys))"
    "items_of (mk_node (root l) (root r) b (length xs) (xs @ ys)) = Some xs" by (rule node_at [OF Nd.prems(1,2)])
  show ?case unfolding root.simps
    by (subst traverse_backward.simps, cases "l = Tip"; cases "r = Tip"; use n roots Nd in \<open>simp add: visit_append split: prod.split\<close>)
qed simp

lemma post_order_traverse_ok:
  "rep (nodes s) t \<Longrightarrow> filled t \<Longrightarrow> t \<noteq> Tip \<Longrightarrow> post_order_traverse vis (root t) s c = Some (visit_each (\<lambda>_. True) vis (right_left_node t) c)"
proof (induction t arbitrary: c)
  case (Nd l a b xs r)
  have roots: "root l = 0 \<longleftrightarrow> l = Tip" "root r = 0 \<longleftrightarrow> r = Tip" using Nd.prems(1) root_0 by auto
  obtain ys where n: "nodes s a = Some (mk_node (root l) (root r) b (length xs) (xs @ ys))"
    "items_of (mk_node (root l) (root r) b (length xs) (xs @ ys)) = Some xs" by (rule node_at [OF Nd.prems(1,2)])
  show ?case unfolding root.simps
    by (subst post_order_traverse.simps, cases "l = Tip"; cases "r = Tip"; use n roots Nd in \<open>simp add: visit_append split: prod.split\<close>)
qed simp

lemma node_bounds:
  assumes "ordered Q (inorder l @ xs @ inorder r)" "xs \<noteq> []"
  shows "x \<in> set (inorder l) \<Longrightarrow> key Q x < key Q (hd xs)" "x \<in> set (inorder r) \<Longrightarrow> key Q (last xs) < key Q x"
    "x \<in> set xs \<Longrightarrow> key Q (hd xs) \<le> key Q x" "x \<in> set xs \<Longrightarrow> key Q x \<le> key Q (last xs)"
  using assms ordered_hd [of Q xs x] ordered_last [of Q xs x] by auto

lemma node_view:
  assumes "rep (nodes s) (Nd l a b xs r)" "wf_tree Q (Nd l a b xs r)"
  obtains ys where "nodes s a = Some (mk_node (root l) (root r) b (length xs) (xs @ ys))"
    "item (mk_node (root l) (root r) b (length xs) (xs @ ys)) 0 = Some (hd xs)"
    "last_item (mk_node (root l) (root r) b (length xs) (xs @ ys)) = Some (last xs)"
    "items_of (mk_node (root l) (root r) b (length xs) (xs @ ys)) = Some xs" "xs \<noteq> []" "hd xs \<in> set xs" "last xs \<in> set xs"
    "ordered Q (inorder l @ xs @ inorder r)" "ordered Q xs" "wf_tree Q l" "wf_tree Q r" "root l = 0 \<longleftrightarrow> l = Tip" "root r = 0 \<longleftrightarrow> r = Tip"
proof -
  have f: "filled (Nd l a b xs r)" using assms(2) by (simp add: wf_tree_def)
  show thesis by (rule node_at [OF assms(1) f], rule that) (use assms in \<open>auto simp: wf_tree_def\<close>)
qed

context tree_memory
begin

lemma diff_le:
  assumes "rel A Q m" "ordered Q xs" "x \<in> set xs" "k \<in> K"
  shows "iDiff E m k x \<le> 0 \<longleftrightarrow> k \<le> key Q x" "0 \<le> iDiff E m k x \<longleftrightarrow> key Q x \<le> k"
  using diff_key [OF assms] by auto

lemma traverse_forward_ge_ok:
  assumes "rel A Q (heap s)" "rep (nodes s) t" "wf_tree Q t" "k \<in> K" "t \<noteq> Tip"
  shows "traverse_forward_ge E k vis (root t) s c = Some (visit_each (\<lambda>x. k \<le> key Q x) vis (inorder t) c)"
  using assms
proof (induction t arbitrary: c)
  case (Nd l a b xs r)
  note m = Nd.prems(1) and k = Nd.prems(4)
  obtain ys where n: "nodes s a = Some (mk_node (root l) (root r) b (length xs) (xs @ ys))"
    "item (mk_node (root l) (root r) b (length xs) (xs @ ys)) 0 = Some (hd xs)"
    "last_item (mk_node (root l) (root r) b (length xs) (xs @ ys)) = Some (last xs)"
    "items_of (mk_node (root l) (root r) b (length xs) (xs @ ys)) = Some xs" and f: "xs \<noteq> []" and hd: "hd xs \<in> set xs" "last xs \<in> set xs"
    and ord: "ordered Q (inorder l @ xs @ inorder r)" "ordered Q xs" and w: "wf_tree Q l" "wf_tree Q r"
    and roots: "root l = 0 \<longleftrightarrow> l = Tip" "root r = 0 \<longleftrightarrow> r = Tip" by (rule node_view [OF Nd.prems(2,3)])
  let ?P = "\<lambda>x. k \<le> key Q x"
  have X: "visit_each (\<lambda>z. iDiff E (heap s) k z \<le> 0) vis xs c = visit_each ?P vis xs c" for c
    by (rule visit_cong) (use diff_le [OF m ord(2) _ k] in auto)
  have L: "visit_each ?P vis (inorder l) c = (0, c)" if "\<not> (k < key Q (hd xs))" for c
    by (rule visit_none) (use that node_bounds [OF ord(1) f] in \<open>force\<close>)
  have N: "visit_each ?P vis xs c = (0, c)" if "\<not> (k \<le> key Q (last xs))" for c
    by (rule visit_none) (use that node_bounds [OF ord(1) f] in \<open>force\<close>)
  show ?case unfolding root.simps
    by (subst traverse_forward_ge.simps, cases "l = Tip"; cases "r = Tip"; cases "k < key Q (hd xs)"; cases "k \<le> key Q (last xs)";
      use n roots Nd w in \<open>simp add: visit_append X L N diff_key(1,3) [OF m ord(2) hd(1) k] diff_key(1,3) [OF m ord(2) hd(2) k] diff_le [OF m ord(2) hd(1) k] diff_le [OF m ord(2) hd(2) k] split: prod.split\<close>)
qed simp

lemma traverse_forward_range_ok:
  assumes "rel A Q (heap s)" "rep (nodes s) t" "wf_tree Q t" "k \<in> K" "k1 \<in> K" "t \<noteq> Tip"
  shows "traverse_forward_range E k k1 vis (root t) s c = Some (visit_each (\<lambda>x. k \<le> key Q x \<and> key Q x \<le> k1) vis (inorder t) c)"
  using assms
proof (induction t arbitrary: c)
  case (Nd l a b xs r)
  note m = Nd.prems(1) and k = Nd.prems(4) and k1 = Nd.prems(5)
  obtain ys where n: "nodes s a = Some (mk_node (root l) (root r) b (length xs) (xs @ ys))"
    "item (mk_node (root l) (root r) b (length xs) (xs @ ys)) 0 = Some (hd xs)"
    "last_item (mk_node (root l) (root r) b (length xs) (xs @ ys)) = Some (last xs)"
    "items_of (mk_node (root l) (root r) b (length xs) (xs @ ys)) = Some xs" and f: "xs \<noteq> []" and hd: "hd xs \<in> set xs" "last xs \<in> set xs"
    and ord: "ordered Q (inorder l @ xs @ inorder r)" "ordered Q xs" and w: "wf_tree Q l" "wf_tree Q r"
    and roots: "root l = 0 \<longleftrightarrow> l = Tip" "root r = 0 \<longleftrightarrow> r = Tip" by (rule node_view [OF Nd.prems(2,3)])
  let ?P = "\<lambda>x. k \<le> key Q x \<and> key Q x \<le> k1"
  have X: "visit_each (in_range E (heap s) k k1) vis xs c = visit_each ?P vis xs c" for c
    by (rule visit_cong) (use diff_le [OF m ord(2) _ k] diff_le [OF m ord(2) _ k1] in \<open>auto simp: in_range_def\<close>)
  have L: "visit_each ?P vis (inorder l) c = (0, c)" if "\<not> (k < key Q (hd xs))" for c
    by (rule visit_none) (use that node_bounds [OF ord(1) f] in \<open>force\<close>)
  have R: "visit_each ?P vis (inorder r) c = (0, c)" if "\<not> (key Q (last xs) \<le> k1)" for c
    by (rule visit_none) (use that node_bounds [OF ord(1) f] in \<open>force\<close>)
  have N: "visit_each ?P vis xs c = (0, c)" if "\<not> (\<not> (k1 < key Q (hd xs) \<or> key Q (last xs) < k))" for c
    by (rule visit_none) (use that node_bounds [OF ord(1) f] in \<open>force\<close>)
  show ?case unfolding root.simps
    by (subst traverse_forward_range.simps, cases "l = Tip"; cases "r = Tip"; cases "k < key Q (hd xs)"; cases "key Q (last xs) \<le> k1"; cases "\<not> (k1 < key Q (hd xs) \<or> key Q (last xs) < k)";
      use n roots Nd w in \<open>simp add: visit_append X L R N diff_key(1,3) [OF m ord(2) hd(1) k] diff_key(1,3) [OF m ord(2) hd(2) k] diff_le [OF m ord(2) hd(1) k] diff_le [OF m ord(2) hd(2) k] diff_key(1,3) [OF m ord(2) hd(1) k1] diff_key(1,3) [OF m ord(2) hd(2) k1] diff_le [OF m ord(2) hd(1) k1] diff_le [OF m ord(2) hd(2) k1] split: prod.split\<close>)
qed simp

lemma traverse_backward_le_ok:
  assumes "rel A Q (heap s)" "rep (nodes s) t" "wf_tree Q t" "k \<in> K" "t \<noteq> Tip"
  shows "traverse_backward_le E k vis (root t) s c = Some (visit_each (\<lambda>x. key Q x \<le> k) vis (rev (inorder t)) c)"
  using assms
proof (induction t arbitrary: c)
  case (Nd l a b xs r)
  note m = Nd.prems(1) and k = Nd.prems(4)
  obtain ys where n: "nodes s a = Some (mk_node (root l) (root r) b (length xs) (xs @ ys))"
    "item (mk_node (root l) (root r) b (length xs) (xs @ ys)) 0 = Some (hd xs)"
    "last_item (mk_node (root l) (root r) b (length xs) (xs @ ys)) = Some (last xs)"
    "items_of (mk_node (root l) (root r) b (length xs) (xs @ ys)) = Some xs" and f: "xs \<noteq> []" and hd: "hd xs \<in> set xs" "last xs \<in> set xs"
    and ord: "ordered Q (inorder l @ xs @ inorder r)" "ordered Q xs" and w: "wf_tree Q l" "wf_tree Q r"
    and roots: "root l = 0 \<longleftrightarrow> l = Tip" "root r = 0 \<longleftrightarrow> r = Tip" by (rule node_view [OF Nd.prems(2,3)])
  let ?P = "\<lambda>x. key Q x \<le> k"
  have X: "visit_each (\<lambda>z. 0 \<le> iDiff E (heap s) k z) vis (rev xs) c = visit_each ?P vis (rev xs) c" for c
    by (rule visit_cong) (use diff_le [OF m ord(2) _ k] in auto)
  have R: "visit_each ?P vis (rev (inorder r)) c = (0, c)" if "\<not> (key Q (last xs) < k)" for c
    by (rule visit_none) (use that node_bounds [OF ord(1) f] in \<open>force\<close>)
  have N: "visit_each ?P vis (rev xs) c = (0, c)" if "\<not> (key Q (hd xs) \<le> k)" for c
    by (rule visit_none) (use that node_bounds [OF ord(1) f] in \<open>force\<close>)
  show ?case unfolding root.simps
    by (subst traverse_backward_le.simps, cases "l = Tip"; cases "r = Tip"; cases "key Q (last xs) < k"; cases "key Q (hd xs) \<le> k";
      use n roots Nd w in \<open>simp add: visit_append X R N diff_key(1,3) [OF m ord(2) hd(1) k] diff_key(1,3) [OF m ord(2) hd(2) k] diff_le [OF m ord(2) hd(1) k] diff_le [OF m ord(2) hd(2) k] split: prod.split\<close>)
qed simp

lemma traverse_backward_range_ok:
  assumes "rel A Q (heap s)" "rep (nodes s) t" "wf_tree Q t" "k \<in> K" "k1 \<in> K" "t \<noteq> Tip"
  shows "traverse_backward_range E k k1 vis (root t) s c = Some (visit_each (\<lambda>x. k \<le> key Q x \<and> key Q x \<le> k1) vis (rev (inorder t)) c)"
  using assms
proof (induction t arbitrary: c)
  case (Nd l a b xs r)
  note m = Nd.prems(1) and k = Nd.prems(4) and k1 = Nd.prems(5)
  obtain ys where n: "nodes s a = Some (mk_node (root l) (root r) b (length xs) (xs @ ys))"
    "item (mk_node (root l) (root r) b (length xs) (xs @ ys)) 0 = Some (hd xs)"
    "last_item (mk_node (root l) (root r) b (length xs) (xs @ ys)) = Some (last xs)"
    "items_of (mk_node (root l) (root r) b (length xs) (xs @ ys)) = Some xs" and f: "xs \<noteq> []" and hd: "hd xs \<in> set xs" "last xs \<in> set xs"
    and ord: "ordered Q (inorder l @ xs @ inorder r)" "ordered Q xs" and w: "wf_tree Q l" "wf_tree Q r"
    and roots: "root l = 0 \<longleftrightarrow> l = Tip" "root r = 0 \<longleftrightarrow> r = Tip" by (rule node_view [OF Nd.prems(2,3)])
  let ?P = "\<lambda>x. k \<le> key Q x \<and> key Q x \<le> k1"
  have X: "visit_each (in_range E (heap s) k k1) vis (rev xs) c = visit_each ?P vis (rev xs) c" for c
    by (rule visit_cong) (use diff_le [OF m ord(2) _ k] diff_le [OF m ord(2) _ k1] in \<open>auto simp: in_range_def\<close>)
  have L: "visit_each ?P vis (rev (inorder l)) c = (0, c)" if "\<not> (k \<le> key Q (hd xs))" for c
    by (rule visit_none) (use that node_bounds [OF ord(1) f] in \<open>force\<close>)
  have R: "visit_each ?P vis (rev (inorder r)) c = (0, c)" if "\<not> (key Q (last xs) < k1)" for c
    by (rule visit_none) (use that node_bounds [OF ord(1) f] in \<open>force\<close>)
  have N: "visit_each ?P vis (rev xs) c = (0, c)" if "\<not> (\<not> (k1 < key Q (hd xs) \<or> key Q (last xs) < k))" for c
    by (rule visit_none) (use that node_bounds [OF ord(1) f] in \<open>force\<close>)
  show ?case unfolding root.simps
    by (subst traverse_backward_range.simps, cases "l = Tip"; cases "r = Tip"; cases "k \<le> key Q (hd xs)"; cases "key Q (last xs) < k1"; cases "\<not> (k1 < key Q (hd xs) \<or> key Q (last xs) < k)";
      use n roots Nd w in \<open>simp add: visit_append X L R N diff_key(1,3) [OF m ord(2) hd(1) k] diff_key(1,3) [OF m ord(2) hd(2) k] diff_le [OF m ord(2) hd(1) k] diff_le [OF m ord(2) hd(2) k] diff_key(1,3) [OF m ord(2) hd(1) k1] diff_key(1,3) [OF m ord(2) hd(2) k1] diff_le [OF m ord(2) hd(1) k1] diff_le [OF m ord(2) hd(2) k1] split: prod.split\<close>)
qed simp

lemma post_order_traverse_range_ok:
  assumes "rel A Q (heap s)" "rep (nodes s) t" "wf_tree Q t" "k \<in> K" "k1 \<in> K" "t \<noteq> Tip"
  shows "post_order_traverse_range E k k1 vis (root t) s c = Some (visit_each (\<lambda>x. k \<le> key Q x \<and> key Q x \<le> k1) vis (left_right_node t) c)"
  using assms
proof (induction t arbitrary: c)
  case (Nd l a b xs r)
  note m = Nd.prems(1) and k = Nd.prems(4) and k1 = Nd.prems(5)
  obtain ys where n: "nodes s a = Some (mk_node (root l) (root r) b (length xs) (xs @ ys))"
    "item (mk_node (root l) (root r) b (length xs) (xs @ ys)) 0 = Some (hd xs)"
    "last_item (mk_node (root l) (root r) b (length xs) (xs @ ys)) = Some (last xs)"
    "items_of (mk_node (root l) (root r) b (length xs) (xs @ ys)) = Some xs" and f: "xs \<noteq> []" and hd: "hd xs \<in> set xs" "last xs \<in> set xs"
    and ord: "ordered Q (inorder l @ xs @ inorder r)" "ordered Q xs" and w: "wf_tree Q l" "wf_tree Q r"
    and roots: "root l = 0 \<longleftrightarrow> l = Tip" "root r = 0 \<longleftrightarrow> r = Tip" by (rule node_view [OF Nd.prems(2,3)])
  let ?P = "\<lambda>x. k \<le> key Q x \<and> key Q x \<le> k1"
  have X: "visit_each (in_range E (heap s) k k1) vis xs c = visit_each ?P vis xs c" for c
    by (rule visit_cong) (use diff_le [OF m ord(2) _ k] diff_le [OF m ord(2) _ k1] in \<open>auto simp: in_range_def\<close>)
  have L: "visit_each ?P vis (left_right_node l) c = (0, c)" if "\<not> (k < key Q (hd xs))" for c
    by (rule visit_none) (use that node_bounds [OF ord(1) f] in \<open>force\<close>)
  have R: "visit_each ?P vis (left_right_node r) c = (0, c)" if "\<not> (key Q (last xs) \<le> k1)" for c
    by (rule visit_none) (use that node_bounds [OF ord(1) f] in \<open>force\<close>)
  have N: "visit_each ?P vis xs c = (0, c)" if "\<not> (\<not> (k1 < key Q (hd xs) \<or> key Q (last xs) < k))" for c
    by (rule visit_none) (use that node_bounds [OF ord(1) f] in \<open>force\<close>)
  show ?case unfolding root.simps
    by (subst post_order_traverse_range.simps, cases "l = Tip"; cases "r = Tip"; cases "k < key Q (hd xs)"; cases "key Q (last xs) \<le> k1"; cases "\<not> (k1 < key Q (hd xs) \<or> key Q (last xs) < k)";
      use n roots Nd w in \<open>simp add: visit_append X L R N diff_key(1,3) [OF m ord(2) hd(1) k] diff_key(1,3) [OF m ord(2) hd(2) k] diff_le [OF m ord(2) hd(1) k] diff_le [OF m ord(2) hd(2) k] diff_key(1,3) [OF m ord(2) hd(1) k1] diff_key(1,3) [OF m ord(2) hd(2) k1] diff_le [OF m ord(2) hd(1) k1] diff_le [OF m ord(2) hd(2) k1] split: prod.split\<close>)
qed simp

lemma post_order_traverse_ge_ok:
  assumes "rel A Q (heap s)" "rep (nodes s) t" "wf_tree Q t" "k \<in> K" "t \<noteq> Tip"
  shows "post_order_traverse_ge E k vis (root t) s c = Some (visit_each (\<lambda>x. k \<le> key Q x) vis (left_right_node t) c)"
  using assms
proof (induction t arbitrary: c)
  case (Nd l a b xs r)
  note m = Nd.prems(1) and k = Nd.prems(4)
  obtain ys where n: "nodes s a = Some (mk_node (root l) (root r) b (length xs) (xs @ ys))"
    "item (mk_node (root l) (root r) b (length xs) (xs @ ys)) 0 = Some (hd xs)"
    "last_item (mk_node (root l) (root r) b (length xs) (xs @ ys)) = Some (last xs)"
    "items_of (mk_node (root l) (root r) b (length xs) (xs @ ys)) = Some xs" and f: "xs \<noteq> []" and hd: "hd xs \<in> set xs" "last xs \<in> set xs"
    and ord: "ordered Q (inorder l @ xs @ inorder r)" "ordered Q xs" and w: "wf_tree Q l" "wf_tree Q r"
    and roots: "root l = 0 \<longleftrightarrow> l = Tip" "root r = 0 \<longleftrightarrow> r = Tip" by (rule node_view [OF Nd.prems(2,3)])
  let ?P = "\<lambda>x. k \<le> key Q x"
  have X: "visit_each (\<lambda>z. iDiff E (heap s) k z \<le> 0) vis xs c = visit_each ?P vis xs c" for c
    by (rule visit_cong) (use diff_le [OF m ord(2) _ k] in auto)
  have L: "visit_each ?P vis (left_right_node l) c = (0, c)" if "\<not> (k < key Q (hd xs))" for c
    by (rule visit_none) (use that node_bounds [OF ord(1) f] in \<open>force\<close>)
  have N: "visit_each ?P vis xs c = (0, c)" if "\<not> (k \<le> key Q (last xs))" for c
    by (rule visit_none) (use that node_bounds [OF ord(1) f] in \<open>force\<close>)
  show ?case unfolding root.simps
    by (subst post_order_traverse_ge.simps, cases "l = Tip"; cases "r = Tip"; cases "k < key Q (hd xs)"; cases "k \<le> key Q (last xs)";
      use n roots Nd w in \<open>simp add: visit_append X L N diff_key(1,3) [OF m ord(2) hd(1) k] diff_key(1,3) [OF m ord(2) hd(2) k] diff_le [OF m ord(2) hd(1) k] diff_le [OF m ord(2) hd(2) k] split: prod.split\<close>)
qed simp

lemma post_order_traverse_le_ok:
  assumes "rel A Q (heap s)" "rep (nodes s) t" "wf_tree Q t" "k \<in> K" "t \<noteq> Tip"
  shows "post_order_traverse_le E k vis (root t) s c = Some (visit_each (\<lambda>x. key Q x \<le> k) vis (right_left_node t) c)"
  using assms
proof (induction t arbitrary: c)
  case (Nd l a b xs r)
  note m = Nd.prems(1) and k = Nd.prems(4)
  obtain ys where n: "nodes s a = Some (mk_node (root l) (root r) b (length xs) (xs @ ys))"
    "item (mk_node (root l) (root r) b (length xs) (xs @ ys)) 0 = Some (hd xs)"
    "last_item (mk_node (root l) (root r) b (length xs) (xs @ ys)) = Some (last xs)"
    "items_of (mk_node (root l) (root r) b (length xs) (xs @ ys)) = Some xs" and f: "xs \<noteq> []" and hd: "hd xs \<in> set xs" "last xs \<in> set xs"
    and ord: "ordered Q (inorder l @ xs @ inorder r)" "ordered Q xs" and w: "wf_tree Q l" "wf_tree Q r"
    and roots: "root l = 0 \<longleftrightarrow> l = Tip" "root r = 0 \<longleftrightarrow> r = Tip" by (rule node_view [OF Nd.prems(2,3)])
  let ?P = "\<lambda>x. key Q x \<le> k"
  have X: "visit_each (\<lambda>z. 0 \<le> iDiff E (heap s) k z) vis (rev xs) c = visit_each ?P vis (rev xs) c" for c
    by (rule visit_cong) (use diff_le [OF m ord(2) _ k] in auto)
  have R: "visit_each ?P vis (right_left_node r) c = (0, c)" if "\<not> (key Q (last xs) < k)" for c
    by (rule visit_none) (use that node_bounds [OF ord(1) f] in \<open>force\<close>)
  have N: "visit_each ?P vis (rev xs) c = (0, c)" if "\<not> (key Q (hd xs) \<le> k)" for c
    by (rule visit_none) (use that node_bounds [OF ord(1) f] in \<open>force\<close>)
  show ?case unfolding root.simps
    by (subst post_order_traverse_le.simps, cases "l = Tip"; cases "r = Tip"; cases "key Q (last xs) < k"; cases "key Q (hd xs) \<le> k";
      use n roots Nd w in \<open>simp add: visit_append X R N diff_key(1,3) [OF m ord(2) hd(1) k] diff_key(1,3) [OF m ord(2) hd(2) k] diff_le [OF m ord(2) hd(1) k] diff_le [OF m ord(2) hd(2) k] split: prod.split\<close>)
qed simp

end

text \<open>The range given by its length: differences fall along the tree, and the loop that meets one below the range
  skips the branch behind it.\<close>

lemma visit_inclusion_ok:
  assumes "inc \<noteq> - (2 ^ 31)" "sorted_wrt (\<lambda>x y. D y \<le> D x) xs"
  shows "\<exists>all. visit_inclusion D inc vis xs c =
      Some (fst (visit_each (\<lambda>x. D x \<le> 0 \<and> 0 - inc \<le> D x) vis xs c), all, snd (visit_each (\<lambda>x. D x \<le> 0 \<and> 0 - inc \<le> D x) vis xs c)) \<and>
    (fst (visit_each (\<lambda>x. D x \<le> 0 \<and> 0 - inc \<le> D x) vis xs c) = 0 \<and> \<not> all \<longrightarrow> (\<exists>x \<in> set xs. D x < 0 - inc))"
  using assms(2)
proof (induction xs arbitrary: c)
  case (Cons x xs)
  let ?P = "\<lambda>x. D x \<le> 0 \<and> 0 - inc \<le> D x"
  have IH: "\<exists>all. visit_inclusion D inc vis xs c = Some (fst (visit_each ?P vis xs c), all, snd (visit_each ?P vis xs c)) \<and>
    (fst (visit_each ?P vis xs c) = 0 \<and> \<not> all \<longrightarrow> (\<exists>x \<in> set xs. D x < 0 - inc))" for c using Cons by simp
  show ?case
  proof (cases "D x < 0 - inc")
    case True
    then have "visit_each ?P vis (x # xs) c = (0, c)" using Cons.prems by (intro visit_none) auto
    moreover have "visit_inclusion D inc vis (x # xs) c = Some (0, False, c)" using True assms(1) by simp
    ultimately show ?thesis using True by auto
  next
    case False
    then have e: "?P x \<longleftrightarrow> D x \<le> 0" by auto
    show ?thesis using IH [of c] IH [of "snd (vis x c)"] False assms(1) by (cases "D x \<le> 0") (auto split: prod.split)
  qed
qed auto

context tree_memory
begin

lemma traverse_forward_inclusion_ok:
  assumes "rel A Q (heap s)" "rep (nodes s) t" "wf_tree Q t" "k \<in> K" "t \<noteq> Tip" "inc \<noteq> - (2 ^ 31)" "sorted_wrt (\<lambda>x y. iDiff E (heap s) k y \<le> iDiff E (heap s) k x) (inorder t)"
  shows "traverse_forward_inclusion E k inc vis (root t) s c = Some (visit_each (\<lambda>x. iDiff E (heap s) k x \<le> 0 \<and> 0 - inc \<le> iDiff E (heap s) k x) vis (inorder t) c)"
  using assms
proof (induction t arbitrary: c)
  case (Nd l a b xs r)
  note m = Nd.prems(1) and k = Nd.prems(4) and inc = Nd.prems(6)
  obtain ys where n: "nodes s a = Some (mk_node (root l) (root r) b (length xs) (xs @ ys))"
    "item (mk_node (root l) (root r) b (length xs) (xs @ ys)) 0 = Some (hd xs)"
    "last_item (mk_node (root l) (root r) b (length xs) (xs @ ys)) = Some (last xs)"
    "items_of (mk_node (root l) (root r) b (length xs) (xs @ ys)) = Some xs" and f: "xs \<noteq> []" and hd: "hd xs \<in> set xs" "last xs \<in> set xs"
    and ord: "ordered Q (inorder l @ xs @ inorder r)" "ordered Q xs" and w: "wf_tree Q l" "wf_tree Q r"
    and roots: "root l = 0 \<longleftrightarrow> l = Tip" "root r = 0 \<longleftrightarrow> r = Tip" by (rule node_view [OF Nd.prems(2,3)])
  let ?D = "iDiff E (heap s) k"
  let ?P = "\<lambda>x. ?D x \<le> 0 \<and> 0 - inc \<le> ?D x"
  have sorted: "sorted_wrt (\<lambda>x y. ?D y \<le> ?D x) (inorder l)" "sorted_wrt (\<lambda>x y. ?D y \<le> ?D x) xs" "sorted_wrt (\<lambda>x y. ?D y \<le> ?D x) (inorder r)"
    "\<forall>x \<in> set (inorder l). \<forall>y \<in> set xs. ?D y \<le> ?D x" "\<forall>x \<in> set xs. \<forall>y \<in> set (inorder r). ?D y \<le> ?D x"
    using Nd.prems(7) by (auto simp: sorted_wrt_append)
  have L: "visit_each ?P vis (inorder l) c = (0, c)" if "\<not> ?D (hd xs) < 0" for c
  proof (rule visit_none, rule ballI, rule notI)
    fix x assume x: "x \<in> set (inorder l)" "?P x"
    have ol: "ordered Q (inorder l)" using ord(1) by simp
    have "key Q x < key Q (hd xs)" "key Q (hd xs) \<le> k" using node_bounds(1) [OF ord(1) f x(1)] that diff_key(1) [OF m ord(2) hd(1) k] by auto
    then have "0 < ?D x" using diff_key(3) [OF m ol x(1) k] by (simp add: less_le_trans)
    then show False using x(2) by simp
  qed
  have N: "visit_each ?P vis xs c = (0, c)" if "\<not> ?D (last xs) \<le> 0" for c
  proof (rule visit_none, rule ballI, rule notI)
    fix x assume x: "x \<in> set xs" "?P x"
    have "key Q x < k" using that diff_le(1) [OF m ord(2) hd(2) k] ordered_last [OF ord(2) x(1)] by simp
    then show False using x diff_key(3) [OF m ord(2) x(1) k] by simp
  qed
  have "\<forall>c. \<exists>al. visit_inclusion ?D inc vis xs c = Some (fst (visit_each ?P vis xs c), al, snd (visit_each ?P vis xs c)) \<and>
    (fst (visit_each ?P vis xs c) = 0 \<and> \<not> al \<longrightarrow> (\<exists>x \<in> set xs. ?D x < 0 - inc))"
    by (rule allI) (rule visit_inclusion_ok [OF inc sorted(2)])
  from choice [OF this] obtain all where all: "visit_inclusion ?D inc vis xs c = Some (fst (visit_each ?P vis xs c), all c, snd (visit_each ?P vis xs c))"
    "fst (visit_each ?P vis xs c) = 0 \<Longrightarrow> \<not> all c \<Longrightarrow> \<exists>x \<in> set xs. ?D x < 0 - inc" for c by blast
  have R: "visit_each ?P vis (inorder r) c' = (0, c')" if "fst (visit_each ?P vis xs c) = 0" "\<not> all c" for c c'
    by (rule visit_none) (use all(2) [OF that] sorted(5) in fastforce)
  have IHl: "l \<noteq> Tip \<Longrightarrow> traverse_forward_inclusion E k inc vis (root l) s c = Some (visit_each ?P vis (inorder l) c)" for c
    using Nd.IH(1) [OF m _ w(1) k _ inc sorted(1)] Nd.prems(2) by simp
  have IHr: "r \<noteq> Tip \<Longrightarrow> traverse_forward_inclusion E k inc vis (root r) s c = Some (visit_each ?P vis (inorder r) c)" for c
    using Nd.IH(2) [OF m _ w(2) k _ inc sorted(3)] Nd.prems(2) by simp
  have left: "(if root l \<noteq> 0 \<and> ?D (hd xs) < 0 then traverse_forward_inclusion E k inc vis (root l) s c else Some (0, c)) = Some (visit_each ?P vis (inorder l) c)" for c
    using IHl L roots by (cases "l = Tip"; cases "?D (hd xs) < 0") auto
  have here: "\<exists>b. (if ?D (last xs) \<le> 0 then visit_inclusion ?D inc vis xs c else Some (0, True, c)) = Some (fst (visit_each ?P vis xs c), b, snd (visit_each ?P vis xs c)) \<and>
      (fst (visit_each ?P vis xs c) = 0 \<longrightarrow> (\<forall>c'. (if b \<and> root r \<noteq> 0 then traverse_forward_inclusion E k inc vis (root r) s c' else Some (0, c')) = Some (visit_each ?P vis (inorder r) c')))" for c
    using all(1) [of c] R [of c] N [of c] IHr roots by (cases "r = Tip"; cases "all c"; cases "?D (last xs) \<le> 0") auto
  obtain c1 g1 where v: "visit_each ?P vis (inorder l) c = (g1, c1)" by fastforce
  obtain b1 where b1: "(if ?D (last xs) \<le> 0 then visit_inclusion ?D inc vis xs c1 else Some (0, True, c1)) = Some (fst (visit_each ?P vis xs c1), b1, snd (visit_each ?P vis xs c1))"
    "fst (visit_each ?P vis xs c1) = 0 \<longrightarrow> (\<forall>c'. (if b1 \<and> root r \<noteq> 0 then traverse_forward_inclusion E k inc vis (root r) s c' else Some (0, c')) = Some (visit_each ?P vis (inorder r) c'))"
    using here [of c1] by blast
  have "traverse_forward_inclusion E k inc vis a s c = do {
      (iRet, c) \<leftarrow> (if root l \<noteq> 0 \<and> ?D (hd xs) < 0 then traverse_forward_inclusion E k inc vis (root l) s c else Some (0, c));
      if iRet \<noteq> 0 then Some (iRet, c) else do {
        (iRet, all, c) \<leftarrow> (if ?D (last xs) \<le> 0 then visit_inclusion ?D inc vis xs c else Some (0, True, c));
        if iRet \<noteq> 0 then Some (iRet, c)
        else if all \<and> root r \<noteq> 0 then traverse_forward_inclusion E k inc vis (root r) s c else Some (0, c) } }"
    using n by (subst traverse_forward_inclusion.simps) (simp cong: if_cong)
  also have "\<dots> = Some (visit_each ?P vis (inorder (Nd l a b xs r)) c)"
    unfolding left v using b1 by (cases "visit_each ?P vis xs c1") (auto simp: visit_append v [simplified])
  finally show ?case by simp
qed simp

end

section \<open>Release and size\<close>

lemma restrict_drop: "(Q |` (- B))(x := None) = Q |` (- insert x B)"
  by (auto simp: restrict_map_def)

context tree_memory
begin

lemma free_items_ok:
  "rel A Q m \<Longrightarrow> set xs \<subseteq> dom Q \<Longrightarrow> distinct xs \<Longrightarrow> \<exists>m'. free_items E xs m = Some m' \<and> rel A (Q |` (- set xs)) m'"
proof (induction xs arbitrary: Q m)
  case (Cons x xs)
  obtain q where q: "Q x = Some q" using Cons.prems(2) by auto
  obtain rc m1 where m1: "Free E x m = Some (rc, m1)" "rel A (Q(x := None)) m1" using free_record [OF Cons.prems(1) q] by blast
  have d: "set xs \<subseteq> dom (Q(x := None))" "distinct xs" using Cons.prems(2,3) by auto
  obtain m' where m': "free_items E xs m1 = Some m'" "rel A (Q(x := None) |` (- set xs)) m'" using Cons.IH [OF m1(2) d] by blast
  have "Q(x := None) |` (- set xs) = Q |` (- set (x # xs))" by (auto simp: restrict_map_def)
  then show ?case using m1(1) m' by simp
qed (simp add: restrict_map_def)

theorem Destroy_ok:
  assumes "rel A Q (heap s)" "rep (nodes s) t" "filled t" "addrs t \<subseteq> A" "set (inorder t) \<subseteq> dom Q" "distinct (inorder t)"
  shows "\<exists>s'. node_Destroy E (root t) s = Some s' \<and> rel (A - addrs t) (Q |` (- set (inorder t))) (heap s') \<and>
    nodes s' = nodes s |` (- addrs t)"
  using assms
proof (induction t arbitrary: s A Q)
  case Tip
  then show ?case by (subst node_Destroy.simps) (simp add: restrict_map_def)
next
  case (Nd l a b xs r)
  note t = Nd.prems(2)
  obtain ys where n: "nodes s a = Some (mk_node (root l) (root r) b (length xs) (xs @ ys))"
    "items_of (mk_node (root l) (root r) b (length xs) (xs @ ys)) = Some xs" by (rule node_at [OF Nd.prems(2,3)])
  obtain m1 where m1: "free_items E xs (heap s) = Some m1" "rel A (Q |` (- set xs)) m1" using free_items_ok [OF Nd.prems(1), of xs] Nd.prems(5,6) by auto
  obtain s2 where s2: "free_node E a (s\<lparr>heap := m1\<rparr>) = Some s2" "nodes s2 = (nodes s)(a := None)" "rel (A - {a}) (Q |` (- set xs)) (heap s2)"
    using free [of A "Q |` (- set xs)" m1 a] m1(2) Nd.prems(4) by (auto simp: free_node_def)
  have "rep (nodes s2) l" using t s2(2) by simp
  moreover have "addrs l \<subseteq> A - {a}" "set (inorder l) \<subseteq> dom (Q |` (- set xs))" using t Nd.prems(4-6) by auto
  ultimately obtain s3 where s3: "node_Destroy E (root l) s2 = Some s3" "rel (A - {a} - addrs l) (Q |` (- set xs) |` (- set (inorder l))) (heap s3)" "nodes s3 = nodes s2 |` (- addrs l)"
    using Nd.IH(1) [OF s2(3)] Nd.prems(3,6) by auto
  have "nodes s3 c = nodes s c" if "c \<in> addrs r" for c using that t s2(2) s3(3) by (auto simp: restrict_map_def)
  then have "rep (nodes s3) r" using t rep_cong [of r "nodes s3" "nodes s"] by simp
  moreover have "addrs r \<subseteq> A - {a} - addrs l" "set (inorder r) \<subseteq> dom (Q |` (- set xs) |` (- set (inorder l)))" using t Nd.prems(4-6) by auto
  ultimately obtain s4 where s4: "node_Destroy E (root r) s3 = Some s4" "rel (A - {a} - addrs l - addrs r) (Q |` (- set xs) |` (- set (inorder l)) |` (- set (inorder r))) (heap s4)"
    "nodes s4 = nodes s3 |` (- addrs r)"
    using Nd.IH(2) [OF s3(2)] Nd.prems(3,6) by auto
  have "node_Destroy E a s = Some s4" using n m1(1) s2(1) s3(1) s4(1) t by (subst node_Destroy.simps) simp
  moreover have "A - {a} - addrs l - addrs r = A - addrs (Nd l a b xs r)" by auto
  moreover have "Q |` (- set xs) |` (- set (inorder l)) |` (- set (inorder r)) = Q |` (- set (inorder (Nd l a b xs r)))" by (auto simp: restrict_map_def)
  moreover have "nodes s4 = nodes s |` (- addrs (Nd l a b xs r))" using s2(2) s3(3) s4(3) by (auto simp: restrict_map_def)
  ultimately show ?case using s4(2) by simp
qed

end

lemma item_sizes_ok: "(\<And>x. x \<in> set xs \<Longrightarrow> size_of E m x = Some (sz x)) \<Longrightarrow> item_sizes E m xs = Some (word_of_nat (sum_list (map sz xs)))"
  by (induction xs) auto

lemma destroy_size_ok:
  assumes "rep (nodes s) t" "filled t" "\<And>h. h \<in> addrs t \<union> set (inorder t) \<Longrightarrow> size_of E (heap s) h = Some (sz h)"
  shows "node_destroy_size E (root t) s = Some (word_of_nat (sum_list (map sz (inorder t)) + sum sz (addrs t)))"
  using assms
proof (induction t)
  case Tip
  then show ?case by (subst node_destroy_size.simps) simp
next
  case (Nd l a b xs r)
  obtain ys where n: "nodes s a = Some (mk_node (root l) (root r) b (length xs) (xs @ ys))"
    "items_of (mk_node (root l) (root r) b (length xs) (xs @ ys)) = Some xs" by (rule node_at [OF Nd.prems(1,2)])
  have i: "item_sizes E (heap s) xs = Some (word_of_nat (sum_list (map sz xs)))" by (rule item_sizes_ok) (use Nd.prems(3) in auto)
  have "a \<notin> addrs l \<union> addrs r" "addrs l \<inter> addrs r = {}" using Nd.prems(1) by auto
  then have "sum sz (addrs (Nd l a b xs r)) = sz a + (sum sz (addrs l) + sum sz (addrs r))" by (simp add: sum.union_disjoint)
  moreover have "node_destroy_size E (root l) s = Some (word_of_nat (sum_list (map sz (inorder l)) + sum sz (addrs l)))"
    by (rule Nd.IH(1)) (use Nd.prems in auto)
  moreover have "node_destroy_size E (root r) s = Some (word_of_nat (sum_list (map sz (inorder r)) + sum sz (addrs r)))"
    by (rule Nd.IH(2)) (use Nd.prems in auto)
  ultimately show ?case using n i Nd.prems unfolding root.simps by (subst node_destroy_size.simps) (simp add: algebra_simps)
qed

lemma ordered_distinct: "ordered Q xs \<Longrightarrow> distinct xs"
  by (induction xs) auto

text \<open>A balanced tree is shallow: the path to any record has at most twice the logarithm of the number of nodes.\<close>

lemma avl_nodes: "avl t \<Longrightarrow> rep N t \<Longrightarrow> 2 ^ (height t div 2) \<le> card (addrs t) + 1"
proof (induction "height t" arbitrary: t rule: less_induct)
  case less
  show ?case
  proof (cases t)
    case (Nd l a b xs r)
    have c: "card (addrs t) = card (addrs l) + card (addrs r) + 1" using less.prems Nd by (simp add: card_Un_disjoint)
    have h: "height l < height t" "height r < height t" "avl l" "avl r" "rep N l" "rep N r" using Nd less.prems by auto
    have m: "height t \<le> height l + 2" "height t \<le> height r + 2" using Nd less.prems(1) by auto
    have "height t div 2 \<le> Suc (height l div 2)" "height t div 2 \<le> Suc (height r div 2)" using m by linarith+
    then have "2 ^ (height t div 2) \<le> 2 * (2 :: nat) ^ (height l div 2)" "2 ^ (height t div 2) \<le> 2 * (2 :: nat) ^ (height r div 2)"
      by (metis one_le_numeral power_Suc power_increasing, metis one_le_numeral power_Suc power_increasing)
    then show ?thesis using less.hyps [OF h(1,3,5)] less.hyps [OF h(2,4,6)] c by linarith
  qed simp
qed

end
