(* ===== verification/T_Tree_Delete.thy ===== *)
theory T_Tree_Delete
  imports T_Tree_Insert
begin

text \<open>
  Removal: the record with the key is taken out, a node that becomes empty is released, the order and the
  balance are kept, and a key that is not there changes nothing.
\<close>

section \<open>What a removal does\<close>

text \<open>The tree \<open>t'\<close> in \<open>s'\<close> has the records of \<open>t\<close> in \<open>s\<close> except \<open>x\<close>; the nodes it no longer has are released.\<close>

definition removes :: "(nat set \<Rightarrow> (nat \<rightharpoonup> 'k :: linorder) \<Rightarrow> 'm \<Rightarrow> bool) \<Rightarrow> nat set \<Rightarrow> (nat \<rightharpoonup> 'k) \<Rightarrow> nat \<Rightarrow> tt \<Rightarrow> 'm tree_mem \<Rightarrow> 'm tree_mem \<Rightarrow> tt \<Rightarrow> bool" where
  "removes rel A Q x t s s' t' \<longleftrightarrow> rep (nodes s') t' \<and> filled t' \<and> ordered Q (inorder t') \<and> set (inorder t') = set (inorder t) - {x} \<and>
     addrs t' \<subseteq> addrs t \<and> rel (A - (addrs t - addrs t')) Q (heap s') \<and> (\<forall>c. c \<notin> addrs t \<longrightarrow> nodes s' c = nodes s c)"

definition deletes :: "(nat set \<Rightarrow> (nat \<rightharpoonup> 'k :: linorder) \<Rightarrow> 'm \<Rightarrow> bool) \<Rightarrow> nat set \<Rightarrow> (nat \<rightharpoonup> 'k) \<Rightarrow> 'k \<Rightarrow> tt \<Rightarrow> 'm tree_mem \<Rightarrow> int \<Rightarrow> nat \<Rightarrow> 'm tree_mem \<Rightarrow> bool" where
  "deletes rel A Q k t s g h s' \<longleftrightarrow>
     g = - 1 \<and> k \<notin> keys Q t \<and> s' = s \<and> h = root t \<or>
     (g = 0 \<or> g = 1) \<and> (\<exists>x t'. x \<in> set (inorder t) \<and> key Q x = k \<and> removes rel A Q x t s s' t' \<and> h = root t' \<and> avl t' \<and> int (height t') = int (height t) - g)"

lemma deletesI:
  "removes rel A Q x t s s' t' \<Longrightarrow> g = 0 \<or> g = 1 \<Longrightarrow> x \<in> set (inorder t) \<Longrightarrow> key Q x = k \<Longrightarrow> h = root t' \<Longrightarrow> avl t' \<Longrightarrow>
   int (height t') = int (height t) - g \<Longrightarrow> deletes rel A Q k t s g h s'"
  by (auto simp: deletes_def)

lemma removes_rebalanced:
  assumes "removes rel A Q x t s s1 t1" "rebalanced t1 s1 h s2 t2"
  shows "removes rel A Q x t s s2 t2"
  using assms unfolding removes_def rebalanced_def same_but_def by auto

text \<open>A branch with fewer records takes its place, after the items of the node may have changed.\<close>

lemma splice_left:
  assumes l: "removes rel A Q z l s s1 l'" and t: "rep (nodes s) (Nd l a b zs r)" "addrs (Nd l a b zs r) \<subseteq> A"
  obtains s2 where "(if root l' \<noteq> root l then upd_node a (m_hLeft_update (\<lambda>_. root l')) s1 else Some s1) = Some s2"
    "rep (nodes s2) (Nd l' a b zs r)" "rel (A - (addrs (Nd l a b zs r) - addrs (Nd l' a b zs r))) Q (heap s2)"
    "\<forall>c. c \<notin> addrs (Nd l a b zs r) \<longrightarrow> nodes s2 c = nodes s c"
proof -
  have d: "a \<notin> addrs l'" "addrs l' \<inter> addrs r = {}" using l t(1) by (auto simp: removes_def)
  have same: "nodes s1 c = nodes s c" if "c \<notin> addrs l" for c using l that by (auto simp: removes_def)
  have n: "repn (nodes s1) a (root l) (root r) b zs" using t(1) repn_cong [of "nodes s1" a "nodes s"] same by simp
  have r: "rep (nodes s1) r" using t(1) rep_cong [of r "nodes s1" "nodes s"] same by auto
  obtain s2 where s2: "(if root l' \<noteq> root l then upd_node a (m_hLeft_update (\<lambda>_. root l')) s1 else Some s1) = Some s2"
    "rep (nodes s2) (Nd l' a b zs r)" "same_but {a} s1 s2"
    by (rule relink_left [OF n refl _ r _ d(1) _ d(2)]) (use l t(1) in \<open>auto simp: removes_def\<close>)
  have A: "addrs (Nd l a b zs r) - addrs (Nd l' a b zs r) = addrs l - addrs l'" using t(1) by auto
  show thesis by (rule that [OF s2(1,2)]) (use l s2(3) A in \<open>auto simp: removes_def same_but_def\<close>)
qed

lemma splice_right:
  assumes r: "removes rel A Q z r s s1 r'" and t: "rep (nodes s) (Nd l a b zs r)" "addrs (Nd l a b zs r) \<subseteq> A"
  obtains s2 where "(if root r' \<noteq> root r then upd_node a (m_hRight_update (\<lambda>_. root r')) s1 else Some s1) = Some s2"
    "rep (nodes s2) (Nd l a b zs r')" "rel (A - (addrs (Nd l a b zs r) - addrs (Nd l a b zs r'))) Q (heap s2)"
    "\<forall>c. c \<notin> addrs (Nd l a b zs r) \<longrightarrow> nodes s2 c = nodes s c"
proof -
  have d: "a \<notin> addrs r'" "addrs l \<inter> addrs r' = {}" using r t(1) by (auto simp: removes_def)
  have same: "nodes s1 c = nodes s c" if "c \<notin> addrs r" for c using r that by (auto simp: removes_def)
  have n: "repn (nodes s1) a (root l) (root r) b zs" using t(1) repn_cong [of "nodes s1" a "nodes s"] same by simp
  have l: "rep (nodes s1) l" using t(1) rep_cong [of l "nodes s1" "nodes s"] same by auto
  obtain s2 where s2: "(if root r' \<noteq> root r then upd_node a (m_hRight_update (\<lambda>_. root r')) s1 else Some s1) = Some s2"
    "rep (nodes s2) (Nd l a b zs r')" "same_but {a} s1 s2"
    by (rule relink_right [OF n refl l _ _ _ d(1) d(2)]) (use r t(1) in \<open>auto simp: removes_def\<close>)
  have A: "addrs (Nd l a b zs r) - addrs (Nd l a b zs r') = addrs r - addrs r'" using t(1) by auto
  show thesis by (rule that [OF s2(1,2)]) (use r s2(3) A in \<open>auto simp: removes_def same_but_def\<close>)
qed

section \<open>Items\<close>

lemma find_item_ok:
  assumes "\<And>x. x \<in> set xs \<Longrightarrow> pc x = 0 \<longleftrightarrow> k = f x"
  shows "(find_item pc xs n = None \<and> k \<notin> f ` set xs) \<or> (\<exists>i < length xs. find_item pc xs n = Some (n + i) \<and> f (xs ! i) = k)"
  using assms
proof (induction xs arbitrary: n)
  case (Cons x xs)
  show ?case
  proof (cases "pc x = 0")
    case True
    then show ?thesis using Cons.prems [of x] by auto
  next
    case False
    then have "f x \<noteq> k" using Cons.prems [of x] by auto
    moreover have "(find_item pc xs (n + 1) = None \<and> k \<notin> f ` set xs) \<or> (\<exists>i < length xs. find_item pc xs (n + 1) = Some (n + 1 + i) \<and> f (xs ! i) = k)"
      by (rule Cons.IH) (use Cons.prems in auto)
    ultimately show ?thesis using False by (auto intro: exI [of _ "Suc _"])
  qed
qed simp

lemma rightmost_ok: "rep (nodes s) t \<Longrightarrow> filled t \<Longrightarrow> t \<noteq> Tip \<Longrightarrow> \<exists>n. rightmost (root t) s = Some n \<and> last_item n = Some (last (inorder t))"
proof (induction t)
  case (Nd l a b xs r)
  obtain ys where n: "nodes s a = Some (mk_node (root l) (root r) b (length xs) (xs @ ys))"
    "last_item (mk_node (root l) (root r) b (length xs) (xs @ ys)) = Some (last xs)" by (rule node_at [OF Nd.prems(1,2)])
  show ?case
  proof (cases "r = Tip")
    case True
    then show ?thesis using n Nd.prems(2) by (subst rightmost.simps) auto
  next
    case False
    then have "root r \<noteq> 0" "inorder r \<noteq> []" using Nd.prems(1,2) root_0 [of "nodes s" r] by (auto, cases r, auto)
    then show ?thesis using n Nd.IH(2) False Nd.prems by (subst rightmost.simps) auto
  qed
qed simp

lemma leftmost_ok: "rep (nodes s) t \<Longrightarrow> filled t \<Longrightarrow> t \<noteq> Tip \<Longrightarrow> \<exists>n. leftmost (root t) s = Some n \<and> item n 0 = Some (hd (inorder t))"
proof (induction t)
  case (Nd l a b xs r)
  obtain ys where n: "nodes s a = Some (mk_node (root l) (root r) b (length xs) (xs @ ys))"
    "item (mk_node (root l) (root r) b (length xs) (xs @ ys)) 0 = Some (hd xs)" by (rule node_at [OF Nd.prems(1,2)])
  show ?case
  proof (cases "l = Tip")
    case True
    then show ?thesis using n Nd.prems(2) by (subst leftmost.simps) auto
  next
    case False
    then have "root l \<noteq> 0" "inorder l \<noteq> []" using Nd.prems(1,2) root_0 [of "nodes s" l] by (auto, cases l, auto)
    then show ?thesis using n Nd.IH(1) False Nd.prems by (subst leftmost.simps) auto
  qed
qed simp

lemma inorder_Nil: "filled t \<Longrightarrow> inorder t = [] \<longleftrightarrow> t = Tip"
  by (cases t) auto

definition without :: "nat \<Rightarrow> nat list \<Rightarrow> nat list" where
  "without i xs = take i xs @ drop (i + 1) xs"

lemma without_facts:
  assumes "i < length xs" "ordered Q xs"
  shows "set (without i xs) = set xs - {xs ! i}" "ordered Q (without i xs)" "length (without i xs) = length xs - 1"
proof -
  have e: "xs = take i xs @ xs ! i # drop (i + 1) xs" using id_take_nth_drop [OF assms(1)] by simp
  define us vs where "us = take i xs" "vs = drop (i + 1) xs"
  then have e': "xs = us @ xs ! i # vs" "without i xs = us @ vs" using e by (auto simp: without_def)
  have "ordered Q (us @ xs ! i # vs)" using assms(2) e'(1) by metis
  then have o: "ordered Q us" "ordered Q vs" "\<forall>x \<in> set us. key Q x < key Q (xs ! i)" "\<forall>x \<in> set vs. key Q (xs ! i) < key Q x" "\<forall>x \<in> set us. \<forall>y \<in> set vs. key Q x < key Q y"
    by auto
  then have "xs ! i \<notin> set us" "xs ! i \<notin> set vs" by auto
  moreover have "set xs = set us \<union> insert (xs ! i) (set vs)" by (subst e'(1)) auto
  ultimately show "set (without i xs) = set xs - {xs ! i}" by (auto simp: e'(2))
  show "ordered Q (without i xs)" using o by (simp add: e'(2))
  show "length (without i xs) = length xs - 1" using assms(1) by (simp add: without_def)
qed

lemma take_left_ok:
  assumes n: "length (xs @ ys) = PAGE_SIZE" "i < length xs" and l: "rep (nodes s) l" "filled l" "l \<noteq> Tip"
  shows "take_left i (mk_node (root l) hr b (length xs) (xs @ ys)) s =
    Some (last (inorder l), mk_node (root l) hr b (length xs) ((last (inorder l) # without i xs) @ ys))"
proof -
  obtain p where p: "rightmost (root l) s = Some p" "last_item p = Some (last (inorder l))" using rightmost_ok [OF l] by blast
  obtain ws where ws: "shift_up 0 i (xs @ ys) = Some ws" "length ws = length (xs @ ys)"
    "\<forall>j < length (xs @ ys). ws ! j = (if 0 < j \<and> j \<le> i then (xs @ ys) ! (j - 1) else (xs @ ys) ! j)"
    using shift_up_ok [of 0 i "xs @ ys"] n by auto
  have "ws[0 := z] = (z # without i xs) @ ys" for z
  proof (rule nth_equalityI)
    fix j assume "j < length (ws[0 := z])"
    then have j: "j < length (xs @ ys)" using ws(2) by simp
    show "ws[0 := z] ! j = ((z # without i xs) @ ys) ! j"
      using ws(3) [rule_format, OF j] j ws(2) n by (cases j) (auto simp: without_def nth_append nth_list_update)
  qed (use ws(2) n in \<open>simp add: without_def\<close>)
  then show ?thesis using p ws n by (auto simp: take_left_def set_item_def)
qed

lemma take_right_ok:
  assumes n: "length (xs @ ys) = PAGE_SIZE" "i < length xs" and r: "rep (nodes s) r" "filled r" "r \<noteq> Tip"
  shows "take_right i (mk_node hl (root r) b (length xs) (xs @ ys)) s =
    Some (hd (inorder r), mk_node hl (root r) b (length xs) ((without i xs @ [hd (inorder r)]) @ ys))"
proof -
  obtain p where p: "leftmost (root r) s = Some p" "item p 0 = Some (hd (inorder r))" using leftmost_ok [OF r] by blast
  obtain ws where ws: "shift_down (i + 1) (length xs) (xs @ ys) = Some ws" "length ws = length (xs @ ys)"
    "\<forall>j < length (xs @ ys). ws ! j = (if i + 1 \<le> j + 1 \<and> j + 1 < length xs then (xs @ ys) ! (j + 1) else (xs @ ys) ! j)"
    using shift_down_ok [of "i + 1" "length xs" "xs @ ys"] n by auto
  have "ws[length xs - 1 := z] = (without i xs @ [z]) @ ys" for z
  proof (rule nth_equalityI)
    fix j assume "j < length (ws[length xs - 1 := z])"
    then have j: "j < length (xs @ ys)" using ws(2) by simp
    show "ws[length xs - 1 := z] ! j = ((without i xs @ [z]) @ ys) ! j"
      using ws(3) [rule_format, OF j] j ws(2) n by (auto simp: without_def nth_append nth_list_update nth_Cons')
  qed (use ws(2) n in \<open>simp add: without_def\<close>)
  then show ?thesis using p ws n by (auto simp: take_right_def set_item_def)
qed

section \<open>The two stages\<close>

text \<open>\<open>Delete\<close> after the left branch has been left alone or searched in vain: the items of the node and the right branch.\<close>

definition del_found :: "('k, 'm) tree_env \<Rightarrow> nat \<Rightarrow> ttree_node \<Rightarrow> nat \<Rightarrow> 'm tree_mem \<Rightarrow> (int \<times> nat \<times> 'm tree_mem) option" where
  "del_found E hNode n i s =
     (if m_ushNItems n = 1 \<and> m_hRight n = 0 then do { s \<leftarrow> free_node E hNode s; Some (1, m_hLeft n, s) }
      else if m_ushNItems n = 1 \<and> m_hLeft n = 0 then do { s \<leftarrow> free_node E hNode s; Some (1, m_hRight n, s) }
      else if m_ushNItems n \<le> MIN_ITEMS \<and> m_hLeft n \<noteq> 0 \<and> m_chBalance n \<le> 0 then do {
        (z, n') \<leftarrow> take_left i n s;
        s \<leftarrow> upd_node hNode (\<lambda>_. n') (s\<lparr>node_flag := (node_flag s \<or> m_ushNItems n = 1)\<rparr>);
        (iRet, hChild, s) \<leftarrow> node_Delete E (cvalue E (heap s) z) (m_hLeft n) s;
        if iRet < - 1 then Some (iRet, hNode, s)
        else do {
          s \<leftarrow> (if hChild \<noteq> m_hLeft n then upd_node hNode (m_hLeft_update (\<lambda>_. hChild)) s else Some s);
          if iRet > 0 then balance_left_branch hNode s else Some (iRet, hNode, s) } }
      else if m_ushNItems n \<le> MIN_ITEMS \<and> m_hRight n \<noteq> 0 then do {
        (z, n') \<leftarrow> take_right i n s;
        s \<leftarrow> upd_node hNode (\<lambda>_. n') (s\<lparr>node_flag := (node_flag s \<or> m_ushNItems n = 1)\<rparr>);
        (iRet, hChild, s) \<leftarrow> node_Delete E (cvalue E (heap s) z) (m_hRight n) s;
        if iRet < - 1 then Some (iRet, hNode, s)
        else do {
          s \<leftarrow> (if hChild \<noteq> m_hRight n then upd_node hNode (m_hRight_update (\<lambda>_. hChild)) s else Some s);
          if iRet > 0 then balance_right_branch hNode s else Some (iRet, hNode, s) } }
      else do {
        n' \<leftarrow> remove_item i n;
        s \<leftarrow> upd_node hNode (\<lambda>_. n') (s\<lparr>node_flag := (node_flag s \<or> m_ushNItems n = 1)\<rparr>);
        Some (0, hNode, s) })"

definition del_right :: "('k, 'm) tree_env \<Rightarrow> 'k \<Rightarrow> nat \<Rightarrow> ttree_node \<Rightarrow> 'm tree_mem \<Rightarrow> (int \<times> nat \<times> 'm tree_mem) option" where
  "del_right E k hNode n s =
     (if m_hRight n \<noteq> 0 then do {
        (iRet, hChild, s) \<leftarrow> node_Delete E k (m_hRight n) s;
        if iRet < - 1 then Some (iRet, hNode, s)
        else do {
          s \<leftarrow> (if hChild \<noteq> m_hRight n then upd_node hNode (m_hRight_update (\<lambda>_. hChild)) s else Some s);
          if iRet > 0 then balance_right_branch hNode s else Some (iRet, hNode, s) } }
      else Some (- 1, hNode, s))"

definition del_here :: "('k, 'm) tree_env \<Rightarrow> 'k \<Rightarrow> nat \<Rightarrow> 'm tree_mem \<Rightarrow> (int \<times> nat \<times> 'm tree_mem) option" where
  "del_here E k hNode s = do {
     n \<leftarrow> nodes s hNode;
     y \<leftarrow> last_item n;
     xs \<leftarrow> items_of n;
     case (if iDiff E (heap s) k y \<le> 0 then find_item (pfComp E (heap s) k) xs 0 else None) of
       Some i \<Rightarrow> del_found E hNode n i s
     | None \<Rightarrow> del_right E k hNode n s }"

lemma node_Delete_stages:
  "node_Delete E k hNode s = do {
     n \<leftarrow> nodes s hNode;
     x \<leftarrow> item n 0;
     res \<leftarrow> (if iDiff E (heap s) k x < 0 \<and> m_hLeft n \<noteq> 0 then do {
          (iRet, hChild, s) \<leftarrow> node_Delete E k (m_hLeft n) s;
          if iRet < - 1 then Some (Inl (iRet, hNode, s))
          else do {
            s \<leftarrow> (if hChild \<noteq> m_hLeft n then upd_node hNode (m_hLeft_update (\<lambda>_. hChild)) s else Some s);
            if iRet > 0 then do { r \<leftarrow> balance_left_branch hNode s; Some (Inl r) }
            else if iRet = 0 then Some (Inl (0, hNode, s))
            else Some (Inr s) } }
        else Some (Inr s));
     case res of Inl r \<Rightarrow> Some r | Inr s \<Rightarrow> del_here E k hNode s }"
  by (subst node_Delete.simps) (simp only: del_here_def [abs_def] del_found_def del_right_def)

context tree_memory
begin

lemma free_ok:
  assumes "rel A Q (heap s)" "a \<in> A"
  obtains s' where "free_node E a s = Some s'" "nodes s' = (nodes s)(a := None)" "rel (A - {a}) Q (heap s')"
  using free [OF assms] that by (auto simp: free_node_def)

lemma balanced_left:
  assumes l: "removes rel A Q x t s s1 (Nd l' a b xs r)" and avl: "avl (Nd l a b ys r)" "avl l'" "int (height l') = int (height l) - g" "g = 0 \<or> g = 1"
    and x: "x \<in> set (inorder t)" "key Q x = k" "height t = height (Nd l a b ys r)"
  shows "\<exists>g' h s'. (if g > 0 then balance_left_branch a s1 else Some (g, a, s1)) = Some (g', h, s') \<and> deletes rel A Q k t s g' h s'"
proof (cases "g = 0")
  case True
  have "deletes rel A Q k t s 0 a s1" by (rule deletesI [OF l]) (use avl x True in auto)
  then show ?thesis using True by auto
next
  case False
  have bal: "b = int (height r) - int (height l') - 1" "- 1 \<le> b" "b \<le> 1" using avl False by auto
  obtain g' h s' t' where g: "balance_left_branch a s1 = Some (g', h, s')" "rebalanced (Nd l' a b xs r) s1 h s' t'" "g' = 0 \<or> g' = 1"
    "int (height t') = 1 + max (int (height l') + 1) (int (height r)) - g'"
    by (rule balance_left_branch_ok [OF _ avl(2) _ _ bal]) (use l avl in \<open>auto simp: removes_def\<close>)
  have "deletes rel A Q k t s g' h s'"
    by (rule deletesI [OF removes_rebalanced [OF l g(2)]]) (use g x avl False in \<open>auto simp: rebalanced_def\<close>)
  then show ?thesis using g(1) False avl(4) by auto
qed

lemma balanced_right:
  assumes r: "removes rel A Q x t s s1 (Nd l a b xs r')" and avl: "avl (Nd l a b ys r)" "avl r'" "int (height r') = int (height r) - g" "g = 0 \<or> g = 1"
    and x: "x \<in> set (inorder t)" "key Q x = k" "height t = height (Nd l a b ys r)"
  shows "\<exists>g' h s'. (if g > 0 then balance_right_branch a s1 else Some (g, a, s1)) = Some (g', h, s') \<and> deletes rel A Q k t s g' h s'"
proof (cases "g = 0")
  case True
  have "deletes rel A Q k t s 0 a s1" by (rule deletesI [OF r]) (use avl x True in auto)
  then show ?thesis using True by auto
next
  case False
  have bal: "b = int (height r') - int (height l) + 1" "- 1 \<le> b" "b \<le> 1" using avl False by auto
  obtain g' h s' t' where g: "balance_right_branch a s1 = Some (g', h, s')" "rebalanced (Nd l a b xs r') s1 h s' t'" "g' = 0 \<or> g' = 1"
    "int (height t') = 1 + max (int (height l)) (int (height r') + 1) - g'"
    by (rule balance_right_branch_ok [OF _ _ avl(2) _ bal]) (use r avl in \<open>auto simp: removes_def\<close>)
  have "deletes rel A Q k t s g' h s'"
    by (rule deletesI [OF removes_rebalanced [OF r g(2)]]) (use g x avl False in \<open>auto simp: rebalanced_def\<close>)
  then show ?thesis using g(1) False avl(4) by auto
qed

end

section \<open>Removal is correct\<close>

lemma removes_ordered:
  assumes "ordered Q (inorder l @ xs @ inorder r)"
  shows "removes rel A Q z l s s1 l' \<Longrightarrow> ordered Q (inorder l' @ xs @ inorder r)"
    "removes rel A Q z r s s1 r' \<Longrightarrow> ordered Q (inorder l @ xs @ inorder r')"
  using assms by (auto simp: removes_def)

lemma removesI:
  "rep (nodes s') t' \<Longrightarrow> filled t' \<Longrightarrow> ordered Q (inorder t') \<Longrightarrow> set (inorder t') = set (inorder t) - {x} \<Longrightarrow> addrs t' \<subseteq> addrs t \<Longrightarrow>
   rel (A - (addrs t - addrs t')) Q (heap s') \<Longrightarrow> (\<And>c. c \<notin> addrs t \<Longrightarrow> nodes s' c = nodes s c) \<Longrightarrow> removes rel A Q x t s s' t'"
  by (simp add: removes_def)

lemma deletesE:
  assumes "deletes rel A Q k t s g h s'" "k \<in> keys Q t"
  obtains x t' where "g = 0 \<or> g = 1" "x \<in> set (inorder t)" "key Q x = k" "removes rel A Q x t s s' t'" "h = root t'" "avl t'" "int (height t') = int (height t) - g"
  using assms by (auto simp: deletes_def)

lemma ordered_inj: "ordered Q xs \<Longrightarrow> x \<in> set xs \<Longrightarrow> y \<in> set xs \<Longrightarrow> key Q x = key Q y \<Longrightarrow> x = y"
  by (induction xs) auto

context tree_memory
begin

lemma free_leaf:
  assumes m: "rel A Q (heap s)" and t: "rep (nodes s) (Nd l a b [x] r)" "addrs (Nd l a b [x] r) \<subseteq> A" "wf_tree Q (Nd l a b [x] r)"
    and e: "r = Tip \<and> c = l \<or> l = Tip \<and> c = r"
  shows "\<exists>s'. free_node E a s = Some s' \<and> deletes rel A Q (key Q x) (Nd l a b [x] r) s 1 (root c) s'"
proof -
  obtain s' where s': "free_node E a s = Some s'" "nodes s' = (nodes s)(a := None)" "rel (A - {a}) Q (heap s')"
    by (rule free_ok [OF m, of a]) (use t(2) in auto)
  have "addrs (Nd l a b [x] r) - addrs c = {a}" using t(1) e by auto
  then have "removes rel A Q x (Nd l a b [x] r) s s' c"
    by (intro removesI) (use t s' e in \<open>auto simp: wf_tree_def\<close>)
  then have "deletes rel A Q (key Q x) (Nd l a b [x] r) s 1 (root c) s'"
    by (rule deletesI) (use t(3) e in \<open>auto simp: wf_tree_def\<close>)
  then show ?thesis using s'(1) by blast
qed

lemma delete_found:
  assumes m: "rel A Q (heap s)" and t: "rep (nodes s) (Nd l a b xs r)" "addrs (Nd l a b xs r) \<subseteq> A" "wf_tree Q (Nd l a b xs r)"
    and i: "i < length xs" "key Q (xs ! i) = k"
    and n: "nodes s a = Some (mk_node (root l) (root r) b (length xs) (xs @ ys))" "length (xs @ ys) = PAGE_SIZE"
    and IHl: "\<And>s k. rel A Q (heap s) \<Longrightarrow> rep (nodes s) l \<Longrightarrow> k \<in> K \<Longrightarrow> l \<noteq> Tip \<Longrightarrow> \<exists>g h s'. node_Delete E k (root l) s = Some (g, h, s') \<and> deletes rel A Q k l s g h s'"
    and IHr: "\<And>s k. rel A Q (heap s) \<Longrightarrow> rep (nodes s) r \<Longrightarrow> k \<in> K \<Longrightarrow> r \<noteq> Tip \<Longrightarrow> \<exists>g h s'. node_Delete E k (root r) s = Some (g, h, s') \<and> deletes rel A Q k r s g h s'"
  shows "\<exists>g h s'. del_found E a (mk_node (root l) (root r) b (length xs) (xs @ ys)) i s = Some (g, h, s') \<and> deletes rel A Q k (Nd l a b xs r) s g h s'"
proof -
  let ?t = "Nd l a b xs r" and ?n = "mk_node (root l) (root r) b (length xs) (xs @ ys)"
  have f: "filled ?t" and avl: "avl ?t" and ord: "ordered Q (inorder l @ xs @ inorder r)" "ordered Q xs" using t(3) by (auto simp: wf_tree_def)
  have roots: "root l = 0 \<longleftrightarrow> l = Tip" "root r = 0 \<longleftrightarrow> r = Tip" using t(1) root_0 by auto
  note w = without_facts [OF i(1) ord(2)]
  have xi: "xs ! i \<in> set xs" using i(1) by simp
  have xl: "xs ! i \<notin> set (inorder l)" "xs ! i \<notin> set (inorder r)" using ord xi by (auto dest: bspec)
  let ?s = "\<lambda>zs. s\<lparr>node_flag := (node_flag s \<or> length xs = 1), nodes := (nodes s)(a \<mapsto> mk_node (root l) (root r) b (length xs) (zs @ ys))\<rparr>"
  have up: "upd_node a (\<lambda>_. mk_node (root l) (root r) b (length xs) (zs @ ys)) (s\<lparr>node_flag := (node_flag s \<or> length xs = 1)\<rparr>) = Some (?s zs)" for zs
    using n by (simp add: upd_node_def)
  have rz: "rep (nodes (?s zs)) (Nd l a b zs r)" if "length zs = length xs" for zs using t(1) n(2) that by (auto simp: repn_same)
  show ?thesis
  proof (cases "length xs = 1 \<and> (r = Tip \<or> l = Tip)")
    case True
    then obtain x where x: "xs = [x]" "i = 0" using i(1) by (cases xs) auto
    have "\<exists>s'. free_node E a s = Some s' \<and> deletes rel A Q (key Q x) ?t s 1 (root (if r = Tip then l else r)) s'"
      using free_leaf [OF m, of l a b x r "if r = Tip then l else r"] t x True by auto
    then show ?thesis using True roots x i(2) by (auto simp: del_found_def split: if_splits)
  next
    case one: False
    show ?thesis
    proof (cases "length xs \<le> MIN_ITEMS \<and> l \<noteq> Tip \<and> b \<le> 0")
      case True
      define z where "z = last (inorder l)"
      have z: "z \<in> set (inorder l)" "Q z = Some (key Q z)" using True f inorder_Nil [of l] ordered_dom [OF ord(1), of z] by (auto simp: z_def)
      let ?zs = "z # without i xs"
      have len: "length ?zs = length xs" using w(3) i(1) by simp
      have K: "key Q z \<in> K" "cvalue E (heap s) z = key Q z" using cvalue [OF m z(2)] by auto
      obtain g h s1 where g: "node_Delete E (key Q z) (root l) (?s ?zs) = Some (g, h, s1)" "deletes rel A Q (key Q z) l (?s ?zs) g h s1"
        using IHl [of "?s ?zs" "key Q z"] rz [OF len] m K True by auto
      have kz: "key Q z \<in> keys Q l" using z(1) by (simp add: keys_def)
      obtain y l' where y: "g = 0 \<or> g = 1" "y \<in> set (inorder l)" "key Q y = key Q z" "removes rel A Q y l (?s ?zs) s1 l'" "h = root l'" "avl l'" "int (height l') = int (height l) - g"
        by (rule deletesE [OF g(2) kz])
      have yz: "y = z" using ordered_inj [of Q "inorder l" y z] y z ord by auto
      obtain s2 where s2: "(if root l' \<noteq> root l then upd_node a (m_hLeft_update (\<lambda>_. root l')) s1 else Some s1) = Some s2" "rep (nodes s2) (Nd l' a b ?zs r)"
        "rel (A - (addrs (Nd l a b ?zs r) - addrs (Nd l' a b ?zs r))) Q (heap s2)" "\<forall>c. c \<notin> addrs (Nd l a b ?zs r) \<longrightarrow> nodes s2 c = nodes (?s ?zs) c"
        by (rule splice_left [OF y(4) rz [OF len]]) (use t(2) in auto)
      have set: "set (inorder l') = set (inorder l) - {z}" using y(4) yz by (simp add: removes_def)
      have below: "key Q v < key Q z" if "v \<in> set (inorder l')" for v
        using that set ordered_last [of Q "inorder l" v] ordered_inj [of Q "inorder l" v z] ord z(1) by (auto simp: z_def less_le)
      have "ordered Q (inorder (Nd l' a b ?zs r))" using y(4) ord w set below z by (auto simp: removes_def)
      then have R: "removes rel A Q (xs ! i) ?t s s2 (Nd l' a b ?zs r)"
        by (intro removesI) (use s2 f y(4) w set z xl len in \<open>auto simp: removes_def\<close>)
      have nr: "\<not> (length xs = 1 \<and> root r = 0)" "\<not> (length xs = 1 \<and> root l = 0)" "root l \<noteq> 0" using one roots True by auto
      have "del_found E a ?n i s = (if g > 0 then balance_left_branch a s2 else Some (g, a, s2))"
        using nr True take_left_ok [OF n(2) i(1), of s l "root r" b] t(1) f up [of ?zs] g(1) K y(1,5) s2(1)
        unfolding del_found_def by (auto simp: z_def)
      then show ?thesis using balanced_left [OF R avl y(6,7,1), of k] xi i(2) by simp
    next
      case noleft: False
      show ?thesis
      proof (cases "length xs \<le> MIN_ITEMS \<and> r \<noteq> Tip")
        case True
        define z where "z = hd (inorder r)"
        have z: "z \<in> set (inorder r)" "Q z = Some (key Q z)" using True f inorder_Nil [of r] ordered_dom [OF ord(1), of z] by (auto simp: z_def)
        let ?zs = "without i xs @ [z]"
        have len: "length ?zs = length xs" using w(3) i(1) by simp
        have K: "key Q z \<in> K" "cvalue E (heap s) z = key Q z" using cvalue [OF m z(2)] by auto
        obtain g h s1 where g: "node_Delete E (key Q z) (root r) (?s ?zs) = Some (g, h, s1)" "deletes rel A Q (key Q z) r (?s ?zs) g h s1"
          using IHr [of "?s ?zs" "key Q z"] rz [OF len] m K True by auto
        have kz: "key Q z \<in> keys Q r" using z(1) by (simp add: keys_def)
        obtain y r' where y: "g = 0 \<or> g = 1" "y \<in> set (inorder r)" "key Q y = key Q z" "removes rel A Q y r (?s ?zs) s1 r'" "h = root r'" "avl r'" "int (height r') = int (height r) - g"
          by (rule deletesE [OF g(2) kz])
        have yz: "y = z" using ordered_inj [of Q "inorder r" y z] y z ord by auto
        obtain s2 where s2: "(if root r' \<noteq> root r then upd_node a (m_hRight_update (\<lambda>_. root r')) s1 else Some s1) = Some s2" "rep (nodes s2) (Nd l a b ?zs r')"
          "rel (A - (addrs (Nd l a b ?zs r) - addrs (Nd l a b ?zs r'))) Q (heap s2)" "\<forall>c. c \<notin> addrs (Nd l a b ?zs r) \<longrightarrow> nodes s2 c = nodes (?s ?zs) c"
          by (rule splice_right [OF y(4) rz [OF len]]) (use t(2) in auto)
        have set: "set (inorder r') = set (inorder r) - {z}" using y(4) yz by (simp add: removes_def)
        have above: "key Q z < key Q v" if "v \<in> set (inorder r')" for v
          using that set ordered_hd [of Q "inorder r" v] ordered_inj [of Q "inorder r" v z] ord z(1) by (auto simp: z_def less_le)
        have "ordered Q (inorder (Nd l a b ?zs r'))" using y(4) ord w set above z by (auto simp: removes_def)
        then have R: "removes rel A Q (xs ! i) ?t s s2 (Nd l a b ?zs r')"
          by (intro removesI) (use s2 f y(4) w set z xl len in \<open>auto simp: removes_def\<close>)
        have nr: "\<not> (length xs = 1 \<and> root r = 0)" "\<not> (length xs = 1 \<and> root l = 0)" "\<not> (length xs \<le> MIN_ITEMS \<and> root l \<noteq> 0 \<and> b \<le> 0)" "root r \<noteq> 0"
          using one noleft roots True by auto
        have "del_found E a ?n i s = (if g > 0 then balance_right_branch a s2 else Some (g, a, s2))"
          using nr True take_right_ok [OF n(2) i(1), of s r "root l" b] t(1) f up [of ?zs] g(1) K y(1,5) s2(1)
          unfolding del_found_def by (auto simp: z_def)
        then show ?thesis using balanced_right [OF R avl y(6,7,1), of k] xi i(2) by simp
      next
        case False
        have two: "1 < length xs" using one False i(1) roots by (cases "length xs = 1") (auto simp: MIN_ITEMS_def PAGE_SIZE_def)
        obtain zs where zs: "remove_item i ?n = Some (mk_node (root l) (root r) b (length xs - 1) zs)" "length zs = PAGE_SIZE" "take (length xs - 1) zs = without i xs"
          by (rule remove_item_ok [OF n(2) i(1)]) (auto simp: without_def)
        let ?s' = "s\<lparr>node_flag := (node_flag s \<or> length xs = 1), nodes := (nodes s)(a \<mapsto> mk_node (root l) (root r) b (length xs - 1) zs)\<rparr>"
        have "upd_node a (\<lambda>_. mk_node (root l) (root r) b (length xs - 1) zs) (s\<lparr>node_flag := (node_flag s \<or> length xs = 1)\<rparr>) = Some ?s'"
          using n by (simp add: upd_node_def)
        then have run: "del_found E a ?n i s = Some (0, a, ?s')" using one noleft False roots zs(1) by (auto simp: del_found_def)
        have "rep (nodes ?s') (Nd l a b (without i xs) r)" using t(1) zs w(3) by (auto simp: repn_same)
        moreover have "ordered Q (inorder (Nd l a b (without i xs) r))" using ord w by auto
        moreover have "without i xs \<noteq> []" using w(3) two by auto
        ultimately have "removes rel A Q (xs ! i) ?t s ?s' (Nd l a b (without i xs) r)"
          by (intro removesI) (use f w xl m in auto)
        then have "deletes rel A Q k ?t s 0 a ?s'" by (rule deletesI) (use avl i(2) xi in auto)
        then show ?thesis using run by blast
      qed
    qed
  qed
qed

end

context tree_memory
begin

lemma delete_right:
  assumes m: "rel A Q (heap s)" and t: "rep (nodes s) (Nd l a b xs r)" "addrs (Nd l a b xs r) \<subseteq> A" "wf_tree Q (Nd l a b xs r)"
    and n: "nodes s a = Some (mk_node (root l) (root r) b (length xs) (xs @ ys))" and k: "k \<notin> keys Q l" "k \<notin> key Q ` set xs"
    and IH: "r \<noteq> Tip \<Longrightarrow> \<exists>g h s'. node_Delete E k (root r) s = Some (g, h, s') \<and> deletes rel A Q k r s g h s'"
  shows "\<exists>g h s'. del_right E k a (mk_node (root l) (root r) b (length xs) (xs @ ys)) s = Some (g, h, s') \<and> deletes rel A Q k (Nd l a b xs r) s g h s'"
proof -
  let ?t = "Nd l a b xs r" and ?n = "mk_node (root l) (root r) b (length xs) (xs @ ys)"
  have f: "filled ?t" and avl: "avl ?t" and ord: "ordered Q (inorder l @ xs @ inorder r)" using t(3) by (auto simp: wf_tree_def)
  have root: "root r = 0 \<longleftrightarrow> r = Tip" using t(1) root_0 by auto
  show ?thesis
  proof (cases "r = Tip")
    case True
    then have "deletes rel A Q k ?t s (- 1) a s" using k by (auto simp: deletes_def keys_def)
    then show ?thesis using True by (auto simp: del_right_def)
  next
    case False
    obtain g h s1 where g: "node_Delete E k (root r) s = Some (g, h, s1)" "deletes rel A Q k r s g h s1" using IH [OF False] by blast
    show ?thesis
    proof (cases "k \<in> keys Q r")
      case True
      obtain x r' where x: "g = 0 \<or> g = 1" "x \<in> set (inorder r)" "key Q x = k" "removes rel A Q x r s s1 r'" "h = root r'" "avl r'" "int (height r') = int (height r) - g"
        by (rule deletesE [OF g(2) True])
      obtain s2 where s2: "(if root r' \<noteq> root r then upd_node a (m_hRight_update (\<lambda>_. root r')) s1 else Some s1) = Some s2" "rep (nodes s2) (Nd l a b xs r')"
        "rel (A - (addrs (Nd l a b xs r) - addrs (Nd l a b xs r'))) Q (heap s2)" "\<forall>c. c \<notin> addrs (Nd l a b xs r) \<longrightarrow> nodes s2 c = nodes s c"
        by (rule splice_right [OF x(4) t(1,2)])
      have xl: "x \<notin> set (inorder l)" "x \<notin> set xs" using k x(3) by (auto simp: keys_def)
      have R: "removes rel A Q x ?t s s2 (Nd l a b xs r')"
        by (intro removesI) (use s2 f x(4) xl removes_ordered(2) [OF ord x(4)] in \<open>auto simp: removes_def\<close>)
      have "del_right E k a ?n s = (if g > 0 then balance_right_branch a s2 else Some (g, a, s2))"
        using root False g(1) x(1,5) s2(1) by (auto simp: del_right_def)
      then show ?thesis using balanced_right [OF R avl x(6,7,1), of k] x(2,3) by simp
    next
      case no: False
      then have e: "g = - 1" "s1 = s" "h = root r" using g(2) by (auto simp: deletes_def keys_def)
      have "deletes rel A Q k ?t s (- 1) a s" using k no by (auto simp: deletes_def keys_def)
      then show ?thesis using root False g(1) e by (auto simp: del_right_def)
    qed
  qed
qed

lemma delete_here:
  assumes m: "rel A Q (heap s)" and t: "rep (nodes s) (Nd l a b xs r)" "addrs (Nd l a b xs r) \<subseteq> A" "wf_tree Q (Nd l a b xs r)" and k: "k \<in> K" "k \<notin> keys Q l"
    and IHl: "\<And>s k. rel A Q (heap s) \<Longrightarrow> rep (nodes s) l \<Longrightarrow> k \<in> K \<Longrightarrow> l \<noteq> Tip \<Longrightarrow> \<exists>g h s'. node_Delete E k (root l) s = Some (g, h, s') \<and> deletes rel A Q k l s g h s'"
    and IHr: "\<And>s k. rel A Q (heap s) \<Longrightarrow> rep (nodes s) r \<Longrightarrow> k \<in> K \<Longrightarrow> r \<noteq> Tip \<Longrightarrow> \<exists>g h s'. node_Delete E k (root r) s = Some (g, h, s') \<and> deletes rel A Q k r s g h s'"
  shows "\<exists>g h s'. del_here E k a s = Some (g, h, s') \<and> deletes rel A Q k (Nd l a b xs r) s g h s'"
proof -
  have f: "filled (Nd l a b xs r)" and ord: "ordered Q (inorder l @ xs @ inorder r)" "ordered Q xs" using t(3) by (auto simp: wf_tree_def)
  obtain ys where n: "nodes s a = Some (mk_node (root l) (root r) b (length xs) (xs @ ys))" "length (xs @ ys) = PAGE_SIZE"
    "last_item (mk_node (root l) (root r) b (length xs) (xs @ ys)) = Some (last xs)"
    "items_of (mk_node (root l) (root r) b (length xs) (xs @ ys)) = Some xs" by (rule node_at [OF t(1) f])
  have last: "last xs \<in> set xs" using f by auto
  have F: "(find_item (pfComp E (heap s) k) xs 0 = None \<and> k \<notin> key Q ` set xs) \<or> (\<exists>i < length xs. find_item (pfComp E (heap s) k) xs 0 = Some (0 + i) \<and> key Q (xs ! i) = k)"
    by (rule find_item_ok) (rule diff_key(4) [OF m ord(2) _ k(1)])
  have IHr': "\<exists>g h s'. node_Delete E k (root r) s = Some (g, h, s') \<and> deletes rel A Q k r s g h s'" if "r \<noteq> Tip" using IHr [OF m _ k(1) that] t(1) by simp
  have miss: "\<exists>g h s'. del_here E k a s = Some (g, h, s') \<and> deletes rel A Q k (Nd l a b xs r) s g h s'"
    if "(if iDiff E (heap s) k (last xs) \<le> 0 then find_item (pfComp E (heap s) k) xs 0 else None) = None" "k \<notin> key Q ` set xs"
    using delete_right [OF m t n(1) k(2) that(2) IHr'] n that(1) by (simp add: del_here_def)
  show ?thesis
  proof (cases "iDiff E (heap s) k (last xs) \<le> 0")
    case True
    from F show ?thesis
    proof (elim disjE exE conjE)
      fix i assume i: "i < length xs" "find_item (pfComp E (heap s) k) xs 0 = Some (0 + i)" "key Q (xs ! i) = k"
      then show ?thesis using delete_found [OF m t i(1,3) n(1,2) IHl IHr] n True by (simp add: del_here_def)
    qed (use miss in simp)
  next
    case False
    then have "key Q (last xs) < k" using diff_key(3) [OF m ord(2) last k(1)] by simp
    then have "k \<notin> key Q ` set xs" by (intro not_image_above) (use ordered_last [OF ord(2)] in \<open>auto intro: le_less_trans\<close>)
    then show ?thesis using miss False by simp
  qed
qed

theorem Delete_ok:
  assumes "rel A Q (heap s)" "rep (nodes s) t" "t \<noteq> Tip" "addrs t \<subseteq> A" "wf_tree Q t" "k \<in> K"
  shows "\<exists>g h s'. node_Delete E k (root t) s = Some (g, h, s') \<and> deletes rel A Q k t s g h s'"
  using assms
proof (induction t arbitrary: s k)
  case (Nd l a b xs r)
  note m = Nd.prems(1) and t = Nd.prems(2,4,5) and k = Nd.prems(6)
  let ?t = "Nd l a b xs r"
  have f: "filled ?t" and avl: "avl ?t" and ord: "ordered Q (inorder l @ xs @ inorder r)" "ordered Q xs" using t(3) by (auto simp: wf_tree_def)
  have w: "wf_tree Q l" "wf_tree Q r" using t(3) by (auto simp: wf_tree_def)
  have IHl: "\<exists>g h s'. node_Delete E k (root l) s = Some (g, h, s') \<and> deletes rel A Q k l s g h s'"
    if "rel A Q (heap s)" "rep (nodes s) l" "k \<in> K" "l \<noteq> Tip" for s k using Nd.IH(1) [OF that(1,2,4) _ w(1) that(3)] t(2) by simp
  have IHr: "\<exists>g h s'. node_Delete E k (root r) s = Some (g, h, s') \<and> deletes rel A Q k r s g h s'"
    if "rel A Q (heap s)" "rep (nodes s) r" "k \<in> K" "r \<noteq> Tip" for s k using Nd.IH(2) [OF that(1,2,4) _ w(2) that(3)] t(2) by simp
  have here: "\<exists>g h s'. del_here E k a s = Some (g, h, s') \<and> deletes rel A Q k ?t s g h s'" if "k \<notin> keys Q l"
    by (rule delete_here [OF m t k that]) (fact IHl, fact IHr)
  have hd: "hd xs \<in> set xs" using f by auto
  have root: "root l = 0 \<longleftrightarrow> l = Tip" using t(1) root_0 by auto
  obtain ys where n: "nodes s a = Some (mk_node (root l) (root r) b (length xs) (xs @ ys))"
    "item (mk_node (root l) (root r) b (length xs) (xs @ ys)) 0 = Some (hd xs)" by (rule node_at [OF t(1) f])
  note d = diff_key(1) [OF m ord(2) hd k]
  show ?case unfolding root.simps
  proof (cases "k < key Q (hd xs) \<and> l \<noteq> Tip")
    case True
    obtain g h s1 where g: "node_Delete E k (root l) s = Some (g, h, s1)" "deletes rel A Q k l s g h s1" using IHl [OF m _ k] t(1) True by auto
    show "\<exists>g h s'. node_Delete E k a s = Some (g, h, s') \<and> deletes rel A Q k ?t s g h s'"
    proof (cases "k \<in> keys Q l")
      case in_l: True
      obtain x l' where x: "g = 0 \<or> g = 1" "x \<in> set (inorder l)" "key Q x = k" "removes rel A Q x l s s1 l'" "h = root l'" "avl l'" "int (height l') = int (height l) - g"
        by (rule deletesE [OF g(2) in_l])
      obtain s2 where s2: "(if root l' \<noteq> root l then upd_node a (m_hLeft_update (\<lambda>_. root l')) s1 else Some s1) = Some s2" "rep (nodes s2) (Nd l' a b xs r)"
        "rel (A - (addrs (Nd l a b xs r) - addrs (Nd l' a b xs r))) Q (heap s2)" "\<forall>c. c \<notin> addrs (Nd l a b xs r) \<longrightarrow> nodes s2 c = nodes s c"
        by (rule splice_left [OF x(4) t(1,2)])
      have xl: "x \<notin> set (inorder r)" "x \<notin> set xs" using ord x(2) by (auto dest: bspec)
      have R: "removes rel A Q x ?t s s2 (Nd l' a b xs r)"
        by (intro removesI) (use s2 f x(4) xl removes_ordered(1) [OF ord(1) x(4)] in \<open>auto simp: removes_def\<close>)
      have "node_Delete E k a s = (if g > 0 then balance_left_branch a s2 else Some (g, a, s2))"
        using n d True root g(1) x(1,5) s2(1) by (subst node_Delete_stages) (auto simp: bind_eq_Some_conv split: option.splits)
      then show ?thesis using balanced_left [OF R avl x(6,7,1), of k] x(2,3) by simp
    next
      case False
      then have e: "g = - 1" "s1 = s" "h = root l" using g(2) by (auto simp: deletes_def keys_def)
      have "node_Delete E k a s = del_here E k a s" using n d True root g(1) e by (subst node_Delete_stages) simp
      then show ?thesis using here [OF False] by simp
    qed
  next
    case False
    have "k \<notin> keys Q l"
    proof (cases "l = Tip")
      case nl: False
      then have le: "key Q (hd xs) \<le> k" using False by auto
      have "key Q y < k" if "y \<in> set (inorder l)" for y by (rule less_le_trans [OF _ le]) (use that ord hd in auto)
      then show ?thesis unfolding keys_def by (rule not_image_above)
    qed (simp add: keys_def)
    moreover have "node_Delete E k a s = del_here E k a s" using n d False root by (subst node_Delete_stages) auto
    ultimately show "\<exists>g h s'. node_Delete E k a s = Some (g, h, s') \<and> deletes rel A Q k ?t s g h s'" using here by simp
  qed
qed simp

end

end
