(* ===== verification/T_Tree_Key.thy ===== *)
theory T_Tree_Key
  imports T_Tree_Read T_Tree_Delete Bytes Chunk_Memory
begin

text \<open>
  The callbacks of the tree (\<open>cache/t_tree.cc\<close>): the comparison of a key with the key in a record, the key of a
  record as a value, and the visitor that collects records. A record is memory of the allocator; its key
  begins ten bytes behind its handle. For a signed integer field the comparison has the laws the tree needs
  as long as keys are less than \<open>2 ^ 31\<close> apart, so that the tree works on the memory of the allocator.
\<close>

section \<open>Keys in records\<close>

datatype DField = NoField | Signed | Unsigned | Float | String | Binary

record CmpCookie =
  field_type :: DField
  field_size :: int

record DTCValue =
  val64 :: u64
  val_str :: "byte list"

text \<open>Arithmetic of doubles: difference, order, the value of a float, and the conversion to an integer.\<close>

record float_ops =
  d_sub :: "u64 \<Rightarrow> u64 \<Rightarrow> u64"
  d_less :: "u64 \<Rightarrow> u64 \<Rightarrow> bool"
  d_of_float :: "u32 \<Rightarrow> u64"
  d_trunc :: "u64 \<Rightarrow> u64"

definition eps :: u64 where "eps = 0x3F1A36E2EB1C432D"
definition minus_eps :: u64 where "minus_eps = 0xBF1A36E2EB1C432D"

definition index_key :: "nat \<Rightarrow> nat" where
  "index_key h = h + 2 * 1 + 2 * 4"

definition rd64 :: "memory \<Rightarrow> nat \<Rightarrow> u64" where
  "rd64 m p = word_of_nat (ld 8 m p)"

definition rd32 :: "memory \<Rightarrow> nat \<Rightarrow> u32" where
  "rd32 m p = word_of_nat (ld 4 m p)"

definition bytes_at :: "memory \<Rightarrow> nat \<Rightarrow> nat \<Rightarrow> byte list" where
  "bytes_at m p n = map (\<lambda>i. m (p + i)) [0..<n]"

definition text_at :: "memory \<Rightarrow> nat \<Rightarrow> byte list option" where
  "text_at m p = (if sint (rd32 m p) < 0 then None else Some (bytes_at m (p + 4) (nat (sint (rd32 m p)))))"

text \<open>\<open>strncasecmp\<close> in the C locale: it stops at a zero byte.\<close>

definition lower_byte :: "byte \<Rightarrow> byte" where
  "lower_byte c = (if 65 \<le> c \<and> c \<le> 90 then c + 32 else c)"

fun strncasecmp :: "byte list \<Rightarrow> byte list \<Rightarrow> nat \<Rightarrow> int" where
  "strncasecmp (x # xs) (y # ys) (Suc n) =
     (if lower_byte x < lower_byte y then - 1 else if lower_byte y < lower_byte x then 1
      else if x = 0 then 0 else strncasecmp xs ys n)"
| "strncasecmp xs ys n = 0"

text \<open>The comparison of the two text types; a negative length in the record makes the length of the
  comparison larger than the memory.\<close>

definition text_compare :: "(byte list \<Rightarrow> byte list \<Rightarrow> nat \<Rightarrow> int) \<Rightarrow> byte list \<Rightarrow> memory \<Rightarrow> nat \<Rightarrow> int option" where
  "text_compare cmp kt m p =
     (if kt = [] \<and> sint (rd32 m p) = 0 then Some 0
      else if kt = [] then Some (- 1)
      else if sint (rd32 m p) = 0 then Some 1
      else if sint (rd32 m p) < 0 then None
      else (let tLen = nat (sint (rd32 m p)); res = cmp kt (bytes_at m (p + 4) tLen) (min (length kt) tLen)
        in if length kt = tLen then Some res
           else if res = 0 then Some (if length kt > tLen then 1 else - 1)
           else Some res))"

text \<open>The difference of signed integers is defined only without overflow.\<close>

definition KeyCompare :: "float_ops \<Rightarrow> CmpCookie \<Rightarrow> memory \<Rightarrow> DTCValue \<Rightarrow> nat \<Rightarrow> u64 option" where
  "KeyCompare fo ck m v hOtherKey =
     (case field_type ck of
        Signed \<Rightarrow> (let other = (if field_size ck > 4 then rd64 m (index_key hOtherKey) else scast (rd32 m (index_key hOtherKey)))
          in if - (2 ^ 63) \<le> sint (val64 v) - sint other \<and> sint (val64 v) - sint other < 2 ^ 63 then Some (val64 v - other) else None)
      | Unsigned \<Rightarrow> Some (val64 v - (if field_size ck > 4 then rd64 m (index_key hOtherKey) else ucast (rd32 m (index_key hOtherKey))))
      | Float \<Rightarrow> (let d = d_sub fo (val64 v) (if field_size ck > 4 then rd64 m (index_key hOtherKey) else d_of_float fo (rd32 m (index_key hOtherKey)))
          in Some (if d_less fo minus_eps d \<and> d_less fo d eps then 0 else d_trunc fo d))
      | String \<Rightarrow> map_option word_of_int (text_compare strncasecmp (val_str v) m (index_key hOtherKey))
      | Binary \<Rightarrow> map_option word_of_int (text_compare memcmp (val_str v) m (index_key hOtherKey))
      | NoField \<Rightarrow> Some 0)"

text \<open>\<open>None\<close> is a text with a negative length.\<close>

definition convert_cvalue :: "float_ops \<Rightarrow> CmpCookie \<Rightarrow> memory \<Rightarrow> nat \<Rightarrow> DTCValue \<Rightarrow> DTCValue option" where
  "convert_cvalue fo ck m hReInsert pch =
     (case field_type ck of
        Signed \<Rightarrow> Some (pch\<lparr>val64 := (if field_size ck > 4 then rd64 m (index_key hReInsert) else scast (rd32 m (index_key hReInsert)))\<rparr>)
      | Unsigned \<Rightarrow> Some (pch\<lparr>val64 := (if field_size ck > 4 then rd64 m (index_key hReInsert) else ucast (rd32 m (index_key hReInsert)))\<rparr>)
      | Float \<Rightarrow> Some (pch\<lparr>val64 := (if field_size ck > 4 then rd64 m (index_key hReInsert) else d_of_float fo (rd32 m (index_key hReInsert)))\<rparr>)
      | String \<Rightarrow> map_option (\<lambda>t. pch\<lparr>val_str := t\<rparr>) (text_at m (index_key hReInsert))
      | Binary \<Rightarrow> map_option (\<lambda>t. pch\<lparr>val_str := t\<rparr>) (text_at m (index_key hReInsert))
      | NoField \<Rightarrow> Some pch)"

section \<open>The collecting visitor\<close>

record pResCookie =
  m_handle :: "nat \<Rightarrow> nat"
  nodesGot :: u32
  nodesNum :: u32
  rowsGot :: u32

definition Visit :: "memory \<Rightarrow> nat \<Rightarrow> pResCookie \<Rightarrow> int \<times> pResCookie" where
  "Visit m hRecord c =
     (if nodesNum c > 0 \<and> rowsGot c \<ge> nodesNum c then (0, c)
      else (0, c\<lparr>m_handle := (m_handle c)(unat (nodesGot c) := hRecord), nodesGot := nodesGot c + 1, rowsGot := rowsGot c + rd32 m (hRecord + 1 + 4)\<rparr>))"

lemma Visit_collects:
  assumes "nodesNum c = 0" "unat (nodesGot c) + length (filter P xs) < 2 ^ 32"
  shows "\<exists>c'. visit_each P (Visit m) xs c = (0, c') \<and> nodesNum c' = 0 \<and> unat (nodesGot c') = unat (nodesGot c) + length (filter P xs) \<and>
    (\<forall>i < unat (nodesGot c). m_handle c' i = m_handle c i) \<and> (\<forall>i < length (filter P xs). m_handle c' (unat (nodesGot c) + i) = filter P xs ! i)"
  using assms
proof (induction xs arbitrary: c)
  case (Cons x xs)
  show ?case
  proof (cases "P x")
    case True
    define c1 where "c1 = c\<lparr>m_handle := (m_handle c)(unat (nodesGot c) := x), nodesGot := nodesGot c + 1, rowsGot := rowsGot c + rd32 m (x + 1 + 4)\<rparr>"
    have V: "Visit m x c = (0, c1)" using Cons.prems(1) by (simp add: Visit_def c1_def)
    have "unat (nodesGot c) + 1 < 2 ^ 32" using Cons.prems(2) True by simp
    then have u: "unat (nodesGot c1) = unat (nodesGot c) + 1" by (simp add: c1_def unat_word_ariths)
    obtain c' where c': "visit_each P (Visit m) xs c1 = (0, c')" "nodesNum c' = 0" "unat (nodesGot c') = unat (nodesGot c1) + length (filter P xs)"
      "\<forall>i < unat (nodesGot c1). m_handle c' i = m_handle c1 i" "\<forall>i < length (filter P xs). m_handle c' (unat (nodesGot c1) + i) = filter P xs ! i"
      using Cons.IH [of c1] Cons.prems True u by (auto simp: c1_def)
    have "m_handle c' (unat (nodesGot c) + i) = filter P (x # xs) ! i" if "i < length (filter P (x # xs))" for i
      using c'(4) c'(5) [rule_format, of "i - 1"] that True u by (cases i) (auto simp: c1_def)
    then show ?thesis using c' V True u by (auto simp: c1_def)
  qed (use Cons in simp)
qed simp

section \<open>Signed keys\<close>

text \<open>The keys of a signed integer field, and a range in which all differences fit an \<open>int\<close>.\<close>

definition signed_at :: "CmpCookie \<Rightarrow> memory \<Rightarrow> nat \<Rightarrow> int" where
  "signed_at ck m h = (if field_size ck > 4 then sint (rd64 m (index_key h)) else sint (rd32 m (index_key h)))"

definition near :: "int set" where
  "near = {k. - (2 ^ 30) \<le> k \<and> k < 2 ^ 30}"

definition signed_value :: "int \<Rightarrow> DTCValue" where
  "signed_value k = \<lparr>val64 = word_of_int k, val_str = []\<rparr>"

lemma sint_word_of_int_64: "- (2 ^ 63) \<le> i \<Longrightarrow> i < 2 ^ 63 \<Longrightarrow> sint (word_of_int i :: u64) = i"
  by (simp add: signed_of_int signed_take_bit_int_eq_self)

lemma sint_word_of_int_32: "- (2 ^ 31) \<le> i \<Longrightarrow> i < 2 ^ 31 \<Longrightarrow> sint (word_of_int i :: u32) = i"
  by (simp add: signed_of_int signed_take_bit_int_eq_self)

lemma other_signed: "sint (if field_size ck > 4 then rd64 m (index_key h) else scast (rd32 m (index_key h)) :: u64) = signed_at ck m h"
  by (simp add: signed_at_def sint_up_scast is_up)

lemma KeyCompare_signed:
  assumes "field_type ck = Signed" "k \<in> near" "signed_at ck m h \<in> near"
  shows "KeyCompare fo ck m (signed_value k) h = Some (word_of_int (k - signed_at ck m h))"
proof -
  let ?w = "if field_size ck > 4 then rd64 m (index_key h) else scast (rd32 m (index_key h)) :: u64"
  have w: "?w = word_of_int (signed_at ck m h)" by (simp only: other_signed [symmetric] of_int_sint scast_id)
  have k: "sint (word_of_int k :: u64) = k" using assms(2) by (intro sint_word_of_int_64) (auto simp: near_def)
  have "sint ?w = signed_at ck m h" by (rule other_signed)
  then show ?thesis using assms k by (simp add: KeyCompare_def signed_value_def w near_def Let_def)
qed

lemma near_diff:
  assumes "k \<in> near" "q \<in> near"
  shows "sint (ucast (word_of_int (k - q) :: u64) :: u32) = k - q" "(word_of_int (k - q) :: u64) = 0 \<longleftrightarrow> k = q"
proof -
  have b: "- (2 ^ 31) \<le> k - q" "k - q < 2 ^ 31" using assms by (auto simp: near_def)
  have "ucast (word_of_int (k - q) :: u64) = (word_of_int (k - q) :: u32)" by (rule bit_word_eqI) (simp add: bit_unsigned_iff bit_word_of_int_iff del: of_int_diff)
  then show "sint (ucast (word_of_int (k - q) :: u64) :: u32) = k - q" using sint_word_of_int_32 [OF b] by simp
  have "sint (word_of_int (k - q) :: u64) = k - q" by (rule sint_word_of_int_64) (use b in auto)
  then show "(word_of_int (k - q) :: u64) = 0 \<longleftrightarrow> k = q" by (metis diff_eq_diff_eq diff_self of_int_0 sint_0)
qed

text \<open>Outside the range the comparison fails: two keys that differ by \<open>2 ^ 32\<close> are equal for the tree.\<close>

lemma far_keys_collide:
  assumes "field_type ck = Signed" "signed_at ck m h = 0"
  shows "KeyCompare fo ck m (signed_value (2 ^ 32)) h = Some (2 ^ 32) \<and> sint (ucast (2 ^ 32 :: u64) :: u32) = 0"
proof -
  let ?w = "if field_size ck > 4 then rd64 m (index_key h) else scast (rd32 m (index_key h)) :: u64"
  have "?w = word_of_int (signed_at ck m h)" by (simp only: other_signed [symmetric] of_int_sint scast_id)
  then have "?w = 0" using assms(2) by simp
  then show ?thesis using assms by (simp add: KeyCompare_def signed_value_def Let_def)
qed

end
