(* ===== verification/T_Tree_Map.thy ===== *)
theory T_Tree_Map
  imports T_Tree_Read T_Tree_Delete "HOL-Library.Multiset"
begin

text \<open>
  The tree as a map from keys to records: every operation of \<open>Ttree\<close> implements an operation on the map. A
  traversal visits the records of its range in the order of their keys.
\<close>

section \<open>The map of a tree\<close>

definition tree_state :: "(nat set \<Rightarrow> (nat \<rightharpoonup> 'k :: linorder) \<Rightarrow> 'm \<Rightarrow> bool) \<Rightarrow> (nat \<rightharpoonup> 'k) \<Rightarrow> ('k \<rightharpoonup> nat) \<Rightarrow> nat \<Rightarrow> 'm tree_mem \<Rightarrow> bool" where
  "tree_state rel Q T r s \<longleftrightarrow> (\<exists>A t. rel A Q (heap s) \<and> rep (nodes s) t \<and> r = root t \<and> addrs t = A \<and> wf_tree Q t \<and>
     (\<forall>k x. T k = Some x \<longleftrightarrow> x \<in> set (inorder t) \<and> Q x = Some k))"

definition in_order :: "('k :: linorder \<rightharpoonup> nat) \<Rightarrow> 'k set \<Rightarrow> nat list" where
  "in_order T S = map (\<lambda>k. the (T k)) (sorted_list_of_set (dom T \<inter> S))"

lemma map_dom: 
  assumes "\<forall>k x. T k = Some x \<longleftrightarrow> x \<in> set (inorder t) \<and> Q x = Some k" "ordered Q (inorder t)"
  shows "dom T = keys Q t" "x \<in> set (inorder t) \<Longrightarrow> T (key Q x) = Some x"
proof -
  show a: "x \<in> set (inorder t) \<Longrightarrow> T (key Q x) = Some x" for x using assms ordered_dom by blast
  show "dom T = keys Q t" using a assms(1) by (force simp: keys_def)
qed

lemma ordered_filter: "ordered Q xs \<Longrightarrow> ordered Q (filter P xs)"
  by (induction xs) auto

lemma visit_filter: "visit_each P vis xs c = visit_each (\<lambda>_. True) vis (filter P xs) c"
  by (induction xs arbitrary: c) (auto split: prod.split)

lemma in_order_inorder:
  assumes "\<forall>k x. T k = Some x \<longleftrightarrow> x \<in> set (inorder t) \<and> Q x = Some k" "ordered Q (inorder t)"
  shows "in_order T S = filter (\<lambda>x. key Q x \<in> S) (inorder t)"
proof -
  let ?xs = "filter (\<lambda>x. key Q x \<in> S) (inorder t)"
  have o: "ordered Q ?xs" using ordered_filter assms(2) by blast
  have "set (map (key Q) ?xs) = dom T \<inter> S" using map_dom(1) [OF assms] by (auto simp: keys_def)
  moreover have "sorted_wrt (<) (map (key Q) ?xs)" using o by (simp add: ordered_def sorted_wrt_map)
  ultimately have "sorted_list_of_set (dom T \<inter> S) = map (key Q) ?xs" by (metis sorted_list_of_set.idem_if_sorted_distinct strict_sorted_iff)
  then have "in_order T S = map (\<lambda>x. the (T (key Q x))) ?xs" by (simp add: in_order_def)
  moreover have "map (\<lambda>x. the (T (key Q x))) ?xs = map (\<lambda>x. x) ?xs" by (rule map_cong [OF refl]) (use map_dom(2) [OF assms] in auto)
  ultimately show ?thesis by simp
qed

lemma tree_stateE:
  assumes "tree_state rel Q T r s"
  obtains A t where "rel A Q (heap s)" "rep (nodes s) t" "r = root t" "addrs t \<subseteq> A" "wf_tree Q t" "\<forall>k x. T k = Some x \<longleftrightarrow> x \<in> set (inorder t) \<and> Q x = Some k"
    "dom T = keys Q t" "r = 0 \<longleftrightarrow> t = Tip" "avl t" "filled t" "ordered Q (inorder t)" "\<forall>S. in_order T S = filter (\<lambda>x. key Q x \<in> S) (inorder t)" "A = addrs t"
proof -
  obtain A t where t: "rel A Q (heap s)" "rep (nodes s) t" "r = root t" "addrs t \<subseteq> A" "wf_tree Q t" "\<forall>k x. T k = Some x \<longleftrightarrow> x \<in> set (inorder t) \<and> Q x = Some k"
    and A: "A = addrs t" using assms unfolding tree_state_def by blast
  have o: "avl t" "filled t" "ordered Q (inorder t)" using t(5) by (auto simp: wf_tree_def)
  show thesis by (rule that [OF t]) (use t o map_dom(1) [OF t(6) o(3)] in_order_inorder [OF t(6) o(3)] A in auto)
qed

lemma tree_stateI:
  "rel A Q (heap s) \<Longrightarrow> rep (nodes s) t \<Longrightarrow> r = root t \<Longrightarrow> addrs t = A \<Longrightarrow> avl t \<Longrightarrow> filled t \<Longrightarrow> ordered Q (inorder t) \<Longrightarrow>
   (\<And>k x. T k = Some x \<longleftrightarrow> x \<in> set (inorder t) \<and> Q x = Some k) \<Longrightarrow> tree_state rel Q T r s"
  unfolding tree_state_def wf_tree_def by blast

context tree_memory
begin

section \<open>Changes\<close>

theorem Insert_map:
  assumes s: "tree_state rel Q T r s" and k: "Q hr = Some k"
  shows "\<exists>rc r' s'. tree_Insert E k hr r s = Some (rc, r', s') \<and>
    (rc = 0 \<and> T k = None \<and> tree_state rel Q (T(k \<mapsto> hr)) r' s' \<or>
     rc = EC_KEY_EXIST \<and> T k \<noteq> None \<and> r' = r \<and> s' = s \<or>
     rc = EC_NO_MEM \<and> T k = None \<and> (\<exists>m. Malloc E (heap s) = Some (0, m)) \<and> r' = r \<and> nodes s' = nodes s \<and> tree_state rel Q T r' s')"
proof -
  obtain A t where t: "rel A Q (heap s)" "rep (nodes s) t" "r = root t" "addrs t \<subseteq> A" "wf_tree Q t" "\<forall>k x. T k = Some x \<longleftrightarrow> x \<in> set (inorder t) \<and> Q x = Some k"
    "dom T = keys Q t" "r = 0 \<longleftrightarrow> t = Tip" "avl t" "filled t" "ordered Q (inorder t)" "A = addrs t" by (rule tree_stateE [OF s])
  have grown: "tree_state rel Q (T(k \<mapsto> hr)) (root t') s'" if a: "adds rel A Q hr t s s' t'" "avl t'" "k \<notin> keys Q t" for s' t'
  proof (rule tree_stateI [of rel "A \<union> addrs t'" Q s' t'])
    have "T k = None" using that(3) t(7) by auto
    then have "\<not> (x \<in> set (inorder t) \<and> Q x = Some k)" for x using t(6) [rule_format, of k x] by simp
    moreover have "set (inorder t') = insert hr (set (inorder t))" using a(1) by (simp add: adds_def)
    ultimately show "((T(k \<mapsto> hr)) j = Some x) = (x \<in> set (inorder t') \<and> Q x = Some j)" for j x
      using t(6) k by (cases "j = k") auto
  qed (use a t(12) in \<open>auto simp: adds_def\<close>)
  have miss: "T k = None \<longleftrightarrow> k \<notin> keys Q t" using t(7) by auto
  show ?thesis
  proof (cases "t = Tip")
    case True
    from alloc_ok [OF t(1) k] show ?thesis
    proof (elim disjE exE conjE)
      fix m' assume m': "node_Alloc E hr s = Some (0, s\<lparr>heap := m'\<rparr>)" "rel A Q m'"
      have "tree_state rel Q T r (s\<lparr>heap := m'\<rparr>)" by (rule tree_stateI [of rel A Q _ t]) (use t m' in auto)
      then show ?thesis using m'(1) t(8) True miss alloc_none [OF m'(1)] by (simp add: tree_Insert_def keys_def)
    next
      fix h s1 assume s1: "node_Alloc E hr s = Some (h, s1)" "h \<noteq> 0" "adds rel A Q hr Tip s (s1\<lparr>node_flag := True\<rparr>) (Nd Tip h 0 [hr] Tip)"
      have "tree_state rel Q (T(k \<mapsto> hr)) h (s1\<lparr>node_flag := True\<rparr>)" using grown [of "s1\<lparr>node_flag := True\<rparr>" "Nd Tip h 0 [hr] Tip"] s1(3) True by (simp add: keys_def)
      then show ?thesis using s1(1,2) t(8) True miss by (simp add: tree_Insert_def keys_def)
    qed
  next
    case False
    obtain g h s' where g: "node_Insert E k hr r s = Some (g, h, s')" "inserts rel A Q hr t s g h s'" using Insert_ok [OF t(1,2) False t(4,5) k] t(3) by blast
    from g(2) consider "g = - 2" "k \<in> keys Q t" "s' = s" | "g = - 1" "k \<notin> keys Q t" "nodes s' = nodes s" "rel A Q (heap s')"
      | t' where "g = 0 \<or> g = 1" "k \<notin> keys Q t" "adds rel A Q hr t s s' t'" "h = root t'" "avl t'" using k by (auto simp: inserts_def)
    then show ?thesis
    proof cases
      case 1
      then show ?thesis using g(1) t(8) False miss by (simp add: tree_Insert_def EC_KEY_EXIST_def EC_NO_MEM_def)
    next
      case 2
      have "tree_state rel Q T r s'" by (rule tree_stateI [of rel A Q _ t]) (use t 2 in auto)
      moreover have "\<exists>m. Malloc E (heap s) = Some (0, m)" using short_of_memory [OF g(1)] 2(1) by (simp add: fails_only_def)
      ultimately show ?thesis using g(1) t(8) False miss 2 by (simp add: tree_Insert_def)
    next
      case 3
      then show ?thesis using g(1) t(8) False miss grown [OF 3(3,5,2)] by (auto simp: tree_Insert_def)
    qed
  qed
qed

theorem Delete_map:
  assumes s: "tree_state rel Q T r s" and k: "k \<in> K"
  shows "\<exists>rc r' s'. tree_Delete E k r s = Some (rc, r', s') \<and>
    (if T k = None then rc = (if r = 0 then 0 else - 1) \<and> r' = r \<and> s' = s else rc = 0 \<and> tree_state rel Q (T(k := None)) r' s')"
proof -
  obtain A t where t: "rel A Q (heap s)" "rep (nodes s) t" "r = root t" "addrs t \<subseteq> A" "wf_tree Q t" "\<forall>k x. T k = Some x \<longleftrightarrow> x \<in> set (inorder t) \<and> Q x = Some k"
    "dom T = keys Q t" "r = 0 \<longleftrightarrow> t = Tip" "avl t" "filled t" "ordered Q (inorder t)" "A = addrs t" by (rule tree_stateE [OF s])
  have miss: "T k = None \<longleftrightarrow> k \<notin> keys Q t" using t(7) by auto
  show ?thesis
  proof (cases "t = Tip")
    case True
    then show ?thesis using t(8) miss by (simp add: tree_Delete_def keys_def)
  next
    case False
    obtain g h s' where g: "node_Delete E k r s = Some (g, h, s')" "deletes rel A Q k t s g h s'" using Delete_ok [OF t(1,2) False t(4,5) k] t(3) by blast
    show ?thesis
    proof (cases "k \<in> keys Q t")
      case True
      obtain x t' where x: "g = 0 \<or> g = 1" "x \<in> set (inorder t)" "key Q x = k" "removes rel A Q x t s s' t'" "h = root t'" "avl t'" by (rule deletesE [OF g(2) True])
      have "tree_state rel Q (T(k := None)) h s'"
      proof (rule tree_stateI [of rel "A - (addrs t - addrs t')" Q s' t'])
        fix j y
        have "y \<in> set (inorder t) - {x} \<longleftrightarrow> y \<in> set (inorder t) \<and> key Q y \<noteq> k" using ordered_inj [OF t(11), of y x] x(2,3) by auto
        then show "((T(k := None)) j = Some y) = (y \<in> set (inorder t') \<and> Q y = Some j)" using x(4) t(6) by (auto simp: removes_def)
      qed (use x t(12) in \<open>auto simp: removes_def\<close>)
      then show ?thesis using g(1) t(8) False True miss x(1) by (auto simp: tree_Delete_def)
    next
      case no: False
      then have "g = - 1" "s' = s" using g(2) by (auto simp: deletes_def keys_def)
      then show ?thesis using g(1) t(8) False no miss by (simp add: tree_Delete_def)
    qed
  qed
qed

theorem Destroy_map:
  assumes "tree_state rel Q T r s"
  shows "\<exists>s'. tree_Destroy E r s = Some (0, 0, s') \<and> tree_state rel (Q |` (- ran T)) Map.empty 0 s'"
proof -
  obtain A t where t: "rel A Q (heap s)" "rep (nodes s) t" "r = root t" "addrs t \<subseteq> A" "wf_tree Q t" "\<forall>k x. T k = Some x \<longleftrightarrow> x \<in> set (inorder t) \<and> Q x = Some k"
    "dom T = keys Q t" "r = 0 \<longleftrightarrow> t = Tip" "avl t" "filled t" "ordered Q (inorder t)" "A = addrs t" by (rule tree_stateE [OF assms])
  have "set (inorder t) \<subseteq> dom Q" using t(11) by (simp add: ordered_def)
  then obtain s' where s': "node_Destroy E r s = Some s'" "rel (A - addrs t) (Q |` (- set (inorder t))) (heap s')"
    using Destroy_ok [OF t(1,2,10,4) _ ordered_distinct [OF t(11)]] t(3) by blast
  have "ran T = set (inorder t)" using t(6,11) ordered_dom [OF t(11)] by (auto simp: ran_def)
  then have "tree_state rel (Q |` (- ran T)) Map.empty 0 s'"
    by (intro tree_stateI [of rel "A - addrs t" _ s' Tip]) (use s' t(12) in auto)
  then show ?thesis using s'(1) by (simp add: tree_Destroy_def)
qed

section \<open>Searches\<close>

theorem Find_map:
  assumes s: "tree_state rel Q T r s" and k: "k \<in> K"
  shows "tree_Find_record E k r s = Some (case T k of Some x \<Rightarrow> (1, x) | None \<Rightarrow> (0, 0))"
proof -
  obtain A t where t: "rel A Q (heap s)" "rep (nodes s) t" "r = root t" "addrs t \<subseteq> A" "wf_tree Q t" "\<forall>k x. T k = Some x \<longleftrightarrow> x \<in> set (inorder t) \<and> Q x = Some k"
    "dom T = keys Q t" "r = 0 \<longleftrightarrow> t = Tip" "avl t" "filled t" "ordered Q (inorder t)" "A = addrs t" by (rule tree_stateE [OF s])
  show ?thesis
  proof (cases "t = Tip")
    case True
    then have "T k = None" using t(7) by (auto simp: keys_def)
    then show ?thesis using t(8) True by (simp add: tree_Find_record_def)
  next
    case False
    from Find_ok [OF t(1,2) False t(5) k] show ?thesis
    proof (elim disjE exE conjE)
      assume f: "k \<notin> keys Q t" "node_Find E k (root t) s = Some (0, None)"
      then have "T k = None" using t(7) by auto
      then show ?thesis using f(2) t(3,8) False by (simp add: tree_Find_record_def node_Find_record_def)
    next
      fix a i n x assume f: "node_Find E k (root t) s = Some (1, Some (a, i))" "nodes s a = Some n" "item n i = Some x" "x \<in> set (inorder t)" "key Q x = k"
      then have "T k = Some x" using map_dom(2) [OF t(6,11)] by auto
      then show ?thesis using f t(3,8) False by (simp add: tree_Find_record_def node_Find_record_def)
    qed
  qed
qed

lemma find_handle_map:
  assumes "tree_state rel Q T r s"
  shows "tree_find_handle x r s = Some (if x \<in> ran T then 1 else 0)"
proof -
  obtain A t where t: "rep (nodes s) t" "r = root t" "\<forall>k x. T k = Some x \<longleftrightarrow> x \<in> set (inorder t) \<and> Q x = Some k"
    "r = 0 \<longleftrightarrow> t = Tip" "filled t" "ordered Q (inorder t)" by (rule tree_stateE [OF assms])
  have "ran T = set (inorder t)" using t(3,6) ordered_dom [OF t(6)] by (auto simp: ran_def)
  then show ?thesis using find_handle_ok [OF t(1,5), of x] t(2,4) by (auto simp: tree_find_handle_def)
qed

end

section \<open>Traversals\<close>

lemma mset_orders: "mset (right_left_node t) = mset (inorder t)" "mset (left_right_node t) = mset (inorder t)"
  by (induction t) auto

context tree_memory
begin

theorem traverse_map:
  assumes s: "tree_state rel Q T r s"
  shows "tree_traverse_forward vis r s c = Some (visit_each (\<lambda>_. True) vis (in_order T UNIV) c)"
    "tree_traverse_backward vis r s c = Some (visit_each (\<lambda>_. True) vis (rev (in_order T UNIV)) c)"
    "\<exists>xs. mset xs = mset (in_order T UNIV) \<and> tree_post_order_traverse vis r s c = Some (visit_each (\<lambda>_. True) vis xs c)"
proof -
  obtain A t where t: "rep (nodes s) t" "r = root t" "r = 0 \<longleftrightarrow> t = Tip" "filled t" "\<forall>S. in_order T S = filter (\<lambda>x. key Q x \<in> S) (inorder t)" by (rule tree_stateE [OF s])
  have i: "in_order T UNIV = inorder t" using t(5) [rule_format, of UNIV] by simp
  show "tree_traverse_forward vis r s c = Some (visit_each (\<lambda>_. True) vis (in_order T UNIV) c)"
    using traverse_forward_ok [OF t(1,4)] t(2,3) i by (auto simp: tree_traverse_forward_def)
  show "tree_traverse_backward vis r s c = Some (visit_each (\<lambda>_. True) vis (rev (in_order T UNIV)) c)"
    using traverse_backward_ok [OF t(1,4)] t(2,3) i by (auto simp: tree_traverse_backward_def)
  show "\<exists>xs. mset xs = mset (in_order T UNIV) \<and> tree_post_order_traverse vis r s c = Some (visit_each (\<lambda>_. True) vis xs c)"
    using post_order_traverse_ok [OF t(1,4), of vis c] t(2,3) i mset_orders(1) [of t]
    by (intro exI [of _ "right_left_node t"]) (auto simp: tree_post_order_traverse_def)
qed

theorem range_map:
  assumes s: "tree_state rel Q T r s" and k: "k \<in> K"
  shows "tree_forward_ge E k vis r s c = Some (visit_each (\<lambda>_. True) vis (in_order T {k..}) c)"
    "tree_backward_le E k vis r s c = Some (visit_each (\<lambda>_. True) vis (rev (in_order T {..k})) c)"
    "k1 \<in> K \<Longrightarrow> tree_forward_range E k k1 vis r s c = Some (visit_each (\<lambda>_. True) vis (in_order T {k..k1}) c)"
    "k1 \<in> K \<Longrightarrow> tree_backward_range E k k1 vis r s c = Some (visit_each (\<lambda>_. True) vis (rev (in_order T {k..k1})) c)"
proof -
  obtain A t where t: "rel A Q (heap s)" "rep (nodes s) t" "r = root t" "wf_tree Q t" "r = 0 \<longleftrightarrow> t = Tip" "\<forall>S. in_order T S = filter (\<lambda>x. key Q x \<in> S) (inorder t)"
    by (rule tree_stateE [OF s])
  note ok = t(1,2,4) k
  show "tree_forward_ge E k vis r s c = Some (visit_each (\<lambda>_. True) vis (in_order T {k..}) c)"
    using traverse_forward_ge_ok [OF ok] t(3,5) by (auto simp: tree_forward_ge_def t(6) visit_filter [of "\<lambda>x. k \<le> key Q x"])
  show "tree_backward_le E k vis r s c = Some (visit_each (\<lambda>_. True) vis (rev (in_order T {..k})) c)"
    using traverse_backward_le_ok [OF ok] t(3,5) by (auto simp: tree_backward_le_def t(6) visit_filter [of "\<lambda>x. key Q x \<le> k"] rev_filter)
  show "tree_forward_range E k k1 vis r s c = Some (visit_each (\<lambda>_. True) vis (in_order T {k..k1}) c)" if "k1 \<in> K"
    using traverse_forward_range_ok [OF ok that] t(3,5) by (auto simp: tree_forward_range_def t(6) visit_filter [of "\<lambda>x. k \<le> key Q x \<and> key Q x \<le> k1"])
  show "tree_backward_range E k k1 vis r s c = Some (visit_each (\<lambda>_. True) vis (rev (in_order T {k..k1})) c)" if "k1 \<in> K"
    using traverse_backward_range_ok [OF ok that] t(3,5) by (auto simp: tree_backward_range_def t(6) visit_filter [of "\<lambda>x. k \<le> key Q x \<and> key Q x \<le> k1"] rev_filter)
qed

theorem post_range_map:
  assumes s: "tree_state rel Q T r s" and k: "k \<in> K"
  shows "\<exists>xs. mset xs = mset (in_order T {k..}) \<and> tree_post_ge E k vis r s c = Some (visit_each (\<lambda>_. True) vis xs c)"
    "\<exists>xs. mset xs = mset (in_order T {..k}) \<and> tree_post_le E k vis r s c = Some (visit_each (\<lambda>_. True) vis xs c)"
    "k1 \<in> K \<Longrightarrow> \<exists>xs. mset xs = mset (in_order T {k..k1}) \<and> tree_post_range E k k1 vis r s c = Some (visit_each (\<lambda>_. True) vis xs c)"
proof -
  obtain A t where t: "rel A Q (heap s)" "rep (nodes s) t" "r = root t" "wf_tree Q t" "r = 0 \<longleftrightarrow> t = Tip" "\<forall>S. in_order T S = filter (\<lambda>x. key Q x \<in> S) (inorder t)"
    by (rule tree_stateE [OF s])
  note ok = t(1,2,4) k
  have m: "mset (filter P (left_right_node t)) = mset (filter P (inorder t))" "mset (filter P (right_left_node t)) = mset (filter P (inorder t))" for P
    using mset_orders [of t] by simp_all
  show "\<exists>xs. mset xs = mset (in_order T {k..}) \<and> tree_post_ge E k vis r s c = Some (visit_each (\<lambda>_. True) vis xs c)"
    using post_order_traverse_ge_ok [OF ok, of vis c] t(3,5) m(1) [of "\<lambda>x. k \<le> key Q x"]
    by (intro exI [of _ "filter (\<lambda>x. k \<le> key Q x) (left_right_node t)"]) (auto simp: tree_post_ge_def t(6) visit_filter [of "\<lambda>x. k \<le> key Q x"])
  show "\<exists>xs. mset xs = mset (in_order T {..k}) \<and> tree_post_le E k vis r s c = Some (visit_each (\<lambda>_. True) vis xs c)"
    using post_order_traverse_le_ok [OF ok, of vis c] t(3,5) m(2) [of "\<lambda>x. key Q x \<le> k"]
    by (intro exI [of _ "filter (\<lambda>x. key Q x \<le> k) (right_left_node t)"]) (auto simp: tree_post_le_def t(6) visit_filter [of "\<lambda>x. key Q x \<le> k"])
  show "\<exists>xs. mset xs = mset (in_order T {k..k1}) \<and> tree_post_range E k k1 vis r s c = Some (visit_each (\<lambda>_. True) vis xs c)" if "k1 \<in> K"
    using post_order_traverse_range_ok [OF ok that, of vis c] t(3,5) m(1) [of "\<lambda>x. k \<le> key Q x \<and> key Q x \<le> k1"]
    by (intro exI [of _ "filter (\<lambda>x. k \<le> key Q x \<and> key Q x \<le> k1) (left_right_node t)"])
      (auto simp: tree_post_range_def t(6) visit_filter [of "\<lambda>x. k \<le> key Q x \<and> key Q x \<le> k1"])
qed

end

end
