(* ===== verification/Tree_Heap.thy ===== *)
theory Tree_Heap
  imports T_Tree_Key T_Tree_Map Bin_Run
begin

text \<open>
  The tree in the memory of the allocator: nodes and records are chunks of the allocator in one of its reachable states,
  and keys are signed integers. Here the interface of the tree is provided, and the operations of the tree are
  shown to implement a map from keys to records.
\<close>

section \<open>The environment\<close>

text \<open>\<open>sizeof(TtreeNode)\<close>: the structure is packed.\<close>

definition TTREE_NODE_SIZE :: nat where "TTREE_NODE_SIZE = 8 + 8 + 1 + 2 + 20 * 8"

definition signed_env :: "float_ops \<Rightarrow> CmpCookie \<Rightarrow> (int, bin_malloc) tree_env" where
  "signed_env fo ck = \<lparr>Malloc = bm_Malloc TTREE_NODE_SIZE, Free = bm_Free, size_of = (\<lambda>m h. chunk_size h m),
     pfComp = (\<lambda>m k h. case KeyCompare fo ck (chunks m) (signed_value k) h of Some d \<Rightarrow> d | None \<Rightarrow> 0),
     cvalue = (\<lambda>m h. case convert_cvalue fo ck (chunks m) h (signed_value 0) of Some v \<Rightarrow> sint (val64 v) | None \<Rightarrow> 0)\<rparr>"

text \<open>The record with the bytes \<open>bs\<close> has the key \<open>q\<close>.\<close>

definition record_key :: "CmpCookie \<Rightarrow> byte list \<Rightarrow> int \<Rightarrow> bool" where
  "record_key ck bs q \<longleftrightarrow> 18 \<le> length bs \<and> signed_at ck (\<lambda>i. bs ! i) 0 = q \<and> q \<in> near"

text \<open>The memory holds the byte strings \<open>others\<close> of other owners, the nodes \<open>A\<close> and the records with the keys \<open>Q\<close>, each of its own, and nothing else.\<close>

definition signed_rel :: "CmpCookie \<Rightarrow> (nat \<rightharpoonup> byte list) \<Rightarrow> nat set \<Rightarrow> (nat \<rightharpoonup> int) \<Rightarrow> bin_malloc \<Rightarrow> bool" where
  "signed_rel ck others A Q m \<longleftrightarrow> field_type ck = Signed \<and> (\<exists>C. bm_run C m \<and> dom C = dom others \<union> A \<union> dom Q \<and> dom others \<inter> (A \<union> dom Q) = {} \<and> A \<inter> dom Q = {} \<and>
     (\<forall>h bs. others h = Some bs \<longrightarrow> C h = Some bs) \<and> (\<forall>h q. Q h = Some q \<longrightarrow> (\<exists>bs. C h = Some bs \<and> record_key ck bs q)))"

lemma signed_relE:
  assumes "signed_rel ck others A Q m"
  obtains C where "bm_run C m" "dom C = dom others \<union> A \<union> dom Q" "dom others \<inter> (A \<union> dom Q) = {}" "A \<inter> dom Q = {}"
    "\<forall>h bs. others h = Some bs \<longrightarrow> C h = Some bs" "\<forall>h q. Q h = Some q \<longrightarrow> (\<exists>bs. C h = Some bs \<and> record_key ck bs q)" "field_type ck = Signed"
  using assms unfolding signed_rel_def by blast

lemma signed_relI:
  "bm_run C m \<Longrightarrow> dom C = dom others \<union> A \<union> dom Q \<Longrightarrow> dom others \<inter> (A \<union> dom Q) = {} \<Longrightarrow> A \<inter> dom Q = {} \<Longrightarrow>
   \<forall>h bs. others h = Some bs \<longrightarrow> C h = Some bs \<Longrightarrow> \<forall>h q. Q h = Some q \<longrightarrow> (\<exists>bs. C h = Some bs \<and> record_key ck bs q) \<Longrightarrow> field_type ck = Signed \<Longrightarrow>
   signed_rel ck others A Q m"
  unfolding signed_rel_def by blast

lemma run_bytes:
  assumes "bm_run C m" "C h = Some bs"
  shows "i < length bs \<Longrightarrow> chunks m (h + i) = bs ! i" "h \<noteq> 0"
proof -
  obtain L B where b: "bm_inv m L B" "holds C m L" using run_holds [OF assms(1)] by blast
  obtain k where k: "owned L h = Some k" "bs = contents h (length bs) (chunks m)" by (rule holdsD [OF b(2) assms(2)])
  show "i < length bs \<Longrightarrow> chunks m (h + i) = bs ! i" using k(2) by (metis contents_nth)
  show "h \<noteq> 0" using owned_disjoint(1) [OF _ k(1) k(1)] b(1) by (fastforce simp: bm_inv_def)
qed

lemma signed_at_shift: "(\<And>i. i < 18 \<Longrightarrow> m (h + i) = m' i) \<Longrightarrow> signed_at ck m h = signed_at ck m' 0"
proof -
  assume a: "\<And>i. i < 18 \<Longrightarrow> m (h + i) = m' i"
  have "ld n m (h + j) = ld n m' j" if "n + j \<le> 18" for n j
    using that
  proof (induction n arbitrary: j)
    case (Suc n)
    then show ?case using a [of j] Suc.IH [of "Suc j"] by simp
  qed simp
  from this [of 8 10] this [of 4 10] show ?thesis by (simp add: signed_at_def rd64_def rd32_def index_key_def add.commute [of h])
qed

lemma signed_rel_key:
  assumes "signed_rel ck others A Q m" "Q h = Some q"
  shows "signed_at ck (chunks m) h = q" "q \<in> near"
proof -
  obtain C bs where C: "bm_run C m" "C h = Some bs" "record_key ck bs q" using assms unfolding signed_rel_def by blast
  have "signed_at ck (chunks m) h = signed_at ck (\<lambda>i. bs ! i) 0"
    by (rule signed_at_shift) (use run_bytes(1) [OF C(1,2)] C(3) in \<open>simp add: record_key_def\<close>)
  then show "signed_at ck (chunks m) h = q" "q \<in> near" using C(3) by (auto simp: record_key_def)
qed

lemma malloc_fresh:
  assumes "bm_run C m" "bm_Malloc n m = Some (h, m')" "h \<noteq> 0"
  shows "h \<notin> dom C" "bm_run (C(h \<mapsto> contents h n (chunks m'))) m'"
proof -
  obtain L B where b: "bm_inv m L B" "holds C m L" using run_holds [OF assms(1)] by blast
  have "owned L h = None" by (rule bm_Malloc_ok [OF b(1), of n]) (use assms(2,3) in auto)
  then show "h \<notin> dom C" using b(2) by (auto simp: holds_def dom_def)
  show "bm_run (C(h \<mapsto> contents h n (chunks m'))) m'" using bm_run.malloc [OF assms(1,2)] assms(3) by simp
qed

lemma signed_malloc:
  assumes "signed_rel ck others A Q m"
  shows "\<exists>h m'. bm_Malloc n m = Some (h, m') \<and> (if h = 0 then signed_rel ck others A Q m' else h \<notin> A \<and> signed_rel ck others (insert h A) Q m')"
proof -
  obtain C where C: "bm_run C m" "dom C = dom others \<union> A \<union> dom Q" "dom others \<inter> (A \<union> dom Q) = {}" "A \<inter> dom Q = {}"
    "\<forall>h bs. others h = Some bs \<longrightarrow> C h = Some bs" "\<forall>h q. Q h = Some q \<longrightarrow> (\<exists>bs. C h = Some bs \<and> record_key ck bs q)" "field_type ck = Signed"
    by (rule signed_relE [OF assms])
  obtain L B where b: "bm_inv m L B" "holds C m L" using run_holds [OF C(1)] by blast
  obtain h m' where h: "bm_Malloc n m = Some (h, m')" by (rule bm_Malloc_ok [OF b(1), of n]) auto
  show ?thesis
  proof (cases "h = 0")
    case True
    then have "bm_run C m'" using bm_run.no_malloc [OF C(1), of n m'] h by simp
    then have "signed_rel ck others A Q m'" by (rule signed_relI) (use C in auto)
    then show ?thesis using h True by simp
  next
    case False
    note f = malloc_fresh [OF C(1) h False]
    have "signed_rel ck others (insert h A) Q m'" by (rule signed_relI [OF f(2)]) (use C f(1) in auto)
    then show ?thesis using h False f(1) C(2) by auto
  qed
qed

lemma signed_free:
  assumes "signed_rel ck others A Q m" "h \<in> A \<or> h \<in> dom Q"
  shows "\<exists>m'. bm_Free h m = Some (0, m') \<and> signed_rel ck others (A - {h}) (Q(h := None)) m'"
proof -
  obtain C where C: "bm_run C m" "dom C = dom others \<union> A \<union> dom Q" "dom others \<inter> (A \<union> dom Q) = {}" "A \<inter> dom Q = {}"
    "\<forall>h bs. others h = Some bs \<longrightarrow> C h = Some bs" "\<forall>h q. Q h = Some q \<longrightarrow> (\<exists>bs. C h = Some bs \<and> record_key ck bs q)" "field_type ck = Signed"
    by (rule signed_relE [OF assms(1)])
  obtain bs where bs: "C h = Some bs" using assms(2) C(2) by blast
  obtain L B where b: "bm_inv m L B" "holds C m L" using run_holds [OF C(1)] by blast
  obtain k where k: "owned L h = Some k" using holdsD [OF b(2) bs] by blast
  obtain m' where f: "bm_Free h m = Some (0, m')" by (rule bm_Free_ok [OF b(1) k])
  have "others h = None" using assms(2) C(3) by blast
  then have "signed_rel ck others (A - {h}) (Q(h := None)) m'"
    by (intro signed_relI [OF bm_run.free [OF C(1) bs f]]) (use C assms(2) in \<open>auto split: if_splits\<close>)
  then show ?thesis using f by blast
qed

lemma signed_apart: "signed_rel ck others A Q m \<Longrightarrow> A \<inter> dom Q = {}"
  by (auto simp: signed_rel_def)

lemma signed_no_null: 
  assumes "signed_rel ck others A Q m"
  shows "0 \<notin> A"
proof
  assume "0 \<in> A"
  then obtain C bs where "bm_run C m" "C 0 = Some bs" using assms unfolding signed_rel_def by blast
  then show False using run_bytes(2) by blast
qed

lemma signed_free_node:
  assumes "signed_rel ck others A Q m" "h \<in> A"
  shows "\<exists>m'. bm_Free h m = Some (0, m') \<and> signed_rel ck others (A - {h}) Q m'"
proof -
  have "Q(h := None) = Q" using signed_apart [OF assms(1)] assms(2) by (auto simp: fun_upd_idem_iff domIff)
  then show ?thesis using signed_free [OF assms(1), of h] assms(2) by simp
qed

lemma signed_free_record:
  assumes "signed_rel ck others A Q m" "Q h = Some q"
  shows "\<exists>m'. bm_Free h m = Some (0, m') \<and> signed_rel ck others A (Q(h := None)) m'"
proof -
  have "A - {h} = A" using signed_apart [OF assms(1)] assms(2) by auto
  then show ?thesis using signed_free [OF assms(1), of h] assms(2) by auto
qed

interpretation sg: tree_memory "signed_env fo ck" near "signed_rel ck others"
proof
  fix A Q m h q k
  show "signed_rel ck others A Q m \<Longrightarrow> 0 \<notin> A" by (rule signed_no_null)
  show "signed_rel ck others A Q m \<Longrightarrow> \<exists>h m'. Malloc (signed_env fo ck) m = Some (h, m') \<and> (if h = 0 then signed_rel ck others A Q m' else h \<notin> A \<and> signed_rel ck others (insert h A) Q m')"
    using signed_malloc by (simp add: signed_env_def)
  show "signed_rel ck others A Q m \<Longrightarrow> h \<in> A \<Longrightarrow> \<exists>rc m'. Free (signed_env fo ck) h m = Some (rc, m') \<and> signed_rel ck others (A - {h}) Q m'"
    using signed_free_node [of ck others A Q m h] by (auto simp: signed_env_def)
  show "signed_rel ck others A Q m \<Longrightarrow> Q h = Some q \<Longrightarrow> \<exists>rc m'. Free (signed_env fo ck) h m = Some (rc, m') \<and> signed_rel ck others A (Q(h := None)) m'"
    using signed_free_record [of ck others A Q m h q] by (auto simp: signed_env_def)
  assume r: "signed_rel ck others A Q m" and q: "Q h = Some q"
  note key = signed_rel_key [OF r q]
  have t: "field_type ck = Signed" using r by (simp add: signed_rel_def)
  have D: "pfComp (signed_env fo ck) m k h = word_of_int (k - q)" if "k \<in> near" for k
    using KeyCompare_signed [OF t that, of "chunks m" h fo] key by (simp add: signed_env_def)
  show "(iDiff (signed_env fo ck) m k h < 0) = (k < q) \<and> (iDiff (signed_env fo ck) m k h = 0) = (k = q)" if "k \<in> near"
    using D [OF that] near_diff(1) [OF that key(2)] by (auto simp: iDiff_def)
  show "(pfComp (signed_env fo ck) m k h = 0) = (k = q)" if "k \<in> near" using D [OF that] near_diff(2) [OF that key(2)] by simp
  show "cvalue (signed_env fo ck) m h = q \<and> q \<in> near"
    using key t other_signed [of ck "chunks m" h] by (simp add: signed_env_def convert_cvalue_def)
qed

section \<open>Runs\<close>

definition put_bytes :: "nat \<Rightarrow> byte list \<Rightarrow> bin_malloc \<Rightarrow> bin_malloc" where
  "put_bytes h bs m = m\<lparr>chunks := (\<lambda>x. if h \<le> x \<and> x < h + length bs then bs ! (x - h) else chunks m x)\<rparr>"

lemma put_bytes_run:
  assumes "bm_run C m" "C h = Some bs" "length ws = length bs"
  shows "bm_run (C(h \<mapsto> ws)) (put_bytes h ws m)"
proof -
  have "bm_run (C(h \<mapsto> take n ws @ drop n bs)) (put_bytes h (take n ws) m)" if "n \<le> length ws" for n
    using that
  proof (induction n)
    case 0
    have "(\<lambda>x. if h \<le> x \<and> x < h + length [] then [] ! (x - h) else chunks m x) = chunks m" by (rule ext) auto
    then have "put_bytes h [] m = m" by (simp only: put_bytes_def) simp
    then show ?case using assms by (simp add: fun_upd_idem)
  next
    case (Suc n)
    let ?C = "C(h \<mapsto> take n ws @ drop n bs)" and ?m = "put_bytes h (take n ws) m"
    have "bm_run (?C(h \<mapsto> (take n ws @ drop n bs)[n := ws ! n])) (?m\<lparr>chunks := (chunks ?m)(h + n := ws ! n)\<rparr>)"
      by (rule bm_run.store [OF Suc.IH]) (use Suc.prems assms(3) in auto)
    moreover have "(take n ws @ drop n bs)[n := ws ! n] = take (Suc n) ws @ drop (Suc n) bs"
      using Suc.prems assms(3) by (simp add: list_update_append take_Suc_conv_app_nth Cons_nth_drop_Suc [symmetric])
    moreover have "(chunks ?m)(h + n := ws ! n) = chunks (put_bytes h (take (Suc n) ws) m)"
      by (rule ext) (use Suc.prems in \<open>auto simp: put_bytes_def nth_append take_Suc_conv_app_nth\<close>)
    then have "?m\<lparr>chunks := (chunks ?m)(h + n := ws ! n)\<rparr> = put_bytes h (take (Suc n) ws) m"
      by (simp add: put_bytes_def)
    ultimately show ?case by (simp only: fun_upd_upd)
  qed
  from this [of "length ws"] show ?thesis using assms(3) by simp
qed

text \<open>Clients create records, insert and remove them, and release records that are not in the tree. \<open>Q\<close> gives the keys of the
  records, \<open>T\<close> is the map the tree stands for. The memory may have other owners.\<close>

inductive tree_run :: "float_ops \<Rightarrow> CmpCookie \<Rightarrow> (nat \<rightharpoonup> byte list) \<Rightarrow> (nat \<rightharpoonup> int) \<Rightarrow> (int \<rightharpoonup> nat) \<Rightarrow> nat \<Rightarrow> bin_malloc tree_mem \<Rightarrow> bool" for fo ck others where
  start: "field_type ck = Signed \<Longrightarrow> bm_run others (heap s) \<Longrightarrow> nodes s = Map.empty \<Longrightarrow> tree_run fo ck others Map.empty Map.empty 0 s"
| create: "tree_run fo ck others Q T r s \<Longrightarrow> bm_Malloc (length bs) (heap s) = Some (h, m) \<Longrightarrow> h \<noteq> INVALID \<Longrightarrow> record_key ck bs q \<Longrightarrow>
    tree_run fo ck others (Q(h \<mapsto> q)) T r (s\<lparr>heap := put_bytes h bs m\<rparr>)"
| release: "tree_run fo ck others Q T r s \<Longrightarrow> Q h = Some q \<Longrightarrow> h \<notin> ran T \<Longrightarrow> bm_Free h (heap s) = Some (rc, m) \<Longrightarrow> tree_run fo ck others (Q(h := None)) T r (s\<lparr>heap := m\<rparr>)"
| insert: "tree_run fo ck others Q T r s \<Longrightarrow> Q h = Some k \<Longrightarrow> tree_Insert (signed_env fo ck) k h r s = Some (0, r', s') \<Longrightarrow> tree_run fo ck others Q (T(k \<mapsto> h)) r' s'"
| no_insert: "tree_run fo ck others Q T r s \<Longrightarrow> Q h = Some k \<Longrightarrow> tree_Insert (signed_env fo ck) k h r s = Some (rc, r', s') \<Longrightarrow> rc \<noteq> 0 \<Longrightarrow> tree_run fo ck others Q T r' s'"
| delete: "tree_run fo ck others Q T r s \<Longrightarrow> k \<in> near \<Longrightarrow> tree_Delete (signed_env fo ck) k r s = Some (rc, r', s') \<Longrightarrow> tree_run fo ck others Q (T(k := None)) r' s'"
| destroy: "tree_run fo ck others Q T r s \<Longrightarrow> tree_Destroy (signed_env fo ck) r s = Some (rc, r', s') \<Longrightarrow> tree_run fo ck others (Q |` (- ran T)) Map.empty r' s'"
| flag: "tree_run fo ck others Q T r s \<Longrightarrow> tree_run fo ck others Q T r (s\<lparr>node_flag := b\<rparr>)"

lemma signed_create:
  assumes r: "signed_rel ck others A Q m" and m: "bm_Malloc (length bs) m = Some (h, m')" "h \<noteq> 0" "record_key ck bs q"
  shows "signed_rel ck others A (Q(h \<mapsto> q)) (put_bytes h bs m')" "h \<notin> A" "Q h = None"
proof -
  obtain C where C: "bm_run C m" "dom C = dom others \<union> A \<union> dom Q" "dom others \<inter> (A \<union> dom Q) = {}" "A \<inter> dom Q = {}"
    "\<forall>h bs. others h = Some bs \<longrightarrow> C h = Some bs" "\<forall>h q. Q h = Some q \<longrightarrow> (\<exists>bs. C h = Some bs \<and> record_key ck bs q)" "field_type ck = Signed"
    by (rule signed_relE [OF r])
  note f = malloc_fresh [OF C(1) m(1,2)]
  show hd: "h \<notin> A" "Q h = None" using C(2) f(1) by auto
  from put_bytes_run [OF f(2), of h "contents h (length bs) (chunks m')" bs] have "bm_run (C(h \<mapsto> bs)) (put_bytes h bs m')" by simp
  then show "signed_rel ck others A (Q(h \<mapsto> q)) (put_bytes h bs m')" by (rule signed_relI) (use C f(1) m(3) in auto)
qed

lemma ordered_cong: "(\<And>x. x \<in> set xs \<Longrightarrow> Q' x = Q x) \<Longrightarrow> ordered Q' xs = ordered Q xs"
  by (induction xs) (auto simp: domIff)

lemma tree_state_records:
  assumes "tree_state rel Q T r s" "\<And>A. rel A Q (heap s) \<Longrightarrow> rel A Q' m" "\<And>x. x \<in> ran T \<Longrightarrow> Q' x = Q x"
  shows "tree_state rel Q' T r (s\<lparr>heap := m\<rparr>)"
proof -
  obtain A t where t: "rel A Q (heap s)" "rep (nodes s) t" "r = root t" "addrs t \<subseteq> A" "\<forall>k x. T k = Some x \<longleftrightarrow> x \<in> set (inorder t) \<and> Q x = Some k"
    "avl t" "filled t" "ordered Q (inorder t)" "A = addrs t" by (rule tree_stateE [OF assms(1)])
  have ran: "ran T = set (inorder t)" using t(5) ordered_dom [OF t(8)] by (auto simp: ran_def)
  have o: "ordered Q' (inorder t)" using ordered_cong [of "inorder t" Q' Q] assms(3) ran t(8) by simp
  show ?thesis by (rule tree_stateI [of rel A Q' _ t]) (use t o assms(2,3) ran in auto)
qed

lemma run_state: "tree_run fo ck others Q T r s \<Longrightarrow> tree_state (signed_rel ck others) Q T r s"
proof (induction rule: tree_run.induct)
  case (start s)
  have "signed_rel ck others {} Map.empty (heap s)" using start by (intro signed_relI [of others]) auto
  then show ?case by (rule tree_stateI [where t = Tip]) auto
next
  case (create Q T r s bs h m q)
  have "Q h = None" if "signed_rel ck others A Q (heap s)" for A using signed_create(3) [OF that create(2) _ create(4)] create(3) by simp
  then have ran: "h \<notin> ran T" using create.IH by (auto simp: tree_state_def ran_def)
  have c: "signed_rel ck others A (Q(h \<mapsto> q)) (put_bytes h bs m)" if "signed_rel ck others A Q (heap s)" for A
    by (rule signed_create(1) [OF that create(2) _ create(4)]) (use create(3) in simp)
  show ?case by (rule tree_state_records [OF create.IH c]) (use ran in auto)
next
  case (release Q T r s h q rc m)
  have "signed_rel ck others A (Q(h := None)) m" if "signed_rel ck others A Q (heap s)" for A using signed_free_record [OF that release(2)] release(4) by auto
  then show ?case by (rule tree_state_records [OF release.IH]) (use release(3) in auto)
next
  case (insert Q T r s h k r' s')
  then show ?case using sg.Insert_map [OF insert.IH insert(2), of fo] by (auto simp: EC_KEY_EXIST_def EC_NO_MEM_def simp del: fun_upd_apply)
next
  case (no_insert Q T r s h k rc r' s')
  then show ?case using sg.Insert_map [OF no_insert.IH no_insert(2), of fo] by auto
next
  case (delete Q T r s k rc r' s')
  have "tree_state (signed_rel ck others) Q (if T k = None then T else T(k := None)) r' s'"
    using sg.Delete_map [OF delete.IH delete(2), of fo] delete(3,4) by (auto simp del: fun_upd_apply split: if_splits)
  then show ?case by (cases "T k = None") (simp_all only: fun_upd_idem simp_thms if_True if_False)
next
  case (destroy Q T r s rc r' s')
  then show ?case using sg.Destroy_map [OF destroy.IH, of fo] by auto
next
  case (flag Q T r s b)
  then show ?case by (auto simp: tree_state_def)
qed

end
