(* ===== verification/Tree_Index.thy ===== *)
theory Tree_Index
  imports Tree_Heap
begin

text \<open>
  The index of a tree over the memory of the allocator, in every state its clients can reach: what insertion,
  removal, search and the traversals of \<open>Ttree\<close> return, the shape of the nodes, and the memory of the other owners.
\<close>

section \<open>A small tree\<close>

text \<open>A record of 100 bytes with the key 0, and a tree with the record in its only node.\<close>

definition no_floats :: float_ops where
  "no_floats = \<lparr>d_sub = (\<lambda>x y. 0), d_less = (\<lambda>x y. False), d_of_float = (\<lambda>x. 0), d_trunc = (\<lambda>x. 0)\<rparr>"

definition int_key :: CmpCookie where
  "int_key = \<lparr>field_type = Signed, field_size = 4\<rparr>"

definition heap6 :: bin_malloc where "heap6 = snd (the (bm_Malloc TTREE_NODE_SIZE heap1))"

definition bare1 :: "bin_malloc tree_mem" where
  "bare1 = \<lparr>nodes = Map.empty, heap = heap1, node_flag = False\<rparr>"

definition tree1 :: "bin_malloc tree_mem" where
  "tree1 = \<lparr>nodes = [8320 \<mapsto> node_Init\<lparr>m_ahItems := 8216 # replicate 19 0, m_ushNItems := 1\<rparr>], heap = heap6, node_flag = True\<rparr>"

lemma heap6_eq: "bm_Malloc TTREE_NODE_SIZE heap1 = Some (8320, heap6)"
  using mem1_eq by (simp add: heap6_def TTREE_NODE_SIZE_def heap0_eq(2) heap1_eq(2) blank_heap_def malloc_eval access_eval field_eval no_bits)

lemma put_contents: "put_bytes h (contents h n (chunks m)) m = m"
proof -
  have "(\<lambda>x. if h \<le> x \<and> x < h + n then contents h n (chunks m) ! (x - h) else chunks m x) = chunks m" by (rule ext) (auto simp: contents_def)
  then show ?thesis by (simp add: put_bytes_def)
qed

lemma record_example: "record_key int_key (contents 8216 100 mem1) 0"
proof -
  have z: "mem1 x = 0" if "8216 \<le> x" "x < 8312" for x
    using that by (simp add: mem1_def mem0_def set_fld_outside)
  have "contents 8216 100 mem1 ! i = 0" if "i < 96" for i using z [of "8216 + i"] that by (simp add: contents_nth)
  then show ?thesis by (simp add: record_key_def signed_at_def int_key_def rd32_def index_key_def numeral_eq_Suc near_def)
qed

lemma bare_example: "tree_run no_floats int_key Map.empty [8216 \<mapsto> 0] Map.empty 0 bare1"
proof -
  let ?s = "\<lparr>nodes = Map.empty, heap = heap0, node_flag = False\<rparr>"
  let ?bs = "contents 8216 100 (chunks heap1)"
  have r: "record_key int_key ?bs 0" using record_example by (simp add: heap1_eq(2))
  have "tree_run no_floats int_key Map.empty Map.empty Map.empty 0 ?s"
    by (rule tree_run.start) (use run_example(1) in \<open>simp_all add: int_key_def\<close>)
  from tree_run.create [OF this _ _ r, of 8216 heap1] heap1_eq(1)
  have "tree_run no_floats int_key Map.empty (Map.empty(8216 \<mapsto> 0)) Map.empty 0 (?s\<lparr>heap := put_bytes 8216 ?bs heap1\<rparr>)" by simp
  then show ?thesis by (simp add: put_contents bare1_def)
qed

lemma items_20: "(replicate 20 0)[0 := x] = x # replicate 19 (0 :: nat)"
  by (simp add: numeral_eq_Suc)

lemma insert_example: "tree_Insert (signed_env no_floats int_key) 0 8216 0 bare1 = Some (0, 8320, tree1)"
  using heap6_eq by (simp add: tree_Insert_def node_Alloc_def signed_env_def bare1_def tree1_def node_Init_def PAGE_SIZE_def items_20)

lemma tree_example: "tree_run no_floats int_key Map.empty [8216 \<mapsto> 0] [0 \<mapsto> 8216] 8320 tree1"
  using tree_run.insert [OF bare_example _ insert_example] by simp

lemma state_empty:
  assumes "tree_state rel Q T r s"
  shows "r = 0 \<longleftrightarrow> T = Map.empty"
proof -
  obtain A t where t: "r = 0 \<longleftrightarrow> t = Tip" "dom T = keys Q t" "filled t" by (rule tree_stateE [OF assms])
  have "keys Q t = {} \<longleftrightarrow> t = Tip" using t(3) by (cases t) (auto simp: keys_def)
  then show ?thesis using t(1,2) by auto
qed

section \<open>Changes\<close>

text \<open>(C34) Insertion is the update of the map from keys to records: a key that is there is reported and nothing changes;
  otherwise every later search of a key sees the updated map, unless the allocator had no memory for a node, which is
  reported and leaves the nodes and the root as they were.\<close>

theorem tree_insert:
  assumes "tree_run fo ck others Q T r s" "Q h = Some k"
  shows "\<exists>rc r' s'. tree_Insert (signed_env fo ck) k h r s = Some (rc, r', s') \<and>
    (if T k \<noteq> None then rc = EC_KEY_EXIST \<and> r' = r \<and> s' = s
     else rc = 0 \<and> (\<forall>j \<in> near. tree_Find_record (signed_env fo ck) j r' s' = Some (case (T(k \<mapsto> h)) j of Some x \<Rightarrow> (1, x) | None \<Rightarrow> (0, 0))) \<or>
       rc = EC_NO_MEM \<and> (\<exists>m. bm_Malloc TTREE_NODE_SIZE (heap s) = Some (0, m)) \<and> r' = r \<and> nodes s' = nodes s)"
proof -
  have m: "Malloc (signed_env fo ck) = bm_Malloc TTREE_NODE_SIZE" by (simp add: signed_env_def)
  note I = sg.Insert_map [OF run_state [OF assms(1)] assms(2), of fo, unfolded m]
  obtain rc r' s' where i: "tree_Insert (signed_env fo ck) k h r s = Some (rc, r', s')"
    "rc = 0 \<and> T k = None \<and> tree_state (signed_rel ck others) Q (T(k \<mapsto> h)) r' s' \<or> rc = EC_KEY_EXIST \<and> T k \<noteq> None \<and> r' = r \<and> s' = s \<or>
     rc = EC_NO_MEM \<and> T k = None \<and> (\<exists>m. bm_Malloc TTREE_NODE_SIZE (heap s) = Some (0, m)) \<and> r' = r \<and> nodes s' = nodes s" using I by blast
  then show ?thesis using sg.Find_map [of ck others Q "T(k \<mapsto> h)" r' s' _ fo] by (auto simp del: fun_upd_apply)
qed

theorem tree_insert_witness:
  "tree_Find_record (signed_env no_floats int_key) 0 8320 tree1 = Some (1, 8216) \<and> tree_Find_record (signed_env no_floats int_key) 7 8320 tree1 = Some (0, 0) \<and>
   tree_Insert (signed_env no_floats int_key) 0 8216 8320 tree1 = Some (EC_KEY_EXIST, 8320, tree1)"
proof -
  have "\<forall>j \<in> near. tree_Find_record (signed_env no_floats int_key) j 8320 tree1 = Some (case [0 \<mapsto> 8216] j of Some x \<Rightarrow> (1, x) | None \<Rightarrow> (0, 0))"
    using tree_insert [OF bare_example fun_upd_same] insert_example by (simp del: fun_upd_apply add: EC_NO_MEM_def)
  from this [THEN bspec, of 0] this [THEN bspec, of 7] show ?thesis
    using tree_insert [OF tree_example fun_upd_same] by (simp add: near_def)
qed

text \<open>(C35) Removal takes the key out of the map and nothing else: it returns in every reachable state, a key that is not there
  leaves the tree as it is (the code is 0 for the empty tree and -1 otherwise), later searches see the map without the
  key, and the tree is empty exactly when the map is.\<close>

theorem tree_delete:
  assumes "tree_run fo ck others Q T r s" "k \<in> near"
  shows "\<exists>rc r' s'. tree_Delete (signed_env fo ck) k r s = Some (rc, r', s') \<and>
    rc = (if T k = None \<and> r \<noteq> 0 then - 1 else 0) \<and> (T k = None \<longrightarrow> r' = r \<and> s' = s) \<and> (r' = 0 \<longleftrightarrow> T(k := None) = Map.empty) \<and>
    (\<forall>j \<in> near. tree_Find_record (signed_env fo ck) j r' s' = Some (case (T(k := None)) j of Some x \<Rightarrow> (1, x) | None \<Rightarrow> (0, 0)))"
proof -
  note st = run_state [OF assms(1)]
  obtain rc r' s' where d: "tree_Delete (signed_env fo ck) k r s = Some (rc, r', s')"
    "if T k = None then rc = (if r = 0 then 0 else - 1) \<and> r' = r \<and> s' = s else rc = 0 \<and> tree_state (signed_rel ck others) Q (T(k := None)) r' s'"
    using sg.Delete_map [OF st assms(2), of fo] by blast
  have n: "tree_state (signed_rel ck others) Q (T(k := None)) r' s'" using d(2) st by (cases "T k = None") (simp_all add: fun_upd_idem)
  show ?thesis using d sg.Find_map [OF n, of _ fo] state_empty [OF n] by (cases "T k = None") (auto simp del: fun_upd_apply)
qed

theorem tree_delete_witness:
  "\<exists>s'. tree_Delete (signed_env no_floats int_key) 0 8320 tree1 = Some (0, 0, s') \<and> tree_Delete (signed_env no_floats int_key) 1 8320 tree1 = Some (- 1, 8320, tree1)"
  using tree_delete [OF tree_example, of 0] tree_delete [OF tree_example, of 1] by (auto simp: near_def)

section \<open>Searches and traversals\<close>

text \<open>(C36) Reading: a search finds the record of the key, the search for a handle says whether it is in the tree, and
  the traversals call the visitor exactly on the records of their range, in the order of the keys or backwards, until
  the visitor stops them.\<close>

theorem tree_reads:
  assumes "tree_run fo ck others Q T r s" "k \<in> near" "k1 \<in> near"
  shows "tree_Find_record (signed_env fo ck) k r s = Some (case T k of Some x \<Rightarrow> (1, x) | None \<Rightarrow> (0, 0)) \<and>
    tree_find_handle h r s = Some (if h \<in> ran T then 1 else 0) \<and>
    tree_traverse_forward vis r s c = Some (visit_each (\<lambda>_. True) vis (in_order T UNIV) c) \<and>
    tree_traverse_backward vis r s c = Some (visit_each (\<lambda>_. True) vis (rev (in_order T UNIV)) c) \<and>
    tree_forward_ge (signed_env fo ck) k vis r s c = Some (visit_each (\<lambda>_. True) vis (in_order T {k..}) c) \<and>
    tree_backward_le (signed_env fo ck) k vis r s c = Some (visit_each (\<lambda>_. True) vis (rev (in_order T {..k})) c) \<and>
    tree_forward_range (signed_env fo ck) k k1 vis r s c = Some (visit_each (\<lambda>_. True) vis (in_order T {k..k1}) c) \<and>
    tree_backward_range (signed_env fo ck) k k1 vis r s c = Some (visit_each (\<lambda>_. True) vis (rev (in_order T {k..k1})) c)"
proof -
  note st = run_state [OF assms(1)]
  show ?thesis
    by (intro conjI sg.Find_map [OF st assms(2)] sg.find_handle_map [OF st] sg.traverse_map(1,2) [OF st] sg.range_map(1,2) [OF st assms(2)] sg.range_map(3,4) [OF st assms(2,3)])
qed

theorem tree_reads_witness:
  "tree_Find_record (signed_env no_floats int_key) 0 8320 tree1 = Some (1, 8216) \<and> tree_find_handle 8216 8320 tree1 = Some 1 \<and>
   tree_forward_range (signed_env no_floats int_key) (- 5) 5 (\<lambda>x c. (0, c @ [x])) 8320 tree1 [] = Some (0, [8216])"
proof -
  have k: "- 5 \<in> near" "5 \<in> near" "0 \<in> near" by (auto simp: near_def)
  have o: "in_order [0 \<mapsto> 8216] {- 5..5 :: int} = [8216]" by (simp add: in_order_def)
  show ?thesis using tree_reads [OF tree_example k(1,2), of 8216 "\<lambda>x c. (0, c @ [x])" "[]"] tree_reads [OF tree_example k(3,2), THEN conjunct1]
    by (simp add: o)
qed

text \<open>(C37) A range query with the collecting visitor: the array it fills holds exactly the handles of the records with a key in
  the range, in the order of the keys, and the count is their number.\<close>

theorem tree_range_collects:
  assumes "tree_run fo ck others Q T r s" "k \<in> near" "k1 \<in> near" "nodesNum c = 0" "nodesGot c = 0"
  shows "\<exists>c'. tree_forward_range (signed_env fo ck) k k1 (Visit (chunks (heap s))) r s c = Some (0, c') \<and>
    unat (nodesGot c') = card (dom T \<inter> {k..k1}) \<and> map (m_handle c') [0..<unat (nodesGot c')] = in_order T {k..k1}"
proof -
  let ?xs = "in_order T {k..k1}" and ?v = "Visit (chunks (heap s))"
  have n: "length ?xs = card (dom T \<inter> {k..k1})" by (simp add: in_order_def)
  have "card (dom T \<inter> {k..k1}) \<le> card {k..k1}" by (rule card_mono) auto
  also have "\<dots> < 2 ^ 32" using assms(2,3) by (simp add: near_def) arith
  finally have "unat (nodesGot c) + length (filter (\<lambda>_. True) ?xs) < 2 ^ 32" using n assms(5) by simp
  note V = Visit_collects [OF assms(4) this, of "chunks (heap s)", unfolded assms(5) filter_True [OF ballI [OF TrueI]] unsigned_0 add_0]
  obtain c' where c': "visit_each (\<lambda>_. True) ?v ?xs c = (0, c')" "unat (nodesGot c') = length ?xs" "\<forall>i < length ?xs. m_handle c' i = ?xs ! i"
    using V by blast
  have "map (m_handle c') [0..<unat (nodesGot c')] = ?xs" by (rule nth_equalityI) (simp_all only: length_map length_upt c'(2) diff_zero nth_map nth_upt add_0 c'(3))
  moreover have "tree_forward_range (signed_env fo ck) k k1 ?v r s c = Some (0, c')"
    by (simp only: sg.range_map(3) [OF run_state [OF assms(1)] assms(2,3)] c'(1))
  ultimately show ?thesis using c'(2) n by auto
qed

theorem tree_range_collects_witness:
  "\<exists>c'. tree_forward_range (signed_env no_floats int_key) (- 5) 5 (Visit (chunks (heap tree1))) 8320 tree1 \<lparr>m_handle = (\<lambda>_. 0), nodesGot = 0, nodesNum = 0, rowsGot = 0\<rparr> = Some (0, c') \<and>
     unat (nodesGot c') = 1"
  using tree_range_collects [OF tree_example, of "- 5" 5 "\<lparr>m_handle = (\<lambda>_. 0), nodesGot = 0, nodesNum = 0, rowsGot = 0\<rparr>"] by (auto simp: near_def)

section \<open>Nodes and memory\<close>

lemma rep_node:
  "rep N t \<Longrightarrow> avl t \<Longrightarrow> filled t \<Longrightarrow> a \<in> addrs t \<Longrightarrow> \<exists>n. N a = Some n \<and> length (m_ahItems n) = PAGE_SIZE \<and> 1 \<le> m_ushNItems n \<and> m_ushNItems n \<le> PAGE_SIZE \<and>
     m_chBalance n \<in> {- 1, 0, 1} \<and> set (take (m_ushNItems n) (m_ahItems n)) \<subseteq> set (inorder t) \<and>
     {m_hLeft n, m_hRight n} \<subseteq> insert 0 (addrs t)"
proof (induction t)
  case (Nd l x b xs r)
  have ends: "root l \<in> insert 0 (addrs l)" "root r \<in> insert 0 (addrs r)" by (cases l; auto) (cases r; auto)
  from Nd.prems consider "a = x" | "a \<in> addrs l" | "a \<in> addrs r" by auto
  then show ?case
  proof cases
    case 1
    then obtain ys where "N a = Some (mk_node (root l) (root r) b (length xs) (xs @ ys))" "length (xs @ ys) = PAGE_SIZE" using Nd.prems(1) repnE by force
    then show ?thesis using Nd.prems(2,3) ends by (auto simp: Suc_le_eq)
  next
    case 2
    then obtain n where "N a = Some n" "length (m_ahItems n) = PAGE_SIZE" "1 \<le> m_ushNItems n" "m_ushNItems n \<le> PAGE_SIZE" "m_chBalance n \<in> {- 1, 0, 1}"
      "set (take (m_ushNItems n) (m_ahItems n)) \<subseteq> set (inorder l)" "{m_hLeft n, m_hRight n} \<subseteq> insert 0 (addrs l)" using Nd.IH(1) Nd.prems(1-3) by auto
    then show ?thesis by (intro exI [of _ n]) auto
  next
    case 3
    then obtain n where "N a = Some n" "length (m_ahItems n) = PAGE_SIZE" "1 \<le> m_ushNItems n" "m_ushNItems n \<le> PAGE_SIZE" "m_chBalance n \<in> {- 1, 0, 1}"
      "set (take (m_ushNItems n) (m_ahItems n)) \<subseteq> set (inorder r)" "{m_hLeft n, m_hRight n} \<subseteq> insert 0 (addrs r)" using Nd.IH(2) Nd.prems(1-3) by auto
    then show ?thesis by (intro exI [of _ n]) auto
  qed
qed simp

lemma nodes_items: "rep N t \<Longrightarrow> filled t \<Longrightarrow> card (addrs t) \<le> length (inorder t)"
proof (induction t)
  case (Nd l a b xs r)
  have "card (addrs (Nd l a b xs r)) = card (addrs l) + card (addrs r) + 1" using Nd.prems(1) by (simp add: card_Un_disjoint)
  moreover have "1 \<le> length xs" using Nd.prems(2) by (simp add: Suc_le_eq)
  ultimately show ?case using Nd by simp
qed simp

text \<open>(C38) The nodes of a tree are well formed: they are a finite set of addresses that holds the root and is closed
  under both pointers, every node has the full array with one to twenty items of the tree in use and a balance of -1, 0
  or 1, and the pointers from the root form a balanced tree whose height is at most about twice the
  logarithm of the number of records.\<close>

theorem tree_nodes:
  assumes "tree_run fo ck others Q T r s"
  shows "\<exists>t. rep (nodes s) t \<and> root t = r \<and> avl t \<and> 2 ^ (height t div 2) \<le> card (dom T) + 1 \<and>
    (\<forall>a \<in> addrs t. \<exists>n. nodes s a = Some n \<and> length (m_ahItems n) = PAGE_SIZE \<and> 1 \<le> m_ushNItems n \<and> m_ushNItems n \<le> PAGE_SIZE \<and>
       m_chBalance n \<in> {- 1, 0, 1} \<and> set (take (m_ushNItems n) (m_ahItems n)) \<subseteq> ran T \<and> {m_hLeft n, m_hRight n} \<subseteq> insert 0 (addrs t))"
proof -
  obtain A t where t: "rep (nodes s) t" "r = root t" "\<forall>k x. T k = Some x \<longleftrightarrow> x \<in> set (inorder t) \<and> Q x = Some k" "dom T = keys Q t" "avl t" "filled t" "ordered Q (inorder t)"
    by (rule tree_stateE [OF run_state [OF assms]])
  have ran: "ran T = set (inorder t)" using t(3) ordered_dom [OF t(7)] by (auto simp: ran_def)
  have "inj_on (key Q) (set (inorder t))" using ordered_inj [OF t(7)] by (auto intro: inj_onI)
  then have "card (dom T) = length (inorder t)" using t(4) ordered_distinct [OF t(7)] by (simp add: keys_def card_image distinct_card)
  then have "2 ^ (height t div 2) \<le> card (dom T) + 1" using avl_nodes [OF t(5,1)] nodes_items [OF t(1,6)] by simp
  then show ?thesis using t rep_node [OF t(1,5,6)] unfolding ran by (intro exI [of _ t]) auto
qed

theorem tree_nodes_witness:
  "\<exists>t. rep (nodes tree1) t \<and> root t = 8320 \<and> avl t \<and> 2 ^ (height t div 2) \<le> (2 :: nat)"
  using tree_nodes [OF tree_example] by (auto simp: numeral_2_eq_2)



text \<open>(C40) Nothing is lost: when the tree holds every record and the memory has no other owner, destroying the tree returns
  and gives all nodes and records back, so that the allocator is as empty as a fresh one.\<close>

theorem tree_destroy_reclaims:
  assumes "tree_run fo ck Map.empty Q T r s" "dom Q \<subseteq> ran T"
  shows "\<exists>s'. tree_Destroy (signed_env fo ck) r s = Some (0, 0, s') \<and> m_hTop (heap s') = m_hBottom (heap s') \<and>
    (\<forall>i < NBINS. empty_bin i (heap s')) \<and> unat (m_tUserAllocSize (heap s')) = m_hBottom (heap s')"
proof -
  obtain s' where s': "tree_Destroy (signed_env fo ck) r s = Some (0, 0, s')" "tree_state (signed_rel ck Map.empty) (Q |` (- ran T)) Map.empty 0 s'"
    using sg.Destroy_map [OF run_state [OF assms(1)], of fo] by blast
  obtain A t where t: "signed_rel ck Map.empty A (Q |` (- ran T)) (heap s')" "A = addrs t" "(0 :: nat) = 0 \<longleftrightarrow> t = Tip" by (rule tree_stateE [OF s'(2)])
  obtain C where C: "bm_run C (heap s')" "dom C = dom (Map.empty :: nat \<rightharpoonup> byte list) \<union> A \<union> dom (Q |` (- ran T))" by (rule signed_relE [OF t(1)])
  have "C = Map.empty" using C(2) t(2,3) assms(2) by auto
  then show ?thesis using s'(1) reclaimed C(1) by blast
qed

theorem tree_destroy_reclaims_witness:
  "\<exists>s'. tree_Destroy (signed_env no_floats int_key) 8320 tree1 = Some (0, 0, s') \<and> m_hTop (heap s') = m_hBottom (heap s')"
  using tree_destroy_reclaims [OF tree_example] by auto

end
