(* ===== verification/Spec2Isabelle.thy ===== *)
theory Spec2Isabelle
  imports Lru_Bit Key_Format Ng_Info Ternary Order_Op Stem Cache_Hash Bin_Run Tree_Index
begin

text \<open>
  \<^bold>\<open>A verification development for isearch.\<close>

  \<^bold>\<open>The program.\<close> isearch is a full-text search engine in three processes. The index storage
  (\<^verbatim>\<open>src/src/search_local/index_storage\<close>) is a cache server: rows live in one block of shared memory
  with an allocator of its own, are found through a hash table of chained nodes, and are written
  behind to RocksDB under keys whose byte order is the order of the rows; changed nodes are recorded in
  a bitmap for hot backup. The read service (\<^verbatim>\<open>src/src/search_local/index_read\<close>) answers queries:
  it collects scored documents, orders and pages them, and suggests completions of a prefix. The write
  service (\<^verbatim>\<open>src/src/search_local/index_write\<close>) splits documents into words and stores them.
  \<^verbatim>\<open>src/src/comm\<close> holds what the services share, such as UTF-8 strings and the stemmer.
  The development follows the data: the memory and the structures in it, the key format of the
  disk, and the selection of results.

  \<^bold>\<open>Conventions.\<close> A structure is a record with the fields of the source, a pointer into shared
  memory an offset or a handle, and an object behind a handle an entry of a map. \<open>None\<close> is behaviour the
  language does not define: an access outside an array or through a handle that is not mapped, a
  remainder by zero, or the overflow of a signed integer. An error the code reports is a value. Unsigned
  integers that can wrap are words or have the remainder written out; positions that stay in range by
  the code's own bounds are natural numbers. Code outside the repository is an argument: the arithmetic and
  the decimal conversion of doubles, \<^verbatim>\<open>std::sort\<close>, the clock. So are, where a
  component is used through an interface, the allocation of node groups, the extra filter of the
  document manager, and the key stored with a row.

  \<^bold>\<open>The theories.\<close>

  \<^item> \<^verbatim>\<open>Prelude\<close>, \<^verbatim>\<open>Bytes\<close>: machine types, byte memory, byte strings and their order, decimal text; the
    interfaces \<open>key_set\<close> (a mutable set of keys), \<open>id_pool\<close> (an allocator of numbers) and \<open>ordered_codec\<close>
    (an order-preserving, self-delimiting encoding).
  \<^item> \<^verbatim>\<open>Bitsop\<close>, \<^verbatim>\<open>Lru_Bit\<close>: the bit operations (\<^verbatim>\<open>common/bitsop.h\<close>, \<^verbatim>\<open>bitsop.c\<close>) and the change
    bitmap of hot backup (\<^verbatim>\<open>cache/lru_bit.h\<close>, \<^verbatim>\<open>lru_bit.cc\<close>). Both are interpretations of \<open>key_set\<close>; the
    bitmap refines a set of node ids, and repeated scans report every marked id exactly once.
  \<^item> \<^verbatim>\<open>Key_Format\<close>: the keys of RocksDB (\<^verbatim>\<open>rocksdb_helper/key_format.cc\<close>) and their comparator. Each field
    type interprets \<open>ordered_codec\<close>; the byte order of keys is the order of rows, and decoding gives the row back.
  \<^item> \<^verbatim>\<open>Linked_List\<close>, \<^verbatim>\<open>Node_Store\<close>, \<^verbatim>\<open>Ng_Info\<close>: node groups, node index, intrusive lists and node manager
    (\<^verbatim>\<open>cache/node_set.cc\<close>, \<^verbatim>\<open>node_index.cc\<close>, \<^verbatim>\<open>ng_list.h\<close>, \<^verbatim>\<open>node_list.h\<close>, \<^verbatim>\<open>ng_info.cc\<close>). The lists are
    verified once over \<open>link_store\<close>, which both kinds of links interpret; a group interprets \<open>id_pool\<close>. One
    invariant of the whole store is kept by starting, allocating and releasing.
  \<^item> \<^verbatim>\<open>Hash_Table\<close>, \<^verbatim>\<open>Cache_Hash\<close>: the hash functions and buckets (\<^verbatim>\<open>cache/hash.h\<close>, \<^verbatim>\<open>hash.cc\<close>,
    \<^verbatim>\<open>common/new_hash.cc\<close>) and the chains of the buffer pool (\<^verbatim>\<open>cache/buffer_pool.cc\<close>) over \<open>next_store\<close>,
    with the migration from the old hash function to the new one while searches run.
  \<^item> \<^verbatim>\<open>Chunk_Memory\<close>, \<^verbatim>\<open>Bin_Malloc\<close>, \<^verbatim>\<open>Bin_Realloc\<close>: the allocator of the shared memory
    (\<^verbatim>\<open>cache/pt_malloc.h\<close>, \<^verbatim>\<open>pt_malloc.cc\<close>) on bytes, over the interfaces \<open>chunk_store\<close> and
    \<open>linked_chunks\<close> of header fields at addresses. \<^verbatim>\<open>Bin_Layout\<close> states its invariant: the memory is tiled by
    chunks whose boundary tags and bins agree. \<^verbatim>\<open>Bin_Free\<close>, \<^verbatim>\<open>Bin_Alloc\<close>, \<^verbatim>\<open>Bin_Heap\<close>, \<^verbatim>\<open>Bin_Resize\<close> show
    that every operation keeps it; \<^verbatim>\<open>Bin_Run\<close> refines all runs of clients to a map from handles to byte strings,
    and \<^verbatim>\<open>Bin_Example\<close> evaluates a small memory for the witnesses.
  \<^item> \<^verbatim>\<open>Heap_Array\<close>, \<^verbatim>\<open>Priority_Queue\<close>, \<^verbatim>\<open>Utf8_Str\<close>, \<^verbatim>\<open>Ternary\<close>: the bounded queue
    (\<^verbatim>\<open>index_read/priority_queue.h\<close>), strings by character (\<^verbatim>\<open>comm/utf8_str.cc\<close>) and the suggestion
    tree (\<^verbatim>\<open>index_read/ternary.cc\<close>): a prefix query answers the most frequent words with the prefix. Both heaps of
    the read service interpret \<open>bounded_selection\<close>, a selection that keeps the best elements it was offered.
  \<^item> \<^verbatim>\<open>Max_Heap\<close>, \<^verbatim>\<open>Order_Op\<close>: the selection of the first documents (\<^verbatim>\<open>index_read/utils/max_heap.h\<close>, over
    \<open>heap_entries\<close>) and ordering and paging (\<^verbatim>\<open>index_read/order_op.h\<close>).
  \<^item> \<^verbatim>\<open>Stem\<close>: the Porter stemmer (\<^verbatim>\<open>comm/stem.cc\<close>): it never leaves the word it is given, never makes it
    longer, and a text is always stemmed to its end.
  \<^item> \<^verbatim>\<open>T_Tree\<close>, \<^verbatim>\<open>T_Tree_Key\<close>: the balanced tree that indexes the rows of one key
    (\<^verbatim>\<open>cache/t_tree.h\<close>, \<^verbatim>\<open>t_tree.cc\<close>): insertion, removal, search, release and the traversals, with the
    comparison of keys and the collecting visitor. \<^verbatim>\<open>T_Tree_Rep\<close> relates the nodes in memory to trees as values;
    \<^verbatim>\<open>T_Tree_Insert\<close>, \<^verbatim>\<open>T_Tree_Delete\<close>, \<^verbatim>\<open>T_Tree_Read\<close>, \<^verbatim>\<open>T_Tree_Map\<close> show over the interface \<open>tree_memory\<close> (an
    allocator of nodes and a comparison with the laws of an order) that the operations implement a map from keys to
    records. \<^verbatim>\<open>Tree_Heap\<close> interprets the interface with the verified allocator and the comparison of signed integer
    keys, and \<^verbatim>\<open>Tree_Index\<close> states the results for every state the clients can reach. Node structures are
    kept in a map beside the bytes of the allocator, which the tree owns but does not address bytewise.

  \<^bold>\<open>Loops and bounds.\<close> Loops over positions are total functions with a measure. Loops along pointers, which
  do not end on a damaged structure, are \<open>partial_function (option)\<close>: \<open>None\<close> then is also a loop
  without end, and the theorems show that on every state of the invariant they return. No definition has
  fuel; the bins of the allocator are searched in at most 99 steps because the code numbers its
  bins so. The memory of the allocator is at most \<open>MAX_ALLOC_SIZE\<close> bytes, which is where its 32-bit sizes
  are exact; strings are shorter than \<open>2 ^ 31\<close> bytes. Keys of
  the tree lie within \<open>2 ^ 30\<close> of zero: the code narrows their difference to 32 bits, and keys further apart
  collide (\<^verbatim>\<open>T_Tree_Key.far_keys_collide\<close>).

  \<^bold>\<open>Not modelled.\<close> The network and thread code (pollers, listeners, agents, helpers, proxies), configuration,
  logging and statistics do input and output or call the operating system. RocksDB, protocol buffers, the
  JSON and XML libraries and the test framework are other people's code. The row formats
  (\<^verbatim>\<open>cache/raw_data.cc\<close>, \<^verbatim>\<open>tree_data.cc\<close>), the request processing above them
  (\<^verbatim>\<open>cache/buffer_process.cc\<close>, \<^verbatim>\<open>rocksdb_helper/db_process_rocks.cc\<close>), the query processing of
  the read service and the write service depend on table definitions, task objects and
  results whose classes reach through the whole server; they are clients of the components above and
  are left out.
\<close>

end
